(* ===== verification/Upnp_Prelude.thy ===== *)
theory Upnp_Prelude
  imports Main "HOL-Library.Monad_Syntax"
begin

text \<open>
  The prelude of the development: the C vocabulary that every component shares
  (addresses, the \<open>NULL\<close> pointer, error codes of \<^verbatim>\<open>upnp/inc/upnp.h\<close>, bytes read as signed
  \<open>char\<close>, the character classes of \<^verbatim>\<open>ctype.h\<close>, \<open>strncmp\<close> and \<open>strncasecmp\<close>), the named
  collections of rewrite rules, and the generic list lemmas the component proofs use.
\<close>

section \<open>Collections of facts\<close>

named_theorems cdefs \<open>unfolding rules for the C-level helper definitions\<close>
named_theorems codes \<open>numeric values of the error codes\<close>

section \<open>Addresses and error codes\<close>

type_synonym addr = nat

abbreviation (input) NULL :: addr where
  "NULL \<equiv> 0"

definition EINVAL :: int where [codes]: "EINVAL = 22"
definition EAGAIN :: int where [codes]: "EAGAIN = 11"
definition ETIMEDOUT :: int where [codes]: "ETIMEDOUT = 110"

definition UPNP_E_SUCCESS :: int where [codes]: "UPNP_E_SUCCESS = 0"
definition UPNP_E_OUTOF_MEMORY :: int where [codes]: "UPNP_E_OUTOF_MEMORY = -104"
definition UPNP_E_INVALID_URL :: int where [codes]: "UPNP_E_INVALID_URL = -108"
definition UPNP_E_OUTOF_BOUNDS :: int where [codes]: "UPNP_E_OUTOF_BOUNDS = -506"

section \<open>Bytes\<close>

text \<open>
  A C \<open>char\<close> is a byte; read as an \<open>int\<close> it is signed on the platforms the library is built
  for, so bytes from 128 are negative.
\<close>

definition byte_of :: "char \<Rightarrow> nat" where
  "byte_of c = of_char c"

definition schar :: "char \<Rightarrow> int" where
  "schar c = (let b = int (byte_of c) in if b < 128 then b else b - 256)"

definition NUL :: char where
  "NUL = CHR 0x00"

lemma byte_of_less [simp]: "byte_of c < 256"
  by (simp add: byte_of_def)

lemma byte_of_inject [simp]: "byte_of a = byte_of b \<longleftrightarrow> a = b"
  by (simp add: byte_of_def)

lemma byte_of_NUL [simp]: "byte_of NUL = 0"
  by (simp add: byte_of_def NUL_def)

lemma byte_of_pos [simp]: "0 < byte_of c \<longleftrightarrow> c \<noteq> NUL"
  by (metis byte_of_NUL byte_of_inject gr_zeroI less_numeral_extra(3))

text \<open>The classes of \<^verbatim>\<open>ctype.h\<close> in the C locale.\<close>

definition isdigit :: "char \<Rightarrow> bool" where
  "isdigit c \<longleftrightarrow> 48 \<le> byte_of c \<and> byte_of c \<le> 57"

definition isupper :: "char \<Rightarrow> bool" where
  "isupper c \<longleftrightarrow> 65 \<le> byte_of c \<and> byte_of c \<le> 90"

definition islower :: "char \<Rightarrow> bool" where
  "islower c \<longleftrightarrow> 97 \<le> byte_of c \<and> byte_of c \<le> 122"

definition isalpha :: "char \<Rightarrow> bool" where
  "isalpha c \<longleftrightarrow> isupper c \<or> islower c"

definition isalnum :: "char \<Rightarrow> bool" where
  "isalnum c \<longleftrightarrow> isalpha c \<or> isdigit c"

definition isxdigit :: "char \<Rightarrow> bool" where
  "isxdigit c \<longleftrightarrow> isdigit c \<or> (65 \<le> byte_of c \<and> byte_of c \<le> 70) \<or>
     (97 \<le> byte_of c \<and> byte_of c \<le> 102)"

definition tolower :: "char \<Rightarrow> char" where
  "tolower c = (if isupper c then char_of (byte_of c + 32) else c)"

lemmas ctype_defs [cdefs] =
  isdigit_def isupper_def islower_def isalpha_def isalnum_def isxdigit_def

lemma byte_of_tolower:
  "byte_of (tolower c) = (if isupper c then byte_of c + 32 else byte_of c)"
  by (auto simp: tolower_def byte_of_def isupper_def)

lemma tolower_idem [simp]: "tolower (tolower c) = tolower c"
  by (simp add: byte_of_inject [symmetric] byte_of_tolower isupper_def del: byte_of_inject)

section \<open>String comparison\<close>

text \<open>
  \<open>strncmp a b n\<close> on NUL-terminated strings, given here without their terminators: the
  difference of the first differing bytes (the terminator counts as 0), 0 if there is none
  among the first \<open>n\<close>. \<open>strncasecmp\<close> folds both sides to lower case.
\<close>

fun strncmp_by :: "(char \<Rightarrow> int) \<Rightarrow> string \<Rightarrow> string \<Rightarrow> nat \<Rightarrow> int" where
  "strncmp_by f a b 0 = 0"
| "strncmp_by f [] [] (Suc n) = 0"
| "strncmp_by f (x # a) [] (Suc n) = f x - 0"
| "strncmp_by f [] (y # b) (Suc n) = 0 - f y"
| "strncmp_by f (x # a) (y # b) (Suc n) =
     (if f x \<noteq> f y then f x - f y else strncmp_by f a b n)"

definition strncmp :: "string \<Rightarrow> string \<Rightarrow> nat \<Rightarrow> int" where
  "strncmp = strncmp_by (\<lambda>c. int (byte_of c))"

definition strncasecmp :: "string \<Rightarrow> string \<Rightarrow> nat \<Rightarrow> int" where
  "strncasecmp = strncmp_by (\<lambda>c. int (byte_of (tolower c)))"

section \<open>Numbers in strings\<close>

text \<open>
  \<open>strtol s base\<close> on a NUL-terminated string (given from its first character, anything behind a NUL is
  not read): white space, a sign, for base 16 an optional \<open>0x\<close>, then digits. The result is the value,
  clamped to 64 bits, the number of characters used (0 if there are no digits), and whether it was
  clamped.
\<close>

definition isspace :: "char \<Rightarrow> bool" where
  "isspace c \<longleftrightarrow> byte_of c = 32 \<or> (9 \<le> byte_of c \<and> byte_of c \<le> 13)"

definition digit_value :: "char \<Rightarrow> nat" where
  "digit_value c =
     (if isdigit c then byte_of c - 48
      else if islower c then byte_of c - 87
      else if isupper c then byte_of c - 55 else 99)"

fun digits_value :: "nat \<Rightarrow> nat \<Rightarrow> string \<Rightarrow> nat \<times> nat" where
  "digits_value base acc [] = (acc, 0)"
| "digits_value base acc (c # cs) =
     (if digit_value c < base
      then case digits_value base (acc * base + digit_value c) cs of (v, n) \<Rightarrow> (v, Suc n)
      else (acc, 0))"

definition hex_prefix :: "nat \<Rightarrow> string \<Rightarrow> nat" where
  "hex_prefix base s =
     (case s of (a # x # d # _) \<Rightarrow>
        if base = 16 \<and> a = CHR ''0'' \<and> (x = CHR ''x'' \<or> x = CHR ''X'') \<and> digit_value d < 16 then 2 else 0
      | _ \<Rightarrow> 0)"

definition skip_space :: "string \<Rightarrow> nat" where
  "skip_space s = length (takeWhile isspace s)"

definition sign_length :: "string \<Rightarrow> nat" where
  "sign_length s = (if s \<noteq> [] \<and> (hd s = CHR ''-'' \<or> hd s = CHR ''+'') then 1 else 0)"

text \<open>The length of everything in front of the digits.\<close>

definition number_prefix :: "string \<Rightarrow> nat \<Rightarrow> nat" where
  "number_prefix s base =
     (let k = skip_space s; j = k + sign_length (drop k s) in j + hex_prefix base (drop j s))"

definition strtol :: "string \<Rightarrow> nat \<Rightarrow> int \<times> nat \<times> bool" where
  "strtol s base =
     (let k = number_prefix s base; s1 = drop (skip_space s) s;
          neg = (s1 \<noteq> [] \<and> hd s1 = CHR ''-'');
          (v, n) = digits_value base 0 (drop k s);
          x = (if neg then - int v else int v)
      in if n = 0 then (0, 0, False)
         else if 2 ^ 63 - 1 < x then (2 ^ 63 - 1, k + n, True)
         else if x < - (2 ^ 63) then (- (2 ^ 63), k + n, True)
         else (x, k + n, False))"

text \<open>The conversion of a \<open>long\<close> to a 32-bit \<open>int\<close>.\<close>

definition to_int32 :: "int \<Rightarrow> int" where
  "to_int32 x = (x + 2 ^ 31) mod 2 ^ 32 - 2 ^ 31"

lemma digits_value_length: "digits_value base acc s = (v, n) \<Longrightarrow> n \<le> length s"
  by (induction s arbitrary: acc v n) (auto split: if_splits prod.splits)

lemma hex_prefix_le: "hex_prefix base t \<le> length t"
  by (auto simp: hex_prefix_def split: list.splits)

lemma number_prefix_le: "number_prefix s base \<le> length s"
proof -
  let ?k = "skip_space s"
  have 1: "?k \<le> length s" unfolding skip_space_def by (rule length_takeWhile_le)
  have 2: "sign_length t \<le> length t" for t by (cases t) (auto simp: sign_length_def)
  show ?thesis
    using 1 2 [of "drop ?k s"] hex_prefix_le [of base "drop (?k + sign_length (drop ?k s)) s"]
    by (simp add: number_prefix_def Let_def)
qed

lemma strtol_used:
  assumes "strtol s base = (v, n, e)"
  shows "n \<le> length s"
proof -
  obtain w k where d: "digits_value base 0 (drop (number_prefix s base) s) = (w, k)" by fastforce
  have "n = 0 \<or> n = number_prefix s base + k"
    using assms d by (auto simp: strtol_def Let_def split: if_splits)
  then show ?thesis using digits_value_length [OF d] number_prefix_le [of s base] by auto
qed

section \<open>Sizes\<close>

text \<open>Sums and differences of \<open>size_t\<close> values wrap around at $2^{64}$.\<close>

definition size_add :: "nat \<Rightarrow> nat \<Rightarrow> nat" where
  "size_add a b = (a + b) mod 2 ^ 64"

definition size_sub :: "nat \<Rightarrow> nat \<Rightarrow> nat" where
  "size_sub a b = (a + 2 ^ 64 - b) mod 2 ^ 64"

lemma size_add_small [simp]: "a + b < 2 ^ 64 \<Longrightarrow> size_add a b = a + b"
  by (simp add: size_add_def)

lemma mod_sub: "b \<le> a \<Longrightarrow> a < N \<Longrightarrow> (a + N - b) mod N = a - (b :: nat)"
  by (metis Nat.add_diff_assoc2 less_imp_diff_less mod_add_self2 mod_less)

lemma size_sub_small [simp]: "b \<le> a \<Longrightarrow> a < 2 ^ 64 \<Longrightarrow> size_sub a b = a - b"
  unfolding size_sub_def by (rule mod_sub)

section \<open>Lists\<close>

lemma take_while_append_split:
  "takeWhile P xs @ dropWhile P xs = xs"
  by simp

lemma takeWhile_append_stop:
  "length (takeWhile P xs) < length xs \<Longrightarrow> takeWhile P (xs @ ys) = takeWhile P xs"
  by (induction xs) auto

lemma distinct_mid:
  "distinct (xs @ x # ys) \<longleftrightarrow> x \<notin> set xs \<and> x \<notin> set ys \<and> distinct (xs @ ys)"
  by auto

end
