(* ===== verification/Free_List.thy ===== *)
theory Free_List
  imports Upnp_Prelude
begin

text \<open>
  The free list of \<^verbatim>\<open>upnp/src/threadutil/FreeList.c\<close>: a pool of memory cells of one size that
  are handed out again before \<open>malloc\<close> is asked, with a bound on how many cells are kept.
  The chain of free cells, linked through their first word in the source, is the list
  \<open>fl_head\<close> of their addresses; \<open>malloc\<close> is the argument \<open>mal\<close> (the address it returned, \<open>NULL\<close>
  when memory is exhausted); the addresses passed to \<open>free\<close> are returned.
\<close>

record FreeList =
  fl_head :: "addr list"
  element_size :: nat
  maxFreeListLength :: int
  freeListLength :: int

definition FreeListInit :: "FreeList \<Rightarrow> nat \<Rightarrow> int \<Rightarrow> int \<times> FreeList" where
  "FreeListInit free_list elementSize maxLen =
     (0, free_list\<lparr>element_size := elementSize, maxFreeListLength := maxLen,
                   fl_head := [], freeListLength := 0\<rparr>)"

definition FreeListAlloc :: "addr \<Rightarrow> FreeList \<Rightarrow> addr \<times> FreeList" where
  "FreeListAlloc mal free_list =
     (case fl_head free_list of
        ret # rest \<Rightarrow>
          (ret, free_list\<lparr>fl_head := rest, freeListLength := freeListLength free_list - 1\<rparr>)
      | [] \<Rightarrow> (mal, free_list))"

definition FreeListFree :: "FreeList \<Rightarrow> addr \<Rightarrow> int \<times> FreeList \<times> addr list" where
  "FreeListFree free_list element =
     (if element \<noteq> NULL \<and> freeListLength free_list + 1 < maxFreeListLength free_list
      then (0, free_list\<lparr>freeListLength := freeListLength free_list + 1,
                         fl_head := element # fl_head free_list\<rparr>, [])
      else (0, free_list, if element = NULL then [] else [element]))"

fun FreeListDestroy_loop :: "addr list \<Rightarrow> addr list" where
  "FreeListDestroy_loop [] = []"
| "FreeListDestroy_loop (a # temp) = a # FreeListDestroy_loop temp"

definition FreeListDestroy :: "FreeList \<Rightarrow> int \<times> FreeList \<times> addr list" where
  "FreeListDestroy free_list =
     (0, free_list\<lparr>fl_head := [], freeListLength := 0\<rparr>, FreeListDestroy_loop (fl_head free_list))"

section \<open>Invariant\<close>

text \<open>
  The count is the length of the chain, no cell is twice in it, none is \<open>NULL\<close>, and the chain
  is shorter than the configured maximum.
\<close>

definition fl_inv :: "FreeList \<Rightarrow> bool" where
  "fl_inv fl \<longleftrightarrow> freeListLength fl = int (length (fl_head fl)) \<and> distinct (fl_head fl) \<and>
     NULL \<notin> set (fl_head fl) \<and> (fl_head fl \<noteq> [] \<longrightarrow> freeListLength fl < maxFreeListLength fl)"

definition fl_cells :: "FreeList \<Rightarrow> addr set" where
  "fl_cells fl = set (fl_head fl)"

lemma FreeListDestroy_loop_id [simp]: "FreeListDestroy_loop xs = xs"
  by (induction xs) auto

lemma FreeListInit_inv: "FreeListInit fl n m = (rc, fl') \<Longrightarrow> rc = 0 \<and> fl_inv fl' \<and> fl_cells fl' = {}"
  by (auto simp: FreeListInit_def fl_inv_def fl_cells_def)

lemma FreeListDestroy_all:
  "FreeListDestroy fl = (rc, fl', freed) \<Longrightarrow> fl_inv fl' \<and> fl_cells fl' = {} \<and> set freed = fl_cells fl"
  by (auto simp: FreeListDestroy_def fl_inv_def fl_cells_def)

lemma FreeListFree_bound:
  assumes "fl_inv fl" and "FreeListFree fl a = (rc, fl', freed)"
  shows "int (card (fl_cells fl')) \<le> max (int (card (fl_cells fl))) (maxFreeListLength fl - 1)"
  using assms by (auto simp: FreeListFree_def fl_cells_def fl_inv_def card_insert_if distinct_card split: if_splits)

section \<open>The interface of a cell pool\<close>

text \<open>
  What the users of a pool (the linked list for its nodes, the thread pool for its jobs, the
  timer for its events) rely on: an allocation returns the fresh \<open>malloc\<close> cell or takes a cell
  out of the pool, a release puts the cell into the pool or hands it to \<open>free\<close>. From these laws
  no cell is ever handed out twice: \<open>live\<close> cells and pool cells stay disjoint over every
  sequence of calls.
\<close>

locale cell_pool =
  fixes alloc :: "addr \<Rightarrow> 'p \<Rightarrow> addr \<times> 'p"
    and release :: "'p \<Rightarrow> addr \<Rightarrow> int \<times> 'p \<times> addr list"
    and cells :: "'p \<Rightarrow> addr set"
    and inv :: "'p \<Rightarrow> bool"
  assumes alloc_cases:
      "inv p \<Longrightarrow> alloc mal p = (a, p') \<Longrightarrow>
         inv p' \<and> (a = mal \<and> cells p' = cells p \<and> p' = p \<or> a \<in> cells p \<and> cells p' = cells p - {a})"
    and release_cases:
      "inv p \<Longrightarrow> a \<notin> cells p \<Longrightarrow> a \<noteq> NULL \<Longrightarrow> release p a = (rc, p', freed) \<Longrightarrow>
         inv p' \<and> rc = 0 \<and>
         (cells p' = insert a (cells p) \<and> freed = [] \<or> cells p' = cells p \<and> freed = [a])"
    and null_no_cell: "inv p \<Longrightarrow> NULL \<notin> cells p"
begin

text \<open>A sequence of calls: \<open>Alloc mal\<close> with what \<open>malloc\<close> would return, \<open>Free a\<close> of a live cell.\<close>

fun run :: "'p \<times> addr set \<Rightarrow> (addr + addr) list \<Rightarrow> 'p \<times> addr set" where
  "run s [] = s"
| "run (p, live) (Inl mal # es) =
     (let (a, p') = alloc mal p in run (p', if a = NULL then live else insert a live) es)"
| "run (p, live) (Inr a # es) =
     (let (rc, p', freed) = release p a in run (p', live - {a}) es)"

text \<open>
  \<open>malloc\<close> returns \<open>NULL\<close> or a cell that is neither live nor in the pool; only live cells are
  released.
\<close>

fun legal :: "'p \<times> addr set \<Rightarrow> (addr + addr) list \<Rightarrow> bool" where
  "legal s [] = True"
| "legal (p, live) (Inl mal # es) =
     ((mal = NULL \<or> mal \<notin> live \<union> cells p) \<and> legal (run (p, live) [Inl mal]) es)"
| "legal (p, live) (Inr a # es) = (a \<in> live \<and> legal (run (p, live) [Inr a]) es)"

lemma alloc_fresh:
  assumes "inv p" "mal = NULL \<or> mal \<notin> live \<union> cells p" "live \<inter> cells p = {}" "alloc mal p = (a, p')"
  shows "inv p' \<and> (a = NULL \<or> a \<notin> live \<and> a \<notin> cells p') \<and> live \<inter> cells p' = {}"
  using alloc_cases [OF assms(1,4)] assms null_no_cell [OF assms(1)] by auto

lemma release_disjoint:
  assumes "inv p" "a \<in> live" "NULL \<notin> live" "live \<inter> cells p = {}" "release p a = (rc, p', freed)"
  shows "inv p' \<and> (live - {a}) \<inter> cells p' = {}"
proof -
  have "a \<notin> cells p" "a \<noteq> NULL"
    using assms by auto
  from release_cases [OF assms(1) this assms(5)] show ?thesis
    using assms by auto
qed

theorem never_handed_out_twice:
  "inv p \<Longrightarrow> live \<inter> cells p = {} \<Longrightarrow> NULL \<notin> live \<Longrightarrow> legal (p, live) es \<Longrightarrow>
   run (p, live) es = (p', live') \<Longrightarrow> inv p' \<and> live' \<inter> cells p' = {} \<and> NULL \<notin> live'"
proof (induction es arbitrary: p live)
  case Nil
  then show ?case by simp
next
  case (Cons e es)
  show ?case
  proof (cases e)
    case (Inl mal)
    obtain a q where aq: "alloc mal p = (a, q)" by fastforce
    let ?live = "if a = NULL then live else insert a live"
    have fresh: "mal = NULL \<or> mal \<notin> live \<union> cells p" and leg: "legal (q, ?live) es"
      using Cons.prems(4) Inl aq by (auto split: if_splits)
    from alloc_fresh [OF Cons.prems(1) fresh Cons.prems(2) aq]
    have "inv q" "?live \<inter> cells q = {}" by (auto split: if_splits)
    moreover have "NULL \<notin> ?live" using Cons.prems(3) by simp
    moreover have "run (q, ?live) es = (p', live')"
      using Cons.prems(5) Inl aq by (simp split: if_splits)
    ultimately show ?thesis using Cons.IH leg by blast
  next
    case (Inr a)
    obtain rc q freed where rq: "release p a = (rc, q, freed)" by (metis prod_cases3)
    have live: "a \<in> live" and leg: "legal (q, live - {a}) es"
      using Cons.prems(4) Inr rq by auto
    from release_disjoint [OF Cons.prems(1) live Cons.prems(3,2) rq]
    have "inv q" "(live - {a}) \<inter> cells q = {}" by auto
    moreover have "run (q, live - {a}) es = (p', live')"
      using Cons.prems(5) Inr rq by simp
    ultimately show ?thesis using Cons.IH leg Cons.prems(3) by blast
  qed
qed

end

interpretation fl: cell_pool FreeListAlloc FreeListFree fl_cells fl_inv
  by unfold_locales
    (auto simp: FreeListAlloc_def FreeListFree_def fl_inv_def fl_cells_def split: list.splits if_splits)

section \<open>Properties\<close>

text \<open>
  C25. Over every sequence of \<open>FreeListAlloc\<close> and \<open>FreeListFree\<close> calls in which only cells in use are
  released and \<open>malloc\<close> returns unused cells, no cell is handed out twice: the cells in use and
  the cells on the free list stay disjoint, and the free list stays well formed.
\<close>

theorem cells_never_shared:
  assumes "fl_inv p" "live \<inter> fl_cells p = {}" "NULL \<notin> live" "fl.legal (p, live) es"
    and "fl.run (p, live) es = (p', live')"
  shows "fl_inv p' \<and> live' \<inter> fl_cells p' = {} \<and> NULL \<notin> live'"
  using assms by (rule fl.never_handed_out_twice)

definition small_list :: FreeList where
  "small_list = \<lparr>fl_head = [5], element_size = 8, maxFreeListLength = 3, freeListLength = 1\<rparr>"

theorem cells_never_shared_witness:
  "\<exists>p' live'. fl.run (small_list, {7}) [Inr 7, Inl 9] = (p', live') \<and> fl_inv p' \<and> live' \<inter> fl_cells p' = {}"
proof -
  obtain p' live' where r: "fl.run (small_list, {7}) [Inr 7, Inl 9] = (p', live')" by fastforce
  have "fl.legal (small_list, {7}) [Inr 7, Inl 9]"
    by (simp add: small_list_def FreeListFree_def fl_cells_def)
  moreover have "fl_inv small_list" "{7} \<inter> fl_cells small_list = {}" "NULL \<notin> {7}"
    by (simp_all add: small_list_def fl_inv_def fl_cells_def)
  ultimately show ?thesis using cells_never_shared [OF _ _ _ _ r] r by blast
qed

end
