(* ===== verification/Linked_List.thy ===== *)
theory Linked_List
  imports Free_List
begin

text \<open>
  The doubly linked list of \<^verbatim>\<open>upnp/src/threadutil/LinkedList.c\<close>, at the level of its pointers.
  The nodes live in a store from addresses to \<open>ListNode\<close>s; the sentinels embedded in the list
  structure have the fixed addresses \<open>HEAD\<close> and \<open>TAIL\<close>. An operation returns \<open>None\<close> when it reads
  or writes through an address that holds no node (a wild, \<open>NULL\<close> or freed pointer). Items are
  \<open>void *\<close> pointers, \<open>None\<close> for \<open>NULL\<close>; nodes come from the list's free list, and \<open>mal\<close> is what
  \<open>malloc\<close> returns if it is asked. \<open>ll_rep L ns\<close> relates a list to the sequence \<open>ns\<close> of its nodes
  with their items; every operation is proved to act on that sequence.
\<close>

record 'a ListNode =
  n_prev :: addr
  n_next :: addr
  n_item :: "'a option"

type_synonym 'a heap = "addr \<Rightarrow> 'a ListNode option"

record 'a LinkedList =
  heap :: "'a heap"
  size_of :: int
  freeNodeList :: FreeList
  free_func :: bool
  cmp_func :: "('a option \<Rightarrow> 'a option \<Rightarrow> bool) option"

definition HEAD :: addr where "HEAD = 1"
definition TAIL :: addr where "TAIL = 2"

definition FREELISTSIZE :: int where "FREELISTSIZE = 100"

lemma sentinels [simp]: "HEAD \<noteq> NULL" "TAIL \<noteq> NULL" "HEAD \<noteq> TAIL" "TAIL \<noteq> HEAD"
  by (auto simp: HEAD_def TAIL_def)

section \<open>Reads and writes through pointers\<close>

definition set_next :: "'a heap \<Rightarrow> addr \<Rightarrow> addr \<Rightarrow> 'a heap option" where
  "set_next h a v = (case h a of None \<Rightarrow> None | Some n \<Rightarrow> Some (h(a \<mapsto> n\<lparr>n_next := v\<rparr>)))"

definition set_prev :: "'a heap \<Rightarrow> addr \<Rightarrow> addr \<Rightarrow> 'a heap option" where
  "set_prev h a v = (case h a of None \<Rightarrow> None | Some n \<Rightarrow> Some (h(a \<mapsto> n\<lparr>n_prev := v\<rparr>)))"

section \<open>Operations\<close>

definition freeListNode :: "addr \<Rightarrow> 'a LinkedList \<Rightarrow> int \<times> 'a LinkedList" where
  "freeListNode node L =
     (case FreeListFree (freeNodeList L) node of (rc, fl, freed) \<Rightarrow>
        (rc, L\<lparr>freeNodeList := fl, heap := (heap L)(node := None)\<rparr>))"

definition CreateListNode :: "addr \<Rightarrow> 'a option \<Rightarrow> 'a LinkedList \<Rightarrow> addr \<times> 'a LinkedList" where
  "CreateListNode mal it L =
     (case FreeListAlloc mal (freeNodeList L) of (temp, fl) \<Rightarrow>
        if temp \<noteq> NULL
        then (temp, L\<lparr>freeNodeList := fl,
                      heap := (heap L)(temp \<mapsto> \<lparr>n_prev = NULL, n_next = NULL, n_item = it\<rparr>)\<rparr>)
        else (temp, L\<lparr>freeNodeList := fl\<rparr>))"

definition ListInit ::
  "'a LinkedList \<Rightarrow> ('a option \<Rightarrow> 'a option \<Rightarrow> bool) option \<Rightarrow> bool \<Rightarrow> int \<times> 'a LinkedList" where
  "ListInit L cmp fr =
     (case FreeListInit (freeNodeList L) 24 FREELISTSIZE of (retCode, fl) \<Rightarrow>
        (retCode, L\<lparr>size_of := 0, cmp_func := cmp, free_func := fr, freeNodeList := fl,
                    heap := Map.empty(HEAD \<mapsto> \<lparr>n_prev = NULL, n_next = TAIL, n_item = None\<rparr>,
                                      TAIL \<mapsto> \<lparr>n_prev = HEAD, n_next = NULL, n_item = None\<rparr>)\<rparr>))"

definition ListAddAfter ::
  "addr \<Rightarrow> 'a LinkedList \<Rightarrow> 'a option \<Rightarrow> addr \<Rightarrow> (addr \<times> 'a LinkedList) option" where
  "ListAddAfter mal L it bnode =
     (if bnode = NULL then Some (NULL, L)
      else
        let (newNode, L1) = CreateListNode mal it L in
        if newNode \<noteq> NULL
        then do {
          bn \<leftarrow> heap L1 bnode;
          let temp = n_next bn;
          h1 \<leftarrow> set_next (heap L1) bnode newNode;
          h2 \<leftarrow> set_prev h1 newNode bnode;
          h3 \<leftarrow> set_next h2 newNode temp;
          h4 \<leftarrow> set_prev h3 temp newNode;
          Some (newNode, L1\<lparr>heap := h4, size_of := size_of L1 + 1\<rparr>)
        }
        else Some (NULL, L1))"

definition ListAddBefore ::
  "addr \<Rightarrow> 'a LinkedList \<Rightarrow> 'a option \<Rightarrow> addr \<Rightarrow> (addr \<times> 'a LinkedList) option" where
  "ListAddBefore mal L it anode =
     (if anode = NULL then Some (NULL, L)
      else
        let (newNode, L1) = CreateListNode mal it L in
        if newNode \<noteq> NULL
        then do {
          an \<leftarrow> heap L1 anode;
          let temp = n_prev an;
          h1 \<leftarrow> set_prev (heap L1) anode newNode;
          h2 \<leftarrow> set_next h1 newNode anode;
          h3 \<leftarrow> set_prev h2 newNode temp;
          h4 \<leftarrow> set_next h3 temp newNode;
          Some (newNode, L1\<lparr>heap := h4, size_of := size_of L1 + 1\<rparr>)
        }
        else Some (NULL, L1))"

definition ListAddHead ::
  "addr \<Rightarrow> 'a LinkedList \<Rightarrow> 'a option \<Rightarrow> (addr \<times> 'a LinkedList) option" where
  "ListAddHead mal L it = ListAddAfter mal L it HEAD"

definition ListAddTail ::
  "addr \<Rightarrow> 'a LinkedList \<Rightarrow> 'a option \<Rightarrow> (addr \<times> 'a LinkedList) option" where
  "ListAddTail mal L it = ListAddBefore mal L it TAIL"

text \<open>
  \<open>ListDelNode\<close> returns the item of the deleted node, and separately the items it passed to
  \<open>free_func\<close>.
\<close>

definition ListDelNode ::
  "'a LinkedList \<Rightarrow> addr \<Rightarrow> bool \<Rightarrow> ('a option \<times> 'a option list \<times> 'a LinkedList) option" where
  "ListDelNode L dnode freeItem =
     (if dnode = HEAD \<or> dnode = TAIL \<or> dnode = NULL then Some (None, [], L)
      else do {
        dn \<leftarrow> heap L dnode;
        let temp = n_item dn;
        h1 \<leftarrow> set_next (heap L) (n_prev dn) (n_next dn);
        dn1 \<leftarrow> h1 dnode;
        h2 \<leftarrow> set_prev h1 (n_next dn1) (n_prev dn1);
        let (rc, L2) = freeListNode dnode (L\<lparr>heap := h2\<rparr>);
        let L3 = L2\<lparr>size_of := size_of L2 - 1\<rparr>;
        if freeItem \<and> free_func L3 then Some (None, [temp], L3) else Some (temp, [], L3)
      })"

text \<open>The loop of \<open>ListDestroy\<close>; \<open>None\<close> also when it would not end.\<close>

partial_function (option) ListDestroy_loop ::
  "'a LinkedList \<Rightarrow> addr \<Rightarrow> bool \<Rightarrow> ('a option list \<times> 'a LinkedList) option" where
  "ListDestroy_loop L dnode freeItem =
     (if dnode = TAIL then Some ([], L)
      else do {
        dn \<leftarrow> heap L dnode;
        (it, freed, L1) \<leftarrow> ListDelNode L dnode freeItem;
        (rest, L2) \<leftarrow> ListDestroy_loop L1 (n_next dn) freeItem;
        Some (freed @ rest, L2)
      })"

definition ListDestroy :: "'a LinkedList \<Rightarrow> bool \<Rightarrow> (int \<times> 'a option list \<times> 'a LinkedList) option" where
  "ListDestroy L freeItem =
     do {
       hd \<leftarrow> heap L HEAD;
       (freed, L1) \<leftarrow> ListDestroy_loop L (n_next hd) freeItem;
       let L2 = L1\<lparr>size_of := 0\<rparr>;
       let (rc, fl, cells) = FreeListDestroy (freeNodeList L2);
       Some (0, freed, L2\<lparr>freeNodeList := fl\<rparr>)
     }"

definition ListHead :: "'a LinkedList \<Rightarrow> addr option" where
  "ListHead L = (if size_of L = 0 then Some NULL else map_option n_next (heap L HEAD))"

definition ListTail :: "'a LinkedList \<Rightarrow> addr option" where
  "ListTail L = (if size_of L = 0 then Some NULL else map_option n_prev (heap L TAIL))"

definition ListNext :: "'a LinkedList \<Rightarrow> addr \<Rightarrow> addr option" where
  "ListNext L node =
     (if node = NULL then Some NULL
      else do {
        n \<leftarrow> heap L node;
        if n_next n = TAIL then Some NULL else Some (n_next n)
      })"

definition ListPrev :: "'a LinkedList \<Rightarrow> addr \<Rightarrow> addr option" where
  "ListPrev L node =
     (if node = NULL then Some NULL
      else do {
        n \<leftarrow> heap L node;
        if n_prev n = HEAD then Some NULL else Some (n_prev n)
      })"

definition item_matches :: "'a LinkedList \<Rightarrow> 'a option \<Rightarrow> 'a option \<Rightarrow> bool" where
  "item_matches L it x = (case cmp_func L of Some cmp \<Rightarrow> cmp it x | None \<Rightarrow> it = x)"

partial_function (option) ListFind_loop :: "'a LinkedList \<Rightarrow> addr \<Rightarrow> 'a option \<Rightarrow> addr option" where
  "ListFind_loop L finger it =
     (if finger = TAIL then Some NULL
      else do {
        n \<leftarrow> heap L finger;
        if item_matches L it (n_item n) then Some finger
        else ListFind_loop L (n_next n) it
      })"

definition ListFind :: "'a LinkedList \<Rightarrow> addr \<Rightarrow> 'a option \<Rightarrow> addr option" where
  "ListFind L start it =
     do {
       st \<leftarrow> heap L (if start = NULL then HEAD else start);
       ListFind_loop L (n_next st) it
     }"

definition ListSize :: "'a LinkedList \<Rightarrow> int" where
  "ListSize L = size_of L"

section \<open>Representation\<close>

text \<open>\<open>linked h x y\<close>: the nodes at \<open>x\<close> and \<open>y\<close> exist and point at each other.\<close>

definition linked :: "'a heap \<Rightarrow> addr \<Rightarrow> addr \<Rightarrow> bool" where
  "linked h x y \<longleftrightarrow> map_option n_next (h x) = Some y \<and> map_option n_prev (h y) = Some x"

abbreviation spine :: "(addr \<times> 'a option) list \<Rightarrow> addr list" where
  "spine ns \<equiv> HEAD # map fst ns @ [TAIL]"

definition ll_rep :: "'a LinkedList \<Rightarrow> (addr \<times> 'a option) list \<Rightarrow> bool" where
  "ll_rep L ns \<longleftrightarrow>
     distinct (spine ns) \<and> NULL \<notin> set (spine ns) \<and>
     successively (linked (heap L)) (spine ns) \<and>
     (\<forall>(a, x) \<in> set ns. map_option n_item (heap L a) = Some x) \<and>
     dom (heap L) = set (spine ns) \<and>
     size_of L = int (length ns) \<and>
     fl_inv (freeNodeList L) \<and> fl_cells (freeNodeList L) \<inter> set (spine ns) = {}"

text \<open>What \<open>malloc\<close> may return: \<open>NULL\<close>, or a cell that no node and no free cell uses.\<close>

definition mal_ok :: "'a LinkedList \<Rightarrow> addr \<Rightarrow> bool" where
  "mal_ok L mal \<longleftrightarrow> mal = NULL \<or> mal \<notin> dom (heap L) \<union> fl_cells (freeNodeList L)"

lemma linked_next: "linked h x y \<Longrightarrow> h x = Some n \<Longrightarrow> n_next n = y"
  by (auto simp: linked_def)

lemma linked_prev: "linked h x y \<Longrightarrow> h y = Some n \<Longrightarrow> n_prev n = x"
  by (auto simp: linked_def)

lemma linked_SomeE:
  assumes "linked h x y"
  obtains nx ny where "h x = Some nx" "n_next nx = y" "h y = Some ny" "n_prev ny = x"
  using assms by (auto simp: linked_def)

lemma linked_fun: "linked h x y \<Longrightarrow> linked h u v \<Longrightarrow> u = x \<Longrightarrow> v = y"
  by (auto simp: linked_def)

lemma linked_inj: "linked h x y \<Longrightarrow> linked h u v \<Longrightarrow> v = y \<Longrightarrow> u = x"
  by (auto simp: linked_def)

lemma linked_frame:
  assumes "linked h u v" and "map_option n_next (h' u) = map_option n_next (h u)"
    and "map_option n_prev (h' v) = map_option n_prev (h v)"
  shows "linked h' u v"
  using assms by (simp add: linked_def)

text \<open>Two neighbours in the middle of a chain.\<close>

lemma chain_mid:
  "successively P (xs @ x # y # zs) \<longleftrightarrow> successively P (xs @ [x]) \<and> P x y \<and> successively P (y # zs)"
  by (auto simp: successively_append_iff successively_Cons)

subsection \<open>Linking a node in\<close>

definition link_in :: "'a heap \<Rightarrow> addr \<Rightarrow> addr \<Rightarrow> addr \<Rightarrow> 'a option \<Rightarrow> 'a heap" where
  "link_in h x y new it =
     h(x \<mapsto> (the (h x))\<lparr>n_next := new\<rparr>, y \<mapsto> (the (h y))\<lparr>n_prev := new\<rparr>,
       new \<mapsto> \<lparr>n_prev = x, n_next = y, n_item = it\<rparr>)"

lemma link_in_chain:
  assumes ch: "successively (linked h) (xs @ x # y # zs)" and d: "distinct (xs @ x # y # zs)"
    and n: "new \<notin> set (xs @ x # y # zs)"
  shows "successively (linked (link_in h x y new it)) (xs @ x # new # y # zs)"
proof -
  let ?h = "link_in h x y new it"
  from ch have a: "successively (linked h) (xs @ [x])" and l: "linked h x y"
    and b: "successively (linked h) (y # zs)"
    by (auto simp: chain_mid)
  have xy: "x \<noteq> y" "new \<noteq> x" "new \<noteq> y" using d n by auto
  obtain nx ny where nx: "h x = Some nx" "n_next nx = y" "h y = Some ny" "n_prev ny = x"
    using l by (rule linked_SomeE)
  have "successively (linked ?h) (xs @ [x])"
  proof (rule successively_mono [OF a])
    fix u v assume "u \<in> set (xs @ [x])" "v \<in> set (xs @ [x])" and uv: "linked h u v"
    then have ne: "u \<noteq> x" "u \<noteq> y" "v \<noteq> y" "u \<noteq> new" "v \<noteq> new"
      using d n linked_fun [OF l uv] linked_inj [OF l uv] by auto
    show "linked ?h u v"
      using uv by (rule linked_frame) (simp_all add: link_in_def ne nx(1,3) xy)
  qed
  moreover have "successively (linked ?h) (y # zs)"
  proof (rule successively_mono [OF b])
    fix u v assume "u \<in> set (y # zs)" "v \<in> set (y # zs)" and uv: "linked h u v"
    then have ne: "v \<noteq> y" "u \<noteq> x" "v \<noteq> x" "u \<noteq> new" "v \<noteq> new"
      using d n linked_fun [OF l uv] linked_inj [OF l uv] by auto
    show "linked ?h u v"
      using uv by (rule linked_frame) (simp_all add: link_in_def ne nx(1,3) xy)
  qed
  moreover have "linked ?h x new" "linked ?h new y"
    using xy nx by (auto simp: linked_def link_in_def)
  ultimately show ?thesis
    by (simp add: chain_mid [of _ xs x new "y # zs"] successively_Cons)
qed

subsection \<open>Unlinking a node\<close>

definition link_out :: "'a heap \<Rightarrow> addr \<Rightarrow> addr \<Rightarrow> addr \<Rightarrow> 'a heap" where
  "link_out h x d y =
     (h(x \<mapsto> (the (h x))\<lparr>n_next := y\<rparr>, y \<mapsto> (the (h y))\<lparr>n_prev := x\<rparr>))(d := None)"

lemma link_out_chain:
  assumes ch: "successively (linked h) (xs @ x # d # y # zs)" and ds: "distinct (xs @ x # d # y # zs)"
  shows "successively (linked (link_out h x d y)) (xs @ x # y # zs)"
proof -
  let ?h = "link_out h x d y"
  from ch have a: "successively (linked h) (xs @ [x])" and l: "linked h x d" "linked h d y"
    and b: "successively (linked h) (y # zs)"
    by (auto simp: chain_mid [of _ xs x d "y # zs"] successively_Cons)
  have xy: "x \<noteq> y" "x \<noteq> d" "y \<noteq> d" using ds by auto
  obtain nx nd where nx: "h x = Some nx" "n_next nx = d" "h d = Some nd" "n_prev nd = x"
    using l(1) by (rule linked_SomeE)
  obtain ny where ny: "h y = Some ny" "n_prev ny = d"
    using l(2) by (rule linked_SomeE)
  have "successively (linked ?h) (xs @ [x])"
  proof (rule successively_mono [OF a])
    fix u v assume "u \<in> set (xs @ [x])" "v \<in> set (xs @ [x])" and uv: "linked h u v"
    then have ne: "u \<noteq> x" "u \<noteq> y" "v \<noteq> y" "u \<noteq> d" "v \<noteq> d"
      using ds linked_fun [OF l(1) uv] by auto
    show "linked ?h u v"
      using uv by (rule linked_frame) (simp_all add: link_out_def ne nx(1,3) ny(1) xy)
  qed
  moreover have "successively (linked ?h) (y # zs)"
  proof (rule successively_mono [OF b])
    fix u v assume "u \<in> set (y # zs)" "v \<in> set (y # zs)" and uv: "linked h u v"
    then have ne: "v \<noteq> y" "u \<noteq> x" "v \<noteq> x" "u \<noteq> d" "v \<noteq> d"
      using ds linked_inj [OF l(2) uv] by auto
    show "linked ?h u v"
      using uv by (rule linked_frame) (simp_all add: link_out_def ne nx(1,3) ny(1) xy)
  qed
  moreover have "linked ?h x y"
    using xy nx ny by (auto simp: linked_def link_out_def)
  ultimately show ?thesis
    by (simp add: chain_mid)
qed

section \<open>The operations on the represented sequence\<close>

lemma ll_rep_dom [simp]: "ll_rep L ns \<Longrightarrow> dom (heap L) = set (spine ns)"
  by (simp add: ll_rep_def)

lemma ll_rep_SomeE:
  assumes "ll_rep L ns" "a \<in> set (spine ns)"
  obtains n where "heap L a = Some n"
  using assms ll_rep_dom [OF assms(1)] by (metis domD)

lemma ll_rep_item: "ll_rep L ns \<Longrightarrow> (a, v) \<in> set ns \<Longrightarrow> map_option n_item (heap L a) = Some v"
proof -
  assume "ll_rep L ns" and av: "(a, v) \<in> set ns"
  then have "\<forall>(a, x) \<in> set ns. map_option n_item (heap L a) = Some x"
    unfolding ll_rep_def by (elim conjE)
  from bspec [OF this av] show ?thesis by simp
qed

lemma ListInit_rep:
  assumes "ListInit L cmp fr = (rc, L')"
  shows "rc = 0 \<and> ll_rep L' [] \<and> cmp_func L' = cmp \<and> free_func L' = fr"
  using assms FreeListInit_inv [of "freeNodeList L"]
  by (auto simp: ListInit_def ll_rep_def linked_def FreeListInit_def split: prod.splits if_splits)

lemma CreateListNode_cases:
  assumes rep: "ll_rep L ns" and m: "mal_ok L mal" and c: "CreateListNode mal it L = (n, L1)"
  shows "n = NULL \<and> mal = NULL \<and> L1 = L \<or>
    (\<exists>fl. n \<noteq> NULL \<and> n \<notin> set (spine ns) \<and> n \<notin> fl_cells fl \<and> fl_inv fl \<and>
      fl_cells fl \<subseteq> fl_cells (freeNodeList L) \<and>
      L1 = L\<lparr>freeNodeList := fl,
             heap := (heap L)(n \<mapsto> \<lparr>n_prev = NULL, n_next = NULL, n_item = it\<rparr>)\<rparr>)"
proof -
  obtain a fl where al: "FreeListAlloc mal (freeNodeList L) = (a, fl)" by fastforce
  have inv: "fl_inv (freeNodeList L)" "fl_cells (freeNodeList L) \<inter> set (spine ns) = {}"
    using rep by (auto simp: ll_rep_def)
  have m': "mal = NULL \<or> mal \<notin> set (spine ns) \<union> fl_cells (freeNodeList L)"
    using m ll_rep_dom [OF rep] by (simp add: mal_ok_def)
  have fr: "fl_inv fl" "a = NULL \<or> a \<notin> set (spine ns) \<and> a \<notin> fl_cells fl"
    using fl.alloc_fresh [OF inv(1) m' _ al] inv(2) by (auto simp: Int_commute)
  have sub: "fl_cells fl \<subseteq> fl_cells (freeNodeList L)" "a = NULL \<longrightarrow> fl = freeNodeList L \<and> mal = NULL"
    using fl.alloc_cases [OF inv(1) al] fl.null_no_cell [OF inv(1)] by auto
  show ?thesis
    using c al fr sub by (auto simp: CreateListNode_def split: if_splits)
qed

text \<open>The shape of the spine around an insertion point.\<close>

lemma spine_app: "spine (ns1 @ ns2) = (HEAD # map fst ns1) @ (map fst ns2 @ [TAIL])"
  by simp

lemma spine_app_Cons: "spine (ns1 @ (n, it) # ns2) = (HEAD # map fst ns1) @ n # (map fst ns2 @ [TAIL])"
  by simp

lemma spine_split1: obtains xs x where "HEAD # map fst ns = xs @ [x]"
  by (metis append_butlast_last_id list.discI)

lemma spine_split2: obtains y zs where "map fst ns @ [TAIL] = y # zs"
  by (metis append_is_Nil_conv list.discI neq_Nil_conv)

lemma insert_rep:
  assumes rep: "ll_rep L (ns1 @ ns2)" and n: "n \<notin> set (spine (ns1 @ ns2))" "n \<noteq> NULL" "n \<notin> fl_cells fl"
    and fl: "fl_inv fl" "fl_cells fl \<subseteq> fl_cells (freeNodeList L)"
    and x: "HEAD # map fst ns1 = xs @ [x]" and y: "map fst ns2 @ [TAIL] = y # zs"
  shows "ll_rep (L\<lparr>freeNodeList := fl, heap := link_in (heap L) x y n it, size_of := size_of L + 1\<rparr>)
           (ns1 @ (n, it) # ns2)" (is "ll_rep ?L _")
proof -
  have sp: "spine (ns1 @ ns2) = xs @ x # y # zs"
    by (simp only: spine_app x y append_assoc append_Cons append_Nil)
  have sp': "spine (ns1 @ (n, it) # ns2) = xs @ x # n # y # zs"
    by (simp only: spine_app_Cons x y append_assoc append_Cons append_Nil)
  note r = rep [unfolded ll_rep_def sp]
  obtain nx where nx: "heap L x = Some nx" using rep by (rule ll_rep_SomeE [where a = x]) (simp add: sp del: map_append)
  obtain ny where ny: "heap L y = Some ny" using rep by (rule ll_rep_SomeE [where a = y]) (simp add: sp del: map_append)
  have nn: "n \<notin> set (xs @ x # y # zs)" using n(1) unfolding sp .
  have items: "map_option n_item (heap ?L a) = Some v" if av: "(a, v) \<in> set (ns1 @ ns2)" for a v
  proof -
    have "map_option n_item (heap L a) = Some v" using rep av by (rule ll_rep_item)
    moreover have "a \<noteq> n" using av n(1) by force
    ultimately show ?thesis
      using nx ny by (auto simp: link_in_def)
  qed
  show ?thesis
    unfolding ll_rep_def sp'
  proof (intro conjI)
    show "distinct (xs @ x # n # y # zs)" using r nn by auto
    show "NULL \<notin> set (xs @ x # n # y # zs)" using r n(2) by auto
    show "successively (linked (heap ?L)) (xs @ x # n # y # zs)"
      using link_in_chain [of "heap L" xs x y zs n it] r nn by simp
    show "\<forall>(a, v) \<in> set (ns1 @ (n, it) # ns2). map_option n_item (heap ?L a) = Some v"
      using items by (auto simp: link_in_def)
    show "dom (heap ?L) = set (xs @ x # n # y # zs)" using r nx ny by (auto simp: link_in_def)
    show "size_of ?L = int (length (ns1 @ (n, it) # ns2))" using r by simp
    show "fl_inv (freeNodeList ?L)" using fl by simp
    show "fl_cells (freeNodeList ?L) \<inter> set (xs @ x # n # y # zs) = {}" using r fl n(3) by auto
  qed
qed

text \<open>
  Insertion: at a node of the list (or the head sentinel for \<open>ListAddAfter\<close>, the tail sentinel for
  \<open>ListAddBefore\<close>) the new node appears at that point of the sequence, or \<open>malloc\<close> failed and
  nothing changed.
\<close>

lemma ListAddAfter_rep:
  assumes rep: "ll_rep L (ns1 @ ns2)" and m: "mal_ok L mal" and x: "HEAD # map fst ns1 = xs @ [x]"
  shows "\<exists>n L'. ListAddAfter mal L it x = Some (n, L') \<and>
    (n = NULL \<and> mal = NULL \<and> L' = L \<or> n \<noteq> NULL \<and> ll_rep L' (ns1 @ (n, it) # ns2)) \<and>
    cmp_func L' = cmp_func L \<and> free_func L' = free_func L"
proof -
  obtain y zs where y: "map fst ns2 @ [TAIL] = y # zs" by (rule spine_split2)
  have sp: "spine (ns1 @ ns2) = xs @ x # y # zs"
    by (simp only: spine_app x y append_assoc append_Cons append_Nil)
  obtain n L1 where c: "CreateListNode mal it L = (n, L1)" by fastforce
  have lk: "linked (heap L) x y" and d: "x \<noteq> y" "x \<noteq> NULL"
    using rep unfolding ll_rep_def sp by (auto simp: chain_mid)
  obtain nx ny where nx: "heap L x = Some nx" "n_next nx = y" "heap L y = Some ny"
    using lk by (rule linked_SomeE)
  from CreateListNode_cases [OF rep m c] show ?thesis
  proof
    assume "n = NULL \<and> mal = NULL \<and> L1 = L"
    then show ?thesis using c d by (simp add: ListAddAfter_def)
  next
    assume "\<exists>fl. n \<noteq> NULL \<and> n \<notin> set (spine (ns1 @ ns2)) \<and> n \<notin> fl_cells fl \<and> fl_inv fl \<and>
      fl_cells fl \<subseteq> fl_cells (freeNodeList L) \<and>
      L1 = L\<lparr>freeNodeList := fl,
             heap := (heap L)(n \<mapsto> \<lparr>n_prev = NULL, n_next = NULL, n_item = it\<rparr>)\<rparr>"
    then obtain fl where n: "n \<notin> set (spine (ns1 @ ns2))" "n \<noteq> NULL" "n \<notin> fl_cells fl"
      and fl: "fl_inv fl" "fl_cells fl \<subseteq> fl_cells (freeNodeList L)"
      and L1: "L1 = L\<lparr>freeNodeList := fl,
             heap := (heap L)(n \<mapsto> \<lparr>n_prev = NULL, n_next = NULL, n_item = it\<rparr>)\<rparr>"
      by blast
    have ne: "n \<noteq> x" "n \<noteq> y" using n(1) unfolding sp by auto
    have "ListAddAfter mal L it x =
        Some (n, L\<lparr>freeNodeList := fl, heap := link_in (heap L) x y n it, size_of := size_of L + 1\<rparr>)"
      using c n(2) nx ne d
      by (simp add: L1 ListAddAfter_def set_next_def set_prev_def link_in_def fun_upd_twist)
    then show ?thesis
      using insert_rep [OF rep n fl x y] n(2) by simp
  qed
qed

lemma ListAddBefore_rep:
  assumes rep: "ll_rep L (ns1 @ ns2)" and m: "mal_ok L mal" and y: "map fst ns2 @ [TAIL] = y # zs"
  shows "\<exists>n L'. ListAddBefore mal L it y = Some (n, L') \<and>
    (n = NULL \<and> mal = NULL \<and> L' = L \<or> n \<noteq> NULL \<and> ll_rep L' (ns1 @ (n, it) # ns2)) \<and>
    cmp_func L' = cmp_func L \<and> free_func L' = free_func L"
proof -
  obtain xs x where x: "HEAD # map fst ns1 = xs @ [x]" by (rule spine_split1)
  have sp: "spine (ns1 @ ns2) = xs @ x # y # zs"
    by (simp only: spine_app x y append_assoc append_Cons append_Nil)
  obtain n L1 where c: "CreateListNode mal it L = (n, L1)" by fastforce
  have lk: "linked (heap L) x y" and d: "x \<noteq> y" "y \<noteq> NULL"
    using rep unfolding ll_rep_def sp by (auto simp: chain_mid)
  obtain nx ny where nx: "heap L x = Some nx" "heap L y = Some ny" "n_prev ny = x"
    using lk by (rule linked_SomeE)
  from CreateListNode_cases [OF rep m c] show ?thesis
  proof
    assume "n = NULL \<and> mal = NULL \<and> L1 = L"
    then show ?thesis using c d by (simp add: ListAddBefore_def)
  next
    assume "\<exists>fl. n \<noteq> NULL \<and> n \<notin> set (spine (ns1 @ ns2)) \<and> n \<notin> fl_cells fl \<and> fl_inv fl \<and>
      fl_cells fl \<subseteq> fl_cells (freeNodeList L) \<and>
      L1 = L\<lparr>freeNodeList := fl,
             heap := (heap L)(n \<mapsto> \<lparr>n_prev = NULL, n_next = NULL, n_item = it\<rparr>)\<rparr>"
    then obtain fl where n: "n \<notin> set (spine (ns1 @ ns2))" "n \<noteq> NULL" "n \<notin> fl_cells fl"
      and fl: "fl_inv fl" "fl_cells fl \<subseteq> fl_cells (freeNodeList L)"
      and L1: "L1 = L\<lparr>freeNodeList := fl,
             heap := (heap L)(n \<mapsto> \<lparr>n_prev = NULL, n_next = NULL, n_item = it\<rparr>)\<rparr>"
      by blast
    have ne: "n \<noteq> x" "n \<noteq> y" using n(1) unfolding sp by auto
    have "ListAddBefore mal L it y =
        Some (n, L\<lparr>freeNodeList := fl, heap := link_in (heap L) x y n it, size_of := size_of L + 1\<rparr>)"
      using c n(2) nx ne d
      by (simp add: L1 ListAddBefore_def set_next_def set_prev_def link_in_def fun_upd_twist)
    then show ?thesis
      using insert_rep [OF rep n fl x y] n(2) by simp
  qed
qed

lemma ListAddHead_rep:
  assumes "ll_rep L ns" "mal_ok L mal"
  shows "\<exists>n L'. ListAddHead mal L it = Some (n, L') \<and>
    (n = NULL \<and> mal = NULL \<and> L' = L \<or> n \<noteq> NULL \<and> ll_rep L' ((n, it) # ns)) \<and>
    cmp_func L' = cmp_func L \<and> free_func L' = free_func L"
  using ListAddAfter_rep [of L "[]" ns mal "[]" HEAD it] assms by (simp add: ListAddHead_def)

lemma ListAddTail_rep:
  assumes "ll_rep L ns" "mal_ok L mal"
  shows "\<exists>n L'. ListAddTail mal L it = Some (n, L') \<and>
    (n = NULL \<and> mal = NULL \<and> L' = L \<or> n \<noteq> NULL \<and> ll_rep L' (ns @ [(n, it)])) \<and>
    cmp_func L' = cmp_func L \<and> free_func L' = free_func L"
  using ListAddBefore_rep [of L ns "[]" mal TAIL "[]" it] assms by (simp add: ListAddTail_def)

text \<open>Deletion of a node of the list.\<close>

lemma remove_rep:
  assumes rep: "ll_rep L (ns1 @ (d, it) # ns2)"
    and x: "HEAD # map fst ns1 = xs @ [x]" and y: "map fst ns2 @ [TAIL] = y # zs"
    and fl: "fl_inv fl" "fl_cells fl \<subseteq> insert d (fl_cells (freeNodeList L))"
  shows "ll_rep (L\<lparr>freeNodeList := fl, heap := link_out (heap L) x d y, size_of := size_of L - 1\<rparr>)
           (ns1 @ ns2)" (is "ll_rep ?L _")
proof -
  have sp: "spine (ns1 @ (d, it) # ns2) = xs @ x # d # y # zs"
    by (simp only: spine_app_Cons x y append_assoc append_Cons append_Nil)
  have sp': "spine (ns1 @ ns2) = xs @ x # y # zs"
    by (simp only: spine_app x y append_assoc append_Cons append_Nil)
  note r = rep [unfolded ll_rep_def sp]
  obtain nx where nx: "heap L x = Some nx" using rep by (rule ll_rep_SomeE [where a = x]) (simp add: sp del: map_append)
  obtain ny where ny: "heap L y = Some ny" using rep by (rule ll_rep_SomeE [where a = y]) (simp add: sp del: map_append)
  have items: "map_option n_item (heap ?L a) = Some v" if av: "(a, v) \<in> set (ns1 @ ns2)" for a v
  proof -
    have "map_option n_item (heap L a) = Some v" using rep by (rule ll_rep_item) (use av in auto)
    moreover have "a \<in> set (spine (ns1 @ ns2))" using av by force
    then have "a \<noteq> d" using r unfolding sp' by auto
    ultimately show ?thesis
      using nx ny by (auto simp: link_out_def)
  qed
  show ?thesis
    unfolding ll_rep_def sp'
  proof (intro conjI)
    show "distinct (xs @ x # y # zs)" using r by auto
    show "NULL \<notin> set (xs @ x # y # zs)" using r by auto
    show "successively (linked (heap ?L)) (xs @ x # y # zs)"
      using link_out_chain [of "heap L" xs x d y zs] r by simp
    show "\<forall>(a, v) \<in> set (ns1 @ ns2). map_option n_item (heap ?L a) = Some v"
      using items by auto
    show "dom (heap ?L) = set (xs @ x # y # zs)" using r nx ny by (auto simp: link_out_def)
    show "size_of ?L = int (length (ns1 @ ns2))" using r by simp
    show "fl_inv (freeNodeList ?L)" using fl by simp
    show "fl_cells (freeNodeList ?L) \<inter> set (xs @ x # y # zs) = {}" using r fl by auto
  qed
qed

lemma ListDelNode_rep:
  assumes rep: "ll_rep L (ns1 @ (d, it) # ns2)"
  shows "\<exists>L'. ListDelNode L d fr =
      Some (if fr \<and> free_func L then (None, [it], L') else (it, [], L')) \<and>
    ll_rep L' (ns1 @ ns2) \<and> cmp_func L' = cmp_func L \<and> free_func L' = free_func L"
proof -
  obtain xs x where x: "HEAD # map fst ns1 = xs @ [x]" by (rule spine_split1)
  obtain y zs where y: "map fst ns2 @ [TAIL] = y # zs" by (rule spine_split2)
  have sp: "spine (ns1 @ (d, it) # ns2) = xs @ x # d # y # zs"
    by (simp only: spine_app_Cons x y append_assoc append_Cons append_Nil)
  note r = rep [unfolded ll_rep_def sp]
  have lk: "linked (heap L) x d" "linked (heap L) d y"
    using r by (auto simp: chain_mid [of _ xs x d "y # zs"] successively_Cons)
  have ne: "x \<noteq> d" "y \<noteq> d" "x \<noteq> y" "d \<noteq> NULL" using r by auto
  have sent: "d \<noteq> HEAD" "d \<noteq> TAIL" using rep by (auto simp: ll_rep_def)
  obtain nx nd where nx: "heap L x = Some nx" "heap L d = Some nd" "n_prev nd = x"
    using lk(1) by (rule linked_SomeE)
  obtain ny where ny: "heap L y = Some ny" using lk(2) by (rule linked_SomeE)
  have nd: "n_next nd = y" "n_item nd = it"
    using linked_next [OF lk(2) nx(2)] ll_rep_item [OF rep, of d it] nx(2) by auto
  obtain rc fl freed where ff: "FreeListFree (freeNodeList L) d = (rc, fl, freed)" by (metis prod_cases3)
  have dc: "d \<notin> fl_cells (freeNodeList L)" and inv: "fl_inv (freeNodeList L)" using r by auto
  have fl: "fl_inv fl" "fl_cells fl \<subseteq> insert d (fl_cells (freeNodeList L))"
    using fl.release_cases [OF inv dc ne(4) ff] by auto
  let ?L = "L\<lparr>freeNodeList := fl, heap := link_out (heap L) x d y, size_of := size_of L - 1\<rparr>"
  have "ListDelNode L d fr = Some (if fr \<and> free_func L then (None, [it], ?L) else (it, [], ?L))"
    using sent ne nx nd ny ff
    by (simp add: ListDelNode_def set_next_def set_prev_def freeListNode_def link_out_def fun_upd_twist Let_def)
  then show ?thesis
    using remove_rep [OF rep x y fl] by (intro exI [where x = ?L]) simp
qed

text \<open>Reading the ends and the neighbours.\<close>

lemma first_node:
  assumes rep: "ll_rep L ns"
  shows "map_option n_next (heap L HEAD) = Some (hd (map fst ns @ [TAIL]))"
proof -
  obtain y zs where y: "map fst ns @ [TAIL] = y # zs" by (rule spine_split2)
  have "successively (linked (heap L)) (HEAD # y # zs)"
    using rep y by (simp add: ll_rep_def)
  then show ?thesis using y by (simp add: linked_def)
qed

lemma last_node:
  assumes rep: "ll_rep L ns"
  shows "map_option n_prev (heap L TAIL) = Some (last (HEAD # map fst ns))"
proof -
  obtain xs x where x: "HEAD # map fst ns = xs @ [x]" by (rule spine_split1)
  have sp: "spine ns = xs @ x # TAIL # []"
    using arg_cong [OF x, of "\<lambda>as. as @ [TAIL]"] by simp
  have "linked (heap L) x TAIL"
    using rep unfolding ll_rep_def sp by (simp add: chain_mid)
  then show ?thesis unfolding x by (simp add: linked_def)
qed

lemma next_node:
  assumes rep: "ll_rep L (ns1 @ (a, v) # ns2)"
  shows "map_option n_next (heap L a) = Some (hd (map fst ns2 @ [TAIL]))"
proof -
  obtain y zs where y: "map fst ns2 @ [TAIL] = y # zs" by (rule spine_split2)
  have sp: "spine (ns1 @ (a, v) # ns2) = (HEAD # map fst ns1) @ a # y # zs"
    by (simp only: spine_app_Cons y)
  have "linked (heap L) a y"
    using rep unfolding ll_rep_def sp chain_mid by blast
  then show ?thesis using y by (simp add: linked_def)
qed

lemma ListHead_rep:
  assumes "ll_rep L ns"
  shows "ListHead L = Some (case ns of [] \<Rightarrow> NULL | (a, v) # _ \<Rightarrow> a)"
  using first_node [OF assms] assms by (auto simp: ListHead_def ll_rep_def split: list.splits)

lemma ListTail_rep:
  assumes "ll_rep L ns"
  shows "ListTail L = Some (if ns = [] then NULL else fst (last ns))"
  using last_node [OF assms] assms by (auto simp: ListTail_def ll_rep_def last_map)

lemma spine_hd_TAIL:
  assumes "ll_rep L (ns1 @ ns2)"
  shows "hd (map fst ns2 @ [TAIL]) = TAIL \<longleftrightarrow> ns2 = []"
  using assms by (cases ns2) (auto simp: ll_rep_def)

lemma ListNext_rep:
  assumes rep: "ll_rep L (ns1 @ (a, v) # ns2)"
  shows "ListNext L a = Some (case ns2 of [] \<Rightarrow> NULL | (b, w) # _ \<Rightarrow> b)"
proof -
  obtain n where n: "heap L a = Some n" "n_next n = hd (map fst ns2 @ [TAIL])"
    using next_node [OF rep] by auto
  have "a \<noteq> NULL" using rep by (auto simp: ll_rep_def)
  moreover have "hd (map fst ns2 @ [TAIL]) = TAIL \<longleftrightarrow> ns2 = []"
    using spine_hd_TAIL [of L "ns1 @ [(a, v)]" ns2] rep by simp
  ultimately show ?thesis
    using n by (auto simp: ListNext_def split: list.splits)
qed

lemma ListFind_loop_rep:
  "ll_rep L (ns1 @ ns2) \<Longrightarrow> ListFind_loop L (hd (map fst ns2 @ [TAIL])) it =
     Some (case find (\<lambda>(a, x). item_matches L it x) ns2 of None \<Rightarrow> NULL | Some (a, x) \<Rightarrow> a)"
proof (induction ns2 arbitrary: ns1)
  case Nil
  then show ?case by (subst ListFind_loop.simps) simp
next
  case (Cons p ns2)
  obtain a v where p: "p = (a, v)" by fastforce
  obtain n where n: "heap L a = Some n" "n_next n = hd (map fst ns2 @ [TAIL])"
    using next_node [of L ns1 a v ns2] Cons.prems p by auto
  have "n_item n = v" using ll_rep_item [OF Cons.prems, of a v] n p by simp
  moreover have "a \<noteq> TAIL" using Cons.prems p by (auto simp: ll_rep_def)
  moreover have "ListFind_loop L (hd (map fst ns2 @ [TAIL])) it =
     Some (case find (\<lambda>(a, x). item_matches L it x) ns2 of None \<Rightarrow> NULL | Some (a, x) \<Rightarrow> a)"
    using Cons.IH [of "ns1 @ [p]"] Cons.prems by simp
  ultimately show ?case
    by (subst ListFind_loop.simps) (simp add: n p)
qed

lemma ListFind_rep:
  assumes rep: "ll_rep L ns"
  shows "ListFind L NULL it =
     Some (case find (\<lambda>(a, x). item_matches L it x) ns of None \<Rightarrow> NULL | Some (a, x) \<Rightarrow> a)"
proof -
  obtain n where "heap L HEAD = Some n" "n_next n = hd (map fst ns @ [TAIL])"
    using first_node [OF rep] by auto
  then show ?thesis
    using ListFind_loop_rep [of L "[]" ns it] rep by (simp add: ListFind_def)
qed

lemma ListDestroy_loop_rep:
  "ll_rep L ns \<Longrightarrow> \<exists>L'. ListDestroy_loop L (hd (map fst ns @ [TAIL])) fr =
     Some (if fr \<and> free_func L then map snd ns else [], L') \<and> ll_rep L' []"
proof (induction ns arbitrary: L)
  case Nil
  then show ?case by (subst ListDestroy_loop.simps) simp
next
  case (Cons p ns)
  obtain a v where p: "p = (a, v)" by fastforce
  obtain n where n: "heap L a = Some n" "n_next n = hd (map fst ns @ [TAIL])"
    using next_node [of L "[]" a v ns] Cons.prems p by auto
  obtain L1 where d: "ListDelNode L a fr = Some (if fr \<and> free_func L then (None, [v], L1) else (v, [], L1))"
      "ll_rep L1 ns" "free_func L1 = free_func L"
    using ListDelNode_rep [of L "[]" a v ns fr] Cons.prems p by auto
  obtain L2 where l: "ListDestroy_loop L1 (hd (map fst ns @ [TAIL])) fr =
      Some (if fr \<and> free_func L then map snd ns else [], L2)" "ll_rep L2 []"
    using Cons.IH [OF d(2)] d(3) by auto
  have "a \<noteq> TAIL" using Cons.prems p by (auto simp: ll_rep_def)
  then show ?case
    using l d by (subst ListDestroy_loop.simps) (cases "fr \<and> free_func L"; auto simp: n p)
qed

lemma ListDestroy_rep:
  assumes rep: "ll_rep L ns"
  shows "\<exists>L'. ListDestroy L fr = Some (0, if fr \<and> free_func L then map snd ns else [], L') \<and>
     ll_rep L' [] \<and> fl_cells (freeNodeList L') = {}"
proof -
  obtain n where n: "heap L HEAD = Some n" "n_next n = hd (map fst ns @ [TAIL])"
    using first_node [OF rep] by auto
  obtain L1 where l: "ListDestroy_loop L (hd (map fst ns @ [TAIL])) fr =
      Some (if fr \<and> free_func L then map snd ns else [], L1)" "ll_rep L1 []"
    using ListDestroy_loop_rep [OF rep] by blast
  obtain rc fl cs where f: "FreeListDestroy (freeNodeList L1) = (rc, fl, cs)" by (metis prod_cases3)
  have "fl_inv fl \<and> fl_cells fl = {}" using FreeListDestroy_all [OF f] by simp
  then show ?thesis
    using n l f by (simp add: ListDestroy_def ll_rep_def)
qed

section \<open>The interface of a queue\<close>

text \<open>
  What the thread pool and the timer rely on: adding at the tail, reading the first node and
  deleting it act on a sequence of items as on a FIFO queue. \<open>fresh l m\<close> says what \<open>malloc\<close> may
  return.
\<close>

locale fifo =
  fixes rep :: "'l \<Rightarrow> (addr \<times> 'a) list \<Rightarrow> bool"
    and fresh :: "'l \<Rightarrow> addr \<Rightarrow> bool"
    and add_tail :: "addr \<Rightarrow> 'l \<Rightarrow> 'a \<Rightarrow> (addr \<times> 'l) option"
    and first :: "'l \<Rightarrow> addr option"
    and delete :: "'l \<Rightarrow> addr \<Rightarrow> ('a \<times> 'l) option"
  assumes add_tail_ok: "rep l ns \<Longrightarrow> fresh l m \<Longrightarrow> m \<noteq> NULL \<Longrightarrow>
      \<exists>n l'. add_tail m l x = Some (n, l') \<and> n \<noteq> NULL \<and> rep l' (ns @ [(n, x)])"
    and first_ok: "rep l ((a, x) # ns) \<Longrightarrow> first l = Some a"
    and delete_ok: "rep l (ns1 @ (a, x) # ns2) \<Longrightarrow>
      \<exists>l'. delete l a = Some (x, l') \<and> rep l' (ns1 @ ns2)"
begin

fun enqueue_all :: "'l \<Rightarrow> (addr \<times> 'a) list \<Rightarrow> 'l option" where
  "enqueue_all l [] = Some l"
| "enqueue_all l ((m, x) # ms) = do { (n, l') \<leftarrow> add_tail m l x; enqueue_all l' ms }"

fun all_fresh :: "'l \<Rightarrow> (addr \<times> 'a) list \<Rightarrow> bool" where
  "all_fresh l [] = True"
| "all_fresh l ((m, x) # ms) =
     (m \<noteq> NULL \<and> fresh l m \<and> (case add_tail m l x of None \<Rightarrow> True | Some (n, l') \<Rightarrow> all_fresh l' ms))"

fun drain :: "nat \<Rightarrow> 'l \<Rightarrow> 'a list option" where
  "drain 0 l = Some []"
| "drain (Suc k) l =
     do { a \<leftarrow> first l; (x, l') \<leftarrow> delete l a; xs \<leftarrow> drain k l'; Some (x # xs) }"

lemma enqueue_all_ok:
  "rep l ns \<Longrightarrow> all_fresh l ms \<Longrightarrow>
   \<exists>l' ns'. enqueue_all l ms = Some l' \<and> rep l' (ns @ ns') \<and> map snd ns' = map snd ms"
proof (induction ms arbitrary: l ns)
  case Nil
  then show ?case by (intro exI [of _ l] exI [of _ "[]"]) simp
next
  case (Cons p ms)
  obtain m x where p: "p = (m, x)" by fastforce
  obtain n l1 where a: "add_tail m l x = Some (n, l1)" "rep l1 (ns @ [(n, x)])"
    using add_tail_ok Cons.prems p by fastforce
  obtain l' ns' where "enqueue_all l1 ms = Some l'" "rep l' ((ns @ [(n, x)]) @ ns')" "map snd ns' = map snd ms"
    using Cons.IH [OF a(2)] Cons.prems(2) p a(1) by auto
  then show ?case
    using p a(1) by (intro exI [of _ l'] exI [of _ "(n, x) # ns'"]) simp
qed

lemma drain_ok: "rep l ns \<Longrightarrow> drain (length ns) l = Some (map snd ns)"
proof (induction ns arbitrary: l)
  case Nil
  then show ?case by simp
next
  case (Cons p ns)
  obtain a x where p: "p = (a, x)" by fastforce
  obtain l' where "delete l a = Some (x, l')" "rep l' ns"
    using delete_ok [of l "[]" a x ns] Cons.prems p by auto
  then show ?case
    using Cons p first_ok [of l a x ns] by simp
qed

text \<open>Items come out in the order they went in, after those that were there.\<close>

theorem fifo_order:
  assumes "rep l ns" "all_fresh l ms"
  shows "enqueue_all l ms \<bind> drain (length ns + length ms) = Some (map snd ns @ map snd ms)"
proof -
  obtain l' ns' where e: "enqueue_all l ms = Some l'" "rep l' (ns @ ns')" "map snd ns' = map snd ms"
    using enqueue_all_ok [OF assms] by blast
  have "length ns' = length ms" using arg_cong [OF e(3), of length] by simp
  then show ?thesis
    using e drain_ok [OF e(2)] by simp
qed

end

definition list_delete :: "'a LinkedList \<Rightarrow> addr \<Rightarrow> ('a option \<times> 'a LinkedList) option" where
  "list_delete L a = map_option (\<lambda>(x, freed, L'). (x, L')) (ListDelNode L a False)"

interpretation ll: fifo ll_rep mal_ok ListAddTail ListHead list_delete
proof unfold_locales
  fix L :: "'a LinkedList" and ns m x
  assume "ll_rep L ns" "mal_ok L m" "m \<noteq> NULL"
  then show "\<exists>n L'. ListAddTail m L x = Some (n, L') \<and> n \<noteq> NULL \<and> ll_rep L' (ns @ [(n, x)])"
    using ListAddTail_rep [of L ns m x] by auto
next
  fix L :: "'a LinkedList" and a x ns
  assume "ll_rep L ((a, x) # ns)"
  then show "ListHead L = Some a" by (simp add: ListHead_rep)
next
  fix L :: "'a LinkedList" and ns1 a x ns2
  assume "ll_rep L (ns1 @ (a, x) # ns2)"
  then show "\<exists>L'. list_delete L a = Some (x, L') \<and> ll_rep L' (ns1 @ ns2)"
    using ListDelNode_rep [of L ns1 a x ns2 False] by (auto simp: list_delete_def)
qed

section \<open>Properties\<close>

text \<open>
  C10. The doubly linked list is a FIFO queue: items added at the tail one after the other come out
  at the head in the same order, after the items that were there. The pointer operations never read
  through a dangling or \<open>NULL\<close> pointer (the computation yields a result), for every list that
  represents a sequence and every address \<open>malloc\<close> may return.
\<close>

theorem list_fifo_order:
  assumes "ll_rep L ns" "ll.all_fresh L ms"
  shows "ll.enqueue_all L ms \<bind> ll.drain (length ns + length ms) = Some (map snd ns @ map snd ms)"
  using assms by (rule ll.fifo_order)

definition empty_list :: "nat LinkedList" where
  "empty_list = snd (ListInit \<lparr>heap = Map.empty, size_of = 0,
     freeNodeList = \<lparr>fl_head = [], element_size = 0, maxFreeListLength = 0, freeListLength = 0\<rparr>,
     free_func = False, cmp_func = None\<rparr> None False)"

lemma empty_list_rep: "ll_rep empty_list []"
  using ListInit_rep [OF surjective_pairing] unfolding empty_list_def by blast

theorem list_fifo_order_witness:
  "ll.enqueue_all empty_list [(10, Some 1), (11, Some 2)] \<bind> ll.drain 2 = Some [Some 1, Some 2]"
proof -
  have "ll.all_fresh empty_list [(10, Some 1), (11, Some 2)]"
    by (simp add: empty_list_def ListInit_def FreeListInit_def ListAddTail_def ListAddBefore_def CreateListNode_def
        FreeListAlloc_def set_next_def set_prev_def mal_ok_def fl_cells_def HEAD_def TAIL_def Let_def)
  from list_fifo_order [OF empty_list_rep this] show ?thesis by (simp add: numeral_2_eq_2)
qed

text \<open>
  \<open>ListDestroy\<close> ends and empties the list: every item, in order, is passed to the free function
  if the caller asks for it and the list has one, the list represents the empty sequence
  afterwards and its free list keeps no cell.
\<close>

theorem ListDestroy_empties:
  assumes "ll_rep L ns"
  shows "\<exists>L'. ListDestroy L fr = Some (0, if fr \<and> free_func L then map snd ns else [], L') \<and>
     ll_rep L' [] \<and> fl_cells (freeNodeList L') = {}"
  using assms by (rule ListDestroy_rep)

theorem ListDestroy_empties_witness:
  "\<exists>L'. ListDestroy empty_list True = Some (0, [], L') \<and> ll_rep L' []"
  using ListDestroy_empties [OF empty_list_rep, of True] by auto

end
