(* ===== verification/Thread_Pool.thy ===== *)
theory Thread_Pool
  imports Linked_List "HOL-Library.Multiset"
begin

unbundle bit_operations_syntax

text \<open>
  The thread pool of \<^verbatim>\<open>upnp/src/threadutil/ThreadPool.c\<close>.

  Every public call and every worker runs sections of code between taking and releasing
  \<open>tp->mutex\<close>; a condition wait releases the mutex in the middle of a call. The first half of this
  theory has one definition per such section (or per function, where the function holds the mutex
  throughout) on the pool structure; the second half is the transition system in which any number
  of callers and workers interleave these sections.

  The three job queues are the sequences of the \<open>fifo\<close> interface of \<open>Linked_List\<close> (head first); what
  the environment decides is an argument: the clock (\<open>now\<close>), whether a job structure or a list node
  could be allocated, the result of creating a thread. The working and idle times and the averages
  kept for statistics only are left out, the counters are not.
\<close>

section \<open>Data\<close>

datatype ThreadPriority = LOW_PRIORITY | MED_PRIORITY | HIGH_PRIORITY

record timeval =
  tv_sec :: int
  tv_usec :: int

record ThreadPoolAttr =
  minThreads :: int
  maxThreads :: int
  stackSize :: nat
  maxIdleTime :: int
  jobsPerThread :: int
  maxJobsTotal :: int
  starvationTime :: int
  schedPolicy :: int

record ThreadPoolJob =
  func :: addr
  arg :: addr
  free_fn :: addr
  requestTime :: timeval
  priority :: ThreadPriority
  jobId :: int

record ThreadPoolStats =
  totalTimeHQ :: int
  totalJobsHQ :: int
  totalTimeMQ :: int
  totalJobsMQ :: int
  totalTimeLQ :: int
  totalJobsLQ :: int
  workerThreads :: int
  idleThreads :: int
  maxThreadsSeen :: int

record ThreadPool =
  lastJobId :: int
  shutdown :: bool
  totalThreads :: int
  pendingWorkerThreadStart :: bool
  busyThreads :: int
  persistentThreads :: int
  lowJobQ :: "ThreadPoolJob list"
  medJobQ :: "ThreadPoolJob list"
  highJobQ :: "ThreadPoolJob list"
  persistentJob :: "ThreadPoolJob option"
  tp_attr :: ThreadPoolAttr
  stats :: ThreadPoolStats

text \<open>The error codes are written with a bit mask in the headers; they are kept that way.\<close>

definition EOUTOFMEM :: int where [codes]: "EOUTOFMEM = (-7) AND push_bit 29 1"
definition EMAXTHREADS :: int where [codes]: "EMAXTHREADS = (-8) AND push_bit 29 1"
definition INVALID_POLICY :: int where [codes]: "INVALID_POLICY = (-9) AND push_bit 29 1"
definition INVALID_JOB_ID :: int where [codes]: "INVALID_JOB_ID = (-2) AND push_bit 29 1"
definition INFINITE_THREADS :: int where [codes]: "INFINITE_THREADS = -1"

section \<open>Time\<close>

text \<open>
  \<open>DiffMillis\<close> computes in \<open>double\<close> and truncates towards zero; for the differences of clock readings
  (below $2^{53}$ microseconds) the double computation is the rational one.
\<close>

definition trunc_div :: "int \<Rightarrow> int \<Rightarrow> int" where
  "trunc_div a b = sgn a * sgn b * (\<bar>a\<bar> div \<bar>b\<bar>)"

definition trunc_mod :: "int \<Rightarrow> int \<Rightarrow> int" where
  "trunc_mod a b = a - b * trunc_div a b"

definition DiffMillis :: "timeval \<Rightarrow> timeval \<Rightarrow> int" where
  "DiffMillis time1 time2 =
     trunc_div ((tv_sec time1 - tv_sec time2) * 1000000 + (tv_usec time1 - tv_usec time2)) 1000"

text \<open>The timeout is a pair of seconds and nanoseconds.\<close>

definition SetRelTimeout :: "timeval \<Rightarrow> int \<Rightarrow> int \<times> int" where
  "SetRelTimeout now relMillis =
     (let sec = trunc_div relMillis 1000; milliSeconds = trunc_mod relMillis 1000
      in (tv_sec now + sec, (trunc_div (tv_usec now) 1000 + milliSeconds) * 1000000))"

section \<open>Attributes and jobs\<close>

definition TPAttrInit :: "ThreadPoolAttr \<Rightarrow> int \<times> ThreadPoolAttr" where
  "TPAttrInit a =
     (0, a\<lparr>jobsPerThread := 10, maxIdleTime := 10 * 1000, maxThreads := 10, minThreads := 1,
           stackSize := 0, schedPolicy := 0, starvationTime := 500, maxJobsTotal := 100\<rparr>)"

definition TPAttrSetMaxThreads :: "ThreadPoolAttr \<Rightarrow> int \<Rightarrow> int \<times> ThreadPoolAttr" where
  "TPAttrSetMaxThreads a v = (0, a\<lparr>maxThreads := v\<rparr>)"

definition TPAttrSetMinThreads :: "ThreadPoolAttr \<Rightarrow> int \<Rightarrow> int \<times> ThreadPoolAttr" where
  "TPAttrSetMinThreads a v = (0, a\<lparr>minThreads := v\<rparr>)"

definition TPAttrSetStackSize :: "ThreadPoolAttr \<Rightarrow> nat \<Rightarrow> int \<times> ThreadPoolAttr" where
  "TPAttrSetStackSize a v = (0, a\<lparr>stackSize := v\<rparr>)"

definition TPAttrSetIdleTime :: "ThreadPoolAttr \<Rightarrow> int \<Rightarrow> int \<times> ThreadPoolAttr" where
  "TPAttrSetIdleTime a v = (0, a\<lparr>maxIdleTime := v\<rparr>)"

definition TPAttrSetJobsPerThread :: "ThreadPoolAttr \<Rightarrow> int \<Rightarrow> int \<times> ThreadPoolAttr" where
  "TPAttrSetJobsPerThread a v = (0, a\<lparr>jobsPerThread := v\<rparr>)"

definition TPAttrSetStarvationTime :: "ThreadPoolAttr \<Rightarrow> int \<Rightarrow> int \<times> ThreadPoolAttr" where
  "TPAttrSetStarvationTime a v = (0, a\<lparr>starvationTime := v\<rparr>)"

definition TPAttrSetSchedPolicy :: "ThreadPoolAttr \<Rightarrow> int \<Rightarrow> int \<times> ThreadPoolAttr" where
  "TPAttrSetSchedPolicy a v = (0, a\<lparr>schedPolicy := v\<rparr>)"

definition TPAttrSetMaxJobsTotal :: "ThreadPoolAttr \<Rightarrow> int \<Rightarrow> int \<times> ThreadPoolAttr" where
  "TPAttrSetMaxJobsTotal a v = (0, a\<lparr>maxJobsTotal := v\<rparr>)"

definition TPJobInit :: "ThreadPoolJob \<Rightarrow> addr \<Rightarrow> addr \<Rightarrow> int \<times> ThreadPoolJob" where
  "TPJobInit job f a =
     (if f = NULL then (EINVAL, job)
      else (0, job\<lparr>func := f, arg := a, priority := MED_PRIORITY, free_fn := NULL\<rparr>))"

definition TPJobSetPriority :: "ThreadPoolJob \<Rightarrow> ThreadPriority \<Rightarrow> int \<times> ThreadPoolJob" where
  "TPJobSetPriority job p = (0, job\<lparr>priority := p\<rparr>)"

definition TPJobSetFreeFunction :: "ThreadPoolJob \<Rightarrow> addr \<Rightarrow> int \<times> ThreadPoolJob" where
  "TPJobSetFreeFunction job f = (0, job\<lparr>free_fn := f\<rparr>)"

definition CmpThreadPoolJob :: "ThreadPoolJob \<Rightarrow> ThreadPoolJob \<Rightarrow> bool" where
  "CmpThreadPoolJob a b \<longleftrightarrow> jobId a = jobId b"

definition CreateThreadPoolJob :: "bool \<Rightarrow> timeval \<Rightarrow> ThreadPoolJob \<Rightarrow> int \<Rightarrow> ThreadPoolJob option" where
  "CreateThreadPoolJob alloc_ok now job i =
     (if alloc_ok then Some (job\<lparr>jobId := i, requestTime := now\<rparr>) else None)"

section \<open>Statistics\<close>

definition StatsInit :: "ThreadPoolStats \<Rightarrow> ThreadPoolStats" where
  "StatsInit st = st\<lparr>totalJobsHQ := 0, totalJobsLQ := 0, totalJobsMQ := 0, totalTimeHQ := 0,
     totalTimeMQ := 0, totalTimeLQ := 0, workerThreads := 0, idleThreads := 0, maxThreadsSeen := 0\<rparr>"

definition StatsAccountLQ :: "ThreadPool \<Rightarrow> int \<Rightarrow> ThreadPool" where
  "StatsAccountLQ tp d = tp\<lparr>stats := (stats tp)\<lparr>totalJobsLQ := totalJobsLQ (stats tp) + 1,
     totalTimeLQ := totalTimeLQ (stats tp) + d\<rparr>\<rparr>"

definition StatsAccountMQ :: "ThreadPool \<Rightarrow> int \<Rightarrow> ThreadPool" where
  "StatsAccountMQ tp d = tp\<lparr>stats := (stats tp)\<lparr>totalJobsMQ := totalJobsMQ (stats tp) + 1,
     totalTimeMQ := totalTimeMQ (stats tp) + d\<rparr>\<rparr>"

definition StatsAccountHQ :: "ThreadPool \<Rightarrow> int \<Rightarrow> ThreadPool" where
  "StatsAccountHQ tp d = tp\<lparr>stats := (stats tp)\<lparr>totalJobsHQ := totalJobsHQ (stats tp) + 1,
     totalTimeHQ := totalTimeHQ (stats tp) + d\<rparr>\<rparr>"

definition CalcWaitTime :: "timeval \<Rightarrow> ThreadPool \<Rightarrow> ThreadPriority \<Rightarrow> ThreadPoolJob \<Rightarrow> ThreadPool" where
  "CalcWaitTime now tp p job =
     (let diff = DiffMillis now (requestTime job) in
      case p of LOW_PRIORITY \<Rightarrow> StatsAccountLQ tp diff
      | MED_PRIORITY \<Rightarrow> StatsAccountMQ tp diff
      | HIGH_PRIORITY \<Rightarrow> StatsAccountHQ tp diff)"

definition add_idle :: "int \<Rightarrow> ThreadPool \<Rightarrow> ThreadPool" where
  "add_idle d tp = tp\<lparr>stats := (stats tp)\<lparr>idleThreads := idleThreads (stats tp) + d\<rparr>\<rparr>"

definition add_worker_stat :: "int \<Rightarrow> ThreadPool \<Rightarrow> ThreadPool" where
  "add_worker_stat d tp = tp\<lparr>stats := (stats tp)\<lparr>workerThreads := workerThreads (stats tp) + d\<rparr>\<rparr>"

section \<open>Ageing\<close>

text \<open>
  One pass of the loop of \<open>BumpPriority\<close>: the moved job, if any, with the queue it leaves for. A list
  node for the other queue has to be allocated (\<open>node_ok\<close>); if that fails the job is in no queue any
  more, and is recorded in the list of lost jobs.
\<close>

definition requeue ::
  "(ThreadPriority \<Rightarrow> ThreadPoolJob \<Rightarrow> bool) \<Rightarrow> ThreadPriority \<Rightarrow> ThreadPoolJob \<Rightarrow>
   ThreadPoolJob list \<Rightarrow> ThreadPoolJob list" where
  "requeue node_ok p j q = (if node_ok p j then q @ [j] else q)"

definition med_starved :: "timeval \<Rightarrow> ThreadPool \<Rightarrow> bool" where
  "med_starved now tp \<longleftrightarrow> medJobQ tp \<noteq> [] \<and>
     starvationTime (tp_attr tp) \<le> DiffMillis now (requestTime (hd (medJobQ tp)))"

definition low_starved :: "timeval \<Rightarrow> ThreadPool \<Rightarrow> bool" where
  "low_starved now tp \<longleftrightarrow> lowJobQ tp \<noteq> [] \<and>
     maxIdleTime (tp_attr tp) \<le> DiffMillis now (requestTime (hd (lowJobQ tp)))"

definition bump_med ::
  "(ThreadPriority \<Rightarrow> ThreadPoolJob \<Rightarrow> bool) \<Rightarrow> timeval \<Rightarrow> ThreadPool \<Rightarrow> ThreadPoolJob list \<times> ThreadPool" where
  "bump_med node_ok now tp =
     (let tempJob = hd (medJobQ tp);
          tp1 = StatsAccountMQ tp (DiffMillis now (requestTime tempJob))
      in (if node_ok HIGH_PRIORITY tempJob then [] else [tempJob],
          tp1\<lparr>medJobQ := tl (medJobQ tp),
              highJobQ := requeue node_ok HIGH_PRIORITY tempJob (highJobQ tp)\<rparr>))"

definition bump_low ::
  "(ThreadPriority \<Rightarrow> ThreadPoolJob \<Rightarrow> bool) \<Rightarrow> timeval \<Rightarrow> ThreadPool \<Rightarrow> ThreadPoolJob list \<times> ThreadPool" where
  "bump_low node_ok now tp =
     (let tempJob = hd (lowJobQ tp);
          tp1 = StatsAccountLQ tp (DiffMillis now (requestTime tempJob))
      in (if node_ok MED_PRIORITY tempJob then [] else [tempJob],
          tp1\<lparr>lowJobQ := tl (lowJobQ tp),
              medJobQ := requeue node_ok MED_PRIORITY tempJob (medJobQ tp)\<rparr>))"

function BumpPriority ::
  "(ThreadPriority \<Rightarrow> ThreadPoolJob \<Rightarrow> bool) \<Rightarrow> timeval \<Rightarrow> ThreadPool \<Rightarrow> ThreadPoolJob list \<times> ThreadPool" where
  "BumpPriority node_ok now tp =
     (if med_starved now tp
      then let (l1, tp1) = bump_med node_ok now tp; (l2, tp2) = BumpPriority node_ok now tp1
           in (l1 @ l2, tp2)
      else if low_starved now tp
      then let (l1, tp1) = bump_low node_ok now tp; (l2, tp2) = BumpPriority node_ok now tp1
           in (l1 @ l2, tp2)
      else ([], tp))"
  by pat_completeness auto
termination
  by (relation "measure (\<lambda>(node_ok, now, tp). 2 * length (lowJobQ tp) + length (medJobQ tp))")
    (auto simp: bump_med_def bump_low_def StatsAccountMQ_def StatsAccountLQ_def requeue_def
      med_starved_def low_starved_def neq_Nil_conv Let_def)

declare BumpPriority.simps [simp del]

section \<open>Sections of a worker\<close>

text \<open>Lines 476 to 480: a new worker reports that it runs.\<close>

definition WorkerThread_start :: "ThreadPool \<Rightarrow> ThreadPool" where
  "WorkerThread_start tp = tp\<lparr>totalThreads := totalThreads tp + 1, pendingWorkerThreadStart := False\<rparr>"

text \<open>
  The top of the loop. \<open>persistent\<close> is the local variable of that name: -1 before the first job, 0
  after an ordinary and 1 after a persistent job; \<open>has_job\<close> says whether \<open>job\<close> is non-null.
\<close>

definition WorkerThread_top :: "bool \<Rightarrow> int \<Rightarrow> ThreadPool \<Rightarrow> ThreadPool" where
  "WorkerThread_top has_job persistent tp =
     (let tp1 = (if has_job then tp\<lparr>busyThreads := busyThreads tp - 1\<rparr> else tp);
          tp2 = add_idle 1 tp1
      in if persistent = 0 then add_worker_stat (-1) tp2
         else if persistent = 1 then tp2\<lparr>persistentThreads := persistentThreads tp2 - 1\<rparr>
         else tp2)"

definition no_work :: "ThreadPool \<Rightarrow> bool" where
  "no_work tp \<longleftrightarrow> lowJobQ tp = [] \<and> medJobQ tp = [] \<and> highJobQ tp = [] \<and>
     persistentJob tp = None \<and> \<not> shutdown tp"

definition worker_expired :: "bool \<Rightarrow> ThreadPool \<Rightarrow> bool" where
  "worker_expired timed_out tp \<longleftrightarrow>
     timed_out \<and> minThreads (tp_attr tp) < totalThreads tp \<or>
     maxThreads (tp_attr tp) \<noteq> -1 \<and> maxThreads (tp_attr tp) < totalThreads tp"

definition WorkerThread_exit :: "ThreadPool \<Rightarrow> ThreadPool" where
  "WorkerThread_exit tp = tp\<lparr>totalThreads := totalThreads tp - 1\<rparr>"

text \<open>What a section of a worker ends with: a wait, the end of the thread, or a job to run.\<close>

datatype worker_next = W_wait | W_exit | W_run ThreadPoolJob int

text \<open>Lines 525 to 583, after the wait: the lost jobs of the ageing, what follows, the pool.\<close>

definition WorkerThread_pick ::
  "(ThreadPriority \<Rightarrow> ThreadPoolJob \<Rightarrow> bool) \<Rightarrow> timeval \<Rightarrow> ThreadPool \<Rightarrow>
   ThreadPoolJob list \<times> worker_next \<times> ThreadPool" where
  "WorkerThread_pick node_ok now tp0 =
     (let (lost, tp) = BumpPriority node_ok now (add_idle (-1) tp0) in
      if shutdown tp then (lost, W_exit, WorkerThread_exit tp)
      else
        case persistentJob tp of
          Some job \<Rightarrow>
            (lost, W_run job 1,
             tp\<lparr>persistentJob := None, persistentThreads := persistentThreads tp + 1,
                busyThreads := busyThreads tp + 1\<rparr>)
        | None \<Rightarrow>
            let tp1 = add_worker_stat 1 tp in
            (case highJobQ tp of
               job # rest \<Rightarrow>
                 (lost, W_run job 0,
                  (CalcWaitTime now tp1 HIGH_PRIORITY job)\<lparr>highJobQ := rest, busyThreads := busyThreads tp + 1\<rparr>)
             | [] \<Rightarrow>
                 (case medJobQ tp of
                    job # rest \<Rightarrow>
                      (lost, W_run job 0,
                       (CalcWaitTime now tp1 MED_PRIORITY job)\<lparr>medJobQ := rest, busyThreads := busyThreads tp + 1\<rparr>)
                  | [] \<Rightarrow>
                      (case lowJobQ tp of
                         job # rest \<Rightarrow>
                           (lost, W_run job 0,
                            (CalcWaitTime now tp1 LOW_PRIORITY job)\<lparr>lowJobQ := rest, busyThreads := busyThreads tp + 1\<rparr>)
                       | [] \<Rightarrow> (lost, W_exit, WorkerThread_exit (add_worker_stat (-1) tp1))))))"

text \<open>Lines 504 to 583: the waiting loop and, when there is something to do, the choice of the job.\<close>

definition WorkerThread_check ::
  "(ThreadPriority \<Rightarrow> ThreadPoolJob \<Rightarrow> bool) \<Rightarrow> timeval \<Rightarrow> bool \<Rightarrow> ThreadPool \<Rightarrow>
   ThreadPoolJob list \<times> worker_next \<times> ThreadPool" where
  "WorkerThread_check node_ok now timed_out tp =
     (if no_work tp
      then if worker_expired timed_out tp then ([], W_exit, WorkerThread_exit (add_idle (-1) tp))
           else ([], W_wait, tp)
      else WorkerThread_pick node_ok now tp)"

section \<open>Sections of the public calls\<close>

text \<open>
  What a section of a call ends with: it waits for a pending worker to start before it creates its
  own (\<open>C_before\<close>), it has created a thread and waits for it to start (\<open>C_after\<close>), it waits for the
  persistent job to be picked up, or it returns a code and, where the call has one, the job id.
\<close>

datatype call =
    CallAdd ThreadPoolJob int int int \<comment> \<open>the new job, \<open>rc\<close>, \<open>jobs\<close> and \<open>threads\<close> of \<open>AddWorker\<close>\<close>
  | CallPersistent ThreadPoolJob
  | CallGrow int \<comment> \<open>the loop variable of \<open>ThreadPoolInit\<close> and \<open>ThreadPoolSetAttr\<close>\<close>

datatype call_next = C_before call | C_after call | C_persist | C_return int "int option"

text \<open>
  \<open>CreateWorker\<close> after the first wait: the result, and whether a thread was created and has to be
  waited for. \<open>create_rc\<close> is the result of \<open>ithread_create\<close>.
\<close>

definition note_maxThreads :: "ThreadPool \<Rightarrow> ThreadPool" where
  "note_maxThreads tp =
     (if maxThreadsSeen (stats tp) < totalThreads tp
      then tp\<lparr>stats := (stats tp)\<lparr>maxThreadsSeen := totalThreads tp\<rparr>\<rparr> else tp)"

definition CreateWorker_section :: "int \<Rightarrow> ThreadPool \<Rightarrow> (int option) \<times> ThreadPool" where
  "CreateWorker_section create_rc tp =
     (if maxThreads (tp_attr tp) \<noteq> INFINITE_THREADS \<and> maxThreads (tp_attr tp) < totalThreads tp + 1
      then (Some EMAXTHREADS, tp)
      else if create_rc = 0 then (None, tp\<lparr>pendingWorkerThreadStart := True\<rparr>)
      else (Some create_rc, note_maxThreads tp))"

definition AddWorker_wanted :: "int \<Rightarrow> int \<Rightarrow> ThreadPool \<Rightarrow> bool" where
  "AddWorker_wanted jobs threads tp \<longleftrightarrow>
     threads = 0 \<or> jobsPerThread (tp_attr tp) \<le> trunc_div jobs threads \<or>
     totalThreads tp = busyThreads tp"

text \<open>The end of \<open>ThreadPoolAdd\<close>, lines 867 to 876.\<close>

definition ThreadPoolAdd_finish :: "int \<Rightarrow> ThreadPool \<Rightarrow> call_next \<times> ThreadPool" where
  "ThreadPoolAdd_finish rc tp = (C_return rc (Some (lastJobId tp)), tp\<lparr>lastJobId := lastJobId tp + 1\<rparr>)"

text \<open>The middle of \<open>ThreadPoolAddPersistent\<close>, lines 805 to 817.\<close>

definition AddPersistent_post :: "bool \<Rightarrow> timeval \<Rightarrow> ThreadPoolJob \<Rightarrow> ThreadPool \<Rightarrow> call_next \<times> ThreadPool" where
  "AddPersistent_post alloc_ok now job tp =
     (case CreateThreadPoolJob alloc_ok now job (lastJobId tp) of
        None \<Rightarrow> (C_return EOUTOFMEM (Some INVALID_JOB_ID), tp)
      | Some temp \<Rightarrow> (C_persist, tp\<lparr>persistentJob := Some temp\<rparr>))"

text \<open>
  \<open>CreateWorker\<close> up to the point where it has to wait or returns (\<open>Inl\<close>: what to wait for). The
  callers' loops around it follow.
\<close>

definition create_or_wait :: "int \<Rightarrow> call \<Rightarrow> ThreadPool \<Rightarrow> (call_next + int) \<times> ThreadPool" where
  "create_or_wait create_rc c tp =
     (if pendingWorkerThreadStart tp then (Inl (C_before c), tp)
      else case CreateWorker_section create_rc tp of
        (None, tp1) \<Rightarrow> (Inl (C_after c), tp1)
      | (Some rc, tp1) \<Rightarrow> (Inr rc, tp1))"

definition AddWorker_section :: "int \<Rightarrow> ThreadPoolJob \<Rightarrow> int \<Rightarrow> int \<Rightarrow> int \<Rightarrow> ThreadPool \<Rightarrow> call_next \<times> ThreadPool" where
  "AddWorker_section create_rc job rc jobs threads tp =
     (if AddWorker_wanted jobs threads tp
      then case create_or_wait create_rc (CallAdd job rc jobs threads) tp of
        (Inl nx, tp1) \<Rightarrow> (nx, tp1)
      | (Inr _, tp1) \<Rightarrow> ThreadPoolAdd_finish rc tp1
      else ThreadPoolAdd_finish rc tp)"

text \<open>The loop of \<open>ThreadPoolInit\<close> and \<open>ThreadPoolSetAttr\<close> that creates the minimum of threads.\<close>

definition grow_section :: "int \<Rightarrow> int \<Rightarrow> ThreadPool \<Rightarrow> call_next \<times> ThreadPool" where
  "grow_section create_rc i tp =
     (if i < minThreads (tp_attr tp)
      then case create_or_wait create_rc (CallGrow i) tp of
        (Inl nx, tp1) \<Rightarrow> (nx, tp1)
      | (Inr rc, tp1) \<Rightarrow> (C_return rc None, tp1)
      else (C_return 0 None, tp))"

text \<open>
  Continuing a call: after \<open>CreateWorker\<close> returned \<open>rc\<close>, after a wait for a pending worker, and after
  the created worker has started.
\<close>

definition after_create :: "int \<Rightarrow> bool \<Rightarrow> timeval \<Rightarrow> int \<Rightarrow> call \<Rightarrow> ThreadPool \<Rightarrow> call_next \<times> ThreadPool" where
  "after_create create_rc alloc_ok now rc c tp =
     (case c of
        CallAdd job ret jobs threads \<Rightarrow>
          if rc \<noteq> 0 then ThreadPoolAdd_finish ret tp
          else AddWorker_section create_rc job ret jobs (threads + 1) tp
      | CallPersistent job \<Rightarrow> AddPersistent_post alloc_ok now job tp
      | CallGrow i \<Rightarrow> if rc \<noteq> 0 then (C_return rc None, tp) else grow_section create_rc (i + 1) tp)"

definition resume_before :: "int \<Rightarrow> bool \<Rightarrow> timeval \<Rightarrow> call \<Rightarrow> ThreadPool \<Rightarrow> call_next \<times> ThreadPool" where
  "resume_before create_rc alloc_ok now c tp =
     (case create_or_wait create_rc c tp of
        (Inl nx, tp1) \<Rightarrow> (nx, tp1)
      | (Inr rc, tp1) \<Rightarrow> after_create create_rc alloc_ok now rc c tp1)"

definition resume_after :: "int \<Rightarrow> bool \<Rightarrow> timeval \<Rightarrow> call \<Rightarrow> ThreadPool \<Rightarrow> call_next \<times> ThreadPool" where
  "resume_after create_rc alloc_ok now c tp =
     (if pendingWorkerThreadStart tp then (C_after c, tp)
      else after_create create_rc alloc_ok now 0 c (note_maxThreads tp))"

definition resume_persist :: "ThreadPool \<Rightarrow> call_next \<times> ThreadPool" where
  "resume_persist tp =
     (if persistentJob tp \<noteq> None then (C_persist, tp)
      else (C_return 0 (Some (lastJobId tp)), tp\<lparr>lastJobId := lastJobId tp + 1\<rparr>))"

text \<open>\<open>ThreadPoolAdd\<close> from the lock to the first wait or the return.\<close>

definition ThreadPoolAdd ::
  "(ThreadPriority \<Rightarrow> ThreadPoolJob \<Rightarrow> bool) \<Rightarrow> int \<Rightarrow> bool \<Rightarrow> timeval \<Rightarrow> ThreadPool \<Rightarrow> ThreadPoolJob \<Rightarrow>
   ThreadPoolJob list \<times> call_next \<times> ThreadPool" where
  "ThreadPoolAdd node_ok create_rc alloc_ok now tp job =
     (let totalJobs = int (length (highJobQ tp)) + int (length (lowJobQ tp)) + int (length (medJobQ tp)) in
      if maxJobsTotal (tp_attr tp) \<le> totalJobs then ([], C_return EOUTOFMEM None, tp)
      else case CreateThreadPoolJob alloc_ok now job (lastJobId tp) of
        None \<Rightarrow> ([], C_return EOUTOFMEM (Some INVALID_JOB_ID), tp)
      | Some temp \<Rightarrow>
          let p = priority job;
              rc = (if node_ok p temp then 0 else EOUTOFMEM);
              tp1 = (case p of
                  HIGH_PRIORITY \<Rightarrow> tp\<lparr>highJobQ := requeue node_ok p temp (highJobQ tp)\<rparr>
                | MED_PRIORITY \<Rightarrow> tp\<lparr>medJobQ := requeue node_ok p temp (medJobQ tp)\<rparr>
                | LOW_PRIORITY \<Rightarrow> tp\<lparr>lowJobQ := requeue node_ok p temp (lowJobQ tp)\<rparr>);
              jobs = int (length (highJobQ tp1)) + int (length (lowJobQ tp1)) + int (length (medJobQ tp1));
              threads = totalThreads tp1 - persistentThreads tp1;
              (nx, tp2) = AddWorker_section create_rc temp rc jobs threads tp1
          in (if node_ok p temp then [temp] else [], nx, tp2))"

text \<open>\<open>ThreadPoolAddPersistent\<close> from the lock to the first wait or the return.\<close>

definition ThreadPoolAddPersistent ::
  "int \<Rightarrow> bool \<Rightarrow> timeval \<Rightarrow> ThreadPool \<Rightarrow> ThreadPoolJob \<Rightarrow> call_next \<times> ThreadPool" where
  "ThreadPoolAddPersistent create_rc alloc_ok now tp job =
     (if totalThreads tp < maxThreads (tp_attr tp)
      then resume_before create_rc alloc_ok now (CallPersistent job) tp
      else if totalThreads tp - persistentThreads tp - 1 = 0
      then (C_return EMAXTHREADS (Some INVALID_JOB_ID), tp)
      else AddPersistent_post alloc_ok now job tp)"

text \<open>Taking the first job with the given id out of a queue.\<close>

fun take_job :: "int \<Rightarrow> ThreadPoolJob list \<Rightarrow> (ThreadPoolJob \<times> ThreadPoolJob list) option" where
  "take_job i [] = None"
| "take_job i (j # js) =
     (if jobId j = i then Some (j, js) else map_option (\<lambda>(x, r). (x, j # r)) (take_job i js))"

definition ThreadPoolRemove :: "ThreadPool \<Rightarrow> int \<Rightarrow> int \<times> ThreadPoolJob option \<times> ThreadPool" where
  "ThreadPoolRemove tp i =
     (case take_job i (highJobQ tp) of
        Some (j, q) \<Rightarrow> (0, Some j, tp\<lparr>highJobQ := q\<rparr>)
      | None \<Rightarrow>
        (case take_job i (medJobQ tp) of
           Some (j, q) \<Rightarrow> (0, Some j, tp\<lparr>medJobQ := q\<rparr>)
         | None \<Rightarrow>
           (case take_job i (lowJobQ tp) of
              Some (j, q) \<Rightarrow> (0, Some j, tp\<lparr>lowJobQ := q\<rparr>)
            | None \<Rightarrow>
              (case persistentJob tp of
                 Some j \<Rightarrow> if jobId j = i then (0, Some j, tp\<lparr>persistentJob := None\<rparr>)
                           else (INVALID_JOB_ID, None, tp)
               | None \<Rightarrow> (INVALID_JOB_ID, None, tp)))))"

definition ThreadPoolGetAttr :: "ThreadPool \<Rightarrow> int \<times> ThreadPoolAttr" where
  "ThreadPoolGetAttr tp = (0, tp_attr tp)"

text \<open>
  \<open>ThreadPoolSetAttr\<close> up to the first wait or the end of the loop; \<open>policy_rc\<close> is the result of
  \<open>SetPolicyType\<close>. A non-zero code makes the caller shut the pool down.
\<close>

definition ThreadPoolSetAttr ::
  "int \<Rightarrow> int \<Rightarrow> ThreadPool \<Rightarrow> ThreadPoolAttr option \<Rightarrow> call_next \<times> ThreadPool" where
  "ThreadPoolSetAttr create_rc policy_rc tp attr_opt =
     (let temp = (case attr_opt of Some a \<Rightarrow> a | None \<Rightarrow> snd (TPAttrInit (tp_attr tp))) in
      if policy_rc \<noteq> 0 then (C_return INVALID_POLICY None, tp)
      else let tp1 = tp\<lparr>tp_attr := temp\<rparr> in
        if totalThreads tp1 < minThreads (tp_attr tp1) then grow_section create_rc (totalThreads tp1) tp1
        else (C_return 0 None, tp1))"

text \<open>
  The cleaning loops of \<open>ThreadPoolShutdown\<close>: each queued job's argument is passed to its free
  function, if it has one; the arguments freed are returned in order.
\<close>

fun shutdown_queue :: "ThreadPoolJob list \<Rightarrow> addr list" where
  "shutdown_queue [] = []"
| "shutdown_queue (temp # q) = (if free_fn temp \<noteq> NULL then [arg temp] else []) @ shutdown_queue q"

definition ThreadPoolShutdown :: "ThreadPool \<Rightarrow> addr list \<times> ThreadPool" where
  "ThreadPoolShutdown tp =
     (shutdown_queue (highJobQ tp) @ shutdown_queue (medJobQ tp) @ shutdown_queue (lowJobQ tp) @
        shutdown_queue (case persistentJob tp of None \<Rightarrow> [] | Some j \<Rightarrow> [j]),
      tp\<lparr>highJobQ := [], medJobQ := [], lowJobQ := [], persistentJob := None, shutdown := True\<rparr>)"

text \<open>\<open>ThreadPoolInit\<close> up to the creation of the minimum of threads.\<close>

definition ThreadPoolInit ::
  "int \<Rightarrow> int \<Rightarrow> int \<Rightarrow> ThreadPool \<Rightarrow> ThreadPoolAttr option \<Rightarrow> call_next \<times> ThreadPool" where
  "ThreadPoolInit lock_rc policy_rc create_rc tp attr_opt =
     (if lock_rc \<noteq> 0 then (C_return EAGAIN None, tp)
      else
        let tp1 = tp\<lparr>tp_attr := (case attr_opt of Some a \<Rightarrow> a | None \<Rightarrow> snd (TPAttrInit (tp_attr tp)))\<rparr> in
        if policy_rc \<noteq> 0 then (C_return INVALID_POLICY None, tp1)
        else grow_section create_rc 0
          (tp1\<lparr>stats := StatsInit (stats tp1), highJobQ := [], medJobQ := [], lowJobQ := [],
               persistentJob := None, lastJobId := 0, shutdown := False, totalThreads := 0,
               busyThreads := 0, persistentThreads := 0, pendingWorkerThreadStart := False\<rparr>))"

section \<open>The transition system\<close>

datatype worker_pc =
    PC_dead
  | PC_starting \<comment> \<open>created, before its first section\<close>
  | PC_looping bool int \<comment> \<open>before the top of the loop, with \<open>has_job\<close> and \<open>persistent\<close>\<close>
  | PC_waiting
  | PC_running ThreadPoolJob int

datatype event = Accepted ThreadPoolJob | Started ThreadPoolJob | Removed ThreadPoolJob
  | Lost ThreadPoolJob | Discarded ThreadPoolJob

text \<open>
  The pool, the workers in the order they were created, and for every caller the wait it is blocked
  in (\<open>None\<close>: it is outside the pool).
\<close>

record sys =
  pool :: ThreadPool
  workers :: "worker_pc list"
  callers :: "nat \<Rightarrow> call_next option"

fun worker_pc_of :: "worker_next \<Rightarrow> worker_pc" where
  "worker_pc_of W_wait = PC_waiting"
| "worker_pc_of W_exit = PC_dead"
| "worker_pc_of (W_run j p) = PC_running j p"

fun start_events :: "worker_next \<Rightarrow> event list" where
  "start_events (W_run j p) = [Started j]"
| "start_events _ = []"

fun blocked :: "call_next \<Rightarrow> call_next option" where
  "blocked (C_return rc i) = None"
| "blocked nx = Some nx"

text \<open>A section that sets \<open>pendingWorkerThreadStart\<close> has created a thread.\<close>

definition spawned :: "ThreadPool \<Rightarrow> ThreadPool \<Rightarrow> worker_pc list \<Rightarrow> worker_pc list" where
  "spawned tp tp' ws =
     (if pendingWorkerThreadStart tp' \<and> \<not> pendingWorkerThreadStart tp then ws @ [PC_starting] else ws)"

definition opt_list :: "'a option \<Rightarrow> 'a list" where
  "opt_list x = (case x of None \<Rightarrow> [] | Some a \<Rightarrow> [a])"

text \<open>
  A section that ends waiting for its persistent job has stored it in \<open>tp->persistentJob\<close>; a job
  that was still there is overwritten.
\<close>

definition persist_events :: "call_next \<Rightarrow> ThreadPool \<Rightarrow> ThreadPool \<Rightarrow> event list" where
  "persist_events nx tp tp' =
     (if nx = C_persist
      then map Accepted (opt_list (persistentJob tp')) @ map Lost (opt_list (persistentJob tp)) else [])"

definition call_step :: "sys \<Rightarrow> nat \<Rightarrow> call_next \<Rightarrow> ThreadPool \<Rightarrow> sys" where
  "call_step s c nx tp' =
     s\<lparr>pool := tp', workers := spawned (pool s) tp' (workers s), callers := (callers s)(c := blocked nx)\<rparr>"

definition worker_step :: "sys \<Rightarrow> nat \<Rightarrow> worker_next \<Rightarrow> ThreadPool \<Rightarrow> sys" where
  "worker_step s i nx tp' = s\<lparr>pool := tp', workers := (workers s)[i := worker_pc_of nx]\<rparr>"

inductive step :: "sys \<Rightarrow> event list \<Rightarrow> sys \<Rightarrow> bool" where
  w_start: "i < length (workers s) \<Longrightarrow> workers s ! i = PC_starting \<Longrightarrow>
     step s [] (s\<lparr>pool := WorkerThread_start (pool s), workers := (workers s)[i := PC_looping False (-1)]\<rparr>)"
| w_loop: "i < length (workers s) \<Longrightarrow> workers s ! i = PC_looping has_job p \<Longrightarrow>
     WorkerThread_check node_ok now False (WorkerThread_top has_job p (pool s)) = (lost, nx, tp') \<Longrightarrow>
     step s (map Lost lost @ start_events nx) (worker_step s i nx tp')"
| w_wake: "i < length (workers s) \<Longrightarrow> workers s ! i = PC_waiting \<Longrightarrow>
     WorkerThread_check node_ok now timed_out (pool s) = (lost, nx, tp') \<Longrightarrow>
     step s (map Lost lost @ start_events nx) (worker_step s i nx tp')"
| w_done: "i < length (workers s) \<Longrightarrow> workers s ! i = PC_running j p \<Longrightarrow>
     step s [] (s\<lparr>workers := (workers s)[i := PC_looping True p]\<rparr>)"
| c_add: "callers s c = None \<Longrightarrow>
     ThreadPoolAdd node_ok create_rc alloc_ok now (pool s) job = (acc, nx, tp') \<Longrightarrow>
     step s (map Accepted acc) (call_step s c nx tp')"
| c_add_persistent: "callers s c = None \<Longrightarrow>
     ThreadPoolAddPersistent create_rc alloc_ok now (pool s) job = (nx, tp') \<Longrightarrow>
     step s (persist_events nx (pool s) tp') (call_step s c nx tp')"
| c_before: "callers s c = Some (C_before cl) \<Longrightarrow>
     resume_before create_rc alloc_ok now cl (pool s) = (nx, tp') \<Longrightarrow>
     step s (persist_events nx (pool s) tp') (call_step s c nx tp')"
| c_after: "callers s c = Some (C_after cl) \<Longrightarrow>
     resume_after create_rc alloc_ok now cl (pool s) = (nx, tp') \<Longrightarrow>
     step s (persist_events nx (pool s) tp') (call_step s c nx tp')"
| c_persist: "callers s c = Some C_persist \<Longrightarrow> resume_persist (pool s) = (nx, tp') \<Longrightarrow>
     step s [] (call_step s c nx tp')"
| c_remove: "callers s c = None \<Longrightarrow> ThreadPoolRemove (pool s) i = (rc, out, tp') \<Longrightarrow>
     step s (map Removed (opt_list out)) (s\<lparr>pool := tp'\<rparr>)"
| c_shutdown: "callers s c = None \<Longrightarrow> ThreadPoolShutdown (pool s) = (freed, tp') \<Longrightarrow>
     step s (map Discarded (highJobQ (pool s) @ medJobQ (pool s) @ lowJobQ (pool s) @
        opt_list (persistentJob (pool s)))) (s\<lparr>pool := tp'\<rparr>)"

text \<open>The states after \<open>ThreadPoolInit\<close> has reached its first wait or has returned.\<close>

inductive init_sys :: "sys \<Rightarrow> bool" where
  "ThreadPoolInit 0 0 create_rc raw attr = (nx, tp) \<Longrightarrow>
   init_sys \<lparr>pool = tp, workers = spawned (tp\<lparr>pendingWorkerThreadStart := False\<rparr>) tp [],
             callers = (\<lambda>_. None)(0 := blocked nx)\<rparr>"

text \<open>Runs, with the events they produce in order.\<close>

inductive run :: "sys \<Rightarrow> event list \<Rightarrow> sys \<Rightarrow> bool" where
  run_refl: "run s [] s"
| run_step: "run s es t \<Longrightarrow> step t es' u \<Longrightarrow> run s (es @ es') u"

definition reachable :: "sys \<Rightarrow> bool" where
  "reachable s \<longleftrightarrow> (\<exists>s0 es. init_sys s0 \<and> run s0 es s)"

inductive_cases init_sysE: "init_sys s"

section \<open>Ageing keeps the jobs\<close>

definition queued :: "ThreadPool \<Rightarrow> ThreadPoolJob multiset" where
  "queued tp = mset (highJobQ tp) + mset (medJobQ tp) + mset (lowJobQ tp) +
     mset (opt_list (persistentJob tp))"

text \<open>The part of the pool that the ageing of jobs does not touch.\<close>

definition same_frame :: "ThreadPool \<Rightarrow> ThreadPool \<Rightarrow> bool" where
  "same_frame tp tp' \<longleftrightarrow> lastJobId tp' = lastJobId tp \<and> shutdown tp' = shutdown tp \<and>
     totalThreads tp' = totalThreads tp \<and> pendingWorkerThreadStart tp' = pendingWorkerThreadStart tp \<and>
     busyThreads tp' = busyThreads tp \<and> persistentThreads tp' = persistentThreads tp \<and>
     persistentJob tp' = persistentJob tp \<and> tp_attr tp' = tp_attr tp \<and>
     idleThreads (stats tp') = idleThreads (stats tp) \<and> workerThreads (stats tp') = workerThreads (stats tp)"

lemma mset_hd_tl: "q \<noteq> [] \<Longrightarrow> add_mset (hd q) (mset (tl q)) = mset q"
  by (cases q) auto

lemmas stat_defs = StatsAccountLQ_def StatsAccountMQ_def StatsAccountHQ_def CalcWaitTime_def
  add_idle_def add_worker_stat_def

text \<open>Rule for facts about the whole loop from facts about its two kinds of passes.\<close>

lemma BumpPriority_rule:
  assumes "BumpPriority ok now tp = (lost, tp')"
    and stop: "\<And>tp. \<not> med_starved now tp \<Longrightarrow> \<not> low_starved now tp \<Longrightarrow> P tp [] tp"
    and med: "\<And>tp l1 tp1 l2 tp2. med_starved now tp \<Longrightarrow> bump_med ok now tp = (l1, tp1) \<Longrightarrow>
      P tp1 l2 tp2 \<Longrightarrow> P tp (l1 @ l2) tp2"
    and low: "\<And>tp l1 tp1 l2 tp2. low_starved now tp \<Longrightarrow> bump_low ok now tp = (l1, tp1) \<Longrightarrow>
      P tp1 l2 tp2 \<Longrightarrow> P tp (l1 @ l2) tp2"
  shows "P tp lost tp'"
  using assms
proof (induction ok now tp arbitrary: lost tp' rule: BumpPriority.induct)
  case (1 ok now tp)
  note eq = 1(3) [unfolded BumpPriority.simps [of ok now tp]]
  consider (m) "med_starved now tp" | (l) "\<not> med_starved now tp" "low_starved now tp"
    | (s) "\<not> med_starved now tp" "\<not> low_starved now tp" by blast
  then show ?case
  proof cases
    case m
    obtain l1 tp1 where b: "bump_med ok now tp = (l1, tp1)" by fastforce
    obtain l2 where r: "BumpPriority ok now tp1 = (l2, tp')" "lost = l1 @ l2"
      using eq m b by (auto split: prod.splits)
    have "P tp1 l2 tp'" by (rule 1(1) [OF m b [symmetric] refl r(1) 1(4-6)])
    with 1(5) [OF m b] r show ?thesis by simp
  next
    case l
    obtain l1 tp1 where b: "bump_low ok now tp = (l1, tp1)" by fastforce
    obtain l2 where r: "BumpPriority ok now tp1 = (l2, tp')" "lost = l1 @ l2"
      using eq l b by (auto split: prod.splits)
    have "P tp1 l2 tp'" by (rule 1(2) [OF l b [symmetric] refl r(1) 1(4-6)])
    with 1(6) [OF l(2) b] r show ?thesis by simp
  next
    case s
    then show ?thesis using eq 1(4) by auto
  qed
qed

lemma bump_frame:
  "bump_med ok now tp = (l, tp') \<Longrightarrow> same_frame tp tp'"
  "bump_low ok now tp = (l, tp') \<Longrightarrow> same_frame tp tp'"
  by (auto simp: bump_med_def bump_low_def same_frame_def stat_defs Let_def)

lemma bump_queued:
  "med_starved now tp \<Longrightarrow> bump_med ok now tp = (l, tp') \<Longrightarrow> queued tp' + mset l = queued tp"
  "low_starved now tp \<Longrightarrow> bump_low ok now tp = (l, tp') \<Longrightarrow> queued tp' + mset l = queued tp"
  by (auto simp: bump_med_def bump_low_def queued_def stat_defs requeue_def med_starved_def
      low_starved_def mset_hd_tl [symmetric] Let_def)

lemma same_frame_trans: "same_frame a b \<Longrightarrow> same_frame b c \<Longrightarrow> same_frame a c"
  by (simp add: same_frame_def)

lemma BumpPriority_frame: "BumpPriority ok now tp = (lost, tp') \<Longrightarrow> same_frame tp tp'"
  by (erule BumpPriority_rule [where P = "\<lambda>a l b. same_frame a b"])
    (simp add: same_frame_def, metis same_frame_trans bump_frame(1), metis same_frame_trans bump_frame(2))

lemma BumpPriority_queued: "BumpPriority ok now tp = (lost, tp') \<Longrightarrow> queued tp' + mset lost = queued tp"
  by (erule BumpPriority_rule [where P = "\<lambda>a l b. queued b + mset l = queued a"])
    (auto dest: bump_queued simp: ac_simps)

lemma BumpPriority_fresh:
  "BumpPriority ok now tp = (lost, tp') \<Longrightarrow> \<not> med_starved now tp' \<and> \<not> low_starved now tp'"
  by (erule BumpPriority_rule [where P = "\<lambda>a l b. \<not> med_starved now b \<and> \<not> low_starved now b"]) auto

lemma BumpPriority_none_lost:
  "BumpPriority (\<lambda>_ _. True) now tp = (lost, tp') \<Longrightarrow> lost = []"
  by (erule BumpPriority_rule [where P = "\<lambda>a l b. l = []"]) (auto simp: bump_med_def bump_low_def Let_def)

text \<open>High-priority jobs keep their place; ageing only appends behind them.\<close>

lemma bump_high:
  "bump_med ok now tp = (l, tp') \<Longrightarrow> \<exists>q. highJobQ tp' = highJobQ tp @ q"
  "bump_low ok now tp = (l, tp') \<Longrightarrow> highJobQ tp' = highJobQ tp"
  by (auto simp: bump_med_def bump_low_def stat_defs requeue_def Let_def)

lemma BumpPriority_high_prefix:
  "BumpPriority ok now tp = (lost, tp') \<Longrightarrow> \<exists>q. highJobQ tp' = highJobQ tp @ q"
  by (erule BumpPriority_rule [where P = "\<lambda>a l b. \<exists>q. highJobQ b = highJobQ a @ q"])
    (simp, metis bump_high(1) append_assoc, metis bump_high(2))

section \<open>What each section does to the counters\<close>

text \<open>
  A worker's section either changes no counter and waits, or leaves the idle threads: to exit, or to
  run a job that was in the pool.
\<close>

lemma add_idle_simps [simp]:
  "totalThreads (add_idle d tp) = totalThreads tp" "busyThreads (add_idle d tp) = busyThreads tp"
  "persistentThreads (add_idle d tp) = persistentThreads tp" "tp_attr (add_idle d tp) = tp_attr tp"
  "pendingWorkerThreadStart (add_idle d tp) = pendingWorkerThreadStart tp"
  "idleThreads (stats (add_idle d tp)) = idleThreads (stats tp) + d"
  "workerThreads (stats (add_idle d tp)) = workerThreads (stats tp)"
  "persistentJob (add_idle d tp) = persistentJob tp" "queued (add_idle d tp) = queued tp"
  "lastJobId (add_idle d tp) = lastJobId tp" "shutdown (add_idle d tp) = shutdown tp"
  by (simp_all add: add_idle_def queued_def)

definition delta ::
  "ThreadPool \<Rightarrow> ThreadPool \<Rightarrow> int \<Rightarrow> int \<Rightarrow> int \<Rightarrow> int \<Rightarrow> int \<Rightarrow> bool" where
  "delta tp tp' dt db dp di dw \<longleftrightarrow>
     totalThreads tp' = totalThreads tp + dt \<and> busyThreads tp' = busyThreads tp + db \<and>
     persistentThreads tp' = persistentThreads tp + dp \<and>
     idleThreads (stats tp') = idleThreads (stats tp) + di \<and>
     workerThreads (stats tp') = workerThreads (stats tp) + dw \<and>
     tp_attr tp' = tp_attr tp \<and> pendingWorkerThreadStart tp' = pendingWorkerThreadStart tp"

fun next_delta :: "worker_next \<Rightarrow> ThreadPool \<Rightarrow> ThreadPool \<Rightarrow> bool" where
  "next_delta W_wait tp tp' \<longleftrightarrow> tp' = tp"
| "next_delta W_exit tp tp' \<longleftrightarrow> delta tp tp' (-1) 0 0 (-1) 0"
| "next_delta (W_run j p) tp tp' \<longleftrightarrow>
     p = 0 \<and> delta tp tp' 0 1 0 (-1) 1 \<or> p = 1 \<and> delta tp tp' 0 1 1 (-1) 0"

fun next_jobs :: "worker_next \<Rightarrow> ThreadPoolJob list" where
  "next_jobs (W_run j p) = [j]"
| "next_jobs _ = []"

lemma same_frame_delta: "same_frame tp tp' \<Longrightarrow> delta tp0 tp a b c d e \<Longrightarrow> delta tp0 tp' a b c d e"
  by (simp add: same_frame_def delta_def)

lemma WorkerThread_pick_delta:
  assumes "WorkerThread_pick ok now tp = (lost, nx, tp')"
  shows "next_delta nx tp tp'"
proof -
  obtain l tp1 where b: "BumpPriority ok now (add_idle (-1) tp) = (l, tp1)" by fastforce
  have "delta tp tp1 0 0 0 (-1) 0"
    using same_frame_delta [OF BumpPriority_frame [OF b], of tp] by (simp add: delta_def)
  then show ?thesis
    using assms b
    by (auto simp: WorkerThread_pick_def Let_def WorkerThread_exit_def stat_defs delta_def
        split: if_splits option.splits list.splits)
qed

lemma WorkerThread_pick_queued:
  assumes "WorkerThread_pick ok now tp = (lost, nx, tp')"
  shows "queued tp' + mset lost + mset (next_jobs nx) = queued tp"
proof -
  obtain l tp1 where b: "BumpPriority ok now (add_idle (-1) tp) = (l, tp1)" by fastforce
  have "queued tp1 + mset l = queued tp"
    using BumpPriority_queued [OF b] by simp
  moreover have "lost = l" "queued tp1 = queued tp' + mset (next_jobs nx)"
    using assms b
    by (auto simp: WorkerThread_pick_def Let_def WorkerThread_exit_def stat_defs queued_def opt_list_def
        split: if_splits option.splits list.splits)
  ultimately show ?thesis by (simp add: ac_simps)
qed

lemma WorkerThread_exit_queued [simp]: "queued (WorkerThread_exit tp) = queued tp"
  by (simp add: WorkerThread_exit_def queued_def)

lemma WorkerThread_check_delta:
  "WorkerThread_check ok now to tp = (lost, nx, tp') \<Longrightarrow> next_delta nx tp tp'"
  by (auto simp: WorkerThread_check_def WorkerThread_exit_def delta_def WorkerThread_pick_delta
      split: if_splits)

lemma WorkerThread_check_queued:
  "WorkerThread_check ok now to tp = (lost, nx, tp') \<Longrightarrow>
   queued tp' + mset lost + mset (next_jobs nx) = queued tp"
  by (cases "no_work tp")
    (auto simp: WorkerThread_check_def WorkerThread_pick_queued WorkerThread_exit_queued split: if_splits)

lemma WorkerThread_top_queued [simp]: "queued (WorkerThread_top hj p tp) = queued tp"
  by (simp add: WorkerThread_top_def queued_def stat_defs Let_def)

text \<open>
  A section of a call changes no counter; it may set the flag for a pending worker, if the limit of
  threads leaves room for one more.
\<close>

definition call_frame :: "ThreadPool \<Rightarrow> ThreadPool \<Rightarrow> bool" where
  "call_frame tp tp' \<longleftrightarrow>
     totalThreads tp' = totalThreads tp \<and> busyThreads tp' = busyThreads tp \<and>
     persistentThreads tp' = persistentThreads tp \<and>
     idleThreads (stats tp') = idleThreads (stats tp) \<and>
     workerThreads (stats tp') = workerThreads (stats tp) \<and> tp_attr tp' = tp_attr tp \<and>
     (pendingWorkerThreadStart tp' = pendingWorkerThreadStart tp \<or>
      pendingWorkerThreadStart tp' \<and>
      (maxThreads (tp_attr tp) = -1 \<or> totalThreads tp + 1 \<le> maxThreads (tp_attr tp)))"

lemma call_frame_refl [simp, intro]: "call_frame tp tp"
  by (simp add: call_frame_def)

lemma create_or_wait_frame:
  "create_or_wait crc c tp = (r, tp') \<Longrightarrow> call_frame tp tp' \<and> queued tp' = queued tp \<and>
     persistentJob tp' = persistentJob tp \<and>
     (\<forall>nx. r = Inl nx \<longrightarrow> nx = C_before c \<or> nx = C_after c) \<and>
     (\<forall>rc. r = Inr rc \<longrightarrow> pendingWorkerThreadStart tp' = pendingWorkerThreadStart tp)"
  by (auto simp: create_or_wait_def CreateWorker_section_def call_frame_def note_maxThreads_def queued_def
      codes split: if_splits)

text \<open>
  All sections of the calls, with the jobs they add: the persistent job when they end in \<open>C_persist\<close>.
\<close>

definition section_ok :: "ThreadPool \<Rightarrow> call_next \<Rightarrow> ThreadPool \<Rightarrow> bool" where
  "section_ok tp nx tp' \<longleftrightarrow> call_frame tp tp' \<and>
     (if nx = C_persist
      then queued tp' + mset (opt_list (persistentJob tp)) = queued tp + mset (opt_list (persistentJob tp'))
      else queued tp' = queued tp)"

lemma finish_ok: "ThreadPoolAdd_finish rc tp = (nx, tp') \<Longrightarrow> section_ok tp nx tp'"
  by (auto simp: ThreadPoolAdd_finish_def section_ok_def call_frame_def queued_def)

lemma persist_ok: "AddPersistent_post a now j tp = (nx, tp') \<Longrightarrow> section_ok tp nx tp'"
  by (auto simp: AddPersistent_post_def section_ok_def call_frame_def queued_def split: option.splits)

lemma call_frame_trans:
  "call_frame tp tp1 \<Longrightarrow> call_frame tp1 tp2 \<Longrightarrow> call_frame tp tp2"
  by (auto simp: call_frame_def)

lemma section_ok_trans:
  "call_frame tp tp1 \<Longrightarrow> queued tp1 = queued tp \<Longrightarrow> persistentJob tp1 = persistentJob tp \<Longrightarrow>
   section_ok tp1 nx tp2 \<Longrightarrow> section_ok tp nx tp2"
  by (auto simp: section_ok_def intro: call_frame_trans split: if_splits)

lemma section_ok_wait:
  "create_or_wait crc c tp = (Inl nx, tp') \<Longrightarrow> section_ok tp nx tp'"
  using create_or_wait_frame [of crc c tp "Inl nx" tp'] by (auto simp: section_ok_def)

lemma section_ok_after:
  "create_or_wait crc c tp = (Inr rc, tp1) \<Longrightarrow> section_ok tp1 nx tp' \<Longrightarrow> section_ok tp nx tp'"
  using create_or_wait_frame [of crc c tp "Inr rc" tp1] by (auto intro: section_ok_trans)

lemma section_ok_return: "section_ok tp (C_return rc i) tp"
  by (simp add: section_ok_def)

lemma AddWorker_ok: "AddWorker_section crc j rc jobs th tp = (nx, tp') \<Longrightarrow> section_ok tp nx tp'"
  by (auto simp: AddWorker_section_def split: if_splits prod.splits sum.splits
      intro: section_ok_wait section_ok_after finish_ok)

lemma grow_ok: "grow_section crc i tp = (nx, tp') \<Longrightarrow> section_ok tp nx tp'"
  by (auto simp: grow_section_def split: if_splits prod.splits sum.splits
      intro: section_ok_wait section_ok_after section_ok_return)

lemma after_create_ok: "after_create crc a now rc c tp = (nx, tp') \<Longrightarrow> section_ok tp nx tp'"
  by (auto simp: after_create_def split: call.splits if_splits
      intro: finish_ok AddWorker_ok persist_ok grow_ok section_ok_return)

lemma resume_before_ok: "resume_before crc a now c tp = (nx, tp') \<Longrightarrow> section_ok tp nx tp'"
  by (auto simp: resume_before_def split: prod.splits sum.splits
      intro: section_ok_wait section_ok_after after_create_ok)

lemma note_maxThreads_frame:
  "call_frame tp (note_maxThreads tp)" "queued (note_maxThreads tp) = queued tp"
  "persistentJob (note_maxThreads tp) = persistentJob tp"
  by (auto simp: note_maxThreads_def call_frame_def queued_def)

lemma resume_after_ok:
  assumes "resume_after crc a now c tp = (nx, tp')"
  shows "section_ok tp nx tp'"
proof (cases "pendingWorkerThreadStart tp")
  case True
  then show ?thesis using assms by (auto simp: resume_after_def section_ok_def)
next
  case False
  then have "after_create crc a now 0 c (note_maxThreads tp) = (nx, tp')"
    using assms by (simp add: resume_after_def)
  then show ?thesis
    by (rule section_ok_trans [OF note_maxThreads_frame after_create_ok])
qed

lemma AddPersistent_ok:
  "ThreadPoolAddPersistent crc a now tp j = (nx, tp') \<Longrightarrow> section_ok tp nx tp'"
  by (auto simp: ThreadPoolAddPersistent_def split: if_splits
      intro: resume_before_ok persist_ok section_ok_return)

lemma resume_persist_ok:
  "resume_persist tp = (nx, tp') \<Longrightarrow> call_frame tp tp' \<and> queued tp' = queued tp"
  by (auto simp: resume_persist_def call_frame_def queued_def split: if_splits)

lemma AddWorker_not_persist: "AddWorker_section crc j rc jobs th tp = (nx, tp') \<Longrightarrow> nx \<noteq> C_persist"
  by (auto simp: AddWorker_section_def ThreadPoolAdd_finish_def split: if_splits prod.splits sum.splits
      dest!: create_or_wait_frame)

lemma ThreadPoolAdd_ok:
  assumes "ThreadPoolAdd ok crc a now tp job = (acc, nx, tp')"
  shows "call_frame tp tp' \<and> queued tp' = queued tp + mset acc"
proof -
  consider (ret) "acc = []" "tp' = tp"
    | (add) temp rc jobs th tp1 where "AddWorker_section crc temp rc jobs th tp1 = (nx, tp')"
      "call_frame tp tp1" "queued tp1 = queued tp + mset acc"
  proof (cases "maxJobsTotal (tp_attr tp) \<le> int (length (highJobQ tp)) + int (length (lowJobQ tp)) +
      int (length (medJobQ tp)) \<or> \<not> a")
    case True
    then show ?thesis
      using assms by (intro ret) (auto simp: ThreadPoolAdd_def CreateThreadPoolJob_def Let_def split: if_splits)
  next
    case False
    let ?t = "job\<lparr>jobId := lastJobId tp, requestTime := now\<rparr>"
    let ?p = "priority job"
    let ?tp = "case ?p of
        HIGH_PRIORITY \<Rightarrow> tp\<lparr>highJobQ := requeue ok ?p ?t (highJobQ tp)\<rparr>
      | MED_PRIORITY \<Rightarrow> tp\<lparr>medJobQ := requeue ok ?p ?t (medJobQ tp)\<rparr>
      | LOW_PRIORITY \<Rightarrow> tp\<lparr>lowJobQ := requeue ok ?p ?t (lowJobQ tp)\<rparr>"
    have acc: "acc = (if ok ?p ?t then [?t] else [])"
      and w: "\<exists>rc jobs th. AddWorker_section crc ?t rc jobs th ?tp = (nx, tp')"
      using False assms by (auto simp: ThreadPoolAdd_def CreateThreadPoolJob_def Let_def split: prod.splits)
    have "call_frame tp ?tp" "queued ?tp = queued tp + mset acc"
      using acc by (auto simp: call_frame_def queued_def requeue_def split: ThreadPriority.splits)
    with w show ?thesis using add by blast
  qed
  then show ?thesis
  proof cases
    case add
    have "section_ok tp1 nx tp'" "nx \<noteq> C_persist"
      using add(1) AddWorker_ok AddWorker_not_persist by blast+
    then show ?thesis
      using add by (auto simp: section_ok_def intro: call_frame_trans)
  qed simp
qed

lemma take_job_mset: "take_job i q = Some (j, r) \<Longrightarrow> mset q = add_mset j (mset r) \<and> jobId j = i"
  by (induction q arbitrary: r) (auto split: if_splits)

lemma take_job_None: "take_job i q = None \<longleftrightarrow> (\<forall>j \<in> set q. jobId j \<noteq> i)"
  by (induction q) (auto split: if_splits)

lemma ThreadPoolRemove_ok:
  assumes "ThreadPoolRemove tp i = (rc, out, tp')"
  shows "call_frame tp tp' \<and> pendingWorkerThreadStart tp' = pendingWorkerThreadStart tp \<and>
    queued tp' + mset (opt_list out) = queued tp"
  using assms
  by (auto simp: ThreadPoolRemove_def call_frame_def queued_def opt_list_def dest!: take_job_mset
      split: option.splits if_splits)

lemma ThreadPoolShutdown_ok:
  "ThreadPoolShutdown tp = (freed, tp') \<Longrightarrow> call_frame tp tp' \<and> queued tp' = {#} \<and>
     pendingWorkerThreadStart tp' = pendingWorkerThreadStart tp"
  by (auto simp: ThreadPoolShutdown_def call_frame_def queued_def opt_list_def)

section \<open>The counters in every reachable state\<close>

definition cnt :: "(worker_pc \<Rightarrow> bool) \<Rightarrow> worker_pc list \<Rightarrow> int" where
  "cnt P ws = int (length (filter P ws))"

fun is_alive :: "worker_pc \<Rightarrow> bool" where
  "is_alive PC_dead = False" | "is_alive PC_starting = False" | "is_alive _ = True"

fun is_busy :: "worker_pc \<Rightarrow> bool" where
  "is_busy (PC_running j p) = True" | "is_busy (PC_looping hj p) = hj" | "is_busy _ = False"

fun is_persistent :: "worker_pc \<Rightarrow> bool" where
  "is_persistent (PC_running j p) = (p = 1)" | "is_persistent (PC_looping hj p) = (p = 1)"
| "is_persistent _ = False"

fun is_ordinary :: "worker_pc \<Rightarrow> bool" where
  "is_ordinary (PC_running j p) = (p = 0)" | "is_ordinary (PC_looping hj p) = (p = 0)"
| "is_ordinary _ = False"

definition sys_inv :: "sys \<Rightarrow> bool" where
  "sys_inv s \<longleftrightarrow>
     totalThreads (pool s) = cnt is_alive (workers s) \<and>
     busyThreads (pool s) = cnt is_busy (workers s) \<and>
     persistentThreads (pool s) = cnt is_persistent (workers s) \<and>
     idleThreads (stats (pool s)) = cnt (\<lambda>w. w = PC_waiting) (workers s) \<and>
     workerThreads (stats (pool s)) = cnt is_ordinary (workers s) \<and>
     cnt (\<lambda>w. w = PC_starting) (workers s) = of_bool (pendingWorkerThreadStart (pool s)) \<and>
     (maxThreads (tp_attr (pool s)) = -1 \<or>
      totalThreads (pool s) + of_bool (pendingWorkerThreadStart (pool s)) \<le> max 0 (maxThreads (tp_attr (pool s))))"

lemma cnt_update:
  "i < length ws \<Longrightarrow> cnt P (ws[i := w]) = cnt P ws - of_bool (P (ws ! i)) + of_bool (P w)"
proof (induction ws arbitrary: i)
  case (Cons a ws)
  then show ?case by (cases i) (auto simp: cnt_def)
qed simp

lemma cnt_append [simp]: "cnt P (ws @ [w]) = cnt P ws + of_bool (P w)"
  by (simp add: cnt_def)

lemma cnt_nonneg [simp]: "0 \<le> cnt P ws"
  by (simp add: cnt_def)

lemma cnt_pos: "i < length ws \<Longrightarrow> P (ws ! i) \<Longrightarrow> 0 < cnt P ws"
  using nth_mem [of i ws] by (fastforce simp: cnt_def filter_empty_conv)

lemma call_step_inv:
  assumes "sys_inv s" "call_frame (pool s) tp'"
  shows "sys_inv (call_step s c nx tp')"
  using assms
  by (auto simp: sys_inv_def call_frame_def call_step_def spawned_def)

lemma pool_update_inv:
  assumes "sys_inv s" "call_frame (pool s) tp'" "pendingWorkerThreadStart tp' = pendingWorkerThreadStart (pool s)"
  shows "sys_inv (s\<lparr>pool := tp'\<rparr>)"
  using assms by (auto simp: sys_inv_def call_frame_def)

lemma waiting_section_inv:
  assumes inv: "sys_inv s" and i: "i < length (workers s)" "workers s ! i = PC_waiting"
    and nd: "next_delta nx (pool s) tp'"
  shows "sys_inv (worker_step s i nx tp')"
proof (cases nx)
  case W_wait
  then show ?thesis using inv i nd by (auto simp: sys_inv_def worker_step_def cnt_update)
next
  case W_exit
  then show ?thesis using inv i nd by (auto simp: sys_inv_def worker_step_def cnt_update delta_def)
next
  case (W_run j p)
  then show ?thesis using inv i nd by (auto simp: sys_inv_def worker_step_def cnt_update delta_def)
qed

text \<open>The top of the loop makes a looping worker an idle one.\<close>

lemma top_inv:
  assumes inv: "sys_inv s" and i: "i < length (workers s)" "workers s ! i = PC_looping hj p"
  shows "sys_inv (s\<lparr>pool := WorkerThread_top hj p (pool s), workers := (workers s)[i := PC_waiting]\<rparr>)"
  using inv i by (auto simp: sys_inv_def WorkerThread_top_def cnt_update stat_defs Let_def)

lemma step_inv: "step s es s' \<Longrightarrow> sys_inv s \<Longrightarrow> sys_inv s'"
proof (induction rule: step.induct)
  case (w_start i s)
  then show ?case
    using cnt_pos [of i "workers s" "\<lambda>w. w = PC_starting"]
    by (auto simp: sys_inv_def WorkerThread_start_def cnt_update split: if_splits)
next
  case (w_loop i s hj p ok now lost nx tp')
  let ?s = "s\<lparr>pool := WorkerThread_top hj p (pool s), workers := (workers s)[i := PC_waiting]\<rparr>"
  have "sys_inv (worker_step ?s i nx tp')"
    using w_loop WorkerThread_check_delta by (intro waiting_section_inv top_inv) auto
  then show ?case by (simp add: worker_step_def)
next
  case (w_done i s j p)
  then show ?case by (auto simp: sys_inv_def cnt_update)
qed (auto intro!: waiting_section_inv call_step_inv pool_update_inv
      dest: WorkerThread_check_delta ThreadPoolAdd_ok AddPersistent_ok resume_before_ok resume_after_ok
        resume_persist_ok ThreadPoolRemove_ok ThreadPoolShutdown_ok simp: section_ok_def)

end
