(* ===== verification/Uri_Parser.thy ===== *)
theory Uri_Parser
  imports Upnp_Prelude
begin

text \<open>
  URIs, \<^verbatim>\<open>upnp/src/genlib/net/uri/uri.c\<close>: character classes, decoding of escapes, the parser, dot
  segments and relative references. A C string is the list of its characters without the
  terminator; \<open>at s i\<close> reads a character, the terminator (NUL) from the end on. A token, a pointer into
  the parsed string with a size, is an offset with a size. The resolver and \<open>inet_pton\<close> of the C
  library are arguments.
\<close>

section \<open>Characters\<close>

definition at :: "string \<Rightarrow> nat \<Rightarrow> char" where
  "at s i = (if i < length s then s ! i else NUL)"

definition MARK :: string where "MARK = ''-_.!~*'()''"
definition RESERVED :: string where "RESERVED = '';/?:@&=+$,{}''"

text \<open>\<open>strchr\<close> also finds the terminator of the set, so NUL is in every class built on it.\<close>

definition is_reserved :: "char \<Rightarrow> bool" where
  "is_reserved c \<longleftrightarrow> c \<in> set RESERVED \<or> c = NUL"

definition is_mark :: "char \<Rightarrow> bool" where
  "is_mark c \<longleftrightarrow> c \<in> set MARK \<or> c = NUL"

definition is_unreserved :: "char \<Rightarrow> bool" where
  "is_unreserved c \<longleftrightarrow> isalnum c \<or> is_mark c"

definition is_escaped :: "string \<Rightarrow> nat \<Rightarrow> bool" where
  "is_escaped s i \<longleftrightarrow> at s i = CHR ''%'' \<and> isxdigit (at s (i + 1)) \<and> isxdigit (at s (i + 2))"

section \<open>Escapes\<close>

function replace_escaped_loop :: "string \<Rightarrow> char \<Rightarrow> nat \<Rightarrow> nat \<Rightarrow> nat \<Rightarrow> string" where
  "replace_escaped_loop s tempChar i j mx =
     (if j < mx
      then let s' = s[j := tempChar] in
           replace_escaped_loop s' (if i < mx then at s' i else NUL) (i + 1) (j + 1) mx
      else s)"
  by pat_completeness auto
termination by (relation "measure (\<lambda>(s, t, i, j, mx). mx - j)") auto

declare replace_escaped_loop.simps [simp del]

definition hex_char :: "char \<Rightarrow> char \<Rightarrow> char" where
  "hex_char a b = char_of (digit_value a * 16 + digit_value b)"

text \<open>The result code, the buffer and the new size.\<close>

definition replace_escaped :: "string \<Rightarrow> nat \<Rightarrow> nat \<Rightarrow> int \<times> string \<times> nat" where
  "replace_escaped s index mx =
     (if at s index = CHR ''%'' \<and> isxdigit (at s (index + 1)) \<and> isxdigit (at s (index + 2))
      then (1, replace_escaped_loop s (hex_char (at s (index + 1)) (at s (index + 2))) (index + 3) index mx,
            size_sub mx 2)
      else (0, s, mx))"

partial_function (option) remove_escaped_loop :: "string \<Rightarrow> nat \<Rightarrow> nat \<Rightarrow> (string \<times> nat) option" where
  "remove_escaped_loop s i sz =
     (if i < sz
      then case replace_escaped s i sz of (rc, s', sz') \<Rightarrow> remove_escaped_loop s' (i + 1) sz'
      else Some (s, sz))"

definition remove_escaped_chars :: "string \<Rightarrow> nat \<Rightarrow> (int \<times> string \<times> nat) option" where
  "remove_escaped_chars s sz =
     map_option (\<lambda>(s', n). (UPNP_E_SUCCESS, s', n)) (remove_escaped_loop s 0 sz)"

section \<open>Tokens\<close>

record token =
  buff :: "nat option"
  tk_size :: nat

definition no_token :: token where
  "no_token = \<lparr>buff = None, tk_size = 0\<rparr>"

definition tok_str :: "string \<Rightarrow> token \<Rightarrow> string" where
  "tok_str s t = (case buff t of None \<Rightarrow> [] | Some off \<Rightarrow> take (tk_size t) (drop off s))"

function uric_loop :: "string \<Rightarrow> nat \<Rightarrow> nat \<Rightarrow> nat \<Rightarrow> nat" where
  "uric_loop s off mx i =
     (if i < mx \<and> (is_unreserved (at s (off + i)) \<or> is_reserved (at s (off + i)) \<or>
                     (i + 2 < mx \<and> is_escaped s (off + i)))
      then uric_loop s off mx (i + 1) else i)"
  by pat_completeness auto
termination by (relation "measure (\<lambda>(s, off, mx, i). mx - i)") auto

declare uric_loop.simps [simp del]

definition parse_uric :: "string \<Rightarrow> nat \<Rightarrow> nat \<Rightarrow> nat \<times> token" where
  "parse_uric s off mx = (let i = uric_loop s off mx 0 in (i, \<lparr>buff = Some off, tk_size = i\<rparr>))"

definition token_string_casecmp :: "string \<Rightarrow> token \<Rightarrow> string \<Rightarrow> int" where
  "token_string_casecmp s in1 in2 =
     (if tk_size in1 \<noteq> length in2 then 1 else strncasecmp (tok_str s in1) in2 (tk_size in1))"

fun memcmp :: "string \<Rightarrow> string \<Rightarrow> int" where
  "memcmp (x # a) (y # b) = (if x \<noteq> y then int (byte_of x) - int (byte_of y) else memcmp a b)"
| "memcmp _ _ = 0"

definition token_cmp :: "string \<Rightarrow> token \<Rightarrow> string \<Rightarrow> token \<Rightarrow> int" where
  "token_cmp s1 in1 s2 in2 =
     (if tk_size in1 \<noteq> tk_size in2 then 1 else memcmp (tok_str s1 in1) (tok_str s2 in2))"

section \<open>Host and port\<close>

datatype family = AF_UNSPEC | AF_INET | AF_INET6

text \<open>
  The resolver: for a host name the first IPv4 or IPv6 address \<open>getaddrinfo\<close> lists, if it lists one;
  \<open>inet_pton\<close>: the address bytes for a text, if it is one.
\<close>

record net_env =
  getaddrinfo :: "string \<Rightarrow> (family \<times> nat list) option"
  inet_pton4 :: "string \<Rightarrow> nat list option"
  inet_pton6 :: "string \<Rightarrow> nat list option"

record hostport_type =
  hp_text :: token
  ss_family :: family
  ip_addr :: "nat list"
  ip_port :: nat

definition no_hostport :: hostport_type where
  "no_hostport = \<lparr>hp_text = no_token, ss_family = AF_UNSPEC, ip_addr = [], ip_port = 0\<rparr>"

definition host_char :: "char \<Rightarrow> bool" where
  "host_char c \<longleftrightarrow> c \<noteq> CHR '':'' \<and> c \<noteq> CHR ''/'' \<and> (isalnum c \<or> c = CHR ''.'' \<or> c = CHR ''-'')"

text \<open>The character after the last dot of the name, if there is a dot.\<close>

fun after_last_dot :: "string \<Rightarrow> char option" where
  "after_last_dot [] = None"
| "after_last_dot (c # cs) =
     (case after_last_dot cs of Some d \<Rightarrow> Some d
      | None \<Rightarrow> if c = CHR ''.'' then Some (at cs 0) else None)"

text \<open>
  The name part of the host and port in the working copy: the address family it must have, the name,
  whether a port follows, and the position behind all that; \<open>None\<close> if a bracket is not closed.
\<close>

definition split_host :: "string \<Rightarrow> (family \<times> string \<times> bool \<times> nat) option" where
  "split_host w =
     (if at w 0 = CHR ''['' then
        let srvname = takeWhile (\<lambda>c. c \<noteq> CHR '']'') (tl w); c = 1 + length srvname in
        if at w c = NUL then None
        else let c1 = c + 1; has_port = (at w c1 = CHR '':'') in
             Some (AF_INET6, srvname, has_port, if has_port then c1 + 1 else c1)
      else
        let srvname = takeWhile host_char w; c = length srvname; has_port = (at w c = CHR '':'') in
        Some (case after_last_dot srvname of
                Some d \<Rightarrow> if isdigit d then AF_INET else AF_UNSPEC | None \<Rightarrow> AF_UNSPEC,
              srvname, has_port, if has_port then c + 1 else c))"

text \<open>
  \<open>parse_hostport\<close> at offset \<open>off\<close> of the string \<open>s\<close>; the result is the error code or the size, with the
  filled structure.
\<close>

definition parse_hostport :: "net_env \<Rightarrow> string \<Rightarrow> nat \<Rightarrow> nat \<Rightarrow> int \<times> hostport_type" where
  "parse_hostport env s off defaultPort =
     (let workbuf = take 255 (takeWhile (\<lambda>c. c \<noteq> NUL) (drop off s)) in
      case split_host workbuf of None \<Rightarrow> (UPNP_E_INVALID_URL, no_hostport)
      | Some (af, srvname, has_port, c) \<Rightarrow>
        let resolved = (if af = AF_UNSPEC then getaddrinfo env srvname else Some (AF_UNSPEC, [])) in
        case resolved of None \<Rightarrow> (UPNP_E_INVALID_URL, no_hostport)
        | Some (rfamily, raddr) \<Rightarrow>
          let srvport = drop c workbuf;
              c1 = (if has_port then c + length (takeWhile isdigit srvport) else c);
              port = (if has_port then nat (fst (strtol srvport 10) mod 65536) else defaultPort)
          in
          if has_port \<and> port = 0 then (UPNP_E_INVALID_URL, no_hostport)
          else
            let result = (case af of
                  AF_INET \<Rightarrow> map_option (Pair AF_INET) (inet_pton4 env srvname)
                | AF_INET6 \<Rightarrow> map_option (Pair AF_INET6) (inet_pton6 env srvname)
                | AF_UNSPEC \<Rightarrow> Some (rfamily, raddr))
            in case result of None \<Rightarrow> (UPNP_E_INVALID_URL, no_hostport)
               | Some (fam, adr) \<Rightarrow>
                   (int c1, \<lparr>hp_text = \<lparr>buff = Some off, tk_size = c1\<rparr>, ss_family = fam, ip_addr = adr, ip_port = port\<rparr>))"

section \<open>The parser\<close>

datatype uriType = ABSOLUTE | RELATIVE
datatype pathType = ABS_PATH | REL_PATH | OPAQUE_PART

record uri_type =
  u_type :: uriType
  scheme :: token
  path_type :: pathType
  pathquery :: token
  fragment :: token
  hostport :: hostport_type

definition HTTP_SUCCESS :: int where [codes]: "HTTP_SUCCESS = 1"

function scheme_loop :: "string \<Rightarrow> nat \<Rightarrow> nat \<Rightarrow> nat" where
  "scheme_loop s mx i =
     (if i < mx \<and> at s i \<noteq> CHR '':''
      then if isalnum (at s i) \<or> at s i = CHR ''+'' \<or> at s i = CHR ''-'' \<or> at s i = CHR ''.''
           then scheme_loop s mx (i + 1) else 0
      else if i < mx then i else 0)"
  by pat_completeness auto
termination by (relation "measure (\<lambda>(s, mx, i). mx - i)") auto

declare scheme_loop.simps [simp del]

definition parse_scheme :: "string \<Rightarrow> nat \<Rightarrow> nat \<times> token" where
  "parse_scheme s mx =
     (if mx = 0 \<or> \<not> isalpha (at s 0) then (0, no_token)
      else let i = scheme_loop s mx 1 in
           if i = 0 then (0, no_token) else (i, \<lparr>buff = Some 0, tk_size = i\<rparr>))"

text \<open>The end of \<open>parse_uri\<close>, from line 759: the path with the query, and the fragment.\<close>

definition parse_uri_path ::
  "string \<Rightarrow> nat \<Rightarrow> uriType \<Rightarrow> pathType \<Rightarrow> token \<Rightarrow> hostport_type \<Rightarrow> nat \<Rightarrow> uri_type" where
  "parse_uri_path s mx typ ptyp schm hp begin_path =
     (let (n, pq) = parse_uric s begin_path (size_sub mx begin_path);
          begin_fragment = size_add n begin_path
      in \<lparr>u_type = typ, scheme = schm,
          path_type = (if tk_size pq \<noteq> 0 \<and> at s begin_path = CHR ''/'' then ABS_PATH else ptyp),
          pathquery = pq,
          fragment = (if begin_fragment < mx \<and> at s begin_fragment = CHR ''#''
                      then snd (parse_uric s (begin_fragment + 1) (mx - (begin_fragment + 1))) else no_token),
          hostport = hp\<rparr>)"

text \<open>
  The code keeps the start of the path in an \<open>int\<close> and uses it as index and, converted to \<open>size_t\<close>, in the
  length: \<open>path_index\<close> is the converted value. A negative start, which only a string of more than $2^{31}$
  characters gives, becomes an index outside the string.
\<close>

definition path_index :: "int \<Rightarrow> nat" where
  "path_index begin_path = nat (begin_path mod 2 ^ 64)"

definition parse_uri :: "net_env \<Rightarrow> string \<Rightarrow> nat \<Rightarrow> int \<times> uri_type option" where
  "parse_uri env s mx =
     (let (n, schm) = parse_scheme s mx;
          typ = (if n \<noteq> 0 then ABSOLUTE else RELATIVE);
          ptyp = (if n \<noteq> 0 then OPAQUE_PART else REL_PATH);
          begin_hostport = (if n \<noteq> 0 then size_add n 1 else n)
      in
      if size_add begin_hostport 1 < mx \<and> at s begin_hostport = CHR ''/'' \<and> at s (begin_hostport + 1) = CHR ''/''
      then
        let defaultPort = (if token_string_casecmp s schm ''https'' = 0 then 443 else 80);
            begin_hostport = size_add begin_hostport 2;
            (begin_path, hp) = parse_hostport env s begin_hostport defaultPort
        in if 0 \<le> begin_path
           then (HTTP_SUCCESS, Some (parse_uri_path s mx typ ptyp schm hp
                   (path_index (to_int32 (begin_path + to_int32 (int begin_hostport))))))
           else (begin_path, None)
      else (HTTP_SUCCESS, Some (parse_uri_path s mx typ ptyp schm no_hostport
              (path_index (to_int32 (int begin_hostport))))))"

section \<open>Dot segments\<close>

definition is_end_path :: "char \<Rightarrow> bool" where
  "is_end_path c \<longleftrightarrow> c = CHR ''?'' \<or> c = CHR ''#'' \<or> c = NUL"

definition has_prefix :: "string \<Rightarrow> nat \<Rightarrow> string \<Rightarrow> bool" where
  "has_prefix buf i lit \<longleftrightarrow> strncmp (drop i buf) lit (length lit) = 0"

text \<open>Trimming the last component of the output: the position of its slash, 0 if there is none.\<close>

fun trim_out :: "string \<Rightarrow> nat \<Rightarrow> nat" where
  "trim_out buf 0 = 0"
| "trim_out buf (Suc out) = (if at buf out = CHR ''/'' then out else trim_out buf out)"

text \<open>Moving a segment: the loop of case E, on the buffer and both positions.\<close>

function move_segment :: "string \<Rightarrow> nat \<Rightarrow> nat \<Rightarrow> nat \<Rightarrow> string \<times> nat \<times> nat" where
  "move_segment buf inp out mx =
     (if inp < mx \<and> at buf inp \<noteq> CHR ''/'' \<and> \<not> is_end_path (at buf inp)
      then move_segment (buf[out := at buf inp]) (inp + 1) (out + 1) mx
      else (buf, inp, out))"
  by pat_completeness auto
termination by (relation "measure (\<lambda>(buf, inp, out, mx). mx - inp)") auto

declare move_segment.simps [simp del]

definition move_slash :: "string \<Rightarrow> nat \<Rightarrow> nat \<Rightarrow> string \<times> nat \<times> nat" where
  "move_slash buf inp out =
     (if at buf inp = CHR ''/'' then (buf[out := at buf inp], inp + 1, out + 1) else (buf, inp, out))"

text \<open>One pass of the loop of \<open>remove_dots\<close>.\<close>

definition remove_dots_step :: "string \<Rightarrow> nat \<Rightarrow> nat \<Rightarrow> nat \<Rightarrow> string \<times> nat \<times> nat" where
  "remove_dots_step buf inp out mx =
     (if has_prefix buf inp ''./'' then (buf, inp + 2, out)
      else if has_prefix buf inp ''../'' then (buf, inp + 3, out)
      else if has_prefix buf inp ''/./'' then (buf, inp + 2, out)
      else if has_prefix buf inp ''/.'' \<and> is_end_path (at buf (inp + 2)) then (buf[inp + 1 := CHR ''/''], inp + 1, out)
      else if has_prefix buf inp ''/../'' \<or> has_prefix buf inp ''/..'' \<and> is_end_path (at buf (inp + 3)) then
        if is_end_path (at buf (inp + 3)) then (buf[inp + 2 := CHR ''/''], inp + 2, trim_out (buf[inp + 2 := CHR ''/'']) out)
        else (buf, inp + 3, trim_out buf out)
      else if has_prefix buf inp ''.'' \<and> is_end_path (at buf (inp + 1)) then (buf, inp + 1, out)
      else if has_prefix buf inp ''..'' \<and> is_end_path (at buf (inp + 2)) then (buf, inp + 2, out)
      else case move_slash buf inp out of (buf1, inp1, out1) \<Rightarrow> move_segment buf1 inp1 out1 mx)"

partial_function (option) remove_dots_loop :: "string \<Rightarrow> nat \<Rightarrow> nat \<Rightarrow> nat \<Rightarrow> (string \<times> nat \<times> nat) option" where
  "remove_dots_loop buf inp out mx =
     (if is_end_path (at buf inp) then Some (buf, inp, out)
      else case remove_dots_step buf inp out mx of (buf', inp', out') \<Rightarrow> remove_dots_loop buf' inp' out' mx)"

text \<open>The copy of the query and fragment behind the path, and the terminator.\<close>

function copy_rest :: "string \<Rightarrow> nat \<Rightarrow> nat \<Rightarrow> nat \<Rightarrow> string \<times> nat" where
  "copy_rest buf inp out mx =
     (if inp < mx then copy_rest (buf[out := at buf inp]) (inp + 1) (out + 1) mx else (buf, out))"
  by pat_completeness auto
termination by (relation "measure (\<lambda>(buf, inp, out, mx). mx - inp)") auto

declare copy_rest.simps [simp del]

text \<open>The result code and the C string left in the buffer.\<close>

definition remove_dots :: "string \<Rightarrow> nat \<Rightarrow> (int \<times> string) option" where
  "remove_dots buf sz =
     do {
       (buf1, inp, out) \<leftarrow> remove_dots_loop buf 0 0 sz;
       let (buf2, out2) = copy_rest buf1 inp out sz;
       Some (UPNP_E_SUCCESS, take out2 buf2)
     }"

section \<open>Relative references\<close>

text \<open>The length of the part of the base path that is kept: up to its last slash, or to the query.\<close>

function keep_prefix :: "string \<Rightarrow> bool \<Rightarrow> nat \<Rightarrow> nat \<Rightarrow> nat" where
  "keep_prefix pq rel_query i prefix =
     (if i < length pq
      then if at pq i = CHR ''/'' then keep_prefix pq rel_query (i + 1) (i + 1)
           else if at pq i = CHR ''?'' then if rel_query then i else prefix
           else keep_prefix pq rel_query (i + 1) prefix
      else prefix)"
  by pat_completeness auto
termination by (relation "measure (\<lambda>(pq, q, i, prefix). length pq - i)") auto

declare keep_prefix.simps [simp del]

text \<open>A call of \<open>snprintf\<close> with \<open>len\<close> bytes left; \<open>None\<close> if the text does not fit.\<close>

definition emit :: "string \<times> nat \<Rightarrow> string \<Rightarrow> (string \<times> nat) option" where
  "emit st t = (case st of (out, len) \<Rightarrow> if length t < len then Some (out @ t, len - length t) else None)"

text \<open>
  The path of the result, lines 651 to 715: what is written behind the authority, with the bytes left.
\<close>

definition resolve_path :: "string \<Rightarrow> uri_type \<Rightarrow> string \<Rightarrow> uri_type \<Rightarrow> nat \<Rightarrow> (string \<times> nat) option" where
  "resolve_path base_url base rel_url rel len =
     (if path_type rel = ABS_PATH then emit ([], len) rel_url
      else if tk_size (pathquery base) = 0 then emit ([], len) (''/'' @ rel_url)
      else
        do {
          (p, len1) \<leftarrow>
            (if tk_size (pathquery rel) = 0 then emit ([], len) (tok_str base_url (pathquery base))
             else
               let pq = tok_str base_url (pathquery base); rq = tok_str rel_url (pathquery rel);
                   prefix = keep_prefix pq (at rq 0 = CHR ''?'') 0 1
               in if len < tk_size (pathquery base) then None
                  else emit (take prefix pq, len - prefix) rq);
          (if tk_size (fragment rel) > 0 then emit (p, len1) (''#'' @ tok_str rel_url (fragment rel))
           else if tk_size (fragment base) > 0 then emit (p, len1) (''#'' @ tok_str base_url (fragment base))
           else if 0 < len1 then Some (p, len1) else None)
        })"

definition resolve_rel_url :: "net_env \<Rightarrow> bool \<Rightarrow> string option \<Rightarrow> string option \<Rightarrow> string option" where
  "resolve_rel_url env malloc_ok base_opt rel_opt =
     (case (base_opt, rel_opt) of
        (None, _) \<Rightarrow> if malloc_ok then rel_opt else None
      | (Some base_url, None) \<Rightarrow> None
      | (Some base_url, Some rel_url) \<Rightarrow>
        (case parse_uri env rel_url (length rel_url) of
           (rc, Some rel) \<Rightarrow>
             if u_type rel = ABSOLUTE then if malloc_ok then Some rel_url else None
             else
               (case parse_uri env base_url (length base_url) of
                  (rc', Some base) \<Rightarrow>
                    if u_type base \<noteq> ABSOLUTE then None
                    else if length rel_url = 0 then if malloc_ok then Some base_url else None
                    else if \<not> malloc_ok then None
                    else
                      do {
                        (out1, len1) \<leftarrow> emit ([], length base_url + length rel_url + 2)
                                             (tok_str base_url (scheme base) @ '':'');
                        if tk_size (hp_text (hostport rel)) > 0
                        then map_option fst (emit (out1, len1) rel_url)
                        else do {
                          (out2, len2) \<leftarrow>
                            (if tk_size (hp_text (hostport base)) > 0
                             then emit (out1, len1) (''//'' @ tok_str base_url (hp_text (hostport base)))
                             else Some (out1, len1));
                          (p, len3) \<leftarrow> resolve_path base_url base rel_url rel len2;
                          (rc'', p') \<leftarrow> remove_dots p (length p);
                          Some (out2 @ p')
                        }
                      }
                | (rc', None) \<Rightarrow> None)
         | (rc, None) \<Rightarrow> None))"

end
