(* ===== verification/Gena_Events.thy ===== *)
theory Gena_Events
  imports Thread_Pool Uri_Parser
begin

text \<open>
  Events on their way to subscribers: the data that \<^verbatim>\<open>gena/gena_device.c\<close> and
  \<^verbatim>\<open>genlib/service_table/service_table.c\<close> share.

  An event for several subscribers is one text with one reference counter and one
  \<open>notify_thread_struct\<close> per subscriber. The structures and the counted texts live in a heap; the four
  strings of a text (headers, property set, service id, UDN) are allocated before the counter and
  released with it, so they are one cell with the counter. \<open>None\<close> is an access through a dangling
  pointer. The queue \<open>outgoing\<close> of a subscription is the sequence of its jobs, as the refinement of
  \<open>Linked_List\<close> allows; the lists of subscriptions and services, chained by \<open>next\<close>, are lists.
\<close>

section \<open>Delivery URLs\<close>

text \<open>
  \<open>URLs\<close> is the text of the CALLBACK header; a parsed URL has the offset its text starts at, and is
  \<open>None\<close> while the array element has not been written.
\<close>

record URL_list =
  URLs :: "string option"
  parsedURLs :: "(nat \<times> uri_type) option list"

definition no_urls :: URL_list where
  "no_urls = \<lparr>URLs = None, parsedURLs = []\<rparr>"

definition copy_URL_list :: "bool \<Rightarrow> URL_list \<Rightarrow> (int \<times> URL_list) option" where
  "copy_URL_list malloc_ok inl =
     (case URLs inl of None \<Rightarrow> None
      | Some s \<Rightarrow>
          if \<not> malloc_ok then Some (UPNP_E_OUTOF_MEMORY, no_urls)
          else Some (HTTP_SUCCESS, \<lparr>URLs = Some (takeWhile (\<lambda>c. c \<noteq> NUL) s), parsedURLs = parsedURLs inl\<rparr>))"

definition free_URL_list :: "URL_list \<Rightarrow> URL_list" where
  "free_URL_list l = no_urls"

section \<open>Events\<close>

definition SID_SIZE :: nat where "SID_SIZE = 41"
definition STALE_JOBID :: int where [codes]: "STALE_JOBID = INVALID_JOB_ID - 1"

record event_text =
  ref_count :: int
  ev_headers :: string
  ev_propertySet :: string
  ev_servId :: string
  ev_UDN :: string

record notify_thread_struct =
  nt_sid :: string
  nt_ctime :: int
  reference_count :: addr
  nt_handle :: int

record event_heap =
  structs :: "addr \<Rightarrow> notify_thread_struct option"
  texts :: "addr \<Rightarrow> event_text option"
  ev_brk :: addr

definition new_text :: "event_heap \<Rightarrow> event_text \<Rightarrow> addr \<times> event_heap" where
  "new_text eh t = (ev_brk eh, eh\<lparr>texts := (texts eh)(ev_brk eh \<mapsto> t), ev_brk := ev_brk eh + 1\<rparr>)"

definition new_struct :: "event_heap \<Rightarrow> notify_thread_struct \<Rightarrow> addr \<times> event_heap" where
  "new_struct eh n = (ev_brk eh, eh\<lparr>structs := (structs eh)(ev_brk eh \<mapsto> n), ev_brk := ev_brk eh + 1\<rparr>)"

definition free_notify_struct :: "event_heap \<Rightarrow> addr \<Rightarrow> event_heap option" where
  "free_notify_struct eh input = do {
     n \<leftarrow> structs eh input;
     t \<leftarrow> texts eh (reference_count n);
     let c = ref_count t - 1;
     let eh1 = eh\<lparr>texts := (texts eh)(reference_count n := (if c = 0 then None else Some (t\<lparr>ref_count := c\<rparr>)))\<rparr>;
     Some (eh1\<lparr>structs := (structs eh1)(input := None)\<rparr>)
   }"

section \<open>Subscriptions\<close>

record subscription =
  sid :: string
  ToSendEventKey :: int
  expireTime :: int
  sub_active :: bool
  DeliveryURLs :: URL_list
  outgoing :: "ThreadPoolJob list"

text \<open>The job at the head has its mirror in the thread pool, which releases the structure it points to.\<close>

fun free_queued_loop :: "event_heap \<Rightarrow> bool \<Rightarrow> ThreadPoolJob list \<Rightarrow> event_heap option" where
  "free_queued_loop eh first [] = Some eh"
| "free_queued_loop eh first (job # jobs) =
     do {
       eh1 \<leftarrow> (if first then Some eh else free_notify_struct eh (arg job));
       free_queued_loop eh1 False jobs
     }"

definition freeSubscriptionQueuedEvents :: "event_heap \<Rightarrow> subscription \<Rightarrow> event_heap option" where
  "freeSubscriptionQueuedEvents eh sub =
     (if outgoing sub \<noteq> [] then free_queued_loop eh True (outgoing sub) else Some eh)"

definition freeSubscription :: "event_heap \<Rightarrow> subscription \<Rightarrow> event_heap option" where
  "freeSubscription eh sub = freeSubscriptionQueuedEvents eh (sub\<lparr>DeliveryURLs := free_URL_list (DeliveryURLs sub)\<rparr>)"

fun freeSubscriptionList :: "event_heap \<Rightarrow> subscription list \<Rightarrow> event_heap option" where
  "freeSubscriptionList eh [] = Some eh"
| "freeSubscriptionList eh (head # rest) =
     do { eh1 \<leftarrow> freeSubscription eh head; freeSubscriptionList eh1 rest }"

definition copy_subscription :: "bool \<Rightarrow> subscription \<Rightarrow> (int \<times> subscription) option" where
  "copy_subscription malloc_ok inp =
     (case copy_URL_list malloc_ok (DeliveryURLs inp) of None \<Rightarrow> None
      | Some (return_code, urls) \<Rightarrow>
          Some (if return_code \<noteq> HTTP_SUCCESS then return_code else HTTP_SUCCESS,
                \<lparr>sid = take SID_SIZE (sid inp), ToSendEventKey = ToSendEventKey inp, expireTime = expireTime inp,
                 sub_active = sub_active inp, DeliveryURLs = urls, outgoing = []\<rparr>))"

end
