(* ===== verification/Ixml_Chars.thy ===== *)
theory Ixml_Chars
  imports Upnp_Prelude
begin

unbundle bit_operations_syntax

text \<open>
  The character level of the XML library (\<^verbatim>\<open>ixml/src/ixmlparser.c\<close>, \<^verbatim>\<open>ixml/src/ixml.c\<close>): the tables of
  name characters and their binary search, the coding of characters as UTF-8 and back, the reading of
  one character or character reference, the copying of a token, and the escaping of the printer.

  A pointer into a NUL-terminated buffer is the list of the bytes from it up to the terminator, which
  is not in the list. \<open>g_error_char\<close>, the replacement that \<^verbatim>\<open>ixmlRelaxParser\<close> installs, is the
  argument \<open>err\<close> (\<open>NUL\<close> when there is none).
\<close>

section \<open>Bytes of a buffer\<close>

text \<open>The byte \<open>s[i]\<close> as an \<open>unsigned char\<close>; the code reads the terminator but not past it.\<close>

definition at_byte :: "string \<Rightarrow> nat \<Rightarrow> int" where
  "at_byte s i = (if i < length s then int (byte_of (s ! i)) else 0)"

definition cur_char :: "string \<Rightarrow> char" where
  "cur_char s = (case s of [] \<Rightarrow> NUL | c # _ \<Rightarrow> c)"

definition QUOT :: string where "QUOT = ''&quot;''"
definition LT_ENT :: string where "LT_ENT = ''&lt;''"
definition GT_ENT :: string where "GT_ENT = ''&gt;''"
definition APOS :: string where "APOS = ''&apos;''"
definition AMP :: string where "AMP = ''&amp;''"
definition ESC_HEX :: string where "ESC_HEX = ''&#x''"
definition ESC_DEC :: string where "ESC_DEC = ''&#''"
definition DEC_NUMBERS :: string where "DEC_NUMBERS = ''0123456789''"
definition HEX_NUMBERS :: string where "HEX_NUMBERS = ''0123456789ABCDEFabcdef''"

section \<open>The tables of name characters\<close>

type_synonym char_info = "int \<times> int"

definition Letter :: "char_info list" where
  "Letter =
     [(0x003A, 0x003A), (0x0041, 0x005A), (0x005F, 0x005F), (0x0061, 0x007A), (0x00C0, 0x00D6),
      (0x00D8, 0x00F6), (0x00F8, 0x00FF), (0x0100, 0x0131), (0x0134, 0x013E), (0x0141, 0x0148),
      (0x014A, 0x017E), (0x0180, 0x01C3), (0x01CD, 0x01F0), (0x01F4, 0x01F5), (0x01FA, 0x0217),
      (0x0250, 0x02A8), (0x02BB, 0x02C1), (0x0386, 0x0386), (0x0388, 0x038A), (0x038C, 0x038C),
      (0x038E, 0x03A1), (0x03A3, 0x03CE), (0x03D0, 0x03D6), (0x03DA, 0x03DA), (0x03DC, 0x03DC),
      (0x03DE, 0x03DE), (0x03E0, 0x03E0), (0x03E2, 0x03F3), (0x0401, 0x040C), (0x040E, 0x044F),
      (0x0451, 0x045C), (0x045E, 0x0481), (0x0490, 0x04C4), (0x04C7, 0x04C8), (0x04CB, 0x04CC),
      (0x04D0, 0x04EB), (0x04EE, 0x04F5), (0x04F8, 0x04F9), (0x0531, 0x0556), (0x0559, 0x0559),
      (0x0561, 0x0586), (0x05D0, 0x05EA), (0x05F0, 0x05F2), (0x0621, 0x063A), (0x0641, 0x064A),
      (0x0671, 0x06B7), (0x06BA, 0x06BE), (0x06C0, 0x06CE), (0x06D0, 0x06D3), (0x06D5, 0x06D5),
      (0x06E5, 0x06E6), (0x0905, 0x0939), (0x093D, 0x093D), (0x0958, 0x0961), (0x0985, 0x098C),
      (0x098F, 0x0990), (0x0993, 0x09A8), (0x09AA, 0x09B0), (0x09B2, 0x09B2), (0x09B6, 0x09B9),
      (0x09DC, 0x09DD), (0x09DF, 0x09E1), (0x09F0, 0x09F1), (0x0A05, 0x0A0A), (0x0A0F, 0x0A10),
      (0x0A13, 0x0A28), (0x0A2A, 0x0A30), (0x0A32, 0x0A33), (0x0A35, 0x0A36), (0x0A38, 0x0A39),
      (0x0A59, 0x0A5C), (0x0A5E, 0x0A5E), (0x0A72, 0x0A74), (0x0A85, 0x0A8B), (0x0A8D, 0x0A8D),
      (0x0A8F, 0x0A91), (0x0A93, 0x0AA8), (0x0AAA, 0x0AB0), (0x0AB2, 0x0AB3), (0x0AB5, 0x0AB9),
      (0x0ABD, 0x0ABD), (0x0AE0, 0x0AE0), (0x0B05, 0x0B0C), (0x0B0F, 0x0B10), (0x0B13, 0x0B28),
      (0x0B2A, 0x0B30), (0x0B32, 0x0B33), (0x0B36, 0x0B39), (0x0B3D, 0x0B3D), (0x0B5C, 0x0B5D),
      (0x0B5F, 0x0B61), (0x0B85, 0x0B8A), (0x0B8E, 0x0B90), (0x0B92, 0x0B95), (0x0B99, 0x0B9A),
      (0x0B9C, 0x0B9C), (0x0B9E, 0x0B9F), (0x0BA3, 0x0BA4), (0x0BA8, 0x0BAA), (0x0BAE, 0x0BB5),
      (0x0BB7, 0x0BB9), (0x0C05, 0x0C0C), (0x0C0E, 0x0C10), (0x0C12, 0x0C28), (0x0C2A, 0x0C33),
      (0x0C35, 0x0C39), (0x0C60, 0x0C61), (0x0C85, 0x0C8C), (0x0C8E, 0x0C90), (0x0C92, 0x0CA8),
      (0x0CAA, 0x0CB3), (0x0CB5, 0x0CB9), (0x0CDE, 0x0CDE), (0x0CE0, 0x0CE1), (0x0D05, 0x0D0C),
      (0x0D0E, 0x0D10), (0x0D12, 0x0D28), (0x0D2A, 0x0D39), (0x0D60, 0x0D61), (0x0E01, 0x0E2E),
      (0x0E30, 0x0E30), (0x0E32, 0x0E33), (0x0E40, 0x0E45), (0x0E81, 0x0E82), (0x0E84, 0x0E84),
      (0x0E87, 0x0E88), (0x0E8A, 0x0E8A), (0x0E8D, 0x0E8D), (0x0E94, 0x0E97), (0x0E99, 0x0E9F),
      (0x0EA1, 0x0EA3), (0x0EA5, 0x0EA5), (0x0EA7, 0x0EA7), (0x0EAA, 0x0EAB), (0x0EAD, 0x0EAE),
      (0x0EB0, 0x0EB0), (0x0EB2, 0x0EB3), (0x0EBD, 0x0EBD), (0x0EC0, 0x0EC4), (0x0F40, 0x0F47),
      (0x0F49, 0x0F69), (0x10A0, 0x10C5), (0x10D0, 0x10F6), (0x1100, 0x1100), (0x1102, 0x1103),
      (0x1105, 0x1107), (0x1109, 0x1109), (0x110B, 0x110C), (0x110E, 0x1112), (0x113C, 0x113C),
      (0x113E, 0x113E), (0x1140, 0x1140), (0x114C, 0x114C), (0x114E, 0x114E), (0x1150, 0x1150),
      (0x1154, 0x1155), (0x1159, 0x1159), (0x115F, 0x1161), (0x1163, 0x1163), (0x1165, 0x1165),
      (0x1167, 0x1167), (0x1169, 0x1169), (0x116D, 0x116E), (0x1172, 0x1173), (0x1175, 0x1175),
      (0x119E, 0x119E), (0x11A8, 0x11A8), (0x11AB, 0x11AB), (0x11AE, 0x11AF), (0x11B7, 0x11B8),
      (0x11BA, 0x11BA), (0x11BC, 0x11C2), (0x11EB, 0x11EB), (0x11F0, 0x11F0), (0x11F9, 0x11F9),
      (0x1E00, 0x1E9B), (0x1EA0, 0x1EF9), (0x1F00, 0x1F15), (0x1F18, 0x1F1D), (0x1F20, 0x1F45),
      (0x1F48, 0x1F4D), (0x1F50, 0x1F57), (0x1F59, 0x1F59), (0x1F5B, 0x1F5B), (0x1F5D, 0x1F5D),
      (0x1F5F, 0x1F7D), (0x1F80, 0x1FB4), (0x1FB6, 0x1FBC), (0x1FBE, 0x1FBE), (0x1FC2, 0x1FC4),
      (0x1FC6, 0x1FCC), (0x1FD0, 0x1FD3), (0x1FD6, 0x1FDB), (0x1FE0, 0x1FEC), (0x1FF2, 0x1FF4),
      (0x1FF6, 0x1FFC), (0x2126, 0x2126), (0x212A, 0x212B), (0x212E, 0x212E), (0x2180, 0x2182),
      (0x3007, 0x3007), (0x3021, 0x3029), (0x3041, 0x3094), (0x30A1, 0x30FA), (0x3105, 0x312C),
      (0x4E00, 0x9FA5), (0xAC00, 0xD7A3)]"

definition NameChar :: "char_info list" where
  "NameChar =
     [(0x002D, 0x002D), (0x002E, 0x002E), (0x0030, 0x0039), (0x00B7, 0x00B7), (0x02D0, 0x02D0),
      (0x02D1, 0x02D1), (0x0300, 0x0345), (0x0360, 0x0361), (0x0387, 0x0387), (0x0483, 0x0486),
      (0x0591, 0x05A1), (0x05A3, 0x05B9), (0x05BB, 0x05BD), (0x05BF, 0x05BF), (0x05C1, 0x05C2),
      (0x05C4, 0x05C4), (0x0640, 0x0640), (0x064B, 0x0652), (0x0660, 0x0669), (0x0670, 0x0670),
      (0x06D6, 0x06DC), (0x06DD, 0x06DF), (0x06E0, 0x06E4), (0x06E7, 0x06E8), (0x06EA, 0x06ED),
      (0x06F0, 0x06F9), (0x0901, 0x0903), (0x093C, 0x093C), (0x093E, 0x094C), (0x094D, 0x094D),
      (0x0951, 0x0954), (0x0962, 0x0963), (0x0966, 0x096F), (0x0981, 0x0983), (0x09BC, 0x09BC),
      (0x09BE, 0x09BE), (0x09BF, 0x09BF), (0x09C0, 0x09C4), (0x09C7, 0x09C8), (0x09CB, 0x09CD),
      (0x09D7, 0x09D7), (0x09E2, 0x09E3), (0x09E6, 0x09EF), (0x0A02, 0x0A02), (0x0A3C, 0x0A3C),
      (0x0A3E, 0x0A3E), (0x0A3F, 0x0A3F), (0x0A40, 0x0A42), (0x0A47, 0x0A48), (0x0A4B, 0x0A4D),
      (0x0A66, 0x0A6F), (0x0A70, 0x0A71), (0x0A81, 0x0A83), (0x0ABC, 0x0ABC), (0x0ABE, 0x0AC5),
      (0x0AC7, 0x0AC9), (0x0ACB, 0x0ACD), (0x0AE6, 0x0AEF), (0x0B01, 0x0B03), (0x0B3C, 0x0B3C),
      (0x0B3E, 0x0B43), (0x0B47, 0x0B48), (0x0B4B, 0x0B4D), (0x0B56, 0x0B57), (0x0B66, 0x0B6F),
      (0x0B82, 0x0B83), (0x0BBE, 0x0BC2), (0x0BC6, 0x0BC8), (0x0BCA, 0x0BCD), (0x0BD7, 0x0BD7),
      (0x0BE7, 0x0BEF), (0x0C01, 0x0C03), (0x0C3E, 0x0C44), (0x0C46, 0x0C48), (0x0C4A, 0x0C4D),
      (0x0C55, 0x0C56), (0x0C66, 0x0C6F), (0x0C82, 0x0C83), (0x0CBE, 0x0CC4), (0x0CC6, 0x0CC8),
      (0x0CCA, 0x0CCD), (0x0CD5, 0x0CD6), (0x0CE6, 0x0CEF), (0x0D02, 0x0D03), (0x0D3E, 0x0D43),
      (0x0D46, 0x0D48), (0x0D4A, 0x0D4D), (0x0D57, 0x0D57), (0x0D66, 0x0D6F), (0x0E31, 0x0E31),
      (0x0E34, 0x0E3A), (0x0E46, 0x0E46), (0x0E47, 0x0E4E), (0x0E50, 0x0E59), (0x0EB1, 0x0EB1),
      (0x0EB4, 0x0EB9), (0x0EBB, 0x0EBC), (0x0EC6, 0x0EC6), (0x0EC8, 0x0ECD), (0x0ED0, 0x0ED9),
      (0x0F18, 0x0F19), (0x0F20, 0x0F29), (0x0F35, 0x0F35), (0x0F37, 0x0F37), (0x0F39, 0x0F39),
      (0x0F3E, 0x0F3E), (0x0F3F, 0x0F3F), (0x0F71, 0x0F84), (0x0F86, 0x0F8B), (0x0F90, 0x0F95),
      (0x0F97, 0x0F97), (0x0F99, 0x0FAD), (0x0FB1, 0x0FB7), (0x0FB9, 0x0FB9), (0x20D0, 0x20DC),
      (0x20E1, 0x20E1), (0x3005, 0x3005), (0x302A, 0x302F), (0x3031, 0x3035), (0x3099, 0x3099),
      (0x309A, 0x309A), (0x309D, 0x309E), (0x30FC, 0x30FE)]"

function isCharInTable_loop :: "int \<Rightarrow> char_info list \<Rightarrow> int \<Rightarrow> int \<Rightarrow> bool" where
  "isCharInTable_loop c tbl t b =
     (if t \<le> b then
        let m = (t + b) div 2 in
        if c < fst (tbl ! nat m) then isCharInTable_loop c tbl t (m - 1)
        else if snd (tbl ! nat m) < c then isCharInTable_loop c tbl (m + 1) b
        else True
      else False)"
  by pat_completeness auto
termination
  by (relation "measure (\<lambda>(c, tbl, t, b). nat (b + 1 - t))") auto

declare isCharInTable_loop.simps [simp del]

definition Parser_isCharInTable :: "int \<Rightarrow> char_info list \<Rightarrow> int \<Rightarrow> bool" where
  "Parser_isCharInTable c tbl sz = isCharInTable_loop c tbl 0 (sz - 1)"

definition Parser_isNameChar :: "int \<Rightarrow> bool \<Rightarrow> bool" where
  "Parser_isNameChar c bNameChar =
     (if Parser_isCharInTable c Letter (int (length Letter)) then True
      else if bNameChar \<and> Parser_isCharInTable c NameChar (int (length NameChar)) then True
      else False)"

definition Parser_isXmlChar :: "int \<Rightarrow> bool" where
  "Parser_isXmlChar c \<longleftrightarrow>
     c = 0x9 \<or> c = 0xA \<or> c = 0xD \<or> (0x20 \<le> c \<and> c \<le> 0xD7FF) \<or>
     (0xE000 \<le> c \<and> c \<le> 0xFFFD) \<or> (0x10000 \<le> c \<and> c \<le> 0x10FFFF)"

fun isValidXmlName_rest :: "string \<Rightarrow> bool" where
  "isValidXmlName_rest [] = True"
| "isValidXmlName_rest (c # cs) =
     (if \<not> Parser_isNameChar (schar c) True then False else isValidXmlName_rest cs)"

definition Parser_isValidXmlName :: "string \<Rightarrow> bool" where
  "Parser_isValidXmlName name =
     (if Parser_isNameChar (schar (cur_char name)) False then isValidXmlName_rest (tl name) else True)"

section \<open>UTF-8\<close>

text \<open>The value and the number of bytes used.\<close>

definition Parser_UTF8ToInt :: "char \<Rightarrow> string \<Rightarrow> int \<times> nat" where
  "Parser_UTF8ToInt err s =
     (let c = at_byte s 0 in
      if c \<le> 127 then (c, 1)
      else if c AND 0xE0 = 0xC0 \<and> at_byte s 1 AND 0xC0 = 0x80
      then (push_bit 6 (c AND 0x1F) OR (at_byte s 1 AND 0x3F), 2)
      else if c AND 0xF0 = 0xE0 \<and> at_byte s 1 AND 0xC0 = 0x80 \<and> at_byte s 2 AND 0xC0 = 0x80
      then (push_bit 12 (c AND 0x0F) OR push_bit 6 (at_byte s 1 AND 0x3F) OR (at_byte s 2 AND 0x3F), 3)
      else if c AND 0xF8 = 0xF0 \<and> at_byte s 1 AND 0xC0 = 0x80 \<and> at_byte s 2 AND 0xC0 = 0x80 \<and>
        at_byte s 3 AND 0xC0 = 0x80
      then (push_bit 18 (c AND 0x07) OR push_bit 12 (at_byte s 1 AND 0x3F) OR
            push_bit 6 (at_byte s 2 AND 0x3F) OR (at_byte s 3 AND 0x3F), 4)
      else if c AND 0xFC = 0xF8 \<and> at_byte s 1 AND 0xC0 = 0x80 \<and> at_byte s 2 AND 0xC0 = 0x80 \<and>
        at_byte s 3 AND 0xC0 = 0x80 \<and> at_byte s 4 AND 0xC0 = 0x80
      then (push_bit 24 (c AND 0x03) OR push_bit 18 (at_byte s 1 AND 0x3F) OR
            push_bit 12 (at_byte s 2 AND 0x3F) OR push_bit 6 (at_byte s 3 AND 0x3F) OR
            (at_byte s 4 AND 0x3F), 5)
      else if c AND 0xFE = 0xFC \<and> at_byte s 1 AND 0xC0 = 0x80 \<and> at_byte s 2 AND 0xC0 = 0x80 \<and>
        at_byte s 3 AND 0xC0 = 0x80 \<and> at_byte s 4 AND 0xC0 = 0x80 \<and> at_byte s 5 AND 0xC0 = 0x80
      then (push_bit 30 (c AND 0x01) OR push_bit 24 (at_byte s 1 AND 0x3F) OR
            push_bit 18 (at_byte s 2 AND 0x3F) OR push_bit 12 (at_byte s 3 AND 0x3F) OR
            push_bit 6 (at_byte s 4 AND 0x3F) OR (at_byte s 5 AND 0x3F), 6)
      else if err \<noteq> NUL then (schar err, 1)
      else (-1, 0))"

definition to_char :: "int \<Rightarrow> char" where
  "to_char c = char_of (c mod 256)"

text \<open>The bytes written in front of the NUL; the code returns their number, 0 for no encoding.\<close>

definition Parser_intToUTF8 :: "int \<Rightarrow> string" where
  "Parser_intToUTF8 c =
     (if c < 0 then []
      else if c \<le> 127 then [to_char c]
      else if c \<le> 0x07FF then
        [to_char (0xC0 OR drop_bit 6 c), to_char (0x80 OR (c AND 0x3F))]
      else if c \<le> 0xFFFF then
        [to_char (0xE0 OR drop_bit 12 c), to_char (0x80 OR (drop_bit 6 c AND 0x3F)),
         to_char (0x80 OR (c AND 0x3F))]
      else if c \<le> 0x1FFFFF then
        [to_char (0xF0 OR drop_bit 18 c), to_char (0x80 OR (drop_bit 12 c AND 0x3F)),
         to_char (0x80 OR (drop_bit 6 c AND 0x3F)), to_char (0x80 OR (c AND 0x3F))]
      else if c \<le> 0x3FFFFFF then
        [to_char (0xF8 OR drop_bit 24 c), to_char (0x80 OR (drop_bit 18 c AND 0x3F)),
         to_char (0x80 OR (drop_bit 12 c AND 0x3F)), to_char (0x80 OR (drop_bit 6 c AND 0x3F)),
         to_char (0x80 OR (c AND 0x3F))]
      else if c \<le> 0x7FFFFFFF then
        [to_char (0xFC OR drop_bit 30 c), to_char (0x80 OR (drop_bit 24 c AND 0x3F)),
         to_char (0x80 OR (drop_bit 18 c AND 0x3F)), to_char (0x80 OR (drop_bit 12 c AND 0x3F)),
         to_char (0x80 OR (drop_bit 6 c AND 0x3F)), to_char (0x80 OR (c AND 0x3F))]
      else [])"

section \<open>Characters and references\<close>

text \<open>
  The loops over the digits of a reference. \<open>strchr\<close> finds the terminating NUL of its first argument
  too, so they do not stop at the end of the buffer: there the model gives \<^term>\<open>None\<close>. The \<open>int\<close>
  sum wraps as it does on the supported compilers.
\<close>

fun hex_digits :: "int \<Rightarrow> string \<Rightarrow> (int \<times> string) option" where
  "hex_digits acc [] = None"
| "hex_digits acc (c # cs) =
     (if c \<in> set HEX_NUMBERS then
        hex_digits
          (to_int32 (if schar c \<le> schar CHR ''9'' then acc * 16 + (schar c - schar CHR ''0'')
                     else if schar c \<le> schar CHR ''F'' then acc * 16 + (schar c - schar CHR ''A'' + 10)
                     else acc * 16 + (schar c - schar CHR ''a'' + 10))) cs
      else Some (acc, c # cs))"

fun dec_digits :: "int \<Rightarrow> string \<Rightarrow> (int \<times> string) option" where
  "dec_digits acc [] = None"
| "dec_digits acc (c # cs) =
     (if c \<in> set DEC_NUMBERS then dec_digits (to_int32 (acc * 10 + (schar c - schar CHR ''0''))) cs
      else Some (acc, c # cs))"

definition fail_entity :: "char \<Rightarrow> int \<times> nat" where
  "fail_entity err = (if err \<noteq> NUL then (schar CHR ''&'', 1) else (-1, 0))"

definition numeric_reference :: "char \<Rightarrow> string \<Rightarrow> (int \<times> string) option \<Rightarrow> (int \<times> nat) option" where
  "numeric_reference err src digits =
     (case digits of None \<Rightarrow> None
      | Some (acc, pnum) \<Rightarrow>
          Some (if length pnum = length src \<or> cur_char pnum \<noteq> CHR '';'' \<or> \<not> Parser_isXmlChar acc
                then fail_entity err
                else (acc, length src - length pnum + 1)))"

definition Parser_getChar :: "char \<Rightarrow> string \<Rightarrow> (int \<times> nat) option" where
  "Parser_getChar err src =
     (if cur_char src \<noteq> CHR ''&'' then
        if 0 < schar (cur_char src) \<and> Parser_isXmlChar (schar (cur_char src))
        then Some (schar (cur_char src), 1)
        else let (i, cLen) = Parser_UTF8ToInt err src
             in if \<not> Parser_isXmlChar i then Some (if err \<noteq> NUL then schar err else -1, cLen)
                else Some (i, cLen)
      else if strncasecmp src QUOT (length QUOT) = 0 then Some (schar CHR 0x22, length QUOT)
      else if strncasecmp src LT_ENT (length LT_ENT) = 0 then Some (schar CHR ''<'', length LT_ENT)
      else if strncasecmp src GT_ENT (length GT_ENT) = 0 then Some (schar CHR ''>'', length GT_ENT)
      else if strncasecmp src APOS (length APOS) = 0 then Some (schar CHR 0x27, length APOS)
      else if strncasecmp src AMP (length AMP) = 0 then Some (schar CHR ''&'', length AMP)
      else if strncasecmp src ESC_HEX (length ESC_HEX) = 0
      then numeric_reference err src (hex_digits 0 (drop (length ESC_HEX) src))
      else if strncasecmp src ESC_DEC (length ESC_DEC) = 0
      then numeric_reference err src (dec_digits 0 (drop (length ESC_DEC) src))
      else Some (fail_entity err))"

section \<open>Lemmas on the character functions\<close>

lemma schar_pos: "0 < schar c \<longleftrightarrow> 0 < byte_of c \<and> byte_of c < 128"
  using byte_of_less [of c] by (auto simp: schar_def Let_def simp del: byte_of_less)

lemma hex_digits_length: "hex_digits n s = Some (v, t) \<Longrightarrow> length t \<le> length s"
  by (induction s arbitrary: n) (fastforce split: if_splits)+

lemma dec_digits_length: "dec_digits n s = Some (v, t) \<Longrightarrow> length t \<le> length s"
  by (induction s arbitrary: n) (fastforce split: if_splits)+

lemmas entity_defs = QUOT_def LT_ENT_def GT_ENT_def APOS_def AMP_def ESC_HEX_def ESC_DEC_def

lemma isXmlChar_nonneg: "Parser_isXmlChar c \<Longrightarrow> 0 < c"
  by (auto simp: Parser_isXmlChar_def)

text \<open>Whatever is read as a character has a length, so the loops over characters make progress.\<close>

lemma UTF8ToInt_progress: "Parser_UTF8ToInt err s = (c, n) \<Longrightarrow> 0 \<le> c \<or> err \<noteq> NUL \<Longrightarrow> 0 < n"
  by (auto simp: Parser_UTF8ToInt_def Let_def split: if_splits)

lemma getChar_progress:
  assumes "Parser_getChar err s = Some (c, n)" "0 < c"
  shows "0 < n"
proof (cases "cur_char s = CHR ''&''")
  case False
  obtain i k where i: "Parser_UTF8ToInt err s = (i, k)" by fastforce
  have "0 \<le> i \<or> err \<noteq> NUL \<Longrightarrow> 0 < k" using UTF8ToInt_progress [OF i] .
  then show ?thesis
    using assms False i
    by (auto simp: Parser_getChar_def isXmlChar_nonneg split: if_splits)
next
  case True
  then show ?thesis
    using assms
    by (auto simp: Parser_getChar_def numeric_reference_def fail_entity_def entity_defs split: if_splits option.splits)
qed

function copyToken_loop :: "char \<Rightarrow> string \<Rightarrow> int \<Rightarrow> string \<Rightarrow> (bool \<times> string) option" where
  "copyToken_loop err psrc left tok =
     (if 0 < left then
        case Parser_getChar err psrc of None \<Rightarrow> None
        | Some (c, cl) \<Rightarrow>
            if c \<le> 0 then Some (False, tok)
            else if cl = 1 then copyToken_loop err (drop 1 psrc) (left - 1) (tok @ [to_char c])
            else if Parser_intToUTF8 c = [] then Some (False, tok)
            else copyToken_loop err (drop cl psrc) (left - int cl) (tok @ Parser_intToUTF8 c)
      else if left < 0 then Some (False, tok)
      else Some (True, tok))"
  by pat_completeness auto
termination
  by (relation "measure (\<lambda>(err, psrc, left, tok). nat left)") (auto dest!: getChar_progress)

declare copyToken_loop.simps [simp del]

text \<open>
  The result tells whether \<open>IXML_SUCCESS\<close> is returned, and has the token buffer; appending to it is
  taken to succeed (\<^verbatim>\<open>ixml_membuf_append\<close> fails only without memory, and its result is not used).
\<close>

definition Parser_copyToken :: "char \<Rightarrow> string \<Rightarrow> int \<Rightarrow> string \<Rightarrow> (bool \<times> string) option" where
  "Parser_copyToken err src len tok =
     (if len \<le> 0 then Some (False, tok) else copyToken_loop err src len tok)"

fun copy_with_escape :: "string \<Rightarrow> string \<Rightarrow> string" where
  "copy_with_escape buf [] = buf"
| "copy_with_escape buf (c # p) =
     copy_with_escape
       (buf @ (if c = CHR ''<'' then ''&lt;''
               else if c = CHR ''>'' then ''&gt;''
               else if c = CHR ''&'' then ''&amp;''
               else if c = CHR 0x27 then ''&apos;''
               else if c = CHR 0x22 then ''&quot;''
               else [c])) p"

section \<open>UTF-8 round trip\<close>

lemma byte_of_to_char [simp]: "int (byte_of (to_char x)) = x mod 256"
proof -
  have "int (of_char (char_of x :: char)) = (of_char (char_of x :: char) :: int)"
    by (rule of_nat_of_char)
  then show ?thesis by (simp add: byte_of_def to_char_def)
qed

lemma or_push_bit:
  fixes a b :: int
  assumes "0 \<le> b" "b < 2 ^ n"
  shows "push_bit n a OR b = a * 2 ^ n + b"
proof -
  have b: "take_bit n b = b" using assms by (simp add: take_bit_int_eq_self_iff)
  have "push_bit n a AND b = 0"
    by (subst b [symmetric], rule bit_eqI) (auto simp: bit_simps)
  then have "push_bit n a OR b = push_bit n a + b"
    by (simp add: disjunctive_add_eq_or)
  then show ?thesis by (simp add: push_bit_eq_mult)
qed

text \<open>The bytes of a sequence, by evaluation over the 64 values of a continuation byte and the
  values a leading byte of each length can have.\<close>

lemma and_63: "x AND 63 = x mod 64" for x :: int
proof -
  have "(63 :: int) = mask 6" by (simp add: mask_eq_exp_minus_1)
  then have "x AND 63 = take_bit 6 x" by (simp only: take_bit_eq_mask)
  then show ?thesis by (simp add: take_bit_eq_mod)
qed

lemma cont_byte_all:
  "\<forall>y\<in>set [0..63::int]. 128 OR y = 128 + y \<and> (128 + y) AND 192 = 128 \<and> (128 + y) mod 64 = y"
  by code_simp

lemma cont_byte [simp]:
  "128 OR (x mod 64) = 128 + x mod 64" "(128 + x mod 64) AND 192 = 128" for x :: int
  using cont_byte_all [rule_format, of "x mod 64"] by auto

lemma lead_bytes:
  "\<forall>y\<in>set [0..31::int]. 192 OR y = 192 + y \<and> (192 + y) AND 224 = 192 \<and> (192 + y) AND 31 = y"
  "\<forall>y\<in>set [0..15::int]. 224 OR y = 224 + y \<and> (224 + y) AND 224 \<noteq> 192 \<and> (224 + y) AND 240 = 224 \<and>
     (224 + y) AND 15 = y"
  "\<forall>y\<in>set [0..7::int]. 240 OR y = 240 + y \<and> (240 + y) AND 224 \<noteq> 192 \<and> (240 + y) AND 240 \<noteq> 224 \<and>
     (240 + y) AND 248 = 240 \<and> (240 + y) AND 7 = y"
  "\<forall>y\<in>set [0..3::int]. 248 OR y = 248 + y \<and> (248 + y) AND 224 \<noteq> 192 \<and> (248 + y) AND 240 \<noteq> 224 \<and>
     (248 + y) AND 248 \<noteq> 240 \<and> (248 + y) AND 252 = 248 \<and> (248 + y) AND 3 = y"
  "\<forall>y\<in>set [0..1::int]. 252 OR y = 252 + y \<and> (252 + y) AND 224 \<noteq> 192 \<and> (252 + y) AND 240 \<noteq> 224 \<and>
     (252 + y) AND 248 \<noteq> 240 \<and> (252 + y) AND 252 \<noteq> 248 \<and> (252 + y) AND 254 = 252 \<and> (252 + y) AND 1 = y"
  by code_simp+

lemma at_byte_Cons [simp]:
  "at_byte (c # s) 0 = int (byte_of c)" "at_byte (c # s) (Suc i) = at_byte s i"
  "at_byte (c # s) (numeral n) = at_byte s (pred_numeral n)"
  by (simp_all add: at_byte_def numeral_eq_Suc)

lemma cont_bounds [simp]: "(128 + x mod 64) mod 256 = 128 + x mod 64" "(128 + x mod 64) mod 64 = x mod 64"
  for x :: int
  using cont_byte_all [rule_format, of "x mod 64"] by (auto intro: mod_pos_pos_trivial)

lemma or_push_bits:
  "0 \<le> b \<Longrightarrow> b < 64 \<Longrightarrow> push_bit 6 a OR b = a * 64 + b"
  "0 \<le> b \<Longrightarrow> b < 4096 \<Longrightarrow> push_bit 12 a OR b = a * 4096 + b"
  "0 \<le> b \<Longrightarrow> b < 262144 \<Longrightarrow> push_bit 18 a OR b = a * 262144 + b"
  "0 \<le> b \<Longrightarrow> b < 16777216 \<Longrightarrow> push_bit 24 a OR b = a * 16777216 + b"
  "0 \<le> b \<Longrightarrow> b < 1073741824 \<Longrightarrow> push_bit 30 a OR b = a * 1073741824 + b" for a b :: int
  using or_push_bit [of b 6 a] or_push_bit [of b 12 a] or_push_bit [of b 18 a] or_push_bit [of b 24 a]
    or_push_bit [of b 30 a] by simp_all

abbreviation (input) cb :: "int \<Rightarrow> char" where
  "cb x \<equiv> to_char (128 + x mod 64)"

lemma decode_2:
  assumes "0 \<le> y" "y \<le> 31"
  shows "Parser_UTF8ToInt err (to_char (192 + y) # cb x # rest) = (y * 64 + x mod 64, 2)"
  using assms lead_bytes(1) [rule_format, of y]
  by (simp add: Parser_UTF8ToInt_def Let_def and_63 or_push_bits)

lemma decode_3:
  assumes "0 \<le> y" "y \<le> 15"
  shows "Parser_UTF8ToInt err (to_char (224 + y) # cb x1 # cb x # rest) =
    ((y * 64 + x1 mod 64) * 64 + x mod 64, 3)"
  using assms lead_bytes(2) [rule_format, of y]
  by (simp add: Parser_UTF8ToInt_def Let_def and_63 or_push_bits)

lemma decode_4:
  assumes "0 \<le> y" "y \<le> 7"
  shows "Parser_UTF8ToInt err (to_char (240 + y) # cb x2 # cb x1 # cb x # rest) =
    (((y * 64 + x2 mod 64) * 64 + x1 mod 64) * 64 + x mod 64, 4)"
  using assms lead_bytes(3) [rule_format, of y]
  by (simp add: Parser_UTF8ToInt_def Let_def and_63 or_push_bits)

lemma decode_5:
  assumes "0 \<le> y" "y \<le> 3"
  shows "Parser_UTF8ToInt err (to_char (248 + y) # cb x3 # cb x2 # cb x1 # cb x # rest) =
    ((((y * 64 + x3 mod 64) * 64 + x2 mod 64) * 64 + x1 mod 64) * 64 + x mod 64, 5)"
  using assms lead_bytes(4) [rule_format, of y]
  by (simp add: Parser_UTF8ToInt_def Let_def and_63 or_push_bits)

lemma decode_6:
  assumes "0 \<le> y" "y \<le> 1"
  shows "Parser_UTF8ToInt err (to_char (252 + y) # cb x4 # cb x3 # cb x2 # cb x1 # cb x # rest) =
    (((((y * 64 + x4 mod 64) * 64 + x3 mod 64) * 64 + x2 mod 64) * 64 + x1 mod 64) * 64 + x mod 64, 6)"
  using assms lead_bytes(5) [rule_format, of y]
  by (simp add: Parser_UTF8ToInt_def Let_def and_63 or_push_bits)

lemma join_digit: "c div (k * 64) * 64 + c div k mod 64 = c div k" for c k :: int
proof -
  have "c div (k * 64) = c div k div 64" by (rule zdiv_zmult2_eq) simp
  then show ?thesis by (simp only: div_mult_mod_eq)
qed

lemma join_digits [simp]:
  "c div 64 * 64 + c mod 64 = c"
  "c div 4096 * 64 + c div 64 mod 64 = c div 64"
  "c div 262144 * 64 + c div 4096 mod 64 = c div 4096"
  "c div 16777216 * 64 + c div 262144 mod 64 = c div 262144"
  "c div 1073741824 * 64 + c div 16777216 mod 64 = c div 16777216" for c :: int
  using join_digit [of c 1] join_digit [of c 64] join_digit [of c 4096] join_digit [of c 262144]
    join_digit [of c 16777216]
  by simp_all

lemma UTF8_roundtrip:
  assumes "0 \<le> c" "c \<le> 0x7FFFFFFF"
  shows "Parser_UTF8ToInt err (Parser_intToUTF8 c @ rest) = (c, length (Parser_intToUTF8 c))"
proof -
  consider "c \<le> 127" | "127 < c" "c \<le> 0x7FF" | "0x7FF < c" "c \<le> 0xFFFF" | "0xFFFF < c" "c \<le> 0x1FFFFF"
    | "0x1FFFFF < c" "c \<le> 0x3FFFFFF" | "0x3FFFFFF < c" by linarith
  then show ?thesis
  proof cases
    case 1
    then show ?thesis using assms by (simp add: Parser_UTF8ToInt_def Parser_intToUTF8_def)
  next
    case 2
    then have "0 \<le> c div 64" "c div 64 \<le> 31" by auto
    then show ?thesis using 2 lead_bytes(1) [rule_format, of "c div 64"]
      by (simp add: Parser_intToUTF8_def drop_bit_eq_div and_63 decode_2)
  next
    case 3
    then have "0 \<le> c div 4096" "c div 4096 \<le> 15" by auto
    then show ?thesis using 3 lead_bytes(2) [rule_format, of "c div 4096"]
      by (simp add: Parser_intToUTF8_def drop_bit_eq_div and_63 decode_3)
  next
    case 4
    then have "0 \<le> c div 262144" "c div 262144 \<le> 7" by auto
    then show ?thesis using 4 lead_bytes(3) [rule_format, of "c div 262144"]
      by (simp add: Parser_intToUTF8_def drop_bit_eq_div and_63 decode_4)
  next
    case 5
    then have "0 \<le> c div 16777216" "c div 16777216 \<le> 3" by auto
    then show ?thesis using 5 lead_bytes(4) [rule_format, of "c div 16777216"]
      by (simp add: Parser_intToUTF8_def drop_bit_eq_div and_63 decode_5)
  next
    case 6
    then have "0 \<le> c div 1073741824" "c div 1073741824 \<le> 1" using assms by auto
    then show ?thesis using 6 assms lead_bytes(5) [rule_format, of "c div 1073741824"]
      by (simp add: Parser_intToUTF8_def drop_bit_eq_div and_63 decode_6)
  qed
qed

section \<open>The search in the tables\<close>

definition in_range :: "int \<Rightarrow> char_info \<Rightarrow> bool" where
  "in_range c r \<longleftrightarrow> fst r \<le> c \<and> c \<le> snd r"

definition in_ranges :: "int \<Rightarrow> char_info list \<Rightarrow> bool" where
  "in_ranges c tbl \<longleftrightarrow> list_ex (in_range c) tbl"

text \<open>What the search relies on: the ranges of a table are disjoint and in increasing order.\<close>

locale range_table =
  fixes tbl :: "char_info list"
  assumes ordered: "successively (\<lambda>a b. snd a < fst b) tbl"
    and proper: "list_all (\<lambda>r. fst r \<le> snd r) tbl"
begin

lemma nonempty: "i < length tbl \<Longrightarrow> fst (tbl ! i) \<le> snd (tbl ! i)"
  using proper by (simp add: list_all_length)

lemma below: "i < j \<Longrightarrow> j < length tbl \<Longrightarrow> snd (tbl ! i) < fst (tbl ! j)"
proof (induction j)
  case (Suc j)
  have "snd (tbl ! j) < fst (tbl ! Suc j)" using ordered Suc.prems by (simp add: successively_conv_nth)
  then show ?case using Suc nonempty [of j] by (cases "i = j") auto
qed simp

lemma not_right:
  assumes "c < fst (tbl ! m)" "m \<le> i" "i < length tbl"
  shows "\<not> in_range c (tbl ! i)"
  using below [of m i] nonempty [of m] assms by (cases "m = i") (auto simp: in_range_def)

lemma not_left:
  assumes "snd (tbl ! m) < c" "i \<le> m" "m < length tbl"
  shows "\<not> in_range c (tbl ! i)"
  using below [of i m] nonempty [of m] assms by (cases "m = i") (auto simp: in_range_def)

lemma loop_search:
  "0 \<le> t \<Longrightarrow> b < int (length tbl) \<Longrightarrow>
   isCharInTable_loop c tbl t b \<longleftrightarrow> (\<exists>i. t \<le> int i \<and> int i \<le> b \<and> in_range c (tbl ! i))"
proof (induction "nat (b + 1 - t)" arbitrary: t b rule: less_induct)
  case less
  let ?m = "(t + b) div 2"
  show ?case
  proof (cases "t \<le> b")
    case False
    then show ?thesis by (subst isCharInTable_loop.simps) auto
  next
    case True
    then have m: "t \<le> ?m" "?m \<le> b" "nat ?m < length tbl" "int (nat ?m) = ?m" using less.prems by auto
    consider "c < fst (tbl ! nat ?m)" | "snd (tbl ! nat ?m) < c" "\<not> c < fst (tbl ! nat ?m)"
      | "in_range c (tbl ! nat ?m)" unfolding in_range_def by linarith
    then show ?thesis
    proof cases
      case 1
      have "int i \<le> ?m - 1 \<longleftrightarrow> int i \<le> b" if "in_range c (tbl ! i)" "int i \<le> b" for i
        using not_right [OF 1, of i] m less.prems that by (cases "nat ?m \<le> i") auto
      then have "(\<exists>i. t \<le> int i \<and> int i \<le> ?m - 1 \<and> in_range c (tbl ! i)) \<longleftrightarrow>
            (\<exists>i. t \<le> int i \<and> int i \<le> b \<and> in_range c (tbl ! i))"
        using m by fastforce
      then show ?thesis
        using 1 True m less.prems less.hyps [of "?m - 1" t]
        by (subst isCharInTable_loop.simps) (simp add: Let_def)
    next
      case 2
      have "?m + 1 \<le> int i \<longleftrightarrow> t \<le> int i" if "in_range c (tbl ! i)" "t \<le> int i" for i
        using not_left [OF 2(1), of i] m less.prems that by (cases "i \<le> nat ?m") auto
      then have "(\<exists>i. ?m + 1 \<le> int i \<and> int i \<le> b \<and> in_range c (tbl ! i)) \<longleftrightarrow>
            (\<exists>i. t \<le> int i \<and> int i \<le> b \<and> in_range c (tbl ! i))"
        using m by fastforce
      then show ?thesis
        using 2 True m less.prems less.hyps [of b "?m + 1"]
        by (subst isCharInTable_loop.simps) (simp add: Let_def)
    next
      case 3
      then have "isCharInTable_loop c tbl t b"
        using True by (subst isCharInTable_loop.simps) (auto simp: Let_def in_range_def)
      moreover have "\<exists>i. t \<le> int i \<and> int i \<le> b \<and> in_range c (tbl ! i)"
        using 3 m by (intro exI [of _ "nat ?m"]) simp
      ultimately show ?thesis by simp
    qed
  qed
qed

lemma search: "Parser_isCharInTable c tbl (int (length tbl)) \<longleftrightarrow> in_ranges c tbl"
  by (auto simp: Parser_isCharInTable_def loop_search in_ranges_def list_ex_length)

end

interpretation letters: range_table Letter
  by unfold_locales code_simp+

interpretation name_chars: range_table NameChar
  by unfold_locales code_simp+

text \<open>
  The two binary searches of \<open>Parser_isNameChar\<close> are exact: a character starts a name when one of the
  ranges of the letter table holds it, and continues one when a range of either table does.
\<close>

theorem isNameChar_tables:
  "Parser_isNameChar c more \<longleftrightarrow> in_ranges c Letter \<or> (more \<and> in_ranges c NameChar)"
  by (simp add: Parser_isNameChar_def letters.search name_chars.search)

section \<open>Escaping and reading back\<close>

text \<open>The escape of one character of the text.\<close>

definition escape :: "char \<Rightarrow> string" where
  "escape c = copy_with_escape [] [c]"

lemma copy_with_escape_concat: "copy_with_escape buf p = buf @ concat (map escape p)"
  by (induction p arbitrary: buf) (simp_all add: escape_def)

lemma getChar_entity:
  "Parser_getChar err (''&lt;'' @ rest) = Some (60, 4)"
  "Parser_getChar err (''&gt;'' @ rest) = Some (62, 4)"
  "Parser_getChar err (''&amp;'' @ rest) = Some (38, 5)"
  "Parser_getChar err (''&apos;'' @ rest) = Some (39, 6)"
  "Parser_getChar err (''&quot;'' @ rest) = Some (34, 6)"
  by (simp_all add: Parser_getChar_def cur_char_def entity_defs strncasecmp_def schar_def byte_of_def
      tolower_def isupper_def)

definition special :: "int \<Rightarrow> bool" where
  "special c \<longleftrightarrow> c = 60 \<or> c = 62 \<or> c = 38 \<or> c = 39 \<or> c = 34"

text \<open>The bytes the printer writes for a character.\<close>

definition printed :: "int \<Rightarrow> string" where
  "printed c = copy_with_escape [] (Parser_intToUTF8 c)"

lemma schar_to_char: "0 \<le> c \<Longrightarrow> c \<le> 127 \<Longrightarrow> schar (to_char c) = c"
  by (simp add: schar_def Let_def)

lemma to_char_eq:
  assumes "0 \<le> c" "c \<le> 127"
  shows "to_char c = d \<longleftrightarrow> c = int (byte_of d)"
proof -
  have "int (byte_of (to_char c)) = c" using assms by simp
  then show ?thesis by (metis byte_of_inject of_nat_eq_iff)
qed

lemma getChar_ascii:
  assumes "Parser_isXmlChar c" "c \<le> 127" "c \<noteq> 38"
  shows "Parser_getChar err (to_char c # rest) = Some (c, 1)"
proof -
  have "0 < c" using assms(1) by (rule isXmlChar_nonneg)
  then have "schar (to_char c) = c" using assms by (simp add: schar_to_char)
  moreover have "schar CHR ''&'' = 38" by (simp add: schar_def byte_of_def)
  ultimately have "to_char c \<noteq> CHR ''&''" using assms by metis
  then show ?thesis
    using assms \<open>0 < c\<close> \<open>schar (to_char c) = c\<close> by (simp add: Parser_getChar_def cur_char_def)
qed

lemma high_byte: "bit m 7 \<Longrightarrow> 128 \<le> byte_of (to_char (m OR x))" for m x :: int
proof -
  let ?y = "(m OR x) mod 256"
  assume "bit m 7"
  then have "bit (take_bit 8 (m OR x)) 7" by (simp add: bit_simps)
  then have "bit ?y 7" by (simp add: take_bit_eq_mod)
  then have "odd (?y div 128)" by (simp add: bit_iff_odd)
  then have "\<not> ?y < 128" by (metis div_pos_pos_trivial even_zero pos_mod_sign zero_less_numeral)
  then have "128 \<le> int (byte_of (to_char (m OR x)))" by simp
  then show ?thesis by linarith
qed

lemma high_bits: "bit (128 :: int) 7" "bit (192 :: int) 7" "bit (224 :: int) 7" "bit (240 :: int) 7"
  "bit (248 :: int) 7" "bit (252 :: int) 7"
  by code_simp+

lemma intToUTF8_high:
  "127 < c \<Longrightarrow> \<forall>b\<in>set (Parser_intToUTF8 c). 128 \<le> byte_of b"
  by (auto simp: Parser_intToUTF8_def high_byte high_bits)

lemma intToUTF8_nonempty: "0 \<le> c \<Longrightarrow> c \<le> 0x7FFFFFFF \<Longrightarrow> Parser_intToUTF8 c \<noteq> []"
  by (simp add: Parser_intToUTF8_def)

lemma escape_high: "128 \<le> byte_of b \<Longrightarrow> escape b = [b]"
  by (auto simp: escape_def byte_of_def)

lemma printed_high: "127 < c \<Longrightarrow> printed c = Parser_intToUTF8 c"
proof -
  assume "127 < c"
  then have "map escape (Parser_intToUTF8 c) = map (\<lambda>b. [b]) (Parser_intToUTF8 c)"
    using intToUTF8_high escape_high by auto
  then show ?thesis by (simp only: printed_def copy_with_escape_concat concat_map_singleton append_Nil) simp
qed

lemma printed_special:
  "printed 60 = ''&lt;''" "printed 62 = ''&gt;''" "printed 38 = ''&amp;''" "printed 39 = ''&apos;''"
  "printed 34 = ''&quot;''"
  by code_simp+

lemma special_cases:
  assumes "special c"
  obtains "c = 60" | "c = 62" | "c = 38" | "c = 39" | "c = 34"
  using assms by (auto simp: special_def)

lemma getChar_high:
  assumes "Parser_isXmlChar c" "127 < c"
  shows "Parser_getChar err (Parser_intToUTF8 c @ rest) = Some (c, length (Parser_intToUTF8 c))"
proof -
  have c: "0 \<le> c" "c \<le> 0x7FFFFFFF" using assms by (auto simp: Parser_isXmlChar_def)
  obtain b bs where b: "Parser_intToUTF8 c = b # bs"
    using intToUTF8_nonempty [OF c] by (cases "Parser_intToUTF8 c") auto
  then have h: "128 \<le> byte_of b" using intToUTF8_high [OF assms(2)] by simp
  then have "\<not> 0 < schar b" "b \<noteq> CHR ''&''" by (auto simp: schar_pos byte_of_def)
  then show ?thesis
    using UTF8_roundtrip [OF c, of err rest] assms(1) b
    by (simp add: Parser_getChar_def cur_char_def)
qed

lemma getChar_printed:
  assumes "Parser_isXmlChar c"
  shows "\<exists>n. Parser_getChar err (printed c @ rest) = Some (c, n) \<and> n = length (printed c) \<and>
    (n = 1 \<longrightarrow> printed c = [to_char c])"
proof -
  have c: "0 < c" using assms by (rule isXmlChar_nonneg)
  consider "127 < c" | "c \<le> 127" "special c" | "c \<le> 127" "\<not> special c" by fastforce
  then show ?thesis
  proof cases
    case 1
    then have "length (Parser_intToUTF8 c) \<noteq> 1" by (simp add: Parser_intToUTF8_def)
    then show ?thesis using getChar_high [OF assms 1] printed_high [OF 1] by auto
  next
    case 2
    show ?thesis
      using getChar_entity [of err rest]
      by (cases rule: special_cases [OF 2(2)]) (simp_all add: printed_special)
  next
    case 3
    then have "printed c = [to_char c]"
      using c by (auto simp: special_def printed_def Parser_intToUTF8_def to_char_eq byte_of_def)
    then show ?thesis using 3 getChar_ascii [OF assms] by (simp add: special_def)
  qed
qed

text \<open>A text as the bytes of its characters.\<close>

definition utf8 :: "int list \<Rightarrow> string" where
  "utf8 cs = concat (map Parser_intToUTF8 cs)"

lemma escape_utf8: "copy_with_escape [] (utf8 cs) = concat (map printed cs)"
  by (induction cs) (simp_all add: utf8_def printed_def copy_with_escape_concat)

lemma copyToken_loop_step:
  assumes "Parser_isXmlChar c" "0 \<le> left"
  shows "copyToken_loop err (printed c @ rest) (int (length (printed c)) + left) tok =
    copyToken_loop err rest left (tok @ Parser_intToUTF8 c)"
proof -
  obtain n where n: "Parser_getChar err (printed c @ rest) = Some (c, n)" "n = length (printed c)"
    "n = 1 \<longrightarrow> printed c = [to_char c]" using getChar_printed [OF assms(1)] by blast
  have c: "0 < c" using assms(1) by (rule isXmlChar_nonneg)
  then have "0 < n" using getChar_progress [OF n(1)] by simp
  have one: "Parser_intToUTF8 c = [to_char c]" if "n = 1"
  proof -
    have "c \<le> 127"
    proof (rule ccontr)
      assume "\<not> c \<le> 127"
      then have "printed c = Parser_intToUTF8 c" "length (Parser_intToUTF8 c) \<noteq> 1"
        using printed_high [of c] assms(1) by (auto simp: Parser_intToUTF8_def Parser_isXmlChar_def)
      then show False using that n by simp
    qed
    then show ?thesis using c by (simp add: Parser_intToUTF8_def)
  qed
  have "c \<le> 0x7FFFFFFF" using assms(1) by (auto simp: Parser_isXmlChar_def)
  then have "Parser_intToUTF8 c \<noteq> []" using intToUTF8_nonempty [of c] c by simp
  moreover have "0 < int (length (printed c)) + left" using \<open>0 < n\<close> n(2) assms(2) by linarith
  ultimately show ?thesis
    using n one c by (subst copyToken_loop.simps) auto
qed

lemma copyToken_loop_printed:
  "list_all Parser_isXmlChar cs \<Longrightarrow>
   copyToken_loop err (concat (map printed cs) @ rest) (int (length (concat (map printed cs)))) tok =
     Some (True, tok @ utf8 cs)"
proof (induction cs arbitrary: tok)
  case Nil
  then show ?case by (subst copyToken_loop.simps) (simp add: utf8_def)
next
  case (Cons c cs)
  have "copyToken_loop err (concat (map printed (c # cs)) @ rest) (int (length (concat (map printed (c # cs))))) tok
    = copyToken_loop err (printed c @ concat (map printed cs) @ rest)
        (int (length (printed c)) + int (length (concat (map printed cs)))) tok" by simp
  also have "\<dots> = copyToken_loop err (concat (map printed cs) @ rest) (int (length (concat (map printed cs))))
    (tok @ Parser_intToUTF8 c)" using Cons.prems by (intro copyToken_loop_step) auto
  also have "\<dots> = Some (True, tok @ utf8 (c # cs))" using Cons by (simp add: utf8_def)
  finally show ?case .
qed

text \<open>
  C21. Escaping and reading back are inverse: for every non-empty text of XML characters, the bytes
  \<open>copy_with_escape\<close> writes for its UTF-8 form are read by \<open>Parser_copyToken\<close> as one token, the
  UTF-8 form itself, whatever follows them in the buffer and whatever the replacement character.
\<close>

theorem escape_roundtrip:
  assumes "list_all Parser_isXmlChar cs" "cs \<noteq> []"
  shows "Parser_copyToken err (copy_with_escape [] (utf8 cs) @ rest)
     (int (length (copy_with_escape [] (utf8 cs)))) [] = Some (True, utf8 cs)"
proof -
  obtain c ds where cs: "cs = c # ds" using assms(2) by (cases cs) auto
  then have "0 < length (printed c)"
    using getChar_printed [of c err rest] getChar_progress assms(1) isXmlChar_nonneg by fastforce
  then have "0 < length (concat (map printed cs))" using cs by simp
  then show ?thesis
    using copyToken_loop_printed [OF assms(1), of err rest "[]"]
    by (simp add: Parser_copyToken_def escape_utf8 del: length_concat)
qed

theorem escape_roundtrip_witness:
  "Parser_copyToken NUL (''a&lt;b'' @ [to_char 0xC3, to_char 0xA9] @ ''<'') 8 [] =
     Some (True, ''a<b'' @ [to_char 0xC3, to_char 0xA9])"
proof -
  have cs: "utf8 [97, 60, 98, 0xE9] = ''a<b'' @ [to_char 0xC3, to_char 0xA9]" by code_simp
  have e: "copy_with_escape [] (utf8 [97, 60, 98, 0xE9]) = ''a&lt;b'' @ [to_char 0xC3, to_char 0xA9]" by code_simp
  have "list_all Parser_isXmlChar [97, 60, 98, 0xE9]" by code_simp
  from escape_roundtrip [OF this, of NUL "''<''"] show ?thesis unfolding e unfolding cs by simp
qed

text \<open>
  Every character of up to 31 bits is decoded from its encoding, whatever follows, and the number
  of bytes read is the number written.
\<close>

theorem utf8_roundtrip:
  assumes "0 \<le> c" "c \<le> 0x7FFFFFFF"
  shows "Parser_UTF8ToInt err (Parser_intToUTF8 c @ rest) = (c, length (Parser_intToUTF8 c))"
  using assms by (rule UTF8_roundtrip)

theorem utf8_roundtrip_witness:
  "Parser_UTF8ToInt NUL [to_char 0xE2, to_char 0x82, to_char 0xAC] = (0x20AC, 3)"
proof -
  have e: "Parser_intToUTF8 0x20AC = [to_char 0xE2, to_char 0x82, to_char 0xAC]" by code_simp
  show ?thesis using utf8_roundtrip [of "0x20AC" NUL "[]"] by (simp add: e)
qed

section \<open>What the character functions get wrong\<close>

text \<open>
  A numeric reference that the buffer ends in is read past the end of the buffer, because \<open>strchr\<close>
  finds the terminating NUL among the digits.
\<close>

lemma hex_digits_overrun: "set ds \<subseteq> set HEX_NUMBERS \<Longrightarrow> hex_digits n ds = None"
  by (induction ds arbitrary: n) auto

theorem reference_overrun:
  assumes "set ds \<subseteq> set HEX_NUMBERS"
  shows "Parser_getChar err (''&#x'' @ ds) = None"
proof -
  have "strncasecmp (''&#x'' @ ds) e (length e) \<noteq> 0" if "e \<in> {QUOT, LT_ENT, GT_ENT, APOS, AMP}" for e
    using that by (auto simp: entity_defs strncasecmp_def byte_of_def tolower_def isupper_def)
  moreover have "strncasecmp (''&#x'' @ ds) ESC_HEX (length ESC_HEX) = 0"
    by (simp add: ESC_HEX_def strncasecmp_def)
  ultimately show ?thesis
    using hex_digits_overrun [OF assms]
    by (simp add: Parser_getChar_def cur_char_def numeric_reference_def) (simp add: ESC_HEX_def)
qed

theorem reference_overrun_witness: "Parser_getChar NUL ''&#x41'' = None"
proof -
  have "set ''41'' \<subseteq> set HEX_NUMBERS" by code_simp
  from reference_overrun [OF this] show ?thesis by simp
qed

text \<open>The sum of a numeric reference wraps around, so a reference far outside Unicode is a letter.\<close>

lemma reference_wraps: "Parser_getChar NUL ''&#x100000041;'' = Some (65, 13)"
proof -
  have "hex_digits 0 ''100000041;'' = Some (65, '';'')"
    by (simp add: HEX_NUMBERS_def schar_def byte_of_def to_int32_def)
  then show ?thesis
    by (simp add: Parser_getChar_def cur_char_def entity_defs strncasecmp_def byte_of_def tolower_def
        isupper_def numeric_reference_def Parser_isXmlChar_def)
qed

text \<open>A name is accepted when its first character cannot start one.\<close>

lemma bad_first_char_accepted: "Parser_isValidXmlName ''1<>'' \<and> \<not> Parser_isNameChar (schar CHR ''1'') False"
  by code_simp

end
