(* ===== verification/Ixml_Node.thy ===== *)
theory Ixml_Node
  imports Ixml_Chars
begin

text \<open>
  The document object model of \<^verbatim>\<open>ixml/src\<close> (\<^verbatim>\<open>node.c\<close>, \<^verbatim>\<open>element.c\<close>, \<^verbatim>\<open>document.c\<close>, \<^verbatim>\<open>attr.c\<close>,
  \<^verbatim>\<open>nodeList.c\<close>, \<^verbatim>\<open>namedNodeMap.c\<close>) at the level of its pointers. Nodes live in a heap from addresses
  to \<open>IXML_Node\<close>s; the fields of the derived structures \<open>IXML_Element\<close> and \<open>IXML_Attr\<close> are part
  of the same record. An operation gives \<open>None\<close> when it reads or writes through an address that
  holds no node (\<open>NULL\<close>, wild or freed), when \<open>strcmp\<close> gets a \<open>NULL\<close> string, or when it does not
  return. A string is \<open>None\<close> for \<open>NULL\<close>. Allocation takes the next unused address and does not fail;
  assertions are compiled out, as in the library's release builds.
\<close>

section \<open>Data\<close>

datatype node_type =
  eINVALID_NODE | eELEMENT_NODE | eATTRIBUTE_NODE | eTEXT_NODE | eCDATA_SECTION_NODE
  | eENTITY_REFERENCE_NODE | eENTITY_NODE | ePROCESSING_INSTRUCTION_NODE | eCOMMENT_NODE
  | eDOCUMENT_NODE | eDOCUMENT_TYPE_NODE | eDOCUMENT_FRAGMENT_NODE | eNOTATION_NODE

type_synonym DOMString = "string option"

record IXML_Node =
  nodeName :: DOMString
  nodeValue :: DOMString
  nodeType :: node_type
  namespaceURI :: DOMString
  prefix :: DOMString
  localName :: DOMString
  readOnly :: int
  parentNode :: addr
  firstChild :: addr
  prevSibling :: addr
  nextSibling :: addr
  firstAttr :: addr
  ownerDocument :: addr
  tagName :: DOMString
  specified :: bool
  ownerElement :: addr

record dom_heap =
  nodes :: "addr \<Rightarrow> IXML_Node option"
  brk :: addr

datatype ixml_code =
  IXML_SUCCESS | IXML_HIERARCHY_REQUEST_ERR | IXML_WRONG_DOCUMENT_ERR | IXML_INVALID_CHARACTER_ERR
  | IXML_NOT_FOUND_ERR | IXML_NOT_SUPPORTED_ERR | IXML_INUSE_ATTRIBUTE_ERR | IXML_SYNTAX_ERR
  | IXML_NAMESPACE_ERR | IXML_NO_SUCH_FILE | IXML_INSUFFICIENT_MEMORY | IXML_FILE_DONE
  | IXML_INVALID_PARAMETER | IXML_FAILED

definition DOCUMENTNODENAME :: string where "DOCUMENTNODENAME = ''#document''"
definition TEXTNODENAME :: string where "TEXTNODENAME = ''#text''"
definition CDATANODENAME :: string where "CDATANODENAME = ''#cdata-section''"

section \<open>Reads, writes and strings\<close>

definition fld :: "dom_heap \<Rightarrow> addr \<Rightarrow> (IXML_Node \<Rightarrow> 'a) \<Rightarrow> 'a option" where
  "fld d p f = map_option f (nodes d p)"

definition upd :: "dom_heap \<Rightarrow> addr \<Rightarrow> (IXML_Node \<Rightarrow> IXML_Node) \<Rightarrow> dom_heap option" where
  "upd d p f = (case nodes d p of None \<Rightarrow> None | Some n \<Rightarrow> Some (d\<lparr>nodes := (nodes d)(p \<mapsto> f n)\<rparr>))"

definition malloc_node :: "dom_heap \<Rightarrow> IXML_Node \<Rightarrow> addr \<times> dom_heap" where
  "malloc_node d n = (brk d, d\<lparr>nodes := (nodes d)(brk d \<mapsto> n), brk := brk d + 1\<rparr>)"

definition str_eq :: "DOMString \<Rightarrow> DOMString \<Rightarrow> bool option" where
  "str_eq a b = (case (a, b) of (Some x, Some y) \<Rightarrow> Some (x = y) | _ \<Rightarrow> None)"

text \<open>Short-circuit conjunction and disjunction of tests that may fault.\<close>

definition and_then :: "bool option \<Rightarrow> bool option \<Rightarrow> bool option" where
  "and_then a b = (case a of None \<Rightarrow> None | Some False \<Rightarrow> Some False | Some True \<Rightarrow> b)"

definition or_else :: "bool option \<Rightarrow> bool option \<Rightarrow> bool option" where
  "or_else a b = (case a of None \<Rightarrow> None | Some True \<Rightarrow> Some True | Some False \<Rightarrow> b)"

text \<open>\<open>memset\<close> to zero.\<close>

definition ixmlNode_init :: IXML_Node where
  "ixmlNode_init = \<lparr>nodeName = None, nodeValue = None, nodeType = eINVALID_NODE, namespaceURI = None,
     prefix = None, localName = None, readOnly = 0, parentNode = NULL, firstChild = NULL,
     prevSibling = NULL, nextSibling = NULL, firstAttr = NULL, ownerDocument = NULL, tagName = None,
     specified = False, ownerElement = NULL\<rparr>"

section \<open>Accessors\<close>

definition get_or :: "'a \<Rightarrow> (IXML_Node \<Rightarrow> 'a) \<Rightarrow> dom_heap \<Rightarrow> addr \<Rightarrow> 'a option" where
  "get_or z f d p = (if p \<noteq> NULL then fld d p f else Some z)"

definition ixmlNode_getNodeName :: "dom_heap \<Rightarrow> addr \<Rightarrow> DOMString option" where
  "ixmlNode_getNodeName = get_or None nodeName"

definition ixmlNode_getLocalName :: "dom_heap \<Rightarrow> addr \<Rightarrow> DOMString option" where
  "ixmlNode_getLocalName = get_or None localName"

definition ixmlNode_getNamespaceURI :: "dom_heap \<Rightarrow> addr \<Rightarrow> DOMString option" where
  "ixmlNode_getNamespaceURI = get_or None namespaceURI"

definition ixmlNode_getPrefix :: "dom_heap \<Rightarrow> addr \<Rightarrow> DOMString option" where
  "ixmlNode_getPrefix = get_or None prefix"

definition ixmlNode_getNodeValue :: "dom_heap \<Rightarrow> addr \<Rightarrow> DOMString option" where
  "ixmlNode_getNodeValue = get_or None nodeValue"

definition ixmlNode_getNodeType :: "dom_heap \<Rightarrow> addr \<Rightarrow> node_type option" where
  "ixmlNode_getNodeType = get_or eINVALID_NODE nodeType"

definition ixmlNode_getParentNode :: "dom_heap \<Rightarrow> addr \<Rightarrow> addr option" where
  "ixmlNode_getParentNode = get_or NULL parentNode"

definition ixmlNode_getFirstChild :: "dom_heap \<Rightarrow> addr \<Rightarrow> addr option" where
  "ixmlNode_getFirstChild = get_or NULL firstChild"

definition ixmlNode_getPreviousSibling :: "dom_heap \<Rightarrow> addr \<Rightarrow> addr option" where
  "ixmlNode_getPreviousSibling = get_or NULL prevSibling"

definition ixmlNode_getNextSibling :: "dom_heap \<Rightarrow> addr \<Rightarrow> addr option" where
  "ixmlNode_getNextSibling = get_or NULL nextSibling"

definition ixmlNode_getOwnerDocument :: "dom_heap \<Rightarrow> addr \<Rightarrow> addr option" where
  "ixmlNode_getOwnerDocument = get_or NULL ownerDocument"

text \<open>The walk to the last sibling that several operations repeat.\<close>

partial_function (option) last_sibling :: "dom_heap \<Rightarrow> addr \<Rightarrow> addr \<Rightarrow> addr option" where
  "last_sibling d prev nxt =
     (if nxt \<noteq> NULL then do {
        n \<leftarrow> fld d nxt nextSibling;
        last_sibling d nxt n
      } else Some prev)"

definition ixmlNode_getLastChild :: "dom_heap \<Rightarrow> addr \<Rightarrow> addr option" where
  "ixmlNode_getLastChild d nodeptr =
     (if nodeptr \<noteq> NULL then do {
        c \<leftarrow> fld d nodeptr firstChild;
        last_sibling d nodeptr c
      } else Some NULL)"

definition ixmlNode_hasChildNodes :: "dom_heap \<Rightarrow> addr \<Rightarrow> bool option" where
  "ixmlNode_hasChildNodes d nodeptr =
     (if nodeptr = NULL then Some False else map_option (\<lambda>c. c \<noteq> NULL) (fld d nodeptr firstChild))"

definition ixmlNode_hasAttributes :: "dom_heap \<Rightarrow> addr \<Rightarrow> bool option" where
  "ixmlNode_hasAttributes d nodeptr =
     (if nodeptr \<noteq> NULL
      then map_option (\<lambda>n. nodeType n = eELEMENT_NODE \<and> firstAttr n \<noteq> NULL) (nodes d nodeptr)
      else Some False)"

text \<open>The setters that replace one string; they free the old one and copy the new one.\<close>

definition ixmlNode_setNamespaceURI :: "dom_heap \<Rightarrow> addr \<Rightarrow> DOMString \<Rightarrow> (ixml_code \<times> dom_heap) option" where
  "ixmlNode_setNamespaceURI d nodeptr s =
     (if nodeptr = NULL then Some (IXML_INVALID_PARAMETER, d)
      else map_option (Pair IXML_SUCCESS) (upd d nodeptr (namespaceURI_update (\<lambda>_. s))))"

definition ixmlNode_setPrefix :: "dom_heap \<Rightarrow> addr \<Rightarrow> DOMString \<Rightarrow> (ixml_code \<times> dom_heap) option" where
  "ixmlNode_setPrefix d nodeptr s =
     (if nodeptr = NULL then Some (IXML_INVALID_PARAMETER, d)
      else map_option (Pair IXML_SUCCESS) (upd d nodeptr (prefix_update (\<lambda>_. s))))"

definition ixmlNode_setLocalName :: "dom_heap \<Rightarrow> addr \<Rightarrow> DOMString \<Rightarrow> (ixml_code \<times> dom_heap) option" where
  "ixmlNode_setLocalName d nodeptr s =
     map_option (Pair IXML_SUCCESS) (upd d nodeptr (localName_update (\<lambda>_. s)))"

definition ixmlNode_setNodeValue :: "dom_heap \<Rightarrow> addr \<Rightarrow> DOMString \<Rightarrow> (ixml_code \<times> dom_heap) option" where
  "ixmlNode_setNodeValue d nodeptr s =
     (if nodeptr = NULL then Some (IXML_INVALID_PARAMETER, d)
      else map_option (Pair IXML_SUCCESS) (upd d nodeptr (nodeValue_update (\<lambda>_. s))))"

text \<open>The name split at its first colon.\<close>

definition split_name :: "string \<Rightarrow> DOMString \<times> DOMString" where
  "split_name name =
     (if CHR '':'' \<notin> set name then (None, Some name)
      else (Some (takeWhile (\<lambda>c. c \<noteq> CHR '':'') name), Some (tl (dropWhile (\<lambda>c. c \<noteq> CHR '':'') name))))"

definition Parser_setNodePrefixAndLocalName :: "IXML_Node \<Rightarrow> (ixml_code \<times> IXML_Node) option" where
  "Parser_setNodePrefixAndLocalName node =
     (case nodeName node of None \<Rightarrow> None
      | Some name \<Rightarrow>
          (case split_name name of (p, l) \<Rightarrow> Some (IXML_SUCCESS, node\<lparr>prefix := p, localName := l\<rparr>)))"

definition ixmlNode_setNodeName :: "dom_heap \<Rightarrow> addr \<Rightarrow> DOMString \<Rightarrow> (ixml_code \<times> dom_heap) option" where
  "ixmlNode_setNodeName d node qualifiedName =
     (case qualifiedName of
        None \<Rightarrow> map_option (Pair IXML_SUCCESS) (upd d node (nodeName_update (\<lambda>_. None)))
      | Some q \<Rightarrow> do {
          n \<leftarrow> nodes d node;
          (rc, n1) \<leftarrow> Parser_setNodePrefixAndLocalName (n\<lparr>nodeName := Some q\<rparr>);
          Some (rc, d\<lparr>nodes := (nodes d)(node \<mapsto> n1)\<rparr>)
        })"

text \<open>\<open>src\<close> is the parser's local node, outside the heap.\<close>

definition ixmlNode_setNodeProperties :: "dom_heap \<Rightarrow> addr \<Rightarrow> IXML_Node \<Rightarrow> (ixml_code \<times> dom_heap) option" where
  "ixmlNode_setNodeProperties d destNode src =
     (if destNode = NULL then Some (IXML_INVALID_PARAMETER, d)
      else do {
        (rc1, d1) \<leftarrow> ixmlNode_setNodeValue d destNode (nodeValue src);
        (rc2, d2) \<leftarrow> ixmlNode_setLocalName d1 destNode (localName src);
        (rc3, d3) \<leftarrow> ixmlNode_setPrefix d2 destNode (prefix src);
        d4 \<leftarrow> upd d3 destNode (nodeType_update (\<lambda>_. nodeType src));
        Some (IXML_SUCCESS, d4)
      })"

section \<open>The tree operations of \<^verbatim>\<open>node.c\<close>\<close>

definition ixmlNode_freeSingleNode :: "dom_heap \<Rightarrow> addr \<Rightarrow> dom_heap option" where
  "ixmlNode_freeSingleNode d p =
     (if p = NULL then Some d
      else case nodes d p of None \<Rightarrow> None | Some _ \<Rightarrow> Some (d\<lparr>nodes := (nodes d)(p := None)\<rparr>))"

text \<open>The walks of \<open>ixmlNode_free\<close>: down the first children, along the siblings, and again until a leaf.\<close>

partial_function (option) walk_down :: "dom_heap \<Rightarrow> addr \<Rightarrow> addr \<Rightarrow> addr option" where
  "walk_down d prev_child curr_child =
     (if curr_child \<noteq> NULL then do {
        c \<leftarrow> fld d curr_child firstChild;
        walk_down d curr_child c
      } else Some prev_child)"

partial_function (option) walk_to_leaf :: "dom_heap \<Rightarrow> addr \<Rightarrow> addr \<Rightarrow> addr option" where
  "walk_to_leaf d prev_child curr_child = do {
     p1 \<leftarrow> walk_down d prev_child curr_child;
     p2 \<leftarrow> last_sibling d p1 p1;
     next_child \<leftarrow> fld d p2 firstChild;
     if next_child \<noteq> NULL then walk_to_leaf d p2 p2 else Some p2
   }"

partial_function (option) free_attrs :: "dom_heap \<Rightarrow> addr \<Rightarrow> dom_heap option" where
  "free_attrs d curr_attr =
     (if curr_attr \<noteq> NULL then do {
        next_attr \<leftarrow> fld d curr_attr nextSibling;
        d1 \<leftarrow> ixmlNode_freeSingleNode d curr_attr;
        free_attrs d1 next_attr
      } else Some d)"

text \<open>One round of the outer loop: the leaf that is freed, the next node and the heap.\<close>

definition free_round :: "addr \<Rightarrow> dom_heap \<Rightarrow> addr \<Rightarrow> addr \<Rightarrow> (addr \<times> addr \<times> dom_heap) option" where
  "free_round nodeptr d prev_child next_child = do {
     curr_child \<leftarrow> walk_to_leaf d prev_child next_child;
     fa \<leftarrow> fld d curr_child firstAttr;
     d1 \<leftarrow> free_attrs d fa;
     d2 \<leftarrow> upd d1 curr_child (firstAttr_update (\<lambda>_. NULL));
     (nxt, d3) \<leftarrow>
       (if curr_child \<noteq> nodeptr then do {
          ps \<leftarrow> fld d2 curr_child prevSibling;
          if ps \<noteq> NULL
          then do { d3 \<leftarrow> upd d2 ps (nextSibling_update (\<lambda>_. NULL)); Some (ps, d3) }
          else do {
            pn \<leftarrow> fld d2 curr_child parentNode;
            d3 \<leftarrow> upd d2 pn (firstChild_update (\<lambda>_. NULL));
            Some (pn, d3)
          }
        } else Some (NULL, d2));
     d4 \<leftarrow> ixmlNode_freeSingleNode d3 curr_child;
     Some (curr_child, nxt, d4)
   }"

partial_function (option) free_loop :: "addr \<Rightarrow> dom_heap \<Rightarrow> addr \<Rightarrow> addr \<Rightarrow> dom_heap option" where
  "free_loop nodeptr d prev_child next_child = do {
     (curr_child, nxt, d1) \<leftarrow> free_round nodeptr d prev_child next_child;
     if curr_child \<noteq> nodeptr then free_loop nodeptr d1 curr_child nxt else Some d1
   }"

definition ixmlNode_free :: "dom_heap \<Rightarrow> addr \<Rightarrow> dom_heap option" where
  "ixmlNode_free d nodeptr =
     (if nodeptr \<noteq> NULL then do {
        c \<leftarrow> fld d nodeptr firstChild;
        free_loop nodeptr d nodeptr c
      } else Some d)"

partial_function (option) ixmlNode_isAncestor :: "dom_heap \<Rightarrow> addr \<Rightarrow> addr \<Rightarrow> bool option" where
  "ixmlNode_isAncestor d ancestorNode toFind =
     (if ancestorNode \<noteq> NULL \<and> toFind \<noteq> NULL then do {
        pn \<leftarrow> fld d toFind parentNode;
        if pn = ancestorNode then Some True
        else do {
          c \<leftarrow> fld d ancestorNode firstChild;
          found \<leftarrow> ixmlNode_isAncestor d c toFind;
          if \<not> found then do {
            s \<leftarrow> fld d ancestorNode nextSibling;
            ixmlNode_isAncestor d s toFind
          } else Some found
        }
      } else Some False)"

definition ixmlNode_isParent :: "dom_heap \<Rightarrow> addr \<Rightarrow> addr \<Rightarrow> bool option" where
  "ixmlNode_isParent d nodeptr toFind =
     (if nodeptr \<noteq> NULL \<and> toFind \<noteq> NULL then map_option (\<lambda>p. p = nodeptr) (fld d toFind parentNode)
      else Some False)"

definition allow_type :: "node_type \<Rightarrow> node_type \<Rightarrow> bool" where
  "allow_type parent child =
     (case parent of
        eATTRIBUTE_NODE \<Rightarrow> False
      | eTEXT_NODE \<Rightarrow> False
      | eCDATA_SECTION_NODE \<Rightarrow> False
      | eELEMENT_NODE \<Rightarrow> child \<noteq> eATTRIBUTE_NODE \<and> child \<noteq> eDOCUMENT_NODE
      | eDOCUMENT_NODE \<Rightarrow> child = eELEMENT_NODE
      | _ \<Rightarrow> True)"

definition ixmlNode_allowChildren :: "dom_heap \<Rightarrow> addr \<Rightarrow> addr \<Rightarrow> bool option" where
  "ixmlNode_allowChildren d nodeptr newChild = do {
     pt \<leftarrow> fld d nodeptr nodeType;
     ct \<leftarrow> fld d newChild nodeType;
     Some (allow_type pt ct)
   }"

definition ixmlNode_compare :: "dom_heap \<Rightarrow> addr \<Rightarrow> addr \<Rightarrow> bool option" where
  "ixmlNode_compare d srcNode destNode =
     (if srcNode = destNode then Some True
      else do {
        a \<leftarrow> nodes d srcNode;
        b \<leftarrow> nodes d destNode;
        and_then (str_eq (nodeName a) (nodeName b))
          (and_then (str_eq (nodeValue a) (nodeValue b))
            (and_then (Some (nodeType a = nodeType b))
              (and_then (str_eq (namespaceURI a) (namespaceURI b))
                (and_then (str_eq (prefix a) (prefix b)) (str_eq (localName a) (localName b))))))
      })"

text \<open>\<open>keep\<close> tells whether the caller passes a \<open>returnNode\<close>; otherwise the child is freed.\<close>

definition ixmlNode_removeChild :: "dom_heap \<Rightarrow> addr \<Rightarrow> addr \<Rightarrow> bool \<Rightarrow> (ixml_code \<times> dom_heap) option" where
  "ixmlNode_removeChild d nodeptr oldChild keep =
     (if nodeptr = NULL \<or> oldChild = NULL then Some (IXML_INVALID_PARAMETER, d)
      else do {
        isp \<leftarrow> ixmlNode_isParent d nodeptr oldChild;
        if \<not> isp then Some (IXML_NOT_FOUND_ERR, d)
        else do {
          old \<leftarrow> nodes d oldChild;
          d1 \<leftarrow> (if prevSibling old \<noteq> NULL
                  then upd d (prevSibling old) (nextSibling_update (\<lambda>_. nextSibling old)) else Some d);
          fc \<leftarrow> fld d1 nodeptr firstChild;
          d2 \<leftarrow> (if fc = oldChild then upd d1 nodeptr (firstChild_update (\<lambda>_. nextSibling old)) else Some d1);
          d3 \<leftarrow> (if nextSibling old \<noteq> NULL
                  then upd d2 (nextSibling old) (prevSibling_update (\<lambda>_. prevSibling old)) else Some d2);
          d4 \<leftarrow> upd d3 oldChild (\<lambda>n. n\<lparr>nextSibling := NULL, prevSibling := NULL, parentNode := NULL\<rparr>);
          if keep then Some (IXML_SUCCESS, d4)
          else map_option (Pair IXML_SUCCESS) (ixmlNode_free d4 oldChild)
        }
      })"

definition ixmlNode_appendChild :: "dom_heap \<Rightarrow> addr \<Rightarrow> addr \<Rightarrow> (ixml_code \<times> dom_heap) option" where
  "ixmlNode_appendChild d nodeptr newChild =
     (if nodeptr = NULL \<or> newChild = NULL then Some (IXML_INVALID_PARAMETER, d)
      else do {
        nod \<leftarrow> fld d newChild ownerDocument;
        pod \<leftarrow> fld d nodeptr ownerDocument;
        if nod \<noteq> NULL \<and> pod \<noteq> nod then Some (IXML_WRONG_DOCUMENT_ERR, d)
        else do {
          anc \<leftarrow> ixmlNode_isAncestor d newChild nodeptr;
          if anc then Some (IXML_HIERARCHY_REQUEST_ERR, d)
          else do {
            allowed \<leftarrow> ixmlNode_allowChildren d nodeptr newChild;
            if \<not> allowed then Some (IXML_HIERARCHY_REQUEST_ERR, d)
            else do {
              isp \<leftarrow> ixmlNode_isParent d nodeptr newChild;
              d1 \<leftarrow> (if isp then map_option snd (ixmlNode_removeChild d nodeptr newChild True) else Some d);
              d2 \<leftarrow> upd d1 newChild (\<lambda>n. n\<lparr>parentNode := nodeptr, ownerDocument := pod\<rparr>);
              fc \<leftarrow> fld d2 nodeptr firstChild;
              d3 \<leftarrow>
                (if fc = NULL then upd d2 nodeptr (firstChild_update (\<lambda>_. newChild))
                 else do {
                   nx \<leftarrow> fld d2 fc nextSibling;
                   prev \<leftarrow> last_sibling d2 fc nx;
                   d' \<leftarrow> upd d2 prev (nextSibling_update (\<lambda>_. newChild));
                   upd d' newChild (prevSibling_update (\<lambda>_. prev))
                 });
              Some (IXML_SUCCESS, d3)
            }
          }
        }
      })"

definition ixmlNode_insertBefore :: "dom_heap \<Rightarrow> addr \<Rightarrow> addr \<Rightarrow> addr \<Rightarrow> (ixml_code \<times> dom_heap) option" where
  "ixmlNode_insertBefore d nodeptr newChild refChild =
     (if nodeptr = NULL \<or> newChild = NULL then Some (IXML_INVALID_PARAMETER, d)
      else do {
        allowed \<leftarrow> ixmlNode_allowChildren d nodeptr newChild;
        if \<not> allowed then Some (IXML_HIERARCHY_REQUEST_ERR, d)
        else do {
          anc \<leftarrow> ixmlNode_isAncestor d newChild nodeptr;
          if anc then Some (IXML_HIERARCHY_REQUEST_ERR, d)
          else do {
            pod \<leftarrow> fld d nodeptr ownerDocument;
            nod \<leftarrow> fld d newChild ownerDocument;
            if pod \<noteq> nod then Some (IXML_WRONG_DOCUMENT_ERR, d)
            else do {
              isp \<leftarrow> ixmlNode_isParent d nodeptr refChild;
              if \<not> isp then Some (IXML_NOT_FOUND_ERR, d)
              else if refChild \<noteq> NULL then do {
                own \<leftarrow> ixmlNode_isParent d nodeptr newChild;
                d1 \<leftarrow> (if own then do {
                          (rc, d') \<leftarrow> ixmlNode_removeChild d nodeptr newChild True;
                          upd d' newChild (\<lambda>n. n\<lparr>nextSibling := NULL, prevSibling := NULL\<rparr>)
                        } else Some d);
                d2 \<leftarrow> upd d1 newChild (nextSibling_update (\<lambda>_. refChild));
                ps \<leftarrow> fld d2 refChild prevSibling;
                d3 \<leftarrow> (if ps \<noteq> NULL then do {
                          d' \<leftarrow> upd d2 ps (nextSibling_update (\<lambda>_. newChild));
                          upd d' newChild (prevSibling_update (\<lambda>_. ps))
                        } else Some d2);
                d4 \<leftarrow> upd d3 refChild (prevSibling_update (\<lambda>_. newChild));
                nps \<leftarrow> fld d4 newChild prevSibling;
                d5 \<leftarrow> (if nps = NULL then upd d4 nodeptr (firstChild_update (\<lambda>_. newChild)) else Some d4);
                d6 \<leftarrow> upd d5 newChild (parentNode_update (\<lambda>_. nodeptr));
                Some (IXML_SUCCESS, d6)
              }
              else ixmlNode_appendChild d nodeptr newChild
            }
          }
        }
      })"

definition ixmlNode_replaceChild ::
  "dom_heap \<Rightarrow> addr \<Rightarrow> addr \<Rightarrow> addr \<Rightarrow> bool \<Rightarrow> (ixml_code \<times> dom_heap) option" where
  "ixmlNode_replaceChild d nodeptr newChild oldChild keep =
     (if nodeptr = NULL \<or> newChild = NULL \<or> oldChild = NULL then Some (IXML_INVALID_PARAMETER, d)
      else do {
        anc \<leftarrow> ixmlNode_isAncestor d newChild nodeptr;
        if anc then Some (IXML_HIERARCHY_REQUEST_ERR, d)
        else do {
          allowed \<leftarrow> ixmlNode_allowChildren d nodeptr newChild;
          if \<not> allowed then Some (IXML_HIERARCHY_REQUEST_ERR, d)
          else do {
            pod \<leftarrow> fld d nodeptr ownerDocument;
            nod \<leftarrow> fld d newChild ownerDocument;
            if pod \<noteq> nod then Some (IXML_WRONG_DOCUMENT_ERR, d)
            else do {
              isp \<leftarrow> ixmlNode_isParent d nodeptr oldChild;
              if \<not> isp then Some (IXML_NOT_FOUND_ERR, d)
              else do {
                (ret, d1) \<leftarrow> ixmlNode_insertBefore d nodeptr newChild oldChild;
                if ret \<noteq> IXML_SUCCESS then Some (ret, d1)
                else ixmlNode_removeChild d1 nodeptr oldChild keep
              }
            }
          }
        }
      })"

section \<open>Clones\<close>

definition ixmlNode_cloneTextNode :: "dom_heap \<Rightarrow> addr \<Rightarrow> (addr \<times> dom_heap) option" where
  "ixmlNode_cloneTextNode d nodeptr = do {
     src \<leftarrow> nodes d nodeptr;
     let (newNode, d1) = malloc_node d ixmlNode_init;
     (rc1, d2) \<leftarrow> ixmlNode_setNodeName d1 newNode (nodeName src);
     (rc2, d3) \<leftarrow> ixmlNode_setNodeValue d2 newNode (nodeValue src);
     d4 \<leftarrow> upd d3 newNode (nodeType_update (\<lambda>_. eTEXT_NODE));
     Some (newNode, d4)
   }"

definition ixmlNode_cloneCDATASect :: "dom_heap \<Rightarrow> addr \<Rightarrow> (addr \<times> dom_heap) option" where
  "ixmlNode_cloneCDATASect d nodeptr = do {
     src \<leftarrow> nodes d nodeptr;
     let (newCDATA, d1) = malloc_node d ixmlNode_init;
     (rc1, d2) \<leftarrow> ixmlNode_setNodeName d1 newCDATA (nodeName src);
     (rc2, d3) \<leftarrow> ixmlNode_setNodeValue d2 newCDATA (nodeValue src);
     d4 \<leftarrow> upd d3 newCDATA (nodeType_update (\<lambda>_. eCDATA_SECTION_NODE));
     Some (newCDATA, d4)
   }"

text \<open>The strings an element and an attribute copy alike.\<close>

definition clone_strings :: "dom_heap \<Rightarrow> addr \<Rightarrow> IXML_Node \<Rightarrow> dom_heap option" where
  "clone_strings d newNode src = do {
     (rc1, d1) \<leftarrow> ixmlNode_setNodeName d newNode (nodeName src);
     (rc2, d2) \<leftarrow> ixmlNode_setNodeValue d1 newNode (nodeValue src);
     (rc3, d3) \<leftarrow> ixmlNode_setNamespaceURI d2 newNode (namespaceURI src);
     (rc4, d4) \<leftarrow> ixmlNode_setPrefix d3 newNode (prefix src);
     (rc5, d5) \<leftarrow> ixmlNode_setLocalName d4 newNode (localName src);
     Some d5
   }"

text \<open>\<open>ixmlElement_setTagName\<close> refuses a \<open>NULL\<close> name; then the clone fails, \<open>NULL\<close>.\<close>

definition ixmlElement_setTagName :: "dom_heap \<Rightarrow> addr \<Rightarrow> DOMString \<Rightarrow> (ixml_code \<times> dom_heap) option" where
  "ixmlElement_setTagName d element tag =
     (if element = NULL \<or> tag = None then Some (IXML_FAILED, d)
      else map_option (Pair IXML_SUCCESS) (upd d element (tagName_update (\<lambda>_. tag))))"

definition ixmlNode_cloneElement :: "dom_heap \<Rightarrow> addr \<Rightarrow> (addr \<times> dom_heap) option" where
  "ixmlNode_cloneElement d nodeptr = do {
     src \<leftarrow> nodes d nodeptr;
     let (newElement, d1) = malloc_node d ixmlNode_init;
     (rc, d2) \<leftarrow> ixmlElement_setTagName d1 newElement (tagName src);
     if rc \<noteq> IXML_SUCCESS then map_option (Pair NULL) (ixmlNode_free d2 newElement)
     else do {
       d3 \<leftarrow> clone_strings d2 newElement src;
       d4 \<leftarrow> upd d3 newElement (nodeType_update (\<lambda>_. eELEMENT_NODE));
       Some (newElement, d4)
     }
   }"

definition ixmlNode_newDoc :: "dom_heap \<Rightarrow> (addr \<times> dom_heap) option" where
  "ixmlNode_newDoc d = do {
     let (newDoc, d1) = malloc_node d ixmlNode_init;
     (rc, d2) \<leftarrow> ixmlNode_setNodeName d1 newDoc (Some DOCUMENTNODENAME);
     d3 \<leftarrow> upd d2 newDoc (nodeType_update (\<lambda>_. eDOCUMENT_NODE));
     Some (newDoc, d3)
   }"

definition ixmlNode_cloneAttr :: "dom_heap \<Rightarrow> addr \<Rightarrow> (addr \<times> dom_heap) option" where
  "ixmlNode_cloneAttr d nodeptr = do {
     src \<leftarrow> nodes d nodeptr;
     let (newAttr, d1) = malloc_node d ixmlNode_init;
     d2 \<leftarrow> clone_strings d1 newAttr src;
     d3 \<leftarrow> upd d2 newAttr (nodeType_update (\<lambda>_. eATTRIBUTE_NODE));
     Some (newAttr, d3)
   }"

definition ixmlNode_cloneAttrDirect :: "dom_heap \<Rightarrow> addr \<Rightarrow> (addr \<times> dom_heap) option" where
  "ixmlNode_cloneAttrDirect d nodeptr = do {
     (newAttr, d1) \<leftarrow> ixmlNode_cloneAttr d nodeptr;
     d2 \<leftarrow> upd d1 newAttr (specified_update (\<lambda>_. True));
     Some (newAttr, d2)
   }"

partial_function (option) set_parent_loop :: "dom_heap \<Rightarrow> addr \<Rightarrow> addr \<Rightarrow> dom_heap option" where
  "set_parent_loop d parent nextptr =
     (if nextptr \<noteq> NULL then do {
        d1 \<leftarrow> upd d nextptr (parentNode_update (\<lambda>_. parent));
        n \<leftarrow> fld d1 nextptr nextSibling;
        set_parent_loop d1 parent n
      } else Some d)"

definition ixmlNode_setSiblingNodesParent :: "dom_heap \<Rightarrow> addr \<Rightarrow> dom_heap option" where
  "ixmlNode_setSiblingNodesParent d nodeptr = do {
     n \<leftarrow> nodes d nodeptr;
     set_parent_loop d (parentNode n) (nextSibling n)
   }"

partial_function (option) ixmlNode_cloneNodeTreeRecursive ::
  "dom_heap \<Rightarrow> addr \<Rightarrow> bool \<Rightarrow> (addr \<times> dom_heap) option" where
  "ixmlNode_cloneNodeTreeRecursive d nodeptr deep =
     (if nodeptr \<noteq> NULL then do {
        n \<leftarrow> nodes d nodeptr;
        (case nodeType n of
           eELEMENT_NODE \<Rightarrow> do {
             (newElement, d1) \<leftarrow> ixmlNode_cloneElement d nodeptr;
             if newElement = NULL then Some (NULL, d1)
             else do {
               (fa, d2) \<leftarrow> ixmlNode_cloneNodeTreeRecursive d1 (firstAttr n) deep;
               d3 \<leftarrow> upd d2 newElement (firstAttr_update (\<lambda>_. fa));
               if deep then do {
                 (fc, d4) \<leftarrow> ixmlNode_cloneNodeTreeRecursive d3 (firstChild n) deep;
                 d5 \<leftarrow> upd d4 newElement (firstChild_update (\<lambda>_. fc));
                 d6 \<leftarrow> (if fc \<noteq> NULL then do {
                           d' \<leftarrow> upd d5 fc (parentNode_update (\<lambda>_. newElement));
                           ixmlNode_setSiblingNodesParent d' fc
                         } else Some d5);
                 (nextSib, d7) \<leftarrow> ixmlNode_cloneNodeTreeRecursive d6 (nextSibling n) deep;
                 d8 \<leftarrow> upd d7 newElement (nextSibling_update (\<lambda>_. nextSib));
                 d9 \<leftarrow> (if nextSib \<noteq> NULL then upd d8 nextSib (prevSibling_update (\<lambda>_. newElement))
                         else Some d8);
                 Some (newElement, d9)
               } else Some (newElement, d3)
             }
           }
         | eATTRIBUTE_NODE \<Rightarrow> do {
             (newAttr, d1) \<leftarrow> ixmlNode_cloneAttr d nodeptr;
             (nextSib, d2) \<leftarrow> ixmlNode_cloneNodeTreeRecursive d1 (nextSibling n) deep;
             d3 \<leftarrow> upd d2 newAttr (nextSibling_update (\<lambda>_. nextSib));
             d4 \<leftarrow> (if nextSib \<noteq> NULL then upd d3 nextSib (prevSibling_update (\<lambda>_. newAttr)) else Some d3);
             Some (newAttr, d4)
           }
         | eTEXT_NODE \<Rightarrow> ixmlNode_cloneTextNode d nodeptr
         | eCDATA_SECTION_NODE \<Rightarrow> ixmlNode_cloneCDATASect d nodeptr
         | eDOCUMENT_NODE \<Rightarrow> do {
             (newDoc, d1) \<leftarrow> ixmlNode_newDoc d;
             if deep then do {
               (fc, d2) \<leftarrow> ixmlNode_cloneNodeTreeRecursive d1 (firstChild n) deep;
               d3 \<leftarrow> upd d2 newDoc (firstChild_update (\<lambda>_. fc));
               d4 \<leftarrow> (if fc \<noteq> NULL then upd d3 fc (parentNode_update (\<lambda>_. newDoc)) else Some d3);
               Some (newDoc, d4)
             } else Some (newDoc, d1)
           }
         | _ \<Rightarrow> Some (NULL, d))
      } else Some (NULL, d))"

definition ixmlNode_cloneNodeTree :: "dom_heap \<Rightarrow> addr \<Rightarrow> bool \<Rightarrow> (addr \<times> dom_heap) option" where
  "ixmlNode_cloneNodeTree d nodeptr deep = do {
     n \<leftarrow> nodes d nodeptr;
     (newNode, d1) \<leftarrow>
       (case nodeType n of
          eELEMENT_NODE \<Rightarrow> do {
            (newElement, d1) \<leftarrow> ixmlNode_cloneElement d nodeptr;
            if newElement = NULL then Some (NULL, d1)
            else do {
              (fa, d2) \<leftarrow> ixmlNode_cloneNodeTreeRecursive d1 (firstAttr n) deep;
              d3 \<leftarrow> upd d2 newElement (firstAttr_update (\<lambda>_. fa));
              if deep then do {
                (fc, d4) \<leftarrow> ixmlNode_cloneNodeTreeRecursive d3 (firstChild n) deep;
                d5 \<leftarrow> upd d4 newElement (firstChild_update (\<lambda>_. fc));
                d6 \<leftarrow> set_parent_loop d5 newElement fc;
                d7 \<leftarrow> upd d6 newElement (nextSibling_update (\<lambda>_. NULL));
                Some (newElement, d7)
              } else Some (newElement, d3)
            }
          }
        | eATTRIBUTE_NODE \<Rightarrow> ixmlNode_cloneNodeTreeRecursive d nodeptr deep
        | eTEXT_NODE \<Rightarrow> ixmlNode_cloneNodeTreeRecursive d nodeptr deep
        | eCDATA_SECTION_NODE \<Rightarrow> ixmlNode_cloneNodeTreeRecursive d nodeptr deep
        | eDOCUMENT_NODE \<Rightarrow> ixmlNode_cloneNodeTreeRecursive d nodeptr deep
        | _ \<Rightarrow> Some (NULL, d));
     if newNode \<noteq> NULL then do {
       d2 \<leftarrow> upd d1 newNode (parentNode_update (\<lambda>_. NULL));
       Some (newNode, d2)
     } else Some (newNode, d1)
   }"

definition ixmlNode_cloneNode :: "dom_heap \<Rightarrow> addr \<Rightarrow> bool \<Rightarrow> (addr \<times> dom_heap) option" where
  "ixmlNode_cloneNode d nodeptr deep =
     (if nodeptr = NULL then Some (NULL, d)
      else do {
        t \<leftarrow> fld d nodeptr nodeType;
        if t = eATTRIBUTE_NODE then ixmlNode_cloneAttrDirect d nodeptr
        else ixmlNode_cloneNodeTree d nodeptr deep
      })"

section \<open>Node lists\<close>

text \<open>
  An \<open>IXML_NodeList\<close> is the list of the \<open>nodeItem\<close>s of its cells, \<open>[]\<close> for a \<open>NULL\<close> pointer;
  \<open>ixmlNodeList_init\<close> makes one cell without a node.
\<close>

definition ixmlNodeList_init :: "addr list" where
  "ixmlNodeList_init = [NULL]"

definition ixmlNodeList_addToNodeList :: "addr list \<Rightarrow> addr \<Rightarrow> ixml_code \<times> addr list" where
  "ixmlNodeList_addToNodeList nList add =
     (if add = NULL then (IXML_FAILED, nList)
      else let l = (if nList = [] then ixmlNodeList_init else nList)
           in (IXML_SUCCESS, if hd l = NULL then add # tl l else l @ [add]))"

definition ixmlNodeList_length :: "addr list \<Rightarrow> nat" where
  "ixmlNodeList_length nList = length nList"

text \<open>The comparison is with \<open>length - 1\<close> in \<open>unsigned long\<close>, the loop stops at the end of the list.\<close>

definition ixmlNodeList_item :: "addr list \<Rightarrow> nat \<Rightarrow> addr" where
  "ixmlNodeList_item nList index =
     (if nList = [] then NULL
      else if ixmlNodeList_length nList - 1 < index then NULL
      else if index < length nList then nList ! index else NULL)"

definition ixmlNodeList_free :: "addr list \<Rightarrow> addr list" where
  "ixmlNodeList_free nList = []"

partial_function (option) child_nodes_loop :: "dom_heap \<Rightarrow> addr \<Rightarrow> addr list \<Rightarrow> addr list option" where
  "child_nodes_loop d tempNode l =
     (if tempNode \<noteq> NULL then do {
        n \<leftarrow> fld d tempNode nextSibling;
        child_nodes_loop d n (snd (ixmlNodeList_addToNodeList l tempNode))
      } else Some l)"

definition ixmlNode_getChildNodes :: "dom_heap \<Rightarrow> addr \<Rightarrow> addr list option" where
  "ixmlNode_getChildNodes d nodeptr =
     (if nodeptr = NULL then Some []
      else do {
        c \<leftarrow> fld d nodeptr firstChild;
        child_nodes_loop d c ixmlNodeList_init
      })"

definition tag_matches :: "string \<Rightarrow> dom_heap \<Rightarrow> addr \<Rightarrow> bool option" where
  "tag_matches tag d n = do {
     name \<leftarrow> ixmlNode_getNodeName d n;
     or_else (str_eq (Some tag) name) (Some (tag = ''*''))
   }"

definition add_if_tag :: "string \<Rightarrow> dom_heap \<Rightarrow> addr \<Rightarrow> addr list \<Rightarrow> addr list option" where
  "add_if_tag tag d n l = do {
     t \<leftarrow> ixmlNode_getNodeType d n;
     if t = eELEMENT_NODE then do {
       m \<leftarrow> tag_matches tag d n;
       Some (if m then snd (ixmlNodeList_addToNodeList l n) else l)
     } else Some l
   }"

partial_function (option) ixmlNode_getElementsByTagNameRecursive ::
  "dom_heap \<Rightarrow> addr \<Rightarrow> string \<Rightarrow> addr list \<Rightarrow> addr list option" where
  "ixmlNode_getElementsByTagNameRecursive d n tag l =
     (if n \<noteq> NULL then do {
        l1 \<leftarrow> add_if_tag tag d n l;
        c \<leftarrow> ixmlNode_getFirstChild d n;
        l2 \<leftarrow> ixmlNode_getElementsByTagNameRecursive d c tag l1;
        s \<leftarrow> ixmlNode_getNextSibling d n;
        ixmlNode_getElementsByTagNameRecursive d s tag l2
      } else Some l)"

definition ixmlNode_getElementsByTagName ::
  "dom_heap \<Rightarrow> addr \<Rightarrow> string \<Rightarrow> addr list \<Rightarrow> addr list option" where
  "ixmlNode_getElementsByTagName d n tag l = do {
     l1 \<leftarrow> add_if_tag tag d n l;
     c \<leftarrow> ixmlNode_getFirstChild d n;
     ixmlNode_getElementsByTagNameRecursive d c tag l1
   }"

definition add_if_tag_ns :: "string \<Rightarrow> string \<Rightarrow> dom_heap \<Rightarrow> addr \<Rightarrow> addr list \<Rightarrow> addr list option" where
  "add_if_tag_ns ns lname d n l = do {
     t \<leftarrow> ixmlNode_getNodeType d n;
     if t = eELEMENT_NODE then do {
       name \<leftarrow> ixmlNode_getLocalName d n;
       nsURI \<leftarrow> ixmlNode_getNamespaceURI d n;
       Some (case (name, nsURI) of
           (Some nm, Some u) \<Rightarrow>
             if (ns = u \<or> ns = ''*'') \<and> (nm = lname \<or> lname = ''*'')
             then snd (ixmlNodeList_addToNodeList l n) else l
         | _ \<Rightarrow> l)
     } else Some l
   }"

partial_function (option) ixmlNode_getElementsByTagNameNSRecursive ::
  "dom_heap \<Rightarrow> addr \<Rightarrow> string \<Rightarrow> string \<Rightarrow> addr list \<Rightarrow> addr list option" where
  "ixmlNode_getElementsByTagNameNSRecursive d n ns lname l =
     (if n \<noteq> NULL then do {
        l1 \<leftarrow> add_if_tag_ns ns lname d n l;
        c \<leftarrow> ixmlNode_getFirstChild d n;
        l2 \<leftarrow> ixmlNode_getElementsByTagNameNSRecursive d c ns lname l1;
        s \<leftarrow> ixmlNode_getNextSibling d n;
        ixmlNode_getElementsByTagNameNSRecursive d s ns lname l2
      } else Some l)"

definition ixmlNode_getElementsByTagNameNS ::
  "dom_heap \<Rightarrow> addr \<Rightarrow> string \<Rightarrow> string \<Rightarrow> addr list \<Rightarrow> addr list option" where
  "ixmlNode_getElementsByTagNameNS d n ns lname l = do {
     l1 \<leftarrow> add_if_tag_ns ns lname d n l;
     c \<leftarrow> ixmlNode_getFirstChild d n;
     ixmlNode_getElementsByTagNameNSRecursive d c ns lname l1
   }"

end
