(* ===== verification/Ixml_Tree.thy ===== *)
theory Ixml_Tree
  imports Ixml_Node "HOL-Library.Multiset"
begin

text \<open>
  The trees that the pointers of \<^verbatim>\<open>node.c\<close> form, and what the operations do to them: every operation
  on children is proved to act on the ordered tree as its contract says.
\<close>

section \<open>Trees of nodes\<close>

datatype tree = Tree (root: addr) (kids: "tree list")

type_synonym node_map = "addr \<Rightarrow> IXML_Node option"

fun addrs :: "tree list \<Rightarrow> addr list" where
  "addrs [] = []"
| "addrs (Tree a ks # ts) = a # addrs ks @ addrs ts"

definition last_root :: "addr \<Rightarrow> tree list \<Rightarrow> addr" where
  "last_root prev ts = (if ts = [] then prev else root (last ts))"

text \<open>
  \<open>seg h par prev q ts e\<close>: from \<open>q\<close>, the siblings \<open>ts\<close> with everything below them, up to the pointer
  \<open>e\<close>; their parent is \<open>par\<close> and the sibling in front is \<open>prev\<close>.
\<close>

fun seg :: "node_map \<Rightarrow> addr \<Rightarrow> addr \<Rightarrow> addr \<Rightarrow> tree list \<Rightarrow> addr \<Rightarrow> bool" where
  "seg h par prev q [] e \<longleftrightarrow> q = e"
| "seg h par prev q (Tree a ks # ts) e \<longleftrightarrow>
     q = a \<and> a \<noteq> NULL \<and>
     (case h a of None \<Rightarrow> False
      | Some n \<Rightarrow> parentNode n = par \<and> prevSibling n = prev \<and> seg h a NULL (firstChild n) ks NULL \<and>
          seg h par a (nextSibling n) ts e)"

lemma addrs_append [simp]: "addrs (xs @ ys) = addrs xs @ addrs ys"
  by (induction xs rule: addrs.induct) auto

lemma last_root_simps [simp]:
  "last_root prev [] = prev" "last_root prev (Tree a ks # ts) = last_root a ts" "last_root prev (xs @ [t]) = root t"
  by (auto simp: last_root_def)

lemma seg_append: "seg h par prev q (xs @ ys) e \<longleftrightarrow> (\<exists>m. seg h par prev q xs m \<and> seg h par (last_root prev xs) m ys e)"
proof (induction xs arbitrary: prev q)
  case (Cons t xs)
  then show ?case by (cases t) (auto split: option.splits)
qed simp

lemma seg_snoc:
  "seg h par prev q (xs @ [Tree a ks]) e \<longleftrightarrow>
     seg h par prev q xs a \<and> a \<noteq> NULL \<and>
     (\<exists>n. h a = Some n \<and> parentNode n = par \<and> prevSibling n = last_root prev xs \<and>
        seg h a NULL (firstChild n) ks NULL \<and> nextSibling n = e)"
  by (auto simp: seg_append split: option.splits)

lemma seg_frame: "seg h par prev q ts e \<Longrightarrow> \<forall>a\<in>set (addrs ts). h' a = h a \<Longrightarrow> seg h' par prev q ts e"
  by (induction h par prev q ts e rule: seg.induct) (auto split: option.splits)

lemma seg_dom: "seg h par prev q ts e \<Longrightarrow> a \<in> set (addrs ts) \<Longrightarrow> a \<noteq> NULL \<and> h a \<noteq> None"
  by (induction h par prev q ts e rule: seg.induct) (auto split: option.splits)

lemma seg_start: "seg h par prev q ts NULL \<Longrightarrow> q = (case ts of [] \<Rightarrow> NULL | t # _ \<Rightarrow> root t)"
  by (cases ts rule: addrs.cases) auto

lemma seg_parent: "seg h par prev q ts e \<Longrightarrow> t \<in> set ts \<Longrightarrow> \<exists>n. h (root t) = Some n \<and> parentNode n = par"
proof (induction ts arbitrary: prev q)
  case (Cons u ts)
  then show ?case by (cases u) (auto split: option.splits)
qed simp

lemma root_in_addrs: "t \<in> set ts \<Longrightarrow> root t \<in> set (addrs ts)"
  by (induction ts rule: addrs.induct) auto

section \<open>A node of a tree and its children\<close>

fun kids_of :: "addr \<Rightarrow> tree list \<Rightarrow> tree list" where
  "kids_of p [] = []"
| "kids_of p (Tree a ks # ts) =
     (if a = p then ks else if p \<in> set (addrs ks) then kids_of p ks else kids_of p ts)"

fun upd_kids :: "addr \<Rightarrow> (tree list \<Rightarrow> tree list) \<Rightarrow> tree list \<Rightarrow> tree list" where
  "upd_kids p f [] = []"
| "upd_kids p f (Tree a ks # ts) =
     Tree a (if a = p then f ks else upd_kids p f ks) # upd_kids p f ts"

lemma upd_kids_absent [simp]: "p \<notin> set (addrs ts) \<Longrightarrow> upd_kids p f ts = ts"
  by (induction ts rule: addrs.induct) auto

lemma kids_of_absent [simp]: "p \<notin> set (addrs ts) \<Longrightarrow> kids_of p ts = []"
  by (induction ts rule: addrs.induct) auto

lemma kids_of_seg:
  "seg h par prev q ts e \<Longrightarrow> p \<in> set (addrs ts) \<Longrightarrow>
   \<exists>n. h p = Some n \<and> seg h p NULL (firstChild n) (kids_of p ts) NULL"
  by (induction h par prev q ts e rule: seg.induct) (auto split: option.splits)

lemma kids_of_subset: "set (addrs (kids_of p ts)) \<subseteq> set (addrs ts)"
  by (induction ts rule: addrs.induct) auto

lemma kids_of_not_self: "distinct (addrs ts) \<Longrightarrow> p \<notin> set (addrs (kids_of p ts))"
  by (induction ts rule: addrs.induct) auto

lemma kids_of_distinct: "distinct (addrs ts) \<Longrightarrow> distinct (addrs (kids_of p ts))"
  by (induction ts rule: addrs.induct) auto

text \<open>
  Changing the children of one node: when the heap is the same at the nodes outside its subtree, keeps the
  node's own links to its parent and siblings, and has the new children below it, it holds the new tree.
\<close>

lemma seg_upd_kids:
  assumes "seg h par prev q ts e" "distinct (addrs ts)" "p \<in> set (addrs ts)"
    and "\<And>a. a \<in> set (addrs ts) \<Longrightarrow> a \<noteq> p \<Longrightarrow> a \<notin> set (addrs (kids_of p ts)) \<Longrightarrow> h' a = h a"
    and "h p = Some n" "h' p = Some n'" "parentNode n' = parentNode n" "prevSibling n' = prevSibling n"
      "nextSibling n' = nextSibling n"
    and "seg h' p NULL (firstChild n') (f (kids_of p ts)) NULL"
  shows "seg h' par prev q (upd_kids p f ts) e"
  using assms
proof (induction h par prev q ts e rule: seg.induct)
  case (2 h par prev q a ks ts e)
  obtain m where m: "h a = Some m" "parentNode m = par" "prevSibling m = prev"
    "seg h a NULL (firstChild m) ks NULL" "seg h par a (nextSibling m) ts e" "q = a" "a \<noteq> NULL"
    using "2.prems"(1) by (auto split: option.splits)
  consider (here) "a = p" | (below) "a \<noteq> p" "p \<in> set (addrs ks)" | (right) "a \<noteq> p" "p \<notin> set (addrs ks)" "p \<in> set (addrs ts)"
    using "2.prems"(3) by auto
  then show ?case
  proof cases
    case here
    have "seg h' par a (nextSibling m) ts e"
      using m(5) by (rule seg_frame) (use "2.prems"(2,4) here in auto)
    then show ?thesis using here m "2.prems" by auto
  next
    case below
    have "h' a = h a" using "2.prems"(2,4) below kids_of_subset [of p ks] by auto
    moreover have "seg h' par a (nextSibling m) ts e"
      using m(5) by (rule seg_frame) (use "2.prems"(2,4) below kids_of_subset [of p ks] in auto)
    moreover have "seg h' a NULL (firstChild m) (upd_kids p f ks) NULL"
      using below m "2.prems" by (intro "2.IH"(1) [of m]) auto
    moreover have "p \<notin> set (addrs ts)" using "2.prems"(2) below by auto
    ultimately show ?thesis using below m by simp
  next
    case right
    have "h' a = h a" using "2.prems"(2,4) right kids_of_subset [of p ts] by auto
    moreover have "seg h' a NULL (firstChild m) ks NULL"
      using m(4) by (rule seg_frame) (use "2.prems"(2,4) right kids_of_subset [of p ts] in auto)
    moreover have "seg h' par a (nextSibling m) (upd_kids p f ts) e"
      using right m "2.prems" by (intro "2.IH"(2) [of m]) auto
    ultimately show ?thesis using right m by simp
  qed
qed simp

section \<open>Siblings\<close>

lemma fld_Some [simp]: "nodes d p = Some n \<Longrightarrow> fld d p f = Some (f n)"
  by (simp add: fld_def)

lemma upd_Some [simp]: "nodes d p = Some n \<Longrightarrow> upd d p f = Some (d\<lparr>nodes := (nodes d)(p \<mapsto> f n)\<rparr>)"
  by (simp add: upd_def)

lemma last_sibling_seg:
  "seg h par prev q ts NULL \<Longrightarrow> h = nodes d \<Longrightarrow> last_sibling d pv q = Some (last_root pv ts)"
proof (induction ts arbitrary: prev pv q)
  case Nil
  then show ?case by (subst last_sibling.simps) simp
next
  case (Cons t ts)
  then show ?case by (cases t) (subst last_sibling.simps, auto split: option.splits)
qed

lemma last_treeE:
  assumes "ts \<noteq> []"
  obtains xs ks where "ts = xs @ [Tree (root (last ts)) ks]"
  using assms by (metis append_butlast_last_id tree.collapse)

lemma seg_last:
  assumes "seg h par prev q ts e" "ts \<noteq> []"
  obtains n where "h (root (last ts)) = Some n" "nextSibling n = e" "root (last ts) \<in> set (addrs ts)"
    "root (last ts) \<noteq> NULL"
proof -
  obtain xs ks where ts: "ts = xs @ [Tree (root (last ts)) ks]" using assms(2) by (rule last_treeE)
  obtain a where a: "a = root (last ts)" by simp
  have ts': "ts = xs @ [Tree a ks]" using ts a by simp
  show thesis using that assms(1) unfolding a [symmetric] ts' by (auto simp: seg_snoc)
qed

lemma seg_set_end:
  assumes "seg h par prev q ts e" "ts \<noteq> []" "distinct (addrs ts)" "h (root (last ts)) = Some n"
  shows "seg (h(root (last ts) \<mapsto> n\<lparr>nextSibling := e'\<rparr>)) par prev q ts e'"
proof -
  obtain xs ks where ts: "ts = xs @ [Tree (root (last ts)) ks]" using assms(2) by (rule last_treeE)
  obtain a where a: "a = root (last ts)" by simp
  have ts': "ts = xs @ [Tree a ks]" using ts a by simp
  let ?h = "h(a \<mapsto> n\<lparr>nextSibling := e'\<rparr>)"
  have n: "h a = Some n" using assms(4) a by simp
  have s: "seg h par prev q xs a" "a \<noteq> NULL" "parentNode n = par" "prevSibling n = last_root prev xs"
    "seg h a NULL (firstChild n) ks NULL" using assms(1) n unfolding ts' by (auto simp: seg_snoc)
  have "seg ?h par prev q xs a" using s(1) by (rule seg_frame) (use assms(3) ts' in auto)
  moreover have "seg ?h a NULL (firstChild n) ks NULL" using s(5) by (rule seg_frame) (use assms(3) ts' in auto)
  ultimately have "seg ?h par prev q (xs @ [Tree a ks]) e'" using s by (auto simp: seg_snoc)
  then show ?thesis using ts' a by metis
qed

text \<open>A subtree whose root gets other neighbours.\<close>

lemma seg_set_root:
  assumes "seg h par prev a (Tree a ks # ts) e" "distinct (addrs (Tree a ks # ts))" "h a = Some n"
    "firstChild n' = firstChild n" "nextSibling n' = nextSibling n"
  shows "seg (h(a \<mapsto> n')) (parentNode n') (prevSibling n') a (Tree a ks # ts) e \<longleftrightarrow>
    seg (h(a \<mapsto> n')) (parentNode n') a (nextSibling n) ts e"
proof -
  have "seg h a NULL (firstChild n) ks NULL" using assms(1,3) by simp
  then have "seg (h(a \<mapsto> n')) a NULL (firstChild n) ks NULL"
    by (rule seg_frame) (use assms(2) in auto)
  then show ?thesis using assms by auto
qed

section \<open>Looking for an ancestor\<close>

text \<open>
  \<open>ixmlNode_isAncestor\<close> tells whether the parent of \<open>toFind\<close> is in the subtree of the given node or in
  those of the siblings behind it.
\<close>

lemma isAncestor_seg:
  "seg h par prev q ts e \<Longrightarrow> e = NULL \<Longrightarrow> h = nodes d \<Longrightarrow> nodes d f = Some nf \<Longrightarrow> f \<noteq> NULL \<Longrightarrow>
   ixmlNode_isAncestor d q f = Some (parentNode nf \<in> set (addrs ts))"
proof (induction h par prev q ts e rule: seg.induct)
  case (1 h par prev q e)
  then show ?case by (subst ixmlNode_isAncestor.simps) simp
next
  case (2 h par prev q a ks ts e)
  then show ?case by (subst ixmlNode_isAncestor.simps) (auto split: option.splits)
qed

lemma parent_in_seg:
  "seg h par prev q ts e \<Longrightarrow> p \<in> set (addrs ts) \<Longrightarrow> h p = Some n \<Longrightarrow> parentNode n \<in> insert par (set (addrs ts))"
  by (induction h par prev q ts e rule: seg.induct) (auto split: option.splits)

section \<open>Appending, inserting and removing a child\<close>

text \<open>What the operations on children leave alone: everything but the links and the owner document.\<close>

definition payload :: "IXML_Node \<Rightarrow> IXML_Node" where
  "payload n = n\<lparr>parentNode := NULL, firstChild := NULL, prevSibling := NULL, nextSibling := NULL,
     ownerDocument := NULL\<rparr>"

definition same_payload :: "dom_heap \<Rightarrow> dom_heap \<Rightarrow> bool" where
  "same_payload d d' \<longleftrightarrow> (\<forall>a. map_option payload (nodes d' a) = map_option payload (nodes d a))"

lemma payload_upd [simp]:
  "payload (n\<lparr>parentNode := a\<rparr>) = payload n" "payload (n\<lparr>firstChild := a\<rparr>) = payload n"
  "payload (n\<lparr>prevSibling := a\<rparr>) = payload n" "payload (n\<lparr>nextSibling := a\<rparr>) = payload n"
  "payload (n\<lparr>ownerDocument := a\<rparr>) = payload n"
  by (simp_all add: payload_def)

lemma same_payload_refl [simp]: "same_payload d d"
  by (simp add: same_payload_def)

lemma same_payload_trans: "same_payload d d1 \<Longrightarrow> same_payload d1 d2 \<Longrightarrow> same_payload d d2"
  by (simp add: same_payload_def)

lemma same_payload_upd:
  "nodes d1 p = Some n \<Longrightarrow> payload (f n) = payload n \<Longrightarrow> same_payload d d1 \<Longrightarrow>
   same_payload d (d1\<lparr>nodes := (nodes d1)(p \<mapsto> f n)\<rparr>)"
  by (auto simp: same_payload_def) (metis option.map(2))

lemma append_link:
  assumes "seg h p NULL fc ks NULL" "seg h NULL NULL c [Tree c cks] NULL"
    "distinct (addrs (Tree c cks # ks))" "h c = Some nc" "ks \<noteq> []" "h (root (last ks)) = Some nl"
    "parentNode nc' = p" "prevSibling nc' = root (last ks)" "firstChild nc' = firstChild nc"
    "nextSibling nc' = nextSibling nc"
  shows "seg (h(root (last ks) \<mapsto> nl\<lparr>nextSibling := c\<rparr>, c \<mapsto> nc')) p NULL fc (ks @ [Tree c cks]) NULL"
proof -
  let ?l = "root (last ks)"
  let ?h = "h(?l \<mapsto> nl\<lparr>nextSibling := c\<rparr>, c \<mapsto> nc')"
  obtain n where "?l \<in> set (addrs ks)" using seg_last [OF assms(1,5)] by metis
  then have lc: "?l \<noteq> c" "?l \<notin> set (addrs cks)" using assms(3) by auto
  have "seg (h(?l \<mapsto> nl\<lparr>nextSibling := c\<rparr>)) p NULL fc ks c"
    using assms by (intro seg_set_end [OF assms(1)]) auto
  then have "seg ?h p NULL fc ks c" by (rule seg_frame) (use assms(3) in auto)
  moreover have "seg h c NULL (firstChild nc) cks NULL" "nextSibling nc = NULL" "c \<noteq> NULL"
    using assms(2,4) by auto
  then have "seg ?h c NULL (firstChild nc) cks NULL"
    by (elim seg_frame) (use assms(3) lc in auto)
  ultimately show ?thesis
    using assms \<open>nextSibling nc = NULL\<close> \<open>c \<noteq> NULL\<close>
    by (auto simp: seg_snoc last_root_def)
qed

lemma appendChild_tree:
  assumes tr: "seg (nodes d) NULL NULL q ts NULL" and p: "p \<in> set (addrs ts)"
    and new: "seg (nodes d) NULL NULL c [Tree c ks] NULL" and dist: "distinct (addrs (Tree c ks # ts))"
    and np: "nodes d p = Some np" and nc: "nodes d c = Some nc"
    and doc: "ownerDocument nc = NULL \<or> ownerDocument nc = ownerDocument np"
    and ty: "allow_type (nodeType np) (nodeType nc)"
  shows "\<exists>d'. ixmlNode_appendChild d p c = Some (IXML_SUCCESS, d') \<and>
    seg (nodes d') NULL NULL q (upd_kids p (\<lambda>l. l @ [Tree c ks]) ts) NULL \<and> same_payload d d' \<and>
    brk d' = brk d \<and> (\<forall>a. a \<notin> set (addrs (Tree c ks # ts)) \<longrightarrow> nodes d' a = nodes d a)"
proof -
  let ?k = "kids_of p ts"
  have nz: "p \<noteq> NULL" "c \<noteq> NULL" using seg_dom [OF tr p] new by auto
  have pc: "p \<noteq> c" "p \<notin> set (addrs ks)" "c \<notin> set (addrs ?k)" using p dist kids_of_subset [of p ts] by auto
  have par: "parentNode nc = NULL" using new nc by simp
  have "parentNode np \<notin> set (addrs [Tree c ks])"
  proof
    assume bad: "parentNode np \<in> set (addrs [Tree c ks])"
    have "parentNode np \<in> insert NULL (set (addrs ts))" using parent_in_seg [OF tr p np] .
    then show False using bad seg_dom [OF new bad] dist by auto
  qed
  then have anc: "ixmlNode_isAncestor d c p = Some False"
    using isAncestor_seg [OF new refl refl np nz(1)] by simp
  let ?nc = "nc\<lparr>parentNode := p, ownerDocument := ownerDocument np\<rparr>"
  let ?d2 = "d\<lparr>nodes := (nodes d)(c \<mapsto> ?nc)\<rparr>"
  have kseg: "seg (nodes d) p NULL (firstChild np) ?k NULL" using kids_of_seg [OF tr p] np by auto
  then have kseg2: "seg (nodes ?d2) p NULL (firstChild np) ?k NULL"
    by (rule seg_frame) (use pc in auto)
  have pre: "ixmlNode_appendChild d p c = do {
      d3 \<leftarrow> (if firstChild np = NULL then upd ?d2 p (firstChild_update (\<lambda>_. c))
              else do { nx \<leftarrow> fld ?d2 (firstChild np) nextSibling; prev \<leftarrow> last_sibling ?d2 (firstChild np) nx;
                        d' \<leftarrow> upd ?d2 prev (nextSibling_update (\<lambda>_. c)); upd d' c (prevSibling_update (\<lambda>_. prev)) });
      Some (IXML_SUCCESS, d3) }"
    using nz np nc ty anc par pc doc
    by (elim disjE) (simp_all add: ixmlNode_appendChild_def ixmlNode_allowChildren_def ixmlNode_isParent_def)
  have sp: "same_payload d ?d2" by (rule same_payload_upd) (use nc in auto)
  show ?thesis
  proof (cases "?k = []")
    case True
    then have fc: "firstChild np = NULL" using kseg by simp
    let ?d3 = "?d2\<lparr>nodes := (nodes ?d2)(p \<mapsto> np\<lparr>firstChild := c\<rparr>)\<rparr>"
    have "seg (nodes ?d3) p NULL c [Tree c ks] NULL"
      using new nc pc dist by (auto intro!: seg_frame [of "nodes d" c])
    then have "seg (nodes ?d3) NULL NULL q (upd_kids p (\<lambda>l. l @ [Tree c ks]) ts) NULL"
      using dist pc True
      by (intro seg_upd_kids [where n' = "np\<lparr>firstChild := c\<rparr>", OF tr _ p _ np]) auto
    moreover have "same_payload d ?d3" by (rule same_payload_upd [OF _ _ sp]) (use np pc in auto)
    moreover have "ixmlNode_appendChild d p c = Some (IXML_SUCCESS, ?d3)"
      unfolding pre using fc np pc by simp
    ultimately show ?thesis using p by auto
  next
    case False
    let ?l = "root (last ?k)"
    obtain nl where nl: "nodes d ?l = Some nl" "nextSibling nl = NULL" "?l \<in> set (addrs ?k)"
      using seg_last [OF kseg False] by metis
    have lpc: "?l \<noteq> p" "?l \<noteq> c" "?l \<in> set (addrs ts)"
      using nl(3) pc kids_of_not_self [of ts p] dist kids_of_subset [of p ts] by auto
    obtain t rest where k: "?k = t # rest" using False by (cases ?k) auto
    then have fc: "firstChild np = root t" "firstChild np \<noteq> NULL" using kseg by (cases t, simp)+
    have ls: "last_sibling ?d2 NULL (firstChild np) = Some ?l"
      using last_sibling_seg [OF kseg2 refl] False by (simp add: last_root_def)
    then have ls': "\<exists>nx. fld ?d2 (firstChild np) nextSibling = Some nx \<and> last_sibling ?d2 (firstChild np) nx = Some ?l"
      using fc(2) by (subst (asm) last_sibling.simps) (auto split: bind_splits)
    let ?d3 = "d\<lparr>nodes := (nodes d)(?l \<mapsto> nl\<lparr>nextSibling := c\<rparr>, c \<mapsto> ?nc\<lparr>prevSibling := ?l\<rparr>)\<rparr>"
    have "(nodes d)(c \<mapsto> ?nc, ?l \<mapsto> nl\<lparr>nextSibling := c\<rparr>, c \<mapsto> ?nc\<lparr>prevSibling := ?l\<rparr>) =
          (nodes d)(?l \<mapsto> nl\<lparr>nextSibling := c\<rparr>, c \<mapsto> ?nc\<lparr>prevSibling := ?l\<rparr>)" by (auto simp: fun_eq_iff)
    then have run: "ixmlNode_appendChild d p c = Some (IXML_SUCCESS, ?d3)"
      unfolding pre using fc ls' nl lpc by auto
    have "seg ((nodes d)(?l \<mapsto> nl\<lparr>nextSibling := c\<rparr>, c \<mapsto> ?nc\<lparr>prevSibling := ?l\<rparr>)) p NULL
        (firstChild np) (?k @ [Tree c ks]) NULL"
      by (rule append_link [OF kseg new _ nc False nl(1)])
        (use dist pc kids_of_distinct [of ts p] kids_of_subset [of p ts] in auto)
    then have "seg (nodes ?d3) NULL NULL q (upd_kids p (\<lambda>l. l @ [Tree c ks]) ts) NULL"
      using dist pc lpc np nl
      by (intro seg_upd_kids [where n' = np, OF tr _ p _ np]) auto
    moreover have "same_payload d ?d3"
      using nl nc lpc by (auto simp: same_payload_def)
    ultimately show ?thesis using run lpc by auto
  qed
qed

lemma seg_set_first:
  assumes "seg h par prev q (Tree b bk # ts) e" "distinct (addrs (Tree b bk # ts))" "h b = Some nb"
  shows "seg (h(b \<mapsto> nb\<lparr>prevSibling := x\<rparr>)) par x q (Tree b bk # ts) e"
proof -
  have "seg h par b (nextSibling nb) ts e" "parentNode nb = par" "q = b" using assms(1,3) by auto
  then have "seg (h(b \<mapsto> nb\<lparr>prevSibling := x\<rparr>)) par b (nextSibling nb) ts e"
    by (elim seg_frame) (use assms(2) in auto)
  then show ?thesis
    using seg_set_root [of h par prev b bk ts e nb "nb\<lparr>prevSibling := x\<rparr>"] assms \<open>parentNode nb = par\<close> \<open>q = b\<close>
    by simp
qed

text \<open>The heap after the pointers around a child are set: the end of the siblings in front of it, and the
  back pointer of those behind it.\<close>

definition set_after :: "tree list \<Rightarrow> addr \<Rightarrow> node_map \<Rightarrow> node_map" where
  "set_after k x h =
     (if k = [] then h else h(root (last k) := map_option (nextSibling_update (\<lambda>_. x)) (h (root (last k)))))"

definition set_before :: "tree list \<Rightarrow> addr \<Rightarrow> node_map \<Rightarrow> node_map" where
  "set_before k x h =
     (if k = [] then h else h(root (hd k) := map_option (prevSibling_update (\<lambda>_. x)) (h (root (hd k)))))"

lemma seg_set_after:
  assumes "seg h par prev q k e" "distinct (addrs k)"
  shows "seg (set_after k x h) par prev (if k = [] then x else q) k x"
proof (cases "k = []")
  case False
  then obtain n where n: "h (root (last k)) = Some n" using seg_last [OF assms(1)] by metis
  then show ?thesis using seg_set_end [OF assms(1) False assms(2) n] False by (simp add: set_after_def)
qed simp

lemma seg_set_before:
  assumes "seg h par prev q k e" "distinct (addrs k)"
  shows "seg (set_before k x h) par x q k e"
proof (cases k)
  case (Cons t ts)
  obtain b bk where t: "t = Tree b bk" by (cases t)
  obtain n where n: "h b = Some n" using assms(1) Cons t by (auto split: option.splits)
  then show ?thesis
    using seg_set_first [of h par prev q b bk ts e n x] assms Cons t by (simp add: set_before_def)
qed (use assms in \<open>simp add: set_before_def\<close>)

lemma set_after_other [simp]: "a \<notin> set (addrs k) \<Longrightarrow> set_after k x h a = h a"
  by (cases "k = []") (auto simp: set_after_def root_in_addrs)

lemma set_before_other [simp]: "a \<notin> set (addrs k) \<Longrightarrow> set_before k x h a = h a"
  by (cases k) (auto simp: set_before_def root_in_addrs)

lemma set_after_cong: "h a = h' a \<Longrightarrow> (k \<noteq> [] \<Longrightarrow> h (root (last k)) = h' (root (last k))) \<Longrightarrow> set_after k x h a = set_after k x h' a"
  by (auto simp: set_after_def)

lemma set_before_cong: "h a = h' a \<Longrightarrow> (k \<noteq> [] \<Longrightarrow> h (root (hd k)) = h' (root (hd k))) \<Longrightarrow> set_before k x h a = set_before k x h' a"
  by (auto simp: set_before_def)

lemma payload_set_after: "map_option payload (set_after k x h a) = map_option payload (h a)"
  by (cases "h a") (auto simp: set_after_def)

lemma payload_set_before: "map_option payload (set_before k x h a) = map_option payload (h a)"
  by (cases "h a") (auto simp: set_before_def)

text \<open>The siblings around a child, with the child unlinked.\<close>

lemma seg_unlink:
  assumes "seg h p NULL fc (k1 @ Tree c ks # k2) NULL" "distinct (addrs (k1 @ Tree c ks # k2))" "h c = Some n"
  shows "seg (set_before k2 (prevSibling n) (set_after k1 (nextSibling n) h)) p NULL
    (if k1 = [] then nextSibling n else fc) (k1 @ k2) NULL"
proof -
  let ?x = "nextSibling n"
  let ?h = "set_before k2 (prevSibling n) (set_after k1 ?x h)"
  have 1: "seg h p NULL fc k1 c" "seg h p (last_root NULL k1) c (Tree c ks # k2) NULL"
    using assms(1) by (auto simp: seg_append split: option.splits)
  then have 2: "prevSibling n = last_root NULL k1" "seg h p c ?x k2 NULL" using assms(3) by auto
  have dj: "set (addrs k1) \<inter> set (addrs k2) = {}" using assms(2) by auto
  have "seg (set_after k1 ?x h) p NULL (if k1 = [] then ?x else fc) k1 ?x"
    using 1(1) by (rule seg_set_after) (use assms(2) in auto)
  then have "seg ?h p NULL (if k1 = [] then ?x else fc) k1 ?x"
    by (rule seg_frame) (use dj in \<open>blast intro: set_before_other\<close>)
  moreover have "seg (set_after k1 ?x h) p c ?x k2 NULL"
    using 2(2) by (rule seg_frame) (use dj in \<open>blast intro: set_after_other\<close>)
  then have "seg ?h p (prevSibling n) ?x k2 NULL"
    by (rule seg_set_before) (use assms(2) in auto)
  ultimately show ?thesis using 2(1) by (auto simp: seg_append)
qed

lemma removeChild_tree:
  assumes tr: "seg (nodes d) NULL NULL q ts NULL" and p: "p \<in> set (addrs ts)" and dist: "distinct (addrs ts)"
    and k: "kids_of p ts = k1 @ Tree c ks # k2"
  shows "\<exists>d'. ixmlNode_removeChild d p c True = Some (IXML_SUCCESS, d') \<and>
    seg (nodes d') NULL NULL q (upd_kids p (\<lambda>_. k1 @ k2) ts) NULL \<and> seg (nodes d') NULL NULL c [Tree c ks] NULL \<and>
    same_payload d d' \<and> brk d' = brk d \<and> (\<forall>a. a \<notin> set (addrs ts) \<longrightarrow> nodes d' a = nodes d a)"
proof -
  obtain np where np: "nodes d p = Some np" and kseg: "seg (nodes d) p NULL (firstChild np) (k1 @ Tree c ks # k2) NULL"
    using kids_of_seg [OF tr p] k by auto
  have kd: "distinct (addrs (k1 @ Tree c ks # k2))" "p \<notin> set (addrs (k1 @ Tree c ks # k2))"
    "set (addrs (k1 @ Tree c ks # k2)) \<subseteq> set (addrs ts)"
    using kids_of_distinct [OF dist, of p] kids_of_not_self [OF dist, of p] kids_of_subset [of p ts] k by auto
  obtain n where n: "nodes d c = Some n" "parentNode n = p" "prevSibling n = last_root NULL k1" "c \<noteq> NULL"
    and s: "seg (nodes d) c NULL (firstChild n) ks NULL" "seg (nodes d) p c (nextSibling n) k2 NULL"
    "seg (nodes d) p NULL (firstChild np) k1 c"
    using kseg by (auto simp: seg_append split: option.splits)
  have nx: "nextSibling n = (if k2 = [] then NULL else root (hd k2))"
    using seg_start [OF s(2)] by (cases k2) auto
  let ?np = "if k1 = [] then np\<lparr>firstChild := nextSibling n\<rparr> else np"
  let ?n = "n\<lparr>nextSibling := NULL, prevSibling := NULL, parentNode := NULL\<rparr>"
  let ?g = "set_before k2 (prevSibling n) (set_after k1 (nextSibling n) (nodes d))"
  let ?h = "?g(p \<mapsto> ?np, c \<mapsto> ?n)"
  have l: "\<exists>nl. nodes d (root (last k1)) = Some nl \<and> root (last k1) \<noteq> NULL \<and> root (last k1) \<in> set (addrs k1)" if "k1 \<noteq> []"
    using seg_last [OF s(3) that] by metis
  have b: "\<exists>nb. nodes d (root (hd k2)) = Some nb \<and> root (hd k2) \<noteq> NULL \<and> root (hd k2) \<in> set (addrs k2)" if "k2 \<noteq> []"
    using seg_dom [OF s(2)] root_in_addrs [of "hd k2" k2] that by fastforce
  have dj: "set (addrs k1) \<inter> set (addrs k2) = {}" "c \<notin> set (addrs k1)" "c \<notin> set (addrs k2)" "p \<noteq> c"
    "p \<notin> set (addrs k1)" "p \<notin> set (addrs k2)" using kd by auto
  have fc: "firstChild np = c \<longleftrightarrow> k1 = []"
    using seg_start [OF kseg] dj(2) root_in_addrs [of "hd k1" k1] by (cases k1) auto
  have nz: "p \<noteq> NULL" using seg_dom [OF tr p] by simp
  have run: "ixmlNode_removeChild d p c True = Some (IXML_SUCCESS, d\<lparr>nodes := ?h\<rparr>)"
  proof (cases "k1 = []"; cases "k2 = []")
    assume "k1 = []" "k2 = []"
    then show ?thesis using n nx np fc nz dj
      by (simp add: ixmlNode_removeChild_def ixmlNode_isParent_def set_before_def set_after_def)
  next
    assume k: "k1 = []" "k2 \<noteq> []"
    obtain nb where "nodes d (root (hd k2)) = Some nb" "root (hd k2) \<noteq> NULL" "root (hd k2) \<in> set (addrs k2)"
      using b k by blast
    moreover from this have "root (hd k2) \<noteq> p" "root (hd k2) \<noteq> c" using dj by auto
    ultimately show ?thesis using k n nx np fc nz dj
      by (simp add: ixmlNode_removeChild_def ixmlNode_isParent_def set_before_def set_after_def fun_upd_twist)
  next
    assume k: "k1 \<noteq> []" "k2 = []"
    obtain nl where "nodes d (root (last k1)) = Some nl" "root (last k1) \<noteq> NULL" "root (last k1) \<in> set (addrs k1)"
      using l k by blast
    moreover from this have "root (last k1) \<noteq> p" "root (last k1) \<noteq> c" using dj by auto
    ultimately have
      "ixmlNode_removeChild d p c True =
         Some (IXML_SUCCESS, d\<lparr>nodes := (nodes d)(root (last k1) \<mapsto> nl\<lparr>nextSibling := NULL\<rparr>, c \<mapsto> ?n)\<rparr>)"
      "(nodes d)(root (last k1) \<mapsto> nl\<lparr>nextSibling := NULL\<rparr>, c \<mapsto> ?n) = ?h"
      using k n nx np fc nz dj
      by (simp add: ixmlNode_removeChild_def ixmlNode_isParent_def last_root_def)
        (auto simp: fun_eq_iff set_before_def set_after_def k np nx \<open>nodes d (root (last k1)) = Some nl\<close>
          \<open>root (last k1) \<noteq> p\<close> [symmetric])
    then show ?thesis by simp
  next
    assume k: "k1 \<noteq> []" "k2 \<noteq> []"
    obtain nl where "nodes d (root (last k1)) = Some nl" "root (last k1) \<noteq> NULL" "root (last k1) \<in> set (addrs k1)"
      using l k by blast
    moreover from this have "root (last k1) \<noteq> p" "root (last k1) \<noteq> c" using dj by auto
    moreover obtain nb where "nodes d (root (hd k2)) = Some nb" "root (hd k2) \<noteq> NULL" "root (hd k2) \<in> set (addrs k2)"
      using b k by blast
    moreover from this have "root (hd k2) \<noteq> p" "root (hd k2) \<noteq> c" using dj by auto
    moreover have "root (hd k2) \<noteq> root (last k1)" using dj calculation by auto
    ultimately have
      "ixmlNode_removeChild d p c True =
         Some (IXML_SUCCESS, d\<lparr>nodes := (nodes d)(root (last k1) \<mapsto> nl\<lparr>nextSibling := nextSibling n\<rparr>,
           root (hd k2) \<mapsto> nb\<lparr>prevSibling := prevSibling n\<rparr>, c \<mapsto> ?n)\<rparr>)"
      "(nodes d)(root (last k1) \<mapsto> nl\<lparr>nextSibling := nextSibling n\<rparr>,
           root (hd k2) \<mapsto> nb\<lparr>prevSibling := prevSibling n\<rparr>, c \<mapsto> ?n) = ?h"
      using k n nx np fc nz dj
      by (simp add: ixmlNode_removeChild_def ixmlNode_isParent_def last_root_def)
        (auto simp: fun_eq_iff set_before_def set_after_def k np nx \<open>nodes d (root (last k1)) = Some nl\<close>
          \<open>nodes d (root (hd k2)) = Some nb\<close> \<open>root (last k1) \<noteq> p\<close> [symmetric] \<open>root (hd k2) \<noteq> p\<close> [symmetric]
          \<open>root (hd k2) \<noteq> root (last k1)\<close>)
    then show ?thesis by simp
  qed
  have "seg ?g p NULL (if k1 = [] then nextSibling n else firstChild np) (k1 @ k2) NULL"
    by (rule seg_unlink [OF kseg kd(1) n(1)])
  then have "seg ?g p NULL (firstChild ?np) (k1 @ k2) NULL" by (simp split: if_splits)
  then have "seg ?h p NULL (firstChild ?np) (k1 @ k2) NULL"
    by (rule seg_frame) (use dj in auto)
  then have "seg ?h NULL NULL q (upd_kids p (\<lambda>_. k1 @ k2) ts) NULL"
    using dist k dj by (intro seg_upd_kids [where n' = ?np, OF tr _ p _ np]) auto
  moreover have g: "?h a = nodes d a" if "a \<notin> set (addrs k1)" "a \<notin> set (addrs k2)" "a \<noteq> p" "a \<noteq> c" for a
    using that by simp
  have dks: "a \<notin> set (addrs k1) \<and> a \<notin> set (addrs k2) \<and> a \<noteq> p \<and> a \<noteq> c" if "a \<in> set (addrs ks)" for a
    using that kd by auto
  have "seg ?h c NULL (firstChild n) ks NULL"
    using s(1) by (rule seg_frame) (use dks g in blast)
  then have "seg ?h NULL NULL c [Tree c ks] NULL" using n(4) by simp
  moreover have "same_payload d (d\<lparr>nodes := ?h\<rparr>)"
    using n np by (auto simp: same_payload_def payload_set_after payload_set_before)
  moreover have "nodes (d\<lparr>nodes := ?h\<rparr>) a = nodes d a" if "a \<notin> set (addrs ts)" for a
  proof -
    have "a \<notin> set (addrs k1)" "a \<notin> set (addrs k2)" "a \<noteq> p" "a \<noteq> c" using that kd(3) p by auto
    then show ?thesis using g by simp
  qed
  ultimately show ?thesis using run by auto
qed


lemma seg_link_before:
  assumes s: "seg h p NULL fc (k1 @ Tree r rk # k2) NULL" and c: "seg h NULL NULL c [Tree c ks] NULL" "h c = Some nc"
    and dist: "distinct (addrs (Tree c ks # k1 @ Tree r rk # k2))"
    and nc': "parentNode nc' = p" "prevSibling nc' = last_root NULL k1" "nextSibling nc' = r" "firstChild nc' = firstChild nc"
  shows "seg ((set_before (Tree r rk # k2) c (set_after k1 c h))(c \<mapsto> nc')) p NULL (if k1 = [] then c else fc)
    (k1 @ Tree c ks # Tree r rk # k2) NULL"
proof -
  let ?g = "set_before (Tree r rk # k2) c (set_after k1 c h)"
  let ?h = "?g(c \<mapsto> nc')"
  have dj: "a \<notin> set (addrs (Tree r rk # k2)) \<and> a \<noteq> c" if "a \<in> set (addrs k1)" for a using that dist by auto
  have dk: "a \<notin> set (addrs (Tree r rk # k2)) \<and> a \<notin> set (addrs k1) \<and> a \<noteq> c" if "a \<in> set (addrs ks)" for a
    using that dist by auto
  have 1: "seg h p NULL fc k1 r" "seg h p (last_root NULL k1) r (Tree r rk # k2) NULL"
    using s by (auto simp: seg_append split: option.splits)
  have "seg (set_after k1 c h) p NULL (if k1 = [] then c else fc) k1 c"
    using 1(1) by (rule seg_set_after) (use dist in auto)
  then have a: "seg ?h p NULL (if k1 = [] then c else fc) k1 c"
    by (rule seg_frame) (use dj set_before_other in \<open>simp del: addrs.simps\<close>)
  have "seg (set_after k1 c h) p (last_root NULL k1) r (Tree r rk # k2) NULL"
    using 1(2) by (rule seg_frame) (use dj set_after_other in blast)
  then have "seg ?g p c r (Tree r rk # k2) NULL"
    by (rule seg_set_before) (use dist in auto)
  then have b: "seg ?h p c r (Tree r rk # k2) NULL"
    by (rule seg_frame) (use dist in auto)
  have "seg h c NULL (firstChild nc) ks NULL" "c \<noteq> NULL" using c by auto
  then have "seg ?h c NULL (firstChild nc) ks NULL"
    by (elim seg_frame) (use dk in \<open>simp del: addrs.simps\<close>)
  then show ?thesis using a b nc' \<open>c \<noteq> NULL\<close> by (auto simp: seg_append)
qed

lemma insertBefore_tree:
  assumes tr: "seg (nodes d) NULL NULL q ts NULL" and p: "p \<in> set (addrs ts)"
    and k: "kids_of p ts = k1 @ Tree r rk # k2"
    and new: "seg (nodes d) NULL NULL c [Tree c ks] NULL" and dist: "distinct (addrs (Tree c ks # ts))"
    and np: "nodes d p = Some np" and nc: "nodes d c = Some nc"
    and doc: "ownerDocument nc = ownerDocument np" and ty: "allow_type (nodeType np) (nodeType nc)"
  shows "\<exists>d'. ixmlNode_insertBefore d p c r = Some (IXML_SUCCESS, d') \<and>
    seg (nodes d') NULL NULL q (upd_kids p (\<lambda>_. k1 @ Tree c ks # Tree r rk # k2) ts) NULL \<and>
    same_payload d d' \<and> brk d' = brk d \<and> (\<forall>a. a \<notin> set (addrs (Tree c ks # ts)) \<longrightarrow> nodes d' a = nodes d a)"
proof -
  have dts: "distinct (addrs ts)" using dist by auto
  have kseg: "seg (nodes d) p NULL (firstChild np) (k1 @ Tree r rk # k2) NULL"
    using kids_of_seg [OF tr p] k np by auto
  have kd: "distinct (addrs (Tree c ks # k1 @ Tree r rk # k2))" "p \<notin> set (addrs (k1 @ Tree r rk # k2))"
    "set (addrs (k1 @ Tree r rk # k2)) \<subseteq> set (addrs ts)" "p \<noteq> c"
    using kids_of_distinct [OF dts, of p] kids_of_not_self [OF dts, of p] kids_of_subset [of p ts] k dist p by auto
  then have kseg1: "seg (nodes d) p NULL (firstChild np) k1 r"
    using kseg by (auto simp: seg_append)
  obtain nr where nr: "nodes d r = Some nr" "parentNode nr = p" "prevSibling nr = last_root NULL k1" "r \<noteq> NULL"
    using kseg by (auto simp: seg_append split: option.splits)
  have nz: "p \<noteq> NULL" "c \<noteq> NULL" using seg_dom [OF tr p] new by auto
  have ncs: "parentNode nc = NULL" "prevSibling nc = NULL" "nextSibling nc = NULL" using new nc by auto
  have "parentNode np \<notin> set (addrs [Tree c ks])"
  proof
    assume bad: "parentNode np \<in> set (addrs [Tree c ks])"
    have "parentNode np \<in> insert NULL (set (addrs ts))" using parent_in_seg [OF tr p np] .
    then show False using bad seg_dom [OF new bad] dist by auto
  qed
  then have anc: "ixmlNode_isAncestor d c p = Some False"
    using isAncestor_seg [OF new refl refl np nz(1)] by simp
  let ?np = "if k1 = [] then np\<lparr>firstChild := c\<rparr> else np"
  let ?nc = "nc\<lparr>parentNode := p, prevSibling := last_root NULL k1, nextSibling := r\<rparr>"
  let ?g = "set_before (Tree r rk # k2) c (set_after k1 c (nodes d))"
  let ?h = "?g(p \<mapsto> ?np, c \<mapsto> ?nc)"
  have rpc: "r \<noteq> p" "r \<noteq> c" using kd by auto
  have run: "ixmlNode_insertBefore d p c r = Some (IXML_SUCCESS, d\<lparr>nodes := ?h\<rparr>)"
  proof (cases "k1 = []")
    case True
    then have
      "ixmlNode_insertBefore d p c r = Some (IXML_SUCCESS,
         d\<lparr>nodes := (nodes d)(r \<mapsto> nr\<lparr>prevSibling := c\<rparr>, p \<mapsto> np\<lparr>firstChild := c\<rparr>,
           c \<mapsto> nc\<lparr>nextSibling := r, parentNode := p\<rparr>)\<rparr>)"
      using nr np nc doc ty anc nz ncs rpc kd(4)
      by (simp add: ixmlNode_insertBefore_def ixmlNode_isParent_def ixmlNode_allowChildren_def fun_upd_twist)
    moreover have "(nodes d)(r \<mapsto> nr\<lparr>prevSibling := c\<rparr>, p \<mapsto> np\<lparr>firstChild := c\<rparr>,
           c \<mapsto> nc\<lparr>nextSibling := r, parentNode := p\<rparr>) = ?h"
      using True ncs nr np nc by (auto simp: fun_eq_iff set_before_def set_after_def)
    ultimately show ?thesis by simp
  next
    case False
    obtain nl where nl: "nodes d (root (last k1)) = Some nl" "root (last k1) \<noteq> NULL" "root (last k1) \<in> set (addrs k1)"
      using kseg1 seg_last [OF _ False] by metis
    then have l: "root (last k1) \<noteq> p" "root (last k1) \<noteq> c" "root (last k1) \<noteq> r" using kd by auto
    then have
      "ixmlNode_insertBefore d p c r = Some (IXML_SUCCESS,
         d\<lparr>nodes := (nodes d)(root (last k1) \<mapsto> nl\<lparr>nextSibling := c\<rparr>, r \<mapsto> nr\<lparr>prevSibling := c\<rparr>,
           c \<mapsto> nc\<lparr>nextSibling := r, prevSibling := root (last k1), parentNode := p\<rparr>)\<rparr>)"
      using nr np nc doc ty anc nz ncs rpc kd(4) nl False
      by (simp add: ixmlNode_insertBefore_def ixmlNode_isParent_def ixmlNode_allowChildren_def fun_upd_twist last_root_def)
    moreover have "(nodes d)(root (last k1) \<mapsto> nl\<lparr>nextSibling := c\<rparr>, r \<mapsto> nr\<lparr>prevSibling := c\<rparr>,
           c \<mapsto> nc\<lparr>nextSibling := r, prevSibling := root (last k1), parentNode := p\<rparr>) = ?h"
      using False l ncs nr np nc nl rpc by (auto simp: fun_eq_iff set_before_def set_after_def last_root_def)
    ultimately show ?thesis by simp
  qed
  have sg: "seg (?g(c \<mapsto> ?nc)) p NULL (if k1 = [] then c else firstChild np) (k1 @ Tree c ks # Tree r rk # k2) NULL"
    by (rule seg_link_before [OF kseg new nc kd(1)]) auto
  have fcn: "(if k1 = [] then c else firstChild np) = firstChild ?np" by simp
  have "seg (?g(c \<mapsto> ?nc)) p NULL (firstChild ?np) (k1 @ Tree c ks # Tree r rk # k2) NULL" using sg unfolding fcn .
  then have "seg ?h p NULL (firstChild ?np) (k1 @ Tree c ks # Tree r rk # k2) NULL"
    by (rule seg_frame) (use kd dist p in auto)
  moreover have g: "?h a = nodes d a" if "a \<notin> set (addrs k1)" "a \<notin> set (addrs (Tree r rk # k2))" "a \<noteq> p" "a \<noteq> c" for a
    using that by (simp del: addrs.simps)
  moreover have "\<And>a. a \<in> set (addrs ts) \<Longrightarrow> a \<noteq> p \<Longrightarrow> a \<notin> set (addrs (kids_of p ts)) \<Longrightarrow> ?h a = nodes d a"
    using dist k by (intro g) auto
  ultimately have "seg ?h NULL NULL q (upd_kids p (\<lambda>_. k1 @ Tree c ks # Tree r rk # k2) ts) NULL"
    using dts kd(4) by (intro seg_upd_kids [where n' = ?np, OF tr _ p _ np]) auto
  moreover have "same_payload d (d\<lparr>nodes := ?h\<rparr>)"
    using nc np by (auto simp: same_payload_def payload_set_after payload_set_before)
  moreover have "nodes (d\<lparr>nodes := ?h\<rparr>) a = nodes d a" if "a \<notin> set (addrs (Tree c ks # ts))" for a
  proof -
    have "a \<notin> set (addrs k1)" "a \<notin> set (addrs (Tree r rk # k2))" "a \<noteq> p" "a \<noteq> c" using that kd(3) p by auto
    then show ?thesis using g by simp
  qed
  ultimately show ?thesis using run by auto
qed

section \<open>Freeing a tree\<close>

text \<open>The attributes of a node, chained from its \<open>firstAttr\<close>.\<close>

fun achain :: "node_map \<Rightarrow> addr \<Rightarrow> addr list \<Rightarrow> bool" where
  "achain h p [] \<longleftrightarrow> p = NULL"
| "achain h p (b # bs) \<longleftrightarrow> p = b \<and> b \<noteq> NULL \<and> (case h b of None \<Rightarrow> False | Some n \<Rightarrow> achain h (nextSibling n) bs)"

lemma achain_frame: "achain h p bs \<Longrightarrow> \<forall>b\<in>set bs. h' b = h b \<Longrightarrow> achain h' p bs"
  by (induction h p bs rule: achain.induct) (auto split: option.splits)

definition without :: "node_map \<Rightarrow> addr set \<Rightarrow> node_map" where
  "without h A = (\<lambda>a. if a \<in> A then None else h a)"

lemma free_attrs_chain:
  "achain (nodes d) p bs \<Longrightarrow> distinct bs \<Longrightarrow>
   free_attrs d p = Some (d\<lparr>nodes := without (nodes d) (set bs)\<rparr>)"
proof (induction bs arbitrary: p d)
  case Nil
  then show ?case by (subst free_attrs.simps) (simp add: without_def)
next
  case (Cons b bs)
  obtain n where n: "nodes d b = Some n" "achain (nodes d) (nextSibling n) bs" "p = b" "b \<noteq> NULL"
    using Cons.prems by (auto split: option.splits)
  let ?d = "d\<lparr>nodes := (nodes d)(b := None)\<rparr>"
  have "achain (nodes ?d) (nextSibling n) bs" using n(2) by (rule achain_frame) (use Cons.prems in auto)
  then have "free_attrs ?d (nextSibling n) = Some (?d\<lparr>nodes := without (nodes ?d) (set bs)\<rparr>)"
    by (rule Cons.IH) (use Cons.prems(2) in simp)
  moreover have "without (nodes ?d) (set bs) = without (nodes d) (set (b # bs))"
    by (auto simp: without_def fun_eq_iff)
  ultimately show ?case using n by (subst free_attrs.simps) (simp add: ixmlNode_freeSingleNode_def)
qed

lemma walk_down_seg:
  "seg h par prev q ts e \<Longrightarrow> e = NULL \<Longrightarrow> h = nodes d \<Longrightarrow> ts \<noteq> [] \<Longrightarrow>
   \<exists>p1 r par1 prev1. walk_down d pv q = Some p1 \<and> seg h par1 prev1 p1 (Tree p1 [] # r) NULL \<and>
     set (addrs (Tree p1 [] # r)) \<subseteq> set (addrs ts) \<and> length (addrs (Tree p1 [] # r)) \<le> length (addrs ts)"
proof (induction h par prev q ts e arbitrary: pv rule: seg.induct)
  case (2 h par prev q a ks ts e)
  obtain n where n: "nodes d a = Some n" "seg h a NULL (firstChild n) ks NULL" "q = a" "a \<noteq> NULL"
    using 2 by (auto split: option.splits)
  have step: "walk_down d pv q = walk_down d a (firstChild n)" using n by (subst walk_down.simps) simp
  show ?case
  proof (cases "ks = []")
    case True
    then have "walk_down d pv q = Some a" using n step by (simp add: walk_down.simps)
    then show ?thesis using 2 n True by (intro exI [of _ a] exI [of _ ts] exI [of _ par] exI [of _ prev]) simp
  next
    case False
    then show ?thesis using "2.IH"(1) [of n a] n 2 step by fastforce
  qed
qed simp

lemma walk_to_leaf_seg:
  "seg (nodes d) par prev q ts NULL \<Longrightarrow> ts \<noteq> [] \<Longrightarrow>
   \<exists>x n. walk_to_leaf d pv q = Some x \<and> x \<in> set (addrs ts) \<and> nodes d x = Some n \<and>
     firstChild n = NULL \<and> nextSibling n = NULL"
proof (induction "length (addrs ts)" arbitrary: ts par prev q pv rule: less_induct)
  case less
  obtain p1 r par1 prev1 where w: "walk_down d pv q = Some p1" "seg (nodes d) par1 prev1 p1 (Tree p1 [] # r) NULL"
    "set (addrs (Tree p1 [] # r)) \<subseteq> set (addrs ts)" "length (addrs (Tree p1 [] # r)) \<le> length (addrs ts)"
    using walk_down_seg [OF less.prems(1) refl refl less.prems(2)] by blast
  obtain xs p2 k2 where l: "Tree p1 [] # r = xs @ [Tree p2 k2]"
    by (metis last_treeE list.distinct(1))
  have p2: "last_sibling d p1 p1 = Some p2" using last_sibling_seg [OF w(2) refl] unfolding l by simp
  obtain n2 where n2: "nodes d p2 = Some n2" "nextSibling n2 = NULL"
    and s2: "seg (nodes d) par1 (last_root prev1 xs) p2 [Tree p2 k2] NULL" "seg (nodes d) p2 NULL (firstChild n2) k2 NULL"
    using w(2) unfolding l by (auto simp: seg_append split: option.splits)
  have sub: "set (addrs [Tree p2 k2]) \<subseteq> set (addrs ts)" using w(3) unfolding l by auto
  show ?case
  proof (cases "k2 = []")
    case True
    then have "firstChild n2 = NULL" using s2 by simp
    then have "walk_to_leaf d pv q = Some p2" using w(1) p2 n2 by (subst walk_to_leaf.simps) simp
    then show ?thesis using n2 \<open>firstChild n2 = NULL\<close> sub by auto
  next
    case False
    then have nz: "firstChild n2 \<noteq> NULL" using s2(2) seg_dom [OF s2(2)] by (cases k2 rule: addrs.cases) auto
    have "xs \<noteq> []" using l False by (cases xs) auto
    then have "length (addrs [Tree p2 k2]) < length (addrs (Tree p1 [] # r))"
      unfolding l by (cases xs rule: addrs.cases) auto
    then have "length (addrs [Tree p2 k2]) < length (addrs ts)" using w(4) by linarith
    from less.hyps [OF this s2(1), of p2] obtain x n where
      "walk_to_leaf d p2 p2 = Some x" "x \<in> set (addrs [Tree p2 k2])" "nodes d x = Some n"
      "firstChild n = NULL" "nextSibling n = NULL" by blast
    moreover have "walk_to_leaf d pv q = walk_to_leaf d p2 p2"
      using w(1) p2 n2 nz by (subst walk_to_leaf.simps) simp
    ultimately show ?thesis using sub by auto
  qed
qed

lemma mset_upd_kids:
  "p \<in> set (addrs ts) \<Longrightarrow> distinct (addrs ts) \<Longrightarrow>
   mset (addrs (upd_kids p f ts)) + mset (addrs (kids_of p ts)) = mset (addrs ts) + mset (addrs (f (kids_of p ts)))"
proof (induction ts rule: addrs.induct)
  case (2 a ks ts)
  consider (here) "a = p" | (below) "a \<noteq> p" "p \<in> set (addrs ks)" "p \<notin> set (addrs ts)"
    | (right) "a \<noteq> p" "p \<notin> set (addrs ks)" "p \<in> set (addrs ts)" using 2 by auto
  then show ?case using 2 by cases (auto simp: ac_simps)
qed simp

lemma parent_of:
  "x \<in> set (addrs ts) \<Longrightarrow> \<forall>t\<in>set ts. root t \<noteq> x \<Longrightarrow> distinct (addrs ts) \<Longrightarrow>
   \<exists>p k1 xk k2. p \<in> set (addrs ts) \<and> kids_of p ts = k1 @ Tree x xk # k2"
proof (induction ts rule: addrs.induct)
  case (2 a ks ts)
  show ?case
  proof (cases "x \<in> set (addrs ks)")
    case True
    show ?thesis
    proof (cases "\<exists>t\<in>set ks. root t = x")
      case True
      then obtain k1 t k2 where "ks = k1 @ t # k2" "root t = x" by (metis split_list)
      then show ?thesis by (intro exI [of _ a]) (metis addrs.simps(2) kids_of.simps(2) list.set_intros(1) tree.collapse)
    next
      case False
      then obtain p k1 xk k2 where p: "p \<in> set (addrs ks)" "kids_of p ks = k1 @ Tree x xk # k2"
        using 2 True by auto
      then show ?thesis using "2.prems"(3) by (intro exI [of _ p]) auto
    qed
  next
    case False
    then obtain p k1 xk k2 where p: "p \<in> set (addrs ts)" "kids_of p ts = k1 @ Tree x xk # k2"
      using 2 by auto
    then show ?thesis using "2.prems"(3) by (intro exI [of _ p]) auto
  qed
qed simp

lemma seg_suffix:
  "seg h par prev q ts e \<Longrightarrow> e = NULL \<Longrightarrow> s \<in> set (addrs ts) \<Longrightarrow>
   \<exists>par1 prev1 k r. seg h par1 prev1 s (Tree s k # r) NULL \<and> set (addrs (Tree s k # r)) \<subseteq> set (addrs ts)"
proof (induction h par prev q ts e rule: seg.induct)
  case (2 h par prev q a ks ts e)
  obtain n where n: "h a = Some n" "seg h a NULL (firstChild n) ks NULL" "seg h par a (nextSibling n) ts NULL" "q = a"
    using 2 by (auto split: option.splits)
  consider "s = a" | "s \<in> set (addrs ks)" | "s \<in> set (addrs ts)" using 2 by auto
  then show ?case
  proof cases
    case 1
    then show ?thesis using 2 n by blast
  next
    case 2
    then show ?thesis using "2.IH"(1) [OF n(1,2) refl 2] "2.prems" by fastforce
  next
    case 3
    then show ?thesis using "2.IH"(2) [OF n(1) _ "2.prems"(2) 3] n(3) "2.prems" by fastforce
  qed
qed simp

text \<open>What a tree with its attributes owns.\<close>

definition owned :: "(addr \<Rightarrow> addr list) \<Rightarrow> tree \<Rightarrow> addr set" where
  "owned A t = set (addrs [t]) \<union> (\<Union>a\<in>set (addrs [t]). set (A a))"

definition attrs_ok :: "node_map \<Rightarrow> (addr \<Rightarrow> addr list) \<Rightarrow> tree \<Rightarrow> bool" where
  "attrs_ok h A t \<longleftrightarrow>
     (\<forall>a\<in>set (addrs [t]). (\<exists>n. h a = Some n \<and> achain h (firstAttr n) (A a)) \<and> distinct (A a) \<and>
        set (A a) \<inter> set (addrs [t]) = {} \<and> (\<forall>b\<in>set (addrs [t]). b \<noteq> a \<longrightarrow> set (A a) \<inter> set (A b) = {}))"

lemma seg_NULL: "seg h par prev NULL ts e \<Longrightarrow> ts = []"
  by (cases ts rule: addrs.cases) auto

text \<open>One round on a tree frees a leaf: the whole tree when it is one node, else the last child of a node.\<close>

lemma leaf_place:
  assumes "seg h NULL NULL c [Tree c ks] NULL" "distinct (addrs [Tree c ks])" "x \<in> set (addrs ks)" "h x = Some n"
    "firstChild n = NULL" "nextSibling n = NULL"
  obtains p k1 where "p \<in> set (addrs [Tree c ks])" "kids_of p [Tree c ks] = k1 @ [Tree x []]"
proof -
  have "x \<noteq> c" using assms(2,3) by auto
  then obtain p k1 xk k2 where p: "p \<in> set (addrs [Tree c ks])" "kids_of p [Tree c ks] = k1 @ Tree x xk # k2"
    using parent_of [of x "[Tree c ks]"] assms(2,3) by auto
  obtain m where "h p = Some m" "seg h p NULL (firstChild m) (k1 @ Tree x xk # k2) NULL"
    using kids_of_seg [OF assms(1) p(1)] unfolding p(2) by blast
  then have "seg h x NULL NULL xk NULL" "seg h p x NULL k2 NULL"
    using assms(4-6) by (auto simp: seg_append)
  then have "xk = []" "k2 = []" by (auto dest: seg_NULL)
  then show thesis using that p by simp
qed

lemma nodes_of_upd: "nodes (d\<lparr>nodes := h\<rparr>) = h" "brk (d\<lparr>nodes := h\<rparr>) = brk d"
  by simp_all

lemma free_round_leaf:
  assumes tr: "seg (nodes d) NULL NULL c [Tree c ks] NULL" and dist: "distinct (addrs [Tree c ks])"
    and at: "attrs_ok (nodes d) A (Tree c ks)" and walk: "walk_to_leaf d pv q = Some x"
    and x: "nodes d x = Some nx" "x \<noteq> c"
    and p: "p \<in> set (addrs [Tree c ks])" and k: "kids_of p [Tree c ks] = k1 @ [Tree x []]"
  shows "\<exists>nxt d1 ks'. free_round c d pv q = Some (x, nxt, d1) \<and> seg (nodes d1) NULL NULL c [Tree c ks'] NULL \<and>
    mset (addrs [Tree c ks]) = add_mset x (mset (addrs [Tree c ks'])) \<and> attrs_ok (nodes d1) A (Tree c ks') \<and>
    nxt \<in> set (addrs [Tree c ks']) \<and> brk d1 = brk d \<and>
    without (nodes d1) (owned A (Tree c ks')) = without (nodes d) (owned A (Tree c ks))"
proof -
  let ?T = "[Tree c ks]"
  let ?U = "upd_kids p (\<lambda>_. k1) ?T"
  obtain ks' where U: "?U = [Tree c ks']" by auto
  obtain np where np: "nodes d p = Some np" "seg (nodes d) p NULL (firstChild np) (k1 @ [Tree x []]) NULL"
    using kids_of_seg [OF tr p] unfolding k by blast
  have xs: "parentNode nx = p" "prevSibling nx = last_root NULL k1" "x \<noteq> NULL" "seg (nodes d) p NULL (firstChild np) k1 x"
    using np(2) x(1) by (auto simp: seg_snoc)
  have kd: "distinct (addrs (k1 @ [Tree x []]))" "p \<notin> set (addrs (k1 @ [Tree x []]))"
    "set (addrs (k1 @ [Tree x []])) \<subseteq> set (addrs ?T)"
    using kids_of_distinct [OF dist, of p] kids_of_not_self [OF dist, of p] kids_of_subset [of p ?T] unfolding k by auto
  have xin: "x \<in> set (addrs ?T)" using kd(3) by auto
  have m: "mset (addrs ?T) = add_mset x (mset (addrs [Tree c ks']))"
    using mset_upd_kids [OF p dist, of "\<lambda>_. k1"] unfolding k U by simp
  have sU: "set (addrs [Tree c ks']) = set (addrs ?T) - {x}" "distinct (addrs [Tree c ks'])"
  proof -
    have "distinct (x # addrs [Tree c ks'])" using dist m by (metis mset.simps(2) mset_eq_imp_distinct_iff)
    moreover have "set (addrs ?T) = insert x (set (addrs [Tree c ks']))" using m by (metis mset.simps(2) mset_eq_setD list.simps(15))
    ultimately show "set (addrs [Tree c ks']) = set (addrs ?T) - {x}" "distinct (addrs [Tree c ks'])" by auto
  qed
  let ?g = "without (nodes d) (set (A x))"
  have ax: "distinct (A x)" "set (A x) \<inter> set (addrs ?T) = {}" "achain (nodes d) (firstAttr nx) (A x)"
    using at xin x(1) unfolding attrs_ok_def by auto
  have gT: "?g a = nodes d a" if "a \<in> set (addrs ?T)" for a using that ax(2) by (auto simp: without_def)
  have fa: "free_attrs d (firstAttr nx) = Some (d\<lparr>nodes := ?g\<rparr>)" by (rule free_attrs_chain [OF ax(3,1)])
  let ?np = "if k1 = [] then np\<lparr>firstChild := NULL\<rparr> else np"
  let ?nxt = "if k1 = [] then p else root (last k1)"
  let ?R = "((set_after k1 NULL ?g)(p \<mapsto> ?np))(x := None)"
  have nxt: "?nxt \<in> set (addrs ?T)" "?nxt \<noteq> x" "?nxt \<noteq> NULL" "k1 \<noteq> [] \<Longrightarrow> root (last k1) \<in> set (addrs k1)"
    "k1 \<noteq> [] \<Longrightarrow> root (last k1) \<noteq> p"
  proof -
    have l: "root (last k1) \<in> set (addrs k1)" if "k1 \<noteq> []" using that by (simp add: root_in_addrs)
    then show i: "?nxt \<in> set (addrs ?T)" using p kd(3) by auto
    show "?nxt \<noteq> x" using l kd by auto
    show "?nxt \<noteq> NULL" using seg_dom [OF tr i] by simp
    show "root (last k1) \<in> set (addrs k1)" "root (last k1) \<noteq> p" if "k1 \<noteq> []" using l [OF that] kd(2) by auto
  qed
  have gx: "?g x = Some nx" "?g p = Some np" using gT xin p x np by auto
  have run: "free_round c d pv q = Some (x, ?nxt, d\<lparr>nodes := ?R\<rparr>)"
  proof (cases "k1 = []")
    case True
    have "p \<noteq> x" using kd(2) by auto
    then have "free_round c d pv q = Some (x, p, d\<lparr>nodes := ?g(x \<mapsto> nx\<lparr>firstAttr := NULL\<rparr>, p \<mapsto> np\<lparr>firstChild := NULL\<rparr>, x := None)\<rparr>)"
      using walk x fa True xs gx by (simp add: free_round_def ixmlNode_freeSingleNode_def)
    then show ?thesis using True \<open>p \<noteq> x\<close> by (simp add: set_after_def fun_upd_twist)
  next
    case False
    let ?l = "root (last k1)"
    obtain nl where nl: "nodes d ?l = Some nl" using seg_last [OF xs(4) False] by metis
    have "?l \<in> set (addrs ?T)" "?l \<noteq> x" "?l \<noteq> NULL" "?l \<noteq> p" using nxt False by auto
    then have "?g ?l = Some nl" using gT nl by simp
    then have "free_round c d pv q = Some (x, ?l, d\<lparr>nodes := ?g(x \<mapsto> nx\<lparr>firstAttr := NULL\<rparr>, ?l \<mapsto> nl\<lparr>nextSibling := NULL\<rparr>, x := None)\<rparr>)"
      using walk x fa False xs gx \<open>?l \<noteq> x\<close> \<open>?l \<noteq> NULL\<close>
      by (simp add: free_round_def ixmlNode_freeSingleNode_def last_root_def)
    moreover have "?g(x \<mapsto> nx\<lparr>firstAttr := NULL\<rparr>, ?l \<mapsto> nl\<lparr>nextSibling := NULL\<rparr>, x := None) = ?R"
      using False \<open>?g ?l = Some nl\<close> \<open>?l \<noteq> p\<close> gx by (auto simp: fun_eq_iff set_after_def)
    ultimately show ?thesis using False by simp
  qed
  have R: "?R a = nodes d a" if "a \<in> set (addrs ?T)" "a \<notin> set (addrs k1)" "a \<noteq> p" "a \<noteq> x" for a
    using that gT by simp
  have "seg ?g p NULL (firstChild np) k1 x"
    using xs(4) by (rule seg_frame) (use gT kd(3) in auto)
  then have "seg (set_after k1 NULL ?g) p NULL (if k1 = [] then NULL else firstChild np) k1 NULL"
    by (rule seg_set_after) (use kd in auto)
  moreover have fcn: "(if k1 = [] then NULL else firstChild np) = firstChild ?np" by simp
  ultimately have "seg (set_after k1 NULL ?g) p NULL (firstChild ?np) k1 NULL" unfolding fcn by blast
  then have kR: "seg ?R p NULL (firstChild ?np) k1 NULL"
    by (rule seg_frame) (use kd in auto)
  have seg': "seg ?R NULL NULL c ?U NULL"
  proof (rule seg_upd_kids [where n' = ?np, OF tr dist p _ np(1)])
    show "?R a = nodes d a" if "a \<in> set (addrs ?T)" "a \<noteq> p" "a \<notin> set (addrs (kids_of p ?T))" for a
    proof -
      have "a \<notin> set (addrs (k1 @ [Tree x []]))" using that(3) unfolding k .
      then show ?thesis using that(1,2) by (intro R) auto
    qed
    show "?R p = Some ?np" using kd(2) by auto
    show "seg ?R p NULL (firstChild ?np) k1 NULL" by (rule kR)
  qed simp_all
  have pay: "\<exists>n'. ?R a = Some n' \<and> firstAttr n' = firstAttr n"
    if "a \<in> set (addrs ?T)" "a \<noteq> x" "nodes d a = Some n" for a n
    using that gT np(1) by (auto simp: set_after_def)
  have fr: "?R a = nodes d a" if "a \<notin> set (addrs ?T)" "a \<notin> set (A x)" for a
  proof -
    have "a \<notin> set (addrs k1)" "a \<noteq> p" "a \<noteq> x" using that kd(3) p by auto
    then show ?thesis using that by (simp add: without_def)
  qed
  have "attrs_ok ?R A (Tree c ks')"
    unfolding attrs_ok_def sU
  proof (intro ballI conjI impI)
    fix a
    assume a: "a \<in> set (addrs ?T) - {x}"
    obtain n where n: "nodes d a = Some n" "achain (nodes d) (firstAttr n) (A a)" "set (A a) \<inter> set (addrs ?T) = {}"
      "set (A x) \<inter> set (A a) = {}"
      using at a xin unfolding attrs_ok_def by blast
    obtain n' where "?R a = Some n'" "firstAttr n' = firstAttr n" using pay [of a n] a n by auto
    moreover have "achain ?R (firstAttr n) (A a)"
      using n(2) by (rule achain_frame) (use n(3,4) fr in blast)
    ultimately show "\<exists>n. ?R a = Some n \<and> achain ?R (firstAttr n) (A a)" by auto
    show "distinct (A a)" "set (A a) \<inter> (set (addrs ?T) - {x}) = {}" using at a unfolding attrs_ok_def by blast+
    show "set (A a) \<inter> set (A b) = {}" if "b \<in> set (addrs ?T) - {x}" "b \<noteq> a" for b
      using at a that unfolding attrs_ok_def by blast
  qed
  moreover have "without ?R (owned A (Tree c ks')) = without (nodes d) (owned A (Tree c ks))"
  proof
    fix a
    have o: "owned A (Tree c ks) = insert x (set (A x)) \<union> owned A (Tree c ks')"
      unfolding owned_def sU using xin by auto
    show "without ?R (owned A (Tree c ks')) a = without (nodes d) (owned A (Tree c ks)) a"
    proof (cases "a \<in> owned A (Tree c ks)")
      case True
      then have "a \<in> owned A (Tree c ks') \<or> a = x \<or> a \<in> set (A x)" using o by auto
      moreover have "a \<in> set (A x) \<longrightarrow> ?R a = None"
      proof
        assume that: "a \<in> set (A x)"
        have "a \<notin> set (addrs k1)" "a \<noteq> p" using that ax(2) kd(3) p by auto
        then show "?R a = None" using that by (simp add: without_def)
      qed
      moreover have "a = x \<longrightarrow> ?R a = None" by simp
      ultimately have "a \<in> owned A (Tree c ks') \<or> ?R a = None" by (elim disjE) (rule disjI1, assumption, (rule disjI2, erule mp, assumption)+)
      then show ?thesis using True unfolding without_def by presburger
    next
      case False
      then have "a \<notin> set (addrs ?T)" "a \<notin> set (A x)" using xin unfolding owned_def by auto
      then have "?R a = nodes d a" by (rule fr)
      moreover have "a \<notin> owned A (Tree c ks')" using False o by blast
      ultimately show ?thesis using False unfolding without_def by (simp only: if_False)
    qed
  qed
  moreover have "?nxt \<in> set (addrs [Tree c ks'])" using nxt(1,2) sU by blast
  moreover have "seg ?R NULL NULL c [Tree c ks'] NULL" using seg' unfolding U .
  ultimately show ?thesis
    by (intro exI [of _ ?nxt] exI [of _ "d\<lparr>nodes := ?R\<rparr>"] exI [of _ ks'] conjI)
      (simp_all only: run m nodes_of_upd)
qed

text \<open>
  The loop from any place it can be at: it ends, and what is left of the heap is everything but the tree
  and its attributes.
\<close>

lemma leaf_alone:
  assumes "seg h NULL NULL c [Tree c ks] NULL" "h c = Some n" "firstChild n = NULL"
  shows "ks = []"
  using assms seg_NULL by auto

lemma free_loop_tree:
  "seg (nodes d) NULL NULL c [Tree c ks] NULL \<Longrightarrow> distinct (addrs [Tree c ks]) \<Longrightarrow> attrs_ok (nodes d) A (Tree c ks) \<Longrightarrow>
   q \<in> set (addrs [Tree c ks]) \<or> (q = NULL \<and> ks = [] \<and> pv = c) \<Longrightarrow>
   \<exists>d'. free_loop c d pv q = Some d' \<and> nodes d' = without (nodes d) (owned A (Tree c ks)) \<and> brk d' = brk d"
proof (induction "length (addrs ks)" arbitrary: ks d pv q rule: less_induct)
  case less
  note tr = less.prems(1)
  obtain x nx where x: "walk_to_leaf d pv q = Some x" "x \<in> set (addrs [Tree c ks])" "nodes d x = Some nx"
    "firstChild nx = NULL" "nextSibling nx = NULL"
  proof (cases "q = NULL")
    case True
    then have e: "ks = []" "pv = c" using less.prems(4) seg_dom [OF tr] by blast+
    obtain n where n: "nodes d c = Some n" "firstChild n = NULL" "nextSibling n = NULL" "c \<noteq> NULL"
      using tr e by (auto split: option.splits)
    have "last_sibling d c c = Some c" using last_sibling_seg [OF tr refl] by simp
    then have "walk_to_leaf d pv q = Some c"
      using True e n by (subst walk_to_leaf.simps, subst walk_down.simps) simp
    then show thesis using that n e by simp
  next
    case False
    then have "q \<in> set (addrs [Tree c ks])" using less.prems(4) by blast
    from seg_suffix [OF tr refl this] obtain par1 prev1 k r where
      s: "seg (nodes d) par1 prev1 q (Tree q k # r) NULL" "set (addrs (Tree q k # r)) \<subseteq> set (addrs [Tree c ks])" by blast
    show thesis using walk_to_leaf_seg [OF s(1), of pv] s(2) that by blast
  qed
  show ?case
  proof (cases "x = c")
    case True
    then have e: "ks = []" using leaf_alone [OF tr] x by simp
    have c: "nodes d c = Some nx" "achain (nodes d) (firstAttr nx) (A c)" "distinct (A c)" "c \<notin> set (A c)"
      using less.prems(3) x(3) True unfolding attrs_ok_def by auto
    have "c \<noteq> NULL" using seg_dom [OF tr] by simp
    let ?g = "without (nodes d) (set (A c))"
    have "free_attrs d (firstAttr nx) = Some (d\<lparr>nodes := ?g\<rparr>)" by (rule free_attrs_chain [OF c(2,3)])
    moreover have "?g c = Some nx" using c(1,4) by (simp add: without_def)
    ultimately have "free_round c d pv q = Some (c, NULL, d\<lparr>nodes := ?g(c := None)\<rparr>)"
      using x(1) True c(1) \<open>c \<noteq> NULL\<close> by (simp add: free_round_def ixmlNode_freeSingleNode_def)
    moreover have "?g(c := None) = without (nodes d) (owned A (Tree c ks))"
      using e by (auto simp: without_def owned_def fun_eq_iff)
    ultimately show ?thesis by (subst free_loop.simps) simp
  next
    case False
    then have "x \<in> set (addrs ks)" using x(2) by simp
    from leaf_place [OF tr less.prems(2) this x(3-5)] obtain p k1 where
      p: "p \<in> set (addrs [Tree c ks])" "kids_of p [Tree c ks] = k1 @ [Tree x []]" .
    from free_round_leaf [OF tr less.prems(2,3) x(1,3) False p] obtain nxt d1 ks' where
      r: "free_round c d pv q = Some (x, nxt, d1)" "seg (nodes d1) NULL NULL c [Tree c ks'] NULL"
      "mset (addrs [Tree c ks]) = add_mset x (mset (addrs [Tree c ks']))" "attrs_ok (nodes d1) A (Tree c ks')"
      "nxt \<in> set (addrs [Tree c ks'])" "brk d1 = brk d"
      "without (nodes d1) (owned A (Tree c ks')) = without (nodes d) (owned A (Tree c ks))" by blast
    have "size (mset (addrs [Tree c ks])) = Suc (size (mset (addrs [Tree c ks'])))" using r(3) by simp
    then have len: "length (addrs ks') < length (addrs ks)" by simp
    have "distinct (x # addrs [Tree c ks'])" using less.prems(2) r(3) by (metis mset.simps(2) mset_eq_imp_distinct_iff)
    then have "distinct (addrs [Tree c ks'])" by simp
    from less.hyps [OF len r(2) this r(4) disjI1 [OF r(5)]]
    show ?thesis using r False by (subst free_loop.simps) auto
  qed
qed

lemma free_tree:
  assumes tr: "seg (nodes d) NULL NULL c [Tree c ks] NULL" and dist: "distinct (addrs [Tree c ks])"
    and at: "attrs_ok (nodes d) A (Tree c ks)"
  shows "\<exists>d'. ixmlNode_free d c = Some d' \<and> nodes d' = without (nodes d) (owned A (Tree c ks)) \<and> brk d' = brk d"
proof -
  obtain n where n: "nodes d c = Some n" "seg (nodes d) c NULL (firstChild n) ks NULL" "c \<noteq> NULL"
    using tr by (auto split: option.splits)
  have "firstChild n \<in> set (addrs [Tree c ks]) \<or> (firstChild n = NULL \<and> ks = [] \<and> c = c)"
    using seg_start [OF n(2)] root_in_addrs [of "hd ks" ks] by (cases ks) auto
  from free_loop_tree [OF tr dist at this] show ?thesis using n by (simp add: ixmlNode_free_def)
qed

section \<open>The properties\<close>

text \<open>
  C19. \<open>ixmlNode_appendChild\<close> is appending to a list of children: on a document whose pointers form a
  tree, a detached tree of the same document whose type is allowed becomes the last child of the node;
  no other children change, the names, values and attributes of all nodes stay, and nothing outside is
  touched.
\<close>

theorem append_child:
  assumes "seg (nodes d) NULL NULL q ts NULL" "p \<in> set (addrs ts)"
    and "seg (nodes d) NULL NULL c [Tree c ks] NULL" "distinct (addrs (Tree c ks # ts))"
    and "nodes d p = Some np" "nodes d c = Some nc"
    and "ownerDocument nc = NULL \<or> ownerDocument nc = ownerDocument np"
    and "allow_type (nodeType np) (nodeType nc)"
  shows "\<exists>d'. ixmlNode_appendChild d p c = Some (IXML_SUCCESS, d') \<and>
    seg (nodes d') NULL NULL q (upd_kids p (\<lambda>l. l @ [Tree c ks]) ts) NULL \<and> same_payload d d' \<and>
    brk d' = brk d \<and> (\<forall>a. a \<notin> set (addrs (Tree c ks # ts)) \<longrightarrow> nodes d' a = nodes d a)"
  by (rule appendChild_tree [OF assms])

definition sample_node :: "node_type \<Rightarrow> string \<Rightarrow> addr \<Rightarrow> addr \<Rightarrow> addr \<Rightarrow> addr \<Rightarrow> IXML_Node" where
  "sample_node t name par fc ps ns = ixmlNode_init\<lparr>nodeType := t, nodeName := Some name, tagName := Some name,
     parentNode := par, firstChild := fc, prevSibling := ps, nextSibling := ns, ownerDocument := 1\<rparr>"

text \<open>A document 1 with a root element 2 that has the elements 3 and 4; the element 5 is on its own.\<close>

definition sample_dom :: dom_heap where
  "sample_dom = \<lparr>nodes = Map.empty(
     1 \<mapsto> sample_node eDOCUMENT_NODE DOCUMENTNODENAME 0 2 0 0,
     2 \<mapsto> sample_node eELEMENT_NODE ''a'' 1 3 0 0,
     3 \<mapsto> sample_node eELEMENT_NODE ''b'' 2 0 0 4,
     4 \<mapsto> sample_node eELEMENT_NODE ''c'' 2 0 3 0,
     5 \<mapsto> sample_node eELEMENT_NODE ''d'' 0 0 0 0), brk = 6\<rparr>"

definition sample_tree :: "tree list" where
  "sample_tree = [Tree 1 [Tree 2 [Tree 3 [], Tree 4 []]]]"

lemmas sample_defs = sample_dom_def sample_node_def sample_tree_def ixmlNode_init_def

lemma sample_seg: "seg (nodes sample_dom) NULL NULL 1 sample_tree NULL" "seg (nodes sample_dom) NULL NULL 5 [Tree 5 []] NULL"
  by (simp_all add: sample_defs)

lemma sample_facts:
  "2 \<in> set (addrs sample_tree)" "distinct (addrs sample_tree)" "distinct (addrs (Tree 5 [] # sample_tree))"
  "nodes sample_dom 2 = Some (sample_node eELEMENT_NODE ''a'' 1 3 0 0)"
  "nodes sample_dom 5 = Some (sample_node eELEMENT_NODE ''d'' 0 0 0 0)"
  "ownerDocument (sample_node eELEMENT_NODE ''d'' 0 0 0 0) = ownerDocument (sample_node eELEMENT_NODE ''a'' 1 3 0 0)"
  "allow_type (nodeType (sample_node eELEMENT_NODE ''a'' 1 3 0 0)) (nodeType (sample_node eELEMENT_NODE ''d'' 0 0 0 0))"
  by (simp_all add: sample_defs allow_type_def)

theorem append_child_witness:
  "\<exists>d'. ixmlNode_appendChild sample_dom 2 5 = Some (IXML_SUCCESS, d') \<and>
     seg (nodes d') NULL NULL 1 [Tree 1 [Tree 2 [Tree 3 [], Tree 4 [], Tree 5 []]]] NULL"
proof -
  have u: "upd_kids 2 (\<lambda>l. l @ [Tree 5 []]) sample_tree = [Tree 1 [Tree 2 [Tree 3 [], Tree 4 [], Tree 5 []]]]"
    by (simp add: sample_tree_def)
  from append_child [OF sample_seg(1) sample_facts(1) sample_seg(2) sample_facts(3-5) disjI2 [OF sample_facts(6)] sample_facts(7)]
  show ?thesis unfolding u by blast
qed

text \<open>
  \<open>ixmlNode_insertBefore\<close> puts a detached tree of the same document right in front of the given child
  and changes nothing else in the tree.
\<close>

theorem insert_before:
  assumes "seg (nodes d) NULL NULL q ts NULL" "p \<in> set (addrs ts)" "kids_of p ts = k1 @ Tree r rk # k2"
    and "seg (nodes d) NULL NULL c [Tree c ks] NULL" "distinct (addrs (Tree c ks # ts))"
    and "nodes d p = Some np" "nodes d c = Some nc"
    and "ownerDocument nc = ownerDocument np" "allow_type (nodeType np) (nodeType nc)"
  shows "\<exists>d'. ixmlNode_insertBefore d p c r = Some (IXML_SUCCESS, d') \<and>
    seg (nodes d') NULL NULL q (upd_kids p (\<lambda>_. k1 @ Tree c ks # Tree r rk # k2) ts) NULL \<and>
    same_payload d d' \<and> brk d' = brk d \<and> (\<forall>a. a \<notin> set (addrs (Tree c ks # ts)) \<longrightarrow> nodes d' a = nodes d a)"
  by (rule insertBefore_tree [OF assms])

theorem insert_before_witness:
  "\<exists>d'. ixmlNode_insertBefore sample_dom 2 5 4 = Some (IXML_SUCCESS, d') \<and>
     seg (nodes d') NULL NULL 1 [Tree 1 [Tree 2 [Tree 3 [], Tree 5 [], Tree 4 []]]] NULL"
proof -
  have k: "kids_of 2 sample_tree = [Tree 3 []] @ Tree 4 [] # []" by (simp add: sample_tree_def)
  have u: "upd_kids 2 (\<lambda>_. [Tree 3 []] @ Tree 5 [] # Tree 4 [] # []) sample_tree =
    [Tree 1 [Tree 2 [Tree 3 [], Tree 5 [], Tree 4 []]]]" by (simp add: sample_tree_def)
  from insert_before [OF sample_seg(1) sample_facts(1) k sample_seg(2) sample_facts(3-7)]
  show ?thesis unfolding u by blast
qed

text \<open>
  C20. \<open>ixmlNode_removeChild\<close> takes exactly the given child with everything below it out of the tree and
  leaves it as a detached tree.
\<close>

theorem remove_child:
  assumes "seg (nodes d) NULL NULL q ts NULL" "p \<in> set (addrs ts)" "distinct (addrs ts)"
    and "kids_of p ts = k1 @ Tree c ks # k2"
  shows "\<exists>d'. ixmlNode_removeChild d p c True = Some (IXML_SUCCESS, d') \<and>
    seg (nodes d') NULL NULL q (upd_kids p (\<lambda>_. k1 @ k2) ts) NULL \<and> seg (nodes d') NULL NULL c [Tree c ks] NULL \<and>
    same_payload d d' \<and> brk d' = brk d \<and> (\<forall>a. a \<notin> set (addrs ts) \<longrightarrow> nodes d' a = nodes d a)"
  by (rule removeChild_tree [OF assms])

theorem remove_child_witness:
  "\<exists>d'. ixmlNode_removeChild sample_dom 2 3 True = Some (IXML_SUCCESS, d') \<and>
     seg (nodes d') NULL NULL 1 [Tree 1 [Tree 2 [Tree 4 []]]] NULL \<and> seg (nodes d') NULL NULL 3 [Tree 3 []] NULL"
proof -
  have k: "kids_of 2 sample_tree = [] @ Tree 3 [] # [Tree 4 []]" by (simp add: sample_tree_def)
  have u: "upd_kids 2 (\<lambda>_. [] @ [Tree 4 []]) sample_tree = [Tree 1 [Tree 2 [Tree 4 []]]]" by (simp add: sample_tree_def)
  from remove_child [OF sample_seg(1) sample_facts(1,2) k] show ?thesis unfolding u by blast
qed

text \<open>
  C8. \<open>ixmlNode_free\<close>, the loop that replaced the recursion, ends and frees a tree completely: afterwards
  every node of the tree and every attribute of its nodes is free, nothing is freed twice or read after
  it was freed, and every other node of the heap is what it was.
\<close>

theorem free_frees_tree:
  assumes "seg (nodes d) NULL NULL c [Tree c ks] NULL" "distinct (addrs [Tree c ks])"
    and "attrs_ok (nodes d) A (Tree c ks)"
  shows "\<exists>d'. ixmlNode_free d c = Some d' \<and> nodes d' = without (nodes d) (owned A (Tree c ks)) \<and> brk d' = brk d"
  by (rule free_tree [OF assms])

theorem free_frees_tree_witness:
  "\<exists>d'. ixmlNode_free sample_dom 1 = Some d' \<and> nodes d' = without (nodes sample_dom) {1, 2, 3, 4}"
proof -
  have a: "attrs_ok (nodes sample_dom) (\<lambda>_. []) (Tree 1 [Tree 2 [Tree 3 [], Tree 4 []]])"
    by (simp add: attrs_ok_def sample_defs)
  have o: "owned (\<lambda>_. []) (Tree 1 [Tree 2 [Tree 3 [], Tree 4 []]]) = {1, 2, 3, 4}" by (auto simp: owned_def)
  from free_frees_tree [OF sample_seg(1) [unfolded sample_tree_def] sample_facts(2) [unfolded sample_tree_def] a]
  show ?thesis unfolding o by blast
qed

end
