(* ===== verification/Ixml_Element.thy ===== *)
theory Ixml_Element
  imports Ixml_Node
begin

text \<open>
  Elements and their attributes (\<^verbatim>\<open>element.c\<close>, \<^verbatim>\<open>attr.c\<close>, \<^verbatim>\<open>namedNodeMap.c\<close>), the factory functions of a
  document (\<^verbatim>\<open>document.c\<close>) and the printer (\<^verbatim>\<open>ixml.c\<close>), over the heap of \<^verbatim>\<open>Ixml_Node\<close>.
\<close>

section \<open>The factory functions of \<^verbatim>\<open>document.c\<close>\<close>

definition ixmlDocument_createElementEx :: "dom_heap \<Rightarrow> addr \<Rightarrow> DOMString \<Rightarrow> ixml_code \<times> addr \<times> dom_heap" where
  "ixmlDocument_createElementEx d doc tag =
     (if doc = NULL \<or> tag = None then (IXML_INVALID_PARAMETER, NULL, d)
      else let (newElement, d1) = malloc_node d (ixmlNode_init\<lparr>tagName := tag, nodeType := eELEMENT_NODE,
             nodeName := tag, ownerDocument := doc\<rparr>)
           in (IXML_SUCCESS, newElement, d1))"

definition ixmlDocument_createElement :: "dom_heap \<Rightarrow> addr \<Rightarrow> DOMString \<Rightarrow> addr \<times> dom_heap" where
  "ixmlDocument_createElement d doc tag =
     (case ixmlDocument_createElementEx d doc tag of (ret, e, d1) \<Rightarrow> (if ret \<noteq> IXML_SUCCESS then NULL else e, d1))"

text \<open>The new document owns itself.\<close>

definition ixmlDocument_createDocumentEx :: "dom_heap \<Rightarrow> ixml_code \<times> addr \<times> dom_heap" where
  "ixmlDocument_createDocumentEx d =
     (let (doc, d1) = malloc_node d (ixmlNode_init\<lparr>nodeName := Some DOCUMENTNODENAME, nodeType := eDOCUMENT_NODE,
            ownerDocument := brk d\<rparr>)
      in (IXML_SUCCESS, doc, d1))"

definition ixmlDocument_createDocument :: "dom_heap \<Rightarrow> addr \<times> dom_heap" where
  "ixmlDocument_createDocument d = snd (ixmlDocument_createDocumentEx d)"

definition ixmlDocument_createTextNodeEx :: "dom_heap \<Rightarrow> addr \<Rightarrow> DOMString \<Rightarrow> ixml_code \<times> addr \<times> dom_heap" where
  "ixmlDocument_createTextNodeEx d doc data =
     (if doc = NULL \<or> data = None then (IXML_INVALID_PARAMETER, NULL, d)
      else let (n, d1) = malloc_node d (ixmlNode_init\<lparr>nodeName := Some TEXTNODENAME, nodeValue := data,
             nodeType := eTEXT_NODE, ownerDocument := doc\<rparr>)
           in (IXML_SUCCESS, n, d1))"

definition ixmlDocument_createTextNode :: "dom_heap \<Rightarrow> addr \<Rightarrow> DOMString \<Rightarrow> addr \<times> dom_heap" where
  "ixmlDocument_createTextNode d doc data = snd (ixmlDocument_createTextNodeEx d doc data)"

text \<open>
  With a \<open>NULL\<close> argument \<open>ixmlDocument_createAttributeEx\<close> passes the memory it has just allocated, and not
  initialised, to \<open>ixmlAttr_free\<close>, which follows its pointers: \<open>None\<close>.
\<close>

definition ixmlDocument_createAttributeEx :: "dom_heap \<Rightarrow> addr \<Rightarrow> DOMString \<Rightarrow> (ixml_code \<times> addr \<times> dom_heap) option" where
  "ixmlDocument_createAttributeEx d doc name =
     (if doc = NULL \<or> name = None then None
      else let (n, d1) = malloc_node d (ixmlNode_init\<lparr>nodeType := eATTRIBUTE_NODE, nodeName := name,
             ownerDocument := doc\<rparr>)
           in Some (IXML_SUCCESS, n, d1))"

definition ixmlDocument_createAttribute :: "dom_heap \<Rightarrow> addr \<Rightarrow> DOMString \<Rightarrow> (addr \<times> dom_heap) option" where
  "ixmlDocument_createAttribute d doc name = do {
     (rc, attrNode, d1) \<leftarrow> ixmlDocument_createAttributeEx d doc name;
     Some (if rc \<noteq> IXML_SUCCESS then NULL else attrNode, d1)
   }"

definition ixmlDocument_createAttributeNSEx ::
  "dom_heap \<Rightarrow> addr \<Rightarrow> DOMString \<Rightarrow> DOMString \<Rightarrow> (ixml_code \<times> addr \<times> dom_heap) option" where
  "ixmlDocument_createAttributeNSEx d doc ns qualifiedName =
     (if doc = NULL \<or> ns = None \<or> qualifiedName = None then Some (IXML_INVALID_PARAMETER, NULL, d)
      else do {
        (rc, attrNode, d1) \<leftarrow> ixmlDocument_createAttributeEx d doc qualifiedName;
        d2 \<leftarrow> upd d1 attrNode (namespaceURI_update (\<lambda>_. ns));
        (rc2, d3) \<leftarrow> ixmlNode_setNodeName d2 attrNode qualifiedName;
        Some (rc2, attrNode, d3)
      })"

definition ixmlDocument_createAttributeNS ::
  "dom_heap \<Rightarrow> addr \<Rightarrow> DOMString \<Rightarrow> DOMString \<Rightarrow> (addr \<times> dom_heap) option" where
  "ixmlDocument_createAttributeNS d doc ns qualifiedName =
     map_option snd (ixmlDocument_createAttributeNSEx d doc ns qualifiedName)"

definition ixmlDocument_createCDATASectionEx :: "dom_heap \<Rightarrow> addr \<Rightarrow> DOMString \<Rightarrow> ixml_code \<times> addr \<times> dom_heap" where
  "ixmlDocument_createCDATASectionEx d doc data =
     (if doc = NULL \<or> data = None then (IXML_INVALID_PARAMETER, NULL, d)
      else let (n, d1) = malloc_node d (ixmlNode_init\<lparr>nodeType := eCDATA_SECTION_NODE,
             nodeName := Some CDATANODENAME, nodeValue := data, ownerDocument := doc\<rparr>)
           in (IXML_SUCCESS, n, d1))"

definition ixmlDocument_createCDATASection :: "dom_heap \<Rightarrow> addr \<Rightarrow> DOMString \<Rightarrow> addr \<times> dom_heap" where
  "ixmlDocument_createCDATASection d doc data = snd (ixmlDocument_createCDATASectionEx d doc data)"

definition ixmlDocument_createElementNSEx ::
  "dom_heap \<Rightarrow> addr \<Rightarrow> DOMString \<Rightarrow> DOMString \<Rightarrow> (ixml_code \<times> addr \<times> dom_heap) option" where
  "ixmlDocument_createElementNSEx d doc ns qualifiedName =
     (if doc = NULL \<or> ns = None \<or> qualifiedName = None then Some (IXML_INVALID_PARAMETER, NULL, d)
      else case ixmlDocument_createElementEx d doc qualifiedName of
        (ret, newElement, d1) \<Rightarrow>
          if ret \<noteq> IXML_SUCCESS then Some (ret, newElement, d1)
          else do {
            d2 \<leftarrow> upd d1 newElement (namespaceURI_update (\<lambda>_. ns));
            (rc, d3) \<leftarrow> ixmlNode_setNodeName d2 newElement qualifiedName;
            d4 \<leftarrow> upd d3 newElement (nodeValue_update (\<lambda>_. None));
            Some (rc, newElement, d4)
          })"

definition ixmlDocument_createElementNS ::
  "dom_heap \<Rightarrow> addr \<Rightarrow> DOMString \<Rightarrow> DOMString \<Rightarrow> (addr \<times> dom_heap) option" where
  "ixmlDocument_createElementNS d doc ns qualifiedName =
     map_option snd (ixmlDocument_createElementNSEx d doc ns qualifiedName)"

partial_function (option) ixmlDocument_setOwnerDocument :: "dom_heap \<Rightarrow> addr \<Rightarrow> addr \<Rightarrow> dom_heap option" where
  "ixmlDocument_setOwnerDocument d doc nodeptr =
     (if nodeptr \<noteq> NULL then do {
        d1 \<leftarrow> upd d nodeptr (ownerDocument_update (\<lambda>_. doc));
        c \<leftarrow> ixmlNode_getFirstChild d1 nodeptr;
        d2 \<leftarrow> ixmlDocument_setOwnerDocument d1 doc c;
        s \<leftarrow> ixmlNode_getNextSibling d2 nodeptr;
        ixmlDocument_setOwnerDocument d2 doc s
      } else Some d)"

definition ixmlDocument_importNode ::
  "dom_heap \<Rightarrow> addr \<Rightarrow> addr \<Rightarrow> bool \<Rightarrow> (ixml_code \<times> addr \<times> dom_heap) option" where
  "ixmlDocument_importNode d doc importNode deep =
     (if doc = NULL \<or> importNode = NULL then Some (IXML_INVALID_PARAMETER, NULL, d)
      else do {
        t \<leftarrow> ixmlNode_getNodeType d importNode;
        if t = eDOCUMENT_NODE then Some (IXML_NOT_SUPPORTED_ERR, NULL, d)
        else do {
          (newNode, d1) \<leftarrow> ixmlNode_cloneNode d importNode deep;
          if newNode = NULL then Some (IXML_FAILED, NULL, d1)
          else do {
            d2 \<leftarrow> ixmlDocument_setOwnerDocument d1 doc newNode;
            Some (IXML_SUCCESS, newNode, d2)
          }
        }
      })"

definition ixmlDocument_getElementsByTagName :: "dom_heap \<Rightarrow> addr \<Rightarrow> DOMString \<Rightarrow> addr list option" where
  "ixmlDocument_getElementsByTagName d doc tag =
     (case tag of None \<Rightarrow> Some []
      | Some t \<Rightarrow> if doc = NULL then Some [] else ixmlNode_getElementsByTagName d doc t [])"

definition ixmlDocument_getElementsByTagNameNS ::
  "dom_heap \<Rightarrow> addr \<Rightarrow> DOMString \<Rightarrow> DOMString \<Rightarrow> addr list option" where
  "ixmlDocument_getElementsByTagNameNS d doc ns lname =
     (case (ns, lname) of
        (Some n, Some l) \<Rightarrow> if doc = NULL then Some [] else ixmlNode_getElementsByTagNameNS d doc n l []
      | _ \<Rightarrow> Some [])"

partial_function (option) ixmlDocument_getElementById :: "dom_heap \<Rightarrow> addr \<Rightarrow> DOMString \<Rightarrow> addr option" where
  "ixmlDocument_getElementById d nodeptr tag =
     (if nodeptr = NULL \<or> tag = None then Some NULL
      else do {
        t \<leftarrow> ixmlNode_getNodeType d nodeptr;
        name \<leftarrow> ixmlNode_getNodeName d nodeptr;
        if t = eELEMENT_NODE \<and> name = None then Some NULL
        else if t = eELEMENT_NODE \<and> tag = name then Some nodeptr
        else do {
          c \<leftarrow> ixmlNode_getFirstChild d nodeptr;
          e \<leftarrow> ixmlDocument_getElementById d c tag;
          if e = NULL then do {
            s \<leftarrow> ixmlNode_getNextSibling d nodeptr;
            ixmlDocument_getElementById d s tag
          } else Some e
        }
      })"

section \<open>Attributes by name\<close>

text \<open>The walk along the attributes: the address of the first one the test holds for, or \<open>NULL\<close>.\<close>

partial_function (option) find_attr :: "dom_heap \<Rightarrow> (IXML_Node \<Rightarrow> bool option) \<Rightarrow> addr \<Rightarrow> addr option" where
  "find_attr d test attrNode =
     (if attrNode \<noteq> NULL then do {
        n \<leftarrow> nodes d attrNode;
        m \<leftarrow> test n;
        if m then Some attrNode else find_attr d test (nextSibling n)
      } else Some NULL)"

definition by_name :: "string \<Rightarrow> IXML_Node \<Rightarrow> bool option" where
  "by_name name n = str_eq (nodeName n) (Some name)"

definition by_ns :: "string \<Rightarrow> string \<Rightarrow> IXML_Node \<Rightarrow> bool option" where
  "by_ns ns lname n = and_then (str_eq (localName n) (Some lname)) (str_eq (namespaceURI n) (Some ns))"

definition ixmlElement_getAttribute :: "dom_heap \<Rightarrow> addr \<Rightarrow> DOMString \<Rightarrow> DOMString option" where
  "ixmlElement_getAttribute d element name =
     (case name of None \<Rightarrow> Some None
      | Some nm \<Rightarrow>
          if element = NULL then Some None
          else do {
            fa \<leftarrow> fld d element firstAttr;
            a \<leftarrow> find_attr d (by_name nm) fa;
            if a \<noteq> NULL then fld d a nodeValue else Some None
          })"

definition ixmlElement_getAttributeNode :: "dom_heap \<Rightarrow> addr \<Rightarrow> DOMString \<Rightarrow> addr option" where
  "ixmlElement_getAttributeNode d element name =
     (case name of None \<Rightarrow> Some NULL
      | Some nm \<Rightarrow>
          if element = NULL then Some NULL
          else do { fa \<leftarrow> fld d element firstAttr; find_attr d (by_name nm) fa })"

definition ixmlElement_hasAttribute :: "dom_heap \<Rightarrow> addr \<Rightarrow> DOMString \<Rightarrow> bool option" where
  "ixmlElement_hasAttribute d element name =
     map_option (\<lambda>a. a \<noteq> NULL) (ixmlElement_getAttributeNode d element name)"

section \<open>Setting and removing attributes\<close>

text \<open>\<open>want\<close> tells whether the caller passes \<open>rtAttr\<close>; the result has what is stored there.\<close>

definition setAttributeNode_with ::
  "(IXML_Node \<Rightarrow> bool option) \<Rightarrow> bool \<Rightarrow> bool \<Rightarrow> dom_heap \<Rightarrow> addr \<Rightarrow> addr \<Rightarrow> (ixml_code \<times> addr \<times> dom_heap) option" where
  "setAttributeNode_with test set_prev frees d element newAttr = do {
     fa \<leftarrow> fld d element firstAttr;
     attrNode \<leftarrow> find_attr d test fa;
     if attrNode \<noteq> NULL then do {
       preSib \<leftarrow> fld d attrNode prevSibling;
       nextSib \<leftarrow> fld d attrNode nextSibling;
       d1 \<leftarrow> (if preSib \<noteq> NULL then upd d preSib (nextSibling_update (\<lambda>_. newAttr)) else Some d);
       d2 \<leftarrow> (if nextSib \<noteq> NULL then upd d1 nextSib (prevSibling_update (\<lambda>_. newAttr)) else Some d1);
       d3 \<leftarrow> (if fa = attrNode then upd d2 element (firstAttr_update (\<lambda>_. newAttr)) else Some d2);
       if frees then do { d4 \<leftarrow> ixmlNode_free d3 attrNode; Some (IXML_SUCCESS, NULL, d4) }
       else Some (IXML_SUCCESS, attrNode, d3)
     } else if fa \<noteq> NULL then do {
       n \<leftarrow> fld d fa nextSibling;
       prevAttr \<leftarrow> last_sibling d fa n;
       d1 \<leftarrow> upd d prevAttr (nextSibling_update (\<lambda>_. newAttr));
       d2 \<leftarrow> (if set_prev then upd d1 newAttr (prevSibling_update (\<lambda>_. prevAttr)) else Some d1);
       Some (IXML_SUCCESS, NULL, d2)
     } else do {
       d1 \<leftarrow> upd d element (firstAttr_update (\<lambda>_. newAttr));
       d2 \<leftarrow> upd d1 newAttr (\<lambda>n. n\<lparr>prevSibling := NULL, nextSibling := NULL\<rparr>);
       Some (IXML_SUCCESS, NULL, d2)
     }
   }"

definition ixmlElement_setAttributeNode ::
  "dom_heap \<Rightarrow> addr \<Rightarrow> addr \<Rightarrow> bool \<Rightarrow> (ixml_code \<times> addr \<times> dom_heap) option" where
  "ixmlElement_setAttributeNode d element newAttr want =
     (if element = NULL \<or> newAttr = NULL then Some (IXML_INVALID_PARAMETER, NULL, d)
      else do {
        a \<leftarrow> nodes d newAttr;
        ed \<leftarrow> fld d element ownerDocument;
        if ownerDocument a \<noteq> ed then Some (IXML_WRONG_DOCUMENT_ERR, NULL, d)
        else if ownerElement a \<noteq> NULL then Some (IXML_INUSE_ATTRIBUTE_ERR, NULL, d)
        else do {
          d1 \<leftarrow> upd d newAttr (ownerElement_update (\<lambda>_. element));
          setAttributeNode_with (\<lambda>n. str_eq (nodeName n) (nodeName a)) True (\<not> want) d1 element newAttr
        }
      })"

text \<open>
  The variant for namespaces stores the replaced attribute without looking whether there is a place for
  it (without one that is a write through \<open>NULL\<close>), and does not set the back pointer of an added one.
\<close>

definition ixmlElement_setAttributeNodeNS ::
  "dom_heap \<Rightarrow> addr \<Rightarrow> addr \<Rightarrow> bool \<Rightarrow> (ixml_code \<times> addr \<times> dom_heap) option" where
  "ixmlElement_setAttributeNodeNS d element newAttr want =
     (if element = NULL \<or> newAttr = NULL then Some (IXML_INVALID_PARAMETER, NULL, d)
      else do {
        a \<leftarrow> nodes d newAttr;
        ed \<leftarrow> fld d element ownerDocument;
        if ownerDocument a \<noteq> ed then Some (IXML_WRONG_DOCUMENT_ERR, NULL, d)
        else if ownerElement a \<noteq> NULL \<and> ownerElement a \<noteq> element then Some (IXML_INUSE_ATTRIBUTE_ERR, NULL, d)
        else do {
          d1 \<leftarrow> upd d newAttr (ownerElement_update (\<lambda>_. element));
          (rc, old, d2) \<leftarrow> setAttributeNode_with
             (\<lambda>n. and_then (str_eq (localName n) (localName a)) (str_eq (namespaceURI n) (namespaceURI a)))
             False False d1 element newAttr;
          if old \<noteq> NULL \<and> \<not> want then None else Some (rc, old, d2)
        }
      })"

definition ixmlElement_setAttribute ::
  "dom_heap \<Rightarrow> addr \<Rightarrow> DOMString \<Rightarrow> DOMString \<Rightarrow> (ixml_code \<times> dom_heap) option" where
  "ixmlElement_setAttribute d element name val =
     (case name of None \<Rightarrow> Some (IXML_INVALID_PARAMETER, d)
      | Some nm \<Rightarrow>
          if element = NULL \<or> val = None then Some (IXML_INVALID_PARAMETER, d)
          else if \<not> Parser_isValidXmlName nm then Some (IXML_INVALID_CHARACTER_ERR, d)
          else do {
            fa \<leftarrow> fld d element firstAttr;
            attrNode \<leftarrow> find_attr d (by_name nm) fa;
            if attrNode = NULL then do {
              od \<leftarrow> fld d element ownerDocument;
              (rc, newAttr, d1) \<leftarrow> ixmlDocument_createAttributeEx d od name;
              d2 \<leftarrow> upd d1 newAttr (nodeValue_update (\<lambda>_. val));
              (rc2, old, d3) \<leftarrow> ixmlElement_setAttributeNode d2 element newAttr False;
              if rc2 \<noteq> IXML_SUCCESS then map_option (Pair rc2) (ixmlNode_free d3 newAttr)
              else Some (IXML_SUCCESS, d3)
            } else map_option (Pair IXML_SUCCESS) (upd d attrNode (nodeValue_update (\<lambda>_. val)))
          })"

text \<open>Removing an attribute by name only removes its value.\<close>

definition ixmlElement_removeAttribute :: "dom_heap \<Rightarrow> addr \<Rightarrow> DOMString \<Rightarrow> (ixml_code \<times> dom_heap) option" where
  "ixmlElement_removeAttribute d element name =
     (case name of None \<Rightarrow> Some (IXML_INVALID_PARAMETER, d)
      | Some nm \<Rightarrow>
          if element = NULL then Some (IXML_INVALID_PARAMETER, d)
          else do {
            fa \<leftarrow> fld d element firstAttr;
            a \<leftarrow> find_attr d (by_name nm) fa;
            if a \<noteq> NULL then map_option (Pair IXML_SUCCESS) (upd d a (nodeValue_update (\<lambda>_. None)))
            else Some (IXML_SUCCESS, d)
          })"

partial_function (option) ixmlElement_findAttributeNode :: "dom_heap \<Rightarrow> addr \<Rightarrow> addr \<Rightarrow> addr option" where
  "ixmlElement_findAttributeNode d attrNode oldAttr =
     (if attrNode \<noteq> NULL then do {
        same \<leftarrow> ixmlNode_compare d attrNode oldAttr;
        if same then Some attrNode
        else do { n \<leftarrow> fld d attrNode nextSibling; ixmlElement_findAttributeNode d n oldAttr }
      } else Some NULL)"

definition ixmlElement_removeAttributeNode ::
  "dom_heap \<Rightarrow> addr \<Rightarrow> addr \<Rightarrow> (ixml_code \<times> addr \<times> dom_heap) option" where
  "ixmlElement_removeAttributeNode d element oldAttr =
     (if element = NULL \<or> oldAttr = NULL then Some (IXML_INVALID_PARAMETER, NULL, d)
      else do {
        fa \<leftarrow> fld d element firstAttr;
        attrNode \<leftarrow> ixmlElement_findAttributeNode d fa oldAttr;
        if attrNode \<noteq> NULL then do {
          preSib \<leftarrow> fld d attrNode prevSibling;
          nextSib \<leftarrow> fld d attrNode nextSibling;
          d1 \<leftarrow> (if preSib \<noteq> NULL then upd d preSib (nextSibling_update (\<lambda>_. nextSib)) else Some d);
          d2 \<leftarrow> (if nextSib \<noteq> NULL then upd d1 nextSib (prevSibling_update (\<lambda>_. preSib)) else Some d1);
          d3 \<leftarrow> (if fa = attrNode then upd d2 element (firstAttr_update (\<lambda>_. nextSib)) else Some d2);
          d4 \<leftarrow> upd d3 attrNode (\<lambda>n. n\<lparr>parentNode := NULL, prevSibling := NULL, nextSibling := NULL\<rparr>);
          Some (IXML_SUCCESS, attrNode, d4)
        } else Some (IXML_NOT_FOUND_ERR, NULL, d)
      })"

definition ixmlElement_getAttributeNodeNS :: "dom_heap \<Rightarrow> addr \<Rightarrow> DOMString \<Rightarrow> DOMString \<Rightarrow> addr option" where
  "ixmlElement_getAttributeNodeNS d element ns lname =
     (case (ns, lname) of
        (Some n, Some l) \<Rightarrow>
          if element = NULL then Some NULL
          else do { fa \<leftarrow> fld d element firstAttr; find_attr d (by_ns n l) fa }
      | _ \<Rightarrow> Some NULL)"

definition ixmlElement_getAttributeNS :: "dom_heap \<Rightarrow> addr \<Rightarrow> DOMString \<Rightarrow> DOMString \<Rightarrow> DOMString option" where
  "ixmlElement_getAttributeNS d element ns lname = do {
     a \<leftarrow> ixmlElement_getAttributeNodeNS d element ns lname;
     if a \<noteq> NULL then fld d a nodeValue else Some None
   }"

definition ixmlElement_hasAttributeNS :: "dom_heap \<Rightarrow> addr \<Rightarrow> DOMString \<Rightarrow> DOMString \<Rightarrow> bool option" where
  "ixmlElement_hasAttributeNS d element ns lname =
     map_option (\<lambda>a. a \<noteq> NULL) (ixmlElement_getAttributeNodeNS d element ns lname)"

definition ixmlElement_removeAttributeNS ::
  "dom_heap \<Rightarrow> addr \<Rightarrow> DOMString \<Rightarrow> DOMString \<Rightarrow> (ixml_code \<times> dom_heap) option" where
  "ixmlElement_removeAttributeNS d element ns lname =
     (if element = NULL \<or> ns = None \<or> lname = None then Some (IXML_INVALID_PARAMETER, d)
      else do {
        a \<leftarrow> ixmlElement_getAttributeNodeNS d element ns lname;
        if a \<noteq> NULL then map_option (Pair IXML_SUCCESS) (upd d a (nodeValue_update (\<lambda>_. None)))
        else Some (IXML_SUCCESS, d)
      })"

definition XML_NAMESPACE :: string where "XML_NAMESPACE = ''http://www.w3.org/XML/1998/namespace''"
definition XMLNS_NAMESPACE :: string where "XMLNS_NAMESPACE = ''http://www.w3.org/2000/xmlns/''"

definition ixmlElement_setAttributeNS ::
  "dom_heap \<Rightarrow> addr \<Rightarrow> DOMString \<Rightarrow> DOMString \<Rightarrow> DOMString \<Rightarrow> (ixml_code \<times> dom_heap) option" where
  "ixmlElement_setAttributeNS d element ns qualifiedName val =
     (case (ns, qualifiedName, val) of
        (Some n, Some q, Some v) \<Rightarrow>
          if element = NULL then Some (IXML_INVALID_PARAMETER, d)
          else if \<not> Parser_isValidXmlName q then Some (IXML_INVALID_CHARACTER_ERR, d)
          else case split_name q of (p, l) \<Rightarrow>
            if p = Some ''xml'' \<and> n \<noteq> XML_NAMESPACE \<or> q = ''xmlns'' \<and> n \<noteq> XMLNS_NAMESPACE
            then Some (IXML_NAMESPACE_ERR, d)
            else do {
              fa \<leftarrow> fld d element firstAttr;
              attrNode \<leftarrow> find_attr d (by_ns n (the l)) fa;
              if attrNode \<noteq> NULL
              then map_option (Pair IXML_SUCCESS) (upd d attrNode (\<lambda>a. a\<lparr>prefix := p, nodeValue := Some v\<rparr>))
              else do {
                od \<leftarrow> fld d element ownerDocument;
                (rc, newAttr, d1) \<leftarrow> ixmlDocument_createAttributeNSEx d od ns qualifiedName;
                if rc \<noteq> IXML_SUCCESS then Some (rc, d1)
                else do {
                  d2 \<leftarrow> upd d1 newAttr (nodeValue_update (\<lambda>_. Some v));
                  (rc2, old, d3) \<leftarrow> ixmlElement_setAttributeNodeNS d2 element newAttr True;
                  if rc2 \<noteq> IXML_SUCCESS then map_option (Pair IXML_FAILED) (ixmlNode_free d3 newAttr)
                  else Some (IXML_SUCCESS, d3)
                }
              }
            }
      | _ \<Rightarrow> Some (IXML_INVALID_PARAMETER, d))"

definition ixmlElement_getElementsByTagName :: "dom_heap \<Rightarrow> addr \<Rightarrow> DOMString \<Rightarrow> addr list option" where
  "ixmlElement_getElementsByTagName d element tag =
     (case tag of None \<Rightarrow> Some []
      | Some t \<Rightarrow> if element = NULL then Some [] else ixmlNode_getElementsByTagName d element t [])"

definition ixmlElement_getElementsByTagNameNS ::
  "dom_heap \<Rightarrow> addr \<Rightarrow> DOMString \<Rightarrow> DOMString \<Rightarrow> addr list option" where
  "ixmlElement_getElementsByTagNameNS d element ns lname =
     (case (ns, lname) of
        (Some n, Some l) \<Rightarrow> if element = NULL then Some [] else ixmlNode_getElementsByTagNameNS d element n l []
      | _ \<Rightarrow> Some [])"

section \<open>Named node maps\<close>

text \<open>
  A map is the list of the \<open>nodeItem\<close>s of its cells, as for node lists; the lookups walk the siblings of
  the first item instead of the cells.
\<close>

definition ixmlNamedNodeMap_addToNamedNodeMap :: "addr list \<Rightarrow> addr \<Rightarrow> ixml_code \<times> addr list" where
  "ixmlNamedNodeMap_addToNamedNodeMap nnMap add =
     (if add = NULL then (IXML_SUCCESS, nnMap)
      else let m = (if nnMap = [] then [NULL] else nnMap)
           in (IXML_SUCCESS, if hd m = NULL then add # tl m else m @ [add]))"

partial_function (option) named_map_loop :: "dom_heap \<Rightarrow> addr \<Rightarrow> addr list \<Rightarrow> addr list option" where
  "named_map_loop d tempNode m =
     (if tempNode \<noteq> NULL then do {
        n \<leftarrow> fld d tempNode nextSibling;
        named_map_loop d n (snd (ixmlNamedNodeMap_addToNamedNodeMap m tempNode))
      } else Some m)"

definition ixmlNode_getAttributes :: "dom_heap \<Rightarrow> addr \<Rightarrow> addr list option" where
  "ixmlNode_getAttributes d nodeptr =
     (if nodeptr = NULL then Some []
      else do {
        n \<leftarrow> nodes d nodeptr;
        if nodeType n = eELEMENT_NODE then named_map_loop d (firstAttr n) [NULL] else Some []
      })"

partial_function (option) item_number_loop :: "dom_heap \<Rightarrow> string \<Rightarrow> addr \<Rightarrow> nat \<Rightarrow> nat option option" where
  "item_number_loop d name tempNode i =
     (if tempNode \<noteq> NULL then do {
        n \<leftarrow> nodes d tempNode;
        m \<leftarrow> str_eq (Some name) (nodeName n);
        if m then Some (Some i) else item_number_loop d name (nextSibling n) (i + 1)
      } else Some None)"

partial_function (option) siblings_length :: "dom_heap \<Rightarrow> addr \<Rightarrow> nat \<Rightarrow> nat option" where
  "siblings_length d tempNode n =
     (if tempNode \<noteq> NULL then do { s \<leftarrow> fld d tempNode nextSibling; siblings_length d s (n + 1) } else Some n)"

definition ixmlNamedNodeMap_getLength :: "dom_heap \<Rightarrow> addr list \<Rightarrow> nat option" where
  "ixmlNamedNodeMap_getLength d nnMap = (if nnMap = [] then Some 0 else siblings_length d (hd nnMap) 0)"

fun nth_sibling :: "dom_heap \<Rightarrow> addr \<Rightarrow> nat \<Rightarrow> addr option" where
  "nth_sibling d p 0 = Some p"
| "nth_sibling d p (Suc i) =
     (if p = NULL then Some p else do { s \<leftarrow> fld d p nextSibling; nth_sibling d s i })"

text \<open>\<open>index > length - 1\<close> is computed in \<open>unsigned long\<close>: for an empty map it never holds.\<close>

definition ixmlNamedNodeMap_item :: "dom_heap \<Rightarrow> addr list \<Rightarrow> nat \<Rightarrow> addr option" where
  "ixmlNamedNodeMap_item d nnMap index =
     (if nnMap = [] then Some NULL
      else do {
        n \<leftarrow> ixmlNamedNodeMap_getLength d nnMap;
        if 0 < n \<and> n - 1 < index then Some NULL else nth_sibling d (hd nnMap) index
      })"

definition IXML_INVALID_ITEM_NUMBER :: nat where "IXML_INVALID_ITEM_NUMBER = 107"

definition ixmlNamedNodeMap_getItemNumber :: "dom_heap \<Rightarrow> addr list \<Rightarrow> string \<Rightarrow> nat option" where
  "ixmlNamedNodeMap_getItemNumber d nnMap name =
     (if nnMap = [] then Some IXML_INVALID_ITEM_NUMBER
      else map_option (\<lambda>r. case r of None \<Rightarrow> IXML_INVALID_ITEM_NUMBER | Some i \<Rightarrow> i)
        (item_number_loop d name (hd nnMap) 0))"

definition ixmlNamedNodeMap_getNamedItem :: "dom_heap \<Rightarrow> addr list \<Rightarrow> DOMString \<Rightarrow> addr option" where
  "ixmlNamedNodeMap_getNamedItem d nnMap name =
     (case name of None \<Rightarrow> Some NULL
      | Some nm \<Rightarrow>
          if nnMap = [] then Some NULL
          else do {
            index \<leftarrow> ixmlNamedNodeMap_getItemNumber d nnMap nm;
            if index = IXML_INVALID_ITEM_NUMBER then Some NULL else ixmlNamedNodeMap_item d nnMap index
          })"

definition ixmlNamedNodeMap_free :: "addr list \<Rightarrow> addr list" where
  "ixmlNamedNodeMap_free nnMap = []"

section \<open>Printing\<close>

text \<open>
  \<open>ixml_membuf_append_str\<close> takes the length of its argument first, so a \<open>NULL\<close> string is a fault;
  \<open>copy_with_escape\<close> ignores one.
\<close>

definition app_str :: "string \<Rightarrow> DOMString \<Rightarrow> string option" where
  "app_str buf s = (case s of None \<Rightarrow> None | Some x \<Rightarrow> Some (buf @ x))"

definition app_escaped :: "string \<Rightarrow> DOMString \<Rightarrow> string" where
  "app_escaped buf s = (case s of None \<Rightarrow> buf | Some x \<Rightarrow> copy_with_escape buf x)"

definition CRLF_text :: string where "CRLF_text = [CHR 0x0D, CHR 0x0A]"

text \<open>One attribute: its name, the sign and the quoted value.\<close>

definition print_attr :: "string \<Rightarrow> IXML_Node \<Rightarrow> string option" where
  "print_attr buf n = do {
     b \<leftarrow> app_str buf (nodeName n);
     Some (app_escaped (b @ [CHR ''='', CHR 0x22]) (nodeValue n) @ [CHR 0x22])
   }"

definition child_is :: "dom_heap \<Rightarrow> addr \<Rightarrow> node_type \<Rightarrow> bool option" where
  "child_is d child t = (if child \<noteq> NULL then map_option (\<lambda>x. x = t) (ixmlNode_getNodeType d child) else Some False)"

partial_function (option) ixmlPrintDomTreeRecursive :: "dom_heap \<Rightarrow> addr \<Rightarrow> string \<Rightarrow> string option" where
  "ixmlPrintDomTreeRecursive d nodeptr buf =
     (if nodeptr \<noteq> NULL then do {
        n \<leftarrow> nodes d nodeptr;
        (case nodeType n of
           eTEXT_NODE \<Rightarrow> Some (app_escaped buf (nodeValue n))
         | eCDATA_SECTION_NODE \<Rightarrow> do {
             b \<leftarrow> app_str (buf @ ''<![CDATA['') (nodeValue n);
             Some (b @ '']]>'')
           }
         | ePROCESSING_INSTRUCTION_NODE \<Rightarrow> do {
             b \<leftarrow> app_str (buf @ ''<?'') (nodeName n);
             Some (app_escaped (b @ '' '') (nodeValue n) @ ''?>'' @ [CHR 0x0A])
           }
         | eDOCUMENT_NODE \<Rightarrow> ixmlPrintDomTreeRecursive d (firstChild n) buf
         | eATTRIBUTE_NODE \<Rightarrow> do {
             b \<leftarrow> print_attr buf n;
             if nextSibling n \<noteq> NULL then ixmlPrintDomTreeRecursive d (nextSibling n) (b @ '' '') else Some b
           }
         | eELEMENT_NODE \<Rightarrow> do {
             b1 \<leftarrow> app_str (buf @ ''<'') (nodeName n);
             b2 \<leftarrow> (if firstAttr n \<noteq> NULL then ixmlPrintDomTreeRecursive d (firstAttr n) (b1 @ '' '') else Some b1);
             ce \<leftarrow> child_is d (firstChild n) eELEMENT_NODE;
             b3 \<leftarrow> ixmlPrintDomTreeRecursive d (firstChild n) (b2 @ (if ce then ''>'' @ CRLF_text else ''>''));
             b4 \<leftarrow> app_str (b3 @ ''</'') (nodeName n);
             st \<leftarrow> child_is d (nextSibling n) eTEXT_NODE;
             ixmlPrintDomTreeRecursive d (nextSibling n) (b4 @ (if st then ''>'' else ''>'' @ CRLF_text))
           }
         | _ \<Rightarrow> Some buf)
      } else Some buf)"

text \<open>
  The outermost node, whose siblings are not printed; \<open>nl\<close> is what is printed behind the tags of an
  element with element children: a line end in \<open>ixmlPrintDomTree\<close>, nothing in \<open>ixmlDomTreetoString\<close>.
\<close>

definition print_top :: "string \<Rightarrow> dom_heap \<Rightarrow> addr \<Rightarrow> string \<Rightarrow> string option" where
  "print_top nl d nodeptr buf =
     (if nodeptr = NULL then Some buf
      else do {
        n \<leftarrow> nodes d nodeptr;
        (case nodeType n of
           eTEXT_NODE \<Rightarrow> ixmlPrintDomTreeRecursive d nodeptr buf
         | eCDATA_SECTION_NODE \<Rightarrow> ixmlPrintDomTreeRecursive d nodeptr buf
         | ePROCESSING_INSTRUCTION_NODE \<Rightarrow> ixmlPrintDomTreeRecursive d nodeptr buf
         | eDOCUMENT_NODE \<Rightarrow> ixmlPrintDomTreeRecursive d nodeptr buf
         | eATTRIBUTE_NODE \<Rightarrow> print_attr buf n
         | eELEMENT_NODE \<Rightarrow> do {
             b1 \<leftarrow> app_str (buf @ ''<'') (nodeName n);
             b2 \<leftarrow> (if firstAttr n \<noteq> NULL then ixmlPrintDomTreeRecursive d (firstAttr n) (b1 @ '' '') else Some b1);
             ce \<leftarrow> child_is d (firstChild n) eELEMENT_NODE;
             b3 \<leftarrow> ixmlPrintDomTreeRecursive d (firstChild n) (b2 @ (if ce then ''>'' @ nl else ''>''));
             b4 \<leftarrow> app_str (b3 @ ''</'') (nodeName n);
             Some (b4 @ ''>'' @ nl)
           }
         | _ \<Rightarrow> Some buf)
      })"

definition ixmlPrintDomTree :: "dom_heap \<Rightarrow> addr \<Rightarrow> string \<Rightarrow> string option" where
  "ixmlPrintDomTree = print_top CRLF_text"

definition ixmlDomTreetoString :: "dom_heap \<Rightarrow> addr \<Rightarrow> string \<Rightarrow> string option" where
  "ixmlDomTreetoString = print_top []"

definition XML_PROLOG :: string where
  "XML_PROLOG = ''<?xml version='' @ [CHR 0x22] @ ''1.0'' @ [CHR 0x22] @ ''?>'' @ CRLF_text"

text \<open>The entry points; the inner \<^term>\<open>None\<close> is a \<open>NULL\<close> string, as for a node that prints nothing.\<close>

definition ixmlPrintDocument :: "dom_heap \<Rightarrow> addr \<Rightarrow> DOMString option" where
  "ixmlPrintDocument d doc =
     (if doc = NULL then Some None else map_option Some (ixmlPrintDomTree d doc XML_PROLOG))"

definition ixmlDocumenttoString :: "dom_heap \<Rightarrow> addr \<Rightarrow> DOMString option" where
  "ixmlDocumenttoString d doc =
     (if doc = NULL then Some None else map_option Some (ixmlDomTreetoString d doc XML_PROLOG))"

definition ixmlPrintNode :: "dom_heap \<Rightarrow> addr \<Rightarrow> DOMString option" where
  "ixmlPrintNode d node =
     (if node = NULL then Some None
      else map_option (\<lambda>b. if b = [] then None else Some b) (ixmlPrintDomTree d node []))"

definition ixmlNodetoString :: "dom_heap \<Rightarrow> addr \<Rightarrow> DOMString option" where
  "ixmlNodetoString d node =
     (if node = NULL then Some None
      else map_option (\<lambda>b. if b = [] then None else Some b) (ixmlDomTreetoString d node []))"

end
