(* ===== verification/Ixml_Attrs.thy ===== *)
theory Ixml_Attrs
  imports Ixml_Tree Ixml_Element
begin

text \<open>
  Attributes as a map from names to values, and what the operations of the document object model get
  wrong, by evaluation on small heaps.
\<close>

section \<open>Walking the attributes\<close>

lemma find_attr_none:
  "achain (nodes d) p bs \<Longrightarrow> \<forall>b\<in>set bs. \<exists>n. nodes d b = Some n \<and> test n = Some False \<Longrightarrow> find_attr d test p = Some NULL"
proof (induction bs arbitrary: p)
  case Nil
  then show ?case by (simp add: find_attr.simps)
next
  case (Cons b bs)
  obtain n where n: "nodes d b = Some n" "test n = Some False" using Cons.prems(2) by auto
  then have "achain (nodes d) (nextSibling n) bs" "p = b" "b \<noteq> NULL" using Cons.prems(1) by auto
  moreover have "find_attr d test (nextSibling n) = Some NULL"
    using calculation(1) Cons.prems(2) by (intro Cons.IH) auto
  ultimately show ?case using n by (subst find_attr.simps) simp
qed

lemma find_attr_first:
  "achain (nodes d) p (xs @ b # ys) \<Longrightarrow> \<forall>x\<in>set xs. \<exists>n. nodes d x = Some n \<and> test n = Some False \<Longrightarrow>
   nodes d b = Some nb \<Longrightarrow> test nb = Some True \<Longrightarrow> find_attr d test p = Some b"
proof (induction xs arbitrary: p)
  case Nil
  then show ?case by (subst find_attr.simps) auto
next
  case (Cons x xs)
  obtain n where n: "nodes d x = Some n" "test n = Some False" using Cons.prems(2) by auto
  then have "achain (nodes d) (nextSibling n) (xs @ b # ys)" "p = x" "x \<noteq> NULL" using Cons.prems(1) by auto
  moreover have "find_attr d test (nextSibling n) = Some b"
    using calculation(1) Cons.prems(2-4) by (intro Cons.IH) auto
  ultimately show ?case using n by (subst find_attr.simps) simp
qed

lemma achain_dom: "achain h p bs \<Longrightarrow> b \<in> set bs \<Longrightarrow> b \<noteq> NULL \<and> (\<exists>n. h b = Some n)"
  by (induction h p bs rule: achain.induct) (auto split: option.splits)

lemma last_sibling_achain: "achain (nodes d) p bs \<Longrightarrow> last_sibling d pv p = Some (last (pv # bs))"
proof (induction bs arbitrary: p pv)
  case Nil
  then show ?case by (simp add: last_sibling.simps)
next
  case (Cons b bs)
  then show ?case by (subst last_sibling.simps) (auto split: option.splits)
qed

lemma achain_snoc:
  "achain h p bs \<Longrightarrow> distinct bs \<Longrightarrow> bs \<noteq> [] \<Longrightarrow> h (last bs) = Some n \<Longrightarrow> c \<notin> set bs \<Longrightarrow> c \<noteq> NULL \<Longrightarrow>
   h c = Some nc \<Longrightarrow> nextSibling nc = NULL \<Longrightarrow> achain (h(last bs \<mapsto> n\<lparr>nextSibling := c\<rparr>)) p (bs @ [c])"
proof (induction bs arbitrary: p)
  case (Cons b bs)
  then show ?case
  proof (cases "bs = []")
    case False
    obtain m where m: "h b = Some m" "achain h (nextSibling m) bs" "p = b" "b \<noteq> NULL"
      using Cons.prems(1) by (auto split: option.splits)
    have "last bs \<noteq> b" using Cons.prems(2) False by auto
    have "achain (h(last bs \<mapsto> n\<lparr>nextSibling := c\<rparr>)) (nextSibling m) (bs @ [c])"
      using m Cons.prems False by (intro Cons.IH) auto
    moreover have "(h(last bs \<mapsto> n\<lparr>nextSibling := c\<rparr>)) b = Some m" "last (b # bs) = last bs"
      using m False \<open>last bs \<noteq> b\<close> by auto
    ultimately show ?thesis using m by (simp del: fun_upd_apply)
  qed auto
qed simp

text \<open>The value the chain of attributes gives to a name.\<close>

definition attr_value :: "node_map \<Rightarrow> addr list \<Rightarrow> string \<Rightarrow> DOMString" where
  "attr_value h bs name =
     (case filter (\<lambda>b. map_option nodeName (h b) = Some (Some name)) bs of [] \<Rightarrow> None | b # _ \<Rightarrow> nodeValue (the (h b)))"

definition named_chain :: "node_map \<Rightarrow> addr \<Rightarrow> addr list \<Rightarrow> bool" where
  "named_chain h p bs \<longleftrightarrow> achain h p bs \<and> distinct bs \<and> (\<forall>b\<in>set bs. \<exists>n s. h b = Some n \<and> nodeName n = Some s)"

lemma by_name_Some: "nodeName n = Some s \<Longrightarrow> by_name name n = Some (s = name)"
  by (simp add: by_name_def str_eq_def)

lemma find_by_name:
  assumes "named_chain (nodes d) p bs"
  shows "find_attr d (by_name name) p =
     Some (case filter (\<lambda>b. map_option nodeName (nodes d b) = Some (Some name)) bs of [] \<Rightarrow> NULL | b # _ \<Rightarrow> b)"
proof (cases "filter (\<lambda>b. map_option nodeName (nodes d b) = Some (Some name)) bs")
  case Nil
  have "\<forall>b\<in>set bs. \<exists>n. nodes d b = Some n \<and> by_name name n = Some False"
  proof
    fix b assume b: "b \<in> set bs"
    then obtain n s where n: "nodes d b = Some n" "nodeName n = Some s" using assms by (auto simp: named_chain_def)
    then have "s \<noteq> name" using Nil b by (auto simp: filter_empty_conv)
    then show "\<exists>n. nodes d b = Some n \<and> by_name name n = Some False" using n by_name_Some by auto
  qed
  then show ?thesis using find_attr_none [of d p bs] assms Nil by (simp add: named_chain_def)
next
  case (Cons b rest)
  then obtain xs ys where bs: "bs = xs @ b # ys" and x: "\<forall>x\<in>set xs. map_option nodeName (nodes d x) \<noteq> Some (Some name)"
    and b: "map_option nodeName (nodes d b) = Some (Some name)"
    by (auto simp: filter_eq_Cons_iff)
  obtain nb where nb: "nodes d b = Some nb" "nodeName nb = Some name" using b by auto
  have "\<forall>x\<in>set xs. \<exists>n. nodes d x = Some n \<and> by_name name n = Some False"
  proof
    fix y assume y: "y \<in> set xs"
    then have "y \<in> set bs" using bs by simp
    then obtain n s where n: "nodes d y = Some n" "nodeName n = Some s" using assms unfolding named_chain_def by blast
    then have "s \<noteq> name" using x y by auto
    then show "\<exists>n. nodes d y = Some n \<and> by_name name n = Some False" using n by_name_Some by auto
  qed
  then show ?thesis
    using find_attr_first [of d p xs b ys "by_name name" nb] assms bs nb by_name_Some [OF nb(2), of name] Cons
    by (simp add: named_chain_def)
qed

lemma getAttribute_chain:
  assumes "nodes d e = Some n" "e \<noteq> NULL" "named_chain (nodes d) (firstAttr n) bs"
  shows "ixmlElement_getAttribute d e (Some name) = Some (attr_value (nodes d) bs name)"
proof (cases "filter (\<lambda>b. map_option nodeName (nodes d b) = Some (Some name)) bs")
  case Nil
  then show ?thesis using find_by_name [OF assms(3)] assms by (simp add: ixmlElement_getAttribute_def attr_value_def)
next
  case (Cons b rest)
  then have "b \<in> set bs" using filter_is_subset list.set_intros(1) subsetD by metis
  then obtain m where "nodes d b = Some m" "b \<noteq> NULL"
    using assms(3) achain_dom by (fastforce simp: named_chain_def)
  then show ?thesis using find_by_name [OF assms(3)] assms Cons
    by (simp add: ixmlElement_getAttribute_def attr_value_def)
qed

section \<open>Setting an attribute\<close>

lemma named_chain_frame:
  assumes "named_chain h p bs" "\<And>b. b \<in> set bs \<Longrightarrow> h' b = h b"
  shows "named_chain h' p bs"
  using assms achain_frame [of h p bs h'] by (auto simp: named_chain_def)

lemma attr_value_frame: "(\<And>b. b \<in> set bs \<Longrightarrow> h' b = h b) \<Longrightarrow> attr_value h' bs = attr_value h bs"
  by (rule ext) (auto simp: attr_value_def split: list.splits cong: filter_cong dest!: filter_eq_ConsD)

lemma named_chain_value:
  assumes "named_chain h p bs" "h b = Some nb"
  shows "named_chain (h(b \<mapsto> nb\<lparr>nodeValue := v\<rparr>)) p bs"
proof -
  have "achain h p bs \<Longrightarrow> achain (h(b \<mapsto> nb\<lparr>nodeValue := v\<rparr>)) p bs"
    using assms(2) by (induction h p bs rule: achain.induct) (auto split: option.splits)
  then show ?thesis using assms by (auto simp: named_chain_def)
qed

lemma attr_value_update:
  assumes f: "filter (\<lambda>b. map_option nodeName (h b) = Some (Some name)) bs = b # rest" and b: "h b = Some nb"
  shows "attr_value (h(b \<mapsto> nb\<lparr>nodeValue := v\<rparr>)) bs m = (if m = name then v else attr_value h bs m)"
proof -
  let ?h = "h(b \<mapsto> nb\<lparr>nodeValue := v\<rparr>)"
  have nb: "nodeName nb = Some name" using f b by (metis (mono_tags, lifting) filter_eq_ConsD option.inject option.map(2))
  have same: "map_option nodeName (?h x) = map_option nodeName (h x)" for x using b by simp
  show ?thesis
  proof (cases "m = name")
    case True
    then show ?thesis using f by (simp add: attr_value_def same del: fun_upd_apply) simp
  next
    case False
    show ?thesis
    proof (cases "filter (\<lambda>b. map_option nodeName (h b) = Some (Some m)) bs")
      case Nil
      then show ?thesis using False by (simp add: attr_value_def same del: fun_upd_apply)
    next
      case (Cons a as)
      then have "map_option nodeName (h a) = Some (Some m)" by (metis (mono_tags, lifting) filter_eq_ConsD)
      then have "a \<noteq> b" using nb b False by auto
      then show ?thesis using False Cons by (simp add: attr_value_def same del: fun_upd_apply) simp
    qed
  qed
qed

lemma attr_value_snoc:
  "attr_value h (bs @ [c]) m =
     (if filter (\<lambda>b. map_option nodeName (h b) = Some (Some m)) bs = [] \<and> map_option nodeName (h c) = Some (Some m)
      then nodeValue (the (h c)) else attr_value h bs m)"
  by (cases "filter (\<lambda>b. map_option nodeName (h b) = Some (Some m)) bs") (auto simp: attr_value_def)

text \<open>Appending a new attribute to the chain.\<close>

lemma setAttributeNode_new:
  assumes e: "nodes d e = Some n" "e \<noteq> NULL" and ch: "named_chain (nodes d) (firstAttr n) bs" "e \<notin> set bs"
    and new: "filter (\<lambda>b. map_option nodeName (nodes d b) = Some (Some name)) bs = []"
    and c: "nodes d c = Some nc" "c \<noteq> NULL" "c \<notin> set bs" "c \<noteq> e" "nodeName nc = Some name" "nextSibling nc = NULL"
      "ownerDocument nc = ownerDocument n" "ownerElement nc = NULL"
  shows "\<exists>d' n'. ixmlElement_setAttributeNode d e c False = Some (IXML_SUCCESS, NULL, d') \<and> nodes d' e = Some n' \<and>
    named_chain (nodes d') (firstAttr n') (bs @ [c]) \<and> brk d' = brk d \<and>
    (\<forall>m. attr_value (nodes d') (bs @ [c]) m = (if m = name then nodeValue nc else attr_value (nodes d) bs m))"
proof -
  let ?d1 = "d\<lparr>nodes := (nodes d)(c \<mapsto> nc\<lparr>ownerElement := e\<rparr>)\<rparr>"
  have ch1: "named_chain (nodes ?d1) (firstAttr n) bs" by (rule named_chain_frame [OF ch(1)]) (use c in auto)
  have new1: "filter (\<lambda>b. map_option nodeName (nodes ?d1 b) = Some (Some name)) bs = []"
    using new c(3) by (auto simp: filter_empty_conv)
  have test: "by_name name = (\<lambda>n. str_eq (nodeName n) (Some name))" by (simp add: by_name_def fun_eq_iff)
  have find: "find_attr ?d1 (by_name name) (firstAttr n) = Some NULL"
    using find_by_name [OF ch1, of name] unfolding new1 by simp
  have pre: "ixmlElement_setAttributeNode d e c False = setAttributeNode_with (by_name name) True True ?d1 e c"
    using e c by (simp add: ixmlElement_setAttributeNode_def test)
  have others: "attr_value h (bs @ [c]) m = (if m = name then nodeValue nc else attr_value (nodes d) bs m)"
    if "h c = Some nc'" "nodeName nc' = Some name" "nodeValue nc' = nodeValue nc"
      "\<And>b. b \<in> set bs \<Longrightarrow> map_option nodeName (h b) = map_option nodeName (nodes d b)"
      "\<And>b. b \<in> set bs \<Longrightarrow> map_option nodeValue (h b) = map_option nodeValue (nodes d b)" for h nc' m
  proof -
    have f: "filter (\<lambda>b. map_option nodeName (h b) = Some (Some m)) bs = filter (\<lambda>b. map_option nodeName (nodes d b) = Some (Some m)) bs" for m
      using that(4) by (auto cong: filter_cong)
    have dom: "b \<in> set bs \<Longrightarrow> nodes d b \<noteq> None" for b using ch(1) by (auto simp: named_chain_def)
    have "attr_value h bs m = attr_value (nodes d) bs m"
    proof (cases "filter (\<lambda>b. map_option nodeName (nodes d b) = Some (Some m)) bs")
      case (Cons b rest)
      then have "b \<in> set bs" using filter_is_subset list.set_intros(1) subsetD by metis
      then show ?thesis using that(5) [of b] dom [of b] Cons f [of m] by (auto simp: attr_value_def)
    qed (simp only: attr_value_def f list.case)
    then show ?thesis using that(1-3) f new by (auto simp: attr_value_snoc)
  qed
  show ?thesis
  proof (cases "bs = []")
    case True
    then have fa: "firstAttr n = NULL" using ch(1) by (simp add: named_chain_def)
    let ?h = "(nodes d)(e \<mapsto> n\<lparr>firstAttr := c\<rparr>, c \<mapsto> nc\<lparr>ownerElement := e, prevSibling := NULL, nextSibling := NULL\<rparr>)"
    have "ixmlElement_setAttributeNode d e c False = Some (IXML_SUCCESS, NULL, d\<lparr>nodes := ?h\<rparr>)"
      unfolding pre setAttributeNode_with_def using e c fa find by (simp add: fun_upd_twist)
    moreover have "named_chain ?h c (bs @ [c])" using True c by (simp add: named_chain_def)
    moreover have "?h e = Some (n\<lparr>firstAttr := c\<rparr>)" using c by simp
    moreover have "attr_value ?h (bs @ [c]) m = (if m = name then nodeValue nc else attr_value (nodes d) bs m)" for m
      by (rule others [where nc' = "nc\<lparr>ownerElement := e, prevSibling := NULL, nextSibling := NULL\<rparr>"])
        (use True c in auto)
    ultimately show ?thesis by auto
  next
    case False
    let ?l = "last bs"
    obtain nl where nl: "nodes d ?l = Some nl" using ch(1) False last_in_set unfolding named_chain_def by blast
    have l: "?l \<in> set bs" "?l \<noteq> c" "?l \<noteq> e" using False c(3) ch(2) by auto
    have fa: "firstAttr n \<noteq> NULL" using ch(1) False by (cases bs) (auto simp: named_chain_def)
    have "last_sibling ?d1 NULL (firstAttr n) = Some ?l"
      using last_sibling_achain [of ?d1 "firstAttr n" bs NULL] ch1 False by (simp add: named_chain_def)
    then have ls: "\<exists>x. fld ?d1 (firstAttr n) nextSibling = Some x \<and> last_sibling ?d1 (firstAttr n) x = Some ?l"
      using fa by (subst (asm) last_sibling.simps) (auto split: bind_splits)
    let ?h = "(nodes d)(c \<mapsto> nc\<lparr>ownerElement := e, prevSibling := ?l\<rparr>, ?l \<mapsto> nl\<lparr>nextSibling := c\<rparr>)"
    have h: "(nodes d)(c \<mapsto> nc\<lparr>ownerElement := e\<rparr>, ?l \<mapsto> nl\<lparr>nextSibling := c\<rparr>, c \<mapsto> nc\<lparr>ownerElement := e, prevSibling := ?l\<rparr>) = ?h"
      using l by (auto simp: fun_eq_iff)
    have "ixmlElement_setAttributeNode d e c False = Some (IXML_SUCCESS, NULL, d\<lparr>nodes := ?h\<rparr>)"
      unfolding pre setAttributeNode_with_def using e c fa find ls nl l h by auto
    moreover have "named_chain ?h (firstAttr n) (bs @ [c])"
    proof -
      let ?g = "(nodes d)(c \<mapsto> nc\<lparr>ownerElement := e, prevSibling := ?l\<rparr>)"
      have "named_chain ?g (firstAttr n) bs" by (rule named_chain_frame [OF ch(1)]) (use c in auto)
      then have "achain ?h (firstAttr n) (bs @ [c])"
        by (intro achain_snoc [where nc = "nc\<lparr>ownerElement := e, prevSibling := ?l\<rparr>"]) (use False nl l c in \<open>auto simp: named_chain_def\<close>)
      moreover have "\<forall>b\<in>set (bs @ [c]). \<exists>m s. ?h b = Some m \<and> nodeName m = Some s"
        using ch(1) nl l c by (auto simp: named_chain_def)
      ultimately show ?thesis using ch(1) c by (auto simp: named_chain_def)
    qed
    moreover have "?h e = Some n" using e c l by simp
    moreover have "attr_value ?h (bs @ [c]) m = (if m = name then nodeValue nc else attr_value (nodes d) bs m)" for m
      by (rule others [where nc' = "nc\<lparr>ownerElement := e, prevSibling := ?l\<rparr>"]) (use l c nl in auto)
    ultimately show ?thesis by auto
  qed
qed

lemma setAttribute_chain:
  assumes e: "nodes d e = Some n" "e \<noteq> NULL" and ch: "named_chain (nodes d) (firstAttr n) bs" "e \<notin> set bs"
    and doc: "ownerDocument n \<noteq> NULL" and valid: "Parser_isValidXmlName name" and fresh: "nodes d (brk d) = None" "brk d \<noteq> NULL"
  shows "\<exists>d' n' bs'. ixmlElement_setAttribute d e (Some name) (Some v) = Some (IXML_SUCCESS, d') \<and> nodes d' e = Some n' \<and>
    named_chain (nodes d') (firstAttr n') bs' \<and>
    (\<forall>m. attr_value (nodes d') bs' m = (if m = name then Some v else attr_value (nodes d) bs m))"
proof (cases "filter (\<lambda>b. map_option nodeName (nodes d b) = Some (Some name)) bs")
  case (Cons b rest)
  then have b: "b \<in> set bs" using filter_is_subset list.set_intros(1) subsetD by metis
  then obtain nb where nb: "nodes d b = Some nb" "b \<noteq> NULL"
    using ch(1) achain_dom by (fastforce simp: named_chain_def)
  let ?d = "d\<lparr>nodes := (nodes d)(b \<mapsto> nb\<lparr>nodeValue := Some v\<rparr>)\<rparr>"
  have "ixmlElement_setAttribute d e (Some name) (Some v) = Some (IXML_SUCCESS, ?d)"
    using find_by_name [OF ch(1), of name] Cons e valid nb by (simp add: ixmlElement_setAttribute_def)
  moreover have "nodes ?d e = Some n" using b ch(2) e by auto
  moreover have "named_chain (nodes ?d) (firstAttr n) bs" using named_chain_value [OF ch(1) nb(1)] by simp
  moreover have "attr_value (nodes ?d) bs m = (if m = name then Some v else attr_value (nodes d) bs m)" for m
    using attr_value_update [OF Cons nb(1)] by simp
  ultimately show ?thesis by blast
next
  case Nil
  let ?c = "brk d"
  let ?nc = "ixmlNode_init\<lparr>nodeType := eATTRIBUTE_NODE, nodeName := Some name, ownerDocument := ownerDocument n,
    nodeValue := Some v\<rparr>"
  let ?d = "d\<lparr>brk := ?c + 1, nodes := (nodes d)(?c \<mapsto> ?nc)\<rparr>"
  have c: "?c \<notin> set bs" "?c \<noteq> e" using ch(1) e fresh by (auto simp: named_chain_def)
  have "named_chain (nodes ?d) (firstAttr n) bs" by (rule named_chain_frame [OF ch(1)]) (use c in auto)
  moreover have "filter (\<lambda>b. map_option nodeName (nodes ?d b) = Some (Some name)) bs = []"
    using Nil c(1) by (auto simp: filter_empty_conv)
  moreover have "nodes ?d e = Some n" using e c by simp
  ultimately obtain d' n' where d': "ixmlElement_setAttributeNode ?d e ?c False = Some (IXML_SUCCESS, NULL, d')"
    "nodes d' e = Some n'" "named_chain (nodes d') (firstAttr n') (bs @ [?c])"
    "\<And>m. attr_value (nodes d') (bs @ [?c]) m = (if m = name then Some v else attr_value (nodes ?d) bs m)"
    using setAttributeNode_new [of ?d e n bs name ?c ?nc] e(2) ch(2) c fresh(2)
    by (auto simp: ixmlNode_init_def)
  have "ixmlElement_setAttribute d e (Some name) (Some v) = Some (IXML_SUCCESS, d')"
    using find_by_name [OF ch(1), of name] Nil e valid doc d'(1)
    by (simp add: ixmlElement_setAttribute_def ixmlDocument_createAttributeEx_def malloc_node_def)
  moreover have "attr_value (nodes ?d) bs = attr_value (nodes d) bs"
    by (rule attr_value_frame) (use c in auto)
  ultimately show ?thesis using d' by auto
qed

text \<open>
  C35. The attributes of an element are a map: \<open>ixmlElement_setAttribute\<close> succeeds for a valid name, makes
  \<open>ixmlElement_getAttribute\<close> return the value for that name, and changes the value of no other name,
  whether the name was there before or not.
\<close>

theorem set_attribute_is_update:
  assumes "nodes d e = Some n" "e \<noteq> NULL" "named_chain (nodes d) (firstAttr n) bs" "e \<notin> set bs"
    and "ownerDocument n \<noteq> NULL" "Parser_isValidXmlName name" "nodes d (brk d) = None" "brk d \<noteq> NULL"
  shows "\<exists>d'. ixmlElement_setAttribute d e (Some name) (Some v) = Some (IXML_SUCCESS, d') \<and>
    (\<forall>m. ixmlElement_getAttribute d' e (Some m) =
       (if m = name then Some (Some v) else ixmlElement_getAttribute d e (Some m)))"
proof -
  obtain d' n' bs' where d': "ixmlElement_setAttribute d e (Some name) (Some v) = Some (IXML_SUCCESS, d')"
    "nodes d' e = Some n'" "named_chain (nodes d') (firstAttr n') bs'"
    "\<forall>m. attr_value (nodes d') bs' m = (if m = name then Some v else attr_value (nodes d) bs m)"
    using setAttribute_chain [OF assms] by blast
  then show ?thesis
    using getAttribute_chain [OF d'(2) assms(2) d'(3)] getAttribute_chain [OF assms(1-3)] by auto
qed

text \<open>An element 2 of document 1 with the attributes \<open>x\<close> at 3 and \<open>y\<close> at 4.\<close>

definition attr_node :: "string \<Rightarrow> string \<Rightarrow> addr \<Rightarrow> addr \<Rightarrow> IXML_Node" where
  "attr_node name v ps ns = ixmlNode_init\<lparr>nodeType := eATTRIBUTE_NODE, nodeName := Some name, nodeValue := Some v,
     prevSibling := ps, nextSibling := ns, ownerDocument := 1, ownerElement := 2\<rparr>"

definition attr_dom :: dom_heap where
  "attr_dom = \<lparr>nodes = Map.empty(
     1 \<mapsto> sample_node eDOCUMENT_NODE DOCUMENTNODENAME 0 2 0 0,
     2 \<mapsto> (sample_node eELEMENT_NODE ''a'' 1 0 0 0)\<lparr>firstAttr := 3\<rparr>,
     3 \<mapsto> attr_node ''x'' ''1'' 0 4,
     4 \<mapsto> attr_node ''y'' ''2'' 3 0), brk = 5\<rparr>"

lemmas attr_dom_defs = attr_dom_def attr_node_def sample_node_def ixmlNode_init_def

theorem set_attribute_is_update_witness:
  "\<exists>d'. ixmlElement_setAttribute attr_dom 2 (Some ''z'') (Some ''3'') = Some (IXML_SUCCESS, d') \<and>
     ixmlElement_getAttribute d' 2 (Some ''z'') = Some (Some ''3'') \<and>
     ixmlElement_getAttribute d' 2 (Some ''x'') = ixmlElement_getAttribute attr_dom 2 (Some ''x'')"
proof -
  have n: "nodes attr_dom 2 = Some ((sample_node eELEMENT_NODE ''a'' 1 0 0 0)\<lparr>firstAttr := 3\<rparr>)"
    by (simp add: attr_dom_def)
  have c: "named_chain (nodes attr_dom) (firstAttr ((sample_node eELEMENT_NODE ''a'' 1 0 0 0)\<lparr>firstAttr := 3\<rparr>)) [3, 4]"
    by (simp add: named_chain_def attr_dom_defs)
  have o: "ownerDocument ((sample_node eELEMENT_NODE ''a'' 1 0 0 0)\<lparr>firstAttr := 3\<rparr>) \<noteq> NULL"
    by (simp add: sample_node_def)
  have v: "Parser_isValidXmlName ''z''" by code_simp
  have f: "nodes attr_dom (brk attr_dom) = None" "brk attr_dom \<noteq> NULL" by (simp_all add: attr_dom_def)
  from set_attribute_is_update [OF n _ c _ o v f, of "''3''"] show ?thesis by auto
qed

section \<open>Searching a tree\<close>

text \<open>The elements of a tree that a tag name selects.\<close>

definition selected :: "dom_heap \<Rightarrow> string \<Rightarrow> addr \<Rightarrow> bool" where
  "selected d tag a \<longleftrightarrow>
     (case nodes d a of None \<Rightarrow> False
      | Some n \<Rightarrow> nodeType n = eELEMENT_NODE \<and> (nodeName n = Some tag \<or> tag = ''*''))"

definition elements_named :: "dom_heap \<Rightarrow> tree list \<Rightarrow> bool" where
  "elements_named d ts \<longleftrightarrow>
     (\<forall>a\<in>set (addrs ts). \<forall>n. nodes d a = Some n \<longrightarrow> nodeType n = eELEMENT_NODE \<longrightarrow> nodeName n \<noteq> None)"

definition proper_list :: "addr list \<Rightarrow> bool" where
  "proper_list l \<longleftrightarrow> NULL \<notin> set l"

lemma addToNodeList_proper:
  "proper_list l \<Longrightarrow> a \<noteq> NULL \<Longrightarrow> snd (ixmlNodeList_addToNodeList l a) = l @ [a] \<and> proper_list (l @ [a])"
  by (cases l) (auto simp: ixmlNodeList_addToNodeList_def ixmlNodeList_init_def proper_list_def)

lemma add_if_tag_selected:
  assumes "nodes d a = Some n" "a \<noteq> NULL" "nodeType n = eELEMENT_NODE \<longrightarrow> nodeName n \<noteq> None" "proper_list l"
  shows "add_if_tag tag d a l = Some (if selected d tag a then l @ [a] else l)"
  using assms addToNodeList_proper [OF assms(4,2)]
  by (auto simp: add_if_tag_def tag_matches_def ixmlNode_getNodeType_def ixmlNode_getNodeName_def get_or_def
      str_eq_def or_else_def selected_def split: bool.splits option.splits)

lemma getElements_recursive:
  "seg h par prev q ts e \<Longrightarrow> e = NULL \<Longrightarrow> h = nodes d \<Longrightarrow> elements_named d ts \<Longrightarrow> proper_list l \<Longrightarrow>
   ixmlNode_getElementsByTagNameRecursive d q tag l = Some (l @ filter (selected d tag) (addrs ts)) \<and>
   proper_list (l @ filter (selected d tag) (addrs ts))"
proof (induction h par prev q ts e arbitrary: l rule: seg.induct)
  case (1 h par prev q e)
  then show ?case by (subst ixmlNode_getElementsByTagNameRecursive.simps) simp
next
  case (2 h par prev q a ks ts e)
  obtain n where n: "nodes d a = Some n" "q = a" "a \<noteq> NULL" "seg h a NULL (firstChild n) ks NULL"
    "seg h par a (nextSibling n) ts NULL" using "2.prems"(1-3) by (auto split: option.splits)
  have nm: "nodeType n = eELEMENT_NODE \<longrightarrow> nodeName n \<noteq> None" "elements_named d ks" "elements_named d ts"
    using "2.prems"(4) n(1) by (auto simp: elements_named_def)
  let ?l1 = "if selected d tag a then l @ [a] else l"
  have l1: "add_if_tag tag d a l = Some ?l1" "proper_list ?l1"
    using add_if_tag_selected [OF n(1,3) nm(1) "2.prems"(5)] "2.prems"(5) n(3) by (auto simp: proper_list_def)
  have h: "h a = Some n" using n(1) "2.prems"(3) by simp
  have k: "ixmlNode_getElementsByTagNameRecursive d (firstChild n) tag ?l1 = Some (?l1 @ filter (selected d tag) (addrs ks))"
    "proper_list (?l1 @ filter (selected d tag) (addrs ks))"
    using "2.IH"(1) [OF h n(4) refl "2.prems"(3) nm(2) l1(2)] by auto
  have s: "ixmlNode_getElementsByTagNameRecursive d (nextSibling n) tag (?l1 @ filter (selected d tag) (addrs ks)) =
      Some ((?l1 @ filter (selected d tag) (addrs ks)) @ filter (selected d tag) (addrs ts))"
    "proper_list ((?l1 @ filter (selected d tag) (addrs ks)) @ filter (selected d tag) (addrs ts))"
    using "2.IH"(2) [OF h _ "2.prems"(2,3) nm(3) k(2)] n(5) "2.prems"(2) by auto
  show ?case
    using n l1 k s by (subst ixmlNode_getElementsByTagNameRecursive.simps)
      (cases "selected d tag a", simp_all add: ixmlNode_getFirstChild_def ixmlNode_getNextSibling_def get_or_def)
qed

text \<open>
  \<open>ixmlNode_getElementsByTagName\<close> returns exactly the elements of the tree below and including the
  node that have the tag name (all elements for \<open>*\<close>), each once and in document order.
\<close>

theorem elements_by_tag_name:
  assumes "seg (nodes d) par prev q (Tree q ks # ts) NULL" "elements_named d [Tree q ks]"
  shows "ixmlNode_getElementsByTagName d q tag [] = Some (filter (selected d tag) (addrs [Tree q ks]))"
proof -
  obtain n where n: "nodes d q = Some n" "q \<noteq> NULL" "seg (nodes d) q NULL (firstChild n) ks NULL"
    using assms(1) by (auto split: option.splits)
  have nm: "nodeType n = eELEMENT_NODE \<longrightarrow> nodeName n \<noteq> None" "elements_named d ks"
    using assms(2) n(1) by (auto simp: elements_named_def)
  have "add_if_tag tag d q [] = Some (if selected d tag q then [q] else [])"
    using add_if_tag_selected [OF n(1,2) nm(1), of "[]" tag] by (simp add: proper_list_def)
  moreover have "proper_list (if selected d tag q then [q] else [])" using n(2) by (simp add: proper_list_def)
  ultimately show ?thesis
    using getElements_recursive [OF n(3) refl refl nm(2)] n
    by (simp add: ixmlNode_getElementsByTagName_def ixmlNode_getFirstChild_def get_or_def)
qed

theorem elements_by_tag_name_witness:
  "ixmlNode_getElementsByTagName sample_dom 1 ''*'' [] = Some [2, 3, 4]"
proof -
  have s: "seg (nodes sample_dom) NULL NULL 1 (Tree 1 [Tree 2 [Tree 3 [], Tree 4 []]] # []) NULL"
    by (simp add: sample_defs)
  have e: "elements_named sample_dom [Tree 1 [Tree 2 [Tree 3 [], Tree 4 []]]]"
    by (simp add: elements_named_def sample_defs)
  have f: "filter (selected sample_dom ''*'') (addrs [Tree 1 [Tree 2 [Tree 3 [], Tree 4 []]]]) = [2, 3, 4]"
    by (simp add: selected_def sample_defs)
  from elements_by_tag_name [OF s e, of "''*''"] show ?thesis unfolding f .
qed

section \<open>What goes wrong\<close>

text \<open>An element 2 with the children text 3 and element 4.\<close>

definition mixed_dom :: dom_heap where
  "mixed_dom = \<lparr>nodes = Map.empty(
     1 \<mapsto> sample_node eDOCUMENT_NODE DOCUMENTNODENAME 0 2 0 0,
     2 \<mapsto> sample_node eELEMENT_NODE ''a'' 1 3 0 0,
     3 \<mapsto> (sample_node eTEXT_NODE TEXTNODENAME 2 0 0 4)\<lparr>nodeValue := Some ''t''\<rparr>,
     4 \<mapsto> sample_node eELEMENT_NODE ''b'' 2 0 3 0), brk = 5\<rparr>"

declare last_sibling.simps [code] walk_down.simps [code] walk_to_leaf.simps [code] free_attrs.simps [code]
  free_loop.simps [code] ixmlNode_isAncestor.simps [code] set_parent_loop.simps [code]
  ixmlNode_cloneNodeTreeRecursive.simps [code] child_nodes_loop.simps [code] find_attr.simps [code]
  ixmlPrintDomTreeRecursive.simps [code]

text \<open>Everything behind a text child is lost: by the clone and by the printer.\<close>

lemma clone_drops_after_text:
  "do { (c, d) \<leftarrow> ixmlNode_cloneNode mixed_dom 2 True; map_option length (ixmlNode_getChildNodes d c) } = Some 1"
  "map_option length (ixmlNode_getChildNodes mixed_dom 2) = Some 2"
  by code_simp+

lemma print_drops_after_text: "ixmlNodetoString mixed_dom 2 = Some (Some ''<a>t</a>'')"
  by code_simp

text \<open>
  The replacement of an attribute by \<open>ixmlElement_setAttributeNode\<close> loses the attributes behind it, and
  without a place for the old one it frees them and reads through \<open>NULL\<close>.
\<close>

definition replacing_dom :: dom_heap where
  "replacing_dom = attr_dom\<lparr>nodes := (nodes attr_dom)(5 \<mapsto> (attr_node ''x'' ''9'' 0 0)\<lparr>ownerElement := 0\<rparr>), brk := 6\<rparr>"

lemma replace_attribute_drops:
  "do { (rc, old, d) \<leftarrow> ixmlElement_setAttributeNode replacing_dom 2 5 True; ixmlElement_getAttribute d 2 (Some ''y'') } = Some None"
  "ixmlElement_getAttribute replacing_dom 2 (Some ''y'') = Some (Some ''2'')"
  "ixmlElement_setAttributeNode replacing_dom 2 5 False = None"
  by code_simp+

text \<open>A plain attribute has no local name, which the lookups by namespace compare: they read through \<open>NULL\<close>.\<close>

lemma namespace_lookup_faults: "ixmlElement_getAttributeNS attr_dom 2 (Some ''ns'') (Some ''x'') = None"
  by code_simp

text \<open>A node may become its own child.\<close>

lemma append_to_itself:
  "do { (rc, d) \<leftarrow> ixmlNode_appendChild sample_dom 5 5; fld d 5 (\<lambda>n. (rc, parentNode n, firstChild n)) } =
     Some (IXML_SUCCESS, 5, 5)"
  by code_simp

text \<open>
  A child of another node is appended without being taken out of its old place; below a later sibling it
  is refused as if it were an ancestor.
\<close>

lemma append_keeps_old_place:
  "do { (rc, d) \<leftarrow> ixmlNode_appendChild sample_dom 4 3; a \<leftarrow> fld d 2 firstChild; b \<leftarrow> fld d 4 firstChild; Some (rc, a, b) } =
     Some (IXML_SUCCESS, 3, 3)"
  by code_simp

lemma append_below_later_sibling:
  "map_option fst (ixmlNode_appendChild (sample_dom\<lparr>nodes := (nodes sample_dom)(4 \<mapsto> sample_node eELEMENT_NODE ''c'' 2 5 3 0,
     5 \<mapsto> sample_node eELEMENT_NODE ''d'' 4 0 0 0)\<rparr>) 5 3) = Some IXML_HIERARCHY_REQUEST_ERR"
  by code_simp

text \<open>The last child of a leaf is the leaf, and the list of its children has one cell.\<close>

lemma leaf_last_child:
  "ixmlNode_getLastChild sample_dom 4 = Some 4" "map_option ixmlNodeList_length (ixmlNode_getChildNodes sample_dom 4) = Some 1"
  by code_simp+

text \<open>Without a reference child nothing is ever inserted.\<close>

lemma insert_before_null:
  "ixmlNode_insertBefore d p c NULL = Some (rc, d') \<Longrightarrow> rc \<noteq> IXML_SUCCESS \<and> d' = d"
  by (auto simp: ixmlNode_insertBefore_def ixmlNode_isParent_def split: if_splits bind_splits)

end
