(* ===== verification/Service_Table.thy ===== *)
theory Service_Table
  imports Gena_Events Ixml_Attrs
begin

text \<open>
  The service table of a device, \<^verbatim>\<open>genlib/service_table/service_table.c\<close>: services with their
  subscriptions, built from the device description.

  A pointer into a chained list is a position in it. The functions that release subscriptions also
  return the heap of queued events; \<open>None\<close> is a fault (a dangling pointer or a \<open>NULL\<close> string passed to
  \<open>strcmp\<close>). As in the model of the XML documents, building a table does not run out of memory.
  \<open>removeServiceTable\<close>, which nothing calls, is left out.
\<close>

section \<open>Data\<close>

record service_info =
  serviceType :: DOMString
  serviceId :: DOMString
  SCPDURL :: DOMString
  controlURL :: DOMString
  eventURL :: DOMString
  UDN :: DOMString
  svc_active :: bool
  TotalSubscriptions :: int
  subscriptionList :: "subscription list"

text \<open>\<open>URLBase_freed\<close> is set when the pointer \<open>URLBase\<close> dangles.\<close>

record service_table =
  URLBase :: DOMString
  URLBase_freed :: bool
  serviceList :: "service_info list"

section \<open>Subscriptions of a service\<close>

fun remove_sid_loop ::
  "event_heap \<Rightarrow> string \<Rightarrow> subscription list \<Rightarrow> subscription list \<Rightarrow> int \<Rightarrow> (event_heap \<times> subscription list \<times> int) option" where
  "remove_sid_loop eh s previous [] n = Some (eh, previous, n)"
| "remove_sid_loop eh s previous (finger # rest) n =
     (if s = sid finger then do {
        eh1 \<leftarrow> freeSubscriptionList eh [finger];
        Some (eh1, previous @ rest, n - 1)
      }
      else remove_sid_loop eh s (previous @ [finger]) rest n)"

definition RemoveSubscriptionSID :: "event_heap \<Rightarrow> string \<Rightarrow> service_info \<Rightarrow> (event_heap \<times> service_info) option" where
  "RemoveSubscriptionSID eh s service = do {
     (eh1, l, n) \<leftarrow> remove_sid_loop eh s [] (subscriptionList service) (TotalSubscriptions service);
     Some (eh1, service\<lparr>subscriptionList := l, TotalSubscriptions := n\<rparr>)
   }"

fun find_sid :: "nat \<Rightarrow> string \<Rightarrow> subscription list \<Rightarrow> nat option" where
  "find_sid i s [] = None"
| "find_sid i s (next # rest) = (if sid next = s then Some i else find_sid (i + 1) s rest)"

definition expired :: "int \<Rightarrow> subscription \<Rightarrow> bool" where
  "expired current_time sub \<longleftrightarrow> expireTime sub \<noteq> 0 \<and> expireTime sub < current_time"

definition GetSubscriptionSID ::
  "event_heap \<Rightarrow> int \<Rightarrow> string \<Rightarrow> service_info \<Rightarrow> (nat option \<times> event_heap \<times> service_info) option" where
  "GetSubscriptionSID eh current_time s service =
     (case find_sid 0 s (subscriptionList service) of None \<Rightarrow> Some (None, eh, service)
      | Some i \<Rightarrow>
          let found = subscriptionList service ! i in
          if expired current_time found then do {
            eh1 \<leftarrow> freeSubscriptionList eh [found];
            Some (None, eh1,
              service\<lparr>subscriptionList := take i (subscriptionList service) @ drop (i + 1) (subscriptionList service),
                      TotalSubscriptions := TotalSubscriptions service - 1\<rparr>)
          }
          else Some (Some i, eh, service))"

text \<open>
  The loop of \<open>GetNextSubscription\<close>: \<open>previous\<close> are the subscriptions up to the one before \<open>current\<close>. The
  result is the position found, the list and the count.
\<close>

fun next_subscription_loop ::
  "event_heap \<Rightarrow> int \<Rightarrow> subscription list \<Rightarrow> subscription list \<Rightarrow> int \<Rightarrow>
   (nat option \<times> event_heap \<times> subscription list \<times> int) option" where
  "next_subscription_loop eh current_time previous [] n = Some (None, eh, previous, n)"
| "next_subscription_loop eh current_time previous (current # rest) n =
     (if expired current_time current then do {
        eh1 \<leftarrow> freeSubscriptionList eh [current];
        next_subscription_loop eh1 current_time previous rest (n - 1)
      }
      else if sub_active current then Some (Some (length previous), eh, previous @ current # rest, n)
      else next_subscription_loop eh current_time (previous @ [current]) rest n)"

definition GetNextSubscription ::
  "event_heap \<Rightarrow> int \<Rightarrow> service_info \<Rightarrow> nat \<Rightarrow> (nat option \<times> event_heap \<times> service_info) option" where
  "GetNextSubscription eh current_time service current = do {
     (next, eh1, l, n) \<leftarrow>
       next_subscription_loop eh current_time (take (current + 1) (subscriptionList service))
         (drop (current + 1) (subscriptionList service)) (TotalSubscriptions service);
     Some (next, eh1, service\<lparr>subscriptionList := l, TotalSubscriptions := n\<rparr>)
   }"

definition GetFirstSubscription ::
  "event_heap \<Rightarrow> int \<Rightarrow> service_info \<Rightarrow> (nat option \<times> event_heap \<times> service_info) option" where
  "GetFirstSubscription eh current_time service = do {
     (next, eh1, l, n) \<leftarrow>
       next_subscription_loop eh current_time [] (subscriptionList service) (TotalSubscriptions service);
     Some (next, eh1, service\<lparr>subscriptionList := l, TotalSubscriptions := n\<rparr>)
   }"
section \<open>Looking up services\<close>

fun FindServiceId_loop :: "nat \<Rightarrow> service_info list \<Rightarrow> string \<Rightarrow> string \<Rightarrow> nat option option" where
  "FindServiceId_loop i [] servId udn = Some None"
| "FindServiceId_loop i (finger # rest) servId udn = do {
     found \<leftarrow> and_then (str_eq (Some servId) (serviceId finger)) (str_eq (Some udn) (UDN finger));
     if found then Some (Some i) else FindServiceId_loop (i + 1) rest servId udn
   }"

definition FindServiceId :: "service_table \<Rightarrow> string \<Rightarrow> string \<Rightarrow> nat option option" where
  "FindServiceId table servId udn = FindServiceId_loop 0 (serviceList table) servId udn"

text \<open>The test of one service by the path of its control or event URL.\<close>

definition same_path :: "net_env \<Rightarrow> string \<Rightarrow> uri_type \<Rightarrow> DOMString \<Rightarrow> bool" where
  "same_path env path parsed_url_in url =
     (case url of None \<Rightarrow> False
      | Some u \<Rightarrow>
          (case parse_uri env u (length u) of
             (rc, Some parsed_url) \<Rightarrow>
               rc = HTTP_SUCCESS \<and> token_cmp u (pathquery parsed_url) path (pathquery parsed_url_in) = 0
           | _ \<Rightarrow> False))"

fun find_path :: "nat \<Rightarrow> net_env \<Rightarrow> string \<Rightarrow> uri_type \<Rightarrow> DOMString list \<Rightarrow> nat option" where
  "find_path i env path parsed_url_in [] = None"
| "find_path i env path parsed_url_in (url # rest) =
     (if same_path env path parsed_url_in url then Some i else find_path (i + 1) env path parsed_url_in rest)"

definition FindServiceEventURLPath :: "net_env \<Rightarrow> service_table \<Rightarrow> DOMString \<Rightarrow> nat option" where
  "FindServiceEventURLPath env table eventURLPath =
     (case eventURLPath of None \<Rightarrow> None
      | Some path \<Rightarrow>
          (case parse_uri env path (length path) of
             (rc, Some parsed_url_in) \<Rightarrow>
               if rc = HTTP_SUCCESS then find_path 0 env path parsed_url_in (map eventURL (serviceList table)) else None
           | _ \<Rightarrow> None))"

definition FindServiceControlURLPath :: "net_env \<Rightarrow> service_table \<Rightarrow> DOMString \<Rightarrow> nat option" where
  "FindServiceControlURLPath env table controlURLPath =
     (case controlURLPath of None \<Rightarrow> None
      | Some path \<Rightarrow>
          (case parse_uri env path (length path) of
             (rc, Some parsed_url_in) \<Rightarrow>
               if rc = HTTP_SUCCESS then find_path 0 env path parsed_url_in (map controlURL (serviceList table)) else None
           | _ \<Rightarrow> None))"

section \<open>Releasing\<close>

definition freeService :: "event_heap \<Rightarrow> service_info \<Rightarrow> event_heap option" where
  "freeService eh inp = (if subscriptionList inp \<noteq> [] then freeSubscriptionList eh (subscriptionList inp) else Some eh)"

fun freeServiceList :: "event_heap \<Rightarrow> service_info list \<Rightarrow> event_heap option" where
  "freeServiceList eh [] = Some eh"
| "freeServiceList eh (head # rest) = do {
     eh1 \<leftarrow> (if subscriptionList head \<noteq> [] then freeSubscriptionList eh (subscriptionList head) else Some eh);
     freeServiceList eh1 rest
   }"

definition freeServiceTable :: "event_heap \<Rightarrow> service_table \<Rightarrow> (event_heap \<times> service_table) option" where
  "freeServiceTable eh table =
     (if URLBase table \<noteq> None \<and> URLBase_freed table then None
      else do {
        eh1 \<leftarrow> freeServiceList eh (serviceList table);
        Some (eh1, table\<lparr>URLBase_freed := True, serviceList := []\<rparr>)
      })"

section \<open>Reading the description\<close>

definition getElementValue :: "dom_heap \<Rightarrow> addr \<Rightarrow> DOMString option" where
  "getElementValue d node = do {
     child \<leftarrow> ixmlNode_getFirstChild d node;
     if child \<noteq> NULL then do {
       t \<leftarrow> ixmlNode_getNodeType d child;
       if t = eTEXT_NODE then ixmlNode_getNodeValue d child else Some None
     }
     else Some None
   }"

text \<open>The child found, \<open>NULL\<close> when there is none.\<close>

partial_function (option) sub_element_loop :: "dom_heap \<Rightarrow> string \<Rightarrow> addr \<Rightarrow> addr option" where
  "sub_element_loop d element_name child =
     (if child = NULL then Some NULL
      else do {
        t \<leftarrow> ixmlNode_getNodeType d child;
        hit \<leftarrow> (if t = eELEMENT_NODE
                then do { nm \<leftarrow> ixmlNode_getNodeName d child; str_eq nm (Some element_name) }
                else Some False);
        if hit then Some child
        else do { nx \<leftarrow> ixmlNode_getNextSibling d child; sub_element_loop d element_name nx }
      })"

definition getSubElement :: "dom_heap \<Rightarrow> string \<Rightarrow> addr \<Rightarrow> addr option" where
  "getSubElement d element_name node = do {
     child \<leftarrow> ixmlNode_getFirstChild d node;
     sub_element_loop d element_name child
   }"

text \<open>The value of a named sub-element, \<open>NULL\<close> if there is no such element or it has no text.\<close>

definition sub_value :: "dom_heap \<Rightarrow> string \<Rightarrow> addr \<Rightarrow> DOMString option" where
  "sub_value d name node = do {
     e \<leftarrow> getSubElement d name node;
     if e = NULL then Some None else getElementValue d e
   }"

definition resolved_value :: "net_env \<Rightarrow> dom_heap \<Rightarrow> DOMString \<Rightarrow> string \<Rightarrow> addr \<Rightarrow> DOMString option" where
  "resolved_value env d base name node = do {
     v \<leftarrow> sub_value d name node;
     Some (if v = None then None else resolve_rel_url env True base v)
   }"

text \<open>
  One round of the loop of \<open>getServiceList\<close>: the service, and whether it is dropped again. A missing
  control or event URL resets \<open>fail\<close>.
\<close>

definition read_service :: "net_env \<Rightarrow> dom_heap \<Rightarrow> DOMString \<Rightarrow> addr \<Rightarrow> addr \<Rightarrow> (bool \<times> service_info) option" where
  "read_service env d base udn current_service = do {
     u \<leftarrow> getElementValue d udn;
     ty \<leftarrow> sub_value d ''serviceType'' current_service;
     i \<leftarrow> sub_value d ''serviceId'' current_service;
     scpd \<leftarrow> resolved_value env d base ''SCPDURL'' current_service;
     let fail = (u = None \<or> ty = None \<or> i = None \<or> scpd = None);
     ctrl \<leftarrow> resolved_value env d base ''controlURL'' current_service;
     let fail = (if ctrl = None then False else fail);
     ev \<leftarrow> resolved_value env d base ''eventSubURL'' current_service;
     let fail = (if ev = None then False else fail);
     Some (fail, \<lparr>serviceType = ty, serviceId = i, SCPDURL = scpd, controlURL = ctrl, eventURL = ev, UDN = u,
                  svc_active = True, TotalSubscriptions = 0, subscriptionList = []\<rparr>)
   }"

fun service_loop :: "net_env \<Rightarrow> dom_heap \<Rightarrow> DOMString \<Rightarrow> addr \<Rightarrow> service_info list \<Rightarrow> addr list \<Rightarrow> service_info list option" where
  "service_loop env d base udn head [] = Some head"
| "service_loop env d base udn head (current_service # rest) = do {
     (fail, current) \<leftarrow> read_service env d base udn current_service;
     service_loop env d base udn (if fail then head else head @ [current]) rest
   }"

definition getServiceList :: "net_env \<Rightarrow> dom_heap \<Rightarrow> addr \<Rightarrow> DOMString \<Rightarrow> service_info list option" where
  "getServiceList env d node base = do {
     udn \<leftarrow> getSubElement d ''UDN'' node;
     sl \<leftarrow> (if udn \<noteq> NULL then getSubElement d ''serviceList'' node else Some NULL);
     if sl \<noteq> NULL then do {
       serviceNodeList \<leftarrow> ixmlElement_getElementsByTagName d sl (Some ''service'');
       service_loop env d base udn [] serviceNodeList
     }
     else Some []
   }"

fun device_loop :: "net_env \<Rightarrow> dom_heap \<Rightarrow> DOMString \<Rightarrow> service_info list \<Rightarrow> addr list \<Rightarrow> service_info list option" where
  "device_loop env d base head [] = Some head"
| "device_loop env d base head (currentDevice # rest) = do {
     l \<leftarrow> getServiceList env d currentDevice base;
     device_loop env d base (head @ l) rest
   }"

definition getAllServiceList :: "net_env \<Rightarrow> dom_heap \<Rightarrow> addr \<Rightarrow> DOMString \<Rightarrow> service_info list option" where
  "getAllServiceList env d node base = do {
     deviceList \<leftarrow> ixmlElement_getElementsByTagName d node (Some ''device'');
     device_loop env d base [] deviceList
   }"

definition table_base :: "dom_heap \<Rightarrow> addr \<Rightarrow> DOMString \<Rightarrow> DOMString option" where
  "table_base d rt DefaultURLBase = do {
     b \<leftarrow> getSubElement d ''URLBase'' rt;
     if b \<noteq> NULL then getElementValue d b
     else Some (case DefaultURLBase of Some s \<Rightarrow> Some s | None \<Rightarrow> Some [])
   }"

text \<open>Without a service so far there is no last service to append to (\<open>endServiceList\<close> is \<open>NULL\<close>).\<close>

definition addServiceTable ::
  "net_env \<Rightarrow> dom_heap \<Rightarrow> addr \<Rightarrow> service_table \<Rightarrow> DOMString \<Rightarrow> (int \<times> service_table) option" where
  "addServiceTable env d node table DefaultURLBase =
     (if URLBase table \<noteq> None \<and> URLBase_freed table then None
      else do {
        let table = table\<lparr>URLBase := None, URLBase_freed := False\<rparr>;
        rt \<leftarrow> getSubElement d ''root'' node;
        if rt \<noteq> NULL then do {
          base \<leftarrow> table_base d rt DefaultURLBase;
          l \<leftarrow> getAllServiceList env d rt base;
          if serviceList table = [] then None
          else Some (if l \<noteq> [] then 1 else 0, table\<lparr>URLBase := base, serviceList := serviceList table @ l\<rparr>)
        }
        else Some (0, table)
      })"

definition getServiceTable ::
  "net_env \<Rightarrow> dom_heap \<Rightarrow> addr \<Rightarrow> service_table \<Rightarrow> DOMString \<Rightarrow> (int \<times> service_table) option" where
  "getServiceTable env d node out DefaultURLBase = do {
     rt \<leftarrow> getSubElement d ''root'' node;
     if rt \<noteq> NULL then do {
       base \<leftarrow> table_base d rt DefaultURLBase;
       l \<leftarrow> getAllServiceList env d rt base;
       Some (if l \<noteq> [] then 1 else 0, out\<lparr>URLBase := base, URLBase_freed := False, serviceList := l\<rparr>)
     }
     else Some (0, out)
   }"

end
