(* ===== verification/Ixml_Parser.thy ===== *)
theory Ixml_Parser
  imports Ixml_Element
begin

text \<open>
  The XML parser (\<^verbatim>\<open>ixml/src/ixmlparser.c\<close>): skipping, tokens, tags, attributes, content, namespaces and
  the loop that builds the document. A pointer into the NUL-terminated buffer is the rest of the buffer
  from it; \<open>err\<close> is the replacement character of \<^verbatim>\<open>ixmlRelaxParser\<close>. A \<open>NULL\<close> token buffer is the empty
  string (it is cleared before every token, and nothing empty is appended). Allocation does not fail.
\<close>

section \<open>Constants and state\<close>

definition WHITESPACE :: string where "WHITESPACE = [CHR 0x0A, CHR 0x09, CHR 0x0D, CHR 0x20]"
definition COMPLETETAG :: string where "COMPLETETAG = ''/>''"
definition ENDTAG :: string where "ENDTAG = ''</''"
definition XMLDECL :: string where "XMLDECL = ''<?xml ''"
definition XMLDECL2 :: string where "XMLDECL2 = ''<?xml?''"
definition BEGIN_COMMENT :: string where "BEGIN_COMMENT = ''<!--''"
definition END_COMMENT :: string where "END_COMMENT = ''-->''"
definition BEGIN_PI :: string where "BEGIN_PI = ''<?''"
definition END_PI :: string where "END_PI = ''?>''"
definition BEGIN_DOCTYPE :: string where "BEGIN_DOCTYPE = ''<!DOCTYPE''"
definition CDSTART :: string where "CDSTART = ''<![CDATA[''"
definition CDEND :: string where "CDEND = '']]>''"
definition UTF8_BOM :: string where "UTF8_BOM = [CHR 0xEF, CHR 0xBB, CHR 0xBF]"

abbreviation (input) DQ :: char where "DQ \<equiv> CHR 0x22"
abbreviation (input) SQ :: char where "SQ \<equiv> CHR 0x27"

datatype PARSER_STATE = eELEMENT | eATTRIBUTE | eCONTENT

record IXML_NamespaceURI =
  ns_prefix :: string
  nsURI :: string

text \<open>The list \<open>pNsURI\<close> of an element of the stack is in its order.\<close>

record IXML_ElementStack =
  es_element :: string
  es_prefix :: DOMString
  es_namespaceUri :: DOMString
  pNsURI :: "IXML_NamespaceURI list"

text \<open>\<open>pCurElement\<close> is the stack from its top; \<open>docheap\<close> is the heap of the nodes that are built.\<close>

record Parser =
  curPtr :: string
  savePtr :: string
  lastElem :: DOMString
  tokenBuf :: string
  pNeedPrefixNode :: addr
  pCurElement :: "IXML_ElementStack list"
  currentNodePtr :: addr
  pstate :: PARSER_STATE
  bHasTopLevel :: bool
  docheap :: dom_heap

definition at_key :: "string \<Rightarrow> string \<Rightarrow> bool" where
  "at_key s key \<longleftrightarrow> strncmp s key (length key) = 0"

definition at_key_nocase :: "string \<Rightarrow> string \<Rightarrow> bool" where
  "at_key_nocase s key \<longleftrightarrow> strncasecmp s key (length key) = 0"

text \<open>\<open>strstr\<close>: from the first occurrence of the key on.\<close>

fun find_key :: "string \<Rightarrow> string \<Rightarrow> string option" where
  "find_key [] key = (if key = [] then Some [] else None)"
| "find_key (c # s) key = (if take (length key) (c # s) = key then Some (c # s) else find_key s key)"

section \<open>Skipping\<close>

function skipDocType_loop :: "nat \<Rightarrow> string \<Rightarrow> (nat \<times> string) option" where
  "skipDocType_loop num s =
     (if num = 0 then Some (num, s)
      else case s of [] \<Rightarrow> Some (num, [])
      | c # cs \<Rightarrow>
          if c = CHR ''<'' then skipDocType_loop (num + 1) cs
          else if c = CHR ''>'' then skipDocType_loop (num - 1) cs
          else if c = DQ
          then (case dropWhile (\<lambda>x. x \<noteq> DQ) cs of [] \<Rightarrow> None | q # rest \<Rightarrow> skipDocType_loop num rest)
          else skipDocType_loop num cs)"
  by pat_completeness auto
termination
proof (relation "measure (length \<circ> snd)", goal_cases)
  case (4 num s c cs q rest)
  have "length (dropWhile (\<lambda>x. x \<noteq> DQ) cs) \<le> length cs" by (rule length_dropWhile_le)
  then show ?case using 4 by simp
qed auto

declare skipDocType_loop.simps [simp del]

definition Parser_skipDocType :: "string \<Rightarrow> ixml_code \<times> string" where
  "Parser_skipDocType s =
     (case skipDocType_loop 1 s of None \<Rightarrow> (IXML_SYNTAX_ERR, s)
      | Some (num, t) \<Rightarrow> if num = 0 then (IXML_SUCCESS, t) else (IXML_SYNTAX_ERR, s))"

fun skipString_loop :: "string \<Rightarrow> string \<Rightarrow> string" where
  "skipString_loop key [] = []"
| "skipString_loop key (c # s) = (if \<not> at_key (c # s) key then skipString_loop key s else c # s)"

definition Parser_skipString :: "string \<Rightarrow> string \<Rightarrow> ixml_code \<times> string" where
  "Parser_skipString s key =
     (let t = skipString_loop key s
      in if t = [] then (IXML_SYNTAX_ERR, t) else (IXML_SUCCESS, drop (length key) t))"

definition Parser_skipBom :: "string \<Rightarrow> string" where
  "Parser_skipBom s = (if at_key s UTF8_BOM then drop (length UTF8_BOM) s else s)"

definition Parser_skipWhiteSpaces :: "string \<Rightarrow> string" where
  "Parser_skipWhiteSpaces s = dropWhile (\<lambda>c. c \<in> set WHITESPACE) s"

definition Parser_skipXMLDecl :: "string \<Rightarrow> ixml_code \<times> string" where
  "Parser_skipXMLDecl s = (case Parser_skipString s END_PI of (rc, t) \<Rightarrow> (rc, Parser_skipWhiteSpaces t))"

definition Parser_skipComment :: "string \<Rightarrow> ixml_code \<times> string" where
  "Parser_skipComment s =
     (case find_key s END_COMMENT of None \<Rightarrow> (IXML_SYNTAX_ERR, s)
      | Some t \<Rightarrow>
          let k = length s - length t
          in if k \<noteq> 0 \<and> s ! (k - 1) \<noteq> CHR ''-'' then (IXML_SUCCESS, drop (length END_COMMENT) t)
             else (IXML_SYNTAX_ERR, s))"

definition Parser_skipPI :: "string \<Rightarrow> ixml_code \<times> string" where
  "Parser_skipPI s =
     (if at_key_nocase s XMLDECL \<or> at_key_nocase s XMLDECL2 then (IXML_SYNTAX_ERR, s)
      else if at_key_nocase s BEGIN_PI
      then (case find_key s END_PI of None \<Rightarrow> (IXML_SYNTAX_ERR, s)
            | Some t \<Rightarrow> if length t \<noteq> length s then (IXML_SUCCESS, drop (length BEGIN_PI) t) else (IXML_SYNTAX_ERR, s))
      else (IXML_SUCCESS, s))"

lemma find_key_length: "find_key s key = Some t \<Longrightarrow> length t \<le> length s"
  by (induction s) (auto split: if_splits)

lemma find_key_at: "find_key s key = Some t \<Longrightarrow> take (length key) t = key"
  by (induction s) (auto split: if_splits)

lemma skipComment_shorter:
  assumes "Parser_skipComment s = (IXML_SUCCESS, t)"
  shows "length t < length s"
proof -
  obtain u where u: "find_key s END_COMMENT = Some u" "t = drop (length END_COMMENT) u"
    using assms by (auto simp: Parser_skipComment_def Let_def split: option.splits if_splits)
  then have "u \<noteq> []" using find_key_at [OF u(1)] by (auto simp: END_COMMENT_def)
  then show ?thesis using u find_key_length [OF u(1)] by (cases u) (auto simp: END_COMMENT_def)
qed

lemma skipString_loop_length: "length (skipString_loop key s) \<le> length s"
  by (induction s) auto

lemma skipString_shorter:
  "Parser_skipString s key = (IXML_SUCCESS, t) \<Longrightarrow> key \<noteq> [] \<Longrightarrow> length t < length s"
  using skipString_loop_length [of key s]
  by (cases "skipString_loop key s"; cases key) (auto simp: Parser_skipString_def Let_def)

lemma skipWhiteSpaces_length: "length (Parser_skipWhiteSpaces s) \<le> length s"
  unfolding Parser_skipWhiteSpaces_def by (rule length_dropWhile_le)

function Parser_skipMisc :: "string \<Rightarrow> ixml_code \<times> string" where
  "Parser_skipMisc s =
     (if at_key_nocase s BEGIN_COMMENT then
        case Parser_skipComment s of (rc, t) \<Rightarrow>
          if rc = IXML_SUCCESS then Parser_skipMisc (Parser_skipWhiteSpaces t) else (rc, Parser_skipWhiteSpaces t)
      else if at_key_nocase s XMLDECL \<or> at_key_nocase s XMLDECL2 then (IXML_SYNTAX_ERR, Parser_skipWhiteSpaces s)
      else if at_key_nocase s BEGIN_PI then
        case Parser_skipString s END_PI of (rc, t) \<Rightarrow>
          if rc = IXML_SUCCESS then Parser_skipMisc (Parser_skipWhiteSpaces t) else (rc, Parser_skipWhiteSpaces t)
      else (IXML_SUCCESS, Parser_skipWhiteSpaces s))"
  by pat_completeness auto
termination
proof (relation "measure length", goal_cases)
  case (2 s rc t)
  then have "length t < length s" using skipComment_shorter by metis
  then show ?case using skipWhiteSpaces_length [of t] by simp
next
  case (3 s rc t)
  then have "length t < length s" using skipString_shorter [of s END_PI t] by (simp add: END_PI_def)
  then show ?case using skipWhiteSpaces_length [of t] by simp
qed simp

declare Parser_skipMisc.simps [simp del]

definition Parser_skipProlog :: "string \<Rightarrow> ixml_code \<times> string" where
  "Parser_skipProlog s0 =
     (let s = Parser_skipWhiteSpaces (Parser_skipBom s0);
          (rc0, s1) = (if at_key s XMLDECL then Parser_skipXMLDecl s else (IXML_SUCCESS, s))
      in if rc0 \<noteq> IXML_SUCCESS then (rc0, s1)
         else
           let (rc, s2) = Parser_skipMisc s1;
               (rc2, s3) = (if rc = IXML_SUCCESS \<and> at_key s2 BEGIN_DOCTYPE then Parser_skipDocType (tl s2) else (rc, s2))
           in if rc2 = IXML_SUCCESS then Parser_skipMisc s3 else (rc2, s3))"

section \<open>Tokens\<close>

lemma name_char_bound: "Parser_isNameChar c b \<Longrightarrow> 0x2D \<le> c \<and> c \<le> 0xD7A3"
proof -
  have "list_all (\<lambda>r. 0x2D \<le> fst r \<and> snd r \<le> 0xD7A3) Letter" "list_all (\<lambda>r. 0x2D \<le> fst r \<and> snd r \<le> 0xD7A3) NameChar"
    by code_simp+
  then have "in_ranges c Letter \<or> in_ranges c NameChar \<Longrightarrow> 0x2D \<le> c \<and> c \<le> 0xD7A3"
    by (fastforce simp: in_ranges_def in_range_def list_ex_iff list_all_iff)
  then show "Parser_isNameChar c b \<Longrightarrow> 0x2D \<le> c \<and> c \<le> 0xD7A3"
    by (auto simp: Parser_isNameChar_def letters.search name_chars.search split: if_splits)
qed

lemma UTF8ToInt_Nil: "Parser_UTF8ToInt err [] = (0, 1)"
  by (simp add: Parser_UTF8ToInt_def at_byte_def)

lemma name_char_step:
  assumes "Parser_UTF8ToInt err s = (c, n)" "Parser_isNameChar c b"
  shows "0 < n" "s \<noteq> []" "length (drop n s) < length s"
proof -
  show n: "0 < n" using UTF8ToInt_progress [OF assms(1)] name_char_bound [OF assms(2)] by auto
  show s: "s \<noteq> []" using assms name_char_bound [OF assms(2)] by (auto simp: UTF8ToInt_Nil)
  show "length (drop n s) < length s" using n s by simp
qed

text \<open>The number of bytes of the name characters from here on.\<close>

function name_rest :: "char \<Rightarrow> string \<Rightarrow> nat" where
  "name_rest err s =
     (case Parser_UTF8ToInt err s of (c, tlen) \<Rightarrow>
        if Parser_isNameChar c True then tlen + name_rest err (drop tlen s) else 0)"
  by pat_completeness auto
termination
  by (relation "measure (\<lambda>(err, s). length s)") (auto simp del: length_drop dest!: sym [of "(_, _)"] name_char_step(3))

declare name_rest.simps [simp del]

text \<open>
  The length of the token at the pointer, \<^term>\<open>None\<close> where the code returns 0 at once. A \<open>/\<close> that is not
  followed by \<open>>\<close> has length 0.
\<close>

definition token_length :: "char \<Rightarrow> string \<Rightarrow> nat option" where
  "token_length err s =
     (let c = cur_char s in
      if c = DQ then Some 1
      else if c = SQ then Some 1
      else if c = CHR ''<'' then
        (let temp = fst (Parser_UTF8ToInt err (tl s))
         in if temp = schar CHR ''/'' then Some 2 else if Parser_isNameChar temp False then Some 1 else None)
      else if c = CHR ''='' then Some 1
      else if c = CHR ''/'' then (if cur_char (tl s) = CHR ''>'' then Some 2 else Some 0)
      else if c = CHR ''>'' then Some 1
      else case Parser_UTF8ToInt err s of (i, tlen) \<Rightarrow>
        if Parser_isNameChar i False then Some (tlen + name_rest err (drop tlen s)) else None)"

definition Parser_getNextToken :: "char \<Rightarrow> Parser \<Rightarrow> (nat \<times> Parser) option" where
  "Parser_getNextToken err p0 =
     (let p = p0\<lparr>tokenBuf := []\<rparr> in
      if curPtr p = [] then Some (0, p)
      else case Parser_skipMisc (curPtr p) of (rc, s) \<Rightarrow>
        if rc \<noteq> IXML_SUCCESS then Some (0, p\<lparr>curPtr := s\<rparr>)
        else case token_length err s of
          None \<Rightarrow> Some (0, p\<lparr>curPtr := s\<rparr>)
        | Some n \<Rightarrow> do {
            let p1 = p\<lparr>curPtr := s, savePtr := (if take 2 s = COMPLETETAG then s else savePtr p)\<rparr>;
            (ok, tok) \<leftarrow> Parser_copyToken err s (int n) [];
            if \<not> ok then Some (0, p1\<lparr>tokenBuf := tok\<rparr>)
            else Some (n, p1\<lparr>tokenBuf := tok, curPtr := drop n s\<rparr>)
          })"

section \<open>Tags\<close>

text \<open>
  Each of the following gives the return code, the parser and the node that is being read, or \<^term>\<open>None\<close>
  for a fault.
\<close>

type_synonym parse_result = "(ixml_code \<times> Parser \<times> IXML_Node) option"

definition Parser_processSTag :: "char \<Rightarrow> Parser \<Rightarrow> IXML_Node \<Rightarrow> parse_result" where
  "Parser_processSTag err p node = do {
     (n, p1) \<leftarrow> Parser_getNextToken err p;
     if n = 0 then Some (IXML_SYNTAX_ERR, p1, node)
     else if tokenBuf p1 = [] then Some (IXML_SYNTAX_ERR, p1, node)
     else do {
       let p2 = p1\<lparr>lastElem := Some (tokenBuf p1)\<rparr>;
       (rc, node1) \<leftarrow> Parser_setNodePrefixAndLocalName (node\<lparr>nodeName := Some (tokenBuf p1)\<rparr>);
       let node2 = node1\<lparr>nodeValue := None, nodeType := eELEMENT_NODE\<rparr>;
       let p3 = p2\<lparr>savePtr := curPtr p2\<rparr>;
       (m, p4) \<leftarrow> Parser_getNextToken err p3;
       if m = 0 then Some (IXML_SYNTAX_ERR, p4, node2)
       else if tokenBuf p4 = COMPLETETAG
       then Some (IXML_SUCCESS, p4\<lparr>pstate := eELEMENT, curPtr := savePtr p4\<rparr>, node2)
       else if tokenBuf p4 = ''>'' then Some (IXML_SUCCESS, p4\<lparr>pstate := eCONTENT\<rparr>, node2)
       else Some (IXML_SUCCESS, p4\<lparr>pstate := eATTRIBUTE, curPtr := savePtr p4\<rparr>, node2)
     }
   }"

definition Parser_processETag :: "char \<Rightarrow> Parser \<Rightarrow> IXML_Node \<Rightarrow> (ixml_code \<times> bool \<times> Parser \<times> IXML_Node) option" where
  "Parser_processETag err p node = do {
     (n, p1) \<leftarrow> Parser_getNextToken err p;
     if n = 0 then Some (IXML_SYNTAX_ERR, False, p1, node)
     else if tokenBuf p1 = [] then Some (IXML_SYNTAX_ERR, False, p1, node)
     else do {
       let node1 = node\<lparr>nodeName := Some (tokenBuf p1), nodeValue := None, nodeType := eELEMENT_NODE\<rparr>;
       (m, p2) \<leftarrow> Parser_getNextToken err (p1\<lparr>curPtr := Parser_skipWhiteSpaces (curPtr p1)\<rparr>);
       if m = 0 then Some (IXML_SYNTAX_ERR, False, p2, node1)
       else if tokenBuf p2 = [] then Some (IXML_SYNTAX_ERR, False, p2, node1)
       else if tokenBuf p2 \<noteq> ''>'' then Some (IXML_SYNTAX_ERR, False, p2, node1)
       else Some (IXML_SUCCESS, True, p2, node1)
     }
   }"

section \<open>Content\<close>

text \<open>The \<open>char\<close> is signed, so the scan of a CDATA section stops at every byte that is not ASCII.\<close>

fun cdata_end :: "string \<Rightarrow> string" where
  "cdata_end [] = []"
| "cdata_end (c # s) =
     (if Parser_isXmlChar (schar c) then (if at_key (c # s) CDEND then c # s else cdata_end s) else c # s)"

text \<open>The pointer behind the section; \<open>strlen(CDEND)\<close> bytes are skipped wherever the scan stopped.\<close>

definition Parser_processCDSect :: "string \<Rightarrow> IXML_Node \<Rightarrow> (ixml_code \<times> string \<times> IXML_Node) option" where
  "Parser_processCDSect s node =
     (let start = drop (length CDSTART) s;
          e = cdata_end start;
          n = length start - length e
      in if 0 < n \<and> e \<noteq> [] then
           if length e < length CDEND then None
           else Some (IXML_SUCCESS, drop (length CDEND) e,
                  node\<lparr>nodeValue := Some (take n start), nodeName := Some CDATANODENAME, nodeType := eCDATA_SECTION_NODE\<rparr>)
         else Some (IXML_SYNTAX_ERR, s, node))"

fun content_end :: "string \<Rightarrow> string" where
  "content_end [] = []"
| "content_end (c # s) = (if c \<noteq> CHR ''<'' \<and> \<not> at_key (c # s) CDEND then content_end s else c # s)"

definition Parser_processContent :: "char \<Rightarrow> Parser \<Rightarrow> IXML_Node \<Rightarrow> parse_result" where
  "Parser_processContent err p node =
     (let s0 = curPtr p; s = Parser_skipWhiteSpaces s0; p1 = p\<lparr>savePtr := s0, curPtr := s\<rparr> in
      if s = [] then Some (IXML_SUCCESS, p1, node)
      else if cur_char s = CHR ''<'' then
        if at_key s CDSTART then do {
          (rc, t, node1) \<leftarrow> Parser_processCDSect s node;
          if rc \<noteq> IXML_SUCCESS then Some (IXML_SYNTAX_ERR, p1, node1) else Some (IXML_SUCCESS, p1\<lparr>curPtr := t\<rparr>, node1)
        }
        else if at_key s BEGIN_COMMENT then
          (case Parser_skipComment s of (rc, t) \<Rightarrow>
             Some (if rc \<noteq> IXML_SUCCESS then (IXML_SYNTAX_ERR, p1, node) else (IXML_SUCCESS, p1\<lparr>curPtr := t\<rparr>, node)))
        else if at_key s BEGIN_PI then
          (case Parser_skipPI s of (rc, t) \<Rightarrow>
             Some (if rc \<noteq> IXML_SUCCESS then (IXML_SYNTAX_ERR, p1, node) else (IXML_SUCCESS, p1\<lparr>curPtr := t\<rparr>, node)))
        else Some (IXML_SUCCESS, p1\<lparr>pstate := eELEMENT\<rparr>, node)
      else
        let p2 = p1\<lparr>curPtr := s0\<rparr>; e = content_end s0 in
        if at_key e CDEND then Some (IXML_SYNTAX_ERR, p2, node)
        else do {
          let n = length s0 - length e;
          (ok, tok) \<leftarrow> Parser_copyToken err s0 (int n) [];
          let p3 = p2\<lparr>tokenBuf := tok\<rparr>;
          if \<not> ok then Some (IXML_SYNTAX_ERR, p3, node)
          else if tok = [] then Some (IXML_SYNTAX_ERR, p3, node)
          else Some (IXML_SUCCESS, p3\<lparr>curPtr := drop n s0\<rparr>,
                 node\<lparr>nodeValue := Some tok, nodeName := Some TEXTNODENAME, nodeType := eTEXT_NODE\<rparr>)
        })"

section \<open>Namespaces\<close>

text \<open>The prefix of the element on top of the stack is not \<open>NULL\<close> where this is called.\<close>

definition Parser_getNameSpace :: "IXML_ElementStack \<Rightarrow> string \<Rightarrow> DOMString option" where
  "Parser_getNameSpace pCur p = do {
     same \<leftarrow> str_eq (es_prefix pCur) (Some p);
     if \<not> same
     then Some (case filter (\<lambda>u. ns_prefix u = p) (pNsURI pCur) of [] \<Rightarrow> None | u # _ \<Rightarrow> Some (nsURI u))
     else Some (es_namespaceUri pCur)
   }"

definition Parser_addNamespace :: "Parser \<Rightarrow> (ixml_code \<times> Parser) option" where
  "Parser_addNamespace p =
     (case pCurElement p of [] \<Rightarrow> None
      | pCur # _ \<Rightarrow> do {
          n \<leftarrow> nodes (docheap p) (pNeedPrefixNode p);
          if prefix n = None then do {
            same \<leftarrow> str_eq (nodeName n) (Some (es_element pCur));
            if \<not> same then Some (IXML_FAILED, p)
            else do {
              d \<leftarrow> (if es_namespaceUri pCur \<noteq> None
                    then upd (docheap p) (pNeedPrefixNode p) (namespaceURI_update (\<lambda>_. es_namespaceUri pCur))
                    else Some (docheap p));
              Some (IXML_SUCCESS, p\<lparr>docheap := d, pNeedPrefixNode := NULL\<rparr>)
            }
          }
          else if es_prefix pCur = None then Some (IXML_FAILED, p)
          else do {
            same_name \<leftarrow> str_eq (nodeName n) (Some (es_element pCur));
            if \<not> same_name \<and> prefix n \<noteq> es_prefix pCur then Some (IXML_FAILED, p)
            else do {
              u \<leftarrow> Parser_getNameSpace pCur (the (es_prefix pCur));
              if u \<noteq> None then do {
                d \<leftarrow> upd (docheap p) (pNeedPrefixNode p) (namespaceURI_update (\<lambda>_. u));
                Some (IXML_SUCCESS, p\<lparr>docheap := d, pNeedPrefixNode := NULL\<rparr>)
              } else Some (IXML_SUCCESS, p)
            }
          }
        })"

text \<open>A definition of a prefix replaces an earlier one of the element or goes to the end of the list.\<close>

fun set_ns :: "string \<Rightarrow> string \<Rightarrow> IXML_NamespaceURI list \<Rightarrow> IXML_NamespaceURI list" where
  "set_ns p u [] = [\<lparr>ns_prefix = p, nsURI = u\<rparr>]"
| "set_ns p u (x # xs) = (if ns_prefix x = p then x\<lparr>nsURI := u\<rparr> # xs else x # set_ns p u xs)"

definition safe_strdup :: "DOMString \<Rightarrow> string" where
  "safe_strdup s = (case s of None \<Rightarrow> [] | Some x \<Rightarrow> x)"

definition XMLNS :: string where "XMLNS = ''xmlns''"
definition XMLNS_COLON :: string where "XMLNS_COLON = ''xmlns:''"

definition Parser_xmlNamespace :: "Parser \<Rightarrow> IXML_Node \<Rightarrow> parse_result" where
  "Parser_xmlNamespace p newNode = do {
     name \<leftarrow> nodeName newNode;
     (rc, p1, node1) \<leftarrow>
       (if name = XMLNS then
          (case pCurElement p of [] \<Rightarrow> None
           | pCur # rest \<Rightarrow>
               Some (IXML_SUCCESS, p\<lparr>pCurElement := pCur\<lparr>es_namespaceUri := Some (safe_strdup (nodeValue newNode))\<rparr> # rest\<rparr>, newNode))
        else if at_key name XMLNS_COLON then do {
          (rc, node1) \<leftarrow> Parser_setNodePrefixAndLocalName newNode;
          (case pCurElement p of [] \<Rightarrow> Some (IXML_FAILED, p, node1)
           | pCur # rest \<Rightarrow>
               if es_prefix pCur \<noteq> None \<and> es_prefix pCur = localName node1
               then Some (IXML_SUCCESS, p\<lparr>pCurElement := pCur\<lparr>es_namespaceUri := Some (safe_strdup (nodeValue node1))\<rparr> # rest\<rparr>, node1)
               else Some (IXML_SUCCESS,
                      p\<lparr>pCurElement :=
                          pCur\<lparr>pNsURI := set_ns (safe_strdup (localName node1)) (safe_strdup (nodeValue node1)) (pNsURI pCur)\<rparr> # rest\<rparr>,
                      node1))
        }
        else Some (IXML_SUCCESS, p, newNode));
     if rc \<noteq> IXML_SUCCESS then Some (rc, p1, node1)
     else if pNeedPrefixNode p1 \<noteq> NULL
     then do { (rc2, p2) \<leftarrow> Parser_addNamespace p1; Some (rc2, p2, node1) }
     else Some (IXML_SUCCESS, p1, node1)
   }"

section \<open>Attributes\<close>

text \<open>The end of the value is the first quote of the kind that opened it.\<close>

definition Parser_processAttribute :: "char \<Rightarrow> Parser \<Rightarrow> IXML_Node \<Rightarrow> parse_result" where
  "Parser_processAttribute err p node =
     (if tokenBuf p = [] then Some (IXML_SYNTAX_ERR, p, node)
      else if \<not> Parser_isNameChar (fst (Parser_UTF8ToInt err (tokenBuf p))) False then Some (IXML_SYNTAX_ERR, p, node)
      else do {
        let node1 = node\<lparr>nodeName := Some (tokenBuf p)\<rparr>;
        (n, p1) \<leftarrow> Parser_getNextToken err p;
        if n = 0 then Some (IXML_SYNTAX_ERR, p1, node1)
        else if cur_char (tokenBuf p1) \<noteq> CHR ''='' then Some (IXML_SYNTAX_ERR, p1, node1)
        else do {
          (m, p2) \<leftarrow> Parser_getNextToken err p1;
          if m = 0 then Some (IXML_SYNTAX_ERR, p2, node1)
          else if cur_char (tokenBuf p2) \<noteq> DQ \<and> cur_char (tokenBuf p2) \<noteq> SQ then Some (IXML_SYNTAX_ERR, p2, node1)
          else (case find_key (curPtr p2) (tokenBuf p2) of
              None \<Rightarrow> Some (IXML_SYNTAX_ERR, p2, node1)
            | Some e \<Rightarrow> do {
                let k = length (curPtr p2) - length e;
                let val = take k (curPtr p2);
                if CHR ''<'' \<in> set val then Some (IXML_SYNTAX_ERR, p2, node1)
                else do {
                  (ok, tok) \<leftarrow> (if k \<noteq> 0 then Parser_copyToken err (curPtr p2) (int k) [] else Some (True, []));
                  let p3 = p2\<lparr>tokenBuf := tok\<rparr>;
                  if \<not> ok then Some (IXML_SYNTAX_ERR, p3, node1)
                  else do {
                    let p4 = p3\<lparr>curPtr := tl e\<rparr>;
                    let node2 = node1\<lparr>nodeValue := Some tok, nodeType := eATTRIBUTE_NODE\<rparr>;
                    (rc, p5, node3) \<leftarrow> Parser_xmlNamespace p4 node2;
                    if rc \<noteq> IXML_SUCCESS then Some (rc, p5, node3)
                    else do {
                      let p6 = p5\<lparr>savePtr := curPtr p5\<rparr>;
                      (r, p7) \<leftarrow> Parser_getNextToken err p6;
                      if r = 0 then Some (IXML_SYNTAX_ERR, p7, node3)
                      else if tokenBuf p7 = ''<'' then Some (IXML_FAILED, p7, node3)
                      else if tokenBuf p7 \<noteq> ''>'' then Some (IXML_SUCCESS, p7\<lparr>curPtr := savePtr p7\<rparr>, node3)
                      else Some (IXML_SUCCESS, p7\<lparr>pstate := eCONTENT\<rparr>, node3)
                    }
                  }
                }
              })
        }
      })"

section \<open>The next node\<close>

definition Parser_getNextNode :: "char \<Rightarrow> Parser \<Rightarrow> IXML_Node \<Rightarrow> (ixml_code \<times> bool \<times> Parser \<times> IXML_Node) option" where
  "Parser_getNextNode err p node =
     (if curPtr p = [] then Some (IXML_FILE_DONE, True, p, node)
      else if pstate p = eCONTENT
      then do { (rc, p1, node1) \<leftarrow> Parser_processContent err p node; Some (rc, False, p1, node1) }
      else do {
        (tokenLen, p1) \<leftarrow> Parser_getNextToken err (p\<lparr>curPtr := Parser_skipWhiteSpaces (curPtr p)\<rparr>);
        if tokenLen = 0 \<and> pCurElement p1 = [] \<and> curPtr p1 = [] then Some (IXML_SUCCESS, False, p1, node)
        else if tokenBuf p1 = [] then Some (IXML_SYNTAX_ERR, False, p1, node)
        else if cur_char (tokenBuf p1) = CHR ''>'' then Some (IXML_SUCCESS, False, p1, node)
        else if tokenBuf p1 = ENDTAG then Parser_processETag err p1 node
        else if cur_char (tokenBuf p1) = CHR ''<''
        then do { (rc, p2, node1) \<leftarrow> Parser_processSTag err p1 node; Some (rc, False, p2, node1) }
        else if tokenBuf p1 = COMPLETETAG then
          (case lastElem p1 of None \<Rightarrow> Some (IXML_SYNTAX_ERR, False, p1, node)
           | Some l \<Rightarrow> Some (IXML_SUCCESS, True, p1, node\<lparr>nodeName := Some l, nodeType := eELEMENT_NODE\<rparr>))
        else if pCurElement p1 \<noteq> [] then
          (if pstate p1 = eATTRIBUTE then do {
             (rc, p2, node1) \<leftarrow> Parser_processAttribute err p1 node;
             Some (if rc \<noteq> IXML_SUCCESS then IXML_SYNTAX_ERR else IXML_SUCCESS, False, p2, node1)
           } else Some (IXML_SYNTAX_ERR, False, p1, node))
        else Some (IXML_SYNTAX_ERR, False, p1, node)
      })"

section \<open>Elements of the document\<close>

text \<open>The namespace a prefix has on the stack: \<^term>\<open>None\<close> where no element defines it.\<close>

fun Parser_ElementPrefixDefined :: "string \<Rightarrow> IXML_ElementStack list \<Rightarrow> DOMString option" where
  "Parser_ElementPrefixDefined p [] = None"
| "Parser_ElementPrefixDefined p (pCur # rest) =
     (if es_prefix pCur = Some p then Some (es_namespaceUri pCur)
      else case filter (\<lambda>u. ns_prefix u = p) (pNsURI pCur) of
          u # _ \<Rightarrow> Some (Some (nsURI u))
        | [] \<Rightarrow> Parser_ElementPrefixDefined p rest)"

fun Parser_hasDefaultNamespace :: "IXML_ElementStack list \<Rightarrow> DOMString option" where
  "Parser_hasDefaultNamespace [] = None"
| "Parser_hasDefaultNamespace (pCur # rest) =
     (if es_prefix pCur = None \<and> es_namespaceUri pCur \<noteq> None then Some (es_namespaceUri pCur)
      else Parser_hasDefaultNamespace rest)"

definition Parser_setElementNamespace :: "dom_heap \<Rightarrow> addr \<Rightarrow> DOMString \<Rightarrow> (ixml_code \<times> dom_heap) option" where
  "Parser_setElementNamespace d newElement u =
     (if newElement \<noteq> NULL then do {
        n \<leftarrow> nodes d newElement;
        if namespaceURI n \<noteq> None then Some (IXML_SYNTAX_ERR, d)
        else do {
          d1 \<leftarrow> upd d newElement (namespaceURI_update (\<lambda>_. Some (safe_strdup u)));
          Some (IXML_SUCCESS, d1)
        }
      } else Some (IXML_SUCCESS, d))"

definition isDuplicateAttribute :: "Parser \<Rightarrow> IXML_Node \<Rightarrow> bool option" where
  "isDuplicateAttribute p newAttrNode = do {
     fa \<leftarrow> fld (docheap p) (currentNodePtr p) firstAttr;
     a \<leftarrow> find_attr (docheap p) (\<lambda>n. str_eq (nodeName n) (nodeName newAttrNode)) fa;
     Some (a \<noteq> NULL)
   }"

definition Parser_processAttributeName :: "addr \<Rightarrow> Parser \<Rightarrow> IXML_Node \<Rightarrow> (ixml_code \<times> Parser) option" where
  "Parser_processAttributeName rootDoc p newNode = do {
     dup \<leftarrow> isDuplicateAttribute p newNode;
     if dup then Some (IXML_SYNTAX_ERR, p)
     else do {
       (rc, attr, d1) \<leftarrow> ixmlDocument_createAttributeEx (docheap p) rootDoc (nodeName newNode);
       (rc2, d2) \<leftarrow> ixmlNode_setNodeProperties d1 attr newNode;
       (rc3, old, d3) \<leftarrow> ixmlElement_setAttributeNode d2 (currentNodePtr p) attr False;
       if rc3 \<noteq> IXML_SUCCESS
       then do { d4 \<leftarrow> ixmlNode_free d3 attr; Some (rc3, p\<lparr>docheap := d4\<rparr>) }
       else Some (IXML_SUCCESS, p\<lparr>docheap := d3\<rparr>)
     }
   }"

definition Parser_pushElement :: "Parser \<Rightarrow> addr \<Rightarrow> (ixml_code \<times> Parser) option" where
  "Parser_pushElement p newElement =
     (if newElement \<noteq> NULL then do {
        n \<leftarrow> nodes (docheap p) newElement;
        let item = \<lparr>es_element = safe_strdup (nodeName n), es_prefix = prefix n,
                    es_namespaceUri = namespaceURI n, pNsURI = []\<rparr>;
        Some (IXML_SUCCESS, p\<lparr>pCurElement := item # pCurElement p\<rparr>)
      } else Some (IXML_SUCCESS, p))"

definition isTopLevelElement :: "Parser \<Rightarrow> bool" where
  "isTopLevelElement p \<longleftrightarrow> pCurElement p = []"

definition Parser_processElementName :: "addr \<Rightarrow> Parser \<Rightarrow> IXML_Node \<Rightarrow> (ixml_code \<times> Parser) option" where
  "Parser_processElementName rootDoc p0 newNode =
     (if bHasTopLevel p0 \<and> isTopLevelElement p0 then Some (IXML_SYNTAX_ERR, p0)
      else
        let p = p0\<lparr>bHasTopLevel := True, savePtr := curPtr p0\<rparr> in
        case ixmlDocument_createElementEx (docheap p) rootDoc (nodeName newNode) of (rc, newElement, d1) \<Rightarrow>
          if rc \<noteq> IXML_SUCCESS then Some (rc, p)
          else do {
            (rc2, d2) \<leftarrow> ixmlNode_setNodeProperties d1 newElement newNode;
            (need, d3) \<leftarrow>
              (case prefix newNode of
                 Some pre \<Rightarrow>
                   (case Parser_ElementPrefixDefined pre (pCurElement p) of
                      None \<Rightarrow> Some (newElement, d2)
                    | Some u \<Rightarrow> do { (r, d') \<leftarrow> Parser_setElementNamespace d2 newElement u; Some (pNeedPrefixNode p, d') })
               | None \<Rightarrow>
                   (case Parser_hasDefaultNamespace (pCurElement p) of
                      Some u \<Rightarrow> do { (r, d') \<leftarrow> Parser_setElementNamespace d2 newElement u; Some (pNeedPrefixNode p, d') }
                    | None \<Rightarrow> Some (if pstate p = eATTRIBUTE then newElement else pNeedPrefixNode p, d2)));
            (rc4, d4) \<leftarrow> ixmlNode_appendChild d3 (currentNodePtr p) newElement;
            if rc4 \<noteq> IXML_SUCCESS
            then do {
              d5 \<leftarrow> ixmlNode_free d4 newElement;
              Some (rc4, p\<lparr>docheap := d5, pNeedPrefixNode := need\<rparr>)
            }
            else Parser_pushElement (p\<lparr>docheap := d4, pNeedPrefixNode := need, currentNodePtr := newElement\<rparr>) newElement
          })"

definition Parser_isValidEndElement :: "Parser \<Rightarrow> IXML_Node \<Rightarrow> bool option" where
  "Parser_isValidEndElement p newNode =
     (case pCurElement p of [] \<Rightarrow> Some False
      | pCur # _ \<Rightarrow> str_eq (Some (es_element pCur)) (nodeName newNode))"

definition Parser_popElement :: "Parser \<Rightarrow> Parser" where
  "Parser_popElement p = p\<lparr>pCurElement := tl (pCurElement p)\<rparr>"

definition Parser_eTagVerification :: "Parser \<Rightarrow> IXML_Node \<Rightarrow> (ixml_code \<times> Parser) option" where
  "Parser_eTagVerification p newNode = do {
     (rc, p1) \<leftarrow>
       (if nodeType newNode = eELEMENT_NODE then do {
          valid \<leftarrow> Parser_isValidEndElement p newNode;
          Some (if valid then (IXML_SUCCESS, Parser_popElement p) else (IXML_SYNTAX_ERR, p))
        } else Some (IXML_SUCCESS, p));
     if rc \<noteq> IXML_SUCCESS then Some (rc, p1)
     else do {
       n \<leftarrow> nodes (docheap p1) (currentNodePtr p1);
       same \<leftarrow> str_eq (nodeName newNode) (nodeName n);
       if same then Some (IXML_SUCCESS, p1\<lparr>currentNodePtr := parentNode n\<rparr>) else Some (IXML_SYNTAX_ERR, p1)
     }
   }"

section \<open>The document\<close>

text \<open>What the loop does with a node that was read.\<close>

definition handle_node :: "addr \<Rightarrow> bool \<Rightarrow> Parser \<Rightarrow> IXML_Node \<Rightarrow> (ixml_code \<times> Parser) option" where
  "handle_node rootDoc bETag p newNode =
     (if \<not> bETag then
        (case nodeType newNode of
           eELEMENT_NODE \<Rightarrow> Parser_processElementName rootDoc p newNode
         | eTEXT_NODE \<Rightarrow>
             (case ixmlDocument_createTextNodeEx (docheap p) rootDoc (nodeValue newNode) of (rc, tempNode, d1) \<Rightarrow>
                if rc \<noteq> IXML_SUCCESS then Some (rc, p\<lparr>docheap := d1\<rparr>)
                else do {
                  (rc2, d2) \<leftarrow> ixmlNode_appendChild d1 (currentNodePtr p) tempNode;
                  Some (rc2, p\<lparr>docheap := d2\<rparr>)
                })
         | eCDATA_SECTION_NODE \<Rightarrow>
             (case ixmlDocument_createCDATASectionEx (docheap p) rootDoc (nodeValue newNode) of (rc, cdataSecNode, d1) \<Rightarrow>
                if rc \<noteq> IXML_SUCCESS then Some (rc, p\<lparr>docheap := d1\<rparr>)
                else do {
                  (rc2, d2) \<leftarrow> ixmlNode_appendChild d1 (currentNodePtr p) cdataSecNode;
                  Some (rc2, p\<lparr>docheap := d2\<rparr>)
                })
         | eATTRIBUTE_NODE \<Rightarrow> Parser_processAttributeName rootDoc p newNode
         | _ \<Rightarrow> Some (IXML_SUCCESS, p))
      else do {
        (rc, p1) \<leftarrow> Parser_eTagVerification p newNode;
        Some (rc, if rc \<noteq> IXML_SUCCESS then p1 else p1\<lparr>pstate := eCONTENT\<rparr>)
      })"


end
