(* ===== verification/Ixml_Load.thy ===== *)
theory Ixml_Load
  imports Ixml_Parser Ixml_Attrs
begin

text \<open>
  The loop of the parser (\<^verbatim>\<open>Parser_parseDocument\<close>) and what is built on it, down to \<^verbatim>\<open>ixmlParseBufferEx\<close>.
  The first part shows that every function of the parser that succeeds has read something, which is what
  the definition of the loop needs to be total: whatever the input, the parser returns.
\<close>

section \<open>Progress of the parser\<close>

text \<open>A token that has a length is copied without an error, and no other token leaves anything behind.\<close>

lemma isXmlChar_name: "Parser_isNameChar c b \<Longrightarrow> Parser_isXmlChar c"
  using name_char_bound by (fastforce simp: Parser_isXmlChar_def)

lemma intToUTF8_some: "0 \<le> c \<Longrightarrow> c \<le> 0x7FFFFFFF \<Longrightarrow> Parser_intToUTF8 c \<noteq> []"
  by (auto simp: Parser_intToUTF8_def)

lemma UTF8ToInt_ascii:
  assumes "0 < schar (cur_char s)"
  shows "Parser_UTF8ToInt err s = (schar (cur_char s), 1)"
proof -
  have b: "byte_of (cur_char s) < 128" using assms schar_pos by simp
  then have "schar (cur_char s) = int (byte_of (cur_char s))" by (simp add: schar_def)
  moreover have "s \<noteq> []" using assms by (auto simp: cur_char_def schar_def byte_of_def NUL_def)
  then have "at_byte s 0 = int (byte_of (cur_char s))" by (cases s) (simp_all add: at_byte_def cur_char_def)
  ultimately have "at_byte s 0 = schar (cur_char s)" "at_byte s 0 \<le> 127" using b by linarith+
  then show ?thesis by (simp add: Parser_UTF8ToInt_def)
qed

lemma getChar_name:
  assumes "Parser_UTF8ToInt err s = (c, n)" "Parser_isNameChar c b" "cur_char s \<noteq> CHR ''&''"
  shows "Parser_getChar err s = Some (c, n)"
  using assms isXmlChar_name [OF assms(2)] UTF8ToInt_ascii [of s err] by (auto simp: Parser_getChar_def)

lemma name_not_amp:
  assumes "Parser_UTF8ToInt err s = (c, n)" "Parser_isNameChar c b"
  shows "cur_char s \<noteq> CHR ''&''"
proof
  assume "cur_char s = CHR ''&''"
  moreover have "schar CHR ''&'' = 38" by code_simp
  ultimately show False using assms UTF8ToInt_ascii [of s err] name_char_bound [OF assms(2)] by simp
qed

lemma copyToken_name_step:
  assumes "Parser_UTF8ToInt err s = (c, n)" "Parser_isNameChar c b" "0 \<le> k"
  shows "\<exists>t. copyToken_loop err s (int n + k) tok = copyToken_loop err (drop n s) k (tok @ t)"
proof -
  have n: "0 < n" by (rule name_char_step(1) [OF assms(1,2)])
  have c: "0 < c" "c \<le> 0x7FFFFFFF" using name_char_bound [OF assms(2)] by auto
  note g = getChar_name [OF assms(1,2) name_not_amp [OF assms(1,2)]]
  show ?thesis
    using n c g assms(3) intToUTF8_some [of c]
    by (subst copyToken_loop.simps) (auto intro: exI [of _ "[to_char c]"] exI [of _ "Parser_intToUTF8 c"])
qed

lemma copyToken_name_rest: "\<exists>t. copyToken_loop err s (int (name_rest err s)) tok = Some (True, t)"
proof (induction err s arbitrary: tok rule: name_rest.induct)
  case (1 err s)
  obtain c n where u: "Parser_UTF8ToInt err s = (c, n)" by fastforce
  show ?case
  proof (cases "Parser_isNameChar c True")
    case True
    have r: "name_rest err s = n + name_rest err (drop n s)" using u True by (subst name_rest.simps) simp
    obtain t where "copyToken_loop err s (int n + int (name_rest err (drop n s))) tok =
        copyToken_loop err (drop n s) (int (name_rest err (drop n s))) (tok @ t)"
      using copyToken_name_step [OF u True, of "int (name_rest err (drop n s))" tok] by auto
    then show ?thesis using 1 [OF u [symmetric] True, of "tok @ t"] r by simp
  next
    case False
    then have "name_rest err s = 0" using u by (subst name_rest.simps) simp
    then show ?thesis by (subst copyToken_loop.simps) simp
  qed
qed

lemma copyToken_ascii:
  assumes "0 < schar c" "Parser_isXmlChar (schar c)" "c \<noteq> CHR ''&''" "0 \<le> k"
  shows "copyToken_loop err (c # s) (1 + k) tok = copyToken_loop err s k (tok @ [to_char (schar c)])"
  using assms by (subst copyToken_loop.simps) (auto simp: Parser_getChar_def cur_char_def)

lemma copyToken_done [simp]: "copyToken_loop err s 0 tok = Some (True, tok)"
  by (subst copyToken_loop.simps) simp

lemma copyToken_neg: "k < 0 \<Longrightarrow> copyToken_loop err s k tok = Some (False, tok)"
  by (subst copyToken_loop.simps) simp

lemma token_copied:
  assumes "token_length err s = Some n" "Parser_copyToken err s (int n) [] = Some (ok, tok)"
  shows "n = 0 \<Longrightarrow> \<not> ok \<and> tok = []" "n \<noteq> 0 \<Longrightarrow> s \<noteq> [] \<and> (ok \<or> tok = ENDTAG)"
proof -
  show "n = 0 \<Longrightarrow> \<not> ok \<and> tok = []" using assms(2) by (simp add: Parser_copyToken_def)
next
  assume False: "n \<noteq> 0"
  have ne: "s \<noteq> []"
  proof
    assume s: "s = []"
    have nb: "\<not> Parser_isNameChar 0 b" for b using name_char_bound [of 0 b] by auto
    have "token_length err [] = None" by (simp add: token_length_def cur_char_def NUL_def UTF8ToInt_Nil nb)
    then show False using assms(1) s by simp
  qed
  then obtain c t where s: "s = c # t" by (cases s) auto
  have copied: "copyToken_loop err s (int n) [] = Some (ok, tok)" using assms(2) False by (simp add: Parser_copyToken_def)
  have codes: "schar DQ = 34" "schar SQ = 39" "schar CHR ''<'' = 60" "schar CHR ''='' = 61"
    "schar CHR ''/'' = 47" "schar CHR ''>'' = 62" by code_simp+
  have xml: "Parser_isXmlChar 34" "Parser_isXmlChar 39" "Parser_isXmlChar 60" "Parser_isXmlChar 61"
    "Parser_isXmlChar 47" "Parser_isXmlChar 62" by (simp_all add: Parser_isXmlChar_def)
  have one: "copyToken_loop err (x # t) 1 [] = Some (True, [to_char (schar x)])"
    if "x \<in> {DQ, SQ, CHR ''<'', CHR ''='', CHR ''>''}" for x
    using copyToken_ascii [of x 0 err t "[]"] that codes xml by auto
  have two: "copyToken_loop err (x # y # u) 2 [] = Some (True, [to_char (schar x), to_char (schar y)])"
    if "(x, y) \<in> {(CHR ''<'', CHR ''/''), (CHR ''/'', CHR ''>'')}" for x y u
    using copyToken_ascii [of x 1 err "y # u" "[]"] copyToken_ascii [of y 0 err u "[to_char (schar x)]"]
      that codes xml by auto
  obtain i0 k0 where u: "Parser_UTF8ToInt err s = (i0, k0)" by fastforce
  have tl: "token_length err s =
     (if c = DQ \<or> c = SQ \<or> c = CHR ''='' \<or> c = CHR ''>'' then Some 1
      else if c = CHR ''<'' then
        (if fst (Parser_UTF8ToInt err t) = 47 then Some 2
         else if Parser_isNameChar (fst (Parser_UTF8ToInt err t)) False then Some 1 else None)
      else if c = CHR ''/'' then (if cur_char t = CHR ''>'' then Some 2 else Some 0)
      else if Parser_isNameChar i0 False then Some (k0 + name_rest err (drop k0 s)) else None)"
    using u codes(5) unfolding s token_length_def by (simp add: cur_char_def Let_def)
  have if_expr: "(if b then x else y) = z \<Longrightarrow> (b \<Longrightarrow> x = z \<Longrightarrow> R) \<Longrightarrow> (\<not> b \<Longrightarrow> y = z \<Longrightarrow> R) \<Longrightarrow> R" for b R and x y z :: "nat option"
    by (cases b) auto
  consider (name) i k where "Parser_UTF8ToInt err s = (i, k)" "Parser_isNameChar i False" "n = k + name_rest err (drop k s)"
    | (quote) "n = 1" "c \<in> {DQ, SQ, CHR ''<'', CHR ''='', CHR ''>''}"
    | (end_tag) "n = 2" "c = CHR ''<''" "fst (Parser_UTF8ToInt err t) = 47"
    | (complete) "n = 2" "c = CHR ''/''" "cur_char t = CHR ''>''"
    using assms(1) False u unfolding tl by (elim if_expr) auto
  then have "ok \<or> tok = ENDTAG"
  proof cases
    case name
    obtain t1 where "copyToken_loop err s (int k + int (name_rest err (drop k s))) [] =
        copyToken_loop err (drop k s) (int (name_rest err (drop k s))) ([] @ t1)"
      using copyToken_name_step [OF name(1,2), of "int (name_rest err (drop k s))" "[]"] by auto
    then show ?thesis using copied name(3) copyToken_name_rest [of err "drop k s" "[] @ t1"] by auto
  next
    case quote
    then show ?thesis using copied one s by simp
  next
    case end_tag
    then obtain k where k: "Parser_UTF8ToInt err t = (47, k)" by (cases "Parser_UTF8ToInt err t") auto
    have amp: "cur_char t \<noteq> CHR ''&''"
    proof
      assume "cur_char t = CHR ''&''"
      moreover have "schar CHR ''&'' = 38" by code_simp
      ultimately show False using k UTF8ToInt_ascii [of t err] by simp
    qed
    have g: "Parser_getChar err t = Some (47, k)"
      using k amp xml UTF8ToInt_ascii [of t err] by (auto simp: Parser_getChar_def)
    have bytes: "to_char 60 = CHR ''<''" "to_char 47 = CHR ''/''" "Parser_intToUTF8 47 = ''/''" by code_simp+
    have "copyToken_loop err s 2 [] = copyToken_loop err t 1 ''<''"
      using copyToken_ascii [of c 1 err t "[]"] end_tag(2) s codes xml bytes by simp
    moreover have "0 < k" using UTF8ToInt_progress [OF k] by simp
    then have "copyToken_loop err t 1 ''<'' = Some (k = 1, ENDTAG)"
      using g bytes by (subst copyToken_loop.simps) (auto simp: ENDTAG_def copyToken_neg)
    ultimately show ?thesis using copied end_tag(1) by simp
  next
    case complete
    then obtain u where "t = CHR ''>'' # u" by (cases t) (auto simp: cur_char_def NUL_def)
    then show ?thesis using copied two [of "CHR ''/''" "CHR ''>''" u] s complete by simp
  qed
  then show "s \<noteq> [] \<and> (ok \<or> tok = ENDTAG)" using ne by simp
qed

lemma skipMisc_length: "Parser_skipMisc s = (rc, t) \<Longrightarrow> length t \<le> length s"
proof (induction s arbitrary: t rule: Parser_skipMisc.induct)
  case (1 s)
  have ws: "length (Parser_skipWhiteSpaces u) \<le> length s" if "length u \<le> length s" for u
    using skipWhiteSpaces_length [of u] that by simp
  have comment: "length u \<le> length s" if "Parser_skipComment s = (r, u)" for r u
    using that find_key_length by (fastforce simp: Parser_skipComment_def Let_def split: option.splits if_splits)
  have pi: "length u \<le> length s" if "Parser_skipString s END_PI = (r, u)" for r u
    using that skipString_loop_length [of END_PI s]
    by (auto simp: Parser_skipString_def Let_def split: if_splits)
  obtain r u where ru: "Parser_skipComment s = (r, u)" by fastforce
  obtain q v where qv: "Parser_skipString s END_PI = (q, v)" by fastforce
  note l = ws [OF comment [OF ru]] ws [OF pi [OF qv]] ws [OF le_refl]
  show ?case
  proof (cases "at_key_nocase s BEGIN_COMMENT")
    case True
    then have "(if r = IXML_SUCCESS then Parser_skipMisc (Parser_skipWhiteSpaces u)
        else (r, Parser_skipWhiteSpaces u)) = (rc, t)"
      using 1(3) ru unfolding Parser_skipMisc.simps [of s] by simp
    then show ?thesis using 1(1) [OF True ru [symmetric]] l(1) by (cases "r = IXML_SUCCESS") (force dest: le_trans)+
  next
    case False
    show ?thesis
    proof (cases "\<not> (at_key_nocase s XMLDECL \<or> at_key_nocase s XMLDECL2) \<and> at_key_nocase s BEGIN_PI")
      case True
      then have "(if q = IXML_SUCCESS then Parser_skipMisc (Parser_skipWhiteSpaces v)
          else (q, Parser_skipWhiteSpaces v)) = (rc, t)"
        using 1(3) qv False unfolding Parser_skipMisc.simps [of s] by simp
      then show ?thesis
        using 1(2) [OF False _ _ qv [symmetric]] True l(2) by (cases "q = IXML_SUCCESS") (force dest: le_trans)+
    next
      case no: False
      then show ?thesis using 1(3) False l(3) unfolding Parser_skipMisc.simps [of s] by (auto split: if_splits)
    qed
  qed
qed

lemma getNextToken_progress:
  assumes "Parser_getNextToken err p = Some (n, q)"
  shows "length (curPtr q) \<le> length (curPtr p)" "n \<noteq> 0 \<Longrightarrow> length (curPtr q) < length (curPtr p)"
    "n = 0 \<Longrightarrow> tokenBuf q = [] \<or> tokenBuf q = ENDTAG"
    "length (savePtr q) \<le> length (curPtr p) \<or> savePtr q = savePtr p" "pstate q = pstate p"
    "pCurElement q = pCurElement p"
proof -
  let ?p = "p\<lparr>tokenBuf := []\<rparr>"
  let ?goal = "length (curPtr q) \<le> length (curPtr p) \<and> (n \<noteq> 0 \<longrightarrow> length (curPtr q) < length (curPtr p)) \<and>
    (n = 0 \<longrightarrow> tokenBuf q = [] \<or> tokenBuf q = ENDTAG) \<and>
    (length (savePtr q) \<le> length (curPtr p) \<or> savePtr q = savePtr p) \<and> pstate q = pstate p \<and>
    pCurElement q = pCurElement p"
  have ?goal
  proof (cases "curPtr p = []")
    case True
    then show ?thesis using assms by (auto simp: Parser_getNextToken_def Let_def)
  next
    case False
    obtain rc s where m: "Parser_skipMisc (curPtr p) = (rc, s)" by fastforce
    note len = skipMisc_length [OF m]
    show ?thesis
    proof (cases "rc = IXML_SUCCESS \<and> token_length err s \<noteq> None")
      case no: False
      then have "n = 0 \<and> q = ?p\<lparr>curPtr := s\<rparr>"
        using assms False m by (auto simp: Parser_getNextToken_def Let_def split: if_splits)
      then show ?thesis using len by simp
    next
      case True
      then obtain k where k: "token_length err s = Some k" by auto
      let ?p1 = "?p\<lparr>curPtr := s, savePtr := (if take 2 s = COMPLETETAG then s else savePtr p)\<rparr>"
      obtain ok tok where c: "Parser_copyToken err s (int k) [] = Some (ok, tok)"
        using assms False m True k by (auto simp: Parser_getNextToken_def Let_def split: bind_splits)
      have r: "(n, q) = (if \<not> ok then (0, ?p1\<lparr>tokenBuf := tok\<rparr>) else (k, ?p1\<lparr>tokenBuf := tok, curPtr := drop k s\<rparr>))"
        using assms False m True k c by (auto simp: Parser_getNextToken_def Let_def)
      note t = token_copied [OF k c]
      show ?thesis
      proof (cases "k = 0")
        case True
        then show ?thesis using r t(1) len by auto
      next
        case False
        then have "s \<noteq> []" "ok \<or> tok = ENDTAG" using t(2) by auto
        then have "length (drop k s) < length (curPtr p)" using False len by (cases s) auto
        then show ?thesis using r False \<open>ok \<or> tok = ENDTAG\<close> len by (cases ok) auto
      qed
    qed
  qed
  then show "length (curPtr q) \<le> length (curPtr p)" "n \<noteq> 0 \<Longrightarrow> length (curPtr q) < length (curPtr p)"
    "n = 0 \<Longrightarrow> tokenBuf q = [] \<or> tokenBuf q = ENDTAG"
    "length (savePtr q) \<le> length (curPtr p) \<or> savePtr q = savePtr p" "pstate q = pstate p"
    "pCurElement q = pCurElement p"
    by blast+
qed

text \<open>What is left to be read, doubled, and one more inside the content of an element.\<close>

definition parse_left :: "Parser \<Rightarrow> nat" where
  "parse_left p = 2 * length (curPtr p) + (if pstate p = eCONTENT then 1 else 0)"

lemma processSTag_progress:
  assumes "Parser_processSTag err p node = Some (IXML_SUCCESS, q, node1)"
  shows "length (curPtr q) < length (curPtr p)"
proof -
  obtain n p1 where n: "Parser_getNextToken err p = Some (n, p1)"
    using assms by (auto simp: Parser_processSTag_def split: bind_splits)
  have n0: "n \<noteq> 0" "tokenBuf p1 \<noteq> []"
    using assms n by (auto simp: Parser_processSTag_def split: if_splits)
  let ?p3 = "p1\<lparr>lastElem := Some (tokenBuf p1), savePtr := curPtr p1\<rparr>"
  obtain m p4 where m: "Parser_getNextToken err ?p3 = Some (m, p4)"
    and q: "curPtr q = curPtr p4 \<or> curPtr q = savePtr p4"
    using assms n n0
    by (auto simp: Parser_processSTag_def Let_def split: bind_splits if_splits)
  note t1 = getNextToken_progress [OF n] and t2 = getNextToken_progress [OF m]
  have "length (savePtr p4) \<le> length (curPtr p1)" using t2(4) by auto
  then show ?thesis using q t1(2) n0 t2(1) by auto
qed

lemma processETag_progress:
  assumes "Parser_processETag err p node = Some (IXML_SUCCESS, b, q, node1)"
  shows "length (curPtr q) < length (curPtr p)"
proof -
  obtain n p1 where n: "Parser_getNextToken err p = Some (n, p1)"
    using assms by (auto simp: Parser_processETag_def split: bind_splits)
  have n0: "n \<noteq> 0" "tokenBuf p1 \<noteq> []"
    using assms n by (auto simp: Parser_processETag_def split: if_splits)
  let ?p1 = "p1\<lparr>curPtr := Parser_skipWhiteSpaces (curPtr p1)\<rparr>"
  obtain m where m: "Parser_getNextToken err ?p1 = Some (m, q)"
    using assms n n0
    by (auto simp: Parser_processETag_def Let_def split: bind_splits if_splits)
  show ?thesis
    using getNextToken_progress(2) [OF n] getNextToken_progress(1) [OF m] n0(1)
      skipWhiteSpaces_length [of "curPtr p1"] by simp
qed

lemma addNamespace_keeps:
  assumes "Parser_addNamespace p = Some (rc, q)"
  shows "curPtr q = curPtr p \<and> savePtr q = savePtr p \<and> pstate q = pstate p"
  using assms by (auto simp: Parser_addNamespace_def split: list.splits bind_splits if_splits)

lemma xmlNamespace_keeps:
  assumes "Parser_xmlNamespace p node = Some (rc, q, node1)"
  shows "curPtr q = curPtr p \<and> savePtr q = savePtr p \<and> pstate q = pstate p"
  using assms
  by (auto simp: Parser_xmlNamespace_def split: list.splits bind_splits if_splits dest!: addNamespace_keeps)

lemma processAttribute_progress:
  assumes "Parser_processAttribute err p node = Some (IXML_SUCCESS, q, node1)"
  shows "length (curPtr q) < length (curPtr p)"
proof -
  let ?node1 = "node\<lparr>nodeName := Some (tokenBuf p)\<rparr>"
  obtain n p1 where n: "Parser_getNextToken err p = Some (n, p1)" "n \<noteq> 0"
    using assms by (auto simp: Parser_processAttribute_def Let_def split: bind_splits if_splits)
  obtain m p2 where m: "Parser_getNextToken err p1 = Some (m, p2)" "m \<noteq> 0"
    using assms n by (auto simp: Parser_processAttribute_def Let_def split: bind_splits if_splits)
  obtain e where e: "find_key (curPtr p2) (tokenBuf p2) = Some e"
    using assms n m
    by (auto simp: Parser_processAttribute_def Let_def split: bind_splits if_splits option.splits)
  obtain tok p5 node3 node2 where x: "Parser_xmlNamespace (p2\<lparr>tokenBuf := tok, curPtr := tl e\<rparr>) node2 = Some (IXML_SUCCESS, p5, node3)"
    and "\<exists>r p7. Parser_getNextToken err (p5\<lparr>savePtr := curPtr p5\<rparr>) = Some (r, p7) \<and>
        (curPtr q = curPtr p7 \<or> curPtr q = savePtr p7)"
    using assms n m e
    by (auto simp: Parser_processAttribute_def Let_def split: bind_splits if_splits)
  then obtain r p7 where r: "Parser_getNextToken err (p5\<lparr>savePtr := curPtr p5\<rparr>) = Some (r, p7)"
    and q: "curPtr q = curPtr p7 \<or> curPtr q = savePtr p7" by auto
  have "curPtr p5 = tl e" using xmlNamespace_keeps [OF x] by simp
  then have "length (curPtr p5) \<le> length (curPtr p2)" using find_key_length [OF e] by simp
  moreover have "length (curPtr q) \<le> length (curPtr p5)"
    using q getNextToken_progress(1,4) [OF r] by auto
  ultimately show ?thesis
    using getNextToken_progress(2) [OF n(1)] getNextToken_progress(1) [OF m(1)] n(2) by simp
qed

lemma cdata_end_length: "length (cdata_end s) \<le> length s"
  by (induction s) auto

lemma processCDSect_progress:
  assumes "Parser_processCDSect s node = Some (IXML_SUCCESS, t, node1)"
  shows "length t < length s"
  using assms cdata_end_length [of "drop (length CDSTART) s"]
  by (auto simp: Parser_processCDSect_def Let_def CDEND_def CDSTART_def split: if_splits)

lemma byte_of_eq: "byte_of a = byte_of b \<longleftrightarrow> a = b"
  by (simp add: byte_of_def)

lemma at_key_take:
  assumes "NUL \<notin> set key"
  shows "at_key s key \<longleftrightarrow> take (length key) s = key"
  unfolding at_key_def strncmp_def using assms
proof (induction key arbitrary: s)
  case (Cons y b)
  have "byte_of y \<noteq> 0" using Cons.prems byte_of_eq [of y NUL] by (auto simp: NUL_def byte_of_def)
  then show ?case using Cons by (cases s) (auto simp: byte_of_eq)
qed simp

lemma at_key_nocase_refl: "take (length key) s = key \<Longrightarrow> at_key_nocase s key"
  unfolding at_key_nocase_def strncasecmp_def
proof (induction key arbitrary: s)
  case (Cons y b)
  then show ?case by (cases s) auto
qed simp

lemma skipPI_shorter:
  assumes "Parser_skipPI s = (IXML_SUCCESS, t)" "at_key s BEGIN_PI"
  shows "length t < length s"
proof -
  have "take (length BEGIN_PI) s = BEGIN_PI"
    using assms(2) by (subst (asm) at_key_take) (auto simp: BEGIN_PI_def NUL_def)
  then have "at_key_nocase s BEGIN_PI" by (rule at_key_nocase_refl)
  then obtain u where u: "find_key s END_PI = Some u" "t = drop (length BEGIN_PI) u"
    using assms(1) by (auto simp: Parser_skipPI_def split: if_splits option.splits)
  have "take (length END_PI) u = END_PI" by (rule find_key_at [OF u(1)])
  then have "u \<noteq> []" by (auto simp: END_PI_def)
  then show ?thesis using u(2) find_key_length [OF u(1)] by (cases u) (auto simp: BEGIN_PI_def)
qed

lemma processContent_progress:
  assumes "Parser_processContent err p node = Some (IXML_SUCCESS, q, node1)" "pstate p = eCONTENT" "curPtr p \<noteq> []"
  shows "parse_left q < parse_left p"
proof -
  let ?src = "curPtr p"
  let ?s = "Parser_skipWhiteSpaces ?src"
  note ws = skipWhiteSpaces_length [of ?src]
  note cont = assms(1) [unfolded Parser_processContent_def Let_def]
  show ?thesis
  proof (cases "cur_char ?s = CHR ''<'' \<or> ?s = []")
    case True
    show ?thesis
    proof (cases "?s = []")
      case True
      then show ?thesis using cont assms(2,3) by (auto simp: parse_left_def)
    next
      case ne: False
      have lt: "cur_char ?s = CHR ''<''" using True ne by simp
      have shrink: ?thesis if "length (curPtr q) < length ?s" "pstate q = pstate p"
        using that ws by (simp add: parse_left_def)
      consider (cdata) "at_key ?s CDSTART" | (comment) "\<not> at_key ?s CDSTART" "at_key ?s BEGIN_COMMENT"
        | (pi) "\<not> at_key ?s CDSTART" "\<not> at_key ?s BEGIN_COMMENT" "at_key ?s BEGIN_PI"
        | (tag) "\<not> at_key ?s CDSTART" "\<not> at_key ?s BEGIN_COMMENT" "\<not> at_key ?s BEGIN_PI" by blast
      then show ?thesis
      proof cases
        case cdata
        then obtain rc t n1 where r: "Parser_processCDSect ?s node = Some (rc, t, n1)"
          using cont ne lt by (auto split: bind_splits)
        then have "rc = IXML_SUCCESS" "curPtr q = t" "pstate q = pstate p"
          using cont ne lt cdata by (auto split: if_splits)
        then show ?thesis using shrink processCDSect_progress [of ?s node t n1] r by simp
      next
        case comment
        obtain rc t where r: "Parser_skipComment ?s = (rc, t)" by fastforce
        then have "rc = IXML_SUCCESS" "curPtr q = t" "pstate q = pstate p"
          using cont ne lt comment by (auto split: if_splits)
        then show ?thesis using shrink skipComment_shorter [of ?s t] r by simp
      next
        case pi
        obtain rc t where r: "Parser_skipPI ?s = (rc, t)" by fastforce
        then have "rc = IXML_SUCCESS" "curPtr q = t" "pstate q = pstate p"
          using cont ne lt pi by (auto split: if_splits)
        then show ?thesis using shrink skipPI_shorter [of ?s t] pi(3) r by simp
      next
        case tag
        then have "curPtr q = ?s" "pstate q = eELEMENT" using cont ne lt by auto
        then show ?thesis using ws assms(2) by (simp add: parse_left_def)
      qed
    qed
  next
    case False
    let ?n = "length ?src - length (content_end ?src)"
    have "?n \<noteq> 0" "q = p\<lparr>savePtr := ?src, tokenBuf := tokenBuf q, curPtr := drop ?n ?src\<rparr>"
      using cont False
      by (auto simp: Parser_copyToken_def split: if_splits bind_splits)
    then have "curPtr q = drop ?n ?src" "pstate q = pstate p" by (cases q; cases p; simp)+
    then show ?thesis using \<open>?n \<noteq> 0\<close> assms(2,3) by (simp add: parse_left_def)
  qed
qed

lemma getNextNode_progress:
  assumes "Parser_getNextNode err p node = Some (IXML_SUCCESS, b, q, node1)"
  shows "parse_left q < parse_left p" "b \<Longrightarrow> length (curPtr q) < length (curPtr p)"
proof -
  let ?goal = "parse_left q < parse_left p \<and> (b \<longrightarrow> length (curPtr q) < length (curPtr p))"
  have shorter: "length (curPtr q) < length (curPtr p) \<Longrightarrow> pstate p \<noteq> eCONTENT \<Longrightarrow> ?goal"
    by (simp add: parse_left_def)
  have ne: "curPtr p \<noteq> []" using assms by (auto simp: Parser_getNextNode_def)
  have ?goal
  proof (cases "pstate p = eCONTENT")
    case True
    then show ?thesis using assms ne processContent_progress [OF _ True ne]
      by (auto simp: Parser_getNextNode_def split: bind_splits)
  next
    case False
    let ?p = "p\<lparr>curPtr := Parser_skipWhiteSpaces (curPtr p)\<rparr>"
    obtain n p1 where n: "Parser_getNextToken err ?p = Some (n, p1)"
      using assms ne False by (auto simp: Parser_getNextNode_def split: bind_splits)
    note t = getNextToken_progress [OF n]
    have len: "length (curPtr p1) \<le> length (curPtr p)" "n \<noteq> 0 \<Longrightarrow> length (curPtr p1) < length (curPtr p)"
      using t(1,2) skipWhiteSpaces_length [of "curPtr p"] by simp_all
    have tok: "n = 0 \<Longrightarrow> tokenBuf p1 = [] \<or> tokenBuf p1 = ENDTAG" by (rule t(3))
    have attr: "Parser_processAttribute err p1 node = Some (IXML_SUCCESS, q, node1) \<Longrightarrow> length (curPtr q) < length (curPtr p)"
      using processAttribute_progress [of err p1 node q node1] len(1) by simp
    have stag: "Parser_processSTag err p1 node = Some (IXML_SUCCESS, q, node1) \<Longrightarrow> length (curPtr q) < length (curPtr p)"
      using processSTag_progress [of err p1 node q node1] len(1) by simp
    have etag: "Parser_processETag err p1 node = Some (IXML_SUCCESS, b, q, node1) \<Longrightarrow> length (curPtr q) < length (curPtr p)"
      using processETag_progress [of err p1 node b q node1] len(1) by simp
    have rest: "q = p1 \<Longrightarrow> n \<noteq> 0 \<or> curPtr p1 = [] \<Longrightarrow> length (curPtr q) < length (curPtr p)"
      using len ne by auto
    have endtag: "ENDTAG \<noteq> []" "cur_char ENDTAG \<noteq> CHR ''>''" by (simp_all add: ENDTAG_def cur_char_def)
    have "length (curPtr q) < length (curPtr p)"
    proof (cases "n = 0")
      case True
      then show ?thesis
        using assms ne False n tok rest etag endtag
        by (auto simp: Parser_getNextNode_def split: bind_splits if_splits)
    next
      case n0: False
      then show ?thesis
        using assms ne False n rest etag stag attr
        by (auto simp: Parser_getNextNode_def split: bind_splits if_splits option.splits)
    qed
    then show ?thesis using shorter False by blast
  qed
  then show "parse_left q < parse_left p" "b \<Longrightarrow> length (curPtr q) < length (curPtr p)" by blast+
qed

lemma handle_node_keeps:
  assumes "handle_node rootDoc b p n = Some (IXML_SUCCESS, q)"
  shows "curPtr q = curPtr p \<and> pstate q = (if b then eCONTENT else pstate p)"
proof (cases b)
  case True
  then show ?thesis using assms
    by (auto simp: handle_node_def Parser_eTagVerification_def Parser_popElement_def split: bind_splits if_splits)
next
  case False
  then show ?thesis using assms
    by (cases "nodeType n")
      (auto simp: handle_node_def Parser_processElementName_def Parser_processAttributeName_def Parser_pushElement_def Let_def
        split: bind_splits if_splits option.splits prod.splits)
qed

section \<open>The document\<close>

text \<open>The loop of \<open>Parser_parseDocument\<close>: the code it ends with, and the parser then.\<close>

function parse_loop :: "char \<Rightarrow> addr \<Rightarrow> Parser \<Rightarrow> (ixml_code \<times> Parser) option" where
  "parse_loop err gRootDoc p =
     (case Parser_getNextNode err p ixmlNode_init of
        None \<Rightarrow> None
      | Some (rc, bETag, p1, newNode) \<Rightarrow>
          if rc = IXML_SUCCESS then
            (case handle_node gRootDoc bETag p1 newNode of
               None \<Rightarrow> None
             | Some (rc1, p2) \<Rightarrow> if rc1 \<noteq> IXML_SUCCESS then Some (rc1, p2) else parse_loop err gRootDoc p2)
          else if bETag then Some (IXML_SUCCESS, p1)
          else Some (IXML_FAILED, p1))"
  by pat_completeness auto
termination
proof (relation "measure (\<lambda>(err, r, p). parse_left p)", goal_cases)
  case (2 err r p x rc y bETag z p1 newNode w rc1 p2)
  then have n: "Parser_getNextNode err p ixmlNode_init = Some (IXML_SUCCESS, bETag, p1, newNode)"
    and h: "handle_node r bETag p1 newNode = Some (IXML_SUCCESS, p2)" by auto
  show ?case using getNextNode_progress [OF n] handle_node_keeps [OF h]
    by (cases bETag) (auto simp: parse_left_def)
qed simp

declare parse_loop.simps [simp del]

definition ixmlDocument_free :: "dom_heap \<Rightarrow> addr \<Rightarrow> dom_heap option" where
  "ixmlDocument_free d doc = (if doc \<noteq> NULL then ixmlNode_free d doc else Some d)"

definition Parser_parseDocument :: "char \<Rightarrow> Parser \<Rightarrow> (ixml_code \<times> addr \<times> dom_heap) option" where
  "Parser_parseDocument err p =
     (case ixmlDocument_createDocumentEx (docheap p) of (rc0, gRootDoc, d0) \<Rightarrow>
      let fail = (\<lambda>rc d. do { d' \<leftarrow> ixmlDocument_free d gRootDoc; Some (rc, NULL, d') }) in
      if rc0 \<noteq> IXML_SUCCESS then fail rc0 d0
      else case Parser_skipProlog (curPtr p) of (rc, s) \<Rightarrow>
        if rc \<noteq> IXML_SUCCESS then fail rc d0
        else do {
          (rc1, p1) \<leftarrow> parse_loop err gRootDoc (p\<lparr>docheap := d0, currentNodePtr := gRootDoc, curPtr := s\<rparr>);
          if rc1 \<noteq> IXML_SUCCESS then fail rc1 (docheap p1)
          else if pCurElement p1 \<noteq> [] then fail IXML_SYNTAX_ERR (docheap p1)
          else Some (IXML_SUCCESS, gRootDoc, docheap p1)
        })"

text \<open>A parser is zeroed, so its state is the first one of the enumeration.\<close>

definition Parser_init :: "dom_heap \<Rightarrow> Parser" where
  "Parser_init d = \<lparr>curPtr = [], savePtr = [], lastElem = None, tokenBuf = [], pNeedPrefixNode = NULL, pCurElement = [],
     currentNodePtr = NULL, pstate = eELEMENT, bHasTopLevel = False, docheap = d\<rparr>"

text \<open>A document from a buffer; a file that is read gives the same parser.\<close>

definition Parser_LoadDocument :: "char \<Rightarrow> dom_heap \<Rightarrow> string \<Rightarrow> (ixml_code \<times> addr \<times> dom_heap) option" where
  "Parser_LoadDocument err d buffer = Parser_parseDocument err ((Parser_init d)\<lparr>curPtr := buffer\<rparr>)"

definition ixmlParseBufferEx :: "char \<Rightarrow> dom_heap \<Rightarrow> DOMString \<Rightarrow> (ixml_code \<times> addr \<times> dom_heap) option" where
  "ixmlParseBufferEx err d buffer =
     (case buffer of None \<Rightarrow> Some (IXML_INVALID_PARAMETER, NULL, d)
      | Some b \<Rightarrow> if b = [] then Some (IXML_INVALID_PARAMETER, NULL, d) else Parser_LoadDocument err d b)"

definition ixmlParseBuffer :: "char \<Rightarrow> dom_heap \<Rightarrow> DOMString \<Rightarrow> (addr \<times> dom_heap) option" where
  "ixmlParseBuffer err d buffer = do {
     (rc, doc, d1) \<leftarrow> ixmlParseBufferEx err d buffer;
     Some (doc, d1)
   }"


end
