(* ===== verification/Handle_Table.thy ===== *)
theory Handle_Table
  imports Service_Table Ixml_Load
begin

text \<open>
  The table of handles, \<^verbatim>\<open>api/upnpapi.c\<close>: registered devices and control points, their look-up and the
  calls that register, configure and unregister them.

  The globals the library protects with \<open>GlobalHndRWLock\<close> are one record, the state of the SDK. Every
  section between \<open>HandleLock\<close> and \<open>HandleUnlock\<close> is one step; releasing a lock that is not held is
  undefined and gives \<open>None\<close>, like every access through a dangling or \<open>NULL\<close> pointer. The result of
  downloading a description, the answer of \<open>malloc\<close> (with the contents of the block it gives) and the
  result of advertising are arguments. A read lock is treated as a write lock.
\<close>

section \<open>Data\<close>

definition UPNP_E_INVALID_HANDLE :: int where [codes]: "UPNP_E_INVALID_HANDLE = -100"
definition UPNP_E_INVALID_PARAM :: int where [codes]: "UPNP_E_INVALID_PARAM = -101"
definition UPNP_E_OUTOF_HANDLE :: int where [codes]: "UPNP_E_OUTOF_HANDLE = -102"
definition UPNP_E_INVALID_DESC :: int where [codes]: "UPNP_E_INVALID_DESC = -107"
definition UPNP_E_INVALID_SID :: int where [codes]: "UPNP_E_INVALID_SID = -109"
definition UPNP_E_INVALID_SERVICE :: int where [codes]: "UPNP_E_INVALID_SERVICE = -111"
definition UPNP_E_FINISH :: int where [codes]: "UPNP_E_FINISH = -116"
definition UPNP_E_ALREADY_REGISTERED :: int where [codes]: "UPNP_E_ALREADY_REGISTERED = -120"
definition UPNP_INFINITE :: int where [codes]: "UPNP_INFINITE = -1"

definition LINE_SIZE :: nat where "LINE_SIZE = 180"
definition NUM_HANDLE :: nat where "NUM_HANDLE = 200"
definition DEFAULT_MAXAGE :: int where "DEFAULT_MAXAGE = 1800"
definition AUTO_ADVERTISEMENT_TIME :: int where "AUTO_ADVERTISEMENT_TIME = 30"

datatype Upnp_Handle_Type = HND_INVALID | HND_CLIENT | HND_DEVICE

record client_subscription =
  cs_RenewEventId :: int
  cs_SID :: string
  cs_ActualSID :: string
  cs_EventURL :: string

record Handle_Info =
  HType :: Upnp_Handle_Type
  Callback :: addr
  Cookie :: addr
  aliasInstalled :: bool
  DescURL :: string
  LowerDescURL :: string
  MaxAge :: int
  PowerState :: int
  SleepPeriod :: int
  RegistrationState :: int
  DescDocument :: addr
  DeviceList :: "addr list"
  ServiceList :: "addr list"
  ServiceTable :: service_table
  MaxSubscriptions :: int
  MaxSubscriptionTimeOut :: int
  DeviceAf :: family
  ClientSubList :: "client_subscription list"
  SsdpSearchList :: "addr list"

record upnp =
  locked :: bool
  UpnpSdkInit :: int
  HandleTable :: "Handle_Info option list"
  UpnpSdkClientRegistered :: int
  UpnpSdkDeviceRegisteredV4 :: int
  UpnpSdkDeviceregisteredV6 :: int
  docs :: dom_heap
  events :: event_heap
  gSendThreadPool :: "ThreadPoolJob list"
  g_UpnpSdkEQMaxLen :: int
  g_UpnpSdkEQMaxAge :: int
  g_maxContentLength :: nat

definition zero_table :: service_table where
  "zero_table = \<lparr>URLBase = None, URLBase_freed = False, serviceList = []\<rparr>"

text \<open>A structure after \<open>memset\<close>.\<close>

definition zero_info :: Handle_Info where
  "zero_info = \<lparr>HType = HND_INVALID, Callback = NULL, Cookie = NULL, aliasInstalled = False, DescURL = [],
     LowerDescURL = [], MaxAge = 0, PowerState = 0, SleepPeriod = 0, RegistrationState = 0, DescDocument = NULL,
     DeviceList = [], ServiceList = [], ServiceTable = zero_table, MaxSubscriptions = 0,
     MaxSubscriptionTimeOut = 0, DeviceAf = AF_UNSPEC, ClientSubList = [], SsdpSearchList = []\<rparr>"

section \<open>The lock and the table\<close>

definition HandleLock :: "upnp \<Rightarrow> upnp option" where
  "HandleLock st = (if locked st then None else Some (st\<lparr>locked := True\<rparr>))"

definition HandleUnlock :: "upnp \<Rightarrow> upnp option" where
  "HandleUnlock st = (if locked st then Some (st\<lparr>locked := False\<rparr>) else None)"

text \<open>Leaving a section with a result.\<close>

definition leave :: "'a \<Rightarrow> upnp \<Rightarrow> ('a \<times> upnp) option" where
  "leave r st = map_option (Pair r) (HandleUnlock st)"

definition slot :: "upnp \<Rightarrow> int \<Rightarrow> Handle_Info option" where
  "slot st Hnd = (if Hnd < 1 \<or> int NUM_HANDLE \<le> Hnd then None else HandleTable st ! nat Hnd)"

definition set_slot :: "upnp \<Rightarrow> int \<Rightarrow> Handle_Info option \<Rightarrow> upnp" where
  "set_slot st Hnd i = st\<lparr>HandleTable := (HandleTable st)[nat Hnd := i]\<rparr>"

function free_handle_loop :: "Handle_Info option list \<Rightarrow> nat \<Rightarrow> nat" where
  "free_handle_loop tab i = (if i < NUM_HANDLE \<and> tab ! i \<noteq> None then free_handle_loop tab (i + 1) else i)"
  by pat_completeness auto
termination by (relation "measure (\<lambda>(tab, i). NUM_HANDLE - i)") auto

declare free_handle_loop.simps [simp del]

definition GetFreeHandle :: "upnp \<Rightarrow> int" where
  "GetFreeHandle st =
     (let i = free_handle_loop (HandleTable st) 1 in if i = NUM_HANDLE then UPNP_E_OUTOF_HANDLE else int i)"

definition FreeHandle :: "upnp \<Rightarrow> int \<Rightarrow> int \<times> upnp" where
  "FreeHandle st Upnp_Handle =
     (if Upnp_Handle < 1 \<or> int NUM_HANDLE \<le> Upnp_Handle then (UPNP_E_INVALID_HANDLE, st)
      else if HandleTable st ! nat Upnp_Handle = None then (UPNP_E_INVALID_HANDLE, st)
      else (UPNP_E_SUCCESS, set_slot st Upnp_Handle None))"

text \<open>The structure found is the content of the slot.\<close>

definition GetHandleInfo :: "upnp \<Rightarrow> int \<Rightarrow> Upnp_Handle_Type" where
  "GetHandleInfo st Hnd =
     (if Hnd < 1 \<or> int NUM_HANDLE \<le> Hnd then HND_INVALID
      else case HandleTable st ! nat Hnd of None \<Rightarrow> HND_INVALID | Some HndInfo \<Rightarrow> HType HndInfo)"

definition GetCallBackFn :: "upnp \<Rightarrow> int \<Rightarrow> addr option" where
  "GetCallBackFn st Hnd = map_option Callback (HandleTable st ! nat Hnd)"

text \<open>The first handle from \<open>h\<close> on with the given property.\<close>

function first_handle :: "(nat \<Rightarrow> bool) \<Rightarrow> nat \<Rightarrow> nat option" where
  "first_handle P h = (if NUM_HANDLE \<le> h then None else if P h then Some h else first_handle P (h + 1))"
  by pat_completeness auto
termination by (relation "measure (\<lambda>(P, h). NUM_HANDLE - h)") auto

declare first_handle.simps [simp del]

definition GetClientHandleInfo :: "upnp \<Rightarrow> Upnp_Handle_Type \<times> int" where
  "GetClientHandleInfo st =
     (case first_handle (\<lambda>client. GetHandleInfo st (int client) = HND_CLIENT) 1 of
        Some client \<Rightarrow> (HND_CLIENT, int client) | None \<Rightarrow> (HND_INVALID, -1))"

definition no_device :: "upnp \<Rightarrow> family \<Rightarrow> bool" where
  "no_device st AddressFamily \<longleftrightarrow>
     AddressFamily = AF_INET \<and> UpnpSdkDeviceRegisteredV4 st = 0 \<or>
     AddressFamily = AF_INET6 \<and> UpnpSdkDeviceregisteredV6 st = 0"

definition device_of_family :: "upnp \<Rightarrow> family \<Rightarrow> nat \<Rightarrow> bool" where
  "device_of_family st AddressFamily h \<longleftrightarrow>
     GetHandleInfo st (int h) = HND_DEVICE \<and>
     (case HandleTable st ! h of None \<Rightarrow> False | Some HndInfo \<Rightarrow> DeviceAf HndInfo = AddressFamily)"

definition GetDeviceHandleInfo :: "upnp \<Rightarrow> int \<Rightarrow> family \<Rightarrow> Upnp_Handle_Type \<times> int" where
  "GetDeviceHandleInfo st start AddressFamily =
     (if no_device st AddressFamily \<or> start < 0 \<or> int NUM_HANDLE - 1 \<le> start then (HND_INVALID, -1)
      else case first_handle (device_of_family st AddressFamily) (nat start + 1) of
             Some h \<Rightarrow> (HND_DEVICE, int h) | None \<Rightarrow> (HND_INVALID, -1))"

definition service_for_path :: "net_env \<Rightarrow> service_table \<Rightarrow> DOMString \<Rightarrow> nat option" where
  "service_for_path env table path =
     (case FindServiceControlURLPath env table path of Some i \<Rightarrow> Some i
      | None \<Rightarrow> FindServiceEventURLPath env table path)"

definition device_with_path :: "net_env \<Rightarrow> upnp \<Rightarrow> family \<Rightarrow> DOMString \<Rightarrow> nat \<Rightarrow> bool" where
  "device_with_path env st AddressFamily path h \<longleftrightarrow>
     device_of_family st AddressFamily h \<and>
     (case HandleTable st ! h of None \<Rightarrow> False
      | Some HndInfo \<Rightarrow> service_for_path env (ServiceTable HndInfo) path \<noteq> None)"

text \<open>The type, the handle, and the position of the service in the table of the device.\<close>

definition GetDeviceHandleInfoForPath ::
  "net_env \<Rightarrow> upnp \<Rightarrow> DOMString \<Rightarrow> family \<Rightarrow> Upnp_Handle_Type \<times> int \<times> nat option" where
  "GetDeviceHandleInfoForPath env st path AddressFamily =
     (if no_device st AddressFamily then (HND_INVALID, -1, None)
      else case first_handle (device_with_path env st AddressFamily path) 1 of
             Some h \<Rightarrow>
               (HND_DEVICE, int h,
                case HandleTable st ! h of None \<Rightarrow> None
                | Some HndInfo \<Rightarrow> service_for_path env (ServiceTable HndInfo) path)
           | None \<Rightarrow> (HND_INVALID, -1, None))"
section \<open>Registering devices\<close>

text \<open>
  What a registration does from the document on: the lists of devices and services, the service table.
  A description without a device frees the document and the handle.
\<close>

definition install_description :: "net_env \<Rightarrow> upnp \<Rightarrow> int \<Rightarrow> Handle_Info \<Rightarrow> (int \<times> upnp) option" where
  "install_description env st Hnd HInfo = do {
     dl \<leftarrow> ixmlDocument_getElementsByTagName (docs st) (DescDocument HInfo) (Some ''device'');
     if dl = [] then do {
       d \<leftarrow> ixmlDocument_free (docs st) (DescDocument HInfo);
       Some (UPNP_E_INVALID_DESC, snd (FreeHandle (st\<lparr>docs := d\<rparr>) Hnd))
     }
     else do {
       sl \<leftarrow> ixmlDocument_getElementsByTagName (docs st) (DescDocument HInfo) (Some ''serviceList'');
       (hasServiceTable, table) \<leftarrow> getServiceTable env (docs st) (DescDocument HInfo) zero_table (Some (DescURL HInfo));
       Some (UPNP_E_SUCCESS,
             set_slot st Hnd (Some (HInfo\<lparr>DeviceList := dl, ServiceList := sl, ServiceTable := table\<rparr>)))
     }
   }"

text \<open>
  The value written to \<open>*Hnd\<close>, if any, is part of the result. \<open>download\<close> is what
  \<open>UpnpDownloadXmlDoc\<close> gives: the code, the document, and the documents in memory afterwards.
\<close>

definition UpnpRegisterRootDevice4 ::
  "net_env \<Rightarrow> bool \<Rightarrow> (string \<Rightarrow> int \<times> addr \<times> dom_heap) \<Rightarrow> upnp \<Rightarrow> DOMString \<Rightarrow> addr \<Rightarrow> addr \<Rightarrow> bool \<Rightarrow> family \<Rightarrow>
   DOMString \<Rightarrow> ((int \<times> int option) \<times> upnp) option" where
  "UpnpRegisterRootDevice4 env malloc_ok download st0 DescUrl Fun cookie Hnd_ok AddressFamily LowerDescUrl = do {
     st \<leftarrow> HandleLock st0;
     if UpnpSdkInit st \<noteq> 1 then leave (UPNP_E_FINISH, None) st
     else case DescUrl of
       None \<Rightarrow> leave (UPNP_E_INVALID_PARAM, None) st
     | Some url \<Rightarrow>
       if \<not> Hnd_ok \<or> Fun = NULL \<or> length url = 0 \<or> (AddressFamily \<noteq> AF_INET \<and> AddressFamily \<noteq> AF_INET6)
       then leave (UPNP_E_INVALID_PARAM, None) st
       else
         let Hnd = GetFreeHandle st in
         if Hnd = UPNP_E_OUTOF_HANDLE \<or> \<not> malloc_ok then leave (UPNP_E_OUTOF_MEMORY, Some Hnd) st
         else
           let HInfo = zero_info\<lparr>HType := HND_DEVICE, DescURL := take (LINE_SIZE - 1) url,
                 LowerDescURL := take (LINE_SIZE - 1) (case LowerDescUrl of None \<Rightarrow> url | Some l \<Rightarrow> l),
                 Callback := Fun, Cookie := cookie, MaxAge := DEFAULT_MAXAGE, MaxSubscriptions := UPNP_INFINITE,
                 MaxSubscriptionTimeOut := UPNP_INFINITE, DeviceAf := AddressFamily\<rparr>;
               (retVal, doc, d) = download (DescURL HInfo);
               st1 = set_slot (st\<lparr>docs := d\<rparr>) Hnd (Some (HInfo\<lparr>DescDocument := doc\<rparr>))
           in if retVal \<noteq> UPNP_E_SUCCESS then leave (retVal, Some Hnd) (snd (FreeHandle st1 Hnd))
              else do {
                (rc, st2) \<leftarrow> install_description env st1 Hnd (HInfo\<lparr>DescDocument := doc\<rparr>);
                leave (rc, Some Hnd)
                  (if rc \<noteq> UPNP_E_SUCCESS then st2
                   else if AddressFamily = AF_INET then st2\<lparr>UpnpSdkDeviceRegisteredV4 := 1\<rparr>
                   else st2\<lparr>UpnpSdkDeviceregisteredV6 := 1\<rparr>)
              }
   }"

definition UpnpRegisterRootDevice3 ::
  "net_env \<Rightarrow> bool \<Rightarrow> (string \<Rightarrow> int \<times> addr \<times> dom_heap) \<Rightarrow> upnp \<Rightarrow> DOMString \<Rightarrow> addr \<Rightarrow> addr \<Rightarrow> bool \<Rightarrow> family \<Rightarrow>
   ((int \<times> int option) \<times> upnp) option" where
  "UpnpRegisterRootDevice3 env malloc_ok download st DescUrl Fun cookie Hnd_ok AddressFamily =
     UpnpRegisterRootDevice4 env malloc_ok download st DescUrl Fun cookie Hnd_ok AddressFamily None"

definition UpnpRegisterRootDevice ::
  "net_env \<Rightarrow> bool \<Rightarrow> (string \<Rightarrow> int \<times> addr \<times> dom_heap) \<Rightarrow> upnp \<Rightarrow> DOMString \<Rightarrow> addr \<Rightarrow> addr \<Rightarrow> bool \<Rightarrow>
   ((int \<times> int option) \<times> upnp) option" where
  "UpnpRegisterRootDevice env malloc_ok download st0 DescUrl Fun cookie Hnd_ok = do {
     st \<leftarrow> HandleLock st0;
     if UpnpSdkInit st \<noteq> 1 then leave (UPNP_E_FINISH, None) st
     else case DescUrl of
       None \<Rightarrow> leave (UPNP_E_INVALID_PARAM, None) st
     | Some url \<Rightarrow>
       if \<not> Hnd_ok \<or> Fun = NULL \<or> length url = 0 then leave (UPNP_E_INVALID_PARAM, None) st
       else
         let Hnd = GetFreeHandle st in
         if Hnd = UPNP_E_OUTOF_HANDLE \<or> \<not> malloc_ok then leave (UPNP_E_OUTOF_MEMORY, Some Hnd) st
         else
           let HInfo = zero_info\<lparr>HType := HND_DEVICE, DescURL := take (LINE_SIZE - 1) url,
                 LowerDescURL := take (LINE_SIZE - 1) url,
                 Callback := Fun, Cookie := cookie, MaxAge := DEFAULT_MAXAGE, MaxSubscriptions := UPNP_INFINITE,
                 MaxSubscriptionTimeOut := UPNP_INFINITE, DeviceAf := AF_INET\<rparr>;
               (retVal, doc, d) = download (DescURL HInfo);
               st1 = set_slot (st\<lparr>docs := d\<rparr>) Hnd (Some (HInfo\<lparr>DescDocument := doc\<rparr>))
           in if retVal \<noteq> UPNP_E_SUCCESS then leave (retVal, Some Hnd) (snd (FreeHandle st1 Hnd))
              else do {
                (rc, st2) \<leftarrow> install_description env st1 Hnd (HInfo\<lparr>DescDocument := doc\<rparr>);
                leave (rc, Some Hnd)
                  (if rc \<noteq> UPNP_E_SUCCESS then st2 else st2\<lparr>UpnpSdkDeviceRegisteredV4 := 1\<rparr>)
              }
   }"

text \<open>
  Here the document comes from a URL, a file or a buffer; \<open>description\<close> is what
  \<open>GetDescDocumentAndURL\<close> gives: the code, the document, the URL, and the documents in memory.
\<close>

definition UpnpRegisterRootDevice2 ::
  "net_env \<Rightarrow> bool \<Rightarrow> int \<times> addr \<times> string \<times> dom_heap \<Rightarrow> upnp \<Rightarrow> bool \<Rightarrow> addr \<Rightarrow> addr \<Rightarrow> bool \<Rightarrow>
   ((int \<times> int option) \<times> upnp) option" where
  "UpnpRegisterRootDevice2 env malloc_ok description st0 config_baseURL Fun cookie Hnd_ok = do {
     st \<leftarrow> HandleLock st0;
     if UpnpSdkInit st \<noteq> 1 then leave (UPNP_E_FINISH, None) st
     else if \<not> Hnd_ok \<or> Fun = NULL then leave (UPNP_E_INVALID_PARAM, None) st
     else
       let Hnd = GetFreeHandle st in
       if Hnd = UPNP_E_OUTOF_HANDLE \<or> \<not> malloc_ok then leave (UPNP_E_OUTOF_MEMORY, Some Hnd) st
       else
         let (retVal, doc, url, d) = description;
             st1 = set_slot (st\<lparr>docs := d\<rparr>) Hnd (Some (zero_info\<lparr>DescDocument := doc, DescURL := url\<rparr>))
         in if retVal \<noteq> UPNP_E_SUCCESS then leave (retVal, Some Hnd) (snd (FreeHandle st1 Hnd))
            else do {
              (rc, st2) \<leftarrow> install_description env st1 Hnd
                (zero_info\<lparr>DescDocument := doc, DescURL := url, LowerDescURL := take (LINE_SIZE - 1) url,
                   aliasInstalled := config_baseURL, HType := HND_DEVICE, Callback := Fun, Cookie := cookie,
                   MaxAge := DEFAULT_MAXAGE, MaxSubscriptions := UPNP_INFINITE,
                   MaxSubscriptionTimeOut := UPNP_INFINITE, DeviceAf := AF_INET\<rparr>);
              leave (rc, Some Hnd)
                (if rc \<noteq> UPNP_E_SUCCESS then st2 else st2\<lparr>UpnpSdkDeviceRegisteredV4 := 1\<rparr>)
            }
   }"

section \<open>Unregistering devices\<close>

definition genaUnregisterDevice :: "upnp \<Rightarrow> int \<Rightarrow> (int \<times> upnp) option" where
  "genaUnregisterDevice st0 device_handle = do {
     st \<leftarrow> HandleLock st0;
     (case slot st device_handle of
        Some handle_info \<Rightarrow>
          if HType handle_info \<noteq> HND_DEVICE then leave UPNP_E_INVALID_HANDLE st
          else do {
            (eh, table) \<leftarrow> freeServiceTable (events st) (ServiceTable handle_info);
            leave UPNP_E_SUCCESS
              (set_slot (st\<lparr>events := eh\<rparr>) device_handle (Some (handle_info\<lparr>ServiceTable := table\<rparr>)))
          }
      | None \<Rightarrow> leave UPNP_E_INVALID_HANDLE st)
   }"

text \<open>The two sections of \<open>UpnpUnRegisterRootDeviceLowPower\<close>, before and after the farewell messages.\<close>

definition unregister_mark :: "upnp \<Rightarrow> int \<Rightarrow> int \<Rightarrow> int \<Rightarrow> int \<Rightarrow> (int \<times> upnp) option" where
  "unregister_mark st0 Hnd power_state sleep_period registration_state = do {
     st \<leftarrow> HandleLock st0;
     (case slot st Hnd of
        None \<Rightarrow> leave UPNP_E_INVALID_HANDLE st
      | Some HInfo \<Rightarrow>
          if HType HInfo = HND_INVALID then leave UPNP_E_INVALID_HANDLE st
          else leave UPNP_E_SUCCESS
            (set_slot st Hnd (Some (HInfo\<lparr>PowerState := power_state,
               SleepPeriod := (if sleep_period < 0 then -1 else sleep_period),
               RegistrationState := registration_state\<rparr>))))
   }"

definition unregister_free :: "upnp \<Rightarrow> int \<Rightarrow> int \<Rightarrow> (int \<times> upnp) option" where
  "unregister_free st0 Hnd retVal = do {
     st \<leftarrow> HandleLock st0;
     (case slot st Hnd of
        None \<Rightarrow> leave UPNP_E_INVALID_HANDLE st
      | Some HInfo \<Rightarrow>
          if HType HInfo = HND_INVALID then leave UPNP_E_INVALID_HANDLE st
          else do {
            d \<leftarrow> ixmlDocument_free (docs st) (DescDocument HInfo);
            let st1 = st\<lparr>docs := d\<rparr>;
            let st2 = (case DeviceAf HInfo of
                  AF_INET \<Rightarrow> st1\<lparr>UpnpSdkDeviceRegisteredV4 := 0\<rparr>
                | AF_INET6 \<Rightarrow> st1\<lparr>UpnpSdkDeviceregisteredV6 := 0\<rparr>
                | AF_UNSPEC \<Rightarrow> st1);
            leave retVal (snd (FreeHandle st2 Hnd))
          })
   }"

text \<open>The whole call when nothing else runs in between; \<open>farewell\<close> is the result of \<open>AdvertiseAndReply\<close>.\<close>

definition UpnpUnRegisterRootDeviceLowPower ::
  "int \<Rightarrow> upnp \<Rightarrow> int \<Rightarrow> int \<Rightarrow> int \<Rightarrow> int \<Rightarrow> (int \<times> upnp) option" where
  "UpnpUnRegisterRootDeviceLowPower farewell st Hnd power_state sleep_period registration_state =
     (if UpnpSdkInit st \<noteq> 1 then Some (UPNP_E_FINISH, st)
      else do {
        (rc, st1) \<leftarrow> genaUnregisterDevice st Hnd;
        if rc \<noteq> UPNP_E_SUCCESS then Some (UPNP_E_INVALID_HANDLE, st1)
        else do {
          (rc2, st2) \<leftarrow> unregister_mark st1 Hnd power_state sleep_period registration_state;
          if rc2 \<noteq> UPNP_E_SUCCESS then Some (rc2, st2) else unregister_free st2 Hnd farewell
        }
      })"

definition UpnpUnRegisterRootDevice :: "int \<Rightarrow> upnp \<Rightarrow> int \<Rightarrow> (int \<times> upnp) option" where
  "UpnpUnRegisterRootDevice farewell st Hnd = UpnpUnRegisterRootDeviceLowPower farewell st Hnd (-1) (-1) (-1)"
section \<open>Control points\<close>

text \<open>The new structure is not cleared: the fields a control point does not use hold what \<open>malloc\<close> gave.\<close>

definition UpnpRegisterClient ::
  "Handle_Info option \<Rightarrow> upnp \<Rightarrow> addr \<Rightarrow> addr \<Rightarrow> bool \<Rightarrow> ((int \<times> int option) \<times> upnp) option" where
  "UpnpRegisterClient malloc_info st0 Fun cookie Hnd_ok =
     (if UpnpSdkInit st0 \<noteq> 1 then Some ((UPNP_E_FINISH, None), st0)
      else if Fun = NULL \<or> \<not> Hnd_ok then Some ((UPNP_E_INVALID_PARAM, None), st0)
      else do {
        st \<leftarrow> HandleLock st0;
        if int NUM_HANDLE - 1 \<le> UpnpSdkClientRegistered st + UpnpSdkDeviceRegisteredV4 st + UpnpSdkDeviceregisteredV6 st
        then leave (UPNP_E_ALREADY_REGISTERED, None) st
        else
          let Hnd = GetFreeHandle st in
          if Hnd = UPNP_E_OUTOF_HANDLE then leave (UPNP_E_OUTOF_MEMORY, Some Hnd) st
          else case malloc_info of
            None \<Rightarrow> leave (UPNP_E_OUTOF_MEMORY, Some Hnd) st
          | Some HInfo \<Rightarrow>
              leave (UPNP_E_SUCCESS, Some Hnd)
                ((set_slot st Hnd (Some (HInfo\<lparr>HType := HND_CLIENT, Callback := Fun, Cookie := cookie,
                    ClientSubList := [], SsdpSearchList := [], MaxAge := 0, MaxSubscriptions := UPNP_INFINITE,
                    MaxSubscriptionTimeOut := UPNP_INFINITE\<rparr>)))
                 \<lparr>UpnpSdkClientRegistered := UpnpSdkClientRegistered st + 1\<rparr>)
      })"

text \<open>The first section of \<open>UpnpUnRegisterClient\<close>, and the last one, after \<open>genaUnregisterClient\<close>.\<close>

definition unregister_client_check :: "upnp \<Rightarrow> (int \<times> upnp) option" where
  "unregister_client_check st0 = do {
     st \<leftarrow> HandleLock st0;
     leave (if UpnpSdkClientRegistered st = 0 then UPNP_E_INVALID_HANDLE else UPNP_E_SUCCESS) st
   }"

definition unregister_client_free :: "upnp \<Rightarrow> int \<Rightarrow> (int \<times> upnp) option" where
  "unregister_client_free st0 Hnd = do {
     st \<leftarrow> HandleLock st0;
     if GetHandleInfo st Hnd = HND_INVALID then leave UPNP_E_INVALID_HANDLE st
     else
       let st1 = snd (FreeHandle st Hnd)
       in leave UPNP_E_SUCCESS (st1\<lparr>UpnpSdkClientRegistered := UpnpSdkClientRegistered st1 - 1\<rparr>)
   }"

section \<open>Settings\<close>

text \<open>A call that checks the handle and changes its structure.\<close>

definition with_device :: "upnp \<Rightarrow> int \<Rightarrow> (Handle_Info \<Rightarrow> int \<times> Handle_Info) \<Rightarrow> (int \<times> upnp) option" where
  "with_device st0 Hnd f =
     (if UpnpSdkInit st0 \<noteq> 1 then Some (UPNP_E_FINISH, st0)
      else do {
        st \<leftarrow> HandleLock st0;
        (case slot st Hnd of
           Some SInfo \<Rightarrow>
             if HType SInfo = HND_DEVICE
             then let (rc, SInfo1) = f SInfo in leave rc (set_slot st Hnd (Some SInfo1))
             else leave UPNP_E_INVALID_HANDLE st
         | None \<Rightarrow> leave UPNP_E_INVALID_HANDLE st)
      })"

definition UpnpSetMaxSubscriptions :: "upnp \<Rightarrow> int \<Rightarrow> int \<Rightarrow> (int \<times> upnp) option" where
  "UpnpSetMaxSubscriptions st Hnd n =
     with_device st Hnd (\<lambda>SInfo.
       if n \<noteq> UPNP_INFINITE \<and> n < 0 then (UPNP_E_INVALID_HANDLE, SInfo)
       else (UPNP_E_SUCCESS, SInfo\<lparr>MaxSubscriptions := n\<rparr>))"

definition UpnpSetMaxSubscriptionTimeOut :: "upnp \<Rightarrow> int \<Rightarrow> int \<Rightarrow> (int \<times> upnp) option" where
  "UpnpSetMaxSubscriptionTimeOut st Hnd n =
     with_device st Hnd (\<lambda>SInfo.
       if n \<noteq> UPNP_INFINITE \<and> n < 0 then (UPNP_E_INVALID_HANDLE, SInfo)
       else (UPNP_E_SUCCESS, SInfo\<lparr>MaxSubscriptionTimeOut := n\<rparr>))"

text \<open>The expiration time of advertisements, and the first section of \<open>UpnpSendAdvertisementLowPower\<close>.\<close>

definition advertisement_age :: "int \<Rightarrow> int" where
  "advertisement_age Exp =
     (let Exp1 = (if Exp < 1 then DEFAULT_MAXAGE else Exp)
      in if Exp1 \<le> AUTO_ADVERTISEMENT_TIME * 2 then (AUTO_ADVERTISEMENT_TIME + 1) * 2 else Exp1)"

definition advertisement_mark :: "upnp \<Rightarrow> int \<Rightarrow> int \<Rightarrow> int \<Rightarrow> int \<Rightarrow> int \<Rightarrow> (int \<times> upnp) option" where
  "advertisement_mark st Hnd Exp power_state sleep_period registration_state =
     with_device st Hnd (\<lambda>SInfo.
       (UPNP_E_SUCCESS,
        SInfo\<lparr>MaxAge := advertisement_age Exp, PowerState := power_state,
              SleepPeriod := (if sleep_period < 0 then -1 else sleep_period),
              RegistrationState := registration_state\<rparr>))"

definition MAX_SOAP_CONTENT_LENGTH :: nat where "MAX_SOAP_CONTENT_LENGTH = 32000"

text \<open>Before the SDK is initialised the lock is released without having been taken.\<close>

definition UpnpSetContentLength :: "upnp \<Rightarrow> int \<Rightarrow> nat \<Rightarrow> (int \<times> upnp) option" where
  "UpnpSetContentLength st0 Hnd contentLength =
     (if UpnpSdkInit st0 \<noteq> 1 then leave UPNP_E_FINISH st0
      else do {
        st \<leftarrow> HandleLock st0;
        if GetHandleInfo st Hnd \<noteq> HND_DEVICE then leave UPNP_E_INVALID_HANDLE st
        else if MAX_SOAP_CONTENT_LENGTH < contentLength then leave UPNP_E_OUTOF_BOUNDS st
        else leave UPNP_E_SUCCESS (st\<lparr>g_maxContentLength := contentLength\<rparr>)
      })"

definition UpnpSetMaxContentLength :: "upnp \<Rightarrow> nat \<Rightarrow> int \<times> upnp" where
  "UpnpSetMaxContentLength st contentLength =
     (if UpnpSdkInit st \<noteq> 1 then (UPNP_E_FINISH, st)
      else (UPNP_E_SUCCESS, st\<lparr>g_maxContentLength := contentLength\<rparr>))"

definition UpnpSetEventQueueLimits :: "upnp \<Rightarrow> int \<Rightarrow> int \<Rightarrow> int \<times> upnp" where
  "UpnpSetEventQueueLimits st maxLen mx_age =
     (UPNP_E_SUCCESS, st\<lparr>g_UpnpSdkEQMaxLen := maxLen, g_UpnpSdkEQMaxAge := mx_age\<rparr>)"

end
