(* ===== verification/Str_Int_Map.thy ===== *)
theory Str_Int_Map
  imports Upnp_Prelude "HOL-Library.List_Lexorder"
begin

text \<open>
  The name tables of \<^verbatim>\<open>upnp/src/genlib/util/strintmap.c\<close> and the comparison of a counted string with
  a C string of \<^verbatim>\<open>membuffer.c\<close>. The binary search is proved to be the lookup in the table whenever
  the table is strictly sorted for the comparison it uses; the tables of the HTTP code are checked
  against that in their own theories.
\<close>

section \<open>Counted strings\<close>

record memptr =
  mp_buf :: string
  mp_length :: nat

text \<open>The part of a counted string that \<open>strncmp\<close> sees: up to a NUL, at most the given length.\<close>

definition seen :: "memptr \<Rightarrow> string" where
  "seen m = takeWhile (\<lambda>c. c \<noteq> NUL) (take (mp_length m) (mp_buf m))"

definition memptr_cmp :: "memptr \<Rightarrow> string \<Rightarrow> int" where
  "memptr_cmp m s =
     (let cmp = strncmp (seen m) s (mp_length m)
      in if cmp = 0 \<and> mp_length m < length s then -1 else cmp)"

definition memptr_cmp_nocase :: "memptr \<Rightarrow> string \<Rightarrow> int" where
  "memptr_cmp_nocase m s =
     (let cmp = strncasecmp (seen m) s (mp_length m)
      in if cmp = 0 \<and> mp_length m < length s then -1 else cmp)"

section \<open>Tables\<close>

type_synonym str_int_entry = "string \<times> int"

function map_str_to_int_loop :: "(string \<Rightarrow> int) \<Rightarrow> str_int_entry list \<Rightarrow> int \<Rightarrow> int \<Rightarrow> int" where
  "map_str_to_int_loop compare table lo hi =
     (if lo \<le> hi then
        let mid = (lo + hi) div 2; cmp = compare (fst (table ! nat mid)) in
        if 0 < cmp then map_str_to_int_loop compare table (mid + 1) hi
        else if cmp < 0 then map_str_to_int_loop compare table lo (mid - 1)
        else mid
      else -1)"
  by pat_completeness auto
termination
  by (relation "measure (\<lambda>(compare, table, lo, hi). nat (hi + 1 - lo))") auto

declare map_str_to_int_loop.simps [simp del]

definition map_str_to_int :: "string \<Rightarrow> nat \<Rightarrow> str_int_entry list \<Rightarrow> int \<Rightarrow> bool \<Rightarrow> int" where
  "map_str_to_int name name_len table num_entries case_sensitive =
     (let name_ptr = \<lparr>mp_buf = name, mp_length = name_len\<rparr>
      in map_str_to_int_loop
           (if case_sensitive then memptr_cmp name_ptr else memptr_cmp_nocase name_ptr) table 0 (num_entries - 1))"

fun map_int_to_str_loop :: "int \<Rightarrow> str_int_entry list \<Rightarrow> nat \<Rightarrow> nat \<Rightarrow> int" where
  "map_int_to_str_loop i table k 0 = -1"
| "map_int_to_str_loop i table k (Suc n) =
     (if snd (table ! k) = i then int k else map_int_to_str_loop i table (Suc k) n)"

definition map_int_to_str :: "int \<Rightarrow> str_int_entry list \<Rightarrow> int \<Rightarrow> int" where
  "map_int_to_str i table num_entries = map_int_to_str_loop i table 0 (nat num_entries)"

section \<open>The comparisons as an order\<close>

definition key_sens :: "string \<Rightarrow> nat list" where
  "key_sens s = map byte_of s"

definition key_nocase :: "string \<Rightarrow> nat list" where
  "key_nocase s = map (\<lambda>c. byte_of (tolower c)) s"

lemma strncmp_by_order:
  fixes f :: "char \<Rightarrow> nat"
  assumes pos: "\<forall>c \<in> set a \<union> set b. 0 < f c"
  shows "strncmp_by (\<lambda>c. int (f c)) a b n < 0 \<longleftrightarrow> map f (take n a) < map f (take n b)"
    and "strncmp_by (\<lambda>c. int (f c)) a b n = 0 \<longleftrightarrow> map f (take n a) = map f (take n b)"
  using pos
  by (induction "\<lambda>c. int (f c)" a b n rule: strncmp_by.induct) auto

lemma seen_no_NUL: "NUL \<notin> set (seen m)"
  by (auto simp: seen_def dest: set_takeWhileD)

lemma seen_length: "length (seen m) \<le> mp_length m"
  unfolding seen_def by (rule order_trans [OF length_takeWhile_le]) simp

lemma take_less_append:
  fixes a b :: "nat list"
  assumes "length a \<le> n"
  shows "a < b \<longleftrightarrow> a < take n b \<or> a = take n b \<and> n < length b"
  using assms
proof (induction a arbitrary: b n)
  case Nil
  then show ?case by (cases b; cases n) auto
next
  case (Cons x a)
  obtain n' where n: "n = Suc n'" "length a \<le> n'" using Cons.prems by (cases n) auto
  show ?case
  proof (cases b)
    case b: (Cons y b')
    have "a < b' \<longleftrightarrow> a < take n' b' \<or> a = take n' b' \<and> n' < length b'" by (rule Cons.IH [OF n(2)])
    then show ?thesis unfolding b n(1) Cons_less_Cons take_Suc_Cons list.inject length_Cons Suc_less_eq by blast
  qed (simp add: n)
qed

text \<open>Counted strings compare like the strings they show, for both comparisons.\<close>

lemma cmp_by_order:
  fixes f :: "char \<Rightarrow> nat" and m s
  defines "c \<equiv> strncmp_by (\<lambda>c. int (f c)) (seen m) s (mp_length m)"
  assumes pos: "\<forall>c. c \<noteq> NUL \<longrightarrow> 0 < f c" and s: "NUL \<notin> set s"
  defines "r \<equiv> if c = 0 \<and> mp_length m < length s then -1 else c"
  shows "r < 0 \<longleftrightarrow> map f (seen m) < map f s" and "r = 0 \<longleftrightarrow> map f (seen m) = map f s"
proof -
  let ?n = "mp_length m"
  have p: "\<forall>c \<in> set (seen m) \<union> set s. 0 < f c"
  proof
    fix x assume "x \<in> set (seen m) \<union> set s"
    then have "x \<noteq> NUL" using s seen_no_NUL by auto
    then show "0 < f x" using pos by simp
  qed
  have c: "c < 0 \<longleftrightarrow> map f (seen m) < map f (take ?n s)" "c = 0 \<longleftrightarrow> map f (seen m) = map f (take ?n s)"
    using strncmp_by_order [OF p, of ?n] seen_length [of m] by (simp_all add: c_def)
  have l: "map f (seen m) < map f s \<longleftrightarrow> map f (seen m) < take ?n (map f s) \<or> map f (seen m) = take ?n (map f s) \<and> ?n < length s"
    using take_less_append [of "map f (seen m)" ?n "map f s"] seen_length [of m] by simp
  show "r < 0 \<longleftrightarrow> map f (seen m) < map f s"
    using c l by (auto simp: r_def take_map)
  have "map f (seen m) = map f s \<longleftrightarrow> map f (seen m) = take ?n (map f s) \<and> length s \<le> ?n"
    using seen_length [of m] by (metis length_map nat_le_linear take_all take_all_iff)
  then show "r = 0 \<longleftrightarrow> map f (seen m) = map f s"
    using c by (auto simp: r_def take_map)
qed

lemma memptr_cmp_order:
  assumes "NUL \<notin> set s"
  shows "memptr_cmp m s < 0 \<longleftrightarrow> key_sens (seen m) < key_sens s"
    and "memptr_cmp m s = 0 \<longleftrightarrow> seen m = s"
proof -
  have pos: "\<forall>c. c \<noteq> NUL \<longrightarrow> 0 < byte_of c" by simp
  show "memptr_cmp m s < 0 \<longleftrightarrow> key_sens (seen m) < key_sens s" "memptr_cmp m s = 0 \<longleftrightarrow> seen m = s"
    using cmp_by_order [of byte_of s m, OF pos assms]
    by (simp_all add: memptr_cmp_def strncmp_def key_sens_def Let_def inj_map_eq_map inj_on_def)
qed

lemma key_nocase_eq: "key_nocase a = key_nocase b \<longleftrightarrow> map tolower a = map tolower b"
  unfolding key_nocase_def by (induction a arbitrary: b) (auto simp: Cons_eq_map_conv)

lemma memptr_cmp_nocase_order:
  assumes "NUL \<notin> set s"
  shows "memptr_cmp_nocase m s < 0 \<longleftrightarrow> key_nocase (seen m) < key_nocase s"
    and "memptr_cmp_nocase m s = 0 \<longleftrightarrow> map tolower (seen m) = map tolower s"
proof -
  have pos: "\<forall>c. c \<noteq> NUL \<longrightarrow> 0 < byte_of (tolower c)"
    by (simp add: byte_of_tolower del: byte_of_pos) (simp add: isupper_def)
  show "memptr_cmp_nocase m s < 0 \<longleftrightarrow> key_nocase (seen m) < key_nocase s"
      "memptr_cmp_nocase m s = 0 \<longleftrightarrow> map tolower (seen m) = map tolower s"
    using cmp_by_order [of "\<lambda>c. byte_of (tolower c)" s m, OF pos assms]
    by (simp_all add: memptr_cmp_nocase_def strncasecmp_def key_nocase_eq key_nocase_def [symmetric] Let_def)
qed

section \<open>Binary search\<close>

text \<open>
  What the search needs of the comparison with the searched name: the entries before a match or a
  greater name compare greater, those behind it less.
\<close>

definition splits_table :: "(string \<Rightarrow> int) \<Rightarrow> str_int_entry list \<Rightarrow> bool" where
  "splits_table compare table \<longleftrightarrow>
     (\<forall>j < length table. \<forall>i < j.
        (0 \<le> compare (fst (table ! j)) \<longrightarrow> 0 < compare (fst (table ! i))) \<and>
        (compare (fst (table ! i)) \<le> 0 \<longrightarrow> compare (fst (table ! j)) < 0))"

lemma bsearch_ok:
  assumes sp: "splits_table compare table"
    and "0 \<le> lo" "hi < int (length table)"
    and "\<forall>i < length table. compare (fst (table ! i)) = 0 \<longrightarrow> lo \<le> int i \<and> int i \<le> hi"
  shows "case map_str_to_int_loop compare table lo hi of r \<Rightarrow>
    if \<exists>i < length table. compare (fst (table ! i)) = 0
    then 0 \<le> r \<and> nat r < length table \<and> compare (fst (table ! nat r)) = 0 else r = -1"
  using assms(2-4)
proof (induction "nat (hi + 1 - lo)" arbitrary: lo hi rule: less_induct)
  case less
  let ?c = "\<lambda>i. compare (fst (table ! i))"
  show ?case
  proof (cases "lo \<le> hi")
    case False
    then show ?thesis using less.prems by (subst map_str_to_int_loop.simps) fastforce
  next
    case True
    let ?m = "(lo + hi) div 2"
    have m: "0 \<le> ?m" "lo \<le> ?m" "?m \<le> hi" "nat ?m < length table" using True less.prems by auto
    have mon: "i < j \<Longrightarrow> j < length table \<Longrightarrow> (0 \<le> ?c j \<longrightarrow> 0 < ?c i) \<and> (?c i \<le> 0 \<longrightarrow> ?c j < 0)" for i j
      using sp by (simp add: splits_table_def)
    consider (gt) "0 < ?c (nat ?m)" | (lt) "?c (nat ?m) < 0" | (eq) "?c (nat ?m) = 0" by linarith
    then show ?thesis
    proof cases
      case gt
      have "\<forall>i < length table. ?c i = 0 \<longrightarrow> ?m + 1 \<le> int i \<and> int i \<le> hi"
      proof (intro allI impI)
        fix i assume i: "i < length table" "?c i = 0"
        have "nat ?m < i" using mon [of i "nat ?m"] gt i m by (metis less_irrefl linorder_less_linear order_less_imp_le)
        then show "?m + 1 \<le> int i \<and> int i \<le> hi" using less.prems(3) i by auto
      qed
      moreover have "map_str_to_int_loop compare table lo hi = map_str_to_int_loop compare table (?m + 1) hi"
        using True gt by (subst map_str_to_int_loop.simps) (simp add: Let_def)
      ultimately show ?thesis using less.hyps [of hi "?m + 1"] m less.prems by simp
    next
      case lt
      have "\<forall>i < length table. ?c i = 0 \<longrightarrow> lo \<le> int i \<and> int i \<le> ?m - 1"
      proof (intro allI impI)
        fix i assume i: "i < length table" "?c i = 0"
        have "i < nat ?m" using mon [of "nat ?m" i] lt i m by (metis less_irrefl linorder_less_linear order_less_imp_le)
        then show "lo \<le> int i \<and> int i \<le> ?m - 1" using less.prems(3) i by auto
      qed
      moreover have "map_str_to_int_loop compare table lo hi = map_str_to_int_loop compare table lo (?m - 1)"
        using True lt by (subst map_str_to_int_loop.simps) (simp add: Let_def)
      ultimately show ?thesis using less.hyps [of "?m - 1" lo] m less.prems by simp
    next
      case eq
      then have "map_str_to_int_loop compare table lo hi = ?m"
        using True by (subst map_str_to_int_loop.simps) (simp add: Let_def)
      then show ?thesis using m eq by auto
    qed
  qed
qed

section \<open>The interface of a sorted table\<close>

text \<open>
  A comparison of names with entries that is that of a linear order on keys. A table whose keys
  increase strictly is searched correctly: the result is the index of the entry with the key of the
  name, -1 if there is none.
\<close>

locale keyed_compare =
  fixes compare :: "'n \<Rightarrow> string \<Rightarrow> int" and key_of :: "'n \<Rightarrow> 'k :: linorder" and key :: "string \<Rightarrow> 'k"
    and valid :: "string \<Rightarrow> bool"
  assumes compare_less: "valid s \<Longrightarrow> compare x s < 0 \<longleftrightarrow> key_of x < key s"
    and compare_eq: "valid s \<Longrightarrow> compare x s = 0 \<longleftrightarrow> key_of x = key s"
begin

definition sorted_table :: "str_int_entry list \<Rightarrow> bool" where
  "sorted_table table \<longleftrightarrow> sorted_wrt (\<lambda>a b. key (fst a) < key (fst b)) table \<and> (\<forall>e \<in> set table. valid (fst e))"

lemma compare_gt: "valid s \<Longrightarrow> 0 < compare x s \<longleftrightarrow> key s < key_of x"
  using compare_less [of s x] compare_eq [of s x] by (metis linorder_less_linear order_less_asym)

lemma sorted_splits:
  assumes "sorted_table table"
  shows "splits_table (compare x) table"
  unfolding splits_table_def
proof (intro allI impI)
  fix i j assume j: "j < length table" and i: "i < j"
  have k: "key (fst (table ! i)) < key (fst (table ! j))"
    using assms i j by (auto simp: sorted_table_def sorted_wrt_iff_nth_less)
  have v: "valid (fst (table ! i))" "valid (fst (table ! j))"
    using assms i j by (auto simp: sorted_table_def)
  show "(0 \<le> compare x (fst (table ! j)) \<longrightarrow> 0 < compare x (fst (table ! i))) \<and>
        (compare x (fst (table ! i)) \<le> 0 \<longrightarrow> compare x (fst (table ! j)) < 0)"
    using k compare_gt [OF v(1), of x] compare_less [OF v(1), of x] compare_gt [OF v(2), of x]
      compare_less [OF v(2), of x]
    by (meson linorder_not_less order_le_less_trans order_less_le_trans)
qed

theorem search_correct:
  assumes "sorted_table table"
  shows "case map_str_to_int_loop (compare x) table 0 (int (length table) - 1) of r \<Rightarrow>
    (r = -1 \<and> (\<forall>e \<in> set table. key (fst e) \<noteq> key_of x)) \<or>
    (0 \<le> r \<and> nat r < length table \<and> key (fst (table ! nat r)) = key_of x)"
proof -
  let ?r = "map_str_to_int_loop (compare x) table 0 (int (length table) - 1)"
  have eq: "i < length table \<Longrightarrow> compare x (fst (table ! i)) = 0 \<longleftrightarrow> key (fst (table ! i)) = key_of x" for i
    using assms compare_eq [of "fst (table ! i)" x] by (auto simp: sorted_table_def)
  have "if \<exists>i < length table. compare x (fst (table ! i)) = 0
    then 0 \<le> ?r \<and> nat ?r < length table \<and> compare x (fst (table ! nat ?r)) = 0 else ?r = -1"
    using bsearch_ok [OF sorted_splits [OF assms], of 0 "int (length table) - 1"] by simp
  moreover have "(\<forall>e \<in> set table. key (fst e) \<noteq> key_of x) \<longleftrightarrow> (\<forall>i < length table. key (fst (table ! i)) \<noteq> key_of x)"
    by (metis in_set_conv_nth)
  ultimately show ?thesis
    using eq by (auto split: if_splits)
qed

end

abbreviation no_NUL :: "string \<Rightarrow> bool" where
  "no_NUL s \<equiv> NUL \<notin> set s"

interpretation sens: keyed_compare memptr_cmp "\<lambda>m. key_sens (seen m)" key_sens no_NUL
  by unfold_locales
    (simp_all add: memptr_cmp_order, simp add: key_sens_def inj_map_eq_map inj_on_def)

interpretation nocase: keyed_compare memptr_cmp_nocase "\<lambda>m. key_nocase (seen m)" key_nocase no_NUL
proof unfold_locales
  fix s x
  assume "no_NUL s"
  then show "memptr_cmp_nocase x s < 0 \<longleftrightarrow> key_nocase (seen x) < key_nocase s"
      "memptr_cmp_nocase x s = 0 \<longleftrightarrow> key_nocase (seen x) = key_nocase s"
    by (simp_all add: memptr_cmp_nocase_order key_nocase_eq)
qed

text \<open>The search by value is the first match.\<close>

lemma map_int_to_str_loop_ok:
  "k + n = length table \<Longrightarrow> case map_int_to_str_loop i table k n of r \<Rightarrow>
    (r = -1 \<and> (\<forall>e \<in> set (drop k table). snd e \<noteq> i)) \<or>
    (int k \<le> r \<and> nat r < length table \<and> snd (table ! nat r) = i \<and> (\<forall>j. k \<le> j \<and> j < nat r \<longrightarrow> snd (table ! j) \<noteq> i))"
proof (induction i table k n rule: map_int_to_str_loop.induct)
  case (2 i table k n)
  have d: "drop k table = table ! k # drop (Suc k) table" using 2(2) by (simp add: Cons_nth_drop_Suc)
  show ?case
  proof (cases "snd (table ! k) = i")
    case True
    then show ?thesis using 2(2) by simp
  next
    case False
    moreover have "k \<le> j \<Longrightarrow> j = k \<or> Suc k \<le> j" for j by auto
    ultimately show ?thesis using 2(1) [OF False] 2(2) d by auto
  qed
qed simp

lemma map_int_to_str_ok:
  "case map_int_to_str i table (int (length table)) of r \<Rightarrow>
    (r = -1 \<and> (\<forall>e \<in> set table. snd e \<noteq> i)) \<or>
    (0 \<le> r \<and> nat r < length table \<and> snd (table ! nat r) = i \<and> (\<forall>j < nat r. snd (table ! j) \<noteq> i))"
  using map_int_to_str_loop_ok [of 0 "length table" table i] by (simp add: map_int_to_str_def)

lemma map_str_to_int_sens:
  "sens.sorted_table table \<Longrightarrow> case map_str_to_int name n table (int (length table)) True of r \<Rightarrow>
    (r = -1 \<and> (\<forall>e \<in> set table. fst e \<noteq> seen \<lparr>mp_buf = name, mp_length = n\<rparr>)) \<or>
    (0 \<le> r \<and> nat r < length table \<and> fst (table ! nat r) = seen \<lparr>mp_buf = name, mp_length = n\<rparr>)"
  using sens.search_correct [of table "\<lparr>mp_buf = name, mp_length = n\<rparr>"]
  by (auto simp: map_str_to_int_def Let_def key_sens_def inj_map_eq_map inj_on_def)

lemma map_str_to_int_nocase:
  "nocase.sorted_table table \<Longrightarrow> case map_str_to_int name n table (int (length table)) False of r \<Rightarrow>
    (r = -1 \<and> (\<forall>e \<in> set table. map tolower (fst e) \<noteq> map tolower (seen \<lparr>mp_buf = name, mp_length = n\<rparr>))) \<or>
    (0 \<le> r \<and> nat r < length table \<and> map tolower (fst (table ! nat r)) = map tolower (seen \<lparr>mp_buf = name, mp_length = n\<rparr>))"
  using nocase.search_correct [of table "\<lparr>mp_buf = name, mp_length = n\<rparr>"]
  by (auto simp: map_str_to_int_def Let_def key_nocase_eq)

end
