(* ===== verification/Http_Tables.thy ===== *)
theory Http_Tables
  imports Str_Int_Map
begin

text \<open>
  The methods and header names of \<^verbatim>\<open>upnp/src/inc/httpparser.h\<close> and the two tables of
  \<^verbatim>\<open>upnp/src/genlib/net/http/httpparser.c\<close> that the parser searches with \<open>map_str_to_int\<close>. The
  header table is sorted, so the search finds exactly its names, in any case; the method table is
  not, and the theorem on it says which of its entries the search can reach.
\<close>

section \<open>Methods\<close>

datatype http_method_t =
  HTTPMETHOD_PUT | HTTPMETHOD_DELETE | HTTPMETHOD_GET | HTTPMETHOD_HEAD | HTTPMETHOD_POST
| HTTPMETHOD_MPOST | HTTPMETHOD_SUBSCRIBE | HTTPMETHOD_UNSUBSCRIBE | HTTPMETHOD_NOTIFY
| HTTPMETHOD_MSEARCH | HTTPMETHOD_UNKNOWN | SOAPMETHOD_POST | HTTPMETHOD_SIMPLEGET

definition all_methods :: "http_method_t list" where
  "all_methods = [HTTPMETHOD_PUT, HTTPMETHOD_DELETE, HTTPMETHOD_GET, HTTPMETHOD_HEAD, HTTPMETHOD_POST,
     HTTPMETHOD_MPOST, HTTPMETHOD_SUBSCRIBE, HTTPMETHOD_UNSUBSCRIBE, HTTPMETHOD_NOTIFY,
     HTTPMETHOD_MSEARCH, HTTPMETHOD_UNKNOWN, SOAPMETHOD_POST, HTTPMETHOD_SIMPLEGET]"

text \<open>The values of the enumeration, and the cast back.\<close>

fun method_id :: "http_method_t \<Rightarrow> int" where
  "method_id HTTPMETHOD_PUT = 0"
| "method_id HTTPMETHOD_DELETE = 1"
| "method_id HTTPMETHOD_GET = 2"
| "method_id HTTPMETHOD_HEAD = 3"
| "method_id HTTPMETHOD_POST = 4"
| "method_id HTTPMETHOD_MPOST = 5"
| "method_id HTTPMETHOD_SUBSCRIBE = 6"
| "method_id HTTPMETHOD_UNSUBSCRIBE = 7"
| "method_id HTTPMETHOD_NOTIFY = 8"
| "method_id HTTPMETHOD_MSEARCH = 9"
| "method_id HTTPMETHOD_UNKNOWN = 10"
| "method_id SOAPMETHOD_POST = 11"
| "method_id HTTPMETHOD_SIMPLEGET = 12"

definition method_of_id :: "int \<Rightarrow> http_method_t" where
  "method_of_id i = all_methods ! nat i"

lemma method_of_id [simp]: "method_of_id (method_id x) = x"
  by (cases x) (simp_all add: method_of_id_def all_methods_def)

definition Http_Method_Table :: "str_int_entry list" where
  "Http_Method_Table =
    [(''DELETE'', method_id HTTPMETHOD_DELETE),
     (''GET'', method_id HTTPMETHOD_GET),
     (''HEAD'', method_id HTTPMETHOD_HEAD),
     (''M-POST'', method_id HTTPMETHOD_MPOST),
     (''M-SEARCH'', method_id HTTPMETHOD_MSEARCH),
     (''NOTIFY'', method_id HTTPMETHOD_NOTIFY),
     (''POST'', method_id HTTPMETHOD_POST),
     (''SUBSCRIBE'', method_id HTTPMETHOD_SUBSCRIBE),
     (''UNSUBSCRIBE'', method_id HTTPMETHOD_UNSUBSCRIBE),
     (''POST'', method_id SOAPMETHOD_POST),
     (''PUT'', method_id HTTPMETHOD_PUT)]"

abbreviation (input) NUM_HTTP_METHODS :: int where "NUM_HTTP_METHODS \<equiv> 11"

definition method_to_str :: "http_method_t \<Rightarrow> string option" where
  "method_to_str method =
     (let index = map_int_to_str (method_id method) Http_Method_Table NUM_HTTP_METHODS
      in if index = -1 then None else Some (fst (Http_Method_Table ! nat index)))"

section \<open>Headers\<close>

abbreviation (input) HDR_UNKNOWN :: int where "HDR_UNKNOWN \<equiv> -1"
abbreviation (input) HDR_CACHE_CONTROL :: int where "HDR_CACHE_CONTROL \<equiv> 1"
abbreviation (input) HDR_CALLBACK :: int where "HDR_CALLBACK \<equiv> 2"
abbreviation (input) HDR_CONTENT_LENGTH :: int where "HDR_CONTENT_LENGTH \<equiv> 3"
abbreviation (input) HDR_CONTENT_TYPE :: int where "HDR_CONTENT_TYPE \<equiv> 4"
abbreviation (input) HDR_DATE :: int where "HDR_DATE \<equiv> 5"
abbreviation (input) HDR_EXT :: int where "HDR_EXT \<equiv> 6"
abbreviation (input) HDR_HOST :: int where "HDR_HOST \<equiv> 7"
abbreviation (input) HDR_LOCATION :: int where "HDR_LOCATION \<equiv> 11"
abbreviation (input) HDR_MAN :: int where "HDR_MAN \<equiv> 12"
abbreviation (input) HDR_MX :: int where "HDR_MX \<equiv> 13"
abbreviation (input) HDR_NT :: int where "HDR_NT \<equiv> 14"
abbreviation (input) HDR_NTS :: int where "HDR_NTS \<equiv> 15"
abbreviation (input) HDR_SERVER :: int where "HDR_SERVER \<equiv> 16"
abbreviation (input) HDR_SEQ :: int where "HDR_SEQ \<equiv> 17"
abbreviation (input) HDR_SID :: int where "HDR_SID \<equiv> 18"
abbreviation (input) HDR_SOAPACTION :: int where "HDR_SOAPACTION \<equiv> 19"
abbreviation (input) HDR_ST :: int where "HDR_ST \<equiv> 20"
abbreviation (input) HDR_TIMEOUT :: int where "HDR_TIMEOUT \<equiv> 21"
abbreviation (input) HDR_TRANSFER_ENCODING :: int where "HDR_TRANSFER_ENCODING \<equiv> 22"
abbreviation (input) HDR_USN :: int where "HDR_USN \<equiv> 23"
abbreviation (input) HDR_USER_AGENT :: int where "HDR_USER_AGENT \<equiv> 24"
abbreviation (input) HDR_ACCEPT :: int where "HDR_ACCEPT \<equiv> 25"
abbreviation (input) HDR_ACCEPT_ENCODING :: int where "HDR_ACCEPT_ENCODING \<equiv> 26"
abbreviation (input) HDR_ACCEPT_CHARSET :: int where "HDR_ACCEPT_CHARSET \<equiv> 27"
abbreviation (input) HDR_ACCEPT_LANGUAGE :: int where "HDR_ACCEPT_LANGUAGE \<equiv> 28"
abbreviation (input) HDR_ACCEPT_RANGE :: int where "HDR_ACCEPT_RANGE \<equiv> 29"
abbreviation (input) HDR_CONTENT_ENCODING :: int where "HDR_CONTENT_ENCODING \<equiv> 30"
abbreviation (input) HDR_CONTENT_LANGUAGE :: int where "HDR_CONTENT_LANGUAGE \<equiv> 31"
abbreviation (input) HDR_CONTENT_LOCATION :: int where "HDR_CONTENT_LOCATION \<equiv> 32"
abbreviation (input) HDR_CONTENT_RANGE :: int where "HDR_CONTENT_RANGE \<equiv> 33"
abbreviation (input) HDR_IF_RANGE :: int where "HDR_IF_RANGE \<equiv> 34"
abbreviation (input) HDR_RANGE :: int where "HDR_RANGE \<equiv> 35"
abbreviation (input) HDR_TE :: int where "HDR_TE \<equiv> 36"

definition Http_Header_Names :: "str_int_entry list" where
  "Http_Header_Names =
    [(''ACCEPT'', HDR_ACCEPT),
     (''ACCEPT-CHARSET'', HDR_ACCEPT_CHARSET),
     (''ACCEPT-ENCODING'', HDR_ACCEPT_ENCODING),
     (''ACCEPT-LANGUAGE'', HDR_ACCEPT_LANGUAGE),
     (''ACCEPT-RANGES'', HDR_ACCEPT_RANGE),
     (''CACHE-CONTROL'', HDR_CACHE_CONTROL),
     (''CALLBACK'', HDR_CALLBACK),
     (''CONTENT-ENCODING'', HDR_CONTENT_ENCODING),
     (''CONTENT-LANGUAGE'', HDR_CONTENT_LANGUAGE),
     (''CONTENT-LENGTH'', HDR_CONTENT_LENGTH),
     (''CONTENT-LOCATION'', HDR_CONTENT_LOCATION),
     (''CONTENT-RANGE'', HDR_CONTENT_RANGE),
     (''CONTENT-TYPE'', HDR_CONTENT_TYPE),
     (''DATE'', HDR_DATE),
     (''EXT'', HDR_EXT),
     (''HOST'', HDR_HOST),
     (''IF-RANGE'', HDR_IF_RANGE),
     (''LOCATION'', HDR_LOCATION),
     (''MAN'', HDR_MAN),
     (''MX'', HDR_MX),
     (''NT'', HDR_NT),
     (''NTS'', HDR_NTS),
     (''RANGE'', HDR_RANGE),
     (''SEQ'', HDR_SEQ),
     (''SERVER'', HDR_SERVER),
     (''SID'', HDR_SID),
     (''SOAPACTION'', HDR_SOAPACTION),
     (''ST'', HDR_ST),
     (''TE'', HDR_TE),
     (''TIMEOUT'', HDR_TIMEOUT),
     (''TRANSFER-ENCODING'', HDR_TRANSFER_ENCODING),
     (''USER-AGENT'', HDR_USER_AGENT),
     (''USN'', HDR_USN)]"

abbreviation (input) NUM_HTTP_HEADER_NAMES :: int where "NUM_HTTP_HEADER_NAMES \<equiv> 33"

section \<open>Searching the header table\<close>

lemma header_table_length: "int (length Http_Header_Names) = NUM_HTTP_HEADER_NAMES"
  by (simp add: Http_Header_Names_def)

text \<open>The table is sorted for the comparison that ignores case.\<close>

lemma key_nocase_Cons: "key_nocase [] = []" "key_nocase (c # s) = (if isupper c then byte_of c + 32 else byte_of c) # key_nocase s"
  by (simp_all add: key_nocase_def byte_of_tolower)

lemma header_table_sorted: "nocase.sorted_table Http_Header_Names"
proof -
  have "sorted_wrt (<) (map (\<lambda>e. key_nocase (fst e)) Http_Header_Names)"
    by (simp add: Http_Header_Names_def key_nocase_Cons isupper_def byte_of_def sorted_wrt2 sorted_wrt1 transp_on_less del: sorted_wrt.simps)
  then have "sorted_wrt (\<lambda>a b. key_nocase (fst a) < key_nocase (fst b)) Http_Header_Names"
    by (simp add: sorted_wrt_map)
  moreover have "\<forall>e \<in> set Http_Header_Names. no_NUL (fst e)"
    by (simp add: Http_Header_Names_def NUL_def)
  ultimately show ?thesis by (simp add: nocase.sorted_table_def)
qed

section \<open>Searching the method table\<close>

text \<open>
  Only the first nine entries are in order. A search that stays among them is the search of the
  sorted prefix.
\<close>

abbreviation sorted_methods :: "str_int_entry list" where
  "sorted_methods \<equiv> take 9 Http_Method_Table"

lemma key_sens_Cons: "key_sens [] = []" "key_sens (c # s) = byte_of c # key_sens s"
  by (simp_all add: key_sens_def)

lemma sorted_methods: "sens.sorted_table sorted_methods"
proof -
  have "sorted_wrt (<) (map (\<lambda>e. key_sens (fst e)) sorted_methods)"
    by (simp add: Http_Method_Table_def key_sens_Cons byte_of_def sorted_wrt2 sorted_wrt1 transp_on_less
        del: sorted_wrt.simps)
  then have "sorted_wrt (\<lambda>a b. key_sens (fst a) < key_sens (fst b)) sorted_methods"
    by (simp add: sorted_wrt_map)
  moreover have "\<forall>e \<in> set sorted_methods. no_NUL (fst e)"
    by (simp add: Http_Method_Table_def NUL_def)
  ultimately show ?thesis by (simp add: sens.sorted_table_def)
qed

lemma bsearch_prefix:
  "hi < int k \<Longrightarrow> 0 \<le> lo \<Longrightarrow> map_str_to_int_loop compare (take k table) lo hi = map_str_to_int_loop compare table lo hi"
proof (induction compare table lo hi rule: map_str_to_int_loop.induct)
  case (1 compare table lo hi)
  show ?case
  proof (cases "lo \<le> hi")
    case True
    let ?m = "(lo + hi) div 2"
    have m: "0 \<le> ?m" "nat ?m < k" "?m - 1 < int k" "0 \<le> ?m + 1" using True 1(3,4) by auto
    then have t: "take k table ! nat ?m = table ! nat ?m" by simp
    have gt: "0 < compare (fst (table ! nat ?m)) \<Longrightarrow>
      map_str_to_int_loop compare (take k table) (?m + 1) hi = map_str_to_int_loop compare table (?m + 1) hi"
      using 1(1) [OF True refl refl] 1(3) m by simp
    have lt: "compare (fst (table ! nat ?m)) < 0 \<Longrightarrow>
      map_str_to_int_loop compare (take k table) lo (?m - 1) = map_str_to_int_loop compare table lo (?m - 1)"
      using 1(2) [OF True refl refl] 1(4) m by simp
    show ?thesis
      unfolding map_str_to_int_loop.simps [of compare "take k table" lo hi] map_str_to_int_loop.simps [of compare table lo hi]
        Let_def t
      using gt lt by (simp split: if_splits)
  qed (simp add: map_str_to_int_loop.simps)
qed

text \<open>What one step of the search does.\<close>

lemma bsearch_step:
  assumes "lo \<le> hi" "(lo + hi) div 2 = k" "compare (fst (table ! nat k)) = c"
  shows "map_str_to_int_loop compare table lo hi =
    (if 0 < c then map_str_to_int_loop compare table (k + 1) hi
     else if c < 0 then map_str_to_int_loop compare table lo (k - 1) else k)"
  by (subst map_str_to_int_loop.simps) (use assms in \<open>simp add: Let_def\<close>)

lemma method_search:
  assumes mono: "splits_table compare sorted_methods"
    and last: "0 < compare ''UNSUBSCRIBE'' \<Longrightarrow> 0 < compare ''POST'' \<and> 0 < compare ''PUT''"
  shows "case map_str_to_int_loop compare Http_Method_Table 0 10 of r \<Rightarrow>
    if \<exists>e \<in> set sorted_methods. compare (fst e) = 0
    then 0 \<le> r \<and> r < 9 \<and> compare (fst (Http_Method_Table ! nat r)) = 0 else r = -1"
proof -
  let ?T = Http_Method_Table and ?c = "\<lambda>i. compare (fst (Http_Method_Table ! i))"
  have len: "length sorted_methods = 9" "length ?T = 11" by (simp_all add: Http_Method_Table_def)
  have nth: "i < 9 \<Longrightarrow> sorted_methods ! i = ?T ! i" for i by simp
  have ex: "(\<exists>e \<in> set sorted_methods. compare (fst e) = 0) \<longleftrightarrow> (\<exists>i < 9. ?c i = 0)"
    using len nth by (metis in_set_conv_nth)
  have mon: "(0 \<le> ?c j \<longrightarrow> 0 < ?c i) \<and> (?c i \<le> 0 \<longrightarrow> ?c j < 0)" if "i < j" "j < 9" for i j
    using mono that len nth by (simp add: splits_table_def)
  have part: "case map_str_to_int_loop compare ?T lo hi of r \<Rightarrow>
      if \<exists>i < 9. ?c i = 0 then 0 \<le> r \<and> r < 9 \<and> ?c (nat r) = 0 else r = -1"
    if "0 \<le> lo" "hi < 9" "\<forall>i < 9. ?c i = 0 \<longrightarrow> lo \<le> int i \<and> int i \<le> hi" for lo hi
    using bsearch_ok [OF mono, of lo hi] bsearch_prefix [of hi 9 lo compare ?T] that len nth
    by (simp split: if_splits) (metis nth less_numeral_extra nat_less_eq_zless nat_numeral zless_nat_eq_int_zless)
  have c: "?c 5 = compare ''NOTIFY''" "?c 8 = compare ''UNSUBSCRIBE''" "?c 9 = compare ''POST''" "?c 10 = compare ''PUT''"
    by (simp_all add: Http_Method_Table_def)
  note step5 = bsearch_step [of 0 10 5 compare ?T "?c 5"] and step8 = bsearch_step [of 6 10 8 compare ?T "?c 8"]
  consider "?c 5 < 0" | "?c 5 = 0" | "0 < ?c 5" "?c 8 < 0" | "0 < ?c 5" "?c 8 = 0" | "0 < ?c 5" "0 < ?c 8"
    by linarith
  moreover have below: "i < k" if "?c k < 0" "?c i = 0" "k < 9" "i < 9" for i k
    using mon [of k i] that by (cases i k rule: linorder_cases) auto
  moreover have above: "k < i" if "0 < ?c k" "?c i = 0" "k < 9" "i < 9" for i k
    using mon [of i k] that by (cases i k rule: linorder_cases) auto
  ultimately show ?thesis
  proof cases
    case 1
    have "\<forall>i < 9. ?c i = 0 \<longrightarrow> 0 \<le> int i \<and> int i \<le> 4" using below [OF 1] by fastforce
    then show ?thesis unfolding ex using step5 1 part [of 0 4] by simp
  next
    case 2
    then show ?thesis unfolding ex using step5 by (auto intro: exI [of _ 5])
  next
    case 3
    have "\<forall>i < 9. ?c i = 0 \<longrightarrow> 6 \<le> int i \<and> int i \<le> 7" using above [OF 3(1)] below [OF 3(2)] by fastforce
    then show ?thesis unfolding ex using step5 step8 3 part [of 6 7] by simp
  next
    case 4
    then show ?thesis unfolding ex using step5 step8 by (auto intro: exI [of _ 8])
  next
    case 5
    have "\<not> (\<exists>i < 9. ?c i = 0)" using above [OF 5(2)] by fastforce
    moreover have "0 < ?c 9" "0 < ?c 10" using last 5(2) c by auto
    then have "map_str_to_int_loop compare ?T 9 10 = -1"
      using bsearch_step [of 9 10 9 compare ?T "?c 9"] bsearch_step [of 10 10 10 compare ?T "?c 10"]
      by (simp add: map_str_to_int_loop.simps [of compare ?T 11 10])
    ultimately show ?thesis unfolding ex using step5 step8 5 by simp
  qed
qed

section \<open>Properties\<close>

text \<open>
  C33. A header name is looked up by binary search, ignoring case: the result is the index of the table
  entry with that name if there is one, and -1 for every other name. The table is in order for the
  comparison the search uses.
\<close>

theorem header_lookup:
  assumes "length s = n" "no_NUL s"
  shows "case map_str_to_int (s @ rest) n Http_Header_Names NUM_HTTP_HEADER_NAMES False of r \<Rightarrow>
    (r = -1 \<and> (\<forall>e \<in> set Http_Header_Names. map tolower (fst e) \<noteq> map tolower s)) \<or>
    (0 \<le> r \<and> nat r < length Http_Header_Names \<and> map tolower (fst (Http_Header_Names ! nat r)) = map tolower s)"
proof -
  have "seen \<lparr>mp_buf = s @ rest, mp_length = n\<rparr> = s"
    using assms by (auto simp: seen_def takeWhile_eq_all_conv)
  then show ?thesis
    using map_str_to_int_nocase [OF header_table_sorted, of "s @ rest" n] by (simp add: header_table_length)
qed

theorem header_lookup_witness:
  "\<exists>r. map_str_to_int (''Host'' @ '': a'') 4 Http_Header_Names NUM_HTTP_HEADER_NAMES False = r \<and> 0 \<le> r \<and>
     map tolower (fst (Http_Header_Names ! nat r)) = map tolower ''Host''"
proof -
  have "(''HOST'', HDR_HOST) \<in> set Http_Header_Names" by (simp add: Http_Header_Names_def)
  moreover have "map tolower ''HOST'' = map tolower ''Host''" by code_simp
  ultimately have "\<exists>e \<in> set Http_Header_Names. map tolower (fst e) = map tolower ''Host''" by force
  then show ?thesis
    using header_lookup [of "''Host''" 4 "'': a''"] by (auto simp: NUL_def)
qed

text \<open>
  The method table is not in order behind "UNSUBSCRIBE", and the binary search never reaches the
  last two entries: it finds exactly the first nine methods, for every other name it returns -1, so
  that "PUT" is an unknown method although the table lists it.
\<close>

theorem method_lookup:
  assumes "length s = n" "no_NUL s"
  shows "case map_str_to_int (s @ rest) n Http_Method_Table NUM_HTTP_METHODS True of r \<Rightarrow>
    (if s \<in> fst ` set (take 9 Http_Method_Table)
     then 0 \<le> r \<and> r < 9 \<and> fst (Http_Method_Table ! nat r) = s else r = -1) \<and> (s = ''PUT'' \<longrightarrow> r = -1)"
proof -
  let ?m = "\<lparr>mp_buf = s @ rest, mp_length = n\<rparr>"
  have seen: "seen ?m = s" using assms by (auto simp: seen_def takeWhile_eq_all_conv)
  have eq: "no_NUL t \<Longrightarrow> memptr_cmp ?m t = 0 \<longleftrightarrow> t = s" for t
    using sens.compare_eq [of t ?m] seen by (auto simp: key_sens_def inj_map_eq_map inj_on_def)
  have names: "e \<in> set Http_Method_Table \<Longrightarrow> no_NUL (fst e)" for e
    by (auto simp: Http_Method_Table_def NUL_def)
  have gt: "no_NUL t \<Longrightarrow> 0 < memptr_cmp ?m t \<longleftrightarrow> key_sens t < key_sens s" for t
    using sens.compare_gt [of t ?m] seen by simp
  have "key_sens ''POST'' < key_sens ''UNSUBSCRIBE''" "key_sens ''PUT'' < key_sens ''UNSUBSCRIBE''"
    by (simp_all add: key_sens_Cons byte_of_def)
  then have last: "0 < memptr_cmp ?m ''UNSUBSCRIBE'' \<Longrightarrow> 0 < memptr_cmp ?m ''POST'' \<and> 0 < memptr_cmp ?m ''PUT''"
    using gt [of "''UNSUBSCRIBE''"] gt [of "''POST''"] gt [of "''PUT''"] by (auto simp: NUL_def)
  have ex: "(\<exists>e \<in> set sorted_methods. memptr_cmp ?m (fst e) = 0) \<longleftrightarrow> s \<in> fst ` set sorted_methods"
  proof -
    have "memptr_cmp ?m (fst e) = 0 \<longleftrightarrow> fst e = s" if "e \<in> set sorted_methods" for e
      using eq names set_take_subset [of 9 Http_Method_Table] that by blast
    then show ?thesis unfolding image_iff by (metis (no_types, lifting))
  qed
  have put: "''PUT'' \<notin> fst ` set sorted_methods" by (simp add: Http_Method_Table_def)
  have hit: "r < 9 \<Longrightarrow> memptr_cmp ?m (fst (Http_Method_Table ! nat r)) = 0 \<Longrightarrow> fst (Http_Method_Table ! nat r) = s" for r
    using eq names [OF nth_mem, of "nat r"] by (simp add: Http_Method_Table_def)
  define r where "r = map_str_to_int_loop (memptr_cmp ?m) Http_Method_Table 0 10"
  have r: "if s \<in> fst ` set sorted_methods then 0 \<le> r \<and> r < 9 \<and> memptr_cmp ?m (fst (Http_Method_Table ! nat r)) = 0
      else r = -1"
    using method_search [OF sens.sorted_splits [OF sorted_methods] last] unfolding ex r_def .
  have "s = ''PUT'' \<longrightarrow> r = -1" using r put by (cases "s = ''PUT''") simp_all
  moreover have eq_r: "map_str_to_int (s @ rest) n Http_Method_Table NUM_HTTP_METHODS True = r"
    by (simp add: map_str_to_int_def Let_def r_def)
  ultimately show ?thesis unfolding eq_r using r hit [of r] by (cases "s \<in> fst ` set sorted_methods") simp_all
qed

theorem method_lookup_witness:
  "map_str_to_int ''PUT /x HTTP/1.1'' 3 Http_Method_Table NUM_HTTP_METHODS True = -1 \<and>
   (''PUT'', method_id HTTPMETHOD_PUT) \<in> set Http_Method_Table"
proof -
  have "map_str_to_int (''PUT'' @ '' /x HTTP/1.1'') 3 Http_Method_Table NUM_HTTP_METHODS True = -1"
    using method_lookup [of "''PUT''" 3 "'' /x HTTP/1.1''"] by (simp add: NUL_def)
  then show ?thesis by (simp add: Http_Method_Table_def)
qed

end
