(* ===== verification/Http_Scanner.thy ===== *)
theory Http_Scanner
  imports Http_Tables Uri_Parser
begin

text \<open>
  The scanner and the pattern matcher of \<^verbatim>\<open>upnp/src/genlib/net/http/httpparser.c\<close>. The scanner reads
  a message that may still be growing: whenever the answer could change with more data it reports
  \<open>PARSE_INCOMPLETE\<close>. Pointers into the message are offsets; a \<open>memptr\<close> that points into the message
  is an offset with a length. Behind the message there is a NUL, which the buffer guarantees.
\<close>

section \<open>Types\<close>

datatype parse_status_t =
  PARSE_SUCCESS | PARSE_INCOMPLETE | PARSE_INCOMPLETE_ENTITY | PARSE_FAILURE | PARSE_OK
| PARSE_NO_MATCH | PARSE_CONTINUE_1

datatype token_type_t =
  TT_IDENTIFIER | TT_WHITESPACE | TT_CRLF | TT_CTRL | TT_SEPARATOR | TT_QUOTEDSTRING

record scanner_t =
  sc_msg :: string
  sc_cursor :: nat
  entire_msg_loaded :: bool

type_synonym mem_ref = "nat \<times> nat"

definition ref_str :: "string \<Rightarrow> mem_ref \<Rightarrow> string" where
  "ref_str m r = take (snd r) (drop (fst r) m)"

definition scanner_init :: "string \<Rightarrow> scanner_t" where
  "scanner_init bufptr = \<lparr>sc_msg = bufptr, sc_cursor = 0, entire_msg_loaded = False\<rparr>"

section \<open>Tokens\<close>

definition TAB :: char where "TAB = CHR 0x09"
definition CR :: char where "CR = CHR 0x0D"
definition LF :: char where "LF = CHR 0x0A"
definition DQUOTE :: char where "DQUOTE = CHR 0x22"
definition BACKSLASH :: char where "BACKSLASH = CHR 0x5C"

text \<open>\<open>strchr\<close> also finds the terminator, so a NUL is a separator.\<close>

definition is_separator_char :: "char \<Rightarrow> bool" where
  "is_separator_char c \<longleftrightarrow>
     c \<in> set ('' ()<>@,;:/[]?={}'') \<or> c = TAB \<or> c = DQUOTE \<or> c = BACKSLASH \<or> c = NUL"

definition is_identifier_char :: "char \<Rightarrow> bool" where
  "is_identifier_char c \<longleftrightarrow> 32 \<le> schar c \<and> schar c \<le> 126 \<and> \<not> is_separator_char c"

definition is_control_char :: "char \<Rightarrow> bool" where
  "is_control_char c \<longleftrightarrow> (0 \<le> schar c \<and> schar c \<le> 31) \<or> schar c = 127"

definition is_qdtext_char :: "char \<Rightarrow> bool" where
  "is_qdtext_char c \<longleftrightarrow> (32 \<le> schar c \<and> schar c \<noteq> 127) \<or> schar c < 0 \<or> c = CR \<or> c = LF \<or> c = TAB"

abbreviation (input) is_ws :: "char \<Rightarrow> bool" where
  "is_ws c \<equiv> c = CHR '' '' \<or> c = TAB"

text \<open>The length of a quoted string from behind its first quote.\<close>

fun scan_quoted :: "string \<Rightarrow> nat \<Rightarrow> parse_status_t + nat" where
  "scan_quoted [] n = Inl PARSE_INCOMPLETE"
| "scan_quoted [c] n =
     (if c = DQUOTE then Inr (n + 1)
      else if c = BACKSLASH \<or> is_qdtext_char c then Inl PARSE_INCOMPLETE else Inl PARSE_FAILURE)"
| "scan_quoted (c # d # cs) n =
     (if c = DQUOTE then Inr (n + 1)
      else if c = BACKSLASH then scan_quoted cs (n + 2)
      else if is_qdtext_char c then scan_quoted (d # cs) (n + 1)
      else Inl PARSE_FAILURE)"

text \<open>Length and type of the next token of the characters that are left.\<close>

definition scan_token :: "bool \<Rightarrow> string \<Rightarrow> parse_status_t + (nat \<times> token_type_t)" where
  "scan_token entire rest =
     (case rest of [] \<Rightarrow> Inl PARSE_INCOMPLETE
      | c # cs \<Rightarrow>
        if is_identifier_char c then
          (let n = length (takeWhile is_identifier_char rest)
           in if \<not> entire \<and> n = length rest then Inl PARSE_INCOMPLETE else Inr (n, TT_IDENTIFIER))
        else if is_ws c then
          (let n = length (takeWhile (\<lambda>c. is_ws c) rest)
           in if \<not> entire \<and> n = length rest then Inl PARSE_INCOMPLETE else Inr (n, TT_WHITESPACE))
        else if c = CR then
          (case cs of [] \<Rightarrow> Inl PARSE_INCOMPLETE
           | d # _ \<Rightarrow> if d \<noteq> LF then Inr (1, TT_CTRL) else Inr (2, TT_CRLF))
        else if c = LF then Inr (1, TT_CRLF)
        else if c = DQUOTE then
          (case scan_quoted cs 1 of Inl s \<Rightarrow> Inl s | Inr n \<Rightarrow> Inr (n, TT_QUOTEDSTRING))
        else if is_separator_char c then Inr (1, TT_SEPARATOR)
        else if is_control_char c then Inr (1, TT_CTRL)
        else Inl PARSE_FAILURE)"

definition scanner_get_str :: "scanner_t \<Rightarrow> string" where
  "scanner_get_str sc = drop (sc_cursor sc) (sc_msg sc)"

definition scanner_get_token :: "scanner_t \<Rightarrow> parse_status_t + (mem_ref \<times> token_type_t \<times> scanner_t)" where
  "scanner_get_token sc =
     (case scan_token (entire_msg_loaded sc) (scanner_get_str sc) of
        Inl status \<Rightarrow> Inl status
      | Inr (n, tok_type) \<Rightarrow>
          Inr ((sc_cursor sc, n), tok_type, sc\<lparr>sc_cursor := sc_cursor sc + n\<rparr>))"

subsection \<open>Tokens are parts of what is left\<close>

lemma scan_quoted_bounds: "scan_quoted r n = Inr k \<Longrightarrow> n < k \<and> k \<le> n + length r"
  by (induction r n rule: scan_quoted.induct) (auto split: if_splits)

lemma ident_special [simp]:
  "\<not> is_identifier_char (CHR '' '')" "\<not> is_identifier_char TAB" "\<not> is_identifier_char CR"
  "\<not> is_identifier_char LF" "\<not> is_identifier_char DQUOTE"
  by (simp_all add: is_identifier_char_def is_separator_char_def schar_def byte_of_def TAB_def CR_def LF_def DQUOTE_def)

lemma scan_token_bounds:
  assumes "scan_token entire r = Inr (n, ty)"
  shows "0 < n \<and> n \<le> length r"
  using assms
  by (auto simp: scan_token_def Let_def Suc_le_eq length_takeWhile_le less_Suc_eq_le split: list.splits if_splits sum.splits
      dest: scan_quoted_bounds)

lemma scanner_get_token_bounds:
  assumes "scanner_get_token sc = Inr (t, ty, sc')"
  shows "fst t = sc_cursor sc" "0 < snd t" "sc_cursor sc' = sc_cursor sc + snd t" "sc_cursor sc' \<le> length (sc_msg sc)"
    "sc_msg sc' = sc_msg sc" "entire_msg_loaded sc' = entire_msg_loaded sc"
  using assms scan_token_bounds [of "entire_msg_loaded sc" "scanner_get_str sc" "snd t" ty]
  by (auto simp: scanner_get_token_def scanner_get_str_def split: sum.splits)

lemma token_progress:
  "scanner_get_token sc = Inr (t, ty, sc') \<Longrightarrow>
   length (sc_msg sc') - sc_cursor sc' < length (sc_msg sc) - sc_cursor sc"
  using scanner_get_token_bounds [of sc t ty sc'] by auto

section \<open>Matching\<close>

text \<open>Going back over the last token.\<close>

definition push_back :: "scanner_t \<Rightarrow> mem_ref \<Rightarrow> scanner_t" where
  "push_back sc t = sc\<lparr>sc_cursor := sc_cursor sc - snd t\<rparr>"

abbreviation (input) left :: "scanner_t \<Rightarrow> nat" where
  "left sc \<equiv> length (sc_msg sc) - sc_cursor sc"

function skip_blank_lines :: "scanner_t \<Rightarrow> parse_status_t \<times> scanner_t" where
  "skip_blank_lines sc =
     (case scanner_get_token sc of
        Inl status \<Rightarrow> (status, sc)
      | Inr (token, tok_type, sc1) \<Rightarrow>
          if tok_type = TT_WHITESPACE \<or> tok_type = TT_CRLF then skip_blank_lines sc1
          else (PARSE_OK, push_back sc1 token))"
  by pat_completeness auto
termination by (relation "measure (\<lambda>sc. left sc)") (auto dest: token_progress)

function skip_lws_loop :: "scanner_t \<Rightarrow> parse_status_t \<times> scanner_t" where
  "skip_lws_loop sc =
     (case scanner_get_token sc of
        Inl status \<Rightarrow> (status, sc)
      | Inr (token, tok_type, sc1) \<Rightarrow>
          if tok_type = TT_CRLF then
            (case scanner_get_token sc1 of
               Inl status \<Rightarrow> (status, sc1\<lparr>sc_cursor := sc_cursor sc\<rparr>)
             | Inr (token2, tok_type2, sc2) \<Rightarrow>
                 if tok_type2 = TT_WHITESPACE then skip_lws_loop sc2
                 else (PARSE_OK, sc2\<lparr>sc_cursor := sc_cursor sc\<rparr>))
          else if tok_type = TT_WHITESPACE then skip_lws_loop sc1
          else (PARSE_OK, sc1\<lparr>sc_cursor := sc_cursor sc\<rparr>))"
  by pat_completeness auto
termination
  by (relation "measure (\<lambda>sc. left sc)") (auto dest!: token_progress)

definition skip_lws :: "scanner_t \<Rightarrow> parse_status_t \<times> scanner_t" where
  "skip_lws sc =
     (let (status, sc1) = skip_lws_loop sc
      in if status = PARSE_INCOMPLETE \<and> entire_msg_loaded sc1 then (PARSE_OK, sc1) else (status, sc1))"

function non_ws_loop :: "scanner_t \<Rightarrow> nat \<Rightarrow> parse_status_t \<times> nat \<times> scanner_t" where
  "non_ws_loop sc len =
     (case scanner_get_token sc of
        Inl status \<Rightarrow> (status, len, sc)
      | Inr (token, tok_type, sc1) \<Rightarrow>
          if tok_type \<noteq> TT_WHITESPACE \<and> tok_type \<noteq> TT_CRLF then non_ws_loop sc1 (len + snd token)
          else (PARSE_OK, len, push_back sc1 token))"
  by pat_completeness auto
termination by (relation "measure (\<lambda>(sc, len). left sc)") (auto dest: token_progress)

definition match_non_ws_string :: "scanner_t \<Rightarrow> parse_status_t \<times> mem_ref \<times> scanner_t" where
  "match_non_ws_string sc =
     (let (status, len, sc1) = non_ws_loop sc 0; str = (sc_cursor sc, len)
      in if status = PARSE_OK \<or> (status = PARSE_INCOMPLETE \<and> entire_msg_loaded sc1)
         then (if len = 0 then PARSE_NO_MATCH else PARSE_OK, str, sc1)
         else (status, str, sc1\<lparr>sc_cursor := sc_cursor sc\<rparr>))"

function raw_value_loop :: "scanner_t \<Rightarrow> nat \<Rightarrow> bool \<Rightarrow> nat \<Rightarrow> nat \<Rightarrow> parse_status_t \<times> nat \<times> scanner_t" where
  "raw_value_loop sc save_pos saw_crlf pos_at_crlf len =
     (case scanner_get_token sc of
        Inl status \<Rightarrow> (status, len, sc\<lparr>sc_cursor := save_pos\<rparr>)
      | Inr (token, tok_type, sc1) \<Rightarrow>
          if \<not> saw_crlf then
            (if tok_type = TT_CRLF
             then raw_value_loop sc1 save_pos True (sc_cursor sc1 - snd token) (len + snd token)
             else raw_value_loop sc1 save_pos False pos_at_crlf (len + snd token))
          else if tok_type = TT_WHITESPACE
          then raw_value_loop sc1 save_pos False pos_at_crlf (len + snd token)
          else (PARSE_OK, len, sc1\<lparr>sc_cursor := pos_at_crlf\<rparr>))"
  by pat_completeness auto
termination by (relation "measure (\<lambda>(sc, sp, sw, pc, len). left sc)") (auto dest: token_progress)

fun trim_right :: "string \<Rightarrow> nat \<Rightarrow> nat" where
  "trim_right buf 0 = 0"
| "trim_right buf (Suc n) =
     (if \<not> is_ws (buf ! n) \<and> buf ! n \<noteq> CR \<and> buf ! n \<noteq> LF then Suc n else trim_right buf n)"

definition match_raw_value :: "scanner_t \<Rightarrow> parse_status_t \<times> mem_ref \<times> scanner_t" where
  "match_raw_value sc =
     (let (status, len, sc1) = raw_value_loop sc (sc_cursor sc) False 0 0
      in if status = PARSE_OK
         then (status, (sc_cursor sc, trim_right (scanner_get_str sc) len), sc1)
         else (status, (sc_cursor sc, len), sc1))"

text \<open>
  \<open>match_int\<close>: the second component is the value stored through the pointer, if the code gets that
  far; it is stored even when the text is not an acceptable number.
\<close>

definition match_int :: "scanner_t \<Rightarrow> nat \<Rightarrow> parse_status_t \<times> int option \<times> scanner_t" where
  "match_int sc base =
     (case scanner_get_token sc of
        Inl status \<Rightarrow> (status, None, sc)
      | Inr (token, tok_type, sc1) \<Rightarrow>
          if tok_type = TT_IDENTIFIER then
            (let (num, used, clamped) = strtol (drop (fst token) (sc_msg sc)) base;
                 bad = (num < 0 \<or> used \<noteq> snd token \<or> ((num = - (2 ^ 63) \<or> num = 2 ^ 63 - 1) \<and> clamped))
             in if bad then (PARSE_NO_MATCH, Some (to_int32 num), sc1\<lparr>sc_cursor := sc_cursor sc\<rparr>)
                else (PARSE_OK, Some (to_int32 num), sc1))
          else (PARSE_NO_MATCH, None, sc1\<lparr>sc_cursor := sc_cursor sc\<rparr>))"

function read_until_crlf_loop :: "scanner_t \<Rightarrow> parse_status_t \<times> scanner_t" where
  "read_until_crlf_loop sc =
     (case scanner_get_token sc of
        Inl status \<Rightarrow> (status, sc)
      | Inr (token, tok_type, sc1) \<Rightarrow>
          if tok_type \<noteq> TT_CRLF then read_until_crlf_loop sc1 else (PARSE_OK, push_back sc1 token))"
  by pat_completeness auto
termination by (relation "measure (\<lambda>sc. left sc)") (auto dest: token_progress)

definition read_until_crlf :: "scanner_t \<Rightarrow> parse_status_t \<times> mem_ref \<times> scanner_t" where
  "read_until_crlf sc =
     (let (status, sc1) = read_until_crlf_loop sc
      in (status, (sc_cursor sc, if status = PARSE_OK then sc_cursor sc1 - sc_cursor sc else 0), sc1))"

definition match_char :: "scanner_t \<Rightarrow> char \<Rightarrow> bool \<Rightarrow> parse_status_t \<times> scanner_t" where
  "match_char sc c case_sensitive =
     (if length (sc_msg sc) \<le> sc_cursor sc then (PARSE_INCOMPLETE, sc)
      else
        let scan_char = sc_msg sc ! sc_cursor sc; sc1 = sc\<lparr>sc_cursor := sc_cursor sc + 1\<rparr>;
            eq = (if case_sensitive then c = scan_char else tolower c = tolower scan_char)
        in (if eq then PARSE_OK else PARSE_NO_MATCH, sc1))"

declare skip_blank_lines.simps [simp del] skip_lws_loop.simps [simp del] non_ws_loop.simps [simp del]
  raw_value_loop.simps [simp del] read_until_crlf_loop.simps [simp del]

section \<open>Patterns\<close>

text \<open>
  \<open>vfmatch\<close> interprets a format; the values it stores through its arguments are listed in order. A
  character that is no option is skipped, as the assertion on it is compiled out.
\<close>

datatype match_out = OutStr mem_ref | OutInt int | OutUri uri_type

definition expect_token :: "scanner_t \<Rightarrow> token_type_t \<Rightarrow> parse_status_t \<times> mem_ref \<times> scanner_t" where
  "expect_token sc ty =
     (case scanner_get_token sc of
        Inl status \<Rightarrow> (status, (sc_cursor sc, 0), sc)
      | Inr (token, tok_type, sc1) \<Rightarrow> (if tok_type = ty then PARSE_OK else PARSE_NO_MATCH, token, sc1))"

definition optional_ws :: "scanner_t \<Rightarrow> parse_status_t \<times> scanner_t" where
  "optional_ws sc =
     (case scanner_get_token sc of
        Inl status \<Rightarrow> (status, sc)
      | Inr (token, tok_type, sc1) \<Rightarrow>
          (PARSE_OK, if tok_type \<noteq> TT_WHITESPACE then push_back sc1 token else sc1))"

definition out_str :: "parse_status_t \<times> mem_ref \<times> scanner_t \<Rightarrow> parse_status_t \<times> match_out list \<times> scanner_t" where
  "out_str r = (case r of (status, str, sc1) \<Rightarrow> (status, [OutStr str], sc1))"

definition no_out :: "parse_status_t \<times> scanner_t \<Rightarrow> parse_status_t \<times> match_out list \<times> scanner_t" where
  "no_out r = (case r of (status, sc1) \<Rightarrow> (status, [], sc1))"

definition match_option ::
  "net_env \<Rightarrow> char \<Rightarrow> bool \<Rightarrow> scanner_t \<Rightarrow> parse_status_t \<times> match_out list \<times> scanner_t" where
  "match_option env c case_sensitive sc =
     (if c = CHR ''R'' then out_str (match_raw_value sc)
      else if c = CHR ''s'' then out_str (expect_token sc TT_IDENTIFIER)
      else if c = CHR ''c'' then
        (case expect_token sc TT_CRLF of (status, _, sc1) \<Rightarrow> (status, [], sc1))
      else if c = CHR ''d'' \<or> c = CHR ''x'' then
        (case match_int sc (if c = CHR ''d'' then 10 else 16) of (status, v, sc1) \<Rightarrow>
           (status, case v of None \<Rightarrow> [] | Some i \<Rightarrow> [OutInt i], sc1))
      else if c = CHR ''S'' then out_str (match_non_ws_string sc)
      else if c = CHR ''U'' then
        (case match_non_ws_string sc of (status, str, sc1) \<Rightarrow>
           if status = PARSE_OK then
             (case parse_uri env (drop (fst str) (sc_msg sc1)) (snd str) of
                (stat, Some u) \<Rightarrow> (if stat \<noteq> HTTP_SUCCESS then PARSE_NO_MATCH else PARSE_OK, [OutUri u], sc1)
              | (stat, None) \<Rightarrow> (if stat \<noteq> HTTP_SUCCESS then PARSE_NO_MATCH else PARSE_OK, [], sc1))
           else (status, [], sc1))
      else if c = CHR ''L'' then out_str (read_until_crlf sc)
      else if c = CHR '' '' \<or> c = CHR ''%'' then no_out (match_char sc c case_sensitive)
      else if c = CHR ''q'' then out_str (expect_token sc TT_QUOTEDSTRING)
      else if c = CHR ''w'' then no_out (optional_ws sc)
      else if c = CHR ''P'' then (PARSE_OK, [OutInt (to_int32 (int (sc_cursor sc)))], sc)
      else if c = CHR ''0'' then
        (if sc_cursor sc = length (sc_msg sc) then PARSE_OK else PARSE_NO_MATCH, [], sc)
      else (PARSE_OK, [], sc))"

definition next_case :: "char \<Rightarrow> bool \<Rightarrow> bool" where
  "next_case c case_sensitive =
     (if c = CHR ''n'' then True else if c = CHR ''i'' then False else case_sensitive)"

definition match_plain :: "char \<Rightarrow> bool \<Rightarrow> scanner_t \<Rightarrow> parse_status_t \<times> scanner_t" where
  "match_plain c case_sensitive sc =
     (if c = CHR '' '' then skip_lws sc
      else if c = TAB then (case expect_token sc TT_WHITESPACE of (status, _, sc1) \<Rightarrow> (status, sc1))
      else match_char sc c case_sensitive)"

fun vfmatch_loop :: "net_env \<Rightarrow> string \<Rightarrow> bool \<Rightarrow> scanner_t \<Rightarrow> parse_status_t \<times> match_out list \<times> scanner_t" where
  "vfmatch_loop env [] cs sc = (PARSE_OK, [], sc)"
| "vfmatch_loop env [c] cs sc = (if c = CHR ''%'' then (PARSE_OK, [], sc) else no_out (match_plain c cs sc))"
| "vfmatch_loop env (c # d # fmt) cs sc =
     (if c = CHR ''%'' then
        (case match_option env d cs sc of (status, outs, sc1) \<Rightarrow>
           if status = PARSE_OK
           then (case vfmatch_loop env fmt (next_case d cs) sc1 of (status2, outs2, sc2) \<Rightarrow> (status2, outs @ outs2, sc2))
           else (status, outs, sc1))
      else
        (case match_plain c cs sc of (status, sc1) \<Rightarrow>
           if status = PARSE_OK then vfmatch_loop env (d # fmt) cs sc1 else (status, [], sc1)))"

definition vfmatch :: "net_env \<Rightarrow> scanner_t \<Rightarrow> string \<Rightarrow> parse_status_t \<times> match_out list \<times> scanner_t" where
  "vfmatch env sc fmt =
     (case vfmatch_loop env fmt True sc of (status, outs, sc1) \<Rightarrow>
        if status \<noteq> PARSE_OK then (status, outs, sc1\<lparr>sc_cursor := sc_cursor sc\<rparr>) else (status, outs, sc1))"

definition match_fmt :: "net_env \<Rightarrow> scanner_t \<Rightarrow> string \<Rightarrow> parse_status_t \<times> match_out list \<times> scanner_t" where
  "match_fmt env sc fmt = vfmatch env sc fmt"

definition matchstr :: "net_env \<Rightarrow> string \<Rightarrow> nat \<Rightarrow> string \<Rightarrow> parse_status_t \<times> match_out list \<times> string" where
  "matchstr env str slen fmt =
     (let sc = (scanner_init (take slen str))\<lparr>entire_msg_loaded := True\<rparr>
      in case vfmatch env sc fmt of (ret_code, outs, sc1) \<Rightarrow> (ret_code, outs, str))"

end
