(* ===== verification/Http_Scan_Props.thy ===== *)
theory Http_Scan_Props
  imports Http_Scanner
begin

text \<open>
  The contract of the scanner on a message that is still arriving: a matcher that has decided, whether
  it matched or not, decides the same when more data is appended, and it never leaves the message. The
  contract is a locale; every matcher of the scanner is an instance, and patterns inherit it.
\<close>

section \<open>Growing messages\<close>

definition grow :: "string \<Rightarrow> scanner_t \<Rightarrow> scanner_t" where
  "grow x sc = sc\<lparr>sc_msg := sc_msg sc @ x\<rparr>"

definition partial :: "scanner_t \<Rightarrow> bool" where
  "partial sc \<longleftrightarrow> \<not> entire_msg_loaded sc \<and> sc_cursor sc \<le> length (sc_msg sc)"

lemma grow_simps [simp]:
  "sc_msg (grow x sc) = sc_msg sc @ x" "sc_cursor (grow x sc) = sc_cursor sc"
  "entire_msg_loaded (grow x sc) = entire_msg_loaded sc"
  "(grow x sc)\<lparr>sc_cursor := k\<rparr> = grow x (sc\<lparr>sc_cursor := k\<rparr>)"
  by (simp_all add: grow_def)

definition grow2 :: "string \<Rightarrow> 'a \<times> scanner_t \<Rightarrow> 'a \<times> scanner_t" where
  "grow2 x r = (fst r, grow x (snd r))"

definition grow3 :: "string \<Rightarrow> 'a \<times> 'b \<times> scanner_t \<Rightarrow> 'a \<times> 'b \<times> scanner_t" where
  "grow3 x r = (fst r, fst (snd r), grow x (snd (snd r)))"

lemma grow_pair [simp]: "grow2 x (a, sc) = (a, grow x sc)" "grow3 x (a, b, sc) = (a, b, grow x sc)"
  by (simp_all add: grow2_def grow3_def)

lemma grow_grow: "grow y (grow x sc) = grow (x @ y) sc"
  by (simp add: grow_def)

lemma scan_quoted_append: "scan_quoted r n \<noteq> Inl PARSE_INCOMPLETE \<Longrightarrow> scan_quoted (r @ x) n = scan_quoted r n"
proof (induction r n rule: scan_quoted.induct)
  case (2 c n)
  then show ?case by (cases x) (auto split: if_splits)
qed (auto split: if_splits)

lemma scan_token_append:
  assumes "scan_token False r \<noteq> Inl PARSE_INCOMPLETE"
  shows "scan_token False (r @ x) = scan_token False r"
proof (cases r)
  case (Cons c cs)
  have tw: "takeWhile P (r @ x) = takeWhile P r" if "length (takeWhile P r) \<noteq> length r" for P
    using that takeWhile_append_stop [of P r x] length_takeWhile_le [of P r] by auto
  consider "is_identifier_char c" | "\<not> is_identifier_char c" "is_ws c"
    | "\<not> is_identifier_char c" "\<not> is_ws c" "c = CR" | "\<not> is_identifier_char c" "\<not> is_ws c" "c = LF" "c \<noteq> CR"
    | "\<not> is_identifier_char c" "\<not> is_ws c" "c \<noteq> CR" "c \<noteq> LF" by blast
  then show ?thesis
  proof cases
    case 1
    then have "length (takeWhile is_identifier_char r) \<noteq> length r"
      using assms Cons by (auto simp: scan_token_def Let_def)
    from tw [OF this] this show ?thesis
      using 1 length_takeWhile_le [of is_identifier_char r] Cons by (simp add: scan_token_def Let_def)
  next
    case 2
    then have "length (takeWhile (\<lambda>c. is_ws c) r) \<noteq> length r"
      using assms Cons by (auto simp: scan_token_def Let_def)
    from tw [OF this] this show ?thesis
      using 2 length_takeWhile_le [of "\<lambda>c. is_ws c" r] Cons by (simp add: scan_token_def Let_def)
  next
    case 3
    then show ?thesis using assms Cons by (auto simp: scan_token_def split: list.splits)
  next
    case 4
    then show ?thesis using Cons by (simp add: scan_token_def)
  next
    case 5
    then show ?thesis
      using assms Cons scan_quoted_append [of cs 1 x] by (auto simp: scan_token_def split: sum.splits if_splits)
  qed
qed (use assms in \<open>simp add: scan_token_def\<close>)

lemma get_token_grow:
  assumes "partial sc" "scanner_get_token sc = Inr (t, ty, sc')"
  shows "scanner_get_token (grow x sc) = Inr (t, ty, grow x sc')" "partial sc'"
proof -
  have "scanner_get_str (grow x sc) = scanner_get_str sc @ x"
    using assms(1) by (simp add: scanner_get_str_def partial_def)
  then show "scanner_get_token (grow x sc) = Inr (t, ty, grow x sc')"
    using assms scan_token_append [of "scanner_get_str sc" x]
    by (auto simp: scanner_get_token_def partial_def split: sum.splits)
  show "partial sc'" using assms scanner_get_token_bounds [OF assms(2)] by (simp add: partial_def)
qed

lemma get_token_grow_Inl:
  assumes "partial sc" "scanner_get_token sc = Inl st" "st \<noteq> PARSE_INCOMPLETE"
  shows "scanner_get_token (grow x sc) = Inl st"
proof -
  have "scanner_get_str (grow x sc) = scanner_get_str sc @ x"
    using assms(1) by (simp add: scanner_get_str_def partial_def)
  then show ?thesis
    using assms scan_token_append [of "scanner_get_str sc" x]
    by (auto simp: scanner_get_token_def partial_def split: sum.splits)
qed

section \<open>The contract\<close>

text \<open>The answers of a matcher.\<close>

definition match_status :: "parse_status_t \<Rightarrow> bool" where
  "match_status st \<longleftrightarrow> st = PARSE_OK \<or> st = PARSE_NO_MATCH \<or> st = PARSE_INCOMPLETE \<or> st = PARSE_FAILURE"

lemma match_status_simps [simp]:
  "match_status PARSE_OK" "match_status PARSE_NO_MATCH" "match_status PARSE_INCOMPLETE" "match_status PARSE_FAILURE"
  "\<not> match_status PARSE_CONTINUE_1" "\<not> match_status PARSE_SUCCESS" "\<not> match_status PARSE_INCOMPLETE_ENTITY"
  by (simp_all add: match_status_def)

lemma scan_quoted_status: "scan_quoted r n = Inl st \<Longrightarrow> match_status st"
  by (induction r n rule: scan_quoted.induct) (auto split: if_splits)

lemma get_token_status: "scanner_get_token sc = Inl st \<Longrightarrow> match_status st"
  by (auto simp: scanner_get_token_def scan_token_def Let_def scan_quoted_status
      split: sum.splits list.splits if_splits)

lemma scan_quoted_not_ok: "scan_quoted r n \<noteq> Inl PARSE_OK"
  by (induction r n rule: scan_quoted.induct) auto

lemma get_token_not_ok [simp]: "scanner_get_token sc \<noteq> Inl PARSE_OK"
  using scan_quoted_not_ok
  by (auto simp: scanner_get_token_def scan_token_def Let_def split: sum.splits list.splits if_splits)

text \<open>What a matcher may do to a scanner: move the cursor forward inside the message.\<close>

definition framed :: "scanner_t \<Rightarrow> scanner_t \<Rightarrow> bool" where
  "framed sc sc' \<longleftrightarrow> sc_msg sc' = sc_msg sc \<and> entire_msg_loaded sc' = entire_msg_loaded sc \<and>
     sc_cursor sc \<le> sc_cursor sc' \<and> sc_cursor sc' \<le> length (sc_msg sc)"

lemma framed_trans: "framed a b \<Longrightarrow> framed b c \<Longrightarrow> framed a c"
  by (simp add: framed_def)

lemma framed_self [intro]: "sc_cursor sc \<le> length (sc_msg sc) \<Longrightarrow> framed sc sc"
  by (simp add: framed_def)

lemma framed_cursor [intro]:
  "framed sc sc' \<Longrightarrow> sc_cursor sc \<le> k \<Longrightarrow> k \<le> length (sc_msg sc) \<Longrightarrow> framed sc (sc'\<lparr>sc_cursor := k\<rparr>)"
  by (simp add: framed_def)

lemma get_token_framed: "scanner_get_token sc = Inr (t, ty, sc') \<Longrightarrow> framed sc sc'"
  using scanner_get_token_bounds [of sc t ty sc'] by (simp add: framed_def)

locale incremental =
  fixes f :: "scanner_t \<Rightarrow> parse_status_t \<times> match_out list \<times> scanner_t"
  assumes frame: "f sc = (st, outs, sc') \<Longrightarrow> sc_cursor sc \<le> length (sc_msg sc) \<Longrightarrow>
      framed sc sc'"
    and status: "match_status (fst (f sc))"
    and inside: "f sc = (st, outs, sc') \<Longrightarrow> sc_cursor sc \<le> length (sc_msg sc) \<Longrightarrow> OutStr r \<in> set outs \<Longrightarrow>
      fst r + snd r \<le> length (sc_msg sc)"
    and stable: "partial sc \<Longrightarrow> f sc = (st, outs, sc') \<Longrightarrow> st \<noteq> PARSE_INCOMPLETE \<Longrightarrow>
      f (grow x sc) = (st, outs, grow x sc')"
begin

lemma partial_after: "partial sc \<Longrightarrow> f sc = (st, outs, sc') \<Longrightarrow> partial sc'"
  using frame [of sc st outs sc'] by (simp add: partial_def framed_def)

text \<open>With less data the answer was the same, or that more data is needed.\<close>

lemma prefix_decides:
  assumes "partial sc" "f (grow x sc) = (st, outs, sc')"
  shows "fst (f sc) = PARSE_INCOMPLETE \<or> fst (f sc) = st \<and> fst (snd (f sc)) = outs"
  using assms stable [of sc _ _ _ x] by (cases "f sc") force

end

lemma push_back_simps [simp]:
  "sc_msg (push_back sc t) = sc_msg sc" "entire_msg_loaded (push_back sc t) = entire_msg_loaded sc"
  "sc_cursor (push_back sc t) = sc_cursor sc - snd t" "push_back (grow x sc) t = grow x (push_back sc t)"
  by (simp_all add: push_back_def)

text \<open>
  Each loop of the scanner is treated the same way: what it leaves alone, and that its decision
  stands when the message grows.
\<close>

lemma framed_push_back: "scanner_get_token sc = Inr (t, ty, sc') \<Longrightarrow> framed sc (push_back sc' t)"
  using scanner_get_token_bounds [of sc t ty sc'] by (simp add: framed_def)

lemma framed_bound: "framed sc sc' \<Longrightarrow> sc_cursor sc' \<le> length (sc_msg sc')"
  by (simp add: framed_def)

lemma get_token_cases:
  obtains (error) st where "scanner_get_token sc = Inl st"
    | (token) t ty sc1 where "scanner_get_token sc = Inr (t, ty, sc1)" "framed sc sc1"
  by (cases "scanner_get_token sc") (metis get_token_framed prod_cases3)+

lemma skip_blank_lines_frame:
  "sc_cursor sc \<le> length (sc_msg sc) \<Longrightarrow> framed sc (snd (skip_blank_lines sc))"
proof (induction sc rule: skip_blank_lines.induct)
  case (1 sc)
  show ?case
  proof (cases sc rule: get_token_cases)
    case (token t ty sc1)
    have "ty = TT_WHITESPACE \<or> ty = TT_CRLF \<Longrightarrow> framed sc (snd (skip_blank_lines sc1))"
      using 1(1) [OF token(1) refl refl] framed_bound [OF token(2)] framed_trans [OF token(2)] by blast
    then show ?thesis using framed_push_back [OF token(1)] by (simp add: skip_blank_lines.simps [of sc] token(1))
  qed (use 1(2) in \<open>auto simp: skip_blank_lines.simps [of sc]\<close>)
qed

lemma skip_blank_lines_grow:
  "partial sc \<Longrightarrow> fst (skip_blank_lines sc) \<noteq> PARSE_INCOMPLETE \<Longrightarrow>
   skip_blank_lines (grow x sc) = grow2 x (skip_blank_lines sc)"
proof (induction sc rule: skip_blank_lines.induct)
  case (1 sc)
  show ?case
    by (cases sc rule: get_token_cases)
      (use 1 in \<open>auto simp: skip_blank_lines.simps [of sc] skip_blank_lines.simps [of "grow x sc"]
        get_token_grow get_token_grow_Inl\<close>)
qed

lemma skip_lws_loop_frame: "sc_cursor sc \<le> length (sc_msg sc) \<Longrightarrow> framed sc (snd (skip_lws_loop sc))"
proof (induction sc rule: skip_lws_loop.induct)
  case (1 sc)
  show ?case
  proof (cases sc rule: get_token_cases)
    case (token t ty sc1)
    have home: "framed sc sc' \<Longrightarrow> framed sc (sc'\<lparr>sc_cursor := sc_cursor sc\<rparr>)" for sc'
      using 1(3) by (simp add: framed_def)
    show ?thesis
    proof (cases "ty = TT_CRLF")
      case True
      show ?thesis
      proof (cases sc1 rule: get_token_cases)
        case (error st)
        then show ?thesis using home [OF token(2)] by (simp add: skip_lws_loop.simps [of sc] token(1) True)
      next
        case t2: (token t2 ty2 sc2)
        note f2 = framed_trans [OF token(2) t2(2)]
        have "ty2 = TT_WHITESPACE \<Longrightarrow> framed sc (snd (skip_lws_loop sc2))"
          using 1(1) [OF token(1) refl refl True t2(1) refl refl] framed_bound [OF f2] framed_trans [OF f2] by blast
        then show ?thesis using home [OF f2] by (simp add: skip_lws_loop.simps [of sc] token(1) t2(1) True)
      qed
    next
      case False
      have "ty = TT_WHITESPACE \<Longrightarrow> framed sc (snd (skip_lws_loop sc1))"
        using 1(2) [OF token(1) refl refl False] framed_bound [OF token(2)] framed_trans [OF token(2)] by blast
      then show ?thesis using home [OF token(2)] by (simp add: skip_lws_loop.simps [of sc] token(1) False)
    qed
  qed (use 1(3) in \<open>auto simp: skip_lws_loop.simps [of sc]\<close>)
qed

lemma skip_lws_loop_grow:
  "partial sc \<Longrightarrow> fst (skip_lws_loop sc) \<noteq> PARSE_INCOMPLETE \<Longrightarrow>
   skip_lws_loop (grow x sc) = grow2 x (skip_lws_loop sc)"
proof (induction sc rule: skip_lws_loop.induct)
  case (1 sc)
  show ?case
  proof (cases sc rule: get_token_cases)
    case (token t ty sc1)
    note g = get_token_grow [OF 1(3) token(1)]
    have one: "ty \<noteq> TT_CRLF \<Longrightarrow> ty = TT_WHITESPACE \<Longrightarrow> fst (skip_lws_loop sc1) \<noteq> PARSE_INCOMPLETE \<Longrightarrow>
        skip_lws_loop (grow x sc1) = grow2 x (skip_lws_loop sc1)"
      by (rule 1(2) [OF token(1) refl refl]) (use g(2) in auto)
    have two: "ty = TT_CRLF \<Longrightarrow> ty2 = TT_WHITESPACE \<Longrightarrow> scanner_get_token sc1 = Inr (t2, ty2, sc2) \<Longrightarrow>
        fst (skip_lws_loop sc2) \<noteq> PARSE_INCOMPLETE \<Longrightarrow>
        skip_lws_loop (grow x sc2) = grow2 x (skip_lws_loop sc2)" for t2 ty2 sc2
      by (rule 1(1) [OF token(1) refl refl _ _ refl refl]) (use get_token_grow [OF g(2)] in auto)
    show ?thesis
      by (cases sc1 rule: get_token_cases)
        (use 1(4) one two g(1) get_token_grow(1) [OF g(2)] get_token_grow_Inl [OF g(2)] token(1) in
          \<open>auto simp: skip_lws_loop.simps [of sc] skip_lws_loop.simps [of "grow x sc"]\<close>)
  qed (use 1 in \<open>auto simp: skip_lws_loop.simps [of sc] skip_lws_loop.simps [of "grow x sc"] get_token_grow_Inl\<close>)
qed

lemma non_ws_loop_frame: "sc_cursor sc \<le> length (sc_msg sc) \<Longrightarrow> framed sc (snd (snd (non_ws_loop sc len)))"
proof (induction sc len rule: non_ws_loop.induct)
  case (1 sc len)
  show ?case
  proof (cases sc rule: get_token_cases)
    case (token t ty sc1)
    have "ty \<noteq> TT_WHITESPACE \<and> ty \<noteq> TT_CRLF \<Longrightarrow> framed sc (snd (snd (non_ws_loop sc1 (len + snd t))))"
      using 1(1) [OF token(1) refl refl] framed_bound [OF token(2)] framed_trans [OF token(2)] by blast
    then show ?thesis using framed_push_back [OF token(1)] by (simp add: non_ws_loop.simps [of sc] token(1))
  qed (use 1(2) in \<open>auto simp: non_ws_loop.simps [of sc]\<close>)
qed

lemma non_ws_loop_grow:
  "partial sc \<Longrightarrow> fst (non_ws_loop sc len) \<noteq> PARSE_INCOMPLETE \<Longrightarrow>
   non_ws_loop (grow x sc) len = grow3 x (non_ws_loop sc len)"
proof (induction sc len rule: non_ws_loop.induct)
  case (1 sc len)
  show ?case
    by (cases sc rule: get_token_cases)
      (use 1 in \<open>auto simp: non_ws_loop.simps [of sc] non_ws_loop.simps [of "grow x sc"]
        get_token_grow get_token_grow_Inl\<close>)
qed

lemma read_loop_frame: "sc_cursor sc \<le> length (sc_msg sc) \<Longrightarrow> framed sc (snd (read_until_crlf_loop sc))"
proof (induction sc rule: read_until_crlf_loop.induct)
  case (1 sc)
  show ?case
  proof (cases sc rule: get_token_cases)
    case (token t ty sc1)
    have "ty \<noteq> TT_CRLF \<Longrightarrow> framed sc (snd (read_until_crlf_loop sc1))"
      using 1(1) [OF token(1) refl refl] framed_bound [OF token(2)] framed_trans [OF token(2)] by blast
    then show ?thesis using framed_push_back [OF token(1)] by (simp add: read_until_crlf_loop.simps [of sc] token(1))
  qed (use 1(2) in \<open>auto simp: read_until_crlf_loop.simps [of sc]\<close>)
qed

lemma read_loop_grow:
  "partial sc \<Longrightarrow> fst (read_until_crlf_loop sc) \<noteq> PARSE_INCOMPLETE \<Longrightarrow>
   read_until_crlf_loop (grow x sc) = grow2 x (read_until_crlf_loop sc)"
proof (induction sc rule: read_until_crlf_loop.induct)
  case (1 sc)
  show ?case
    by (cases sc rule: get_token_cases)
      (use 1 in \<open>auto simp: read_until_crlf_loop.simps [of sc] read_until_crlf_loop.simps [of "grow x sc"]
        get_token_grow get_token_grow_Inl\<close>)
qed

lemma raw_value_loop_frame:
  "sp \<le> sc_cursor sc \<Longrightarrow> sc_cursor sc \<le> length (sc_msg sc) \<Longrightarrow> (saw \<Longrightarrow> sp \<le> pc \<and> pc \<le> length (sc_msg sc)) \<Longrightarrow>
   framed (sc\<lparr>sc_cursor := sp\<rparr>) (snd (snd (raw_value_loop sc sp saw pc len)))"
proof (induction sc sp saw pc len rule: raw_value_loop.induct)
  case (1 sc sp saw pc len)
  show ?case
  proof (cases sc rule: get_token_cases)
    case (token t ty sc1)
    note b = scanner_get_token_bounds [OF token(1)]
    have c1: "sp \<le> sc_cursor sc1" "sc_cursor sc1 \<le> length (sc_msg sc1)" using b 1(4) by auto
    have m: "framed (sc1\<lparr>sc_cursor := sp\<rparr>) y \<Longrightarrow> framed (sc\<lparr>sc_cursor := sp\<rparr>) y" for y
      using b by (simp add: framed_def)
    have a: "framed (sc\<lparr>sc_cursor := sp\<rparr>) (snd (snd (raw_value_loop sc1 sp True (sc_cursor sc1 - snd t) (len + snd t))))"
      if "\<not> saw" "ty = TT_CRLF"
      by (rule m, rule 1(1) [OF token(1) refl refl that c1]) (use b 1(4) in auto)
    have d: "framed (sc\<lparr>sc_cursor := sp\<rparr>) (snd (snd (raw_value_loop sc1 sp False pc (len + snd t))))"
      if "\<not> saw" "ty \<noteq> TT_CRLF"
      by (rule m, rule 1(2) [OF token(1) refl refl that c1]) simp
    have e: "framed (sc\<lparr>sc_cursor := sp\<rparr>) (snd (snd (raw_value_loop sc1 sp False pc (len + snd t))))"
      if "saw" "ty = TT_WHITESPACE"
      by (rule m, rule 1(3) [OF token(1) refl refl _ _ c1]) (use that in auto)
    have f: "framed (sc\<lparr>sc_cursor := sp\<rparr>) (sc1\<lparr>sc_cursor := pc\<rparr>)" if saw
      using 1(6) that b by (simp add: framed_def)
    show ?thesis using a d e f by (simp add: raw_value_loop.simps [of sc] token(1))
  qed (use 1 in \<open>auto simp: raw_value_loop.simps [of sc] framed_def\<close>)
qed

lemma raw_value_loop_grow:
  "partial sc \<Longrightarrow> fst (raw_value_loop sc sp saw pc len) \<noteq> PARSE_INCOMPLETE \<Longrightarrow>
   raw_value_loop (grow x sc) sp saw pc len = grow3 x (raw_value_loop sc sp saw pc len)"
proof (induction sc sp saw pc len rule: raw_value_loop.induct)
  case (1 sc sp saw pc len)
  show ?case
  proof (cases sc rule: get_token_cases)
    case (token t ty sc1)
    note g = get_token_grow [OF 1(4) token(1)]
    let ?same = "\<lambda>sc saw pc len. fst (raw_value_loop sc sp saw pc len) \<noteq> PARSE_INCOMPLETE \<longrightarrow>
      raw_value_loop (grow x sc) sp saw pc len = grow3 x (raw_value_loop sc sp saw pc len)"
    have a: "\<not> saw \<Longrightarrow> ty = TT_CRLF \<Longrightarrow> ?same sc1 True (sc_cursor sc1 - snd t) (len + snd t)"
      using 1(1) [OF token(1) refl refl _ _ g(2)] by blast
    have b: "\<not> saw \<Longrightarrow> ty \<noteq> TT_CRLF \<Longrightarrow> ?same sc1 False pc (len + snd t)"
      using 1(2) [OF token(1) refl refl _ _ g(2)] by blast
    have c: "saw \<Longrightarrow> ty = TT_WHITESPACE \<Longrightarrow> ?same sc1 False pc (len + snd t)"
      using 1(3) [OF token(1) refl refl _ _ g(2)] by blast
    show ?thesis
      using 1(5) a b c g(1) token(1)
      by (auto simp: raw_value_loop.simps [of sc] raw_value_loop.simps [of "grow x sc"])
  qed (use 1 in \<open>auto simp: raw_value_loop.simps [of sc] raw_value_loop.simps [of "grow x sc"] get_token_grow_Inl\<close>)
qed

section \<open>The matchers keep the contract\<close>

text \<open>\<open>strtol\<close> on a token: what follows the first character that is no digit does not matter.\<close>

lemma digits_value_stop: "base \<le> digit_value c \<Longrightarrow> digits_value base acc (a @ c # b) = digits_value base acc (a @ [c])"
  by (induction a arbitrary: acc) auto

lemma hex_prefix_stop:
  assumes "16 \<le> digit_value c" "c \<noteq> CHR ''x''" "c \<noteq> CHR ''X''"
  shows "hex_prefix base (a @ c # b) = hex_prefix base (a @ [c]) \<and> hex_prefix base (a @ [c]) \<le> length a"
proof -
  have c: "c \<noteq> CHR ''0''" using assms(1) by (auto simp: digit_value_def isdigit_def byte_of_def)
  consider "a = []" | u where "a = [u]" | u v where "a = [u, v]" | u v w a' where "a = u # v # w # a'"
    by (metis list.exhaust)
  then show ?thesis using assms c by cases (simp_all add: hex_prefix_def split: list.splits)
qed

lemma not_ident_digit:
  assumes "\<not> is_identifier_char c"
  shows "digit_value c = 99" "c \<noteq> CHR ''x''" "c \<noteq> CHR ''X''"
proof -
  have "\<not> isalnum c"
  proof
    assume "isalnum c"
    then have b: "(48 \<le> byte_of c \<and> byte_of c \<le> 57) \<or> (65 \<le> byte_of c \<and> byte_of c \<le> 90) \<or> (97 \<le> byte_of c \<and> byte_of c \<le> 122)"
      by (auto simp: ctype_defs)
    then have "32 \<le> schar c" "schar c \<le> 126" by (auto simp: schar_def Let_def)
    then have "is_separator_char c" using assms by (simp add: is_identifier_char_def)
    then have "byte_of c \<in> set (map byte_of ('' ()<>@,;:/[]?={}'' @ [TAB, DQUOTE, BACKSLASH, NUL]))"
      by (auto simp: is_separator_char_def)
    moreover have "map byte_of ('' ()<>@,;:/[]?={}'' @ [TAB, DQUOTE, BACKSLASH, NUL]) =
      [32, 40, 41, 60, 62, 64, 44, 59, 58, 47, 91, 93, 63, 61, 123, 125, 9, 34, 92, 0]"
      by (simp add: byte_of_def TAB_def DQUOTE_def BACKSLASH_def NUL_def)
    ultimately show False using b by auto
  qed
  then show "digit_value c = 99" "c \<noteq> CHR ''x''" "c \<noteq> CHR ''X''"
    by (auto simp: isalnum_def isalpha_def digit_value_def) (auto simp: ctype_defs byte_of_def)
qed

lemma is_ident_not_space: "is_identifier_char c \<Longrightarrow> \<not> isspace c"
proof
  assume i: "is_identifier_char c" and "isspace c"
  then have "byte_of c = 32"
    by (auto simp: is_identifier_char_def isspace_def schar_def Let_def split: if_splits)
  moreover have "byte_of (CHR '' '') = 32" by (simp add: byte_of_def)
  ultimately have "c = CHR '' ''" by (metis byte_of_inject)
  then show False using i by simp
qed

lemma strtol_token:
  assumes "a \<noteq> []" "\<forall>c \<in> set a. is_identifier_char c" "\<not> is_identifier_char c" "base \<le> 16"
  shows "strtol (a @ c # b) base = strtol (a @ [c]) base"
proof -
  obtain h t where a: "a = h # t" using assms(1) by (cases a) auto
  have la: "1 \<le> length a" using a by simp
  have sp: "skip_space (a @ r) = 0" for r using assms(2) a is_ident_not_space by (simp add: skip_space_def)
  have sg: "sign_length (a @ r) = sign_length a" "sign_length a \<le> 1" for r by (simp_all add: sign_length_def a)
  let ?j = "sign_length a"
  have dj: "drop ?j (a @ r) = drop ?j a @ r" for r using sg(2) a by (cases ?j) auto
  note nd = not_ident_digit [OF assms(3)]
  have hx: "hex_prefix base (drop ?j a @ c # b) = hex_prefix base (drop ?j a @ [c])"
    "hex_prefix base (drop ?j a @ [c]) \<le> length (drop ?j a)"
    using hex_prefix_stop [of c base "drop ?j a" b] nd by auto
  have np: "number_prefix (a @ c # b) base = number_prefix (a @ [c]) base" "number_prefix (a @ [c]) base \<le> length a"
    using hx sg(2) la by (simp_all add: number_prefix_def sp sg(1) dj Let_def)
  have "digits_value base 0 (drop (number_prefix (a @ [c]) base) (a @ c # b)) =
    digits_value base 0 (drop (number_prefix (a @ [c]) base) (a @ [c]))"
    using np(2) digits_value_stop [of base c 0 "drop (number_prefix (a @ [c]) base) a" b] nd(1) assms(4) by simp
  moreover have "hd (a @ r) = hd a" "a @ r \<noteq> []" for r using a by simp_all
  ultimately show ?thesis unfolding strtol_def by (simp add: np(1) sp)
qed

text \<open>The text of an identifier token, and the character that ends it while the message is incomplete.\<close>

lemma identifier_token:
  assumes "partial sc" "scanner_get_token sc = Inr (t, TT_IDENTIFIER, sc1)"
  obtains a c b where "scanner_get_str sc = a @ c # b" "a \<noteq> []" "\<forall>c \<in> set a. is_identifier_char c"
    "\<not> is_identifier_char c" "snd t = length a"
proof -
  let ?r = "scanner_get_str sc" and ?a = "takeWhile is_identifier_char (scanner_get_str sc)"
  have st: "scan_token False ?r = Inr (snd t, TT_IDENTIFIER)"
    using assms by (auto simp: scanner_get_token_def partial_def split: sum.splits)
  then obtain h r where r: "?r = h # r" "is_identifier_char h"
    by (auto simp: scan_token_def Let_def split: list.splits if_splits sum.splits)
  then have n: "snd t = length ?a" "length ?a \<noteq> length ?r"
    using st by (auto simp: scan_token_def Let_def split: if_splits)
  have "dropWhile is_identifier_char ?r \<noteq> []" using n(2) by (metis append_Nil2 takeWhile_dropWhile_id)
  then obtain c b where d: "dropWhile is_identifier_char ?r = c # b" by (cases "dropWhile is_identifier_char ?r") auto
  show thesis
    by (rule that [of ?a c b])
      (use n(1) r d in \<open>auto simp: dropWhile_eq_Cons_conv dest: set_takeWhileD\<close>)
qed

lemma match_int_grow:
  assumes "partial sc" "base \<le> 16" "fst (match_int sc base) \<noteq> PARSE_INCOMPLETE"
  shows "match_int (grow x sc) base = grow3 x (match_int sc base)"
proof (cases sc rule: get_token_cases)
  case (error st)
  then show ?thesis using assms by (simp add: match_int_def get_token_grow_Inl)
next
  case (token t ty sc1)
  note g = get_token_grow [OF assms(1) token(1)]
  have "strtol (drop (fst t) (sc_msg (grow x sc))) base = strtol (drop (fst t) (sc_msg sc)) base" if ty: "ty = TT_IDENTIFIER"
  proof -
    obtain a c b where t: "scanner_get_str sc = a @ c # b" "a \<noteq> []" "\<forall>c \<in> set a. is_identifier_char c"
        "\<not> is_identifier_char c" "snd t = length a"
      by (rule identifier_token [OF assms(1) token(1) [unfolded ty]])
    have "fst t = sc_cursor sc" by (rule scanner_get_token_bounds(1) [OF token(1)])
    then have "drop (fst t) (sc_msg sc) = a @ c # b" "drop (fst t) (sc_msg (grow x sc)) = a @ c # b @ x"
      using t(1) assms(1) by (auto simp: scanner_get_str_def partial_def)
    then show ?thesis using strtol_token [OF t(2-4) assms(2)] by metis
  qed
  then show ?thesis
    using token(1) g(1) by (auto simp: match_int_def split: prod.splits if_splits)
qed

text \<open>The lengths the loops count never pass the end of the message.\<close>

lemma non_ws_loop_length:
  "sc_cursor sc \<le> length (sc_msg sc) \<Longrightarrow> fst (snd (non_ws_loop sc len)) \<le> len + left sc"
proof (induction sc len rule: non_ws_loop.induct)
  case (1 sc len)
  show ?case
  proof (cases sc rule: get_token_cases)
    case (token t ty sc1)
    note b = scanner_get_token_bounds [OF token(1)]
    have "ty \<noteq> TT_WHITESPACE \<and> ty \<noteq> TT_CRLF \<Longrightarrow> fst (snd (non_ws_loop sc1 (len + snd t))) \<le> len + snd t + left sc1"
      using 1(1) [OF token(1) refl refl] b by auto
    moreover have "len + snd t + left sc1 \<le> len + left sc" using b by auto
    ultimately show ?thesis by (simp add: non_ws_loop.simps [of sc] token(1)) linarith
  qed (simp add: non_ws_loop.simps [of sc])
qed

lemma raw_value_loop_length:
  "sc_cursor sc \<le> length (sc_msg sc) \<Longrightarrow> fst (snd (raw_value_loop sc sp saw pc len)) \<le> len + left sc"
proof (induction sc sp saw pc len rule: raw_value_loop.induct)
  case (1 sc sp saw pc len)
  show ?case
  proof (cases sc rule: get_token_cases)
    case (token t ty sc1)
    note b = scanner_get_token_bounds [OF token(1)]
    have c1: "sc_cursor sc1 \<le> length (sc_msg sc1)" and l1: "len + snd t + left sc1 \<le> len + left sc" using b by auto
    have a: "\<not> saw \<Longrightarrow> ty = TT_CRLF \<Longrightarrow>
        fst (snd (raw_value_loop sc1 sp True (sc_cursor sc1 - snd t) (len + snd t))) \<le> len + left sc"
      using 1(1) [OF token(1) refl refl _ _ c1] l1 by linarith
    have d: "\<not> saw \<Longrightarrow> ty \<noteq> TT_CRLF \<Longrightarrow> fst (snd (raw_value_loop sc1 sp False pc (len + snd t))) \<le> len + left sc"
      using 1(2) [OF token(1) refl refl _ _ c1] l1 by linarith
    have e: "saw \<Longrightarrow> ty = TT_WHITESPACE \<Longrightarrow> fst (snd (raw_value_loop sc1 sp False pc (len + snd t))) \<le> len + left sc"
      using 1(3) [OF token(1) refl refl _ _ c1] l1 by linarith
    show ?thesis using a d e by (simp add: raw_value_loop.simps [of sc] token(1))
  qed (simp add: raw_value_loop.simps [of sc])
qed

lemma trim_right_le: "trim_right buf n \<le> n"
  by (induction n) auto

lemma trim_right_append: "n \<le> length buf \<Longrightarrow> trim_right (buf @ x) n = trim_right buf n"
  by (induction n) (auto simp: nth_append)

section \<open>The answers of the loops\<close>

lemma skip_blank_lines_status: "match_status (fst (skip_blank_lines sc))"
proof (induction sc rule: skip_blank_lines.induct)
  case (1 sc)
  then show ?case by (subst skip_blank_lines.simps) (auto split: sum.split dest: get_token_status)
qed

lemma skip_lws_loop_status: "match_status (fst (skip_lws_loop sc))"
proof (induction sc rule: skip_lws_loop.induct)
  case (1 sc)
  then show ?case by (subst skip_lws_loop.simps) (auto split: sum.split dest: get_token_status)
qed

lemma non_ws_loop_status: "match_status (fst (non_ws_loop sc len))"
proof (induction sc len rule: non_ws_loop.induct)
  case (1 sc len)
  then show ?case by (subst non_ws_loop.simps) (auto split: sum.split dest: get_token_status)
qed

lemma raw_value_loop_status: "match_status (fst (raw_value_loop sc sp saw pc len))"
proof (induction sc sp saw pc len rule: raw_value_loop.induct)
  case (1 sc sp saw pc len)
  then show ?case by (subst raw_value_loop.simps) (auto split: sum.split dest: get_token_status)
qed

lemma read_loop_status: "match_status (fst (read_until_crlf_loop sc))"
proof (induction sc rule: read_until_crlf_loop.induct)
  case (1 sc)
  then show ?case by (subst read_until_crlf_loop.simps) (auto split: sum.split dest: get_token_status)
qed

section \<open>Interpretations\<close>

interpretation lws: incremental "\<lambda>sc. no_out (skip_lws sc)"
proof unfold_locales
  fix sc
  show "match_status (fst (no_out (skip_lws sc)))"
    using skip_lws_loop_status [of sc] by (auto simp: no_out_def skip_lws_def split: prod.splits)
next
  fix sc st outs sc' x
  assume f: "no_out (skip_lws sc) = (st, outs, sc')"
  { assume "sc_cursor sc \<le> length (sc_msg sc)"
    from skip_lws_loop_frame [OF this]
    show "framed sc sc'"
      using f by (auto simp: no_out_def skip_lws_def framed_def split: prod.splits if_splits) }
  { fix r assume "OutStr r \<in> set outs"
    then show "fst r + snd r \<le> length (sc_msg sc)" using f by (auto simp: no_out_def split: prod.splits) }
  { assume p: "partial sc" and st: "st \<noteq> PARSE_INCOMPLETE"
    have e: "\<not> entire_msg_loaded (snd (skip_lws_loop sc))"
      using p skip_lws_loop_frame [of sc] by (simp add: partial_def framed_def)
    then have "fst (skip_lws_loop sc) \<noteq> PARSE_INCOMPLETE"
      using f st by (auto simp: no_out_def skip_lws_def split: prod.splits)
    then show "no_out (skip_lws (grow x sc)) = (st, outs, grow x sc')"
      using f e skip_lws_loop_grow [OF p, of x] by (auto simp: no_out_def skip_lws_def split: prod.splits) }
qed

interpretation raw: incremental "\<lambda>sc. out_str (match_raw_value sc)"
proof unfold_locales
  fix sc
  show "match_status (fst (out_str (match_raw_value sc)))"
    using raw_value_loop_status [of sc "sc_cursor sc" False 0 0] by (auto simp: out_str_def match_raw_value_def split: prod.splits)
next
  fix sc st outs sc' x
  assume f: "out_str (match_raw_value sc) = (st, outs, sc')"
  { assume c: "sc_cursor sc \<le> length (sc_msg sc)"
    show "framed sc sc'"
      using f raw_value_loop_frame [OF order_refl c, of False 0 0]
      by (auto simp: out_str_def match_raw_value_def framed_def split: prod.splits if_splits)
    fix r assume "OutStr r \<in> set outs"
    then show "fst r + snd r \<le> length (sc_msg sc)"
      using f raw_value_loop_length [OF c, of "sc_cursor sc" False 0 0] c
        trim_right_le [of "scanner_get_str sc" "fst (snd (raw_value_loop sc (sc_cursor sc) False 0 0))"]
      by (auto simp: out_str_def match_raw_value_def split: prod.splits if_splits) }
  { assume p: "partial sc" and st: "st \<noteq> PARSE_INCOMPLETE"
    let ?r = "raw_value_loop sc (sc_cursor sc) False 0 0"
    have c: "sc_cursor sc \<le> length (sc_msg sc)" using p by (simp add: partial_def)
    have "fst ?r \<noteq> PARSE_INCOMPLETE"
      using f st by (auto simp: out_str_def match_raw_value_def split: prod.splits if_splits)
    moreover have "trim_right (scanner_get_str (grow x sc)) (fst (snd ?r)) = trim_right (scanner_get_str sc) (fst (snd ?r))"
      using raw_value_loop_length [OF c, of "sc_cursor sc" False 0 0] c
      by (simp add: scanner_get_str_def trim_right_append)
    ultimately show "out_str (match_raw_value (grow x sc)) = (st, outs, grow x sc')"
      using f raw_value_loop_grow [OF p, of "sc_cursor sc" False 0 0 x]
      by (auto simp: out_str_def match_raw_value_def split: prod.splits if_splits) }
qed

interpretation nws: incremental "\<lambda>sc. out_str (match_non_ws_string sc)"
proof unfold_locales
  fix sc
  show "match_status (fst (out_str (match_non_ws_string sc)))"
    using non_ws_loop_status [of sc 0] by (auto simp: out_str_def match_non_ws_string_def Let_def split: prod.splits)
next
  fix sc st outs sc' x
  assume f: "out_str (match_non_ws_string sc) = (st, outs, sc')"
  { assume c: "sc_cursor sc \<le> length (sc_msg sc)"
    show "framed sc sc'"
      using f c non_ws_loop_frame [OF c, of 0]
      by (auto simp: out_str_def match_non_ws_string_def framed_def Let_def split: prod.splits if_splits)
    fix r assume "OutStr r \<in> set outs"
    then show "fst r + snd r \<le> length (sc_msg sc)"
      using f non_ws_loop_length [OF c, of 0] c
      by (auto simp: out_str_def match_non_ws_string_def Let_def split: prod.splits if_splits) }
  { assume p: "partial sc" and st: "st \<noteq> PARSE_INCOMPLETE"
    have e: "\<not> entire_msg_loaded (snd (snd (non_ws_loop sc 0)))"
      using p non_ws_loop_frame [of sc 0] by (simp add: partial_def framed_def)
    then have "fst (non_ws_loop sc 0) \<noteq> PARSE_INCOMPLETE"
      using f st by (auto simp: out_str_def match_non_ws_string_def Let_def split: prod.splits if_splits)
    then show "out_str (match_non_ws_string (grow x sc)) = (st, outs, grow x sc')"
      using f e non_ws_loop_grow [OF p, of 0 x]
      by (auto simp: out_str_def match_non_ws_string_def Let_def split: prod.splits if_splits) }
qed

interpretation eol: incremental "\<lambda>sc. out_str (read_until_crlf sc)"
proof unfold_locales
  fix sc
  show "match_status (fst (out_str (read_until_crlf sc)))"
    using read_loop_status [of sc] by (auto simp: out_str_def read_until_crlf_def split: prod.splits)
next
  fix sc st outs sc' x
  assume f: "out_str (read_until_crlf sc) = (st, outs, sc')"
  { assume c: "sc_cursor sc \<le> length (sc_msg sc)"
    from read_loop_frame [OF c]
    show "framed sc sc'"
      using f by (auto simp: out_str_def read_until_crlf_def framed_def split: prod.splits)
    fix r assume "OutStr r \<in> set outs"
    then show "fst r + snd r \<le> length (sc_msg sc)"
      using f c read_loop_frame [OF c] by (auto simp: out_str_def read_until_crlf_def framed_def split: prod.splits) }
  { assume p: "partial sc" and st: "st \<noteq> PARSE_INCOMPLETE"
    then have "fst (read_until_crlf_loop sc) \<noteq> PARSE_INCOMPLETE"
      using f by (auto simp: out_str_def read_until_crlf_def split: prod.splits)
    then show "out_str (read_until_crlf (grow x sc)) = (st, outs, grow x sc')"
      using f read_loop_grow [OF p, of x] by (auto simp: out_str_def read_until_crlf_def split: prod.splits) }
qed

definition out_int :: "parse_status_t \<times> int option \<times> scanner_t \<Rightarrow> parse_status_t \<times> match_out list \<times> scanner_t" where
  "out_int r = (case r of (status, v, sc1) \<Rightarrow> (status, case v of None \<Rightarrow> [] | Some i \<Rightarrow> [OutInt i], sc1))"

text \<open>A number with a base of at most 16.\<close>

lemma incremental_int:
  assumes "base \<le> 16"
  shows "incremental (\<lambda>sc. out_int (match_int sc base))"
proof
  fix sc
  show "match_status (fst (out_int (match_int sc base)))"
    by (cases sc rule: get_token_cases)
      (auto simp: out_int_def match_int_def Let_def get_token_status split: prod.splits)
next
  fix sc st outs sc' x
  assume f: "out_int (match_int sc base) = (st, outs, sc')"
  { assume c: "sc_cursor sc \<le> length (sc_msg sc)"
    show "framed sc sc'"
      by (cases sc rule: get_token_cases)
        (use f c in \<open>auto simp: out_int_def match_int_def framed_def Let_def split: prod.splits if_splits option.splits\<close>) }
  { fix r assume "OutStr r \<in> set outs"
    then show "fst r + snd r \<le> length (sc_msg sc)" using f by (auto simp: out_int_def split: prod.splits option.splits) }
  { assume p: "partial sc" and st: "st \<noteq> PARSE_INCOMPLETE"
    then have "fst (match_int sc base) \<noteq> PARSE_INCOMPLETE"
      using f by (auto simp: out_int_def split: prod.splits)
    then show "out_int (match_int (grow x sc) base) = (st, outs, grow x sc')"
      using f match_int_grow [OF p assms, of x] by (auto simp: out_int_def split: prod.splits) }
qed

interpretation dec: incremental "\<lambda>sc. out_int (match_int sc 10)" by (rule incremental_int) simp
interpretation hex: incremental "\<lambda>sc. out_int (match_int sc 16)" by (rule incremental_int) simp

lemma incremental_token: "incremental (\<lambda>sc. out_str (expect_token sc ty))"
proof
  fix sc
  show "match_status (fst (out_str (expect_token sc ty)))"
    by (cases sc rule: get_token_cases) (auto simp: out_str_def expect_token_def get_token_status)
next
  fix sc st outs sc' x
  assume f: "out_str (expect_token sc ty) = (st, outs, sc')"
  { assume c: "sc_cursor sc \<le> length (sc_msg sc)"
    show "framed sc sc'"
      by (cases sc rule: get_token_cases) (use f c in \<open>auto simp: out_str_def expect_token_def framed_def\<close>)
    fix r assume "OutStr r \<in> set outs"
    then show "fst r + snd r \<le> length (sc_msg sc)"
    proof (cases sc rule: get_token_cases)
      case (token t ty' sc1)
      then have "r = t" using f \<open>OutStr r \<in> set outs\<close> by (auto simp: out_str_def expect_token_def)
      then show ?thesis using scanner_get_token_bounds [OF token(1)] by simp
    qed (use f c \<open>OutStr r \<in> set outs\<close> in \<open>auto simp: out_str_def expect_token_def\<close>) }
  { assume p: "partial sc" and st: "st \<noteq> PARSE_INCOMPLETE"
    show "out_str (expect_token (grow x sc) ty) = (st, outs, grow x sc')"
      by (cases sc rule: get_token_cases)
        (use f st p in \<open>auto simp: out_str_def expect_token_def get_token_grow get_token_grow_Inl\<close>) }
qed

text \<open>Forgetting the text that was matched keeps the contract.\<close>

definition forget :: "parse_status_t \<times> match_out list \<times> scanner_t \<Rightarrow> parse_status_t \<times> match_out list \<times> scanner_t" where
  "forget r = (case r of (status, _, sc1) \<Rightarrow> (status, [], sc1))"

lemma incremental_forget:
  assumes "incremental f"
  shows "incremental (\<lambda>sc. forget (f sc))"
proof
  fix sc
  show "match_status (fst (forget (f sc)))"
    using incremental.status [OF assms, of sc] by (auto simp: forget_def split: prod.splits)
next
  fix sc st outs sc' x
  assume f: "forget (f sc) = (st, outs, sc')"
  then obtain o' where o': "f sc = (st, o', sc')" by (auto simp: forget_def split: prod.splits)
  show "sc_cursor sc \<le> length (sc_msg sc) \<Longrightarrow>
      framed sc sc'"
    by (rule incremental.frame [OF assms o'])
  show "OutStr r \<in> set outs \<Longrightarrow> fst r + snd r \<le> length (sc_msg sc)" for r
    using f by (auto simp: forget_def split: prod.splits)
  show "partial sc \<Longrightarrow> st \<noteq> PARSE_INCOMPLETE \<Longrightarrow> forget (f (grow x sc)) = (st, outs, grow x sc')"
    using incremental.stable [OF assms _ o', of x] f by (auto simp: forget_def split: prod.splits)
qed

lemma incremental_ws: "incremental (\<lambda>sc. no_out (optional_ws sc))"
proof
  fix sc
  show "match_status (fst (no_out (optional_ws sc)))"
    by (cases sc rule: get_token_cases) (auto simp: no_out_def optional_ws_def get_token_status)
next
  fix sc st outs sc' x
  assume f: "no_out (optional_ws sc) = (st, outs, sc')"
  show "sc_cursor sc \<le> length (sc_msg sc) \<Longrightarrow>
      framed sc sc'"
    by (cases sc rule: get_token_cases) (use f framed_push_back in \<open>auto simp: no_out_def optional_ws_def split: if_splits\<close>)
  show "OutStr r \<in> set outs \<Longrightarrow> fst r + snd r \<le> length (sc_msg sc)" for r
    using f by (auto simp: no_out_def split: prod.splits)
  show "partial sc \<Longrightarrow> st \<noteq> PARSE_INCOMPLETE \<Longrightarrow> no_out (optional_ws (grow x sc)) = (st, outs, grow x sc')"
    by (cases sc rule: get_token_cases)
      (use f in \<open>auto simp: no_out_def optional_ws_def get_token_grow get_token_grow_Inl\<close>)
qed

lemma incremental_char: "incremental (\<lambda>sc. no_out (match_char sc c cs))"
  by unfold_locales (auto simp: no_out_def match_char_def partial_def nth_append Let_def split: prod.splits if_splits)

text \<open>Storing a value that does not depend on the unread part, or nothing.\<close>

lemma incremental_const: "incremental (\<lambda>sc. (PARSE_OK, g (sc_cursor sc), sc))" if "\<And>k r. OutStr r \<notin> set (g k)"
  by unfold_locales (use that in auto)

section \<open>Patterns\<close>

definition open_option :: "char \<Rightarrow> bool" where
  "open_option c \<longleftrightarrow> c \<noteq> CHR ''U'' \<and> c \<noteq> CHR ''0''"

lemma match_option_simps:
  "match_option env (CHR ''R'') cs = (\<lambda>sc. out_str (match_raw_value sc))"
  "match_option env (CHR ''s'') cs = (\<lambda>sc. out_str (expect_token sc TT_IDENTIFIER))"
  "match_option env (CHR ''c'') cs = (\<lambda>sc. forget (out_str (expect_token sc TT_CRLF)))"
  "match_option env (CHR ''d'') cs = (\<lambda>sc. out_int (match_int sc 10))"
  "match_option env (CHR ''x'') cs = (\<lambda>sc. out_int (match_int sc 16))"
  "match_option env (CHR ''S'') cs = (\<lambda>sc. out_str (match_non_ws_string sc))"
  "match_option env (CHR ''L'') cs = (\<lambda>sc. out_str (read_until_crlf sc))"
  "match_option env (CHR '' '') cs = (\<lambda>sc. no_out (match_char sc (CHR '' '') cs))"
  "match_option env (CHR ''%'') cs = (\<lambda>sc. no_out (match_char sc (CHR ''%'') cs))"
  "match_option env (CHR ''q'') cs = (\<lambda>sc. out_str (expect_token sc TT_QUOTEDSTRING))"
  "match_option env (CHR ''w'') cs = (\<lambda>sc. no_out (optional_ws sc))"
  "match_option env (CHR ''P'') cs = (\<lambda>sc. (PARSE_OK, [OutInt (to_int32 (int (sc_cursor sc)))], sc))"
  by (auto simp: match_option_def out_int_def forget_def out_str_def fun_eq_iff split: prod.splits)

lemma match_option_incremental:
  assumes "open_option c"
  shows "incremental (match_option env c cs)"
proof -
  consider "c = CHR ''R''" | "c = CHR ''s''" | "c = CHR ''c''" | "c = CHR ''d''" | "c = CHR ''x''" | "c = CHR ''S''"
    | "c = CHR ''L''" | "c = CHR '' '' \<or> c = CHR ''%''" | "c = CHR ''q''" | "c = CHR ''w''" | "c = CHR ''P''"
    | "c \<notin> set ''RscdxSL %qwP''" by auto
  then show ?thesis
  proof cases
    case 12
    then have "match_option env c cs = (\<lambda>sc. (PARSE_OK, [], sc))"
      using assms by (auto simp: match_option_def open_option_def)
    then show ?thesis using incremental_const [of "\<lambda>_. []"] by simp
  next
    case 1 then show ?thesis using raw.incremental_axioms by (simp add: match_option_simps)
  next
    case 2 then show ?thesis using incremental_token by (simp add: match_option_simps)
  next
    case 3 then show ?thesis using incremental_forget [OF incremental_token] by (simp add: match_option_simps)
  next
    case 4 then show ?thesis using dec.incremental_axioms by (simp add: match_option_simps)
  next
    case 5 then show ?thesis using hex.incremental_axioms by (simp add: match_option_simps)
  next
    case 6 then show ?thesis using nws.incremental_axioms by (simp add: match_option_simps)
  next
    case 7 then show ?thesis using eol.incremental_axioms by (simp add: match_option_simps)
  next
    case 8 then show ?thesis using incremental_char by (auto simp: match_option_simps)
  next
    case 9 then show ?thesis using incremental_token by (simp add: match_option_simps)
  next
    case 10 then show ?thesis using incremental_ws by (simp add: match_option_simps)
  next
    case 11 then show ?thesis using incremental_const [of "\<lambda>k. [OutInt (to_int32 (int k))]"] by (simp add: match_option_simps)
  qed
qed

lemma match_plain_incremental: "incremental (\<lambda>sc. no_out (match_plain c cs sc))"
proof -
  have t: "no_out (match_plain TAB cs sc) = forget (out_str (expect_token sc TT_WHITESPACE))" for sc
    by (auto simp: match_plain_def TAB_def no_out_def forget_def out_str_def split: prod.splits)
  consider "c = CHR '' ''" | "c = TAB" | "c \<noteq> CHR '' ''" "c \<noteq> TAB" by blast
  then show ?thesis
  proof cases
    case 1 then show ?thesis using lws.incremental_axioms by (simp add: match_plain_def)
  next
    case 2 then show ?thesis using incremental_forget [OF incremental_token] t by simp
  next
    case 3 then show ?thesis using incremental_char by (simp add: match_plain_def)
  qed
qed

text \<open>One matcher after the other.\<close>

definition then_match ::
  "(scanner_t \<Rightarrow> parse_status_t \<times> match_out list \<times> scanner_t) \<Rightarrow> (scanner_t \<Rightarrow> parse_status_t \<times> match_out list \<times> scanner_t) \<Rightarrow>
   scanner_t \<Rightarrow> parse_status_t \<times> match_out list \<times> scanner_t" where
  "then_match f g sc =
     (case f sc of (status, outs, sc1) \<Rightarrow>
        if status = PARSE_OK then (case g sc1 of (status2, outs2, sc2) \<Rightarrow> (status2, outs @ outs2, sc2))
        else (status, outs, sc1))"

lemma incremental_then:
  assumes f: "incremental f" and g: "incremental g"
  shows "incremental (then_match f g)"
proof
  fix sc
  show "match_status (fst (then_match f g sc))"
    using incremental.status [OF f, of sc] incremental.status [OF g, of "snd (snd (f sc))"]
    by (auto simp: then_match_def split: prod.splits)
next
  fix sc st outs sc' x
  assume h: "then_match f g sc = (st, outs, sc')"
  obtain s1 o1 sc1 where 1: "f sc = (s1, o1, sc1)" by (metis prod_cases3)
  obtain s2 o2 sc2 where 2: "g sc1 = (s2, o2, sc2)" by (metis prod_cases3)
  note eqs = incremental.frame [OF f 1] incremental.frame [OF g 2]
  { assume c: "sc_cursor sc \<le> length (sc_msg sc)"
    have f1: "framed sc sc1" by (rule eqs(1) [OF c])
    then have "framed sc sc2" using eqs(2) framed_bound framed_trans by blast
    then show "framed sc sc'" using h f1 by (auto simp: then_match_def 1 2 split: if_splits)
    fix r assume "OutStr r \<in> set outs"
    then show "fst r + snd r \<le> length (sc_msg sc)"
      using h f1 [unfolded framed_def] incremental.inside [OF f 1 c, of r] incremental.inside [OF g 2, of r]
      by (auto simp: then_match_def 1 2 split: if_splits) }
  { assume p: "partial sc" and st: "st \<noteq> PARSE_INCOMPLETE"
    have p1: "partial sc1" using f p 1 by (rule incremental.partial_after)
    show "then_match f g (grow x sc) = (st, outs, grow x sc')"
      using h st incremental.stable [OF f p 1, of x] incremental.stable [OF g p1 2, of x]
      by (auto simp: then_match_def 1 2 split: if_splits) }
qed

fun open_fmt :: "string \<Rightarrow> bool" where
  "open_fmt (c # d # fmt) \<longleftrightarrow> (if c = CHR ''%'' then open_option d \<and> open_fmt fmt else open_fmt (d # fmt))"
| "open_fmt [c] \<longleftrightarrow> True"
| "open_fmt [] \<longleftrightarrow> True"

lemma vfmatch_loop_incremental: "open_fmt fmt \<Longrightarrow> incremental (vfmatch_loop env fmt cs)"
proof (induction fmt arbitrary: cs rule: open_fmt.induct)
  case (1 c d fmt)
  have opt: "vfmatch_loop env (CHR ''%'' # d # fmt) cs = then_match (match_option env d cs) (vfmatch_loop env fmt (next_case d cs))"
    by (rule ext) (simp add: then_match_def)
  have plain: "vfmatch_loop env (c # d # fmt) cs =
      then_match (\<lambda>sc. no_out (match_plain c cs sc)) (vfmatch_loop env (d # fmt) cs)" if "c \<noteq> CHR ''%''"
    by (rule ext) (use that in \<open>auto simp: then_match_def no_out_def split: prod.splits\<close>)
  show ?case
  proof (cases "c = CHR ''%''")
    case True
    then show ?thesis using 1 incremental_then [OF match_option_incremental] opt by auto
  next
    case False
    then show ?thesis using 1 incremental_then [OF match_plain_incremental] plain by auto
  qed
next
  case (2 c)
  have "vfmatch_loop env [c] cs = (if c = CHR ''%'' then (\<lambda>sc. (PARSE_OK, [], sc)) else (\<lambda>sc. no_out (match_plain c cs sc)))"
    by auto
  then show ?case using incremental_const [of "\<lambda>_. []"] match_plain_incremental by simp
next
  case 3
  have "vfmatch_loop env [] cs = (\<lambda>sc. (PARSE_OK, [], sc))" by auto
  then show ?case using incremental_const [of "\<lambda>_. []"] by simp
qed

text \<open>A pattern is matched part after part.\<close>

fun closed_fmt :: "string \<Rightarrow> bool" where
  "closed_fmt [] \<longleftrightarrow> True"
| "closed_fmt [c] \<longleftrightarrow> c \<noteq> CHR ''%''"
| "closed_fmt (c # d # fmt) \<longleftrightarrow> (if c = CHR ''%'' then closed_fmt fmt else closed_fmt (d # fmt))"

fun case_after :: "string \<Rightarrow> bool \<Rightarrow> bool" where
  "case_after (c # d # fmt) cs = (if c = CHR ''%'' then case_after fmt (next_case d cs) else case_after (d # fmt) cs)"
| "case_after _ cs = cs"

lemma then_match_assoc: "then_match f (then_match g h) = then_match (then_match f g) h"
  by (auto simp: then_match_def fun_eq_iff split: prod.splits)

lemma vfmatch_loop_Cons2:
  "vfmatch_loop env (c # d # fmt) cs =
     (if c = CHR ''%'' then then_match (match_option env d cs) (vfmatch_loop env fmt (next_case d cs))
      else then_match (\<lambda>sc. no_out (match_plain c cs sc)) (vfmatch_loop env (d # fmt) cs))"
  by (auto simp: then_match_def no_out_def fun_eq_iff split: prod.splits)

lemma vfmatch_loop_append:
  "closed_fmt f \<Longrightarrow> vfmatch_loop env (f @ g) cs = then_match (vfmatch_loop env f cs) (vfmatch_loop env g (case_after f cs))"
proof (induction f arbitrary: cs rule: closed_fmt.induct)
  case 1
  then show ?case by (auto simp: then_match_def fun_eq_iff)
next
  case (2 c)
  then show ?case
    by (cases g) (auto simp: then_match_def no_out_def fun_eq_iff split: prod.splits)
next
  case (3 c d f)
  then show ?case
    using vfmatch_loop_Cons2 [of env c d "f @ g" cs] vfmatch_loop_Cons2 [of env c d f cs]
    by (simp add: then_match_assoc)
qed

text \<open>A pattern without options that store anything.\<close>

fun silent_fmt :: "string \<Rightarrow> bool" where
  "silent_fmt (c # d # fmt) \<longleftrightarrow> (if c = CHR ''%'' then d \<in> set ''cwin'' \<and> silent_fmt fmt else silent_fmt (d # fmt))"
| "silent_fmt [c] \<longleftrightarrow> True"
| "silent_fmt [] \<longleftrightarrow> True"

lemma then_match_silent:
  "fst (snd (f sc)) = [] \<Longrightarrow> fst (snd (g (snd (snd (f sc))))) = [] \<Longrightarrow> fst (snd (then_match f g sc)) = []"
  by (cases "f sc"; cases "g (snd (snd (f sc)))") (simp add: then_match_def)

lemma no_out_silent: "fst (snd (no_out r)) = []"
  by (simp add: no_out_def split: prod.splits)

lemma match_option_silent: "d \<in> set ''cwin'' \<Longrightarrow> fst (snd (match_option env d cs sc)) = []"
proof -
  have "match_option env (CHR ''i'') cs = (\<lambda>sc. (PARSE_OK, [], sc))" "match_option env (CHR ''n'') cs = (\<lambda>sc. (PARSE_OK, [], sc))"
    by (simp_all add: match_option_def fun_eq_iff)
  then show "d \<in> set ''cwin'' \<Longrightarrow> fst (snd (match_option env d cs sc)) = []"
    by (auto simp: match_option_simps no_out_silent forget_def split: prod.split)
qed

lemma vfmatch_loop_silent: "silent_fmt fmt \<Longrightarrow> fst (snd (vfmatch_loop env fmt cs sc)) = []"
proof (induction fmt arbitrary: cs sc rule: silent_fmt.induct)
  case (1 c d fmt)
  show ?case
    unfolding vfmatch_loop_Cons2 using 1 match_option_silent [of d env cs sc]
    by (cases "c = CHR ''%''") (simp_all add: then_match_silent no_out_silent del: vfmatch_loop.simps)
qed (simp_all add: no_out_silent)

theorem vfmatch_incremental:
  assumes "open_fmt fmt"
  shows "incremental (\<lambda>sc. vfmatch env sc fmt)"
proof
  fix sc
  show "match_status (fst (vfmatch env sc fmt))"
    using incremental.status [OF vfmatch_loop_incremental [OF assms], of env True sc]
    by (auto simp: vfmatch_def split: prod.splits)
next
  fix sc st outs sc' x
  assume f: "vfmatch env sc fmt = (st, outs, sc')"
  obtain s1 o1 sc1 where 1: "vfmatch_loop env fmt True sc = (s1, o1, sc1)" by (metis prod_cases3)
  note L = vfmatch_loop_incremental [OF assms, of env True]
  { assume c: "sc_cursor sc \<le> length (sc_msg sc)"
    have "framed sc sc1" by (rule incremental.frame [OF L 1 c])
    then show "framed sc sc'" using f c by (auto simp: vfmatch_def 1 split: if_splits)
    fix r assume "OutStr r \<in> set outs"
    then show "fst r + snd r \<le> length (sc_msg sc)"
      using f incremental.inside [OF L 1 c, of r] by (auto simp: vfmatch_def 1 split: if_splits) }
  { assume p: "partial sc" and st: "st \<noteq> PARSE_INCOMPLETE"
    show "vfmatch env (grow x sc) fmt = (st, outs, grow x sc')"
      using f st incremental.stable [OF L p 1, of x] by (auto simp: vfmatch_def 1 split: if_splits) }
qed

section \<open>Property\<close>

text \<open>
  C34. Matching a pattern against a message that is still arriving: unless the matcher asks for more
  data its decision and everything it extracted stay the same whatever arrives next; on anything
  but a match the scanner is back where it was; the cursor and every extracted text lie inside the
  message. (Patterns with a URL or an end-of-text option are left out: those options look at what
  follows.)
\<close>

theorem match_incremental:
  assumes "open_fmt fmt" "\<not> entire_msg_loaded sc" "sc_cursor sc \<le> length (sc_msg sc)"
    and "match_fmt env sc fmt = (st, outs, sc')"
  shows "(st \<noteq> PARSE_INCOMPLETE \<longrightarrow> match_fmt env (sc\<lparr>sc_msg := sc_msg sc @ x\<rparr>) fmt = (st, outs, sc'\<lparr>sc_msg := sc_msg sc' @ x\<rparr>)) \<and>
    (st \<noteq> PARSE_OK \<longrightarrow> sc' = sc) \<and> sc_cursor sc' \<le> length (sc_msg sc) \<and>
    (\<forall>r. OutStr r \<in> set outs \<longrightarrow> fst r + snd r \<le> length (sc_msg sc))"
proof -
  note I = vfmatch_incremental [OF assms(1), of env]
  have f: "vfmatch env sc fmt = (st, outs, sc')" using assms(4) by (simp add: match_fmt_def)
  note fr = incremental.frame [OF I f assms(3), unfolded framed_def]
  have p: "partial sc" using assms(2,3) by (simp add: partial_def)
  have "st \<noteq> PARSE_OK \<Longrightarrow> sc_cursor sc' = sc_cursor sc"
    using f by (auto simp: vfmatch_def split: prod.splits if_splits)
  then have "st \<noteq> PARSE_OK \<Longrightarrow> sc' = sc" using fr by simp
  then show ?thesis
    using fr incremental.inside [OF I f assms(3)] incremental.stable [OF I p f, of x]
    by (simp add: match_fmt_def grow_def)
qed

definition no_net :: net_env where
  "no_net = \<lparr>getaddrinfo = (\<lambda>_. None), inet_pton4 = (\<lambda>_. None), inet_pton6 = (\<lambda>_. None)\<rparr>"

definition chunk_line :: scanner_t where
  "chunk_line = scanner_init (''1f;x'' @ [CR, LF])"

lemma chunk_line_match:
  "match_fmt no_net chunk_line ''%x%L%c'' = (PARSE_OK, [OutInt 31, OutStr (2, 2)], chunk_line\<lparr>sc_cursor := 6\<rparr>)"
  unfolding chunk_line_def no_net_def by code_simp

theorem match_incremental_witness:
  "match_fmt no_net (chunk_line\<lparr>sc_msg := sc_msg chunk_line @ ''abc''\<rparr>) ''%x%L%c'' =
     (PARSE_OK, [OutInt 31, OutStr (2, 2)], chunk_line\<lparr>sc_cursor := 6, sc_msg := sc_msg chunk_line @ ''abc''\<rparr>)"
proof -
  have "open_fmt ''%x%L%c''" "\<not> entire_msg_loaded chunk_line" "sc_cursor chunk_line \<le> length (sc_msg chunk_line)"
    by (simp_all add: open_option_def chunk_line_def scanner_init_def)
  from match_incremental [OF this chunk_line_match, of "''abc''"] show ?thesis by simp
qed

end
