(* ===== verification/Mem_Buffer.thy ===== *)
theory Mem_Buffer
  imports Upnp_Prelude
begin

text \<open>
  The growable byte buffer of \<^verbatim>\<open>upnp/src/genlib/util/membuffer.c\<close>, with the memory block it owns.
  The block is the list of its bytes; every read and write is checked against its length, and \<open>None\<close>
  is an access outside the block. Sizes are \<open>size_t\<close>: sums and differences are reduced modulo
  $2^{64}$ where the code computes them. \<open>realloc\<close> is an argument: whether the first and the second
  request of a call succeed, and the bytes that new memory holds; like every allocator it refuses
  requests of $2^{63}$ bytes and more.
\<close>

section \<open>Memory blocks\<close>

definition block_read :: "char list \<Rightarrow> nat \<Rightarrow> nat \<Rightarrow> char list option" where
  "block_read b off n = (if off + n \<le> length b then Some (take n (drop off b)) else None)"

definition block_write :: "char list \<Rightarrow> nat \<Rightarrow> char list \<Rightarrow> char list option" where
  "block_write b off bs =
     (if off + length bs \<le> length b then Some (take off b @ bs @ drop (off + length bs) b) else None)"

definition memmove :: "char list \<Rightarrow> nat \<Rightarrow> nat \<Rightarrow> nat \<Rightarrow> char list option" where
  "memmove b dst src n = (if n = 0 then Some b else do { bs \<leftarrow> block_read b src n; block_write b dst bs })"

record allocator =
  first_ok :: bool
  second_ok :: bool
  junk :: "nat \<Rightarrow> char"

definition realloc :: "allocator \<Rightarrow> bool \<Rightarrow> char list option \<Rightarrow> nat \<Rightarrow> char list option" where
  "realloc al ok b n =
     (if ok \<and> n < 2 ^ 63
      then let old = (case b of None \<Rightarrow> [] | Some xs \<Rightarrow> xs)
           in Some (take n old @ map (junk al) [length old ..< n])
      else None)"

section \<open>The buffer\<close>

record membuffer =
  mb_buf :: "char list option"
  mb_length :: nat
  mb_capacity :: nat
  size_inc :: nat

definition MEMBUF_DEF_SIZE_INC :: nat where
  "MEMBUF_DEF_SIZE_INC = 5"

text \<open>\<open>str_alloc\<close>: a NUL-terminated copy in a fresh block.\<close>

definition str_alloc :: "allocator \<Rightarrow> string \<Rightarrow> nat \<Rightarrow> char list option option" where
  "str_alloc al str str_len =
     (case realloc al (first_ok al) None (size_add str_len 1) of
        None \<Rightarrow> Some None
      | Some s \<Rightarrow>
          map_option Some
            (do { bs \<leftarrow> block_read str 0 str_len; s1 \<leftarrow> block_write s 0 bs; block_write s1 str_len [NUL] }))"

definition membuffer_initialize :: "membuffer \<Rightarrow> membuffer" where
  "membuffer_initialize m = m\<lparr>mb_buf := None, mb_length := 0, mb_capacity := 0\<rparr>"

definition membuffer_set_size :: "allocator \<Rightarrow> membuffer \<Rightarrow> nat \<Rightarrow> int \<times> membuffer" where
  "membuffer_set_size al m new_length =
     (let resize = (\<lambda>alloc_len.
        case realloc al (first_ok al) (mb_buf m) (size_add alloc_len 1) of
          Some b \<Rightarrow> (0, m\<lparr>mb_buf := Some b, mb_capacity := alloc_len\<rparr>)
        | None \<Rightarrow>
            (case realloc al (second_ok al) (mb_buf m) (size_add new_length 1) of
               Some b \<Rightarrow> (0, m\<lparr>mb_buf := Some b, mb_capacity := new_length\<rparr>)
             | None \<Rightarrow> (UPNP_E_OUTOF_MEMORY, m)))
      in
        if mb_length m \<le> new_length then
          if new_length \<le> mb_capacity m then (0, m)
          else resize (size_add (max (size_inc m) (size_sub new_length (mb_length m))) (mb_capacity m))
        else
          if size_sub (mb_capacity m) new_length \<le> size_inc m then (0, m)
          else resize (size_add new_length (size_inc m)))"

definition membuffer_init :: "membuffer \<Rightarrow> membuffer" where
  "membuffer_init m = membuffer_initialize (m\<lparr>size_inc := MEMBUF_DEF_SIZE_INC\<rparr>)"

definition membuffer_destroy :: "membuffer \<Rightarrow> membuffer" where
  "membuffer_destroy m = membuffer_init m"

text \<open>Storing bytes and the terminator through \<open>m->buf\<close>; writing through \<open>NULL\<close> is an error.\<close>

definition store :: "membuffer \<Rightarrow> nat \<Rightarrow> char list \<Rightarrow> membuffer option" where
  "store m off bs = do { b \<leftarrow> mb_buf m; b' \<leftarrow> block_write b off bs; Some (m\<lparr>mb_buf := Some b'\<rparr>) }"

definition move_bytes :: "membuffer \<Rightarrow> nat \<Rightarrow> nat \<Rightarrow> nat \<Rightarrow> membuffer option" where
  "move_bytes m dst src n =
     do { b \<leftarrow> mb_buf m; b' \<leftarrow> memmove b dst src n; Some (m\<lparr>mb_buf := Some b'\<rparr>) }"

definition membuffer_assign :: "allocator \<Rightarrow> membuffer \<Rightarrow> string option \<Rightarrow> nat \<Rightarrow> (int \<times> membuffer) option" where
  "membuffer_assign al m buf buf_len =
     (case buf of None \<Rightarrow> Some (0, membuffer_destroy m)
      | Some src \<Rightarrow>
        let (return_code, m1) = membuffer_set_size al m buf_len in
        if return_code \<noteq> 0 then Some (return_code, m1)
        else do {
          m2 \<leftarrow> (if buf_len \<noteq> 0
                 then do { bs \<leftarrow> block_read src 0 buf_len; m' \<leftarrow> store m1 0 bs; store m' buf_len [NUL] }
                 else Some m1);
          Some (0, m2\<lparr>mb_length := buf_len\<rparr>)
        })"

definition membuffer_insert ::
  "allocator \<Rightarrow> membuffer \<Rightarrow> string option \<Rightarrow> nat \<Rightarrow> nat \<Rightarrow> (int \<times> membuffer) option" where
  "membuffer_insert al m buf buf_len index =
     (if mb_length m < index then Some (UPNP_E_OUTOF_BOUNDS, m)
      else case buf of None \<Rightarrow> Some (0, m)
      | Some src \<Rightarrow>
        if buf_len = 0 then Some (0, m)
        else
          let (return_code, m1) = membuffer_set_size al m (size_add (mb_length m) buf_len) in
          if return_code \<noteq> 0 then Some (return_code, m1)
          else do {
            m2 \<leftarrow> move_bytes m1 (index + buf_len) index (mb_length m1 - index);
            bs \<leftarrow> block_read src 0 buf_len;
            m3 \<leftarrow> store m2 index bs;
            let m4 = m3\<lparr>mb_length := size_add (mb_length m3) buf_len\<rparr>;
            m5 \<leftarrow> store m4 (mb_length m4) [NUL];
            Some (0, m5)
          })"

definition membuffer_append :: "allocator \<Rightarrow> membuffer \<Rightarrow> string option \<Rightarrow> nat \<Rightarrow> (int \<times> membuffer) option" where
  "membuffer_append al m buf buf_len = membuffer_insert al m buf buf_len (mb_length m)"

text \<open>The string arguments are NUL-terminated; they are given without the terminator.\<close>

definition membuffer_assign_str :: "allocator \<Rightarrow> membuffer \<Rightarrow> string \<Rightarrow> (int \<times> membuffer) option" where
  "membuffer_assign_str al m c_str = membuffer_assign al m (Some (c_str @ [NUL])) (length c_str)"

definition membuffer_append_str :: "allocator \<Rightarrow> membuffer \<Rightarrow> string \<Rightarrow> (int \<times> membuffer) option" where
  "membuffer_append_str al m c_str =
     membuffer_insert al m (Some (c_str @ [NUL])) (length c_str) (mb_length m)"

definition membuffer_delete :: "allocator \<Rightarrow> membuffer \<Rightarrow> nat \<Rightarrow> nat \<Rightarrow> membuffer option" where
  "membuffer_delete al m index num_bytes0 =
     (if mb_length m = 0 then Some m
      else
        let beyond = (mb_length m < size_add index num_bytes0);
            num_bytes = (if beyond then size_sub (mb_length m) index else num_bytes0);
            copy_len = (if beyond then 0 else size_sub (mb_length m) (size_add index num_bytes0))
        in do {
          m1 \<leftarrow> move_bytes m index (size_add index num_bytes) copy_len;
          let new_length = size_sub (mb_length m1) num_bytes;
          let (return_value, m2) = membuffer_set_size al m1 new_length;
          if return_value \<noteq> 0 then Some m2
          else store (m2\<lparr>mb_length := new_length\<rparr>) new_length [NUL]
        })"

definition membuffer_detach :: "membuffer \<Rightarrow> char list option \<times> membuffer" where
  "membuffer_detach m = (mb_buf m, membuffer_initialize m)"

definition membuffer_attach :: "membuffer \<Rightarrow> char list option \<Rightarrow> nat \<Rightarrow> membuffer" where
  "membuffer_attach m new_buf buf_len =
     (membuffer_destroy m)\<lparr>mb_buf := new_buf, mb_length := buf_len, mb_capacity := buf_len\<rparr>"

section \<open>Invariant and contents\<close>

text \<open>
  The block has one byte more than the capacity, for the terminator; the contents fit into it. An
  unallocated buffer is empty. \<open>mb_str\<close> is the string the buffer holds.
\<close>

definition mb_inv :: "membuffer \<Rightarrow> bool" where
  "mb_inv m \<longleftrightarrow> mb_length m \<le> mb_capacity m \<and> mb_capacity m + 1 < 2 ^ 63 \<and> size_inc m < 2 ^ 63 \<and>
     (case mb_buf m of None \<Rightarrow> mb_capacity m = 0 | Some b \<Rightarrow> length b = mb_capacity m + 1)"

definition mb_str :: "membuffer \<Rightarrow> string" where
  "mb_str m = (case mb_buf m of None \<Rightarrow> [] | Some b \<Rightarrow> take (mb_length m) b)"

text \<open>A C string: the block is allocated and has a NUL right after the contents.\<close>

definition terminated :: "membuffer \<Rightarrow> bool" where
  "terminated m \<longleftrightarrow> (case mb_buf m of None \<Rightarrow> False | Some b \<Rightarrow> mb_length m < length b \<and> b ! mb_length m = NUL)"

lemma mb_inv_None: "mb_inv m \<Longrightarrow> mb_buf m = None \<Longrightarrow> mb_length m = 0 \<and> mb_capacity m = 0"
  by (simp add: mb_inv_def)

lemma mb_inv_Some: "mb_inv m \<Longrightarrow> mb_buf m = Some b \<Longrightarrow> length b = mb_capacity m + 1 \<and> mb_length m < length b"
  by (simp add: mb_inv_def)

lemma mb_str_length: "mb_inv m \<Longrightarrow> length (mb_str m) = mb_length m"
  by (auto simp: mb_str_def mb_inv_def split: option.splits)

lemma realloc_length: "realloc al ok b n = Some b' \<Longrightarrow> length b' = n \<and> n < 2 ^ 63"
  by (auto simp: realloc_def split: option.splits if_splits)

lemma realloc_keeps: "realloc al ok (Some b) n = Some b' \<Longrightarrow> k \<le> n \<Longrightarrow> k \<le> length b \<Longrightarrow> take k b' = take k b"
  by (auto simp: realloc_def split: if_splits)

lemma membuffer_init_inv: "mb_inv (membuffer_init m) \<and> mb_str (membuffer_init m) = []"
  by (simp add: membuffer_init_def membuffer_initialize_def mb_inv_def mb_str_def MEMBUF_DEF_SIZE_INC_def)

text \<open>
  What \<open>membuffer_set_size\<close> promises: no field but the block and the capacity changes; on success
  there is room for the requested length, and the old contents up to it are still there; on failure
  nothing has changed.
\<close>

definition resized :: "membuffer \<Rightarrow> nat \<Rightarrow> membuffer \<Rightarrow> bool" where
  "resized m n m' \<longleftrightarrow>
     mb_length m' = mb_length m \<and> size_inc m' = size_inc m \<and> n \<le> mb_capacity m' \<and>
     mb_capacity m' + 1 < 2 ^ 63 \<and>
     (case mb_buf m' of
        None \<Rightarrow> mb_buf m = None \<and> n = 0 \<and> mb_capacity m' = 0
      | Some b' \<Rightarrow> length b' = mb_capacity m' + 1 \<and>
          take (min n (mb_length m)) b' = take (min n (mb_length m)) (case mb_buf m of None \<Rightarrow> [] | Some b \<Rightarrow> b))"

lemma resized_refl: "mb_inv m \<Longrightarrow> n \<le> mb_capacity m \<Longrightarrow> resized m n m"
  by (auto simp: resized_def mb_inv_def split: option.splits)

lemma resized_realloc:
  assumes "mb_inv m" "realloc al ok (mb_buf m) (c + 1) = Some b" "n \<le> c"
  shows "resized m n (m\<lparr>mb_buf := Some b, mb_capacity := c\<rparr>)"
proof (cases "mb_buf m")
  case None
  then show ?thesis using assms realloc_length [OF assms(2)] mb_inv_None [OF assms(1) None] by (auto simp: resized_def)
next
  case (Some b0)
  then have "take (min n (mb_length m)) b = take (min n (mb_length m)) b0"
    using realloc_keeps [of al ok b0 "c + 1" b "min n (mb_length m)"] assms mb_inv_Some [OF assms(1) Some]
    by (simp add: min_le_iff_disj)
  then show ?thesis using assms realloc_length [OF assms(2)] Some by (auto simp: resized_def)
qed

lemma membuffer_set_size_ok:
  assumes inv: "mb_inv m" and n: "n \<le> mb_length m \<or> n - mb_length m < 2 ^ 63"
    and r: "membuffer_set_size al m n = (rc, m')"
  shows "rc = 0 \<and> resized m n m' \<or> rc = UPNP_E_OUTOF_MEMORY \<and> m' = m"
proof -
  let ?resize = "\<lambda>c. case realloc al (first_ok al) (mb_buf m) (size_add c 1) of
          Some b \<Rightarrow> (0, m\<lparr>mb_buf := Some b, mb_capacity := c\<rparr>)
        | None \<Rightarrow> (case realloc al (second_ok al) (mb_buf m) (size_add n 1) of
               Some b \<Rightarrow> (0, m\<lparr>mb_buf := Some b, mb_capacity := n\<rparr>)
             | None \<Rightarrow> (UPNP_E_OUTOF_MEMORY, m))"
  have attempt: "rc = 0 \<and> resized m n m' \<or> rc = UPNP_E_OUTOF_MEMORY \<and> m' = m"
    if "?resize c = (rc, m')" "n \<le> c" "c + 1 < 2 ^ 64" for c
  proof -
    have "size_add c 1 = c + 1" "size_add n 1 = n + 1"
      using that(2,3) by (auto simp del: One_nat_def add_Suc_right intro: size_add_small)
    note eq = that(1) [unfolded this]
    show ?thesis
      using eq that(2) resized_realloc [OF inv, of al "first_ok al" c _ n] resized_realloc [OF inv, of al "second_ok al" n _ n]
      by (auto split: option.splits)
  qed
  have len: "mb_length m \<le> mb_capacity m" "mb_capacity m + 1 < 2 ^ 63" "size_inc m < 2 ^ 63"
    using inv by (auto simp: mb_inv_def)
  consider (keep) "(rc, m') = (0, m)" "n \<le> mb_capacity m"
    | (up) "mb_length m \<le> n" "mb_capacity m < n"
        "?resize (size_add (max (size_inc m) (size_sub n (mb_length m))) (mb_capacity m)) = (rc, m')"
    | (down) "n < mb_length m" "?resize (size_add n (size_inc m)) = (rc, m')"
    using r len(1) by (fastforce simp: membuffer_set_size_def Let_def split: if_splits)
  then show ?thesis
  proof cases
    case keep
    then show ?thesis using resized_refl [OF inv] by simp
  next
    case up
    have "n < 2 ^ 64" "max (size_inc m) (n - mb_length m) + mb_capacity m + 1 < 2 ^ 64"
      using n up(1) len by (auto simp: max_def)
    then show ?thesis using up len by (intro attempt [OF up(3)]) auto
  next
    case down
    then show ?thesis using len by (intro attempt [OF down(2)]) auto
  qed
qed

section \<open>What the operations do\<close>

lemma block_write_mid:
  "length bs = length x \<Longrightarrow> block_write (a @ x @ r) (length a) bs = Some (a @ bs @ r)"
  by (simp add: block_write_def)

lemma block_write_mid':
  "k = length a \<Longrightarrow> length bs = length x \<Longrightarrow> block_write (a @ x @ r) k bs = Some (a @ bs @ r)"
  using block_write_mid by blast

text \<open>Opening a gap for \<open>bs\<close> between \<open>a\<close> and \<open>c\<close>, filling it, and terminating the string.\<close>

lemma open_gap:
  assumes "length bs < length r"
  obtains r' where
    "memmove (a @ c @ r) (length a + length bs) (length a) (length c) \<bind>
       (\<lambda>b2. block_write b2 (length a) bs) \<bind>
       (\<lambda>b3. block_write b3 (length a + length c + length bs) [NUL]) = Some (a @ bs @ c @ NUL # r')"
    "Suc (length r' + length bs) = length r"
proof -
  let ?b = "a @ c @ r"
  let ?k = "length a + length bs"
  obtain x y where xy: "drop (length bs) (c @ r) = x @ y" "length x = length c"
    using assms by (metis append_take_drop_id length_append length_drop length_take min.absorb2 nat_le_linear
        add_diff_cancel_right' diff_le_mono2 le_add_diff_inverse2 less_imp_le_nat nat_add_left_cancel_le)
  have len: "length y + length bs = length r" using arg_cong [OF xy(1), of length] xy(2) assms by simp
  obtain p where p: "c @ r = p @ x @ y" "length p = length bs"
    using xy(1) assms by (metis append_take_drop_id length_append length_take min.absorb2 less_imp_le_nat trans_le_add2)
  have b: "?b = (a @ p) @ x @ y" using p by simp
  have "memmove ?b ?k (length a) (length c) = Some ((a @ p) @ c @ y)"
  proof (cases "c = []")
    case True
    then show ?thesis using b xy(2) by (simp add: memmove_def)
  next
    case False
    have "block_read ?b (length a) (length c) = Some c" by (simp add: block_read_def)
    then show ?thesis
      using False block_write_mid' [of ?k "a @ p" c x y] xy(2) p(2) by (simp add: memmove_def b)
  qed
  moreover have "block_write (a @ p @ c @ y) (length a) bs = Some (a @ bs @ c @ y)"
    using block_write_mid [of bs p a "c @ y"] p(2) by simp
  moreover obtain z r' where y: "y = z # r'" using len assms by (cases y) auto
  have "block_write ((a @ bs @ c) @ [z] @ r') (length a + length c + length bs) [NUL] = Some ((a @ bs @ c) @ [NUL] @ r')"
    by (rule block_write_mid') auto
  ultimately show thesis using that [of r'] y len by simp
qed

lemma resized_Some:
  assumes "resized m n m'" "mb_inv m" "0 < n"
  obtains b where "mb_buf m' = Some b" "length b = mb_capacity m' + 1" "n \<le> mb_capacity m'"
    "mb_capacity m' + 1 < 2 ^ 63" "mb_length m' = mb_length m" "size_inc m' = size_inc m"
    "mb_length m \<le> n \<Longrightarrow> take (mb_length m) b = mb_str m" "n \<le> mb_length m \<Longrightarrow> take n b = take n (mb_str m)"
proof (cases "mb_buf m'")
  case None
  then show ?thesis using assms by (auto simp: resized_def)
next
  case (Some b)
  show ?thesis
  proof (rule that [of b])
    show "mb_length m \<le> n \<Longrightarrow> take (mb_length m) b = mb_str m" "n \<le> mb_length m \<Longrightarrow> take n b = take n (mb_str m)"
      using assms Some mb_inv_None [OF assms(2)]
      by (auto simp: resized_def mb_str_def min_def split: option.splits if_splits)
  qed (use assms Some in \<open>auto simp: resized_def\<close>)
qed

lemma oom_ne [simp]: "UPNP_E_OUTOF_MEMORY \<noteq> 0" "UPNP_E_OUTOF_BOUNDS \<noteq> 0"
  by (simp_all add: codes)

lemma bind_store: "mb_buf m = Some b \<Longrightarrow> block_write b off bs = Some b' \<Longrightarrow> store m off bs = Some (m\<lparr>mb_buf := Some b'\<rparr>)"
  by (simp add: store_def)

lemma membuffer_insert_ok:
  assumes inv: "mb_inv m" and i: "i \<le> mb_length m" and n: "n \<le> length src" "n < 2 ^ 63"
  shows "\<exists>rc m'. membuffer_insert al m (Some src) n i = Some (rc, m') \<and> mb_inv m' \<and>
    (rc = 0 \<and> mb_str m' = take i (mb_str m) @ take n src @ drop i (mb_str m) \<and> (0 < n \<longrightarrow> terminated m') \<or>
     rc = UPNP_E_OUTOF_MEMORY \<and> m' = m)"
proof (cases "n = 0")
  case True
  then show ?thesis using inv i by (simp add: membuffer_insert_def)
next
  case False
  let ?L = "mb_length m" and ?bs = "take n src"
  have L: "?L + n < 2 ^ 64" using inv n by (simp add: mb_inv_def)
  obtain rc m1 where s: "membuffer_set_size al m (?L + n) = (rc, m1)" by fastforce
  have "rc = 0 \<and> resized m (?L + n) m1 \<or> rc = UPNP_E_OUTOF_MEMORY \<and> m1 = m"
    using membuffer_set_size_ok [OF inv _ s] n by simp
  then consider (oom) "rc = UPNP_E_OUTOF_MEMORY" "m1 = m" | (ok) "rc = 0" "resized m (?L + n) m1" by blast
  then show ?thesis
  proof cases
    case oom
    then show ?thesis using s L i False inv by (simp add: membuffer_insert_def)
  next
    case ok
    obtain b where b: "mb_buf m1 = Some b" "length b = mb_capacity m1 + 1" "?L + n \<le> mb_capacity m1"
      "mb_capacity m1 + 1 < 2 ^ 63" "mb_length m1 = ?L" "size_inc m1 = size_inc m" "take ?L b = mb_str m"
      using ok(2) inv by (rule resized_Some) (use False in auto)
    let ?a = "take i (mb_str m)" and ?c = "drop i (mb_str m)" and ?r = "drop ?L b"
    have str: "length (mb_str m) = ?L" using inv by (rule mb_str_length)
    have dec: "b = ?a @ ?c @ ?r" using b(7) by (metis append_assoc append_take_drop_id)
    have la: "length ?a = i" "length ?c = ?L - i" "length ?bs = n" using str i n by auto
    have "length ?bs < length ?r" using b la by simp
    then obtain r' where g: "memmove (?a @ ?c @ ?r) (length ?a + length ?bs) (length ?a) (length ?c) \<bind>
       (\<lambda>b2. block_write b2 (length ?a) ?bs) \<bind>
       (\<lambda>b3. block_write b3 (length ?a + length ?c + length ?bs) [NUL]) = Some (?a @ ?bs @ ?c @ NUL # r')"
      "Suc (length r' + length ?bs) = length ?r" by (rule open_gap)
    then obtain b2 b3 where g2: "memmove b (i + n) i (?L - i) = Some b2" "block_write b2 i ?bs = Some b3"
      "block_write b3 (?L + n) [NUL] = Some (?a @ ?bs @ ?c @ NUL # r')"
      using la i dec [symmetric] by (auto simp: bind_eq_Some_conv)
    let ?m = "m1\<lparr>mb_buf := Some (?a @ ?bs @ ?c @ NUL # r'), mb_length := ?L + n\<rparr>"
    have "membuffer_insert al m (Some src) n i = Some (0, ?m)"
      using s L i False ok(1) b g2 n
      by (simp add: membuffer_insert_def move_bytes_def store_def block_read_def)
    moreover have "mb_inv ?m"
      using inv b la g(2) i by (simp add: mb_inv_def)
    moreover have "mb_str ?m = ?a @ ?bs @ ?c" "terminated ?m"
      using la i by (auto simp: mb_str_def terminated_def nth_append)
    ultimately show ?thesis by blast
  qed
qed

lemma membuffer_append_ok:
  assumes "mb_inv m" "n \<le> length src" "n < 2 ^ 63"
  shows "\<exists>rc m'. membuffer_append al m (Some src) n = Some (rc, m') \<and> mb_inv m' \<and>
    (rc = 0 \<and> mb_str m' = mb_str m @ take n src \<and> (0 < n \<longrightarrow> terminated m') \<or>
     rc = UPNP_E_OUTOF_MEMORY \<and> m' = m)"
  using membuffer_insert_ok [OF assms(1) order_refl assms(2,3), of al] mb_str_length [OF assms(1)]
  by (simp add: membuffer_append_def)

lemma membuffer_assign_ok:
  assumes inv: "mb_inv m" and n: "n \<le> length src" "n < 2 ^ 63"
  shows "\<exists>rc m'. membuffer_assign al m (Some src) n = Some (rc, m') \<and> mb_inv m' \<and>
    (rc = 0 \<and> mb_str m' = take n src \<and> (0 < n \<longrightarrow> terminated m') \<or> rc = UPNP_E_OUTOF_MEMORY \<and> m' = m)"
proof -
  obtain rc m1 where s: "membuffer_set_size al m n = (rc, m1)" by fastforce
  have "rc = 0 \<and> resized m n m1 \<or> rc = UPNP_E_OUTOF_MEMORY \<and> m1 = m"
    using membuffer_set_size_ok [OF inv _ s] less_imp_diff_less [OF n(2)] by blast
  then consider (oom) "rc = UPNP_E_OUTOF_MEMORY" "m1 = m" | (zero) "rc = 0" "resized m n m1" "n = 0"
    | (ok) "rc = 0" "resized m n m1" "0 < n" by blast
  then show ?thesis
  proof cases
    case oom
    then show ?thesis using s inv by (simp add: membuffer_assign_def)
  next
    case zero
    then show ?thesis
      using s inv
      by (auto simp: membuffer_assign_def resized_def mb_inv_def mb_str_def split: option.splits)
  next
    case ok
    obtain b where b: "mb_buf m1 = Some b" "length b = mb_capacity m1 + 1" "n \<le> mb_capacity m1"
      "mb_capacity m1 + 1 < 2 ^ 63" "size_inc m1 = size_inc m"
      using ok(2) inv ok(3) by (rule resized_Some) auto
    let ?x = "take n b" and ?r = "drop n b" and ?bs = "take n src"
    obtain z r' where r: "?r = z # r'" using b by (cases ?r) auto
    have w1: "block_write b 0 ?bs = Some (?bs @ ?r)"
      using b n block_write_mid [of ?bs ?x "[]" ?r] by simp
    have w2: "block_write (?bs @ ?r) n [NUL] = Some (?bs @ NUL # r')"
      using n block_write_mid' [of n ?bs "[NUL]" "[z]" r'] r by simp
    let ?m = "m1\<lparr>mb_buf := Some (?bs @ NUL # r'), mb_length := n\<rparr>"
    have "membuffer_assign al m (Some src) n = Some (0, ?m)"
      using s ok w1 w2 b n by (simp add: membuffer_assign_def store_def block_read_def)
    moreover have "length r' + 1 = length b - n" using arg_cong [OF r, of length] b by simp
    then have "mb_inv ?m" "mb_str ?m = ?bs" "terminated ?m"
      using inv b n by (auto simp: mb_inv_def mb_str_def terminated_def nth_append)
    ultimately show ?thesis by blast
  qed
qed

lemma split4:
  assumes "i + k \<le> n" "n \<le> length b"
  obtains a d c r where "b = a @ d @ c @ r" "length a = i" "length d = k" "length c = n - (i + k)"
proof
  show "b = take i b @ take k (drop i b) @ take (n - (i + k)) (drop (i + k) b) @ drop n b"
    using assms by (metis append_take_drop_id drop_drop add.commute le_add_diff_inverse)
qed (use assms in auto)

text \<open>Closing the gap: the bytes \<open>c\<close> move down over \<open>d\<close>.\<close>

lemma close_gap:
  obtains y where "memmove (a @ d @ c @ r) (length a) (length a + length d) (length c) = Some (a @ c @ y)"
    "length y = length d + length r"
proof (cases "c = []")
  case True
  then show thesis using that [of "d @ r"] by (simp add: memmove_def)
next
  case False
  obtain x y where xy: "d @ c @ r = x @ y" "length x = length c"
    by (rule split4 [of 0 "length c" "length c" "d @ c @ r"]) auto
  have "block_read (a @ d @ c @ r) (length a + length d) (length c) = Some c" by (simp add: block_read_def)
  moreover have "block_write (a @ x @ y) (length a) c = Some (a @ c @ y)"
    using xy(2) by (simp add: block_write_mid)
  moreover have "length y = length d + length r"
    using arg_cong [OF xy(1), of length] xy(2) by simp
  ultimately show thesis
    using that [of y] False xy by (simp add: memmove_def)
qed

lemma shrink_ok:
  assumes inv: "mb_inv m" and n: "n \<le> mb_length m" and ok: "second_ok al"
    and s: "membuffer_set_size al m n = (rc, m')"
  shows "rc = 0"
proof -
  have c: "mb_length m \<le> mb_capacity m" "mb_capacity m + 1 < 2 ^ 63" using inv by (auto simp: mb_inv_def)
  then have "size_add n 1 = n + 1" using n by (intro size_add_small) simp
  moreover have "n + 1 < 2 ^ 63" using c n by simp
  ultimately show ?thesis
    using s ok by (auto simp: membuffer_set_size_def Let_def realloc_def split: if_splits option.splits)
qed

text \<open>The end of \<open>membuffer_delete\<close>: the new length is set and the terminator written.\<close>

lemma truncate_ok:
  assumes inv: "mb_inv m" and b: "mb_buf m = Some b" and n: "n \<le> mb_length m" and ok: "second_ok al"
    and s: "membuffer_set_size al m n = (rc, m1)"
  shows "\<exists>m'. store (m1\<lparr>mb_length := n\<rparr>) n [NUL] = Some m' \<and> mb_inv m' \<and> mb_str m' = take n b \<and> terminated m'"
proof -
  have "resized m n m1" using membuffer_set_size_ok [OF inv _ s] n shrink_ok [OF inv n ok s] by auto
  then obtain b1 where b1: "mb_buf m1 = Some b1" "length b1 = mb_capacity m1 + 1" "n \<le> mb_capacity m1"
      "mb_capacity m1 + 1 < 2 ^ 63" "size_inc m1 = size_inc m" "take n b1 = take n b"
    using b n by (auto simp: resized_def min_def split: option.splits if_splits)
  obtain z r where r: "drop n b1 = z # r" using b1 by (cases "drop n b1") auto
  have "block_write (take n b1 @ [z] @ r) n [NUL] = Some (take n b1 @ [NUL] @ r)"
    using b1(2,3) by (intro block_write_mid') auto
  then have w: "block_write b1 n [NUL] = Some (take n b1 @ NUL # r)"
    using r by (metis append_Cons append_Nil append_take_drop_id)
  have "length r + 1 = length b1 - n" using arg_cong [OF r, of length] b1 by simp
  moreover have "n \<le> length b" using mb_inv_Some [OF inv b] n by simp
  ultimately show ?thesis
    using b1 w inv by (auto simp: store_def mb_inv_def mb_str_def terminated_def nth_append)
qed

text \<open>
  Deletion inside the contents; the requests of \<open>realloc\<close> are for less memory than the block has,
  the second one is assumed to succeed, as the assertion in the code does.
\<close>

lemma membuffer_delete_ok:
  assumes inv: "mb_inv m" and i: "i \<le> mb_length m" and n: "n < 2 ^ 63" and ok: "second_ok al"
  shows "\<exists>m'. membuffer_delete al m i n = Some m' \<and> mb_inv m' \<and>
    mb_str m' = take i (mb_str m) @ drop (i + n) (mb_str m) \<and> (mb_str m \<noteq> [] \<longrightarrow> terminated m')"
proof (cases "mb_length m = 0")
  case True
  then show ?thesis using inv i mb_str_length [OF inv] by (simp add: membuffer_delete_def)
next
  case False
  let ?L = "mb_length m" and ?k = "min n (mb_length m - i)"
  obtain b where b: "mb_buf m = Some b" using inv False by (cases "mb_buf m") (auto simp: mb_inv_def)
  have lb: "length b = mb_capacity m + 1" "?L < length b" using mb_inv_Some [OF inv b] by auto
  have cap: "mb_capacity m + 1 < 2 ^ 63" "?L < 2 ^ 63" "?L < 2 ^ 64" using inv by (auto simp: mb_inv_def)
  have kk: "i + ?k \<le> ?L" using i by simp
  obtain a d c r where dec: "b = a @ d @ c @ r" "length a = i" "length d = ?k" "length c = ?L - (i + ?k)"
    using split4 [OF kk less_imp_le [OF lb(2)]] by blast
  obtain y where y: "memmove b i (i + ?k) (?L - (i + ?k)) = Some (a @ c @ y)" "length y = length d + length r"
    using close_gap [of a d c r] dec by metis
  let ?m = "m\<lparr>mb_buf := Some (a @ c @ y)\<rparr>" and ?N = "?L - ?k"
  have invm: "mb_inv ?m" using inv b y(2) dec lb by (simp add: mb_inv_def)
  have sz: "i + n < 2 ^ 64" using i n cap by simp
  have nb: "(if ?L < size_add i n then size_sub ?L i else n) = ?k" using sz i cap by (auto simp: min_def)
  have cl: "(if ?L < size_add i n then 0 else size_sub ?L (size_add i n)) = ?L - (i + ?k)"
    using sz i cap by (auto simp: min_def)
  have mv: "move_bytes m i (size_add i ?k) (?L - (i + ?k)) = Some ?m"
    using y(1) b kk cap by (simp add: move_bytes_def)
  have N: "size_sub ?L ?k = ?N" "?N \<le> mb_length ?m" using cap by (auto intro: size_sub_small)
  obtain rc m1 where s: "membuffer_set_size al ?m ?N = (rc, m1)" by fastforce
  obtain m' where m': "store (m1\<lparr>mb_length := ?N\<rparr>) ?N [NUL] = Some m'" "mb_inv m'" "mb_str m' = take ?N (a @ c @ y)"
      "terminated m'"
    using truncate_ok [OF invm _ N(2) ok s] by auto
  have "membuffer_delete al m i n = Some m'"
    unfolding membuffer_delete_def Let_def nb cl using mv N(1) s shrink_ok [OF invm N(2) ok s] m'(1) False by simp
  moreover have "?N = length a + length c" using dec kk by arith
  then have "take ?N (a @ c @ y) = a @ c" by simp
  moreover have "mb_str m = a @ d @ c" using b dec kk by (simp add: mb_str_def)
  then have "a @ c = take i (mb_str m) @ drop (i + n) (mb_str m)"
    using dec kk by (auto simp: min_def)
  ultimately show ?thesis using m' by auto
qed

section \<open>The interface of a text buffer\<close>

text \<open>
  What the HTTP, SSDP, GENA and SOAP code relies on: a buffer that holds a string, with insertion and
  deletion that either do it or fail and leave the buffer alone. A client that ignores failures, as
  many do, still has a well-formed buffer; a client that checks them has the string it wrote.
\<close>

locale text_buffer =
  fixes inv :: "'m \<Rightarrow> bool" and str :: "'m \<Rightarrow> string"
    and insert :: "'e \<Rightarrow> 'm \<Rightarrow> string \<Rightarrow> nat \<Rightarrow> (int \<times> 'm) option"
    and delete :: "'e \<Rightarrow> 'm \<Rightarrow> nat \<Rightarrow> nat \<Rightarrow> 'm option"
    and good :: "'e \<Rightarrow> bool"
  assumes insert_ok: "inv m \<Longrightarrow> i \<le> length (str m) \<Longrightarrow> length s < 2 ^ 63 \<Longrightarrow>
      \<exists>rc m'. insert e m s i = Some (rc, m') \<and> inv m' \<and>
        (rc = 0 \<and> str m' = take i (str m) @ s @ drop i (str m) \<or> rc \<noteq> 0 \<and> str m' = str m)"
    and delete_ok: "inv m \<Longrightarrow> i \<le> length (str m) \<Longrightarrow> n < 2 ^ 63 \<Longrightarrow> good e \<Longrightarrow>
      \<exists>m'. delete e m i n = Some m' \<and> inv m' \<and> str m' = take i (str m) @ drop (i + n) (str m)"
begin

text \<open>Building a string from parts, stopping at the first failure.\<close>

fun append_all :: "'m \<Rightarrow> ('e \<times> string) list \<Rightarrow> (int \<times> 'm) option" where
  "append_all m [] = Some (0, m)"
| "append_all m ((e, s) # ps) =
     do { (rc, m') \<leftarrow> insert e m s (length (str m)); if rc \<noteq> 0 then Some (rc, m') else append_all m' ps }"

theorem append_all_ok:
  "inv m \<Longrightarrow> \<forall>(e, s) \<in> set ps. length s < 2 ^ 63 \<Longrightarrow>
   \<exists>rc m' k. append_all m ps = Some (rc, m') \<and> inv m' \<and> k \<le> length ps \<and>
     str m' = str m @ concat (map snd (take k ps)) \<and> (rc = 0 \<longleftrightarrow> k = length ps)"
proof (induction ps arbitrary: m)
  case (Cons p ps)
  obtain e s where p: "p = (e, s)" by fastforce
  have "length s < 2 ^ 63" using Cons.prems(2) p by auto
  then obtain rc m1 where i: "insert e m s (length (str m)) = Some (rc, m1)" "inv m1"
    "rc = 0 \<and> str m1 = str m @ s \<or> rc \<noteq> 0 \<and> str m1 = str m"
    using insert_ok [OF Cons.prems(1) order_refl, of s e] by auto
  show ?case
  proof (cases "rc = 0")
    case True
    obtain rc' m' k where r: "append_all m1 ps = Some (rc', m')" "inv m'" "k \<le> length ps"
        "str m' = str m1 @ concat (map snd (take k ps))" "rc' = 0 \<longleftrightarrow> k = length ps"
      using Cons.IH [OF i(2)] Cons.prems(2) by auto
    then show ?thesis using i True p by (intro exI [of _ rc'] exI [of _ m'] exI [of _ "Suc k"]) auto
  next
    case False
    then show ?thesis using i p by (intro exI [of _ rc] exI [of _ m1] exI [of _ 0]) auto
  qed
qed simp

text \<open>A deleted insertion leaves no trace.\<close>

lemma insert_delete:
  assumes "inv m" "i \<le> length (str m)" "length s < 2 ^ 63" "insert e m s i = Some (0, m')" "good e'"
  shows "\<exists>m2. delete e' m' i (length s) = Some m2 \<and> inv m2 \<and> str m2 = str m"
proof -
  have m': "inv m'" "str m' = take i (str m) @ s @ drop i (str m)"
    using insert_ok [OF assms(1-3), of e] assms(4) by auto
  then show ?thesis using delete_ok [of m' i "length s" e'] assms by auto
qed

end

definition put :: "allocator \<Rightarrow> membuffer \<Rightarrow> string \<Rightarrow> nat \<Rightarrow> (int \<times> membuffer) option" where
  "put al m s i = membuffer_insert al m (Some s) (length s) i"

interpretation mb: text_buffer mb_inv mb_str put membuffer_delete second_ok
proof unfold_locales
  fix m i s e
  assume "mb_inv m" "i \<le> length (mb_str m)" "length (s :: string) < 2 ^ 63"
  then show "\<exists>rc m'. put e m s i = Some (rc, m') \<and> mb_inv m' \<and>
        (rc = 0 \<and> mb_str m' = take i (mb_str m) @ s @ drop i (mb_str m) \<or> rc \<noteq> 0 \<and> mb_str m' = mb_str m)"
    using membuffer_insert_ok [of m i "length s" s e] by (auto simp: put_def mb_str_length)
next
  fix m i n and e :: allocator
  assume "mb_inv m" "i \<le> length (mb_str m)" "n < (2 :: nat) ^ 63" "second_ok e"
  then show "\<exists>m'. membuffer_delete e m i n = Some m' \<and> mb_inv m' \<and>
      mb_str m' = take i (mb_str m) @ drop (i + n) (mb_str m)"
    using membuffer_delete_ok [of m i n e] by (auto simp: mb_str_length)
qed

section \<open>Properties\<close>

text \<open>
  C24. \<open>membuffer_insert\<close> at a valid index never accesses memory outside its block, keeps the buffer
  well formed, and either inserts exactly the given bytes and terminates the string, or reports
  that memory is exhausted and leaves the buffer as it was.
\<close>

theorem membuffer_insert_correct:
  assumes "mb_inv m" "i \<le> mb_length m" "n \<le> length src" "n < 2 ^ 63"
  shows "\<exists>rc m'. membuffer_insert al m (Some src) n i = Some (rc, m') \<and> mb_inv m' \<and>
    (rc = 0 \<and> mb_str m' = take i (mb_str m) @ take n src @ drop i (mb_str m) \<and> (0 < n \<longrightarrow> terminated m') \<or>
     rc = UPNP_E_OUTOF_MEMORY \<and> m' = m)"
  using assms by (rule membuffer_insert_ok)

definition some_memory :: allocator where
  "some_memory = \<lparr>first_ok = True, second_ok = True, junk = (\<lambda>_. CHR ''?'')\<rparr>"

definition empty_buffer :: membuffer where
  "empty_buffer = \<lparr>mb_buf = None, mb_length = 0, mb_capacity = 0, size_inc = 5\<rparr>"

lemma empty_buffer_inv: "mb_inv empty_buffer" "mb_str empty_buffer = []" "mb_length empty_buffer = 0"
  by (simp_all add: empty_buffer_def mb_inv_def mb_str_def)

lemmas mb_evals = empty_buffer_def some_memory_def move_bytes_def memmove_def membuffer_set_size_def
  size_add_def size_sub_def realloc_def store_def block_write_def block_read_def mb_str_def terminated_def Let_def

theorem membuffer_insert_correct_witness:
  "\<exists>m'. membuffer_insert some_memory empty_buffer (Some ''abc'') 2 0 = Some (0, m') \<and> mb_str m' = ''ab'' \<and> terminated m'"
proof -
  have "map_option fst (membuffer_insert some_memory empty_buffer (Some ''abc'') 2 0) = Some 0"
    by (simp add: membuffer_insert_def mb_evals)
  then show ?thesis
    using membuffer_insert_correct [of empty_buffer 0 2 "''abc''" some_memory] empty_buffer_inv by auto
qed

text \<open>
  \<open>membuffer_delete\<close> from a valid index removes exactly the given bytes, clipped to the end of the
  contents, within its block, and keeps the buffer well formed and terminated (shrinking a block is
  assumed to succeed, as the code asserts).
\<close>

theorem membuffer_delete_correct:
  assumes "mb_inv m" "i \<le> mb_length m" "n < 2 ^ 63" "second_ok al"
  shows "\<exists>m'. membuffer_delete al m i n = Some m' \<and> mb_inv m' \<and>
    mb_str m' = take i (mb_str m) @ drop (i + n) (mb_str m) \<and> (mb_str m \<noteq> [] \<longrightarrow> terminated m')"
  using assms by (rule membuffer_delete_ok)

definition abc_buffer :: membuffer where
  "abc_buffer = \<lparr>mb_buf = Some (''abc'' @ [NUL]), mb_length = 3, mb_capacity = 3, size_inc = 5\<rparr>"

theorem membuffer_delete_correct_witness:
  "\<exists>m'. membuffer_delete some_memory abc_buffer 1 7 = Some m' \<and> mb_str m' = ''a'' \<and> terminated m'"
  using membuffer_delete_correct [of abc_buffer 1 7 some_memory]
  by (auto simp: abc_buffer_def some_memory_def mb_inv_def mb_str_def)

text \<open>
  C28. Building a string from parts with \<open>membuffer_append\<close>, stopping at the first error: the buffer
  holds the old contents and the parts written so far, all of them exactly if no error was
  reported. No hypothesis on the allocator: every pattern of failures is covered.
\<close>

theorem membuffer_build:
  assumes "mb_inv m" "\<forall>(al, s) \<in> set ps. length s < 2 ^ 63"
  shows "\<exists>rc m' k. mb.append_all m ps = Some (rc, m') \<and> mb_inv m' \<and> k \<le> length ps \<and>
     mb_str m' = mb_str m @ concat (map snd (take k ps)) \<and> (rc = 0 \<longleftrightarrow> k = length ps)"
  using assms by (rule mb.append_all_ok)

theorem membuffer_build_witness:
  "\<exists>rc m' k. mb.append_all empty_buffer [(some_memory, ''GET ''), (some_memory, ''/'')] = Some (rc, m') \<and>
     mb_str m' = concat (map snd (take k [(some_memory, ''GET ''), (some_memory, ''/'')])) \<and> (rc = 0 \<longleftrightarrow> k = Suc (Suc 0))"
  using membuffer_build [OF empty_buffer_inv(1), of "[(some_memory, ''GET ''), (some_memory, ''/'')]"]
    empty_buffer_inv(2) by (auto simp del: mb.append_all.simps)

text \<open>
  Assigning an empty string does not give an empty C string: the block keeps its old bytes
  without a terminator at the front (or there is no block at all), unlike every other assignment.
\<close>

theorem assign_empty_not_terminated:
  "membuffer_assign_str some_memory abc_buffer [] = Some (0, abc_buffer\<lparr>mb_length := 0\<rparr>) \<and>
   mb_str (abc_buffer\<lparr>mb_length := 0\<rparr>) = [] \<and> \<not> terminated (abc_buffer\<lparr>mb_length := 0\<rparr>)"
  by (simp add: membuffer_assign_str_def membuffer_assign_def abc_buffer_def mb_evals NUL_def)

text \<open>
  Deleting from an index behind the contents does not leave the buffer alone: the difference
  wraps around and the buffer grows to that index with bytes that were never written.
\<close>

theorem delete_behind_end_grows:
  "map_option (\<lambda>m. (mb_length m, mb_str m)) (membuffer_delete some_memory abc_buffer 6 1) =
     Some (6, ''abc'' @ [NUL] @ ''??'')"
  by (simp add: membuffer_delete_def abc_buffer_def mb_evals upt_rec)

end
