(* ===== verification/Http_Parser.thy ===== *)
theory Http_Parser
  imports Http_Scan_Props Mem_Buffer
begin

text \<open>
  The incremental HTTP message parser of \<^verbatim>\<open>upnp/src/genlib/net/http/httpparser.c\<close>. A parser holds the
  bytes received so far (the buffer its scanner reads), its position in the message and what it has
  extracted. Buffers are given by their contents, as \<^verbatim>\<open>membuffer.c\<close> provides them; \<open>mem\<close> lists the
  answers of the coming memory requests, an empty list meaning that all succeed. Pointers into the
  message are offsets. \<open>sscanf\<close> is modelled for the formats used.
\<close>

section \<open>Types\<close>

datatype parser_pos_t = POS_REQUEST_LINE | POS_RESPONSE_LINE | POS_HEADERS | POS_ENTITY | POS_COMPLETE

datatype ent_pos =
  ENTREAD_DETERMINE_READ_METHOD | ENTREAD_USING_CLEN | ENTREAD_USING_CHUNKED | ENTREAD_UNTIL_CLOSE
| ENTREAD_CHUNKY_BODY | ENTREAD_CHUNKY_HEADERS

record http_header_t =
  hdr_name :: string
  name_id :: int
  hdr_value :: string

record http_message_t =
  http_method :: http_method_t
  uri :: "uri_type option"
  request_method :: http_method_t
  status_code :: int
  status_msg :: string
  amount_discarded :: nat
  is_request :: bool
  major_version :: int
  minor_version :: int
  headers :: "http_header_t list"
  entity_buf :: "nat option"
  entity_length :: nat
  urlbuf :: "string option"

record http_parser_t = http_message_t +
  http_error_code :: int
  valid_ssdp_notify_hack :: bool
  position :: parser_pos_t
  ent_position :: ent_pos
  content_length :: nat
  chunk_size :: nat
  entity_start_position :: nat
  scanner :: scanner_t
  mem :: "bool list"

abbreviation (input) HTTP_BAD_REQUEST :: int where "HTTP_BAD_REQUEST \<equiv> 400"
abbreviation (input) HTTP_LENGTH_REQUIRED :: int where "HTTP_LENGTH_REQUIRED \<equiv> 411"
abbreviation (input) HTTP_INTERNAL_SERVER_ERROR :: int where "HTTP_INTERNAL_SERVER_ERROR \<equiv> 500"
abbreviation (input) HTTP_NOT_IMPLEMENTED :: int where "HTTP_NOT_IMPLEMENTED \<equiv> 501"
abbreviation (input) HTTP_HTTP_VERSION_NOT_SUPPORTED :: int where "HTTP_HTTP_VERSION_NOT_SUPPORTED \<equiv> 505"

definition raw_msg :: "http_parser_t \<Rightarrow> string" where
  "raw_msg p = sc_msg (scanner p)"

definition set_cursor :: "nat \<Rightarrow> http_parser_t \<Rightarrow> http_parser_t" where
  "set_cursor k p = p\<lparr>scanner := (scanner p)\<lparr>sc_cursor := k\<rparr>\<rparr>"

definition set_msg :: "string \<Rightarrow> http_parser_t \<Rightarrow> http_parser_t" where
  "set_msg s p = p\<lparr>scanner := (scanner p)\<lparr>sc_msg := s\<rparr>\<rparr>"

section \<open>Memory\<close>

text \<open>The answer to the next memory request, and to \<open>n\<close> requests of which the first failure is final.\<close>

definition ask :: "http_parser_t \<Rightarrow> bool \<times> http_parser_t" where
  "ask p = (case mem p of [] \<Rightarrow> (True, p) | b # bs \<Rightarrow> (b, p\<lparr>mem := bs\<rparr>))"

fun asks :: "nat \<Rightarrow> http_parser_t \<Rightarrow> bool \<times> http_parser_t" where
  "asks 0 p = (True, p)"
| "asks (Suc n) p = (let (ok, p1) = ask p in if ok then asks n p1 else (False, p1))"

section \<open>Initialisation\<close>

text \<open>\<open>parser_init\<close> clears the structure, so the methods are those with the value 0.\<close>

definition httpmsg_init :: http_message_t where
  "httpmsg_init =
     \<lparr>http_method = HTTPMETHOD_PUT, uri = None, request_method = HTTPMETHOD_PUT, status_code = 0,
      status_msg = [], amount_discarded = 0, is_request = False, major_version = 0, minor_version = 0,
      headers = [], entity_buf = None, entity_length = 0, urlbuf = None\<rparr>"

definition parser_init :: "bool list \<Rightarrow> http_parser_t" where
  "parser_init answers =
     http_message_t.extend httpmsg_init
       (http_parser_t.fields HTTP_BAD_REQUEST False POS_REQUEST_LINE ENTREAD_DETERMINE_READ_METHOD 0 0 0
          (scanner_init []) answers)"

definition parser_request_init :: "bool list \<Rightarrow> http_parser_t" where
  "parser_request_init answers = (parser_init answers)\<lparr>is_request := True, position := POS_REQUEST_LINE\<rparr>"

definition parser_response_init :: "bool list \<Rightarrow> http_method_t \<Rightarrow> http_parser_t" where
  "parser_response_init answers rm =
     (parser_init answers)\<lparr>is_request := False, request_method := rm, amount_discarded := 0, position := POS_RESPONSE_LINE\<rparr>"

section \<open>Headers\<close>

fun find_idx :: "('a \<Rightarrow> bool) \<Rightarrow> 'a list \<Rightarrow> nat option" where
  "find_idx P [] = None"
| "find_idx P (x # xs) = (if P x then Some 0 else map_option Suc (find_idx P xs))"

text \<open>A found header is given by its index in the list.\<close>

definition httpmsg_find_hdr_str :: "http_header_t list \<Rightarrow> string \<Rightarrow> nat option" where
  "httpmsg_find_hdr_str hs header_name =
     find_idx (\<lambda>h. memptr_cmp_nocase \<lparr>mp_buf = hdr_name h, mp_length = length (hdr_name h)\<rparr> header_name = 0) hs"

definition httpmsg_find_hdr :: "http_header_t list \<Rightarrow> int \<Rightarrow> nat option" where
  "httpmsg_find_hdr hs header_name_id = find_idx (\<lambda>h. name_id h = header_name_id) hs"

definition add_header :: "http_parser_t \<Rightarrow> string \<Rightarrow> int \<Rightarrow> string \<Rightarrow> bool \<times> http_parser_t" where
  "add_header p name header_id value =
     (let (ok, p1) = asks 4 p in
      if \<not> ok then (False, p1\<lparr>http_error_code := HTTP_INTERNAL_SERVER_ERROR\<rparr>)
      else (True, p1\<lparr>headers := headers p1 @
              [\<lparr>hdr_name = name, name_id = header_id, hdr_value = (if value = [] then [NUL] else value)\<rparr>]\<rparr>))"

definition append_header :: "http_parser_t \<Rightarrow> nat \<Rightarrow> string \<Rightarrow> bool \<times> http_parser_t" where
  "append_header p i value =
     (let (ok1, p1) = ask p; (ok2, p2) = ask p1;
          h = headers p2 ! i;
          v = hdr_value h @ (if ok1 then '', '' else []) @ (if ok2 then value else []);
          p3 = p2\<lparr>headers := (headers p2)[i := h\<lparr>hdr_value := v\<rparr>]\<rparr>
      in if \<not> ok1 \<or> \<not> ok2 then (False, p3\<lparr>http_error_code := HTTP_INTERNAL_SERVER_ERROR\<rparr>) else (True, p3))"

text \<open>Name and value of a header line are stored; the name table decides under which id.\<close>

definition header_index :: "http_parser_t \<Rightarrow> mem_ref \<Rightarrow> int" where
  "header_index p token =
     map_str_to_int (drop (fst token) (raw_msg p)) (snd token) Http_Header_Names NUM_HTTP_HEADER_NAMES False"

definition index_id :: "int \<Rightarrow> int" where
  "index_id index = (if index \<noteq> -1 then snd (Http_Header_Names ! nat index) else HDR_UNKNOWN)"

definition note_soap :: "int \<Rightarrow> http_parser_t \<Rightarrow> http_parser_t" where
  "note_soap index p = (if index_id index = HDR_SOAPACTION then p\<lparr>http_method := SOAPMETHOD_POST\<rparr> else p)"

definition find_header :: "http_header_t list \<Rightarrow> int \<Rightarrow> string \<Rightarrow> nat option" where
  "find_header hs index name =
     (if index \<noteq> -1 then httpmsg_find_hdr hs (index_id index) else httpmsg_find_hdr_str hs name)"

definition store_header :: "http_parser_t \<Rightarrow> mem_ref \<Rightarrow> mem_ref \<Rightarrow> bool \<times> http_parser_t" where
  "store_header p token val =
     (let name = ref_str (raw_msg p) token; value = ref_str (raw_msg p) val;
          index = header_index p token; p1 = note_soap index p
      in case find_header (headers p1) index name of
           None \<Rightarrow> add_header p1 name (index_id index) value
         | Some i \<Rightarrow> if value \<noteq> [] then append_header p1 i value else (True, p1))"

definition fst_str :: "match_out list \<Rightarrow> mem_ref" where
  "fst_str outs = (case outs of OutStr r # _ \<Rightarrow> r | _ \<Rightarrow> (0, 0))"

text \<open>One round of the loop: \<open>Inl\<close> is a return, \<open>Inr\<close> another round.\<close>

definition header_step :: "net_env \<Rightarrow> http_parser_t \<Rightarrow> (parse_status_t \<times> http_parser_t) + http_parser_t" where
  "header_step env p =
     (let save_pos = sc_cursor (scanner p) in
      case scanner_get_token (scanner p) of
        Inl status \<Rightarrow> Inl (status, set_cursor save_pos p)
      | Inr (token, tok_type, sc1) \<Rightarrow>
          if tok_type = TT_CRLF then
            (if is_request p \<and> http_method p = HTTPMETHOD_POST
             then Inl (PARSE_SUCCESS, p\<lparr>scanner := sc1, position := POS_COMPLETE\<rparr>)
             else Inl (PARSE_OK, p\<lparr>scanner := sc1, position := POS_ENTITY\<rparr>))
          else if tok_type \<noteq> TT_IDENTIFIER then Inl (PARSE_FAILURE, p\<lparr>scanner := sc1\<rparr>)
          else
            (case match_fmt env sc1 '' : %R%c'' of (status, outs, sc2) \<Rightarrow>
               if status \<noteq> PARSE_OK then Inl (status, set_cursor save_pos (p\<lparr>scanner := sc2\<rparr>))
               else
                 (case store_header (p\<lparr>scanner := sc2\<rparr>) token (fst_str outs) of (ok, p1) \<Rightarrow>
                    if ok then Inr p1 else Inl (PARSE_FAILURE, p1))))"

text \<open>Storing a header does not move the scanner or change the position, so every round consumes input.\<close>

definition keeps :: "http_parser_t \<Rightarrow> http_parser_t \<Rightarrow> bool" where
  "keeps p q \<longleftrightarrow> scanner q = scanner p \<and> position q = position p \<and> ent_position q = ent_position p \<and>
     chunk_size q = chunk_size p \<and> content_length q = content_length p \<and> is_request q = is_request p \<and>
     entity_start_position q = entity_start_position p \<and> entity_length q = entity_length p \<and>
     amount_discarded q = amount_discarded p"

lemma keeps_refl: "keeps p p" and keeps_trans: "keeps p q \<Longrightarrow> keeps q r \<Longrightarrow> keeps p r"
  by (simp_all add: keeps_def)

lemma ask_keeps: "keeps p (snd (ask p))"
  by (simp add: ask_def keeps_def split: list.splits)

lemma asks_keeps: "keeps p (snd (asks n p))"
proof (induction n arbitrary: p)
  case (Suc n)
  then show ?case using ask_keeps [of p] keeps_trans by (cases "ask p") auto
qed (simp add: keeps_refl)

lemma add_header_keeps: "keeps p (snd (add_header p n i v))"
  using asks_keeps [of p 4] by (cases "asks 4 p") (simp add: add_header_def keeps_def)

lemma append_header_keeps: "keeps p (snd (append_header p i v))"
proof -
  obtain o1 p1 where 1: "ask p = (o1, p1)" by fastforce
  obtain o2 p2 where 2: "ask p1 = (o2, p2)" by fastforce
  show ?thesis
    using ask_keeps [of p] ask_keeps [of p1] by (simp add: append_header_def 1 2 Let_def keeps_def)
qed

lemma note_soap_keeps: "keeps p (note_soap i p)"
  by (simp add: note_soap_def keeps_def)

lemma store_header_keeps: "keeps p (snd (store_header p t v))"
  using keeps_trans [OF note_soap_keeps add_header_keeps] keeps_trans [OF note_soap_keeps append_header_keeps]
    note_soap_keeps
  by (auto simp: store_header_def Let_def split: option.split)

lemma store_header_scanner: "scanner (snd (store_header p t v)) = scanner p"
  using store_header_keeps by (simp add: keeps_def)

lemma header_fmt_open: "open_fmt '' : %R%c''"
  by (simp add: open_option_def)

lemma match_framed:
  "open_fmt fmt \<Longrightarrow> match_fmt env sc fmt = (st, outs, sc') \<Longrightarrow> sc_cursor sc \<le> length (sc_msg sc) \<Longrightarrow> framed sc sc'"
  using incremental.frame [OF vfmatch_incremental] by (simp add: match_fmt_def)

lemma header_step_progress:
  assumes "header_step env p = Inr p1"
  shows "framed (scanner p) (scanner p1)" "sc_cursor (scanner p) < sc_cursor (scanner p1)"
proof -
  obtain t ty sc1 where t: "scanner_get_token (scanner p) = Inr (t, ty, sc1)" "framed (scanner p) sc1"
    using assms by (cases "scanner p" rule: get_token_cases) (auto simp: header_step_def Let_def)
  obtain st outs sc2 where m: "match_fmt env sc1 '' : %R%c'' = (st, outs, sc2)" by (metis prod_cases3)
  have "scanner p1 = sc2"
    using assms store_header_scanner [of "p\<lparr>scanner := sc2\<rparr>" t "fst_str outs"]
    by (auto simp: header_step_def Let_def t(1) m split: if_splits prod.splits)
  moreover have "framed sc1 sc2" by (rule match_framed [OF header_fmt_open m framed_bound [OF t(2)]])
  ultimately show "framed (scanner p) (scanner p1)" "sc_cursor (scanner p) < sc_cursor (scanner p1)"
    using framed_trans [OF t(2)] scanner_get_token_bounds [OF t(1)] by (auto simp: framed_def)
qed

lemma header_step_keeps:
  assumes "header_step env p = Inr p1"
  shows "keeps (p\<lparr>scanner := scanner p1\<rparr>) p1"
proof -
  obtain t ty sc1 where t: "scanner_get_token (scanner p) = Inr (t, ty, sc1)"
    using assms by (cases "scanner p" rule: get_token_cases) (auto simp: header_step_def Let_def)
  obtain st outs sc2 where m: "match_fmt env sc1 '' : %R%c'' = (st, outs, sc2)" by (metis prod_cases3)
  have "p1 = snd (store_header (p\<lparr>scanner := sc2\<rparr>) t (fst_str outs))"
    using assms by (auto simp: header_step_def Let_def t m split: if_splits prod.splits)
  then show ?thesis
    using store_header_keeps [of "p\<lparr>scanner := sc2\<rparr>" t "fst_str outs"] by (simp add: keeps_def)
qed

function parser_parse_headers :: "net_env \<Rightarrow> http_parser_t \<Rightarrow> parse_status_t \<times> http_parser_t" where
  "parser_parse_headers env p =
     (case header_step env p of Inl r \<Rightarrow> r | Inr p1 \<Rightarrow> parser_parse_headers env p1)"
  by pat_completeness auto
termination
proof (relation "measure (\<lambda>(env, p). left (scanner p))")
  fix env p p1
  assume "header_step env p = Inr p1"
  from header_step_progress [OF this]
  show "((env, p1), env, p) \<in> measure (\<lambda>(env, p). left (scanner p))" by (auto simp: framed_def)
qed simp

declare parser_parse_headers.simps [simp del]

section \<open>Start lines\<close>

fun skip_slashes :: "string \<Rightarrow> string" where
  "skip_slashes (a # b # r) = (if a = CHR ''/'' \<and> b = CHR ''/'' then skip_slashes (b # r) else a # b # r)"
| "skip_slashes s = s"

text \<open>\<open>sscanf\<close> for formats of \<open>%d\<close>, blanks and literal characters: the numbers it stores.\<close>

fun sscanf :: "string \<Rightarrow> string \<Rightarrow> int list" where
  "sscanf [] s = []"
| "sscanf [c] s = []"
| "sscanf (c # d # fmt) s =
     (if c = CHR ''%'' then
        (case strtol s 10 of (v, n, _) \<Rightarrow> if n = 0 then [] else to_int32 v # sscanf fmt (drop n s))
      else if c = CHR '' '' then sscanf (d # fmt) (dropWhile isspace s)
      else (case s of [] \<Rightarrow> [] | x # s' \<Rightarrow> if x = c then sscanf (d # fmt) s' else []))"

declare sscanf.simps [simp del]

definition c_str :: "string \<Rightarrow> string" where
  "c_str s = takeWhile (\<lambda>c. c \<noteq> NUL) s"

definition url_fmt :: string where
  "url_fmt = ''%s'' @ TAB # ''%S%w%c''"

definition request_fmt :: string where
  "request_fmt = ''%s'' @ TAB # ''%S'' @ TAB # ''%ihttp%w/%w%L%c''"

definition find_method :: "http_parser_t \<Rightarrow> mem_ref \<Rightarrow> int" where
  "find_method p r = map_str_to_int (drop (fst r) (raw_msg p)) (snd r) Http_Method_Table NUM_HTTP_METHODS True"

text \<open>Storing and parsing the URL; \<open>Inl\<close> is a failure.\<close>

definition store_url :: "net_env \<Rightarrow> http_parser_t \<Rightarrow> mem_ref \<Rightarrow> (parse_status_t \<times> http_parser_t) + http_parser_t" where
  "store_url env p r =
     (let url = skip_slashes (ref_str (raw_msg p) r); (ok, p1) = ask p in
      if \<not> ok then Inl (PARSE_FAILURE, p1\<lparr>urlbuf := None, http_error_code := HTTP_INTERNAL_SERVER_ERROR\<rparr>)
      else
        (case parse_uri env url (length url) of (stat, u) \<Rightarrow>
           if stat \<noteq> HTTP_SUCCESS then Inl (PARSE_FAILURE, p1\<lparr>urlbuf := Some url\<rparr>)
           else Inr (p1\<lparr>urlbuf := Some url, uri := u\<rparr>)))"

definition set_versions :: "int list \<Rightarrow> http_parser_t \<Rightarrow> http_parser_t" where
  "set_versions vs p = p\<lparr>major_version := (if vs \<noteq> [] then vs ! 0 else major_version p),
     minor_version := (if 2 \<le> length vs then vs ! 1 else minor_version p)\<rparr>"

text \<open>HTTP 0.9: a method and a URL only.\<close>

definition simple_request :: "net_env \<Rightarrow> http_parser_t \<Rightarrow> match_out list \<Rightarrow> parse_status_t \<times> http_parser_t" where
  "simple_request env p outs =
     (case outs of [OutStr method_str, OutStr url_str] \<Rightarrow>
        let index = find_method p method_str in
        if index < 0 then (PARSE_FAILURE, p\<lparr>http_error_code := HTTP_NOT_IMPLEMENTED\<rparr>)
        else if snd (Http_Method_Table ! nat index) \<noteq> method_id HTTPMETHOD_GET
        then (PARSE_FAILURE, p\<lparr>http_error_code := HTTP_BAD_REQUEST\<rparr>)
        else
          (case store_url env (p\<lparr>http_method := HTTPMETHOD_SIMPLEGET\<rparr>) url_str of
             Inl r \<Rightarrow> r
           | Inr p1 \<Rightarrow> (PARSE_SUCCESS, p1\<lparr>position := POS_COMPLETE\<rparr>))
      | _ \<Rightarrow> (PARSE_FAILURE, p))"

definition full_request :: "net_env \<Rightarrow> http_parser_t \<Rightarrow> match_out list \<Rightarrow> parse_status_t \<times> http_parser_t" where
  "full_request env p outs =
     (case outs of [OutStr method_str, OutStr url_str, OutStr version_str] \<Rightarrow>
        (case store_url env p url_str of
           Inl r \<Rightarrow> r
         | Inr p1 \<Rightarrow>
             let index = find_method p1 method_str in
             if index < 0 then (PARSE_FAILURE, p1\<lparr>http_error_code := HTTP_NOT_IMPLEMENTED\<rparr>)
             else
               let vs = sscanf ''%d . %d'' (c_str (ref_str (raw_msg p1) version_str)); p2 = set_versions vs p1 in
               if length vs \<noteq> 2 \<or> major_version p2 < 0 \<or>
                  (major_version p2 = 1 \<and> minor_version p2 < 1 \<and>
                   snd (Http_Method_Table ! nat index) = method_id HTTPMETHOD_MSEARCH)
               then (PARSE_FAILURE, p2\<lparr>http_error_code := HTTP_HTTP_VERSION_NOT_SUPPORTED\<rparr>)
               else (PARSE_OK, p2\<lparr>http_method := method_of_id (snd (Http_Method_Table ! nat index)), position := POS_HEADERS\<rparr>))
      | _ \<Rightarrow> (PARSE_FAILURE, p))"

definition parser_parse_requestline :: "net_env \<Rightarrow> http_parser_t \<Rightarrow> parse_status_t \<times> http_parser_t" where
  "parser_parse_requestline env p =
     (case skip_blank_lines (scanner p) of (status, sc1) \<Rightarrow>
        if status \<noteq> PARSE_OK then (status, p\<lparr>scanner := sc1\<rparr>)
        else
          (case match_fmt env sc1 url_fmt of (status1, outs1, sc2) \<Rightarrow>
             if status1 = PARSE_OK then simple_request env (p\<lparr>scanner := sc2\<rparr>) outs1
             else
               (case match_fmt env sc2 request_fmt of (status2, outs2, sc3) \<Rightarrow>
                  if status2 \<noteq> PARSE_OK then (status2, p\<lparr>scanner := sc3\<rparr>)
                  else full_request env (p\<lparr>scanner := sc3\<rparr>) outs2)))"

text \<open>The status text behind three numbers; the characters are read from the message.\<close>

fun skip_ints :: "nat \<Rightarrow> string \<Rightarrow> string" where
  "skip_ints 0 s = s"
| "skip_ints (Suc n) s = skip_ints n (dropWhile isdigit (dropWhile (\<lambda>c. \<not> isdigit c) s))"

definition response_line :: "http_parser_t \<Rightarrow> mem_ref \<Rightarrow> parse_status_t \<times> http_parser_t" where
  "response_line p line =
     (let vs = sscanf ''%d . %d %d'' (c_str (ref_str (raw_msg p) line));
          p1 = set_versions vs p;
          p2 = p1\<lparr>status_code := (if 3 \<le> length vs then vs ! 2 else status_code p1)\<rparr> in
      if length vs \<noteq> 3 \<or> major_version p2 < 0 \<or> minor_version p2 < 0 \<or> status_code p2 < 0
      then (PARSE_FAILURE, p2)
      else
        let buf = drop (fst line) (raw_msg p) @ [NUL]; r = skip_ints 3 buf in
        if r = [] \<or> \<not> is_ws (hd r) then (PARSE_FAILURE, p2)
        else
          let msg = dropWhile (\<lambda>c. is_ws c) r; n = snd line - (length buf - length msg); (ok, p3) = ask p2 in
          if \<not> ok then (PARSE_FAILURE, p3\<lparr>http_error_code := HTTP_INTERNAL_SERVER_ERROR\<rparr>)
          else (PARSE_OK, p3\<lparr>status_msg := take n msg, position := POS_HEADERS\<rparr>))"

definition parser_parse_responseline :: "net_env \<Rightarrow> http_parser_t \<Rightarrow> parse_status_t \<times> http_parser_t" where
  "parser_parse_responseline env p =
     (case skip_blank_lines (scanner p) of (status, sc1) \<Rightarrow>
        if status \<noteq> PARSE_OK then (status, p\<lparr>scanner := sc1\<rparr>)
        else
          (case match_fmt env sc1 ''%ihttp%w/%w%L%c'' of (status1, outs, sc2) \<Rightarrow>
             if status1 \<noteq> PARSE_OK then (status1, p\<lparr>scanner := sc2\<rparr>)
             else response_line (p\<lparr>scanner := sc2\<rparr>) (fst_str outs)))"

section \<open>Header values\<close>

definition raw_to_int :: "string \<Rightarrow> nat \<Rightarrow> int" where
  "raw_to_int raw_value base =
     (if raw_value = [] then -1
      else
        (case strtol raw_value base of (num, used, clamped) \<Rightarrow>
           if num < 0 \<or> used \<noteq> length raw_value \<or> ((num = - (2 ^ 63) \<or> num = 2 ^ 63 - 1) \<and> clamped)
           then -1 else to_int32 num))"

fun strstr :: "string \<Rightarrow> string \<Rightarrow> nat option" where
  "strstr [] needle = (if needle = [] then Some 0 else None)"
| "strstr (c # s) needle =
     (if take (length needle) (c # s) = needle then Some 0 else map_option Suc (strstr s needle))"

text \<open>The search turns the value, up to a NUL, into lower case in place.\<close>

definition raw_find_str :: "string \<Rightarrow> string \<Rightarrow> int \<times> string" where
  "raw_find_str raw_value str =
     (let text = map tolower (c_str raw_value)
      in (case strstr text str of None \<Rightarrow> -1 | Some i \<Rightarrow> int i, text @ drop (length text) raw_value))"

section \<open>The entity\<close>

text \<open>Removing bytes of the message, as \<open>membuffer_delete\<close> does inside the contents.\<close>

definition msg_delete :: "nat \<Rightarrow> nat \<Rightarrow> http_parser_t \<Rightarrow> http_parser_t" where
  "msg_delete i n p = set_msg (take i (raw_msg p) @ drop (i + n) (raw_msg p)) p"

definition parser_parse_entity_using_clen :: "http_parser_t \<Rightarrow> parse_status_t \<times> http_parser_t" where
  "parser_parse_entity_using_clen p =
     (let len = length (raw_msg p) + amount_discarded p - entity_start_position p in
      if len < content_length p then (PARSE_INCOMPLETE, p\<lparr>entity_length := len\<rparr>)
      else
        let p1 = (if content_length p < len
                  then set_msg ((raw_msg p)[entity_start_position p + content_length p - amount_discarded p := NUL]) p
                  else p)
        in (PARSE_SUCCESS, p1\<lparr>entity_length := content_length p, entity_buf := Some (entity_start_position p),
              position := POS_COMPLETE\<rparr>))"

definition parser_parse_chunky_body :: "net_env \<Rightarrow> http_parser_t \<Rightarrow> parse_status_t \<times> http_parser_t" where
  "parser_parse_chunky_body env p =
     (let cur = sc_cursor (scanner p) in
      if chunk_size p \<le> length (raw_msg p) - cur then
        let p1 = set_cursor (cur + chunk_size p) p; save_pos = sc_cursor (scanner p1) in
        (case match_fmt env (scanner p1) ''%c'' of (status, _, sc2) \<Rightarrow>
           if status \<noteq> PARSE_OK then (status, set_cursor (sc_cursor sc2 - chunk_size p) (p1\<lparr>scanner := sc2\<rparr>))
           else
             let p2 = set_cursor save_pos (msg_delete save_pos (sc_cursor sc2 - save_pos) (p1\<lparr>scanner := sc2\<rparr>))
             in (PARSE_CONTINUE_1, p2\<lparr>entity_length := entity_length p2 + chunk_size p, ent_position := ENTREAD_USING_CHUNKED\<rparr>))
      else (PARSE_INCOMPLETE, p))"

definition parser_parse_chunky_headers :: "net_env \<Rightarrow> http_parser_t \<Rightarrow> parse_status_t \<times> http_parser_t" where
  "parser_parse_chunky_headers env p =
     (let save_pos = sc_cursor (scanner p) in
      case parser_parse_headers env p of (status, p1) \<Rightarrow>
        if status = PARSE_OK then
          let p2 = set_cursor save_pos (msg_delete save_pos (sc_cursor (scanner p1) - save_pos) (p1\<lparr>position := POS_COMPLETE\<rparr>))
          in (PARSE_SUCCESS, p2\<lparr>entity_buf := Some (entity_start_position p2)\<rparr>)
        else (status, p1))"

text \<open>
  The size is a \<open>size_t\<close> but is stored through an \<open>int\<close> pointer: its lower half gets the bits of
  the \<open>int\<close>, its upper half keeps what it had.
\<close>

definition store_chunk_size :: "match_out list \<Rightarrow> http_parser_t \<Rightarrow> http_parser_t" where
  "store_chunk_size outs p =
     (case outs of OutInt v # _ \<Rightarrow> p\<lparr>chunk_size := chunk_size p div 2 ^ 32 * 2 ^ 32 + nat (v mod 2 ^ 32)\<rparr> | _ \<Rightarrow> p)"

definition parser_parse_chunky_entity :: "net_env \<Rightarrow> http_parser_t \<Rightarrow> parse_status_t \<times> http_parser_t" where
  "parser_parse_chunky_entity env p =
     (let save_pos = sc_cursor (scanner p) in
      case match_fmt env (scanner p) ''%x%L%c'' of (status, outs, sc1) \<Rightarrow>
        let p1 = store_chunk_size outs (p\<lparr>scanner := sc1\<rparr>) in
        if status \<noteq> PARSE_OK then (status, set_cursor save_pos p1)
        else
          let p2 = set_cursor save_pos (msg_delete save_pos (sc_cursor sc1 - save_pos) p1) in
          if chunk_size p2 = 0
          then (PARSE_CONTINUE_1,
                p2\<lparr>entity_length := save_pos + amount_discarded p2 - entity_start_position p2,
                   ent_position := ENTREAD_CHUNKY_HEADERS\<rparr>)
          else (PARSE_CONTINUE_1, p2\<lparr>ent_position := ENTREAD_CHUNKY_BODY\<rparr>))"

definition parser_parse_entity_until_close :: "http_parser_t \<Rightarrow> parse_status_t \<times> http_parser_t" where
  "parser_parse_entity_until_close p =
     (let cur = length (raw_msg p) in
      (PARSE_INCOMPLETE_ENTITY,
       set_cursor cur (p\<lparr>entity_length := cur + amount_discarded p - entity_start_position p,
                         entity_buf := Some (entity_start_position p)\<rparr>)))"

definition no_body_request :: "http_method_t \<Rightarrow> bool" where
  "no_body_request x \<longleftrightarrow> x \<in> {HTTPMETHOD_HEAD, HTTPMETHOD_GET, HTTPMETHOD_SUBSCRIBE, HTTPMETHOD_UNSUBSCRIBE, HTTPMETHOD_MSEARCH}"

definition no_body_response :: "int \<Rightarrow> http_method_t \<Rightarrow> bool" where
  "no_body_response code rm \<longleftrightarrow>
     code = 204 \<or> code = 304 \<or> (100 \<le> code \<and> code \<le> 199) \<or>
     rm \<in> {HTTPMETHOD_HEAD, HTTPMETHOD_MSEARCH, HTTPMETHOD_SUBSCRIBE, HTTPMETHOD_UNSUBSCRIBE, HTTPMETHOD_NOTIFY}"

definition parser_get_entity_read_method :: "http_parser_t \<Rightarrow> parse_status_t \<times> http_parser_t" where
  "parser_get_entity_read_method p0 =
     (let cur = sc_cursor (scanner p0);
          p = p0\<lparr>entity_buf := Some cur, entity_length := 0, entity_start_position := cur\<rparr> in
      if (if is_request p then no_body_request (http_method p) else no_body_response (status_code p) (request_method p))
      then (PARSE_SUCCESS, p\<lparr>position := POS_COMPLETE\<rparr>)
      else
        let te = httpmsg_find_hdr (headers p) HDR_TRANSFER_ENCODING;
            (found, p1) =
              (case te of None \<Rightarrow> (False, p)
               | Some i \<Rightarrow>
                   let (k, v) = raw_find_str (hdr_value (headers p ! i)) ''chunked''
                   in (0 \<le> k, p\<lparr>headers := (headers p)[i := (headers p ! i)\<lparr>hdr_value := v\<rparr>]\<rparr>))
        in
        if found then (PARSE_CONTINUE_1, p1\<lparr>ent_position := ENTREAD_USING_CHUNKED\<rparr>)
        else
          (case httpmsg_find_hdr (headers p1) HDR_CONTENT_LENGTH of
             Some i \<Rightarrow>
               (PARSE_CONTINUE_1,
                p1\<lparr>content_length := nat (raw_to_int (hdr_value (headers p1 ! i)) 10 mod 2 ^ 32),
                   ent_position := ENTREAD_USING_CLEN\<rparr>)
           | None \<Rightarrow>
               if is_request p1 then
                 (PARSE_FAILURE,
                  p1\<lparr>valid_ssdp_notify_hack := (http_method p1 = HTTPMETHOD_NOTIFY \<or> valid_ssdp_notify_hack p1),
                     http_error_code := HTTP_LENGTH_REQUIRED\<rparr>)
               else (PARSE_CONTINUE_1, p1\<lparr>ent_position := ENTREAD_UNTIL_CLOSE\<rparr>)))"

definition entity_step :: "net_env \<Rightarrow> http_parser_t \<Rightarrow> parse_status_t \<times> http_parser_t" where
  "entity_step env p =
     (case ent_position p of
        ENTREAD_USING_CLEN \<Rightarrow> parser_parse_entity_using_clen p
      | ENTREAD_USING_CHUNKED \<Rightarrow> parser_parse_chunky_entity env p
      | ENTREAD_CHUNKY_BODY \<Rightarrow> parser_parse_chunky_body env p
      | ENTREAD_CHUNKY_HEADERS \<Rightarrow> parser_parse_chunky_headers env p
      | ENTREAD_UNTIL_CLOSE \<Rightarrow> parser_parse_entity_until_close p
      | ENTREAD_DETERMINE_READ_METHOD \<Rightarrow> parser_get_entity_read_method p)"

subsection \<open>Every round of the entity loop makes progress\<close>

lemma CRLF_chars [simp]: "\<not> isdigit CR" "\<not> isdigit LF" "CR \<noteq> CHR '' ''" "CR \<noteq> TAB" "LF \<noteq> CHR '' ''" "LF \<noteq> TAB"
  "\<not> isdigit NUL"
  by (simp_all add: CR_def LF_def TAB_def NUL_def isdigit_def byte_of_def)

lemma cursor_msg_simps [simp]:
  "sc_cursor (scanner (set_cursor k p)) = k" "sc_msg (scanner (set_cursor k p)) = raw_msg p"
  "raw_msg (set_cursor k p) = raw_msg p" "raw_msg (set_msg m p) = m"
  "sc_cursor (scanner (set_msg m p)) = sc_cursor (scanner p)" "sc_msg (scanner (set_msg m p)) = m"
  "entire_msg_loaded (scanner (set_cursor k p)) = entire_msg_loaded (scanner p)"
  "entire_msg_loaded (scanner (set_msg m p)) = entire_msg_loaded (scanner p)"
  by (simp_all add: set_cursor_def set_msg_def raw_msg_def)

lemma header_step_status: "header_step env p = Inl (st, p1) \<Longrightarrow> st \<noteq> PARSE_CONTINUE_1"
proof (cases "scanner p" rule: get_token_cases)
  case (error s)
  then show "header_step env p = Inl (st, p1) \<Longrightarrow> st \<noteq> PARSE_CONTINUE_1"
    using get_token_status [OF error] by (auto simp: header_step_def Let_def)
next
  case (token t ty sc1)
  then show "header_step env p = Inl (st, p1) \<Longrightarrow> st \<noteq> PARSE_CONTINUE_1"
    using incremental.status [OF vfmatch_incremental [OF header_fmt_open], of env sc1]
    by (auto simp: header_step_def Let_def match_fmt_def split: prod.splits if_splits)
qed

lemma parse_headers_status: "fst (parser_parse_headers env p) \<noteq> PARSE_CONTINUE_1"
proof (induction env p rule: parser_parse_headers.induct)
  case (1 env p)
  then show ?case by (subst parser_parse_headers.simps) (auto simp: header_step_status split: sum.split)
qed

lemma entity_fmts_open: "open_fmt ''%x%L%c''" "open_fmt ''%c''" "open_fmt ''%L%c''"
  by (simp_all add: open_option_def)

lemma match_crlf:
  "match_fmt env sc ''%c'' = (case expect_token sc TT_CRLF of (st, t, sc') \<Rightarrow>
     (st, [], if st = PARSE_OK then sc' else sc'\<lparr>sc_cursor := sc_cursor sc\<rparr>))"
  by (auto simp: match_fmt_def vfmatch_def match_option_def split: prod.splits)

lemma match_crlf_ok:
  assumes "match_fmt env sc ''%c'' = (PARSE_OK, outs, sc')"
  obtains t where "scanner_get_token sc = Inr (t, TT_CRLF, sc')"
  using assms by (auto simp: match_crlf expect_token_def split: sum.splits prod.splits if_splits)

lemma match_chunk_progress:
  assumes "match_fmt env sc ''%x%L%c'' = (PARSE_OK, outs, sc')"
  shows "framed sc sc'" "sc_cursor sc < sc_cursor sc'"
proof -
  have "vfmatch_loop env ''%x%L%c'' True sc = (PARSE_OK, outs, sc')"
    using assms by (auto simp: match_fmt_def vfmatch_def split: prod.splits if_splits)
  then obtain o1 sc1 o2 where 1: "match_option env (CHR ''x'') True sc = (PARSE_OK, o1, sc1)"
    and 2: "vfmatch_loop env ''%L%c'' True sc1 = (PARSE_OK, o2, sc')"
    by (auto simp: next_case_def split: prod.splits if_splits)
  obtain t ty where t: "scanner_get_token sc = Inr (t, ty, sc1)"
    using 1 by (cases sc rule: get_token_cases)
      (auto simp: match_option_simps out_int_def match_int_def Let_def split: prod.splits if_splits)
  note b = scanner_get_token_bounds [OF t]
  have f: "framed sc1 sc'" using incremental.frame [OF vfmatch_loop_incremental [OF entity_fmts_open(3)] 2] b by simp
  show "framed sc sc'" by (rule framed_trans [OF get_token_framed [OF t] f])
  show "sc_cursor sc < sc_cursor sc'" using b f by (simp add: framed_def)
qed

text \<open>Removing what a step has read: the unread part stays.\<close>

lemma left_after_delete:
  assumes "sc_cursor sc1 \<le> length (sc_msg sc1)" "k \<le> sc_cursor sc1"
  shows "left (scanner (set_cursor k (msg_delete k (sc_cursor sc1 - k) (p\<lparr>scanner := sc1\<rparr>)))) = left sc1"
  using assms by (simp add: msg_delete_def raw_msg_def)

definition undetermined :: "http_parser_t \<Rightarrow> nat" where
  "undetermined p = (if ent_position p = ENTREAD_DETERMINE_READ_METHOD then 1 else 0)"

lemma store_chunk_size_simps [simp]:
  "scanner (store_chunk_size outs p) = scanner p" "raw_msg (store_chunk_size outs p) = raw_msg p"
  by (simp_all add: store_chunk_size_def raw_msg_def split: list.split match_out.split)

lemma chunky_entity_progress:
  assumes "parser_parse_chunky_entity env p = (PARSE_CONTINUE_1, p')"
  shows "left (scanner p') < left (scanner p)"
proof -
  obtain st outs sc1 where m: "match_fmt env (scanner p) ''%x%L%c'' = (st, outs, sc1)" by (metis prod_cases3)
  have st: "st = PARSE_OK"
    using assms incremental.status [OF vfmatch_incremental [OF entity_fmts_open(1)], of env "scanner p"] m
    by (auto simp: parser_parse_chunky_entity_def match_fmt_def Let_def split: if_splits)
  note b = match_chunk_progress [OF m [unfolded st]]
  have "left (scanner p') = left sc1"
    using assms b
    by (auto simp: parser_parse_chunky_entity_def Let_def m st msg_delete_def raw_msg_def framed_def split: if_splits)
  then show ?thesis using b by (auto simp: framed_def)
qed

lemma chunky_body_progress:
  assumes "parser_parse_chunky_body env p = (PARSE_CONTINUE_1, p')"
  shows "left (scanner p') < left (scanner p)"
proof -
  let ?sc = "scanner (set_cursor (sc_cursor (scanner p) + chunk_size p) p)"
  obtain st outs sc1 where m: "match_fmt env ?sc ''%c'' = (st, outs, sc1)" by (metis prod_cases3)
  have st: "st = PARSE_OK"
    using assms incremental.status [OF vfmatch_incremental [OF entity_fmts_open(2)], of env ?sc] m
    by (auto simp: parser_parse_chunky_body_def match_fmt_def Let_def split: if_splits)
  obtain t where t: "scanner_get_token ?sc = Inr (t, TT_CRLF, sc1)" by (rule match_crlf_ok [OF m [unfolded st]])
  note b = scanner_get_token_bounds [OF t]
  have "left (scanner p') = left sc1"
    using assms b
    by (auto simp: parser_parse_chunky_body_def Let_def m st msg_delete_def raw_msg_def split: if_splits)
  then show ?thesis using b by (simp add: raw_msg_def)
qed

lemma entity_step_progress:
  assumes "entity_step env p = (PARSE_CONTINUE_1, p')"
  shows "left (scanner p') < left (scanner p) \<or> left (scanner p') = left (scanner p) \<and> undetermined p' < undetermined p"
proof (cases "ent_position p")
  case ENTREAD_DETERMINE_READ_METHOD
  then show ?thesis
    using assms
    by (auto simp: entity_step_def parser_get_entity_read_method_def Let_def undetermined_def
        split: if_splits option.splits prod.splits)
next
  case ENTREAD_USING_CLEN
  then show ?thesis using assms by (auto simp: entity_step_def parser_parse_entity_using_clen_def Let_def split: if_splits)
next
  case ENTREAD_USING_CHUNKED
  then show ?thesis using assms chunky_entity_progress by (simp add: entity_step_def)
next
  case ENTREAD_UNTIL_CLOSE
  then show ?thesis using assms by (auto simp: entity_step_def parser_parse_entity_until_close_def Let_def)
next
  case ENTREAD_CHUNKY_BODY
  then show ?thesis using assms chunky_body_progress by (simp add: entity_step_def)
next
  case ENTREAD_CHUNKY_HEADERS
  then show ?thesis
    using assms parse_headers_status [of env p]
    by (auto simp: entity_step_def parser_parse_chunky_headers_def Let_def split: prod.splits if_splits)
qed

function parser_parse_entity :: "net_env \<Rightarrow> http_parser_t \<Rightarrow> parse_status_t \<times> http_parser_t" where
  "parser_parse_entity env p =
     (case entity_step env p of (status, p1) \<Rightarrow>
        if status = PARSE_CONTINUE_1 then parser_parse_entity env p1 else (status, p1))"
  by pat_completeness auto
termination
proof (relation "measures [\<lambda>(env, p). left (scanner p), \<lambda>(env, p). undetermined p]", goal_cases)
  case (2 env p status p1)
  then have "entity_step env p = (PARSE_CONTINUE_1, p1)" by simp
  from entity_step_progress [OF this] show ?case by auto
qed simp

declare parser_parse_entity.simps [simp del]

section \<open>The parser\<close>

definition parser_step :: "net_env \<Rightarrow> http_parser_t \<Rightarrow> parse_status_t \<times> http_parser_t" where
  "parser_step env p =
     (case position p of
        POS_ENTITY \<Rightarrow> parser_parse_entity env p
      | POS_HEADERS \<Rightarrow> parser_parse_headers env p
      | POS_REQUEST_LINE \<Rightarrow> parser_parse_requestline env p
      | POS_RESPONSE_LINE \<Rightarrow> parser_parse_responseline env p
      | POS_COMPLETE \<Rightarrow> (PARSE_FAILURE, p))"

text \<open>A part that ends with \<open>PARSE_OK\<close> hands over to the next one.\<close>

lemma header_step_position: "header_step env p = Inl (PARSE_OK, p1) \<Longrightarrow> position p1 = POS_ENTITY"
  by (cases "scanner p" rule: get_token_cases)
    (auto simp: header_step_def Let_def split: if_splits prod.splits)

lemma parse_headers_position: "parser_parse_headers env p = (PARSE_OK, p1) \<Longrightarrow> position p1 = POS_ENTITY"
proof (induction env p rule: parser_parse_headers.induct)
  case (1 env p)
  show ?case
    using 1(2) header_step_position [of env p p1] 1(1)
    by (auto simp: parser_parse_headers.simps [of env p] split: sum.splits)
qed

lemma store_url_status: "store_url env p r = Inl (st, q) \<Longrightarrow> st = PARSE_FAILURE"
  by (auto simp: store_url_def Let_def split: prod.splits if_splits)

lemma requestline_position: "parser_parse_requestline env p = (PARSE_OK, p1) \<Longrightarrow> position p1 = POS_HEADERS"
  by (auto simp: parser_parse_requestline_def simple_request_def full_request_def Let_def
      split: prod.splits if_splits sum.splits list.splits match_out.splits dest: store_url_status)

lemma responseline_position: "parser_parse_responseline env p = (PARSE_OK, p1) \<Longrightarrow> position p1 = POS_HEADERS"
  by (auto simp: parser_parse_responseline_def response_line_def Let_def split: prod.splits if_splits)

lemma entity_step_not_ok: "fst (entity_step env p) \<noteq> PARSE_OK"
proof (cases "ent_position p")
  case ENTREAD_DETERMINE_READ_METHOD
  then show ?thesis
    by (auto simp: entity_step_def parser_get_entity_read_method_def Let_def split: option.splits prod.splits)
qed (auto simp: entity_step_def parser_parse_entity_using_clen_def parser_parse_chunky_entity_def
    parser_parse_entity_until_close_def parser_parse_chunky_body_def parser_parse_chunky_headers_def Let_def
    split: prod.splits)

lemma parse_entity_not_ok: "fst (parser_parse_entity env p) \<noteq> PARSE_OK"
proof (induction env p rule: parser_parse_entity.induct)
  case (1 env p)
  then show ?case
    using entity_step_not_ok [of env p] by (subst parser_parse_entity.simps) (auto split: prod.splits)
qed

definition parts_left :: "http_parser_t \<Rightarrow> nat" where
  "parts_left p =
     (case position p of POS_REQUEST_LINE \<Rightarrow> 3 | POS_RESPONSE_LINE \<Rightarrow> 3 | POS_HEADERS \<Rightarrow> 2 | POS_ENTITY \<Rightarrow> 1 | POS_COMPLETE \<Rightarrow> 0)"

lemma parser_step_progress: "parser_step env p = (PARSE_OK, p1) \<Longrightarrow> parts_left p1 < parts_left p"
  using parse_headers_position [of env p p1] requestline_position [of env p p1] responseline_position [of env p p1]
    parse_entity_not_ok [of env p]
  by (cases "position p") (auto simp: parser_step_def parts_left_def)

function parser_parse :: "net_env \<Rightarrow> http_parser_t \<Rightarrow> parse_status_t \<times> http_parser_t" where
  "parser_parse env p =
     (case parser_step env p of (status, p1) \<Rightarrow> if status = PARSE_OK then parser_parse env p1 else (status, p1))"
  by pat_completeness auto
termination
proof (relation "measure (\<lambda>(env, p). parts_left p)", goal_cases)
  case (2 env p status p1)
  then have "parser_step env p = (PARSE_OK, p1)" by simp
  from parser_step_progress [OF this] show ?case by simp
qed simp

declare parser_parse.simps [simp del]

definition parser_append :: "net_env \<Rightarrow> http_parser_t \<Rightarrow> string \<Rightarrow> parse_status_t \<times> http_parser_t" where
  "parser_append env p buf =
     (let (ok, p1) = ask p in
      if \<not> ok then (PARSE_FAILURE, p1\<lparr>http_error_code := HTTP_INTERNAL_SERVER_ERROR\<rparr>)
      else parser_parse env (set_msg (raw_msg p1 @ buf) p1))"

end
