(* ===== verification/Gena_Device.thy ===== *)
theory Gena_Device
  imports Handle_Table Http_Parser
begin

text \<open>
  Eventing on the side of the device, \<^verbatim>\<open>gena/gena_device.c\<close>: queueing events for subscribers, the thread
  job that delivers one of them, and the requests to subscribe, renew and unsubscribe.

  Every function runs in sections under the lock of the handle table, and a section is one definition on
  the state of the SDK; sending a message happens between two sections of the thread job. What the
  environment decides is an argument: which allocations succeed, whether the thread pool accepts a job, the
  clock, what the subscriber answers. \<open>None\<close> is an access through a dangling pointer, the release of a lock
  that is not held, or a failed assertion.
\<close>

section \<open>Texts\<close>

definition NL :: string where "NL = [CHR 0x0A]"

definition XML_PROPERTYSET_HEADER :: string where
  "XML_PROPERTYSET_HEADER = ''<e:propertyset xmlns:e='' @ [CHR 0x22] @ ''urn:schemas-upnp-org:event-1-0'' @ [CHR 0x22] @ ''>'' @ NL"

definition PROPERTYSET_END :: string where
  "PROPERTYSET_END = ''</e:propertyset>'' @ NL @ NL"

definition property_text :: "string \<Rightarrow> string \<Rightarrow> string" where
  "property_text name v =
     ''<e:property>'' @ NL @ ''<'' @ name @ ''>'' @ v @ ''</'' @ name @ ''>'' @ NL @ ''</e:property>'' @ NL"

text \<open>
  The size of the buffer, computed in a first pass, without the terminator; the sum is a \<open>size_t\<close> and wraps
  around.
\<close>

definition property_set_size :: "(string \<times> string) list \<Rightarrow> nat" where
  "property_set_size vars =
     foldl (\<lambda>size (n, v).
         size_add (size_add size (length (''<e:property>'' @ NL @ ''</e:property>'' @ NL)))
           (2 * length n + length v + length (''<></>'' @ NL)))
       (size_add (size_add 0 (length XML_PROPERTYSET_HEADER)) (length PROPERTYSET_END)) vars"

text \<open>
  \<open>sprintf\<close> returns the number of characters it wrote as an \<open>int\<close>: its result is not defined for a longer text.
\<close>

definition INT_MAX :: nat where "INT_MAX = 2147483647"

definition printable :: "string \<times> string \<Rightarrow> bool" where
  "printable nv = (2 * length (fst nv) + length (snd nv) + length (''<></>'' @ NL @ ''</e:property>'' @ NL) \<le> INT_MAX)"

text \<open>
  The code and the text. \<open>None\<close> if the second pass writes behind the buffer of \<open>size + 1\<close> bytes, or if
  \<open>sprintf\<close> is used outside its range. \<open>clone_ok\<close>: \<open>ixmlCloneDOMString\<close> gets memory for the copy; if not, the
  code still reports success.
\<close>

definition GeneratePropertySet :: "bool \<Rightarrow> bool \<Rightarrow> (string \<times> string) list \<Rightarrow> (int \<times> DOMString) option" where
  "GeneratePropertySet malloc_ok clone_ok vars =
     (if \<not> malloc_ok then Some (UPNP_E_OUTOF_MEMORY, None)
      else
        let buffer_size = size_add (property_set_size vars) 1;
            content = XML_PROPERTYSET_HEADER @ concat (map (\<lambda>(n, v). property_text n v) vars) @ PROPERTYSET_END
        in if buffer_size < length content + 1 \<or> list_ex (\<lambda>nv. \<not> printable nv) vars then None
           else Some (UPNP_E_SUCCESS, if clone_ok then Some content else None))"

fun decimal :: "nat \<Rightarrow> string" where
  "decimal n = (if n < 10 then [char_of (48 + n)] else decimal (n div 10) @ [char_of (48 + n mod 10)])"

declare decimal.simps [simp del]

definition int_text :: "int \<Rightarrow> string" where
  "int_text i = (if i < 0 then ''-'' @ decimal (nat (- i)) else decimal (nat i))"

definition HEADER_LINE_1 :: string where
  "HEADER_LINE_1 = ''CONTENT-TYPE: text/xml; charset='' @ [CHR 0x22] @ ''utf-8'' @ [CHR 0x22] @ CRLF_text"
definition HEADER_LINE_2A :: string where "HEADER_LINE_2A = ''CONTENT-LENGTH: ''"
definition HEADER_LINE_2B :: string where "HEADER_LINE_2B = CRLF_text"
definition HEADER_LINE_3 :: string where "HEADER_LINE_3 = ''NT: upnp:event'' @ CRLF_text"
definition HEADER_LINE_4 :: string where "HEADER_LINE_4 = ''NTS: upnp:propchange'' @ CRLF_text"
definition MAX_CONTENT_LENGTH :: nat where "MAX_CONTENT_LENGTH = 20"

text \<open>\<open>snprintf\<close> cuts the text to the size of the buffer.\<close>

definition AllocGenaHeaders :: "string \<Rightarrow> string" where
  "AllocGenaHeaders propertySet =
     (let headers_size = length HEADER_LINE_1 + length HEADER_LINE_2A + MAX_CONTENT_LENGTH +
                         length HEADER_LINE_2B + length HEADER_LINE_3 + length HEADER_LINE_4 + 1
      in take (headers_size - 1)
           (HEADER_LINE_1 @ HEADER_LINE_2A @ decimal (length propertySet + 2) @ HEADER_LINE_2B @
            HEADER_LINE_3 @ HEADER_LINE_4))"

section \<open>Delivering one event\<close>

definition GENA_E_NOTIFY_UNACCEPTED :: int where [codes]: "GENA_E_NOTIFY_UNACCEPTED = -303"
definition GENA_E_NOTIFY_UNACCEPTED_REMOVE_SUB :: int where [codes]: "GENA_E_NOTIFY_UNACCEPTED_REMOVE_SUB = -9"

text \<open>
  \<open>send\<close> is what \<open>notify_send_and_recv\<close> gives for a URL: the code and the status of the answer. The URLs are
  tried in order until one accepts the message.
\<close>

fun send_loop ::
  "(nat \<times> uri_type \<Rightarrow> string \<Rightarrow> string \<Rightarrow> int \<times> int) \<Rightarrow> string \<Rightarrow> string \<Rightarrow> (nat \<times> uri_type) option list \<Rightarrow>
   int \<times> int \<Rightarrow> (int \<times> int) option" where
  "send_loop send mid_msg propertySet [] r = Some r"
| "send_loop send mid_msg propertySet (url # urls) r =
     (case url of None \<Rightarrow> None
      | Some u \<Rightarrow>
          let r1 = send u mid_msg propertySet
          in if fst r1 = UPNP_E_SUCCESS then Some r1 else send_loop send mid_msg propertySet urls r1)"

definition notify_msg :: "string \<Rightarrow> subscription \<Rightarrow> string" where
  "notify_msg hdrs sub =
     hdrs @ ''SID: '' @ sid sub @ CRLF_text @ ''SEQ: '' @ int_text (ToSendEventKey sub) @ CRLF_text @ CRLF_text"

definition genaNotify ::
  "bool \<Rightarrow> (nat \<times> uri_type \<Rightarrow> string \<Rightarrow> string \<Rightarrow> int \<times> int) \<Rightarrow> string \<Rightarrow> string \<Rightarrow> subscription \<Rightarrow> int option" where
  "genaNotify mem_ok send hdrs propertySet sub =
     (if \<not> mem_ok then Some UPNP_E_OUTOF_MEMORY
      else do {
        (return_code, status) \<leftarrow>
          send_loop send (notify_msg hdrs sub) propertySet (parsedURLs (DeliveryURLs sub)) (-1, 0);
        Some (if return_code = UPNP_E_SUCCESS then
                (if status = 200 then UPNP_E_SUCCESS
                 else if status = 412 then GENA_E_NOTIFY_UNACCEPTED_REMOVE_SUB else GENA_E_NOTIFY_UNACCEPTED)
              else return_code)
      })"

section \<open>Jobs\<close>

text \<open>The addresses of the two functions a job refers to.\<close>

definition GENA_NOTIFY_THREAD :: addr where "GENA_NOTIFY_THREAD = 1"
definition FREE_NOTIFY_STRUCT :: addr where "FREE_NOTIFY_STRUCT = 2"

definition zero_job :: ThreadPoolJob where
  "zero_job = \<lparr>func = NULL, arg = NULL, free_fn = NULL, requestTime = \<lparr>tv_sec = 0, tv_usec = 0\<rparr>,
               priority = LOW_PRIORITY, jobId = 0\<rparr>"

definition notify_job :: "addr \<Rightarrow> ThreadPoolJob" where
  "notify_job thread_struct =
     snd (TPJobSetPriority (snd (TPJobSetFreeFunction (snd (TPJobInit zero_job GENA_NOTIFY_THREAD thread_struct))
       FREE_NOTIFY_STRUCT)) MED_PRIORITY)"

text \<open>What users of the pool rely on: a job is accepted (code 0) or refused; the pool runs its own copy.\<close>

definition pool_add :: "int \<Rightarrow> upnp \<Rightarrow> ThreadPoolJob \<Rightarrow> upnp" where
  "pool_add rc st job = (if rc = 0 then st\<lparr>gSendThreadPool := gSendThreadPool st @ [job]\<rparr> else st)"

definition find_service :: "upnp \<Rightarrow> int \<Rightarrow> string \<Rightarrow> string \<Rightarrow> nat option option" where
  "find_service st Hnd servId udn =
     (case slot st Hnd of None \<Rightarrow> Some None | Some info \<Rightarrow> FindServiceId (ServiceTable info) servId udn)"

definition service_at :: "upnp \<Rightarrow> int \<Rightarrow> nat \<Rightarrow> service_info" where
  "service_at st Hnd i = serviceList (ServiceTable (the (slot st Hnd))) ! i"

definition put_service :: "upnp \<Rightarrow> int \<Rightarrow> nat \<Rightarrow> service_info \<Rightarrow> upnp" where
  "put_service st Hnd i service =
     (case slot st Hnd of None \<Rightarrow> st
      | Some info \<Rightarrow>
          set_slot st Hnd (Some (info\<lparr>ServiceTable := (ServiceTable info)
            \<lparr>serviceList := (serviceList (ServiceTable info))[i := service]\<rparr>\<rparr>)))"

definition upd_sub :: "service_info \<Rightarrow> nat \<Rightarrow> (subscription \<Rightarrow> subscription) \<Rightarrow> service_info" where
  "upd_sub service j f =
     service\<lparr>subscriptionList := (subscriptionList service)[j := f (subscriptionList service ! j)]\<rparr>"
section \<open>The thread job\<close>

text \<open>Giving the structure back and leaving.\<close>

definition drop_notify :: "'a \<Rightarrow> upnp \<Rightarrow> addr \<Rightarrow> ('a \<times> upnp) option" where
  "drop_notify r st inp = do { eh \<leftarrow> free_notify_struct (events st) inp; leave r (st\<lparr>events := eh\<rparr>) }"

text \<open>
  The subscription an event is for: \<open>None\<close> inside if the handle, the service or the subscription is gone. An
  expired subscription is removed. The result is the positions of the service and of the subscription.
\<close>

definition find_context :: "int \<Rightarrow> upnp \<Rightarrow> notify_thread_struct \<Rightarrow> ((nat \<times> nat) option \<times> upnp) option" where
  "find_context now st n = do {
     t \<leftarrow> texts (events st) (reference_count n);
     if GetHandleInfo st (nt_handle n) \<noteq> HND_DEVICE then Some (None, st)
     else do {
       found \<leftarrow> find_service st (nt_handle n) (ev_servId t) (ev_UDN t);
       (case found of None \<Rightarrow> Some (None, st)
        | Some i \<Rightarrow>
            let service = service_at st (nt_handle n) i in
            if \<not> svc_active service then Some (None, st)
            else do {
              (sub, eh, service1) \<leftarrow> GetSubscriptionSID (events st) now (nt_sid n) service;
              Some (map_option (Pair i) sub, put_service (st\<lparr>events := eh\<rparr>) (nt_handle n) i service1)
            })
     }
   }"

text \<open>\<open>genaNotifyThread\<close> up to the sending of the message: the copy of the subscription to send it to.\<close>

definition genaNotifyThread_begin :: "bool \<Rightarrow> int \<Rightarrow> upnp \<Rightarrow> addr \<Rightarrow> (subscription option \<times> upnp) option" where
  "genaNotifyThread_begin malloc_ok now st0 inp = do {
     st \<leftarrow> HandleLock st0;
     n \<leftarrow> structs (events st) inp;
     (ctx, st1) \<leftarrow> find_context now st n;
     (case ctx of None \<Rightarrow> drop_notify None st1 inp
      | Some (i, j) \<Rightarrow> do {
          (rc, sub_copy) \<leftarrow> copy_subscription malloc_ok (subscriptionList (service_at st1 (nt_handle n) i) ! j);
          if rc \<noteq> HTTP_SUCCESS then drop_notify None st1 inp else leave (Some sub_copy) st1
        })
   }"

text \<open>The event key wraps to 1.\<close>

definition next_key :: "int \<Rightarrow> int" where
  "next_key k = (let k1 = to_int32 (k + 1) in if k1 < 0 then 1 else k1)"

text \<open>Handing the job at the head of the queue to the pool; its entry in the queue is marked.\<close>

definition activate_head :: "int \<Rightarrow> upnp \<Rightarrow> ThreadPoolJob list \<Rightarrow> (ThreadPoolJob list \<times> upnp) option" where
  "activate_head rc st q =
     (case q of [] \<Rightarrow> Some ([], st)
      | job # rest \<Rightarrow>
          if jobId job = STALE_JOBID then None
          else Some (job\<lparr>jobId := STALE_JOBID\<rparr> # rest, pool_add rc st job))"

text \<open>\<open>genaNotifyThread\<close> after the message was sent with the given result; \<open>add_rc\<close> is the answer of the pool.\<close>

definition genaNotifyThread_end :: "int \<Rightarrow> int \<Rightarrow> int \<Rightarrow> upnp \<Rightarrow> addr \<Rightarrow> (unit \<times> upnp) option" where
  "genaNotifyThread_end add_rc now return_code st0 inp = do {
     st \<leftarrow> HandleLock st0;
     n \<leftarrow> structs (events st) inp;
     (ctx, st1) \<leftarrow> find_context now st n;
     (case ctx of None \<Rightarrow> drop_notify () st1 inp
      | Some (i, j) \<Rightarrow> do {
          let service = service_at st1 (nt_handle n) i;
          let sub = subscriptionList service ! j;
          (q, st2) \<leftarrow> activate_head add_rc st1 (tl (outgoing sub));
          let service1 = upd_sub service j (\<lambda>s. s\<lparr>ToSendEventKey := next_key (ToSendEventKey s), outgoing := q\<rparr>);
          (eh, service2) \<leftarrow>
            (if return_code = GENA_E_NOTIFY_UNACCEPTED_REMOVE_SUB
             then RemoveSubscriptionSID (events st2) (nt_sid n) service1
             else Some (events st2, service1));
          drop_notify () (put_service (st2\<lparr>events := eh\<rparr>) (nt_handle n) i service2) inp
        })
   }"

section \<open>Queueing events\<close>

text \<open>
  Old events go: from the second one on, as long as there are more than \<open>mx_len\<close> or the second one is older
  than \<open>mx_age\<close>.
\<close>

fun discard_loop ::
  "event_heap \<Rightarrow> int \<Rightarrow> int \<Rightarrow> int \<Rightarrow> ThreadPoolJob \<Rightarrow> ThreadPoolJob list \<Rightarrow> (event_heap \<times> ThreadPoolJob list) option" where
  "discard_loop eh now mx_len mx_age first [] = Some (eh, [first])"
| "discard_loop eh now mx_len mx_age first (x # rest) = do {
     ntsp \<leftarrow> structs eh (arg x);
     if mx_len < int (length (first # x # rest)) \<or> mx_age < now - nt_ctime ntsp
     then do { eh1 \<leftarrow> free_notify_struct eh (arg x); discard_loop eh1 now mx_len mx_age first rest }
     else Some (eh, first # x # rest)
   }"

definition maybeDiscardEvents ::
  "event_heap \<Rightarrow> int \<Rightarrow> int \<Rightarrow> int \<Rightarrow> ThreadPoolJob list \<Rightarrow> (event_heap \<times> ThreadPoolJob list) option" where
  "maybeDiscardEvents eh now mx_len mx_age listp =
     (case listp of [] \<Rightarrow> Some (eh, []) | first # rest \<Rightarrow> discard_loop eh now mx_len mx_age first rest)"

text \<open>
  What the environment decides for one subscriber: whether the structure, the job and the list node could
  be allocated, the answer of the pool, and the readings of the clock: when the structure is filled in, when
  old events are discarded, and when the next subscriber is looked for.
\<close>

record notify_env =
  struct_ok :: bool
  job_ok :: bool
  node_ok :: bool
  add_rc :: int
  clock :: int
  discard_clock :: int
  next_clock :: int

definition pool_error :: "int \<Rightarrow> int" where
  "pool_error rc = (if rc = EOUTOFMEM then UPNP_E_OUTOF_MEMORY else rc)"

text \<open>One round of the loop of \<open>genaNotifyAllCommon\<close>; the first result is the code if the loop is left.\<close>

definition queue_event ::
  "notify_env \<Rightarrow> int \<Rightarrow> addr \<Rightarrow> upnp \<Rightarrow> service_info \<Rightarrow> nat \<Rightarrow> (int option \<times> upnp \<times> service_info) option" where
  "queue_event e Hnd text_addr st service finger =
     (if \<not> struct_ok e then Some (Some UPNP_E_OUTOF_MEMORY, st, service)
      else do {
        let sub = subscriptionList service ! finger;
        t \<leftarrow> texts (events st) text_addr;
        let eh1 = (events st)\<lparr>texts := (texts (events st))(text_addr \<mapsto> t\<lparr>ref_count := ref_count t + 1\<rparr>)\<rparr>;
        let (thread_s, eh2) = new_struct eh1
              \<lparr>nt_sid = take 43 (sid sub), nt_ctime = clock e, reference_count = text_addr, nt_handle = Hnd\<rparr>;
        (eh3, q) \<leftarrow> maybeDiscardEvents eh2 (discard_clock e) (g_UpnpSdkEQMaxLen st) (g_UpnpSdkEQMaxAge st) (outgoing sub);
        if \<not> job_ok e
        then Some (Some UPNP_E_OUTOF_MEMORY, st\<lparr>events := eh3\<lparr>structs := (structs eh3)(thread_s := None)\<rparr>\<rparr>,
                   upd_sub service finger (\<lambda>s. s\<lparr>outgoing := q\<rparr>))
        else
          let job = notify_job thread_s;
              q1 = (if node_ok e then q @ [job] else q);
              st1 = st\<lparr>events := eh3\<rparr>
          in if length q1 = 1 then
               (if add_rc e \<noteq> 0
                then Some (Some (pool_error (add_rc e)), st1, upd_sub service finger (\<lambda>s. s\<lparr>outgoing := q1\<rparr>))
                else Some (None, pool_add (add_rc e) st1 job,
                       upd_sub service finger
                         (\<lambda>s. s\<lparr>outgoing := (if node_ok e then [job\<lparr>jobId := STALE_JOBID\<rparr>] else q1)\<rparr>)))
             else Some (None, st1, upd_sub service finger (\<lambda>s. s\<lparr>outgoing := q1\<rparr>))
      })"

lemma next_loop_result:
  "next_subscription_loop eh now prev l n = Some (r, eh', l', n') \<Longrightarrow>
     length prev \<le> length l' \<and> length l' \<le> length prev + length l \<and>
     (case r of None \<Rightarrow> True | Some j \<Rightarrow> length prev \<le> j \<and> j < length l')"
proof (induction eh now prev l n arbitrary: r eh' l' n' rule: next_subscription_loop.induct)
  case (2 eh now prev cur rest n)
  show ?case
  proof (cases "expired now cur")
    case True
    then obtain eh1 where "freeSubscriptionList eh [cur] = Some eh1"
      "next_subscription_loop eh1 now prev rest (n - 1) = Some (r, eh', l', n')"
      using "2.prems" by (auto simp del: freeSubscriptionList.simps simp: bind_eq_Some_conv)
    from "2.IH"(1) [OF True this(1,2)] show ?thesis by auto
  next
    case False
    with "2.prems" "2.IH"(2) [OF False, of r eh' l' n'] show ?thesis
      by (cases "sub_active cur") (auto split: option.splits)
  qed
qed auto

lemma GetNext_result:
  assumes "GetNextSubscription eh now service f = Some (Some j, eh', service')"
  shows "f < j \<and> j < length (subscriptionList service') \<and>
         length (subscriptionList service') \<le> length (subscriptionList service)"
proof -
  let ?l = "subscriptionList service"
  from assms obtain l' n' where
    r: "next_subscription_loop eh now (take (f + 1) ?l) (drop (f + 1) ?l) (TotalSubscriptions service) =
          Some (Some j, eh', l', n')"
    and s: "service' = service\<lparr>subscriptionList := l', TotalSubscriptions := n'\<rparr>"
    by (auto simp: GetNextSubscription_def bind_eq_Some_conv)
  have "f + 1 < length ?l" using r by (cases "f + 1 < length ?l") auto
  then show ?thesis using next_loop_result [OF r] s by auto
qed

lemma queue_event_length:
  "queue_event e Hnd t st service f = Some (r, st', service') \<Longrightarrow>
     length (subscriptionList service') = length (subscriptionList service)"
  by (auto simp: queue_event_def upd_sub_def Let_def bind_eq_Some_conv new_struct_def split: if_splits)

text \<open>
  The loop over the subscribers; round \<open>k\<close> has the environment \<open>e k\<close>. Rounds are counted from 1, and \<open>e 0\<close> has
  the reading of the clock for the search of the first subscriber.
\<close>

function notify_loop ::
  "(nat \<Rightarrow> notify_env) \<Rightarrow> nat \<Rightarrow> int \<Rightarrow> addr \<Rightarrow> upnp \<Rightarrow> service_info \<Rightarrow> nat \<Rightarrow> (int \<times> upnp \<times> service_info) option" where
  "notify_loop e k Hnd text_addr st service finger =
     (case queue_event (e k) Hnd text_addr st service finger of
        None \<Rightarrow> None
      | Some (Some ret, st1, service1) \<Rightarrow> Some (ret, st1, service1)
      | Some (None, st1, service1) \<Rightarrow>
          (case GetNextSubscription (events st1) (next_clock (e k)) service1 finger of
             None \<Rightarrow> None
           | Some (None, eh, service2) \<Rightarrow> Some (UPNP_E_SUCCESS, st1\<lparr>events := eh\<rparr>, service2)
           | Some (Some next, eh, service2) \<Rightarrow> notify_loop e (k + 1) Hnd text_addr (st1\<lparr>events := eh\<rparr>) service2 next))"
  by pat_completeness auto
termination
proof (relation "measure (\<lambda>(e, k, Hnd, t, st, service, finger). length (subscriptionList service) - finger)", goal_cases)
  case (2 e k Hnd t st service finger r r1 z s1 service1 r2 r3 j z2 eh service2)
  then show ?case using GetNext_result queue_event_length by fastforce
qed simp

declare notify_loop.simps [simp del]
definition release_text :: "upnp \<Rightarrow> addr \<Rightarrow> upnp" where
  "release_text st t = st\<lparr>events := (events st)\<lparr>texts := (texts (events st))(t := None)\<rparr>\<rparr>"

text \<open>
  \<open>genaNotifyAllCommon\<close>. \<open>pre_ok\<close>: the four allocations before the lock succeed; if one fails, the lock is
  released without having been taken. An event that was queued nowhere is freed at the end.
\<close>

definition genaNotifyAllCommon ::
  "bool \<Rightarrow> (nat \<Rightarrow> notify_env) \<Rightarrow> upnp \<Rightarrow> int \<Rightarrow> string \<Rightarrow> string \<Rightarrow> string \<Rightarrow> (int \<times> upnp) option" where
  "genaNotifyAllCommon pre_ok e st0 device_handle udn servId propertySet =
     (if \<not> pre_ok then leave UPNP_E_OUTOF_MEMORY st0
      else do {
        let (t, eh) = new_text (events st0)
              \<lparr>ref_count = 0, ev_headers = AllocGenaHeaders propertySet, ev_propertySet = propertySet,
               ev_servId = servId, ev_UDN = udn\<rparr>;
        st \<leftarrow> HandleLock (st0\<lparr>events := eh\<rparr>);
        (ret, st1) \<leftarrow>
          (if GetHandleInfo st device_handle \<noteq> HND_DEVICE then Some (UPNP_E_INVALID_HANDLE, st)
           else do {
             found \<leftarrow> find_service st device_handle servId udn;
             (case found of None \<Rightarrow> Some (UPNP_E_INVALID_SERVICE, st)
              | Some i \<Rightarrow> do {
                  (finger, eh1, service) \<leftarrow>
                    GetFirstSubscription (events st) (next_clock (e 0)) (service_at st device_handle i);
                  (ret, st2, service1) \<leftarrow>
                    (case finger of None \<Rightarrow> Some (UPNP_E_SUCCESS, st\<lparr>events := eh1\<rparr>, service)
                     | Some f \<Rightarrow> notify_loop e 1 device_handle t (st\<lparr>events := eh1\<rparr>) service f);
                  Some (ret, put_service st2 device_handle i service1)
                })
           });
        txt \<leftarrow> texts (events st1) t;
        leave ret (if ref_count txt = 0 then release_text st1 t else st1)
      })"

text \<open>The variables are given with their count; reading past them is a fault.\<close>

definition counted :: "(string \<times> string) list \<Rightarrow> int \<Rightarrow> (string \<times> string) list option" where
  "counted vars n = (if length vars < nat n then None else Some (take (nat n) vars))"

text \<open>If the property set could not be copied, the code goes on with \<open>NULL\<close>, and the first use of it is a fault.\<close>

definition genaNotifyAll ::
  "bool \<times> bool \<Rightarrow> bool \<Rightarrow> (nat \<Rightarrow> notify_env) \<Rightarrow> upnp \<Rightarrow> int \<Rightarrow> string \<Rightarrow> string \<Rightarrow> (string \<times> string) list \<Rightarrow> int \<Rightarrow>
   (int \<times> upnp) option" where
  "genaNotifyAll alloc_ok pre_ok e st device_handle udn servId vars var_count = do {
     vs \<leftarrow> counted vars var_count;
     (ret, propertySet) \<leftarrow> GeneratePropertySet (fst alloc_ok) (snd alloc_ok) vs;
     if ret \<noteq> UPNP_E_SUCCESS then Some (ret, st)
     else (case propertySet of None \<Rightarrow> None
           | Some ps \<Rightarrow> genaNotifyAllCommon pre_ok e st device_handle udn servId ps)
   }"

definition genaNotifyAllExt ::
  "bool \<Rightarrow> (nat \<Rightarrow> notify_env) \<Rightarrow> upnp \<Rightarrow> int \<Rightarrow> string \<Rightarrow> string \<Rightarrow> addr \<Rightarrow> (int \<times> upnp) option" where
  "genaNotifyAllExt pre_ok e st device_handle udn servId PropSet = do {
     propertySet \<leftarrow> ixmlPrintNode (docs st) PropSet;
     (case propertySet of None \<Rightarrow> Some (UPNP_E_INVALID_PARAM, st)
      | Some ps \<Rightarrow> genaNotifyAllCommon pre_ok e st device_handle udn servId ps)
   }"

section \<open>The first event of a subscription\<close>

text \<open>
  Leaving \<open>genaInitNotifyCommon\<close> with an error: all that was allocated is freed. The property set is \<open>NULL\<close> if
  it could not be copied; the length of it is taken when the headers are made.
\<close>

definition init_failed :: "int \<Rightarrow> upnp \<Rightarrow> addr \<Rightarrow> addr option \<Rightarrow> (int \<times> upnp) option" where
  "init_failed ret st t thread_struct =
     (let st1 = release_text st t in
      leave ret (case thread_struct of None \<Rightarrow> st1
        | Some s \<Rightarrow> st1\<lparr>events := (events st1)\<lparr>structs := (structs (events st1))(s := None)\<rparr>\<rparr>))"

definition genaInitNotifyCommon ::
  "bool \<Rightarrow> bool \<Rightarrow> notify_env \<Rightarrow> upnp \<Rightarrow> int \<Rightarrow> string \<Rightarrow> string \<Rightarrow> DOMString \<Rightarrow> string \<Rightarrow> (int \<times> upnp) option" where
  "genaInitNotifyCommon pre_ok headers_ok e st0 device_handle udn servId propertySet s =
     (if \<not> pre_ok then leave UPNP_E_OUTOF_MEMORY st0
      else do {
        let ps = (case propertySet of None \<Rightarrow> [] | Some ps \<Rightarrow> ps);
        let (t, eh) = new_text (events st0)
              \<lparr>ref_count = 0, ev_headers = AllocGenaHeaders ps, ev_propertySet = ps,
               ev_servId = servId, ev_UDN = udn\<rparr>;
        st \<leftarrow> HandleLock (st0\<lparr>events := eh\<rparr>);
        if GetHandleInfo st device_handle \<noteq> HND_DEVICE then init_failed UPNP_E_INVALID_HANDLE st t None
        else do {
          found \<leftarrow> find_service st device_handle servId udn;
          (case found of None \<Rightarrow> init_failed UPNP_E_INVALID_SERVICE st t None
           | Some i \<Rightarrow> do {
               (sub, eh1, service) \<leftarrow> GetSubscriptionSID (events st) (next_clock e) s (service_at st device_handle i);
               let st1 = put_service (st\<lparr>events := eh1\<rparr>) device_handle i service;
               (case sub of None \<Rightarrow> init_failed UPNP_E_INVALID_SID st1 t None
                | Some j \<Rightarrow>
                    if sub_active (subscriptionList service ! j) then init_failed UPNP_E_INVALID_SID st1 t None
                    else
                      let service1 = upd_sub service j (\<lambda>x. x\<lparr>sub_active := True\<rparr>);
                          st2 = put_service st1 device_handle i service1
                      in if propertySet = None then None
                         else if \<not> headers_ok \<or> \<not> struct_ok e then init_failed UPNP_E_OUTOF_MEMORY st2 t None
                         else do {
                           txt \<leftarrow> texts (events st2) t;
                           let eh2 = (events st2)\<lparr>texts := (texts (events st2))(t \<mapsto> txt\<lparr>ref_count := 1\<rparr>)\<rparr>;
                           let (thread_struct, eh3) = new_struct eh2
                                 \<lparr>nt_sid = take 43 s, nt_ctime = clock e, reference_count = t,
                                  nt_handle = device_handle\<rparr>;
                           let st3 = st2\<lparr>events := eh3\<rparr>;
                           let job = notify_job thread_struct;
                           if add_rc e \<noteq> 0 then init_failed (pool_error (add_rc e)) st3 t (Some thread_struct)
                           else
                             let st4 = pool_add (add_rc e) st3 job
                             in if \<not> node_ok e then init_failed UPNP_E_OUTOF_MEMORY st4 t (Some thread_struct)
                                else leave UPNP_E_SUCCESS
                                  (put_service st4 device_handle i (upd_sub service1 j
                                     (\<lambda>x. x\<lparr>outgoing := outgoing x @ [job\<lparr>jobId := STALE_JOBID\<rparr>]\<rparr>)))
                         })
             })
        }
      })"

definition genaInitNotify ::
  "bool \<times> bool \<Rightarrow> bool \<Rightarrow> bool \<Rightarrow> notify_env \<Rightarrow> upnp \<Rightarrow> int \<Rightarrow> string \<Rightarrow> string \<Rightarrow> (string \<times> string) list \<Rightarrow> int \<Rightarrow>
   string \<Rightarrow> (int \<times> upnp) option" where
  "genaInitNotify alloc_ok pre_ok headers_ok e st device_handle udn servId vars var_count s =
     (if var_count \<le> 0 then Some (UPNP_E_SUCCESS, st)
      else do {
        vs \<leftarrow> counted vars var_count;
        (ret, propertySet) \<leftarrow> GeneratePropertySet (fst alloc_ok) (snd alloc_ok) vs;
        if ret \<noteq> UPNP_E_SUCCESS then Some (ret, st)
        else genaInitNotifyCommon pre_ok headers_ok e st device_handle udn servId propertySet s
      })"

definition genaInitNotifyExt ::
  "bool \<Rightarrow> bool \<Rightarrow> notify_env \<Rightarrow> upnp \<Rightarrow> int \<Rightarrow> string \<Rightarrow> string \<Rightarrow> addr \<Rightarrow> string \<Rightarrow> (int \<times> upnp) option" where
  "genaInitNotifyExt pre_ok headers_ok e st device_handle udn servId PropSet s =
     (if PropSet = NULL then Some (UPNP_E_SUCCESS, st)
      else do {
        propertySet \<leftarrow> ixmlPrintNode (docs st) PropSet;
        (case propertySet of None \<Rightarrow> Some (UPNP_E_INVALID_PARAM, st)
         | Some ps \<Rightarrow> genaInitNotifyCommon pre_ok headers_ok e st device_handle udn servId (Some ps) s)
      })"

section \<open>The calls of the API\<close>

text \<open>The checks of the handle and of the arguments that come before the work: the code, or the strings.\<close>

definition device_call ::
  "upnp \<Rightarrow> int \<Rightarrow> DOMString \<Rightarrow> DOMString \<Rightarrow> bool \<Rightarrow> (upnp \<Rightarrow> string \<Rightarrow> string \<Rightarrow> (int \<times> upnp) option) \<Rightarrow> (int \<times> upnp) option" where
  "device_call st0 Hnd DevID ServName args_ok work =
     (if UpnpSdkInit st0 \<noteq> 1 then Some (UPNP_E_FINISH, st0)
      else do {
        st \<leftarrow> HandleLock st0;
        if GetHandleInfo st Hnd \<noteq> HND_DEVICE then leave UPNP_E_INVALID_HANDLE st
        else case (DevID, ServName) of
            (Some udn, Some servId) \<Rightarrow>
              if \<not> args_ok then leave UPNP_E_INVALID_PARAM st
              else do { st1 \<leftarrow> HandleUnlock st; work st1 udn servId }
          | _ \<Rightarrow> leave UPNP_E_INVALID_PARAM st
      })"

definition UpnpNotify ::
  "bool \<times> bool \<Rightarrow> bool \<Rightarrow> (nat \<Rightarrow> notify_env) \<Rightarrow> upnp \<Rightarrow> int \<Rightarrow> DOMString \<Rightarrow> DOMString \<Rightarrow> (string \<times> string) list option \<Rightarrow> int \<Rightarrow>
   (int \<times> upnp) option" where
  "UpnpNotify alloc_ok pre_ok e st Hnd DevID ServName vars cVariables =
     device_call st Hnd DevID ServName (vars \<noteq> None \<and> 0 \<le> cVariables)
       (\<lambda>st1 udn servId. case vars of None \<Rightarrow> None
          | Some vs \<Rightarrow> genaNotifyAll alloc_ok pre_ok e st1 Hnd udn servId vs cVariables)"

definition UpnpNotifyExt ::
  "bool \<Rightarrow> (nat \<Rightarrow> notify_env) \<Rightarrow> upnp \<Rightarrow> int \<Rightarrow> DOMString \<Rightarrow> DOMString \<Rightarrow> addr \<Rightarrow> (int \<times> upnp) option" where
  "UpnpNotifyExt pre_ok e st Hnd DevID ServName PropSet =
     device_call st Hnd DevID ServName True
       (\<lambda>st1 udn servId. genaNotifyAllExt pre_ok e st1 Hnd udn servId PropSet)"

definition UpnpAcceptSubscription ::
  "bool \<times> bool \<Rightarrow> bool \<Rightarrow> bool \<Rightarrow> notify_env \<Rightarrow> upnp \<Rightarrow> int \<Rightarrow> DOMString \<Rightarrow> DOMString \<Rightarrow> (string \<times> string) list \<Rightarrow> int \<Rightarrow>
   DOMString \<Rightarrow> (int \<times> upnp) option" where
  "UpnpAcceptSubscription alloc_ok pre_ok headers_ok e st Hnd DevID ServName vars cVariables SubsId =
     device_call st Hnd DevID ServName (SubsId \<noteq> None)
       (\<lambda>st1 udn servId. case SubsId of None \<Rightarrow> None
          | Some s \<Rightarrow> genaInitNotify alloc_ok pre_ok headers_ok e st1 Hnd udn servId vars cVariables s)"

definition UpnpAcceptSubscriptionExt ::
  "bool \<Rightarrow> bool \<Rightarrow> notify_env \<Rightarrow> upnp \<Rightarrow> int \<Rightarrow> DOMString \<Rightarrow> DOMString \<Rightarrow> addr \<Rightarrow> DOMString \<Rightarrow> (int \<times> upnp) option" where
  "UpnpAcceptSubscriptionExt pre_ok headers_ok e st Hnd DevID ServName PropSet SubsId =
     device_call st Hnd DevID ServName (SubsId \<noteq> None)
       (\<lambda>st1 udn servId. case SubsId of None \<Rightarrow> None
          | Some s \<Rightarrow> genaInitNotifyExt pre_ok headers_ok e st1 Hnd udn servId PropSet s)"
section \<open>Requests of control points\<close>

text \<open>
  A request is its headers, the path with the query its URL has, and the address family of the connection.
  The replies sent are collected: a status code (\<open>error_respond\<close>), or the acceptance with its timeout (negative:
  infinite) and its SID (\<open>respond_ok\<close>).
\<close>

datatype gena_reply = Status int | Accepted_Reply int string

record gena_request =
  rq_headers :: "http_header_t list"
  rq_pathquery :: string
  rq_family :: family

definition find_hdr :: "gena_request \<Rightarrow> int \<Rightarrow> string option" where
  "find_hdr request i =
     (case httpmsg_find_hdr (rq_headers request) i of None \<Rightarrow> None | Some k \<Rightarrow> Some (hdr_value (rq_headers request ! k)))"

definition DEFAULT_TIMEOUT :: int where "DEFAULT_TIMEOUT = 1801"

text \<open>The length of a header value is that of its text; a memory pointer is the text with its length.\<close>

definition value_cmp_nocase :: "string \<Rightarrow> string \<Rightarrow> int" where
  "value_cmp_nocase v s = memptr_cmp_nocase \<lparr>mp_buf = v, mp_length = length v\<rparr> s"

subsection \<open>Callback URLs\<close>

text \<open>
  The URL behind the character \<open><\<close> at position \<open>i\<close> of the CALLBACK header. The length passed to the parser
  reaches two characters beyond the header: the terminator and the byte after it (\<open>stray\<close>).
\<close>

definition callback_url :: "net_env \<Rightarrow> char \<Rightarrow> string \<Rightarrow> nat \<Rightarrow> (nat \<times> uri_type) option" where
  "callback_url env stray v i =
     (if v ! i = CHR ''<'' \<and> i + 1 < length v then
        (case parse_uri env (drop (i + 1) (v @ [NUL, stray])) (length v - i + 1) of
           (return_code, Some temp) \<Rightarrow>
             if return_code = HTTP_SUCCESS \<and> tk_size (hp_text (hostport temp)) \<noteq> 0 then Some (i + 1, temp) else None
         | _ \<Rightarrow> None)
      else None)"

definition callback_urls :: "net_env \<Rightarrow> char \<Rightarrow> string \<Rightarrow> (nat \<times> uri_type) list" where
  "callback_urls env stray v = List.map_filter (callback_url env stray v) [0..<length v]"

text \<open>
  The two passes read the header in the message and in its copy, so the byte behind it differs; elements the
  second pass does not fill stay as \<open>malloc\<close> gave them.
\<close>

definition create_url_list :: "net_env \<Rightarrow> bool \<Rightarrow> char \<Rightarrow> char \<Rightarrow> string \<Rightarrow> int \<times> URL_list" where
  "create_url_list env malloc_ok stray1 stray2 v =
     (let URLcount = length (callback_urls env stray1 v) in
      if URLcount = 0 then (0, no_urls)
      else if \<not> malloc_ok then (UPNP_E_OUTOF_MEMORY, no_urls)
      else
        let found = take URLcount (callback_urls env stray2 v)
        in (int URLcount,
            \<lparr>URLs = Some v, parsedURLs = map Some found @ replicate (URLcount - length found) None\<rparr>))"

text \<open>The addresses of the interface, as the library keeps them.\<close>

record interface =
  gIF_IPV4 :: string
  gIF_IPV4_NETMASK :: string
  gIF_IPV6 :: string
  gIF_IPV6_PREFIX_LENGTH :: nat
  gIF_IPV6_ULA_GUA :: string
  gIF_IPV6_ULA_GUA_PREFIX_LENGTH :: nat

text \<open>The address a socket structure shows when it is read as one of the given family.\<close>

definition sin_addr :: "hostport_type \<Rightarrow> nat list" where
  "sin_addr hp = (if ss_family hp = AF_INET then ip_addr hp else [0, 0, 0, 0])"

definition sin6_addr :: "hostport_type \<Rightarrow> nat list" where
  "sin6_addr hp = (if ss_family hp = AF_INET6 then ip_addr hp else replicate 16 0)"

definition masked :: "nat list \<Rightarrow> nat list \<Rightarrow> nat list" where
  "masked a m = map2 (\<lambda>x y. x AND y) a m"

definition in6_is_linklocal :: "nat list \<Rightarrow> bool" where
  "in6_is_linklocal a \<longleftrightarrow> a ! 0 = 0xfe \<and> a ! 1 AND 0xc0 = 0x80"

fun all_urls :: "(uri_type \<Rightarrow> bool) \<Rightarrow> (nat \<times> uri_type) option list \<Rightarrow> bool option" where
  "all_urls P [] = Some True"
| "all_urls P (u # us) = (case u of None \<Rightarrow> None | Some (off, x) \<Rightarrow> if P x then all_urls P us else Some False)"

definition gena_validate_delivery_urls :: "net_env \<Rightarrow> interface \<Rightarrow> family \<Rightarrow> URL_list \<Rightarrow> int option" where
  "gena_validate_delivery_urls env gif foreign_family url_list =
     (case foreign_family of
        AF_INET \<Rightarrow>
          (case (inet_pton4 env (gIF_IPV4 gif), inet_pton4 env (gIF_IPV4_NETMASK gif)) of
             (Some genaAddr4, Some genaNetmask) \<Rightarrow>
               map_option (\<lambda>ok. if ok then 0 else -1)
                 (all_urls (\<lambda>u. masked (sin_addr (hostport u)) genaNetmask = masked genaAddr4 genaNetmask)
                    (parsedURLs url_list))
           | _ \<Rightarrow> Some (-1))
      | AF_INET6 \<Rightarrow>
          (case (inet_pton6 env (gIF_IPV6 gif), inet_pton6 env (gIF_IPV6_ULA_GUA gif)) of
             (Some genaAddr6Lla, Some genaAddr6UlaGua) \<Rightarrow>
               map_option (\<lambda>ok. if ok then 0 else -1)
                 (all_urls (\<lambda>u.
                    let a = sin6_addr (hostport u);
                        (g, if_prefix) = (if in6_is_linklocal a then (genaAddr6Lla, gIF_IPV6_PREFIX_LENGTH gif)
                                          else (genaAddr6UlaGua, gIF_IPV6_ULA_GUA_PREFIX_LENGTH gif))
                    in take (if_prefix div 8) a = take (if_prefix div 8) g) (parsedURLs url_list))
           | _ \<Rightarrow> Some (-1))
      | AF_UNSPEC \<Rightarrow> Some 0)"

subsection \<open>Subscribing\<close>

text \<open>The duration a request asks for; -1 is infinite.\<close>

definition requested_timeout :: "net_env \<Rightarrow> gena_request \<Rightarrow> int" where
  "requested_timeout env request =
     (case find_hdr request HDR_TIMEOUT of None \<Rightarrow> 1801
      | Some v \<Rightarrow>
          (case matchstr env v (length v) ''%iSecond-%d%0'' of
             (status, OutInt time_out # _, _) \<Rightarrow>
               if status = PARSE_OK then time_out
               else if value_cmp_nocase v ''Second-infinite'' = 0 then -1 else DEFAULT_TIMEOUT
           | _ \<Rightarrow> if value_cmp_nocase v ''Second-infinite'' = 0 then -1 else DEFAULT_TIMEOUT))"

definition granted_timeout :: "Handle_Info \<Rightarrow> int \<Rightarrow> int" where
  "granted_timeout handle_info time_out =
     (if MaxSubscriptionTimeOut handle_info \<noteq> -1 \<and>
         (time_out = -1 \<or> MaxSubscriptionTimeOut handle_info < time_out)
      then MaxSubscriptionTimeOut handle_info else time_out)"

text \<open>
  What the environment decides: allocations (the path, the subscription, the URLs), the bytes behind the
  header, the new UUID in text form, whether the answer could be sent, and the clock.
\<close>

record request_env =
  path_ok :: bool
  sub_ok :: bool
  urls_ok :: bool
  stray_bytes :: "char \<times> char"
  new_uuid :: string
  respond_rc :: int
  req_time :: int

text \<open>
  The result: the replies, the state, and the service id, UDN and SID passed to the callback of the device if
  the subscription was accepted.
\<close>

type_synonym gena_result = "((gena_reply list \<times> (DOMString \<times> DOMString \<times> string) option) \<times> upnp) option"

definition reply :: "int \<Rightarrow> upnp \<Rightarrow> gena_result" where
  "reply code st = leave ([Status code], None) st"

text \<open>The subscription that \<open>gena_process_subscription_request\<close> makes, before it is linked in.\<close>

definition new_subscription :: "request_env \<Rightarrow> URL_list \<Rightarrow> int \<Rightarrow> subscription" where
  "new_subscription e urls time_out =
     \<lparr>sid = take 43 (''uuid:'' @ new_uuid e), ToSendEventKey = 0,
      expireTime = (if 0 \<le> time_out then req_time e + time_out else 0), sub_active = False,
      DeliveryURLs = urls, outgoing = []\<rparr>"

definition gena_process_subscription_request ::
  "net_env \<Rightarrow> interface \<Rightarrow> request_env \<Rightarrow> upnp \<Rightarrow> gena_request \<Rightarrow> gena_result" where
  "gena_process_subscription_request env gif e st0 request =
     (case find_hdr request HDR_NT of None \<Rightarrow> Some (([Status 400], None), st0)
      | Some nt \<Rightarrow>
        if value_cmp_nocase nt ''upnp:event'' \<noteq> 0 then Some (([Status 412], None), st0)
        else if find_hdr request HDR_SID \<noteq> None then Some (([Status 400], None), st0)
        else if \<not> path_ok e then Some (([Status 500], None), st0)
        else do {
          st \<leftarrow> HandleLock st0;
          (case GetDeviceHandleInfoForPath env st (Some (rq_pathquery request)) (rq_family request) of
             (HND_DEVICE, h, Some i) \<Rightarrow>
               let service = service_at st h i; handle_info = the (slot st h) in
               if \<not> svc_active service then reply 404 st
               else if MaxSubscriptions handle_info \<noteq> -1 \<and> MaxSubscriptions handle_info \<le> TotalSubscriptions service
               then reply 500 st
               else if \<not> sub_ok e then reply 500 st
               else (case find_hdr request HDR_CALLBACK of None \<Rightarrow> reply 412 st
                 | Some callback_hdr \<Rightarrow>
                   let (return_code, urls) =
                         create_url_list env (urls_ok e) (fst (stray_bytes e)) (snd (stray_bytes e)) callback_hdr in
                   if return_code = 0 then reply 412 st
                   else if return_code = UPNP_E_OUTOF_MEMORY then reply 500 st
                   else do {
                     rc \<leftarrow> gena_validate_delivery_urls env gif (rq_family request) urls;
                     if rc \<noteq> 0 then reply 412 st
                     else
                       let time_out = granted_timeout handle_info (requested_timeout env request);
                           sub = new_subscription e urls time_out
                       in if 44 \<le> length (''uuid:'' @ new_uuid e) then leave ([], None) st
                          else if respond_rc e \<noteq> UPNP_E_SUCCESS
                          then leave ([Accepted_Reply time_out (sid sub)], None) st
                          else leave ([Accepted_Reply time_out (sid sub)],
                                      Some (serviceId service, UDN service, sid sub))
                            (put_service st h i (service\<lparr>subscriptionList := sub # subscriptionList service,
                               TotalSubscriptions := TotalSubscriptions service + 1\<rparr>))
                   })
           | (HND_DEVICE, h, None) \<Rightarrow> reply 404 st
           | _ \<Rightarrow> reply 500 st)
        })"
subsection \<open>Renewing and unsubscribing\<close>

text \<open>The SID of a request: the code of the error reply, or the text.\<close>

definition request_sid :: "gena_request \<Rightarrow> int + string" where
  "request_sid request =
     (if find_hdr request HDR_CALLBACK \<noteq> None \<or> find_hdr request HDR_NT \<noteq> None then Inl 400
      else case find_hdr request HDR_SID of None \<Rightarrow> Inl 412
           | Some v \<Rightarrow> if SID_SIZE < length v then Inl 412 else Inr (takeWhile (\<lambda>c. c \<noteq> NUL) v))"

text \<open>The path as C string: a buffer nothing was appended to is \<open>NULL\<close>.\<close>

definition buffer_path :: "string \<Rightarrow> DOMString" where
  "buffer_path p = (if p = [] then None else Some p)"

text \<open>The subscription a request is about; an expired one is removed.\<close>

definition find_subscription ::
  "net_env \<Rightarrow> request_env \<Rightarrow> upnp \<Rightarrow> gena_request \<Rightarrow> string \<Rightarrow> ((int \<times> nat \<times> nat) option \<times> upnp) option" where
  "find_subscription env e st request s =
     (case GetDeviceHandleInfoForPath env st (buffer_path (rq_pathquery request)) (rq_family request) of
        (HND_DEVICE, h, Some i) \<Rightarrow>
          if \<not> svc_active (service_at st h i) then Some (None, st)
          else do {
            (sub, eh, service) \<leftarrow> GetSubscriptionSID (events st) (req_time e) s (service_at st h i);
            Some (map_option (\<lambda>j. (h, i, j)) sub, put_service (st\<lparr>events := eh\<rparr>) h i service)
          }
      | _ \<Rightarrow> Some (None, st))"

definition remove_sub :: "upnp \<Rightarrow> int \<Rightarrow> nat \<Rightarrow> string \<Rightarrow> upnp option" where
  "remove_sub st h i s = do {
     (eh, service) \<leftarrow> RemoveSubscriptionSID (events st) s (service_at st h i);
     Some (put_service (st\<lparr>events := eh\<rparr>) h i service)
   }"

definition gena_process_subscription_renewal_request ::
  "net_env \<Rightarrow> request_env \<Rightarrow> upnp \<Rightarrow> gena_request \<Rightarrow> gena_result" where
  "gena_process_subscription_renewal_request env e st0 request =
     (case request_sid request of Inl code \<Rightarrow> Some (([Status code], None), st0)
      | Inr s \<Rightarrow>
        if \<not> path_ok e then Some (([Status 500], None), st0)
        else do {
          st1 \<leftarrow> HandleLock st0;
          (found, st) \<leftarrow> find_subscription env e st1 request s;
          (case found of None \<Rightarrow> reply 412 st
           | Some (h, i, j) \<Rightarrow>
               let service = service_at st h i; handle_info = the (slot st h); sub = subscriptionList service ! j in
               if MaxSubscriptions handle_info \<noteq> -1 \<and> MaxSubscriptions handle_info < TotalSubscriptions service
               then do { st2 \<leftarrow> remove_sub st h i (sid sub); reply 500 st2 }
               else
                 let time_out = granted_timeout handle_info (requested_timeout env request);
                     service1 = upd_sub service j
                       (\<lambda>x. x\<lparr>expireTime := (if time_out = -1 then 0 else req_time e + time_out)\<rparr>);
                     st2 = put_service st h i service1
                 in if respond_rc e \<noteq> UPNP_E_SUCCESS
                    then do { st3 \<leftarrow> remove_sub st2 h i (sid sub); leave ([Accepted_Reply time_out (sid sub)], None) st3 }
                    else leave ([Accepted_Reply time_out (sid sub)], None) st2)
        })"

definition gena_process_unsubscribe_request ::
  "net_env \<Rightarrow> request_env \<Rightarrow> upnp \<Rightarrow> gena_request \<Rightarrow> gena_result" where
  "gena_process_unsubscribe_request env e st0 request =
     (case request_sid request of Inl code \<Rightarrow> Some (([Status code], None), st0)
      | Inr s \<Rightarrow>
        if \<not> path_ok e then Some (([Status 500], None), st0)
        else do {
          st1 \<leftarrow> HandleLock st0;
          (found, st) \<leftarrow> find_subscription env e st1 request s;
          (case found of None \<Rightarrow> reply 412 st
           | Some (h, i, j) \<Rightarrow> do { st2 \<leftarrow> remove_sub st h i s; reply 200 st2 })
        })"

end
