(* ===== verification/Gena_Queues.thy ===== *)
theory Gena_Queues
  imports Gena_Device
begin

text \<open>
  What eventing guarantees, over every interleaving of calls, requests and thread jobs: memory is used
  safely, at most one message is under way to a subscriber, messages leave in the order of the events
  and with consecutive keys.

  The proofs look at the state in two steps: \<open>view\<close> is what the heap says about each queued structure, and
  \<open>J\<close> relates it to the thread pool, the jobs between their two sections, the log of messages and the
  list of all subscriptions. Each operation is shown to change this picture in one of a few ways.
\<close>

section \<open>Releasing structures\<close>

definition users :: "event_heap \<Rightarrow> addr \<Rightarrow> addr set" where
  "users eh t = {a. \<exists>n. structs eh a = Some n \<and> reference_count n = t}"

text \<open>The counter of a text is at least the number of structures that refer to it.\<close>

definition hwf :: "event_heap \<Rightarrow> bool" where
  "hwf eh \<longleftrightarrow>
     (\<forall>a n. structs eh a = Some n \<longrightarrow> a < ev_brk eh \<and> texts eh (reference_count n) \<noteq> None) \<and>
     (\<forall>t x. texts eh t = Some x \<longrightarrow> t < ev_brk eh \<and> int (card (users eh t)) \<le> ref_count x)"

text \<open>What the heap says about a structure: SID, text, and the handle, service and device it is for.\<close>

type_synonym info = "string \<times> addr \<times> (int \<times> string \<times> string)"

definition view :: "event_heap \<Rightarrow> addr \<Rightarrow> info option" where
  "view eh a =
     (case structs eh a of None \<Rightarrow> None
      | Some n \<Rightarrow>
          (case texts eh (reference_count n) of None \<Rightarrow> None
           | Some x \<Rightarrow> Some (nt_sid n, reference_count n, nt_handle n, ev_servId x, ev_UDN x)))"

definition frees :: "event_heap \<Rightarrow> addr set \<Rightarrow> event_heap \<Rightarrow> bool" where
  "frees eh A eh' \<longleftrightarrow>
     view eh' = view eh |` (- A) \<and> ev_brk eh' = ev_brk eh \<and> hwf eh' \<and>
     (\<forall>t. t \<notin> (fst \<circ> snd) ` (the ` (view eh ` A) ) \<longrightarrow> texts eh' t = texts eh t)"

lemma card_one_member: "a \<in> A \<Longrightarrow> card A = Suc 0 \<Longrightarrow> A = {a}"
  by (metis card_1_singletonE singletonD One_nat_def)

lemma hwf_finite: "hwf eh \<Longrightarrow> finite (users eh t)"
  by (rule finite_subset [of _ "{..<ev_brk eh}"]) (auto simp: users_def hwf_def)

lemma view_struct:
  assumes "hwf eh"
  shows "structs eh a = Some n \<Longrightarrow>
           \<exists>x. texts eh (reference_count n) = Some x \<and>
               view eh a = Some (nt_sid n, reference_count n, nt_handle n, ev_servId x, ev_UDN x)"
    and "structs eh a = None \<longleftrightarrow> view eh a = None"
  using assms by (fastforce simp: view_def hwf_def split: option.splits)+

lemma frees_none [simp]: "hwf eh \<Longrightarrow> frees eh {} eh"
  by (auto simp: frees_def)

lemma frees_trans:
  assumes "frees eh A eh1" "frees eh1 B eh2" "A \<inter> B = {}"
  shows "frees eh (A \<union> B) eh2"
proof -
  have v: "view eh1 = view eh |` (- A)" "view eh2 = view eh1 |` (- B)"
    using assms by (simp_all add: frees_def)
  have "view eh1 ` B = view eh ` B" using assms(3) by (auto simp: v restrict_map_def image_def)
  moreover have "view eh2 = view eh |` (- (A \<union> B))" by (auto simp: v restrict_map_def fun_eq_iff)
  ultimately show ?thesis using assms(1,2) by (auto simp: frees_def image_Un)
qed

lemma free_notify_struct_ok:
  assumes wf: "hwf eh" and s: "structs eh a = Some n"
  shows "\<exists>eh'. free_notify_struct eh a = Some eh' \<and> frees eh {a} eh'"
proof -
  let ?r = "reference_count n"
  obtain x where t: "texts eh ?r = Some x"
    and va: "view eh a = Some (nt_sid n, ?r, nt_handle n, ev_servId x, ev_UDN x)"
    using view_struct(1) [OF wf s] by blast
  let ?c = "ref_count x - 1"
  let ?new = "if ?c = 0 then None else Some (x\<lparr>ref_count := ?c\<rparr>)"
  let ?eh = "eh\<lparr>texts := (texts eh)(?r := ?new), structs := (structs eh)(a := None)\<rparr>"
  have run: "free_notify_struct eh a = Some ?eh" by (simp add: free_notify_struct_def s t Let_def)
  have u: "users ?eh k = users eh k - {a}" for k by (auto simp: users_def)
  have au: "a \<in> users eh ?r" using s by (simp add: users_def)
  have cnt: "int (card (users eh ?r)) \<le> ref_count x" using wf t by (simp add: hwf_def)
  have card: "card (users eh ?r - {a}) = card (users eh ?r) - 1"
    by (rule card_Diff_singleton) (use au hwf_finite [OF wf] in auto)
  have pos: "0 < card (users eh ?r)" using au hwf_finite [OF wf] by (auto simp: card_gt_0_iff)
  have last: "users eh ?r = {a}" if "?c = 0"
    using that cnt pos au by (intro card_one_member) auto
  have other: "reference_count m \<noteq> ?r" if "structs eh b = Some m" "b \<noteq> a" "?c = 0" for b m
    using last that by (auto simp: users_def)
  have wf': "hwf ?eh"
    unfolding hwf_def
  proof (intro conjI allI impI)
    fix b m assume b: "structs ?eh b = Some m"
    then have "structs eh b = Some m" "b \<noteq> a" by (auto split: if_splits)
    then show "b < ev_brk ?eh" "texts ?eh (reference_count m) \<noteq> None"
      using wf other [of b m] by (auto simp: hwf_def)
  next
    fix k y assume k: "texts ?eh k = Some y"
    show "k < ev_brk ?eh" using k wf t by (auto simp: hwf_def split: if_splits)
    show "int (card (users ?eh k)) \<le> ref_count y"
    proof (cases "k = ?r")
      case True
      have "card (users ?eh k) = card (users eh ?r) - 1" unfolding u True card ..
      moreover have "ref_count y = ?c" using True k by (auto split: if_splits)
      ultimately show ?thesis using cnt pos by linarith
    next
      case False
      then have "users ?eh k = users eh k" unfolding u using s by (auto simp: users_def)
      moreover have "texts eh k = Some y" using False k by simp
      ultimately show ?thesis using wf by (simp only: hwf_def)
    qed
  qed
  have v: "view ?eh b = (view eh |` (- {a})) b" for b
  proof (cases "b = a")
    case False
    then show ?thesis
      using other [of b] t by (auto simp: view_def restrict_map_def split: option.splits)
  qed (simp add: view_def)
  have "texts ?eh k = texts eh k" if "k \<notin> (fst \<circ> snd) ` (the ` (view eh ` {a}))" for k
    using that va by auto
  with v wf' have "frees eh {a} ?eh" by (auto simp: frees_def fun_eq_iff)
  with run show ?thesis by blast
qed

definition tail_args :: "subscription \<Rightarrow> addr list" where
  "tail_args sub = map arg (tl (outgoing sub))"

lemma free_queued_loop_ok:
  "hwf eh \<Longrightarrow> distinct (map arg jobs) \<Longrightarrow> \<forall>job\<in>set jobs. view eh (arg job) \<noteq> None \<Longrightarrow>
     \<exists>eh'. free_queued_loop eh False jobs = Some eh' \<and> frees eh (arg ` set jobs) eh'"
proof (induction jobs arbitrary: eh)
  case (Cons job jobs)
  have "structs eh (arg job) \<noteq> None" using Cons.prems by (auto simp: view_struct(2))
  then obtain eh1 where e1: "free_notify_struct eh (arg job) = Some eh1" "frees eh {arg job} eh1"
    using free_notify_struct_ok [OF Cons.prems(1)] by blast
  have "\<exists>eh'. free_queued_loop eh1 False jobs = Some eh' \<and> frees eh1 (arg ` set jobs) eh'"
    using Cons.prems e1(2) by (intro Cons.IH) (auto simp: frees_def restrict_map_def image_iff; metis)+
  moreover have "{arg job} \<inter> arg ` set jobs = {}" using Cons.prems(2) by auto
  ultimately show ?case using e1 frees_trans [OF e1(2)] by (force simp: bind_eq_Some_conv)
qed simp

lemma freeSubscription_ok:
  assumes "hwf eh" "distinct (tail_args sub)" "\<forall>a\<in>set (tail_args sub). view eh a \<noteq> None"
  shows "\<exists>eh'. freeSubscriptionList eh [sub] = Some eh' \<and> frees eh (set (tail_args sub)) eh'"
proof (cases "outgoing sub")
  case (Cons job jobs)
  then obtain eh' where "free_queued_loop eh False jobs = Some eh'" "frees eh (arg ` set jobs) eh'"
    using free_queued_loop_ok [of eh jobs] assms by (auto simp: tail_args_def)
  with Cons show ?thesis
    by (simp add: freeSubscription_def freeSubscriptionQueuedEvents_def tail_args_def)
qed (use assms(1) in \<open>simp add: freeSubscription_def freeSubscriptionQueuedEvents_def tail_args_def\<close>)
section \<open>The picture of the queues\<close>

type_synonym log = "(string \<times> int \<times> addr) list"

definition loc :: "(addr \<Rightarrow> info option) \<Rightarrow> string \<Rightarrow> addr \<Rightarrow> (addr \<times> int \<times> string \<times> string) option" where
  "loc v s a = (case v a of None \<Rightarrow> None | Some (s', r) \<Rightarrow> if s' = s then Some r else None)"

text \<open>The structures of a list that are for the SID \<open>s\<close>.\<close>

definition those :: "(addr \<Rightarrow> info option) \<Rightarrow> string \<Rightarrow> addr list \<Rightarrow> addr list" where
  "those v s as = filter (\<lambda>a. loc v s a \<noteq> None) as"

definition key_seq :: "nat \<Rightarrow> int" where
  "key_seq n = (next_key ^^ n) 0"

definition keys_of :: "log \<Rightarrow> string \<Rightarrow> int list" where
  "keys_of L s = map (fst \<circ> snd) (filter (\<lambda>e. fst e = s) L)"

definition texts_of :: "log \<Rightarrow> string \<Rightarrow> addr list" where
  "texts_of L s = map (snd \<circ> snd) (filter (\<lambda>e. fst e = s) L)"

definition text_at :: "(addr \<Rightarrow> (addr \<times> 'c) option) \<Rightarrow> addr \<Rightarrow> addr" where
  "text_at lv a = (case lv a of None \<Rightarrow> 0 | Some (t, c) \<Rightarrow> t)"

text \<open>
  A subscription: \<open>p\<close> and \<open>q\<close> are the structures for it that wait in the pool and that are between the two
  sections of the thread job, \<open>ks\<close> and \<open>ts\<close> the keys and texts of the messages sent to it so far.
\<close>

definition queue_ok ::
  "(addr \<Rightarrow> (addr \<times> int \<times> string \<times> string) option) \<Rightarrow> addr list \<Rightarrow> addr list \<Rightarrow> int list \<Rightarrow> addr list \<Rightarrow>
   int \<times> string \<times> string \<Rightarrow> subscription \<Rightarrow> bool" where
  "queue_ok lv p q ks ts c sub \<longleftrightarrow>
     length (sid sub) = SID_SIZE \<and> (sub_active sub \<or> outgoing sub = []) \<and>
     (\<forall>a t c'. lv a = Some (t, c') \<longrightarrow> c' = c) \<and>
     (\<forall>a\<in>set p \<union> set q. outgoing sub \<noteq> [] \<and> arg (hd (outgoing sub)) = a) \<and>
     (\<forall>job\<in>set (tl (outgoing sub)). jobId job \<noteq> STALE_JOBID \<and> lv (arg job) \<noteq> None) \<and>
     (if q \<noteq> [] then ks \<noteq> [] \<and> ToSendEventKey sub = last ks else ToSendEventKey sub = key_seq (length ks)) \<and>
     sorted_wrt (<) (ts @ map (text_at lv) (map arg (if p \<noteq> [] then outgoing sub else tl (outgoing sub))))"

definition ok_sub :: "(addr \<Rightarrow> info option) \<Rightarrow> addr list \<Rightarrow> addr list \<Rightarrow> log \<Rightarrow> int \<times> string \<times> string \<Rightarrow> subscription \<Rightarrow> bool" where
  "ok_sub v P S L c sub \<longleftrightarrow>
     queue_ok (loc v (sid sub)) (those v (sid sub) P) (those v (sid sub) S) (keys_of L (sid sub)) (texts_of L (sid sub)) c sub"

definition owned :: "addr list \<Rightarrow> addr list \<Rightarrow> ('c \<times> subscription) list \<Rightarrow> addr list" where
  "owned P S subs = P @ S @ concat (map (tail_args \<circ> snd) subs)"

definition log_ok :: "addr \<Rightarrow> log \<Rightarrow> string set \<Rightarrow> bool" where
  "log_ok mx L U \<longleftrightarrow>
     (\<forall>e\<in>set L. fst e \<in> U \<and> snd (snd e) < mx) \<and>
     (\<forall>s. keys_of L s = map key_seq [0..<length (keys_of L s)] \<and> sorted_wrt (<) (texts_of L s))"

definition J ::
  "(addr \<Rightarrow> info option) \<Rightarrow> addr \<Rightarrow> addr list \<Rightarrow> addr list \<Rightarrow> log \<Rightarrow> string set \<Rightarrow>
   ((int \<times> string \<times> string) \<times> subscription) list \<Rightarrow> bool" where
  "J v mx P S L U subs \<longleftrightarrow>
     distinct (owned P S subs) \<and> (\<forall>a\<in>set (owned P S subs). v a \<noteq> None) \<and>
     distinct (map (sid \<circ> snd) subs) \<and> (\<forall>x\<in>set subs. sid (snd x) \<in> U) \<and>
     (\<forall>a s t c. v a = Some (s, t, c) \<longrightarrow> s \<in> U \<and> t < mx) \<and> log_ok mx L U \<and>
     (\<forall>x\<in>set subs. ok_sub v P S L (fst x) (snd x))"

lemma J_I:
  assumes "distinct (owned P S subs)" "\<forall>a\<in>set (owned P S subs). v a \<noteq> None"
    "distinct (map (sid \<circ> snd) subs)" "\<forall>x\<in>set subs. sid (snd x) \<in> U"
    "\<forall>a s t c. v a = Some (s, t, c) \<longrightarrow> s \<in> U \<and> t < mx" "log_ok mx L U"
    "\<forall>x\<in>set subs. ok_sub v P S L (fst x) (snd x)"
  shows "J v mx P S L U subs"
  using assms by (simp add: J_def)

lemma J_D:
  assumes "J v mx P S L U subs"
  shows "distinct (owned P S subs)" "\<forall>a\<in>set (owned P S subs). v a \<noteq> None"
    "distinct (map (sid \<circ> snd) subs)" "\<forall>x\<in>set subs. sid (snd x) \<in> U"
    "\<forall>a s t c. v a = Some (s, t, c) \<longrightarrow> s \<in> U \<and> t < mx" "log_ok mx L U"
    "\<forall>x\<in>set subs. ok_sub v P S L (fst x) (snd x)"
  using assms by (simp_all add: J_def)

text \<open>Two pictures agree for a SID when every part of them that \<open>queue_ok\<close> looks at does.\<close>

definition same_for ::
  "string \<Rightarrow> (addr \<Rightarrow> info option) \<Rightarrow> addr list \<Rightarrow> addr list \<Rightarrow> log \<Rightarrow>
   (addr \<Rightarrow> info option) \<Rightarrow> addr list \<Rightarrow> addr list \<Rightarrow> log \<Rightarrow> bool" where
  "same_for s v P S L v' P' S' L' \<longleftrightarrow>
     loc v' s = loc v s \<and> those v' s P' = those v s P \<and> those v' s S' = those v s S \<and>
     keys_of L' s = keys_of L s \<and> texts_of L' s = texts_of L s"

lemma ok_sub_same: "same_for (sid sub) v P S L v' P' S' L' \<Longrightarrow> ok_sub v' P' S' L' c sub = ok_sub v P S L c sub"
  by (simp add: same_for_def ok_sub_def)

text \<open>A change that concerns one SID only.\<close>

lemma J_change:
  assumes j: "J v mx P S L U (A @ (c, sub) # B)"
    and oth: "\<And>s. s \<noteq> sid sub \<Longrightarrow> same_for s v P S L v' P' S' L'"
    and mid: "mid = [] \<or> (\<exists>sub'. mid = [(c, sub')] \<and> sid sub' = sid sub \<and> ok_sub v' P' S' L' c sub')"
    and own: "distinct (owned P' S' (A @ mid @ B))" "\<forall>a\<in>set (owned P' S' (A @ mid @ B)). v' a \<noteq> None"
    and live: "\<forall>a s t c. v' a = Some (s, t, c) \<longrightarrow> s \<in> U \<and> t < mx'"
    and log: "log_ok mx' L' U"
  shows "J v' mx' P' S' L' U (A @ mid @ B)"
proof (rule J_I [OF own _ _ live log])
  note d = J_D(3) [OF j] J_D(4) [OF j] J_D(7) [OF j]
  show "distinct (map (sid \<circ> snd) (A @ mid @ B))" using d(1) mid by (elim disjE exE conjE) simp_all
  show "\<forall>x\<in>set (A @ mid @ B). sid (snd x) \<in> U" using d(2) mid by (elim disjE exE conjE) simp_all
  show "\<forall>x\<in>set (A @ mid @ B). ok_sub v' P' S' L' (fst x) (snd x)"
  proof
    fix x assume x: "x \<in> set (A @ mid @ B)"
    show "ok_sub v' P' S' L' (fst x) (snd x)"
    proof (cases "x \<in> set mid")
      case True
      then show ?thesis using mid by auto
    next
      case False
      then have m: "x \<in> set A \<union> set B" using x by auto
      then have "sid (snd x) \<noteq> sid sub" using d(1) by (force simp: image_iff)
      from ok_sub_same [OF oth [OF this]] show ?thesis using d(3) m by auto
    qed
  qed
qed

lemma owned_mem:
  "set (owned P S subs) = set P \<union> set S \<union> (\<Union>x\<in>set subs. set (tail_args (snd x)))"
  by (auto simp: owned_def)

lemma owned_split:
  "owned P S (A @ x # B) = P @ S @ concat (map (tail_args \<circ> snd) A) @ tail_args (snd x) @ concat (map (tail_args \<circ> snd) B)"
  "owned P S (A @ B) = P @ S @ concat (map (tail_args \<circ> snd) A) @ concat (map (tail_args \<circ> snd) B)"
  by (simp_all add: owned_def)

lemma loc_other: "loc v s a \<noteq> None \<Longrightarrow> s' \<noteq> s \<Longrightarrow> loc v s' a = None"
  by (auto simp: loc_def split: option.splits prod.splits if_splits)

lemma tail_loc:
  assumes "J v mx P S L U subs" "(c, sub) \<in> set subs" "a \<in> set (tail_args sub)"
  shows "loc v (sid sub) a \<noteq> None"
  using J_D(7) [OF assms(1)] assms(2,3) by (fastforce simp: ok_sub_def queue_ok_def tail_args_def)

text \<open>Structures of one SID, disjoint from \<open>P\<close> and \<open>S\<close>, are released.\<close>

lemma same_for_release:
  assumes "\<forall>a\<in>D. loc v s a \<noteq> None" "s' \<noteq> s" "D \<inter> (set P \<union> set S) = {}"
  shows "same_for s' v P S L (v |` (- D)) P S L"
proof -
  have l: "loc (v |` (- D)) s' = loc v s'"
  proof
    fix a show "loc (v |` (- D)) s' a = loc v s' a"
      using loc_other [of v s a s'] assms(1,2) by (cases "a \<in> D") (auto simp: loc_def)
  qed
  then show ?thesis by (simp add: same_for_def those_def)
qed

lemma J_remove:
  assumes j: "J v mx P S L U (A @ (c, sub) # B)"
  shows "J (v |` (- set (tail_args sub))) mx P S L U (A @ B)"
proof -
  let ?D = "set (tail_args sub)"
  note d = J_D [OF j]
  have dis: "?D \<inter> (set P \<union> set S) = {}" "\<forall>x\<in>set A \<union> set B. ?D \<inter> set (tail_args (snd x)) = {}"
    using d(1) by (auto simp: owned_split)
  have "J (v |` (- ?D)) mx P S L U (A @ [] @ B)"
  proof (rule J_change [OF j])
    fix s assume "s \<noteq> sid sub"
    moreover have "\<forall>a\<in>?D. loc v (sid sub) a \<noteq> None" using tail_loc [OF j, of c sub] by auto
    ultimately show "same_for s v P S L (v |` (- ?D)) P S L"
      using dis(1) by (intro same_for_release [of _ _ "sid sub"]) auto
  next
    show "distinct (owned P S (A @ [] @ B))" using d(1) by (auto simp: owned_split)
    show "\<forall>a\<in>set (owned P S (A @ [] @ B)). (v |` (- ?D)) a \<noteq> None"
      using d(2) dis by (auto simp: owned_mem restrict_map_def)
    show "\<forall>a s t c. (v |` (- ?D)) a = Some (s, t, c) \<longrightarrow> s \<in> U \<and> t < mx"
      using d(5) by (auto simp: restrict_map_def split: if_splits)
  qed (use d in auto)
  then show ?thesis by simp
qed
section \<open>The ways the picture changes\<close>

lemma all_eq_distinct:
  "distinct xs \<Longrightarrow> \<forall>x\<in>set xs. x = a \<Longrightarrow> (a \<in> set xs \<longleftrightarrow> b) \<Longrightarrow> xs = (if b then [a] else [])"
  by (cases xs rule: remdups_adj.cases) auto

lemma those_set: "a \<in> set (those v s as) \<longleftrightarrow> a \<in> set as \<and> loc v s a \<noteq> None"
  by (simp add: those_def)

lemma those_Nil: "those v s as = [] \<longleftrightarrow> (\<forall>a\<in>set as. loc v s a = None)"
  unfolding those_def filter_empty_conv not_not ..

lemma those_append: "those v s (xs @ ys) = those v s xs @ those v s ys"
  "those v s (a # ys) = (if loc v s a \<noteq> None then [a] else []) @ those v s ys"
  by (simp_all add: those_def)

lemma those_one:
  assumes "J v mx P S L U subs" "(c, sub) \<in> set subs" "a \<in> set P \<union> set S" "loc v (sid sub) a \<noteq> None"
  shows "those v (sid sub) P = (if a \<in> set P then [a] else [])"
    "those v (sid sub) S = (if a \<in> set S then [a] else [])"
    "outgoing sub \<noteq> [] \<and> arg (hd (outgoing sub)) = a" "a \<notin> set (tail_args sub)"
proof -
  note d = J_D [OF assms(1)]
  let ?p = "those v (sid sub) P" and ?q = "those v (sid sub) S"
  have ok: "ok_sub v P S L c sub" using d(7) assms(2) by auto
  then have hd: "\<forall>b\<in>set ?p \<union> set ?q. outgoing sub \<noteq> [] \<and> arg (hd (outgoing sub)) = b"
    by (simp add: ok_sub_def queue_ok_def)
  have a: "a \<in> set ?p \<union> set ?q" using assms(3,4) by (auto simp: those_set)
  then show out: "outgoing sub \<noteq> [] \<and> arg (hd (outgoing sub)) = a" using hd by blast
  have "distinct P" "distinct S" using d(1) by (simp_all add: owned_def)
  then have dd: "distinct ?p" "distinct ?q" by (simp_all add: those_def)
  have p: "\<forall>b\<in>set ?p. b = a" using hd out by (metis UnI1)
  have q: "\<forall>b\<in>set ?q. b = a" using hd out by (metis UnI2)
  show "?p = (if a \<in> set P then [a] else [])"
    by (rule all_eq_distinct [OF dd(1) p]) (use assms(4) in \<open>simp add: those_set\<close>)
  show "?q = (if a \<in> set S then [a] else [])"
    by (rule all_eq_distinct [OF dd(2) q]) (use assms(4) in \<open>simp add: those_set\<close>)
  show "a \<notin> set (tail_args sub)"
  proof
    assume "a \<in> set (tail_args sub)"
    then have "a \<in> set (concat (map (tail_args \<circ> snd) subs))" using assms(2) by force
    then show False using d(1) assms(3) by (auto simp: owned_def)
  qed
qed

lemma queue_ok_lv:
  assumes "queue_ok lv p q ks ts c sub" "\<forall>b. lv' b = None \<or> lv' b = lv b \<or> (\<exists>t. lv' b = Some (t, c))"
    "\<forall>b\<in>set (map arg (if p \<noteq> [] then outgoing sub else tl (outgoing sub))). lv' b = lv b"
  shows "queue_ok lv' p q ks ts c sub"
proof -
  let ?q = "map arg (if p \<noteq> [] then outgoing sub else tl (outgoing sub))"
  have s: "map (text_at lv') ?q = map (text_at lv) ?q"
    by (rule map_cong [OF refl]) (use assms(3) in \<open>simp only: text_at_def\<close>)
  have "set (map arg (tl (outgoing sub))) \<subseteq> set ?q" by (cases "outgoing sub") auto
  then have t: "lv' (arg job) = lv (arg job)" if "job \<in> set (tl (outgoing sub))" for job
    using assms(3) that by auto
  have l: "\<forall>a t c'. lv' a = Some (t, c') \<longrightarrow> c' = c"
    using assms(1,2) unfolding queue_ok_def by (metis option.discI option.inject prod.inject)
  show ?thesis using assms(1) t l unfolding queue_ok_def s by simp
qed

text \<open>The structures a subscription has queued are owned.\<close>

lemma queue_owned:
  assumes j: "J v mx P S L U subs" and x: "(c, sub) \<in> set subs"
    and b: "b \<in> set (map arg (if those v (sid sub) P \<noteq> [] then outgoing sub else tl (outgoing sub)))"
  shows "b \<in> set (owned P S subs)"
proof (cases "b \<in> set (tail_args sub)")
  case True
  then show ?thesis using x by (force simp: owned_mem)
next
  case False
  then have p: "those v (sid sub) P \<noteq> []" using b by (auto simp: tail_args_def split: if_splits)
  then obtain a where a: "a \<in> set (those v (sid sub) P)" by (cases "those v (sid sub) P") auto
  then have "outgoing sub \<noteq> [] \<and> arg (hd (outgoing sub)) = a"
    using J_D(7) [OF j] x by (auto simp: ok_sub_def queue_ok_def)
  then have "b = a" using False b p by (cases "outgoing sub") (auto simp: tail_args_def)
  then show ?thesis using a by (simp add: those_set owned_mem)
qed

text \<open>A structure nothing owns is released.\<close>

lemma J_release:
  assumes j: "J v mx P S L U subs" and a: "a \<notin> set (owned P S subs)"
  shows "J (v |` (- {a})) mx P S L U subs"
proof (rule J_I)
  note d = J_D [OF j]
  let ?v = "v |` (- {a})"
  have l: "loc ?v s b = (if b = a then None else loc v s b)" for s b by (auto simp: loc_def)
  have th: "those ?v s P = those v s P" "those ?v s S = those v s S" for s
    using a by (auto simp: those_def l owned_mem intro!: filter_cong)
  show "\<forall>x\<in>set subs. ok_sub ?v P S L (fst x) (snd x)"
  proof
    fix x assume x: "x \<in> set subs"
    then have ok: "ok_sub v P S L (fst x) (snd x)" using d(7) by blast
    have "\<forall>e\<in>set (map arg (if those v (sid (snd x)) P \<noteq> [] then outgoing (snd x) else tl (outgoing (snd x)))).
            loc ?v (sid (snd x)) e = loc v (sid (snd x)) e"
    proof
      fix e assume "e \<in> set (map arg (if those v (sid (snd x)) P \<noteq> [] then outgoing (snd x) else tl (outgoing (snd x))))"
      then have "e \<in> set (owned P S subs)" using queue_owned [OF j, of "fst x" "snd x" e] x by simp
      then have "e \<noteq> a" using a by blast
      then show "loc ?v (sid (snd x)) e = loc v (sid (snd x)) e" by (simp add: l)
    qed
    with ok show "ok_sub ?v P S L (fst x) (snd x)"
      unfolding ok_sub_def th by (elim queue_ok_lv) (auto simp: l)
  qed
qed (use J_D [OF j] a in \<open>auto simp: restrict_map_def split: if_splits\<close>)

text \<open>A waiting job is forgotten.\<close>

lemma J_forget_pool:
  assumes j: "J v mx (P1 @ a # P2) S L U subs"
  shows "J v mx (P1 @ P2) S L U subs"
proof (rule J_I)
  note d = J_D [OF j]
  show "\<forall>x\<in>set subs. ok_sub v (P1 @ P2) S L (fst x) (snd x)"
  proof
    fix x assume x: "x \<in> set subs"
    then have ok: "ok_sub v (P1 @ a # P2) S L (fst x) (snd x)" using d(7) by blast
    show "ok_sub v (P1 @ P2) S L (fst x) (snd x)"
    proof (cases "loc v (sid (snd x)) a = None")
      case True
      then have "those v (sid (snd x)) (P1 @ P2) = those v (sid (snd x)) (P1 @ a # P2)"
        by (simp add: those_append)
      with ok show ?thesis by (simp add: ok_sub_def)
    next
      case False
      note one = those_one [OF j, of "fst x" "snd x" a]
      have p: "those v (sid (snd x)) (P1 @ a # P2) = [a]" "those v (sid (snd x)) S = []"
        using one x False d(1) by (auto simp: owned_def)
      then have "those v (sid (snd x)) (P1 @ P2) = []"
        using False by (auto simp: those_append append_eq_Cons_conv Cons_eq_append_conv)
      moreover have "outgoing (snd x) \<noteq> []" using one x False by auto
      ultimately show ?thesis using ok p(2) unfolding ok_sub_def queue_ok_def p(1)
        by (cases "outgoing (snd x)") (auto simp: sorted_wrt_append)
    qed
  qed
  show "distinct (owned (P1 @ P2) S subs)" using d(1) by (auto simp: owned_def)
  show "\<forall>a\<in>set (owned (P1 @ P2) S subs). v a \<noteq> None" using d(2) by (auto simp: owned_def)
qed (use J_D [OF j] in auto)

text \<open>A job between its sections is forgotten when the subscription it is for is gone.\<close>

lemma J_forget_sending:
  assumes j: "J v mx P (S1 @ a # S2) L U subs" and gone: "\<forall>x\<in>set subs. loc v (sid (snd x)) a = None"
  shows "J v mx P (S1 @ S2) L U subs"
proof (rule J_I)
  note d = J_D [OF j]
  show "\<forall>x\<in>set subs. ok_sub v P (S1 @ S2) L (fst x) (snd x)"
    using d(7) gone by (auto simp: ok_sub_def those_append)
  show "distinct (owned P (S1 @ S2) subs)" using d(1) by (auto simp: owned_def)
  show "\<forall>a\<in>set (owned P (S1 @ S2) subs). v a \<noteq> None" using d(2) by (auto simp: owned_def)
qed (use J_D [OF j] in auto)

text \<open>A change of fields that do not matter here.\<close>

lemma J_fields:
  assumes "J v mx P S L U (A @ (c, sub) # B)" "sid sub' = sid sub" "ToSendEventKey sub' = ToSendEventKey sub"
    "outgoing sub' = outgoing sub" "sub_active sub' \<or> outgoing sub = []"
  shows "J v mx P S L U (A @ (c, sub') # B)"
proof -
  have "J v mx P S L U (A @ [(c, sub')] @ B)"
  proof (rule J_change [OF assms(1)])
    have "ok_sub v P S L c sub" using J_D(7) [OF assms(1)] by simp
    then have "ok_sub v P S L c sub'" using assms(5) unfolding ok_sub_def queue_ok_def assms(2-4) by blast
    then show "[(c, sub')] = [] \<or> (\<exists>sub''. [(c, sub')] = [(c, sub'')] \<and> sid sub'' = sid sub \<and> ok_sub v P S L c sub'')"
      using assms(2) by simp
    show "distinct (owned P S (A @ [(c, sub')] @ B))" "\<forall>a\<in>set (owned P S (A @ [(c, sub')] @ B)). v a \<noteq> None"
      using J_D(1,2) [OF assms(1)] assms(4) by (simp_all add: owned_split tail_args_def)
  qed (use J_D [OF assms(1)] in \<open>auto simp: same_for_def\<close>)
  then show ?thesis by simp
qed

text \<open>A new subscription.\<close>

lemma J_subscribe:
  assumes j: "J v mx P S L U (A @ B)" and new: "sid sub \<notin> U" "length (sid sub) = SID_SIZE"
    "ToSendEventKey sub = 0" "outgoing sub = []"
  shows "J v mx P S L (insert (sid sub) U) (A @ (c, sub) # B)"
proof (rule J_I)
  note d = J_D [OF j]
  have l: "loc v (sid sub) a = None" for a using d(5) new(1) by (force simp: loc_def split: option.splits)
  have f: "filter (\<lambda>e. fst e = sid sub) L = []" using d(6) new(1) by (auto simp: log_ok_def filter_empty_conv)
  have "ok_sub v P S L c sub"
    using new by (simp add: ok_sub_def queue_ok_def those_def l keys_of_def texts_of_def f key_seq_def)
  then show "\<forall>x\<in>set (A @ (c, sub) # B). ok_sub v P S L (fst x) (snd x)" using d(7) by auto
  show "distinct (map (sid \<circ> snd) (A @ (c, sub) # B))" using d(3,4) new(1) by (force simp: image_iff)
  show "distinct (owned P S (A @ (c, sub) # B))" "\<forall>a\<in>set (owned P S (A @ (c, sub) # B)). v a \<noteq> None"
    using d(1,2) new(4) by (auto simp: owned_split tail_args_def)
  show "log_ok mx L (insert (sid sub) U)" using d(6) by (auto simp: log_ok_def)
qed (use J_D [OF j] in auto)

section \<open>Sending and queueing in the picture\<close>

lemma key_seq_Suc: "key_seq (Suc n) = next_key (key_seq n)"
  by (simp add: key_seq_def)

lemma log_of_snoc:
  "keys_of (L @ [(s, k, t)]) s' = keys_of L s' @ (if s' = s then [k] else [])"
  "texts_of (L @ [(s, k, t)]) s' = texts_of L s' @ (if s' = s then [t] else [])"
  by (simp_all add: keys_of_def texts_of_def)

lemma log_ok_snoc:
  assumes "log_ok mx L U" "s \<in> U" "t < mx" "k = key_seq (length (keys_of L s))" "\<forall>x\<in>set (texts_of L s). x < t"
  shows "log_ok mx (L @ [(s, k, t)]) U"
proof -
  have "keys_of (L @ [(s, k, t)]) s' = map key_seq [0..<length (keys_of (L @ [(s, k, t)]) s')]" for s'
  proof (cases "s' = s")
    case True
    have "keys_of (L @ [(s, k, t)]) s = map key_seq [0..<length (keys_of L s)] @ [key_seq (length (keys_of L s))]"
      using assms(1,4) by (simp add: log_of_snoc log_ok_def)
    then show ?thesis by (simp add: True log_of_snoc)
  qed (use assms(1) in \<open>simp add: log_of_snoc log_ok_def\<close>)
  moreover have "sorted_wrt (<) (texts_of (L @ [(s, k, t)]) s')" for s'
    using assms(1,5) by (simp add: log_of_snoc log_ok_def sorted_wrt_append)
  ultimately show ?thesis using assms(1-3) by (auto simp: log_ok_def)
qed

lemma loc_text: "loc v s a = Some (t, c) \<longleftrightarrow> v a = Some (s, t, c)"
  by (auto simp: loc_def split: option.splits prod.splits if_splits)

text \<open>The first section of the thread job: the structure leaves the pool and a message is logged.\<close>

lemma J_begin:
  assumes j: "J v mx (P1 @ a # P2) S L U (A @ (c, sub) # B)" and a: "v a = Some (sid sub, t, c)"
  shows "J v mx (P1 @ P2) (S @ [a]) (L @ [(sid sub, ToSendEventKey sub, t)]) U (A @ (c, sub) # B)"
proof -
  note d = J_D [OF j]
  let ?s = "sid sub" and ?o = "outgoing sub"
  have la: "loc v ?s a = Some (t, c)" using a by (simp add: loc_text)
  have l': "loc v s a = None" if "s \<noteq> ?s" for s using a that by (simp add: loc_def)
  have ok: "ok_sub v (P1 @ a # P2) S L c sub" using d(7) by simp
  have one: "those v ?s (P1 @ a # P2) = [a]" "those v ?s S = []" "?o \<noteq> []" "arg (hd ?o) = a"
    using those_one [OF j, of c sub a] la d(1) by (auto simp: owned_def)
  have p: "those v ?s (P1 @ P2) = []"
    using one(1) la by (auto simp: those_append append_eq_Cons_conv Cons_eq_append_conv)
  have q: "those v ?s (S @ [a]) = [a]" using one(2) la by (cases c) (simp add: those_append those_def)
  obtain job jobs where o: "?o = job # jobs" "arg job = a" using one(3,4) by (cases ?o) auto
  have k: "ToSendEventKey sub = key_seq (length (keys_of L ?s))"
    and srt: "sorted_wrt (<) (texts_of L ?s @ t # map (text_at (loc v ?s)) (map arg jobs))"
    using ok unfolding ok_sub_def queue_ok_def one(1,2) by (simp_all add: o text_at_def la)
  have "J v mx (P1 @ P2) (S @ [a]) (L @ [(?s, ToSendEventKey sub, t)]) U (A @ [(c, sub)] @ B)"
  proof (rule J_change [OF j])
    fix s assume "s \<noteq> ?s"
    then show "same_for s v (P1 @ a # P2) S L v (P1 @ P2) (S @ [a]) (L @ [(?s, ToSendEventKey sub, t)])"
      by (simp add: same_for_def those_append those_def [of _ _ "[]"] l' log_of_snoc)
  next
    have "ok_sub v (P1 @ P2) (S @ [a]) (L @ [(?s, ToSendEventKey sub, t)]) c sub"
      using ok srt unfolding ok_sub_def queue_ok_def one(1,2) p q
      by (simp add: log_of_snoc o)
    then show "[(c, sub)] = [] \<or> (\<exists>sub'. [(c, sub)] = [(c, sub')] \<and> sid sub' = ?s \<and>
        ok_sub v (P1 @ P2) (S @ [a]) (L @ [(?s, ToSendEventKey sub, t)]) c sub')" by blast
    show "distinct (owned (P1 @ P2) (S @ [a]) (A @ [(c, sub)] @ B))"
      "\<forall>a\<in>set (owned (P1 @ P2) (S @ [a]) (A @ [(c, sub)] @ B)). v a \<noteq> None"
      using d(1,2) by (auto simp: owned_def)
    have "?s \<in> U" "t < mx" using d(5) a by blast+
    then show "log_ok mx (L @ [(?s, ToSendEventKey sub, t)]) U"
      using srt by (intro log_ok_snoc [OF d(6)] k) (auto simp: sorted_wrt_append)
  qed (use d in auto)
  then show ?thesis by simp
qed

text \<open>
  The second section: the next structure of the queue becomes active, and waits in the pool if the pool
  accepted it.
\<close>

lemma J_end:
  assumes j: "J v mx P (S1 @ a # S2) L U (A @ (c, sub) # B)" and a: "v a = Some (sid sub, t, c)"
    and sub': "sid sub' = sid sub" "ToSendEventKey sub' = next_key (ToSendEventKey sub)" "sub_active sub'"
    and q: "tl (outgoing sub) = [] \<and> outgoing sub' = [] \<and> P' = P \<or>
            (\<exists>job jobs. tl (outgoing sub) = job # jobs \<and> outgoing sub' = job\<lparr>jobId := i\<rparr> # jobs \<and>
               (P' = P \<or> P' = P @ [arg job]))"
  shows "J v mx P' (S1 @ S2) L U (A @ (c, sub') # B)"
    "a \<notin> set (owned P' (S1 @ S2) (A @ (c, sub') # B))"
proof -
  note d = J_D [OF j]
  let ?s = "sid sub" and ?o = "outgoing sub"
  have la: "loc v ?s a = Some (t, c)" using a by (simp add: loc_text)
  have l': "loc v s a = None" if "s \<noteq> ?s" for s using a that by (simp add: loc_def)
  have ok: "ok_sub v P (S1 @ a # S2) L c sub" using d(7) by simp
  have one: "those v ?s P = []" "those v ?s (S1 @ a # S2) = [a]"
    using those_one [OF j, of c sub a] la d(1) by (auto simp: owned_def)
  have q0: "those v ?s (S1 @ S2) = []"
    using one(2) la by (auto simp: those_append append_eq_Cons_conv Cons_eq_append_conv)
  have P': "P' = P \<or> (\<exists>b. b \<in> set (tail_args sub) \<and> P' = P @ [b])" using q by (auto simp: tail_args_def)
  have tl: "loc v s b = None" if "b \<in> set (tail_args sub)" "s \<noteq> ?s" for s b
    using tail_loc [OF j, of c sub b] that loc_other [of v ?s b s] by simp
  have oth: "those v s P' = those v s P" if "s \<noteq> ?s" for s
    using P' tl that by (auto simp: those_append those_def [of _ _ "[]"])
  have key: "ToSendEventKey sub' = key_seq (length (keys_of L ?s))"
  proof -
    let ?n = "length (keys_of L ?s)"
    have "keys_of L ?s = map key_seq [0..<?n]" using d(6) by (simp only: log_ok_def)
    moreover have ne: "keys_of L ?s \<noteq> []" and "ToSendEventKey sub = last (keys_of L ?s)"
      using ok unfolding ok_sub_def queue_ok_def one(2) by simp_all
    ultimately have "ToSendEventKey sub = key_seq (?n - 1)"
      by (metis last_map last_upt length_greater_0_conv upt_eq_Nil_conv map_is_Nil_conv)
    then show ?thesis using ne key_seq_Suc [of "?n - 1"] by (simp add: sub'(2))
  qed
  have ok': "ok_sub v P' (S1 @ S2) L c sub'"
    using q
  proof (elim disjE exE conjE)
    assume "tl ?o = []" "outgoing sub' = []" "P' = P"
    then show ?thesis using ok unfolding ok_sub_def queue_ok_def sub'(1) one q0
      by (simp add: sub'(1,3) key one)
  next
    fix job jobs assume o: "tl ?o = job # jobs" "outgoing sub' = job\<lparr>jobId := i\<rparr> # jobs" "P' = P"
    show ?thesis using ok unfolding ok_sub_def queue_ok_def sub'(1) one q0 o
      by (auto simp: sub'(1,3) key one sorted_wrt_append)
  next
    fix job jobs assume o: "tl ?o = job # jobs" "outgoing sub' = job\<lparr>jobId := i\<rparr> # jobs" "P' = P @ [arg job]"
    have "loc v ?s (arg job) \<noteq> None" using tail_loc [OF j, of c sub] o(1) by (simp add: tail_args_def)
    then have p: "those v ?s P' = [arg job]" unfolding o(3) by (simp add: those_append one those_def [of _ _ "[]"])
    show ?thesis using ok unfolding ok_sub_def queue_ok_def sub'(1) one p q0 o(1,2)
      by (simp add: sub'(1,3) key)
  qed
  have "J v mx P' (S1 @ S2) L U (A @ [(c, sub')] @ B)"
  proof (rule J_change [OF j])
    fix s assume "s \<noteq> ?s"
    then show "same_for s v P (S1 @ a # S2) L v P' (S1 @ S2) L"
      by (simp add: same_for_def those_append l' oth)
  next
    show "[(c, sub')] = [] \<or> (\<exists>sub''. [(c, sub')] = [(c, sub'')] \<and> sid sub'' = ?s \<and> ok_sub v P' (S1 @ S2) L c sub'')"
      using ok' sub'(1) by simp
    have own: "distinct (owned P' (S1 @ S2) (A @ [(c, sub')] @ B)) \<and>
        set (owned P' (S1 @ S2) (A @ [(c, sub')] @ B)) \<subseteq> set (owned P (S1 @ a # S2) (A @ (c, sub) # B))"
      using q
    proof (elim disjE exE conjE)
    qed (use d(1) in \<open>auto simp: owned_split tail_args_def\<close>)
    then show "distinct (owned P' (S1 @ S2) (A @ [(c, sub')] @ B))" ..
    show "\<forall>a\<in>set (owned P' (S1 @ S2) (A @ [(c, sub')] @ B)). v a \<noteq> None"
      using d(2) own by blast
  qed (use d in auto)
  then show "J v mx P' (S1 @ S2) L U (A @ (c, sub') # B)" by simp
  have "set P' \<subseteq> set P \<union> set (tail_args sub)" "set (tail_args sub') \<subseteq> set (tail_args sub)"
    using q by (auto simp: tail_args_def)
  then show "a \<notin> set (owned P' (S1 @ S2) (A @ (c, sub') # B))" using d(1) by (auto simp: owned_split)
qed

text \<open>A new structure, which nothing owns yet.\<close>

lemma J_new:
  assumes j: "J v mx P S L U subs" and new: "v b = None" "s \<in> U" "t < mx'" "mx \<le> mx'"
    and c: "\<forall>x\<in>set subs. sid (snd x) = s \<longrightarrow> fst x = c"
  shows "J (v(b \<mapsto> (s, t, c))) mx' P S L U subs"
proof (rule J_I)
  note d = J_D [OF j]
  let ?v = "v(b \<mapsto> (s, t, c))"
  have b: "b \<notin> set (owned P S subs)" using d(2) new(1) by auto
  have l: "loc ?v s' a = (if a = b then if s' = s then Some (t, c) else None else loc v s' a)" for s' a
    by (auto simp: loc_def)
  have th: "those ?v s' P = those v s' P" "those ?v s' S = those v s' S" for s'
    using b by (auto simp: those_def l owned_mem intro!: filter_cong)
  show "\<forall>x\<in>set subs. ok_sub ?v P S L (fst x) (snd x)"
  proof
    fix x assume x: "x \<in> set subs"
    then have ok: "ok_sub v P S L (fst x) (snd x)" using d(7) by blast
    have "\<forall>e\<in>set (map arg (if those v (sid (snd x)) P \<noteq> [] then outgoing (snd x) else tl (outgoing (snd x)))).
            loc ?v (sid (snd x)) e = loc v (sid (snd x)) e"
    proof
      fix e assume "e \<in> set (map arg (if those v (sid (snd x)) P \<noteq> [] then outgoing (snd x) else tl (outgoing (snd x))))"
      then have "e \<in> set (owned P S subs)" using queue_owned [OF j, of "fst x" "snd x" e] x by simp
      then have "e \<noteq> b" using b by blast
      then show "loc ?v (sid (snd x)) e = loc v (sid (snd x)) e" by (simp add: l)
    qed
    with ok c x show "ok_sub ?v P S L (fst x) (snd x)"
      unfolding ok_sub_def th by (elim queue_ok_lv) (auto simp: l)
  qed
  have "\<forall>e\<in>set L. fst e \<in> U \<and> snd (snd e) < mx'" using d(6) new(4) by (auto simp: log_ok_def)
  then show "log_ok mx' L U" using d(6) by (simp add: log_ok_def)
  show "\<forall>a s' t' c'. ?v a = Some (s', t', c') \<longrightarrow> s' \<in> U \<and> t' < mx'"
  proof (intro allI impI)
    fix a s' t' c' assume "?v a = Some (s', t', c')"
    then have "s' = s \<and> t' = t \<or> v a = Some (s', t', c')" by (auto split: if_splits)
    then show "s' \<in> U \<and> t' < mx'" using new d(5) by fastforce
  qed
  show "\<forall>a\<in>set (owned P S subs). ?v a \<noteq> None" using d(2) by (metis fun_upd_apply option.discI)
qed (use J_D [OF j] in auto)

text \<open>The second event of a queue is dropped.\<close>

lemma J_discard:
  assumes j: "J v mx P S L U (A @ (c, sub) # B)" and o: "outgoing sub = first # x # rest"
  shows "J v mx P S L U (A @ (c, sub\<lparr>outgoing := first # rest\<rparr>) # B)"
    "arg x \<notin> set (owned P S (A @ (c, sub\<lparr>outgoing := first # rest\<rparr>) # B))"
proof -
  note d = J_D [OF j]
  let ?sub = "sub\<lparr>outgoing := first # rest\<rparr>"
  have ok: "ok_sub v P S L c sub" using d(7) by simp
  have ok': "ok_sub v P S L c ?sub"
    using ok by (auto simp: ok_sub_def queue_ok_def o sorted_wrt_append)
  have "J v mx P S L U (A @ [(c, ?sub)] @ B)"
  proof (rule J_change [OF j])
    show "[(c, ?sub)] = [] \<or> (\<exists>sub'. [(c, ?sub)] = [(c, sub')] \<and> sid sub' = sid sub \<and> ok_sub v P S L c sub')"
      using ok' by simp
    show "distinct (owned P S (A @ [(c, ?sub)] @ B))" "\<forall>a\<in>set (owned P S (A @ [(c, ?sub)] @ B)). v a \<noteq> None"
      using d(1,2) by (simp_all add: owned_split tail_args_def o)
  qed (use d in \<open>auto simp: same_for_def\<close>)
  then show "J v mx P S L U (A @ (c, ?sub) # B)" by simp
  show "arg x \<notin> set (owned P S (A @ (c, ?sub) # B))"
    using d(1) by (auto simp: owned_split tail_args_def o)
qed

lemma ok_sub_head:
  "ok_sub v P S L c sub \<Longrightarrow>
     \<forall>a\<in>set (those v (sid sub) P) \<union> set (those v (sid sub) S). outgoing sub \<noteq> [] \<and> arg (hd (outgoing sub)) = a"
  by (simp add: ok_sub_def queue_ok_def)

lemma idle_none:
  assumes "ok_sub v P S L c sub" "outgoing sub = []"
  shows "those v (sid sub) P = []" "those v (sid sub) S = []"
proof -
  have "\<forall>a. a \<notin> set (those v (sid sub) P) \<and> a \<notin> set (those v (sid sub) S)"
    using ok_sub_head [OF assms(1)] by (simp add: assms(2))
  then show "those v (sid sub) P = []" "those v (sid sub) S = []"
    by (metis list.set_intros(1) neq_Nil_conv)+
qed

text \<open>A structure for the newest text joins the queue; alone, it may wait in the pool at once.\<close>

lemma J_enqueue:
  assumes j: "J v mx P S L U (A @ (c, sub) # B)" and b: "v b = Some (sid sub, t, c)"
    and own: "b \<notin> set (owned P S (A @ (c, sub) # B))"
    and newest: "log_ok t L U" "\<forall>a x c'. a \<noteq> b \<longrightarrow> v a = Some (sid sub, x, c') \<longrightarrow> x < t"
    and sub': "sid sub' = sid sub" "ToSendEventKey sub' = ToSendEventKey sub" "sub_active sub'"
    and q: "outgoing sub \<noteq> [] \<and> outgoing sub' = outgoing sub @ [job] \<and> arg job = b \<and> jobId job \<noteq> STALE_JOBID \<and> P' = P \<or>
            outgoing sub = [] \<and> outgoing sub' = [job] \<and> arg job = b \<and> (P' = P \<or> P' = P @ [b])"
  shows "J v mx P' S L U (A @ (c, sub') # B)"
proof -
  note d = J_D [OF j]
  let ?s = "sid sub" and ?o = "outgoing sub"
  have lb: "loc v ?s b = Some (t, c)" using b by (simp add: loc_text)
  have oth: "those v s P' = those v s P" if "s \<noteq> ?s" for s
    using q b that by (auto simp: those_append those_def [of _ _ "[]"] loc_def)
  have ok: "ok_sub v P S L c sub" using d(7) by simp
  have old: "\<forall>x\<in>set (texts_of L ?s). x < t" using newest(1) by (auto simp: log_ok_def texts_of_def)
  have nb: "b \<notin> set (tail_args sub)" "b \<notin> set P" "b \<notin> set S" using own by (auto simp: owned_split)
  have ok': "ok_sub v P' S L c sub'"
    using q
  proof (elim disjE exE conjE)
    assume o: "?o \<noteq> []" "outgoing sub' = ?o @ [job]" "arg job = b" "jobId job \<noteq> STALE_JOBID" "P' = P"
    let ?q = "map arg (if those v ?s P \<noteq> [] then ?o else tl ?o)"
    have "\<forall>a\<in>set ?q. text_at (loc v ?s) a < t"
    proof
      fix a assume a: "a \<in> set ?q"
      then have "a \<in> set (owned P S (A @ (c, sub) # B))" using queue_owned [OF j, of c sub a] by simp
      then have ne: "a \<noteq> b" "v a \<noteq> None" using own d(2) by auto
      have "loc v ?s a \<noteq> None"
      proof (cases "a \<in> set (tail_args sub)")
        case True
        then show ?thesis using tail_loc [OF j, of c sub a] by simp
      next
        case False
        then have p: "those v ?s P \<noteq> []" using a by (auto simp: tail_args_def split: if_splits)
        then obtain h where h: "h \<in> set (those v ?s P)" by (cases "those v ?s P") auto
        then have "arg (hd ?o) = h" using ok by (auto simp: ok_sub_def queue_ok_def)
        moreover have "a = arg (hd ?o)" using False a p by (cases ?o) (auto simp: tail_args_def)
        ultimately show ?thesis using h by (simp add: those_set)
      qed
      then obtain x c' where x: "loc v ?s a = Some (x, c')" by (cases "loc v ?s a") auto
      then have "x < t" using newest(2) ne(1) by (metis loc_text)
      then show "text_at (loc v ?s) a < t" by (simp only: text_at_def x option.case prod.case)
    qed
    moreover have "text_at (loc v ?s) b = t" by (simp add: text_at_def lb)
    ultimately have srt: "\<forall>x\<in>set (texts_of L ?s @ map (text_at (loc v ?s)) ?q). x < text_at (loc v ?s) b" using old by auto
    have q': "map arg (if those v ?s P \<noteq> [] then ?o @ [job] else tl (?o @ [job])) = ?q @ [b]"
      using o(1,3) by simp
    have tl: "\<forall>x\<in>set (tl (?o @ [job])). jobId x \<noteq> STALE_JOBID \<and> loc v ?s (arg x) \<noteq> None"
    proof -
      have "loc v ?s (arg job) \<noteq> None" using lb o(3) by (metis option.discI)
      then show ?thesis using ok o(1,4) by (simp add: ok_sub_def queue_ok_def del: not_None_eq)
    qed
    have "hd (?o @ [job]) = hd ?o" "?o @ [job] \<noteq> []" using o(1) by simp_all
    with ok srt tl show ?thesis
      unfolding ok_sub_def queue_ok_def sub'(1) o(2,5) q' map_append append_assoc [symmetric]
      by (simp add: sub' sorted_wrt_append del: not_None_eq)
  next
    assume o: "?o = []" "outgoing sub' = [job]" "arg job = b" "P' = P"
    have "those v ?s P = []" "those v ?s S = []" using idle_none [OF ok o(1)] by simp_all
    then show ?thesis using ok unfolding ok_sub_def queue_ok_def sub'(1) o
      by (simp add: sub')
  next
    assume o: "?o = []" "outgoing sub' = [job]" "arg job = b" "P' = P @ [b]"
    have pq: "those v ?s P = []" "those v ?s S = []" using idle_none [OF ok o(1)] by simp_all
    have p: "those v ?s P' = [b]" unfolding o(4) those_append pq by (cases c) (simp add: lb those_def)
    show ?thesis using ok old unfolding ok_sub_def queue_ok_def sub'(1) o(1-3) p pq
      by (simp add: sub' sorted_wrt_append text_at_def lb o(3))
  qed
  have "J v mx P' S L U (A @ [(c, sub')] @ B)"
  proof (rule J_change [OF j])
    fix s assume "s \<noteq> ?s"
    then show "same_for s v P S L v P' S L" by (simp add: same_for_def oth)
  next
    show "[(c, sub')] = [] \<or> (\<exists>sub''. [(c, sub')] = [(c, sub'')] \<and> sid sub'' = ?s \<and> ok_sub v P' S L c sub'')"
      using ok' sub'(1) by simp
    define X Y where "X = concat (map (tail_args \<circ> snd) A)" and "Y = concat (map (tail_args \<circ> snd) B)"
    have sp: "owned Q S (A @ (c, s) # B) = Q @ S @ X @ tail_args s @ Y" for Q s
      by (simp add: owned_split X_def Y_def)
    show "distinct (owned P' S (A @ [(c, sub')] @ B))"
      using d(1) q own by (cases ?o) (auto simp: sp tail_args_def)
    have "set (owned P' S (A @ [(c, sub')] @ B)) \<subseteq> insert b (set (owned P S (A @ (c, sub) # B)))"
      using q by (cases ?o) (auto simp: owned_split tail_args_def)
    then show "\<forall>a\<in>set (owned P' S (A @ [(c, sub')] @ B)). v a \<noteq> None" using d(2) b by blast
  qed (use d in auto)
  then show ?thesis by simp
qed

end
