(* ===== verification/Gena_State.thy ===== *)
theory Gena_State
  imports Gena_Queues
begin

text \<open>
  The invariant of eventing over the state of the SDK. Every call, request and thread job is shown to
  run without a fault and to keep it; the steps of the whole system are composed from these lemmas in
  \<open>Gena_Props\<close>.
\<close>

section \<open>All subscriptions\<close>

type_synonym ctxt = "int \<times> string \<times> string"

definition svc_context :: "int \<Rightarrow> service_info \<Rightarrow> ctxt" where
  "svc_context h s = (h, the (serviceId s), the (UDN s))"

definition svc_subs :: "int \<Rightarrow> service_info \<Rightarrow> (ctxt \<times> subscription) list" where
  "svc_subs h s = map (Pair (svc_context h s)) (subscriptionList s)"

definition slot_subs :: "upnp \<Rightarrow> int \<Rightarrow> (ctxt \<times> subscription) list" where
  "slot_subs st h =
     (case slot st h of None \<Rightarrow> []
      | Some i \<Rightarrow> if HType i = HND_DEVICE then concat (map (svc_subs h) (serviceList (ServiceTable i))) else [])"

definition csubs :: "upnp \<Rightarrow> (ctxt \<times> subscription) list" where
  "csubs st = concat (map (\<lambda>k. slot_subs st (int k)) [1..<NUM_HANDLE])"

text \<open>
  Services have an id and a UDN, are active and count their subscriptions, which have delivery URLs; in a device, the pair of id and
  UDN is unique; a table that was released is empty.
\<close>

definition has_urls :: "subscription \<Rightarrow> bool" where
  "has_urls sub \<longleftrightarrow> URLs (DeliveryURLs sub) \<noteq> None"

definition service_wf :: "service_info \<Rightarrow> bool" where
  "service_wf s \<longleftrightarrow> serviceId s \<noteq> None \<and> UDN s \<noteq> None \<and> svc_active s \<and>
     TotalSubscriptions s = int (length (subscriptionList s)) \<and> (\<forall>x\<in>set (subscriptionList s). has_urls x)"

definition svc_key :: "service_info \<Rightarrow> DOMString \<times> DOMString" where
  "svc_key s = (serviceId s, UDN s)"

definition table_wf :: "service_table \<Rightarrow> bool" where
  "table_wf t \<longleftrightarrow> (\<forall>s\<in>set (serviceList t). service_wf s) \<and> distinct (map svc_key (serviceList t))"

definition tables_wf :: "upnp \<Rightarrow> bool" where
  "tables_wf st \<longleftrightarrow> length (HandleTable st) = NUM_HANDLE \<and>
     (\<forall>h info. slot st h = Some info \<longrightarrow> HType info = HND_DEVICE \<longrightarrow> table_wf (ServiceTable info))"

text \<open>\<open>P\<close> are the structures that wait in the thread pool, \<open>S\<close> those between the two sections of the thread job.\<close>

definition core :: "upnp \<Rightarrow> addr list \<Rightarrow> addr list \<Rightarrow> log \<Rightarrow> string set \<Rightarrow> bool" where
  "core st P S L U \<longleftrightarrow> tables_wf st \<and> hwf (events st) \<and> J (view (events st)) (ev_brk (events st)) P S L U (csubs st)"

text \<open>The place of a service: its handle is a device with that many services.\<close>

definition has_service :: "upnp \<Rightarrow> int \<Rightarrow> nat \<Rightarrow> bool" where
  "has_service st h i \<longleftrightarrow>
     (case slot st h of None \<Rightarrow> False
      | Some info \<Rightarrow> HType info = HND_DEVICE \<and> i < length (serviceList (ServiceTable info)))"

section \<open>Changing one service\<close>

lemma slot_range: "slot st h = Some i \<Longrightarrow> 1 \<le> h \<and> h < int NUM_HANDLE"
  by (auto simp: slot_def split: if_splits)

lemma slot_eq: "1 \<le> h \<Longrightarrow> h < int NUM_HANDLE \<Longrightarrow> slot st h = HandleTable st ! nat h"
  by (simp add: slot_def)

lemma slot_set_slot:
  assumes "length (HandleTable st) = NUM_HANDLE" "1 \<le> h" "h < int NUM_HANDLE"
  shows "slot (set_slot st h x) h' = (if h' = h then x else slot st h')"
  using assms by (auto simp: slot_def set_slot_def nth_list_update nat_eq_iff)

lemma set_slot_fields [simp]:
  "events (set_slot st h x) = events st" "gSendThreadPool (set_slot st h x) = gSendThreadPool st"
  "locked (set_slot st h x) = locked st" "length (HandleTable (set_slot st h x)) = length (HandleTable st)"
  "g_UpnpSdkEQMaxLen (set_slot st h x) = g_UpnpSdkEQMaxLen st"
  "g_UpnpSdkEQMaxAge (set_slot st h x) = g_UpnpSdkEQMaxAge st"
  by (simp_all add: set_slot_def)

lemma put_service_fields [simp]:
  "events (put_service st h i s) = events st" "gSendThreadPool (put_service st h i s) = gSendThreadPool st"
  "locked (put_service st h i s) = locked st" "length (HandleTable (put_service st h i s)) = length (HandleTable st)"
  "g_UpnpSdkEQMaxLen (put_service st h i s) = g_UpnpSdkEQMaxLen st"
  "g_UpnpSdkEQMaxAge (put_service st h i s) = g_UpnpSdkEQMaxAge st"
  by (simp_all add: put_service_def split: option.splits)

text \<open>Only the handle table matters for the subscriptions.\<close>

lemma table_only:
  assumes "HandleTable st' = HandleTable st"
  shows "slot st' = slot st" "csubs st' = csubs st" "tables_wf st' = tables_wf st"
    "service_at st' = service_at st" "has_service st' = has_service st"
    "GetHandleInfo st' = GetHandleInfo st" "find_service st' = find_service st"
proof -
  show s: "slot st' = slot st" using assms by (simp add: fun_eq_iff slot_def)
  have "slot_subs st' = slot_subs st" using s by (simp add: fun_eq_iff slot_subs_def)
  then show "csubs st' = csubs st" by (simp add: csubs_def)
  show "tables_wf st' = tables_wf st" using s assms by (simp add: tables_wf_def)
  show "service_at st' = service_at st" using s by (simp add: fun_eq_iff service_at_def)
  show "has_service st' = has_service st" using s by (simp add: fun_eq_iff has_service_def)
  show "GetHandleInfo st' = GetHandleInfo st" using assms by (simp add: fun_eq_iff GetHandleInfo_def)
  show "find_service st' = find_service st" using s by (simp add: fun_eq_iff find_service_def)
qed

lemma put_service_slot:
  assumes "tables_wf st" "has_service st h i"
  shows "slot (put_service st h i s) h' =
           (if h' = h then map_option (\<lambda>info. info\<lparr>ServiceTable := (ServiceTable info)
              \<lparr>serviceList := (serviceList (ServiceTable info))[i := s]\<rparr>\<rparr>) (slot st h) else slot st h')"
proof -
  obtain info where i: "slot st h = Some info" using assms(2) by (auto simp: has_service_def split: option.splits)
  then show ?thesis
    using assms(1) slot_range [OF i] by (simp add: put_service_def tables_wf_def slot_set_slot)
qed

lemma put_service_at:
  assumes "tables_wf st" "has_service st h i"
  shows "service_at (put_service st h i s) h i = s" "has_service (put_service st h i s) h i"
    "put_service (put_service st h i s) h i s' = put_service st h i s'"
    "service_at st h i = s \<Longrightarrow> put_service st h i s = st"
proof -
  obtain info where i: "slot st h = Some info" "HType info = HND_DEVICE" "i < length (serviceList (ServiceTable info))"
    using assms(2) by (auto simp: has_service_def split: option.splits)
  note p = put_service_slot [OF assms, of s h]
  show "service_at (put_service st h i s) h i = s" using i by (simp add: service_at_def p)
  show "has_service (put_service st h i s) h i" using i by (simp add: has_service_def p)
  show "put_service (put_service st h i s) h i s' = put_service st h i s'"
    using i(1) slot_range [OF i(1)] by (simp add: put_service_def [of _ _ _ s'] p)
      (simp add: put_service_def set_slot_def)
  assume "service_at st h i = s"
  then have "info\<lparr>ServiceTable := (ServiceTable info)\<lparr>serviceList := (serviceList (ServiceTable info))[i := s]\<rparr>\<rparr> = info"
    using i(1,3) list_update_id [of "serviceList (ServiceTable info)" i]
    by (cases info; cases "ServiceTable info") (simp add: service_at_def)
  moreover have "HandleTable st ! nat h = Some info" using i(1) slot_range [OF i(1)] by (simp add: slot_eq)
  ultimately show "put_service st h i s = st"
    using i(1) by (simp add: put_service_def set_slot_def list_update_same_conv)
      (metis list_update_id upnp.surjective upnp.update_convs(3))
qed

lemma csubs_split:
  assumes "tables_wf st" "has_service st h i"
  shows "\<exists>A B. csubs st = A @ svc_subs h (service_at st h i) @ B \<and>
               (\<forall>s. csubs (put_service st h i s) = A @ svc_subs h s @ B)"
proof -
  obtain info where i: "slot st h = Some info" "HType info = HND_DEVICE" "i < length (serviceList (ServiceTable info))"
    using assms(2) by (auto simp: has_service_def split: option.splits)
  note r = slot_range [OF i(1)]
  let ?l = "serviceList (ServiceTable info)"
  have up: "[1..<NUM_HANDLE] = [1..<nat h] @ nat h # [Suc (nat h)..<NUM_HANDLE]"
  proof -
    have "nat h < NUM_HANDLE" "1 \<le> nat h" using r by auto
    then show ?thesis by (metis upt_conv_Cons upt_add_eq_append le_add_diff_inverse less_imp_le)
  qed
  have other: "slot_subs (put_service st h i s) (int k) = slot_subs st (int k)" if "k \<noteq> nat h" for s k
  proof -
    have "int k \<noteq> h" using that r by auto
    then show ?thesis by (simp add: slot_subs_def put_service_slot [OF assms])
  qed
  have me: "slot_subs (put_service st h i s) h =
      concat (map (svc_subs h) (take i ?l)) @ svc_subs h s @ concat (map (svc_subs h) (drop (Suc i) ?l))" for s
    using i by (simp add: slot_subs_def put_service_slot [OF assms] upd_conv_take_nth_drop)
  let ?f = "\<lambda>ks. concat (map (\<lambda>k. slot_subs st (int k)) ks)"
  let ?A = "?f [1..<nat h] @ concat (map (svc_subs h) (take i ?l))"
  let ?B = "concat (map (svc_subs h) (drop (Suc i) ?l)) @ ?f [Suc (nat h)..<NUM_HANDLE]"
  have sp: "csubs (put_service st h i s) = ?A @ svc_subs h s @ ?B" for s
  proof -
    have "map (\<lambda>k. slot_subs (put_service st h i s) (int k)) [1..<nat h] = map (\<lambda>k. slot_subs st (int k)) [1..<nat h]"
      "map (\<lambda>k. slot_subs (put_service st h i s) (int k)) [Suc (nat h)..<NUM_HANDLE] =
         map (\<lambda>k. slot_subs st (int k)) [Suc (nat h)..<NUM_HANDLE]"
      using other by (auto intro!: map_cong)
    moreover have "slot_subs (put_service st h i s) (int (nat h)) = slot_subs (put_service st h i s) h" using r by simp
    ultimately show ?thesis unfolding csubs_def up by (simp only: me map_append list.map concat_append concat.simps append_assoc)
  qed
  moreover have "csubs st = ?A @ svc_subs h (service_at st h i) @ ?B"
    using sp [of "service_at st h i"] put_service_at(4) [OF assms refl] by simp
  ultimately show ?thesis by blast
qed

definition same_svc :: "service_info \<Rightarrow> service_info \<Rightarrow> bool" where
  "same_svc s s' \<longleftrightarrow> svc_key s' = svc_key s"

lemma put_service_wf:
  assumes "tables_wf st" "has_service st h i" "service_wf s" "same_svc (service_at st h i) s"
  shows "tables_wf (put_service st h i s)"
  unfolding tables_wf_def
proof (intro conjI allI impI)
  show "length (HandleTable (put_service st h i s)) = NUM_HANDLE" using assms(1) by (simp add: tables_wf_def)
  fix h' info assume p: "slot (put_service st h i s) h' = Some info" "HType info = HND_DEVICE"
  show "table_wf (ServiceTable info)"
  proof (cases "h' = h")
    case False
    then show ?thesis using p assms(1) by (auto simp: put_service_slot [OF assms(1,2)] tables_wf_def)
  next
    case True
    then obtain info0 where i: "slot st h = Some info0" "HType info0 = HND_DEVICE" "i < length (serviceList (ServiceTable info0))"
      using assms(2) by (auto simp: has_service_def split: option.splits)
    let ?l = "serviceList (ServiceTable info0)"
    have l: "serviceList (ServiceTable info) = ?l[i := s]" using p True i by (auto simp: put_service_slot [OF assms(1,2)])
    have wf: "table_wf (ServiceTable info0)" using assms(1) i by (auto simp: tables_wf_def)
    have "map svc_key (?l[i := s]) = map svc_key ?l"
      using assms(4) i by (simp add: map_update same_svc_def service_at_def list_update_same_conv)
    then show ?thesis using wf assms(3) by (auto simp: table_wf_def l dest: set_update_subset_insert [THEN subsetD])
  qed
qed

section \<open>Finding a service\<close>

lemma FindServiceId_loop_ok:
  "\<forall>s\<in>set l. service_wf s \<Longrightarrow>
     FindServiceId_loop k l a u = Some None \<and> (Some a, Some u) \<notin> svc_key ` set l \<or>
     (\<exists>i<length l. FindServiceId_loop k l a u = Some (Some (k + i)) \<and> svc_key (l ! i) = (Some a, Some u))"
proof (induction l arbitrary: k)
  case (Cons s l)
  then obtain a' u' where s: "serviceId s = Some a'" "UDN s = Some u'" by (auto simp: service_wf_def)
  show ?case
  proof (cases "a = a' \<and> u = u'")
    case True
    then show ?thesis by (intro disjI2 exI [of _ 0]) (simp add: s and_then_def str_eq_def svc_key_def)
  next
    case False
    then have "FindServiceId_loop k (s # l) a u = FindServiceId_loop (k + 1) l a u"
      by (cases "a = a'") (auto simp: s and_then_def str_eq_def)
    moreover have "svc_key s \<noteq> (Some a, Some u)" using False by (auto simp: svc_key_def s)
    ultimately show ?thesis using Cons.IH [of "k + 1"] Cons.prems by fastforce
  qed
qed simp

lemma find_service_ok:
  assumes "tables_wf st" "GetHandleInfo st h = HND_DEVICE"
  shows "find_service st h a u = Some None \<and> (\<forall>x\<in>set (slot_subs st h). fst x \<noteq> (h, a, u)) \<or>
         (\<exists>i. find_service st h a u = Some (Some i) \<and> has_service st h i \<and>
              svc_key (service_at st h i) = (Some a, Some u))"
proof -
  obtain info where i: "slot st h = Some info" "HType info = HND_DEVICE"
    using assms(2) by (auto simp: GetHandleInfo_def slot_def split: if_splits option.splits)
  have wf: "\<forall>s\<in>set (serviceList (ServiceTable info)). service_wf s"
    using assms(1) i by (auto simp: tables_wf_def table_wf_def)
  have "fst x \<noteq> (h, a, u)" if no: "(Some a, Some u) \<notin> svc_key ` set (serviceList (ServiceTable info))"
    and x: "x \<in> set (slot_subs st h)" for x
  proof
    assume e: "fst x = (h, a, u)"
    obtain s where s: "s \<in> set (serviceList (ServiceTable info))" "svc_context h s = fst x"
      using x by (auto simp: slot_subs_def i svc_subs_def)
    then have "svc_key s = (Some a, Some u)" using e wf by (auto simp: svc_context_def svc_key_def service_wf_def)
    then show False using no s(1) by (metis image_eqI)
  qed
  then show ?thesis
    using FindServiceId_loop_ok [OF wf, of 0 a u] i
    by (auto simp: find_service_def FindServiceId_def has_service_def service_at_def)
qed

lemma csubs_mem:
  assumes "x \<in> set (csubs st)"
  shows "\<exists>info s. slot st (fst (fst x)) = Some info \<and> HType info = HND_DEVICE \<and>
           s \<in> set (serviceList (ServiceTable info)) \<and> snd x \<in> set (subscriptionList s) \<and>
           fst x = svc_context (fst (fst x)) s"
proof -
  obtain k where "x \<in> set (slot_subs st (int k))" using assms by (auto simp: csubs_def)
  then obtain info s where i: "slot st (int k) = Some info" "HType info = HND_DEVICE"
    "s \<in> set (serviceList (ServiceTable info))" "x \<in> set (svc_subs (int k) s)"
    by (cases "slot st (int k)") (auto simp: slot_subs_def split: if_splits)
  then have "fst x = svc_context (int k) s" "snd x \<in> set (subscriptionList s)" by (auto simp: svc_subs_def)
  with i show ?thesis by (auto simp: svc_context_def)
qed

lemma slot_device: "slot st h = Some info \<Longrightarrow> GetHandleInfo st h = HType info"
  by (auto simp: slot_def GetHandleInfo_def split: if_splits)

text \<open>The context of a subscription leads to its service.\<close>

lemma context_service:
  assumes wf: "tables_wf st" and x: "x \<in> set (csubs st)" "fst x = (h, a, u)"
  shows "GetHandleInfo st h = HND_DEVICE" "find_service st h a u \<noteq> Some None"
    "has_service st h i \<Longrightarrow> svc_key (service_at st h i) = (Some a, Some u) \<Longrightarrow>
       snd x \<in> set (subscriptionList (service_at st h i))"
proof -
  obtain info s where i: "slot st h = Some info" "HType info = HND_DEVICE"
    "s \<in> set (serviceList (ServiceTable info))" "snd x \<in> set (subscriptionList s)" "fst x = svc_context h s"
    using csubs_mem [OF x(1)] x(2) by auto
  have t: "table_wf (ServiceTable info)" using wf i by (auto simp: tables_wf_def)
  then have k: "svc_key s = (Some a, Some u)"
    using i(3,5) x(2) by (auto simp: table_wf_def service_wf_def svc_context_def svc_key_def)
  show "GetHandleInfo st h = HND_DEVICE" using slot_device [OF i(1)] i(2) by simp
  have "x \<in> set (slot_subs st h)"
    using i x(2) by (cases x) (auto simp: slot_subs_def svc_subs_def image_iff intro!: bexI [of _ s])
  then show "find_service st h a u \<noteq> Some None"
    using find_service_ok [OF wf \<open>GetHandleInfo st h = HND_DEVICE\<close>, of a u] x(2) by auto
  assume s: "has_service st h i" "svc_key (service_at st h i) = (Some a, Some u)"
  have n: "i < length (serviceList (ServiceTable info))" "service_at st h i = serviceList (ServiceTable info) ! i"
    using s(1) i(1) by (auto simp: has_service_def service_at_def)
  obtain j where j: "j < length (serviceList (ServiceTable info))" "serviceList (ServiceTable info) ! j = s"
    using i(3) by (auto simp: in_set_conv_nth)
  have "map svc_key (serviceList (ServiceTable info)) ! i = map svc_key (serviceList (ServiceTable info)) ! j"
    using n j s(2) k by simp
  moreover have "distinct (map svc_key (serviceList (ServiceTable info)))" using t by (simp add: table_wf_def)
  ultimately have "i = j" using n(1) j(1) by (metis length_map nth_eq_iff_index_eq)
  then show "snd x \<in> set (subscriptionList (service_at st h i))" using i(4) j(2) n(2) by simp
qed

section \<open>Removing subscriptions\<close>

definition svc_core ::
  "event_heap \<Rightarrow> addr list \<Rightarrow> addr list \<Rightarrow> log \<Rightarrow> string set \<Rightarrow> (ctxt \<times> subscription) list \<Rightarrow> int \<Rightarrow> service_info \<Rightarrow>
   (ctxt \<times> subscription) list \<Rightarrow> bool" where
  "svc_core eh P S L U A h s B \<longleftrightarrow>
     hwf eh \<and> service_wf s \<and> J (view eh) (ev_brk eh) P S L U (A @ svc_subs h s @ B)"

text \<open>The heap after the subscriptions \<open>R\<close> were released.\<close>

definition dropped :: "event_heap \<Rightarrow> subscription set \<Rightarrow> event_heap \<Rightarrow> bool" where
  "dropped eh R eh' \<longleftrightarrow> frees eh (\<Union>x\<in>R. set (tail_args x)) eh'"

text \<open>The service with other subscriptions.\<close>

definition with_subs :: "service_info \<Rightarrow> subscription list \<Rightarrow> int \<Rightarrow> service_info" where
  "with_subs s l n = s\<lparr>subscriptionList := l, TotalSubscriptions := n\<rparr>"

lemma with_subs_simps [simp]:
  "subscriptionList (with_subs s l n) = l" "TotalSubscriptions (with_subs s l n) = n"
  "svc_subs h (with_subs s l n) = map (Pair (svc_context h s)) l" "svc_context h (with_subs s l n) = svc_context h s"
  "svc_key (with_subs s l n) = svc_key s" "with_subs (with_subs s l n) l' n' = with_subs s l' n'"
  "service_wf (with_subs s l n) \<longleftrightarrow> serviceId s \<noteq> None \<and> UDN s \<noteq> None \<and> svc_active s \<and> n = int (length l) \<and>
     (\<forall>x\<in>set l. has_urls x)"
  by (simp_all add: with_subs_def svc_subs_def svc_context_def svc_key_def service_wf_def)

lemma with_subs_self: "with_subs s (subscriptionList s) (TotalSubscriptions s) = s"
  by (simp add: with_subs_def)

lemma same_svc_with_subs [simp]: "same_svc s (with_subs s l n)" "same_svc s s"
  by (simp_all add: same_svc_def)

lemma dropped_none [simp]: "hwf eh \<Longrightarrow> dropped eh {} eh"
  by (simp add: dropped_def)

lemma remove_one:
  assumes c: "svc_core eh P S L U A h (with_subs s (X @ sub # Y) n) B"
  shows "\<exists>eh'. freeSubscriptionList eh [sub] = Some eh' \<and> dropped eh {sub} eh' \<and>
           svc_core eh' P S L U A h (with_subs s (X @ Y) (n - 1)) B"
proof -
  let ?x = "(svc_context h s, sub)" and ?m = "map (Pair (svc_context h s))"
  have j: "J (view eh) (ev_brk eh) P S L U ((A @ ?m X) @ ?x # (?m Y @ B))"
    using c by (simp add: svc_core_def)
  have "distinct (tail_args sub)" using J_D(1) [OF j] by (simp add: owned_split)
  moreover have "\<forall>a\<in>set (tail_args sub). view eh a \<noteq> None" using J_D(2) [OF j] by (simp add: owned_mem)
  moreover have "hwf eh" using c by (simp add: svc_core_def)
  ultimately obtain eh' where e: "freeSubscriptionList eh [sub] = Some eh'" "frees eh (set (tail_args sub)) eh'"
    using freeSubscription_ok by blast
  have "J (view eh') (ev_brk eh') P S L U ((A @ ?m X) @ ?m Y @ B)"
    using J_remove [OF j] e(2) by (simp add: frees_def)
  then have "svc_core eh' P S L U A h (with_subs s (X @ Y) (n - 1)) B"
    using c e(2) by (simp add: svc_core_def frees_def)
  then show ?thesis using e by (auto simp: dropped_def)
qed

lemma dropped_trans:
  assumes "dropped eh R1 eh1" "dropped eh1 R2 eh2"
    "(\<Union>x\<in>R1. set (tail_args x)) \<inter> (\<Union>x\<in>R2. set (tail_args x)) = {}"
  shows "dropped eh (R1 \<union> R2) eh2"
  using frees_trans [OF assms(1,2) [unfolded dropped_def] assms(3)] by (simp add: dropped_def)

text \<open>The structures of different subscriptions are different.\<close>

lemma svc_tails_disjoint:
  assumes "svc_core eh P S L U A h (with_subs s (X @ sub # Y) n) B" "R \<subseteq> set Y"
  shows "set (tail_args sub) \<inter> (\<Union>x\<in>R. set (tail_args x)) = {}"
proof -
  have "J (view eh) (ev_brk eh) P S L U (A @ map (Pair (svc_context h s)) (X @ sub # Y) @ B)"
    using assms(1) by (simp add: svc_core_def)
  from J_D(1) [OF this] have "set (tail_args sub) \<inter> (\<Union>x\<in>set Y. set (tail_args x)) = {}"
    by (auto simp: owned_def)
  then show ?thesis using assms(2) by blast
qed

lemma next_loop_ok:
  "svc_core eh P S L U A h (with_subs s (prev @ l) n) B \<Longrightarrow>
     \<exists>r eh' l' n' R. next_subscription_loop eh now prev l n = Some (r, eh', prev @ l', n') \<and>
       svc_core eh' P S L U A h (with_subs s (prev @ l') n') B \<and> dropped eh R eh' \<and> R \<subseteq> set l \<and> set l' \<subseteq> set l \<and>
       (\<forall>j. r = Some j \<longrightarrow> length prev \<le> j \<and> j < length (prev @ l') \<and> sub_active ((prev @ l') ! j))"
proof (induction l arbitrary: eh prev n)
  case Nil
  then show ?case by (auto simp: svc_core_def intro!: exI [of _ "[]"] exI [of _ "{}"])
next
  case (Cons cur rest)
  show ?case
  proof (cases "expired now cur")
    case True
    obtain eh1 where e: "freeSubscriptionList eh [cur] = Some eh1" "dropped eh {cur} eh1"
      "svc_core eh1 P S L U A h (with_subs s (prev @ rest) (n - 1)) B"
      using remove_one [OF Cons.prems] by blast
    obtain r eh' l' n' R where i: "next_subscription_loop eh1 now prev rest (n - 1) = Some (r, eh', prev @ l', n')"
      "svc_core eh' P S L U A h (with_subs s (prev @ l') n') B" "dropped eh1 R eh'" "R \<subseteq> set rest" "set l' \<subseteq> set rest"
      "\<forall>j. r = Some j \<longrightarrow> length prev \<le> j \<and> j < length (prev @ l') \<and> sub_active ((prev @ l') ! j)"
      using Cons.IH [OF e(3)] by blast
    have "dropped eh ({cur} \<union> R) eh'"
      by (rule dropped_trans [OF e(2) i(3)]) (use svc_tails_disjoint [OF Cons.prems i(4)] in simp)
    moreover have "next_subscription_loop eh now prev (cur # rest) n = Some (r, eh', prev @ l', n')"
      using True e(1) i(1) by (simp del: freeSubscriptionList.simps)
    ultimately show ?thesis using i by (intro exI conjI) (assumption | auto)+
  next
    case False
    show ?thesis
    proof (cases "sub_active cur")
      case True
      have "next_subscription_loop eh now prev (cur # rest) n = Some (Some (length prev), eh, prev @ (cur # rest), n)"
        using True False by simp
      moreover have "dropped eh {} eh" using Cons.prems by (simp add: svc_core_def)
      ultimately show ?thesis using Cons.prems True by (intro exI conjI) (assumption | auto)+
    next
      case n: False
      have "svc_core eh P S L U A h (with_subs s ((prev @ [cur]) @ rest) n) B" using Cons.prems by simp
      from Cons.IH [OF this] obtain r eh' l' n' R where
        i: "next_subscription_loop eh now (prev @ [cur]) rest n = Some (r, eh', (prev @ [cur]) @ l', n')"
        "svc_core eh' P S L U A h (with_subs s ((prev @ [cur]) @ l') n') B" "dropped eh R eh'" "R \<subseteq> set rest"
        "set l' \<subseteq> set rest"
        "\<forall>j. r = Some j \<longrightarrow> length (prev @ [cur]) \<le> j \<and> j < length ((prev @ [cur]) @ l') \<and>
           sub_active (((prev @ [cur]) @ l') ! j)"
        by blast
      show ?thesis
        by (rule exI [of _ r], rule exI [of _ eh'], rule exI [of _ "cur # l'"], rule exI [of _ n'], rule exI [of _ R])
          (use i False n in \<open>auto dest: Suc_leD\<close>)
    qed
  qed
qed

lemma GetNextSubscription_ok:
  assumes "svc_core eh P S L U A h s B" "f < length (subscriptionList s)"
  shows "\<exists>r eh' l' n' R. GetNextSubscription eh now s f = Some (r, eh', with_subs s (take (f + 1) (subscriptionList s) @ l') n') \<and>
       svc_core eh' P S L U A h (with_subs s (take (f + 1) (subscriptionList s) @ l') n') B \<and> dropped eh R eh' \<and>
       R \<subseteq> set (drop (f + 1) (subscriptionList s)) \<and> set l' \<subseteq> set (drop (f + 1) (subscriptionList s)) \<and>
       (\<forall>j. r = Some j \<longrightarrow> f < j \<and> j < f + 1 + length l' \<and>
          sub_active ((take (f + 1) (subscriptionList s) @ l') ! j))"
proof -
  let ?t = "take (f + 1) (subscriptionList s)" and ?d = "drop (f + 1) (subscriptionList s)"
  have "svc_core eh P S L U A h (with_subs s (?t @ ?d) (TotalSubscriptions s)) B"
    using assms(1) by (simp only: append_take_drop_id with_subs_self)
  from next_loop_ok [OF this, of now] obtain r eh' l' n' R where
    "next_subscription_loop eh now ?t ?d (TotalSubscriptions s) = Some (r, eh', ?t @ l', n')"
    "svc_core eh' P S L U A h (with_subs s (?t @ l') n') B" "dropped eh R eh'" "R \<subseteq> set ?d" "set l' \<subseteq> set ?d"
    "\<forall>j. r = Some j \<longrightarrow> length ?t \<le> j \<and> j < length (?t @ l') \<and> sub_active ((?t @ l') ! j)" by blast
  then show ?thesis
    by (intro exI [of _ r] exI [of _ eh'] exI [of _ l'] exI [of _ n'] exI [of _ R])
      (use assms(2) in \<open>auto simp: GetNextSubscription_def with_subs_def\<close>)
qed

lemma GetFirstSubscription_ok:
  assumes "svc_core eh P S L U A h s B"
  shows "\<exists>r eh' l' n' R. GetFirstSubscription eh now s = Some (r, eh', with_subs s l' n') \<and>
       svc_core eh' P S L U A h (with_subs s l' n') B \<and> dropped eh R eh' \<and>
       R \<subseteq> set (subscriptionList s) \<and> (\<forall>j. r = Some j \<longrightarrow> j < length l' \<and> sub_active (l' ! j))"
proof -
  have "svc_core eh P S L U A h (with_subs s ([] @ subscriptionList s) (TotalSubscriptions s)) B"
    using assms by (simp add: with_subs_self)
  from next_loop_ok [OF this, of now] show ?thesis
    by (fastforce simp: GetFirstSubscription_def with_subs_def)
qed

lemma remove_sid_loop_split:
  "s \<notin> sid ` set l \<and> remove_sid_loop eh s prev l n = Some (eh, prev @ l, n) \<or>
   (\<exists>X sub Y. l = X @ sub # Y \<and> sid sub = s \<and> s \<notin> sid ` set X \<and>
      remove_sid_loop eh s prev l n =
        map_option (\<lambda>eh1. (eh1, prev @ X @ Y, n - 1)) (freeSubscriptionList eh [sub]))"
proof (induction l arbitrary: prev)
  case (Cons f rest)
  show ?case
  proof (cases "s = sid f")
    case True
    have "remove_sid_loop eh s prev (f # rest) n =
        map_option (\<lambda>eh1. (eh1, prev @ [] @ rest, n - 1)) (freeSubscriptionList eh [f])"
      using True by (cases "freeSubscriptionList eh [f]") (simp_all del: freeSubscriptionList.simps)
    then show ?thesis using True by (intro disjI2 exI [of _ "[]"] exI [of _ f] exI [of _ rest]) auto
  next
    case False
    show ?thesis using Cons.IH [of "prev @ [f]"]
    proof (elim disjE exE conjE)
      fix X sub Y assume "rest = X @ sub # Y" "sid sub = s" "s \<notin> sid ` set X"
        "remove_sid_loop eh s (prev @ [f]) rest n =
           map_option (\<lambda>eh1. (eh1, (prev @ [f]) @ X @ Y, n - 1)) (freeSubscriptionList eh [sub])"
      then show ?thesis using False
        by (intro disjI2 exI [of _ "f # X"] exI [of _ sub] exI [of _ Y]) (auto simp del: freeSubscriptionList.simps)
    qed (use False in auto)
  qed
qed simp

lemma svc_sids_distinct:
  assumes "svc_core eh P S L U A h s B"
  shows "distinct (map sid (subscriptionList s))"
proof -
  have "J (view eh) (ev_brk eh) P S L U (A @ svc_subs h s @ B)" using assms by (simp add: svc_core_def)
  from J_D(3) [OF this] show ?thesis by (simp add: svc_subs_def comp_def)
qed

lemma RemoveSubscriptionSID_ok:
  assumes c: "svc_core eh P S L U A h s B"
  shows "\<exists>eh' l' n' R. RemoveSubscriptionSID eh x s = Some (eh', with_subs s l' n') \<and>
       svc_core eh' P S L U A h (with_subs s l' n') B \<and> dropped eh R eh' \<and> R \<subseteq> set (subscriptionList s) \<and>
       l' = filter (\<lambda>sub. sid sub \<noteq> x) (subscriptionList s)"
  using remove_sid_loop_split [of x "subscriptionList s" eh "[]" "TotalSubscriptions s"]
proof (elim disjE exE conjE)
  assume "x \<notin> sid ` set (subscriptionList s)"
    "remove_sid_loop eh x [] (subscriptionList s) (TotalSubscriptions s) = Some (eh, [] @ subscriptionList s, TotalSubscriptions s)"
  moreover from this(1) have "filter (\<lambda>sub. sid sub \<noteq> x) (subscriptionList s) = subscriptionList s"
    by (auto simp: filter_id_conv)
  ultimately show ?thesis using c
    by (intro exI [of _ eh] exI [of _ "subscriptionList s"] exI [of _ "TotalSubscriptions s"] exI [of _ "{}"])
      (auto simp: RemoveSubscriptionSID_def with_subs_self svc_core_def with_subs_def)
next
  fix X sub Y assume l: "subscriptionList s = X @ sub # Y" "sid sub = x" "x \<notin> sid ` set X"
    "remove_sid_loop eh x [] (subscriptionList s) (TotalSubscriptions s) =
       map_option (\<lambda>eh1. (eh1, [] @ X @ Y, TotalSubscriptions s - 1)) (freeSubscriptionList eh [sub])"
  have "svc_core eh P S L U A h (with_subs s (X @ sub # Y) (TotalSubscriptions s)) B"
    using c l(1) with_subs_self [of s] by simp
  from remove_one [OF this] obtain eh' where e: "freeSubscriptionList eh [sub] = Some eh'" "dropped eh {sub} eh'"
    "svc_core eh' P S L U A h (with_subs s (X @ Y) (TotalSubscriptions s - 1)) B" by blast
  have "filter (\<lambda>sub. sid sub \<noteq> x) X = X" "filter (\<lambda>sub. sid sub \<noteq> x) Y = Y"
    using svc_sids_distinct [OF c] l(1-3) unfolding filter_id_conv by (auto simp: image_iff)
  then have "filter (\<lambda>sub. sid sub \<noteq> x) (subscriptionList s) = X @ Y" using l(1,2) by simp
  with e l show ?thesis
    by (intro exI [of _ eh'] exI [of _ "X @ Y"] exI [of _ "TotalSubscriptions s - 1"] exI [of _ "{sub}"])
      (auto simp: RemoveSubscriptionSID_def with_subs_def simp del: freeSubscriptionList.simps)
qed

lemma find_sid_ok:
  "case find_sid k x l of None \<Rightarrow> x \<notin> sid ` set l
   | Some i \<Rightarrow> k \<le> i \<and> i < k + length l \<and> sid (l ! (i - k)) = x"
proof (induction l arbitrary: k)
  case (Cons a l)
  then show ?case using Cons.IH [of "k + 1"] by (auto split: option.splits simp: Suc_diff_le nth_Cons' Suc_le_eq)
qed simp

lemma GetSubscriptionSID_ok:
  assumes c: "svc_core eh P S L U A h s B"
  shows "\<exists>r eh' l' n' R. GetSubscriptionSID eh now x s = Some (r, eh', with_subs s l' n') \<and>
       svc_core eh' P S L U A h (with_subs s l' n') B \<and> dropped eh R eh' \<and> R \<subseteq> set (subscriptionList s) \<and>
       set l' \<subseteq> set (subscriptionList s) \<and>
       (case r of None \<Rightarrow> x \<notin> sid ` set l' | Some j \<Rightarrow> j < length l' \<and> sid (l' ! j) = x \<and> l' = subscriptionList s \<and> eh' = eh)"
proof (cases "find_sid 0 x (subscriptionList s)")
  case None
  then have "x \<notin> sid ` set (subscriptionList s)" using find_sid_ok [where k = 0 and x = x and l = "subscriptionList s"] by simp
  then show ?thesis using None c
    by (intro exI [of _ None] exI [of _ eh] exI [of _ "subscriptionList s"] exI [of _ "TotalSubscriptions s"] exI [of _ "{}"])
      (auto simp: GetSubscriptionSID_def with_subs_self svc_core_def)
next
  case (Some i)
  let ?l = "subscriptionList s"
  have i: "i < length ?l" "sid (?l ! i) = x" using find_sid_ok [where k = 0 and x = x and l = ?l] Some by auto
  show ?thesis
  proof (cases "expired now (?l ! i)")
    case False
    then show ?thesis using Some c i
      by (intro exI [of _ "Some i"] exI [of _ eh] exI [of _ ?l] exI [of _ "TotalSubscriptions s"] exI [of _ "{}"])
        (auto simp: GetSubscriptionSID_def with_subs_self svc_core_def)
  next
    case True
    have sp: "?l = take i ?l @ ?l ! i # drop (i + 1) ?l" using i(1) by (simp add: id_take_nth_drop [symmetric])
    then have "svc_core eh P S L U A h (with_subs s (take i ?l @ ?l ! i # drop (i + 1) ?l) (TotalSubscriptions s)) B"
      using c with_subs_self [of s] by simp
    from remove_one [OF this] obtain eh' where e: "freeSubscriptionList eh [?l ! i] = Some eh'" "dropped eh {?l ! i} eh'"
      "svc_core eh' P S L U A h (with_subs s (take i ?l @ drop (i + 1) ?l) (TotalSubscriptions s - 1)) B" by blast
    have "x \<notin> sid ` set (take i ?l @ drop (i + 1) ?l)"
    proof -
      have "distinct (map sid (take i ?l) @ x # map sid (drop (i + 1) ?l))"
        using svc_sids_distinct [OF c] arg_cong [OF sp, of "map sid"] i(2) by simp
      then show ?thesis by auto
    qed
    moreover have "GetSubscriptionSID eh now x s =
        Some (None, eh', with_subs s (take i ?l @ drop (i + 1) ?l) (TotalSubscriptions s - 1))"
      using Some True e(1) by (simp add: GetSubscriptionSID_def with_subs_def del: freeSubscriptionList.simps)
    ultimately show ?thesis using e i(1)
      by (intro exI [of _ None] exI [of _ eh'] exI [of _ "take i ?l @ drop (i + 1) ?l"]
          exI [of _ "TotalSubscriptions s - 1"] exI [of _ "{?l ! i}"])
        (auto dest: in_set_takeD in_set_dropD)
  qed
qed

section \<open>Queueing one event\<close>

lemma frees_view: "frees eh D eh' \<Longrightarrow> view eh' a = Some z \<Longrightarrow> view eh a = Some z"
  by (auto simp: frees_def restrict_map_def split: if_splits)

lemma frees_text:
  "frees eh D eh' \<Longrightarrow> \<forall>a\<in>D. \<exists>s x c. view eh a = Some (s, x, c) \<and> x \<noteq> t \<Longrightarrow> texts eh' t = texts eh t"
  by (fastforce simp: frees_def)

lemma dropped_view: "dropped eh R eh' \<Longrightarrow> view eh' a = Some z \<Longrightarrow> view eh a = Some z"
  unfolding dropped_def by (rule frees_view)

lemma dropped_text:
  assumes d: "dropped eh R eh'" and c: "svc_core eh P S L U A h s B" and R: "R \<subseteq> set (subscriptionList s)"
    and old: "\<forall>x\<in>R. \<forall>a y c. view eh a = Some (sid x, y, c) \<longrightarrow> y < t"
  shows "texts eh' t = texts eh t"
proof (rule frees_text [OF d [unfolded dropped_def]], rule ballI)
  fix a assume "a \<in> (\<Union>x\<in>R. set (tail_args x))"
  then obtain x where x: "x \<in> R" "a \<in> set (tail_args x)" by blast
  have "J (view eh) (ev_brk eh) P S L U (A @ svc_subs h s @ B)" using c by (simp add: svc_core_def)
  moreover have "(svc_context h s, x) \<in> set (A @ svc_subs h s @ B)" using x(1) R by (auto simp: svc_subs_def)
  ultimately have "loc (view eh) (sid x) a \<noteq> None" using x(2) by (rule tail_loc)
  then obtain y c' where "loc (view eh) (sid x) a = Some (y, c')" by (cases "loc (view eh) (sid x) a") auto
  then have "view eh a = Some (sid x, y, c')" by (simp only: loc_text)
  then show "\<exists>s x c. view eh a = Some (s, x, c) \<and> x \<noteq> t" using old x(1) by blast
qed

lemma discard_loop_ok:
  "hwf eh \<Longrightarrow> J (view eh) (ev_brk eh) P S L U (A @ (c, sub\<lparr>outgoing := first # rest\<rparr>) # B) \<Longrightarrow>
     \<exists>eh' q D. discard_loop eh now mx age first rest = Some (eh', first # q) \<and> frees eh D eh' \<and> D \<subseteq> arg ` set rest \<and>
       J (view eh') (ev_brk eh') P S L U (A @ (c, sub\<lparr>outgoing := first # q\<rparr>) # B) \<and> set q \<subseteq> set rest"
proof (induction rest arbitrary: eh)
  case Nil
  then show ?case by (intro exI [of _ eh] exI [of _ "[]"] exI [of _ "{}"]) simp
next
  case (Cons x rest)
  note d = J_discard [OF Cons.prems(2), of first x rest, simplified]
  have ax: "arg x \<in> set (owned P S (A @ (c, sub\<lparr>outgoing := first # x # rest\<rparr>) # B))"
    by (simp add: owned_split tail_args_def)
  then have "structs eh (arg x) \<noteq> None" using J_D(2) [OF Cons.prems(2)] view_struct(2) [OF Cons.prems(1)] by blast
  then obtain n where n: "structs eh (arg x) = Some n" by blast
  show ?case
  proof (cases "mx < int (length (first # x # rest)) \<or> age < now - nt_ctime n")
    case False
    then show ?thesis using Cons.prems n
      by (intro exI [of _ eh] exI [of _ "x # rest"] exI [of _ "{}"]) auto
  next
    case True
    obtain eh1 where e: "free_notify_struct eh (arg x) = Some eh1" "frees eh {arg x} eh1"
      using free_notify_struct_ok [OF Cons.prems(1) n] by blast
    have wf1: "hwf eh1" and v1: "view eh1 = view eh |` (- {arg x})" "ev_brk eh1 = ev_brk eh"
      using e(2) by (simp_all add: frees_def)
    have "J (view eh1) (ev_brk eh1) P S L U (A @ (c, sub\<lparr>outgoing := first # rest\<rparr>) # B)"
      unfolding v1 by (rule J_release) (use d in auto)
    from Cons.IH [OF wf1 this] obtain eh' q D where i:
      "discard_loop eh1 now mx age first rest = Some (eh', first # q)" "frees eh1 D eh'" "D \<subseteq> arg ` set rest"
      "J (view eh') (ev_brk eh') P S L U (A @ (c, sub\<lparr>outgoing := first # q\<rparr>) # B)" "set q \<subseteq> set rest" by blast
    have "arg x \<notin> arg ` set rest" using d(2) by (auto simp: owned_split tail_args_def)
    then have "frees eh ({arg x} \<union> D) eh'" using frees_trans [OF e(2) i(2)] i(3) by blast
    moreover have "discard_loop eh now mx age first (x # rest) = Some (eh', first # q)"
      using True e(1) i(1) n by simp
    ultimately show ?thesis using i by (intro exI conjI) (assumption | auto)+
  qed
qed

text \<open>A new structure for an event text: the text counts one more.\<close>

lemma new_event_ok:
  assumes wf: "hwf eh" and t: "texts eh t = Some x"
    and e1: "eh1 = eh\<lparr>texts := (texts eh)(t \<mapsto> x\<lparr>ref_count := ref_count x + 1\<rparr>)\<rparr>"
    and e2: "new_struct eh1 \<lparr>nt_sid = s, nt_ctime = now, reference_count = t, nt_handle = h\<rparr> = (b, eh2)"
  shows "hwf eh2" "view eh b = None" "view eh2 = (view eh)(b \<mapsto> (s, t, h, ev_servId x, ev_UDN x))"
    "ev_brk eh2 = Suc (ev_brk eh)" "texts eh2 t = Some (x\<lparr>ref_count := ref_count x + 1\<rparr>)" "b = ev_brk eh"
proof -
  have eh2: "b = ev_brk eh" "eh2 = eh\<lparr>texts := (texts eh)(t \<mapsto> x\<lparr>ref_count := ref_count x + 1\<rparr>),
      structs := (structs eh)(b \<mapsto> \<lparr>nt_sid = s, nt_ctime = now, reference_count = t, nt_handle = h\<rparr>),
      ev_brk := Suc b\<rparr>"
    using e2 by (auto simp: new_struct_def e1)
  have nb: "structs eh b = None" using wf unfolding eh2(1) hwf_def by (metis less_irrefl not_None_eq)
  show "view eh b = None" using nb by (simp add: view_def)
  have u: "users eh2 k = (if k = t then insert b (users eh k) else users eh k)" for k
    using nb by (auto simp: users_def eh2(2))
  have "b \<notin> users eh t" using nb by (simp add: users_def)
  then have ct: "card (users eh2 t) = Suc (card (users eh t))" using hwf_finite [OF wf] by (simp add: u)
  show "view eh2 = (view eh)(b \<mapsto> (s, t, h, ev_servId x, ev_UDN x))"
    using nb t by (auto simp: fun_eq_iff view_def eh2(2) split: option.splits)
  show "hwf eh2"
    unfolding hwf_def
  proof (intro conjI allI impI)
    fix a n assume "structs eh2 a = Some n"
    then show "a < ev_brk eh2" "texts eh2 (reference_count n) \<noteq> None"
      using wf by (auto simp: hwf_def eh2 less_Suc_eq split: if_splits)
  next
    fix k y assume k: "texts eh2 k = Some y"
    show "k < ev_brk eh2" using k wf t by (auto simp: hwf_def eh2 less_Suc_eq split: if_splits)
    show "int (card (users eh2 k)) \<le> ref_count y"
    proof (cases "k = t")
      case True
      have "int (card (users eh t)) \<le> ref_count x" using wf t by (simp add: hwf_def)
      moreover have "y = x\<lparr>ref_count := ref_count x + 1\<rparr>" using k True by (simp add: eh2(2))
      ultimately show ?thesis using True ct by simp
    next
      case False
      then have "texts eh k = Some y" using k by (simp add: eh2(2))
      then show ?thesis using wf False by (simp add: hwf_def u)
    qed
  qed
qed (use e2 in \<open>auto simp: new_struct_def e1\<close>)

text \<open>A structure is freed without its text: when it was never queued.\<close>

lemma forget_struct:
  assumes "hwf eh"
  shows "frees eh {b} (eh\<lparr>structs := (structs eh)(b := None)\<rparr>)"
proof -
  let ?eh = "eh\<lparr>structs := (structs eh)(b := None)\<rparr>"
  have "users ?eh k \<subseteq> users eh k" for k by (auto simp: users_def)
  then have le: "card (users ?eh k) \<le> card (users eh k)" for k by (rule card_mono [OF hwf_finite [OF assms]])
  have "hwf ?eh"
    unfolding hwf_def
  proof (intro conjI allI impI)
    fix k y assume "texts ?eh k = Some y"
    then have "k < ev_brk eh" "int (card (users eh k)) \<le> ref_count y" using assms by (simp_all add: hwf_def)
    then show "k < ev_brk ?eh" "int (card (users ?eh k)) \<le> ref_count y" using le [of k] by simp_all
  qed (use assms in \<open>auto simp: hwf_def split: if_splits\<close>)
  moreover have "view ?eh = view eh |` (- {b})" by (auto simp: fun_eq_iff view_def restrict_map_def split: option.splits)
  ultimately show ?thesis by (simp add: frees_def)
qed

text \<open>A text nobody uses is released.\<close>

lemma release_text_ok:
  assumes wf: "hwf eh" and u: "users eh t = {}"
  shows "hwf (eh\<lparr>texts := (texts eh)(t := None)\<rparr>)" "view (eh\<lparr>texts := (texts eh)(t := None)\<rparr>) = view eh"
proof -
  let ?eh = "eh\<lparr>texts := (texts eh)(t := None)\<rparr>"
  have us: "users ?eh k = users eh k" for k by (simp add: users_def)
  show "hwf ?eh" unfolding hwf_def us using wf u by (auto simp: hwf_def users_def split: if_splits)
  show "view ?eh = view eh" using u by (auto simp: fun_eq_iff view_def users_def split: option.splits)
qed

section \<open>Notifying all subscribers\<close>

text \<open>Everything but the heap of events and the thread pool stays.\<close>

definition only_events :: "upnp \<Rightarrow> upnp \<Rightarrow> bool" where
  "only_events st st' \<longleftrightarrow> st' = st\<lparr>events := events st', gSendThreadPool := gSendThreadPool st'\<rparr>"

lemma only_events_fields:
  assumes "only_events st st'"
  shows "HandleTable st' = HandleTable st" "locked st' = locked st" "g_UpnpSdkEQMaxLen st' = g_UpnpSdkEQMaxLen st"
    "g_UpnpSdkEQMaxAge st' = g_UpnpSdkEQMaxAge st"
  by (subst assms [unfolded only_events_def], simp)+

lemma only_events_intro [simp]:
  "only_events st (st\<lparr>events := e\<rparr>)" "only_events st (pool_add rc (st\<lparr>events := e\<rparr>) job)" "only_events st st"
  by (simp_all add: only_events_def pool_add_def)

lemma only_events_trans: "only_events a b \<Longrightarrow> only_events b c \<Longrightarrow> only_events a c"
  unfolding only_events_def by (cases a; cases b; cases c) simp

lemma notify_job_fields [simp]: "arg (notify_job a) = a" "jobId (notify_job a) \<noteq> STALE_JOBID"
  by (simp_all add: notify_job_def TPJobInit_def TPJobSetFreeFunction_def TPJobSetPriority_def zero_job_def
      STALE_JOBID_def INVALID_JOB_ID_def GENA_NOTIFY_THREAD_def Let_def codes)

text \<open>The text \<open>t\<close> of the event for a service.\<close>

definition event_for :: "event_heap \<Rightarrow> addr \<Rightarrow> service_info \<Rightarrow> bool" where
  "event_for eh t s \<longleftrightarrow> t < ev_brk eh \<and>
     (\<exists>x. texts eh t = Some x \<and> svc_key s = (Some (ev_servId x), Some (ev_UDN x)))"

lemma event_for_with_subs [simp]: "event_for eh t (with_subs s l n) = event_for eh t s"
  by (simp add: event_for_def)

text \<open>The subscriptions \<open>l\<close> have only older events.\<close>

definition older :: "event_heap \<Rightarrow> addr \<Rightarrow> subscription list \<Rightarrow> bool" where
  "older eh t l \<longleftrightarrow> (\<forall>x\<in>set l. \<forall>a y c. view eh a = Some (sid x, y, c) \<longrightarrow> y < t)"

lemma queue_event_ok:
  assumes c: "svc_core (events st) (map arg (gSendThreadPool st)) S L U A h s B"
    and f: "f < length (subscriptionList s)" and act: "sub_active (subscriptionList s ! f)"
    and t: "event_for (events st) t s" and L: "log_ok t L U" and old: "older (events st) t [subscriptionList s ! f]"
    and node: "node_ok e"
  shows "\<exists>r st' q. queue_event e h t st s f =
           Some (r, st', with_subs s ((subscriptionList s)[f := (subscriptionList s ! f)\<lparr>outgoing := q\<rparr>]) (TotalSubscriptions s)) \<and>
         svc_core (events st') (map arg (gSendThreadPool st')) S L U A h
           (with_subs s ((subscriptionList s)[f := (subscriptionList s ! f)\<lparr>outgoing := q\<rparr>]) (TotalSubscriptions s)) B \<and>
         only_events st st' \<and> event_for (events st') t s \<and>
         (\<forall>a s' z. view (events st') a = Some (s', z) \<longrightarrow> s' \<noteq> sid (subscriptionList s ! f) \<longrightarrow>
            view (events st) a = Some (s', z))"
proof (cases "struct_ok e")
  case False
  then have "queue_event e h t st s f = Some (Some UPNP_E_OUTOF_MEMORY, st, s)" by (simp add: queue_event_def)
  moreover have "(subscriptionList s)[f := (subscriptionList s ! f)\<lparr>outgoing := outgoing (subscriptionList s ! f)\<rparr>] = subscriptionList s"
    by (simp add: list_update_id)
  ultimately show ?thesis using c t
    by (intro exI [of _ "Some UPNP_E_OUTOF_MEMORY"] exI [of _ st] exI [of _ "outgoing (subscriptionList s ! f)"])
      (simp add: with_subs_self)
next
  case struct: True
  let ?l = "subscriptionList s" and ?eh = "events st" and ?P = "map arg (gSendThreadPool st)"
  let ?X = "take f ?l" and ?Y = "drop (Suc f) ?l" and ?m = "map (Pair (svc_context h s))"
  define sub where sub: "sub = ?l ! f"
  let ?A = "A @ ?m ?X" and ?B = "?m ?Y @ B" and ?c = "svc_context h s"
  have l: "?l[f := x] = ?X @ x # ?Y" for x by (rule upd_conv_take_nth_drop [OF f])
  have l0: "?l = ?X @ sub # ?Y" using f by (simp add: sub id_take_nth_drop)
  have wf: "hwf ?eh" "service_wf s" using c by (simp_all add: svc_core_def)
  have j0: "J (view ?eh) (ev_brk ?eh) ?P S L U (?A @ (?c, sub) # ?B)"
    using c by (subst (asm) svc_core_def, simp add: svc_subs_def) (subst (asm) l0, simp)
  have sid43: "take 43 (sid sub) = sid sub" using J_D(7) [OF j0] by (simp add: ok_sub_def queue_ok_def SID_SIZE_def)
  obtain x where x: "texts ?eh t = Some x" "svc_key s = (Some (ev_servId x), Some (ev_UDN x))" "t < ev_brk ?eh"
    using t by (auto simp: event_for_def)
  have ctx: "?c = (h, ev_servId x, ev_UDN x)" using x(2) by (simp add: svc_context_def svc_key_def)
  define eh1 where eh1: "eh1 = ?eh\<lparr>texts := (texts ?eh)(t \<mapsto> x\<lparr>ref_count := ref_count x + 1\<rparr>)\<rparr>"
  obtain b eh2 where b: "new_struct eh1
      \<lparr>nt_sid = sid sub, nt_ctime = clock e, reference_count = t, nt_handle = h\<rparr> = (b, eh2)"
    by (cases "new_struct eh1 \<lparr>nt_sid = sid sub, nt_ctime = clock e, reference_count = t, nt_handle = h\<rparr>")
  note n = new_event_ok [OF wf(1) x(1) eh1 b]
  have v2: "view eh2 = (view ?eh)(b \<mapsto> (sid sub, t, ?c))" using n(3) ctx by simp
  have j2: "J (view eh2) (ev_brk eh2) ?P S L U (?A @ (?c, sub) # ?B)"
    unfolding v2 n(4)
  proof (rule J_new [OF j0 n(2)])
    show "\<forall>y\<in>set (?A @ (?c, sub) # ?B). sid (snd y) = sid sub \<longrightarrow> fst y = ?c"
      using J_D(3) [OF j0] by (auto simp: image_iff dest: sym)
  qed (use J_D(4) [OF j0] x(3) in auto)
  have nb: "b \<notin> set (owned ?P S (?A @ (?c, sub) # ?B))" using J_D(2) [OF j0] n(2) by auto
  have q: "\<exists>eh3 q D. maybeDiscardEvents eh2 (discard_clock e) (g_UpnpSdkEQMaxLen st) (g_UpnpSdkEQMaxAge st) (outgoing sub) = Some (eh3, q) \<and>
      frees eh2 D eh3 \<and> D \<subseteq> set (tail_args sub) \<and> (q = [] \<longleftrightarrow> outgoing sub = []) \<and>
      J (view eh3) (ev_brk eh3) ?P S L U (?A @ (?c, sub\<lparr>outgoing := q\<rparr>) # ?B) \<and> set (map arg (tl q)) \<subseteq> set (tail_args sub)"
  proof (cases "outgoing sub")
    case Nil
    then have e: "sub\<lparr>outgoing := []\<rparr> = sub" by (metis subscription.surjective subscription.update_convs(6))
    show ?thesis using Nil n(1) j2
      by (intro exI [of _ eh2] exI [of _ "[]"] exI [of _ "{}"]) (simp only: maybeDiscardEvents_def e, simp)
  next
    case (Cons first rest)
    then have "sub\<lparr>outgoing := first # rest\<rparr> = sub" by (metis subscription.surjective subscription.update_convs(6))
    then have "J (view eh2) (ev_brk eh2) ?P S L U (?A @ (?c, sub\<lparr>outgoing := first # rest\<rparr>) # ?B)" using j2 by simp
    from discard_loop_ok [OF n(1) this, of "discard_clock e" "g_UpnpSdkEQMaxLen st" "g_UpnpSdkEQMaxAge st"]
    show ?thesis using Cons by (fastforce simp: maybeDiscardEvents_def tail_args_def)
  qed
  then obtain eh3 q D where q:
    "maybeDiscardEvents eh2 (discard_clock e) (g_UpnpSdkEQMaxLen st) (g_UpnpSdkEQMaxAge st) (outgoing sub) = Some (eh3, q)"
    "frees eh2 D eh3" "D \<subseteq> set (tail_args sub)" "q = [] \<longleftrightarrow> outgoing sub = []"
    "J (view eh3) (ev_brk eh3) ?P S L U (?A @ (?c, sub\<lparr>outgoing := q\<rparr>) # ?B)" "set (map arg (tl q)) \<subseteq> set (tail_args sub)"
    by blast
  have wf3: "hwf eh3" using q(2) by (simp add: frees_def)
  have nb3: "b \<notin> set (owned ?P S (?A @ (?c, sub\<lparr>outgoing := q\<rparr>) # ?B))"
    using nb q(6) by (auto simp: owned_split tail_args_def)
  have bD: "b \<notin> D" using nb q(3) by (auto simp: owned_split)
  have v3: "view eh3 b = Some (sid sub, t, ?c)" using q(2) bD by (simp add: frees_def v2)
  have od: "y < t" if "view ?eh a = Some (sid sub, y, c')" for a y c'
    using old that unfolding older_def sub by (metis list.set_intros(1))
  have new3: "\<forall>a y c'. a \<noteq> b \<longrightarrow> view eh3 a = Some (sid sub, y, c') \<longrightarrow> y < t"
  proof (intro allI impI)
    fix a y c' assume "a \<noteq> b" "view eh3 a = Some (sid sub, y, c')"
    then have "view ?eh a = Some (sid sub, y, c')" using frees_view [OF q(2)] v2 by (metis fun_upd_apply)
    then show "y < t" by (rule od)
  qed
  have frame: "view ?eh a = Some (s', z)" if "view eh3 a = Some (s', z)" "s' \<noteq> sid sub" for a s' z
    using frees_view [OF q(2) that(1)] that(2) by (auto simp: v2 split: if_splits)
  have t3: "event_for eh3 t s"
  proof -
    have "\<forall>a\<in>D. \<exists>s x c. view eh2 a = Some (s, x, c) \<and> x \<noteq> t"
    proof
      fix a assume a: "a \<in> D"
      then have ta: "a \<in> set (tail_args sub)" using q(3) by blast
      then have "loc (view ?eh) (sid sub) a \<noteq> None" using tail_loc [OF j0, of ?c sub a] by simp
      then obtain y c' where "loc (view ?eh) (sid sub) a = Some (y, c')" by (cases "loc (view ?eh) (sid sub) a") auto
      then have "view ?eh a = Some (sid sub, y, c')" by (simp only: loc_text)
      moreover from this have "y < t" by (rule od)
      moreover have "a \<noteq> b" using bD a by blast
      ultimately have "view eh2 a = Some (sid sub, y, c') \<and> y \<noteq> t" by (simp add: v2)
      then show "\<exists>s x c. view eh2 a = Some (s, x, c) \<and> x \<noteq> t" by blast
    qed
    then have "texts eh3 t = texts eh2 t" by (rule frees_text [OF q(2)])
    moreover have "ev_brk eh3 = ev_brk eh2" using q(2) by (simp add: frees_def)
    ultimately show ?thesis using x n(4,5) by (simp add: event_for_def)
  qed
  have wfs: "serviceId s \<noteq> None" "UDN s \<noteq> None" "svc_active s" "TotalSubscriptions s = int (length ?l)"
    "\<forall>x\<in>set (?X @ sub # ?Y). has_urls x"
    using wf(2) l0 by (simp_all add: service_wf_def)
  have fin: "svc_core eh P' S L U A h (with_subs s (?l[f := sub\<lparr>outgoing := q'\<rparr>]) (TotalSubscriptions s)) B"
    if "hwf eh" "J (view eh) (ev_brk eh) P' S L U (?A @ (?c, sub\<lparr>outgoing := q'\<rparr>) # ?B)" for eh P' q'
    using that wfs by (simp add: svc_core_def) (simp add: l has_urls_def)
  have upd: "upd_sub s f g = with_subs s (?l[f := g sub]) (TotalSubscriptions s)" for g
    by (simp add: upd_sub_def with_subs_def sub)
  have run: "queue_event e h t st s f =
      (if \<not> job_ok e
       then Some (Some UPNP_E_OUTOF_MEMORY, st\<lparr>events := eh3\<lparr>structs := (structs eh3)(b := None)\<rparr>\<rparr>,
              with_subs s (?l[f := sub\<lparr>outgoing := q\<rparr>]) (TotalSubscriptions s))
       else if length (q @ [notify_job b]) = 1 then
         (if add_rc e \<noteq> 0
          then Some (Some (pool_error (add_rc e)), st\<lparr>events := eh3\<rparr>,
                 with_subs s (?l[f := sub\<lparr>outgoing := q @ [notify_job b]\<rparr>]) (TotalSubscriptions s))
          else Some (None, pool_add (add_rc e) (st\<lparr>events := eh3\<rparr>) (notify_job b),
                 with_subs s (?l[f := sub\<lparr>outgoing := [(notify_job b)\<lparr>jobId := STALE_JOBID\<rparr>]\<rparr>]) (TotalSubscriptions s)))
       else Some (None, st\<lparr>events := eh3\<rparr>,
              with_subs s (?l[f := sub\<lparr>outgoing := q @ [notify_job b]\<rparr>]) (TotalSubscriptions s)))"
    using struct node b q(1) by (simp add: queue_event_def Let_def x(1) sub [symmetric] sid43 upd flip: eh1)
  have act': "sub_active sub" using act by (simp add: sub)
  have v3': "view eh3 b = Some (sid (sub\<lparr>outgoing := q\<rparr>), t, ?c)" using v3 by simp
  have new3': "\<forall>a y c'. a \<noteq> b \<longrightarrow> view eh3 a = Some (sid (sub\<lparr>outgoing := q\<rparr>), y, c') \<longrightarrow> y < t" using new3 by simp
  have enq: "J (view eh3) (ev_brk eh3) P' S L U (?A @ (?c, sub\<lparr>outgoing := q'\<rparr>) # ?B)"
    if "q \<noteq> [] \<and> q' = q @ [job] \<and> arg job = b \<and> jobId job \<noteq> STALE_JOBID \<and> P' = ?P \<or>
        q = [] \<and> q' = [job] \<and> arg job = b \<and> (P' = ?P \<or> P' = ?P @ [b])" for P' q' job
    by (rule J_enqueue [OF q(5) v3' nb3 L new3', where job = job]) (use that act' in simp_all)
  show ?thesis
  proof (cases "job_ok e")
    case False
    let ?e = "eh3\<lparr>structs := (structs eh3)(b := None)\<rparr>"
    note fs = forget_struct [OF wf3, of b]
    have "J (view ?e) (ev_brk ?e) ?P S L U (?A @ (?c, sub\<lparr>outgoing := q\<rparr>) # ?B)"
      using J_release [OF q(5) nb3] fs by (simp add: frees_def)
    then have "svc_core ?e ?P S L U A h (with_subs s (?l[f := sub\<lparr>outgoing := q\<rparr>]) (TotalSubscriptions s)) B"
      using fs by (intro fin) (simp_all add: frees_def)
    moreover have "event_for ?e t s" using t3 by (simp add: event_for_def)
    ultimately show ?thesis using False frees_view [OF fs] frame
      by (intro exI [of _ "Some UPNP_E_OUTOF_MEMORY"] exI [of _ "st\<lparr>events := ?e\<rparr>"] exI [of _ q])
        (auto simp: run sub [symmetric])
  next
    case job: True
    show ?thesis
    proof (cases "q = []")
      case False
      have "J (view eh3) (ev_brk eh3) ?P S L U (?A @ (?c, sub\<lparr>outgoing := q @ [notify_job b]\<rparr>) # ?B)"
        by (rule enq [of _ "notify_job b"]) (use False in simp)
      from fin [OF wf3 this] show ?thesis using job False frame t3
        by (intro exI [of _ None] exI [of _ "st\<lparr>events := eh3\<rparr>"] exI [of _ "q @ [notify_job b]"])
          (auto simp: run sub [symmetric])
    next
      case q0: True
      show ?thesis
      proof (cases "add_rc e = 0")
        case False
        have "J (view eh3) (ev_brk eh3) ?P S L U (?A @ (?c, sub\<lparr>outgoing := q @ [notify_job b]\<rparr>) # ?B)"
          by (rule enq [of _ "notify_job b"]) (use q0 in simp)
        from fin [OF wf3 this] show ?thesis using job False q0 frame t3
          by (intro exI [of _ "Some (pool_error (add_rc e))"] exI [of _ "st\<lparr>events := eh3\<rparr>"] exI [of _ "q @ [notify_job b]"])
            (auto simp: run sub [symmetric])
      next
        case True
        let ?j = "(notify_job b)\<lparr>jobId := STALE_JOBID\<rparr>"
        have "J (view eh3) (ev_brk eh3) (?P @ [b]) S L U (?A @ (?c, sub\<lparr>outgoing := [?j]\<rparr>) # ?B)"
          by (rule enq [of _ ?j]) (use q0 in simp)
        from fin [OF wf3 this] show ?thesis using job True q0 frame t3
          by (intro exI [of _ None] exI [of _ "pool_add (add_rc e) (st\<lparr>events := eh3\<rparr>) (notify_job b)"] exI [of _ "[?j]"])
            (auto simp: run sub [symmetric] pool_add_def only_events_def)
      qed
    qed
  qed
qed

lemma notify_loop_ok:
  "svc_core (events st) (map arg (gSendThreadPool st)) S L U A h s B \<Longrightarrow> f < length (subscriptionList s) \<Longrightarrow>
   sub_active (subscriptionList s ! f) \<Longrightarrow> event_for (events st) t s \<Longrightarrow> log_ok t L U \<Longrightarrow>
   older (events st) t (drop f (subscriptionList s)) \<Longrightarrow> \<forall>k. node_ok (e k) \<Longrightarrow>
     \<exists>ret st' l' n'. notify_loop e k h t st s f = Some (ret, st', with_subs s l' n') \<and>
       svc_core (events st') (map arg (gSendThreadPool st')) S L U A h (with_subs s l' n') B \<and>
       only_events st st' \<and> event_for (events st') t s"
proof (induction "length (subscriptionList s) - f" arbitrary: k st s f rule: less_induct)
  case less
  note prem = less.prems
  let ?l = "subscriptionList s"
  have dr: "drop f ?l = ?l ! f # drop (Suc f) ?l" using prem(2) by (simp add: Cons_nth_drop_Suc)
  have old1: "older (events st) t [?l ! f]" using prem(6) by (simp add: older_def dr)
  from queue_event_ok [OF prem(1-5) old1, of "e k"] prem(7) obtain r st1 q where
    qe: "queue_event (e k) h t st s f =
           Some (r, st1, with_subs s (?l[f := (?l ! f)\<lparr>outgoing := q\<rparr>]) (TotalSubscriptions s))" and
    c1: "svc_core (events st1) (map arg (gSendThreadPool st1)) S L U A h
           (with_subs s (?l[f := (?l ! f)\<lparr>outgoing := q\<rparr>]) (TotalSubscriptions s)) B" and
    o1: "only_events st st1" and t1: "event_for (events st1) t s" and
    v1: "\<forall>a s' z. view (events st1) a = Some (s', z) \<longrightarrow> s' \<noteq> sid (?l ! f) \<longrightarrow> view (events st) a = Some (s', z)"
    by blast
  define s1 where s1: "s1 = with_subs s (?l[f := (?l ! f)\<lparr>outgoing := q\<rparr>]) (TotalSubscriptions s)"
  have l1: "subscriptionList s1 = ?l[f := (?l ! f)\<lparr>outgoing := q\<rparr>]" by (simp add: s1)
  have dr1: "drop (f + 1) (subscriptionList s1) = drop (Suc f) ?l" by (simp add: l1)
  show ?case
  proof (cases r)
    case (Some ret)
    then have "notify_loop e k h t st s f = Some (ret, st1, s1)"
      by (subst notify_loop.simps) (simp add: qe s1)
    then show ?thesis using c1 o1 t1 unfolding s1 by blast
  next
    case None
    have f1: "f < length (subscriptionList s1)" using prem(2) by (simp add: l1)
    from GetNextSubscription_ok [OF c1 [folded s1] f1, of "next_clock (e k)"] obtain r2 eh2 l' n' R where
      g: "GetNextSubscription (events st1) (next_clock (e k)) s1 f =
            Some (r2, eh2, with_subs s1 (take (f + 1) (subscriptionList s1) @ l') n')" and
      c2: "svc_core eh2 (map arg (gSendThreadPool st1)) S L U A h (with_subs s1 (take (f + 1) (subscriptionList s1) @ l') n') B" and
      d2: "dropped (events st1) R eh2" "R \<subseteq> set (drop (Suc f) ?l)" "set l' \<subseteq> set (drop (Suc f) ?l)" and
      r2: "\<forall>j. r2 = Some j \<longrightarrow> f < j \<and> j < f + 1 + length l' \<and>
             sub_active ((take (f + 1) (subscriptionList s1) @ l') ! j)"
      unfolding dr1 by blast
    have dist: "distinct (map sid ?l)" by (rule svc_sids_distinct [OF prem(1)])
    have ne: "sid x \<noteq> sid (?l ! f)" if x: "x \<in> set (drop (Suc f) ?l)" for x
    proof -
      have "distinct (map sid (drop f ?l))" using dist by (metis distinct_drop drop_map)
      then show ?thesis using x unfolding dr by (auto simp: image_iff)
    qed
    have oldR: "\<forall>x\<in>set (drop (Suc f) ?l). \<forall>a y c. view (events st1) a = Some (sid x, y, c) \<longrightarrow> y < t"
      using prem(6) v1 ne unfolding older_def dr by (metis list.set_intros(2))
    have t2: "texts eh2 t = texts (events st1) t"
    proof (rule dropped_text [OF d2(1) c1 [folded s1]])
      show "R \<subseteq> set (subscriptionList s1)" using d2(2) unfolding dr1 [symmetric] by (auto dest: in_set_dropD)
    qed (use oldR d2(2) in blast)
    have ev2: "ev_brk eh2 = ev_brk (events st1)" using d2(1) by (simp add: dropped_def frees_def)
    let ?s2 = "with_subs s (take (f + 1) (subscriptionList s1) @ l') n'"
    have s2: "with_subs s1 (take (f + 1) (subscriptionList s1) @ l') n' = ?s2" unfolding s1 by simp
    note g' = g [unfolded s2]
    have e2: "event_for eh2 t s" using t1 t2 ev2 by (simp add: event_for_def)
    have o2: "only_events st (st1\<lparr>events := eh2\<rparr>)" using only_events_trans [OF o1] by simp
    show ?thesis
    proof (cases r2)
      case None
      then have "notify_loop e k h t st s f = Some (UPNP_E_SUCCESS, st1\<lparr>events := eh2\<rparr>, ?s2)"
        using \<open>r = None\<close> by (subst notify_loop.simps) (simp only: qe s1 [symmetric] g' option.case prod.case)
      then show ?thesis using c2 o2 e2 unfolding s2
        by (intro exI [of _ UPNP_E_SUCCESS] exI [of _ "st1\<lparr>events := eh2\<rparr>"]
            exI [of _ "take (f + 1) (subscriptionList s1) @ l'"] exI [of _ n']) simp
    next
      case (Some j)
      have j: "f < j" "j < f + 1 + length l'" "sub_active ((take (f + 1) (subscriptionList s1) @ l') ! j)"
        using r2 Some by auto
      have run: "notify_loop e k h t st s f = notify_loop e (k + 1) h t (st1\<lparr>events := eh2\<rparr>) ?s2 j"
        using \<open>r = None\<close> Some by (subst notify_loop.simps) (simp only: qe s1 [symmetric] g' option.case prod.case)
      have lt: "length (take (f + 1) (subscriptionList s1)) = f + 1" using f1 by simp
      have "length l' \<le> length (drop (Suc f) ?l)"
      proof -
        have "distinct (map sid (subscriptionList (with_subs s1 (take (f + 1) (subscriptionList s1) @ l') n')))"
          by (rule svc_sids_distinct [OF c2])
        then have "distinct l'" by (simp add: distinct_map)
        then show ?thesis using d2(3) by (metis card_length card_mono distinct_card finite_set order_trans)
      qed
      then have dec: "length (subscriptionList ?s2) - j < length ?l - f" using j(1,2) lt prem(2) by simp
      have "drop j (take (f + 1) (subscriptionList s1) @ l') = drop (j - (f + 1)) l'" using j(1) lt by simp
      then have sub: "set (drop j (subscriptionList ?s2)) \<subseteq> set (drop (Suc f) ?l)"
        using d2(3) by (auto dest: in_set_dropD)
      have old2: "older eh2 t (drop j (subscriptionList ?s2))"
        using sub oldR dropped_view [OF d2(1)] unfolding older_def by blast
      have "\<exists>ret st' l'' n''. notify_loop e (k + 1) h t (st1\<lparr>events := eh2\<rparr>) ?s2 j = Some (ret, st', with_subs ?s2 l'' n'') \<and>
         svc_core (events st') (map arg (gSendThreadPool st')) S L U A h (with_subs ?s2 l'' n'') B \<and>
         only_events (st1\<lparr>events := eh2\<rparr>) st' \<and> event_for (events st') t ?s2"
        by (rule less.hyps [OF dec]) (use c2 [unfolded s2] j lt e2 prem(5,7) old2 in simp_all)
      then show ?thesis unfolding run using only_events_trans [OF o2] by (simp only: with_subs_simps event_for_with_subs) blast
    qed
  qed
qed

end
