(* ===== verification/Gena_Sections.thy ===== *)
theory Gena_Sections
  imports Gena_State
begin

text \<open>
  Every section that a call, a request or a thread job runs under the lock of the handle table is carried
  out without a fault and keeps the invariant.
\<close>

section \<open>Sections\<close>

definition inv :: "upnp \<Rightarrow> addr list \<Rightarrow> log \<Rightarrow> string set \<Rightarrow> bool" where
  "inv st S L U \<longleftrightarrow> \<not> locked st \<and> core st (map arg (gSendThreadPool st)) S L U"

text \<open>A section that returns and leaves the invariant.\<close>

definition runs :: "('a \<times> upnp) option \<Rightarrow> addr list \<Rightarrow> log \<Rightarrow> string set \<Rightarrow> bool" where
  "runs res S L U \<longleftrightarrow> (\<exists>r st'. res = Some (r, st') \<and> inv st' S L U)"

lemma core_cong:
  assumes "HandleTable st' = HandleTable st" "events st' = events st"
  shows "core st' = core st"
  using assms table_only [OF assms(1)] by (simp add: fun_eq_iff core_def)

lemma core_lock [simp]: "core (st\<lparr>locked := b\<rparr>) = core st"
  by (rule core_cong) simp_all

lemma HandleLock_ok: "\<not> locked st \<Longrightarrow> HandleLock st = Some (st\<lparr>locked := True\<rparr>)"
  by (simp add: HandleLock_def)

lemma leave_ok: "locked st \<Longrightarrow> leave r st = Some (r, st\<lparr>locked := False\<rparr>)"
  by (simp add: leave_def HandleUnlock_def)

lemma runs_leave:
  "locked st \<Longrightarrow> core st (map arg (gSendThreadPool st)) S L U \<Longrightarrow> runs (leave r st) S L U"
  by (simp add: runs_def leave_ok inv_def)

lemma runs_return: "inv st S L U \<Longrightarrow> runs (Some (r, st)) S L U"
  by (simp add: runs_def)

lemma core_svc:
  assumes c: "core st P S L U" and h: "has_service st h i"
  shows "\<exists>A B. csubs st = A @ svc_subs h (service_at st h i) @ B \<and>
           svc_core (events st) P S L U A h (service_at st h i) B \<and>
           (\<forall>st' s. HandleTable st' = HandleTable st \<longrightarrow> same_svc (service_at st h i) s \<longrightarrow>
              csubs (put_service st' h i s) = A @ svc_subs h s @ B \<and>
              (\<forall>P' S' L' U'. svc_core (events st') P' S' L' U' A h s B \<longrightarrow> core (put_service st' h i s) P' S' L' U'))"
proof -
  have wf: "tables_wf st" using c by (simp add: core_def)
  obtain A B where A: "csubs st = A @ svc_subs h (service_at st h i) @ B"
    "\<forall>s. csubs (put_service st h i s) = A @ svc_subs h s @ B" using csubs_split [OF wf h] by blast
  have swf: "service_wf (service_at st h i)"
  proof -
    obtain info where i: "slot st h = Some info" "HType info = HND_DEVICE" "i < length (serviceList (ServiceTable info))"
      using h by (auto simp: has_service_def split: option.splits)
    then show ?thesis using wf by (auto simp: tables_wf_def table_wf_def service_at_def)
  qed
  have tab: "HandleTable (put_service st' h i s) = HandleTable (put_service st h i s)"
    if "HandleTable st' = HandleTable st" for st' s
    using that table_only(1) [OF that] by (simp add: put_service_def set_slot_def split: option.splits)
  have "svc_core (events st) P S L U A h (service_at st h i) B" using c swf A(1) by (simp add: core_def svc_core_def)
  moreover have "core (put_service st' h i s) P' S' L' U'"
    if e: "HandleTable st' = HandleTable st" "same_svc (service_at st h i) s" "svc_core (events st') P' S' L' U' A h s B"
    for st' s P' S' L' U'
    using e(3) table_only(2,3) [OF tab [OF e(1), of s]] A(2) put_service_wf [OF wf h _ e(2)]
    by (simp add: core_def svc_core_def)
  moreover have "csubs (put_service st' h i s) = A @ svc_subs h s @ B" if e: "HandleTable st' = HandleTable st" for st' s
    using table_only(2) [OF tab [OF e, of s]] A(2) by simp
  ultimately show ?thesis using A(1) by blast
qed

lemma J_mono: "J v mx P S L U subs \<Longrightarrow> mx \<le> mx' \<Longrightarrow> J v mx' P S L U subs"
  by (fastforce simp: J_def log_ok_def)

section \<open>Events for all subscribers\<close>

text \<open>A new text, which no structure refers to.\<close>

lemma new_text_ok:
  assumes c: "core st P S L U" and e: "new_text (events st) x = (t, eh)" and r: "ref_count x = 0"
  shows "t = ev_brk (events st)" "core (st\<lparr>events := eh\<rparr>) P S L U" "view eh = view (events st)" "log_ok t L U"
    "texts eh t = Some x" "t < ev_brk eh" "\<forall>a s y z. view eh a = Some (s, y, z) \<longrightarrow> y < t" "users eh t = {}"
proof -
  let ?eh = "events st"
  have eh: "t = ev_brk ?eh" "eh = ?eh\<lparr>texts := (texts ?eh)(t \<mapsto> x), ev_brk := Suc t\<rparr>"
    using e by (auto simp: new_text_def)
  have wf: "hwf ?eh" and j: "J (view ?eh) (ev_brk ?eh) P S L U (csubs st)" using c by (simp_all add: core_def)
  have none: "texts ?eh t = None"
  proof (rule ccontr)
    assume "texts ?eh t \<noteq> None"
    then obtain y where "texts ?eh t = Some y" by blast
    then show False using wf eh(1) by (auto simp: hwf_def)
  qed
  have us: "users eh k = users ?eh k" for k by (simp add: users_def eh(2))
  have rn: "reference_count n \<noteq> t" if "structs ?eh a = Some n" for a n
    using wf none that unfolding hwf_def by blast
  show u0: "users eh t = {}" unfolding us using rn by (auto simp: users_def)
  show v: "view eh = view ?eh"
    using rn by (auto simp: fun_eq_iff view_def eh(2) split: option.splits)
  have "hwf eh"
    unfolding hwf_def
  proof (intro conjI allI impI)
    fix k y assume k: "texts eh k = Some y"
    show "k < ev_brk eh" using k wf by (auto simp: eh hwf_def less_Suc_eq split: if_splits)
    show "int (card (users eh k)) \<le> ref_count y"
    proof (cases "k = t")
      case True
      then show ?thesis using k u0 r by (simp add: eh(2))
    next
      case False
      then show ?thesis using k wf unfolding us by (simp add: eh(2) hwf_def)
    qed
  qed (use wf in \<open>auto simp: hwf_def eh less_Suc_eq\<close>)
  moreover have eb: "ev_brk eh = Suc t" by (simp add: eh(2))
  moreover have "J (view eh) (ev_brk eh) P S L U (csubs st)" using J_mono [OF j, of "ev_brk eh"] eb eh(1) by (simp add: v)
  ultimately show "core (st\<lparr>events := eh\<rparr>) P S L U" using c table_only [of "st\<lparr>events := eh\<rparr>" st] by (simp add: core_def)
  show "log_ok t L U" "\<forall>a s y z. view eh a = Some (s, y, z) \<longrightarrow> y < t" using J_D(5,6) [OF j] v eh(1) by auto
qed (use e in \<open>auto simp: new_text_def\<close>)

lemma release_core:
  assumes c: "core st P S L U" and u: "users (events st) t = {}"
  shows "core (release_text st t) P S L U"
proof -
  have wf: "hwf (events st)" using c by (simp add: core_def)
  show ?thesis using c release_text_ok [OF wf u] table_only [of "release_text st t" st]
    by (simp add: core_def release_text_def)
qed

text \<open>Leaving \<open>genaNotifyAllCommon\<close>: a text no structure refers to is freed.\<close>

lemma finish_text:
  assumes l: "locked st" and c: "core st (map arg (gSendThreadPool st)) S L U" and t: "texts (events st) t \<noteq> None"
  shows "runs (do { txt \<leftarrow> texts (events st) t; leave ret (if ref_count txt = 0 then release_text st t else st) }) S L U"
proof -
  obtain x where x: "texts (events st) t = Some x" using t by blast
  have wf: "hwf (events st)" using c by (simp add: core_def)
  have "users (events st) t = {}" if "ref_count x = 0"
    using wf x that hwf_finite [OF wf, of t] by (fastforce simp: hwf_def)
  then have "core (release_text st t) (map arg (gSendThreadPool (release_text st t))) S L U" if "ref_count x = 0"
    using that release_core [OF c] by (simp add: release_text_def)
  then show ?thesis using x l c by (auto simp: release_text_def intro!: runs_leave)
qed

lemma locked_simps [simp]: "locked (st\<lparr>locked := b\<rparr>) = b" "events (st\<lparr>locked := b\<rparr>) = events st"
  "gSendThreadPool (st\<lparr>locked := b\<rparr>) = gSendThreadPool st"
  by simp_all

lemma genaNotifyAllCommon_ok:
  assumes i: "inv st0 S L U" and node: "\<forall>k. node_ok (e k)"
  shows "runs (genaNotifyAllCommon True e st0 h udn servId ps) S L U"
proof -
  let ?x = "\<lparr>ref_count = 0, ev_headers = AllocGenaHeaders ps, ev_propertySet = ps, ev_servId = servId, ev_UDN = udn\<rparr>"
  let ?P = "map arg (gSendThreadPool st0)"
  obtain t eh where nt: "new_text (events st0) ?x = (t, eh)" by (cases "new_text (events st0) ?x")
  define st where st: "st = st0\<lparr>events := eh, locked := True\<rparr>"
  have c0: "core st0 ?P S L U" and l0: "\<not> locked st0" using i by (simp_all add: inv_def)
  have r0: "ref_count ?x = 0" by simp
  note n = new_text_ok [OF c0 nt r0]
  have c: "core st ?P S L U" "locked st" "gSendThreadPool st = gSendThreadPool st0" "events st = eh"
    using n(2) by (simp_all add: st)
  define R where R: "R = (if GetHandleInfo st h \<noteq> HND_DEVICE then Some (UPNP_E_INVALID_HANDLE, st)
           else do {
             found \<leftarrow> find_service st h servId udn;
             (case found of None \<Rightarrow> Some (UPNP_E_INVALID_SERVICE, st)
              | Some i \<Rightarrow> do {
                  (finger, eh1, service) \<leftarrow>
                    GetFirstSubscription (events st) (next_clock (e 0)) (service_at st h i);
                  (ret, st2, service1) \<leftarrow>
                    (case finger of None \<Rightarrow> Some (UPNP_E_SUCCESS, st\<lparr>events := eh1\<rparr>, service)
                     | Some f \<Rightarrow> notify_loop e 1 h t (st\<lparr>events := eh1\<rparr>) service f);
                  Some (ret, put_service st2 h i service1)
                })
           })"
  have run: "genaNotifyAllCommon True e st0 h udn servId ps =
      do { (ret, st1) \<leftarrow> R; txt \<leftarrow> texts (events st1) t; leave ret (if ref_count txt = 0 then release_text st1 t else st1) }"
    unfolding R st by (simp add: genaNotifyAllCommon_def HandleLock_def nt l0)
  have "\<exists>ret st1. R = Some (ret, st1) \<and> locked st1 \<and> core st1 (map arg (gSendThreadPool st1)) S L U \<and>
          texts (events st1) t \<noteq> None"
  proof (cases "GetHandleInfo st h = HND_DEVICE")
    case False
    then show ?thesis using c n(5) by (simp add: R)
  next
    case dev: True
    have wf: "tables_wf st" using c(1) by (simp add: core_def)
    from find_service_ok [OF wf dev, of servId udn] show ?thesis
    proof (elim disjE exE conjE)
      assume "find_service st h servId udn = Some None"
      then show ?thesis using dev c n(5) by (simp add: R)
    next
      fix i assume f: "find_service st h servId udn = Some (Some i)" "has_service st h i"
        "svc_key (service_at st h i) = (Some servId, Some udn)"
      let ?s = "service_at st h i"
      obtain A B where AB: "svc_core (events st) ?P S L U A h ?s B"
        "\<forall>st' s. HandleTable st' = HandleTable st \<longrightarrow> same_svc ?s s \<longrightarrow>
            (\<forall>P' S' L' U'. svc_core (events st') P' S' L' U' A h s B \<longrightarrow> core (put_service st' h i s) P' S' L' U')"
        using core_svc [OF c(1) f(2)] by metis
      obtain r eh1 l' n' D where g: "GetFirstSubscription (events st) (next_clock (e 0)) ?s = Some (r, eh1, with_subs ?s l' n')"
        "svc_core eh1 ?P S L U A h (with_subs ?s l' n') B" "dropped (events st) D eh1"
        "D \<subseteq> set (subscriptionList ?s)" "\<forall>j. r = Some j \<longrightarrow> j < length l' \<and> sub_active (l' ! j)"
        using GetFirstSubscription_ok [OF AB(1), of "next_clock (e 0)"] by blast
      have old: "y < t" if "view (events st) a = Some (s', y, z)" for a s' y z using n(7) that c(4) by blast
      have t1: "texts eh1 t = Some ?x"
        using dropped_text [OF g(3) AB(1) g(4), of t] old n(5) c(4) by auto
      have b1: "ev_brk eh1 = ev_brk eh" using g(3) c(4) by (simp add: dropped_def frees_def)
      have ev: "event_for eh1 t (with_subs ?s l' n')" using t1 b1 n(6) f(3) by (simp add: event_for_def)
      show ?thesis
      proof (cases r)
        case None
        have "core (put_service (st\<lparr>events := eh1\<rparr>) h i (with_subs ?s l' n')) ?P S L U"
          using AB(2) g(2) by simp
        then show ?thesis using dev f(1) g(1) None c t1 by (simp add: R)
      next
        case (Some j)
        have "older eh1 t (drop j l')" using dropped_view [OF g(3)] old unfolding older_def by blast
        then have "\<exists>ret st' l'' n''. notify_loop e 1 h t (st\<lparr>events := eh1\<rparr>) (with_subs ?s l' n') j =
              Some (ret, st', with_subs (with_subs ?s l' n') l'' n'') \<and>
            svc_core (events st') (map arg (gSendThreadPool st')) S L U A h (with_subs (with_subs ?s l' n') l'' n'') B \<and>
            only_events (st\<lparr>events := eh1\<rparr>) st' \<and> event_for (events st') t (with_subs ?s l' n')"
          by (intro notify_loop_ok) (use g(2,5) Some ev n(4) node c(3) in simp_all)
        then obtain ret st' l'' n'' where q: "notify_loop e 1 h t (st\<lparr>events := eh1\<rparr>) (with_subs ?s l' n') j =
              Some (ret, st', with_subs ?s l'' n'')"
          "svc_core (events st') (map arg (gSendThreadPool st')) S L U A h (with_subs ?s l'' n'') B"
          "only_events (st\<lparr>events := eh1\<rparr>) st'" "event_for (events st') t (with_subs ?s l' n')" by auto
        have "core (put_service st' h i (with_subs ?s l'' n'')) (map arg (gSendThreadPool st')) S L U"
          using AB(2) q(2) only_events_fields(1) [OF q(3)] by simp
        moreover have "locked st'" using only_events_fields(2) [OF q(3)] c(2) by simp
        moreover have "texts (events st') t \<noteq> None" using q(4) by (auto simp: event_for_def)
        ultimately show ?thesis using dev f(1) g(1) Some q(1) by (simp add: R)
      qed
    qed
  qed
  then obtain ret st1 where "R = Some (ret, st1)" "locked st1" "core st1 (map arg (gSendThreadPool st1)) S L U"
    "texts (events st1) t \<noteq> None" by blast
  then show ?thesis unfolding run using finish_text by simp
qed

section \<open>The first event\<close>

lemma init_failed_none:
  assumes "locked st" "core st (map arg (gSendThreadPool st)) S L U" "users (events st) t = {}"
  shows "runs (init_failed ret st t None) S L U"
proof -
  have "core (release_text st t) (map arg (gSendThreadPool (release_text st t))) S L U"
    using release_core [OF assms(2,3)] by (simp add: release_text_def)
  then show ?thesis using assms(1) by (simp add: init_failed_def release_text_def runs_leave)
qed

lemma heap_comm:
  fixes eh :: event_heap
  shows "eh\<lparr>texts := f, structs := g\<rparr> = eh\<lparr>structs := g, texts := f\<rparr>"
  by (cases eh) simp

lemma init_failed_struct:
  assumes l: "locked st" and c: "core st (map arg (gSendThreadPool st)) S L U"
    and b: "b \<notin> set (owned (map arg (gSendThreadPool st)) S (csubs st))" and u: "users (events st) t \<subseteq> {b}"
  shows "runs (init_failed ret st t (Some b)) S L U"
proof -
  let ?eh = "(events st)\<lparr>structs := (structs (events st))(b := None)\<rparr>"
  let ?st = "st\<lparr>events := ?eh\<rparr>"
  have wf: "hwf (events st)" using c by (simp add: core_def)
  note f = forget_struct [OF wf, of b]
  have j: "J (view (events st)) (ev_brk (events st)) (map arg (gSendThreadPool st)) S L U (csubs st)" using c by (simp add: core_def)
  have "core ?st (map arg (gSendThreadPool ?st)) S L U"
    using c f J_release [OF j b] table_only [of ?st st] by (simp add: core_def frees_def)
  moreover have "users (events ?st) t = {}" using u by (auto simp: users_def)
  ultimately have "runs (init_failed ret ?st t None) S L U" using l by (intro init_failed_none) simp_all
  moreover have "init_failed ret st t (Some b) = init_failed ret ?st t None"
    by (simp add: init_failed_def release_text_def heap_comm)
  ultimately show ?thesis by simp
qed

text \<open>A subscription in its service: the position in the list of all subscriptions.\<close>

lemma svc_core_split:
  assumes "svc_core eh P S L U A h s B" "j < length (subscriptionList s)"
  shows "J (view eh) (ev_brk eh) P S L U ((A @ map (Pair (svc_context h s)) (take j (subscriptionList s))) @
           (svc_context h s, subscriptionList s ! j) # (map (Pair (svc_context h s)) (drop (Suc j) (subscriptionList s)) @ B))"
proof -
  have "subscriptionList s = take j (subscriptionList s) @ subscriptionList s ! j # drop (Suc j) (subscriptionList s)"
    using assms(2) by (simp add: id_take_nth_drop)
  then have "svc_subs h s = map (Pair (svc_context h s)) (take j (subscriptionList s) @ subscriptionList s ! j # drop (Suc j) (subscriptionList s))"
    by (simp add: svc_subs_def)
  then show ?thesis using assms(1) by (simp add: svc_core_def)
qed

lemma svc_core_join:
  assumes "svc_core eh0 P0 S0 L0 U0 A h s B" "j < length (subscriptionList s)" "hwf eh" "has_urls sub"
    "J (view eh) (ev_brk eh) P S L U ((A @ map (Pair (svc_context h s)) (take j (subscriptionList s))) @
           (svc_context h s, sub) # (map (Pair (svc_context h s)) (drop (Suc j) (subscriptionList s)) @ B))"
  shows "svc_core eh P S L U A h (with_subs s ((subscriptionList s)[j := sub]) (TotalSubscriptions s)) B"
proof -
  have wf: "service_wf s" using assms(1) by (simp add: svc_core_def)
  then have "\<forall>x\<in>set ((subscriptionList s)[j := sub]). has_urls x"
    using assms(4) by (auto simp: service_wf_def dest: set_update_subset_insert [THEN subsetD])
  then have "service_wf (with_subs s ((subscriptionList s)[j := sub]) (TotalSubscriptions s))"
    using wf by (simp add: service_wf_def [of s])
  then show ?thesis using assms(2,3,5) by (simp add: svc_core_def upd_conv_take_nth_drop)
qed

lemma upd_sub_with: "upd_sub s j f = with_subs s ((subscriptionList s)[j := f (subscriptionList s ! j)]) (TotalSubscriptions s)"
  by (simp add: upd_sub_def with_subs_def)

lemma genaInitNotifyCommon_ok:
  assumes i: "inv st0 S L U" and node: "node_ok e"
  shows "runs (genaInitNotifyCommon True headers_ok e st0 h udn servId (Some ps) s) S L U"
proof -
  let ?x = "\<lparr>ref_count = 0, ev_headers = AllocGenaHeaders ps, ev_propertySet = ps, ev_servId = servId, ev_UDN = udn\<rparr>"
  let ?P = "map arg (gSendThreadPool st0)"
  obtain t eh where nt: "new_text (events st0) ?x = (t, eh)" by (cases "new_text (events st0) ?x")
  define st where st: "st = st0\<lparr>events := eh, locked := True\<rparr>"
  have c0: "core st0 ?P S L U" and l0: "\<not> locked st0" using i by (simp_all add: inv_def)
  have r0: "ref_count ?x = 0" by simp
  note n = new_text_ok [OF c0 nt r0]
  have c: "core st ?P S L U" "locked st" "gSendThreadPool st = gSendThreadPool st0" "events st = eh"
    using n(2) by (simp_all add: st)
  have fail: "runs (init_failed ret st t None) S L U" for ret
    using c n(8) by (intro init_failed_none) simp_all
  have lock: "HandleLock (st0\<lparr>events := eh\<rparr>) = Some st" using l0 by (simp add: HandleLock_def st)
  note defs = genaInitNotifyCommon_def nt lock
  show ?thesis
  proof (cases "GetHandleInfo st h = HND_DEVICE")
    case False
    then show ?thesis using fail by (simp add: defs)
  next
    case dev: True
    have wf: "tables_wf st" using c(1) by (simp add: core_def)
    from find_service_ok [OF wf dev, of servId udn] show ?thesis
    proof (elim disjE exE conjE)
      assume "find_service st h servId udn = Some None"
      then show ?thesis using dev fail by (simp add: defs)
    next
      fix i assume f: "find_service st h servId udn = Some (Some i)" "has_service st h i"
        "svc_key (service_at st h i) = (Some servId, Some udn)"
      let ?s = "service_at st h i"
      obtain A B where AB: "svc_core (events st) ?P S L U A h ?s B"
        "\<forall>st' s. HandleTable st' = HandleTable st \<longrightarrow> same_svc ?s s \<longrightarrow>
            csubs (put_service st' h i s) = A @ svc_subs h s @ B \<and>
            (\<forall>P' S' L' U'. svc_core (events st') P' S' L' U' A h s B \<longrightarrow> core (put_service st' h i s) P' S' L' U')"
        using core_svc [OF c(1) f(2)] by metis
      obtain r eh1 l' n' D where g: "GetSubscriptionSID (events st) (next_clock e) s ?s = Some (r, eh1, with_subs ?s l' n')"
        "svc_core eh1 ?P S L U A h (with_subs ?s l' n') B" "dropped (events st) D eh1" "D \<subseteq> set (subscriptionList ?s)"
        "case r of None \<Rightarrow> s \<notin> sid ` set l' | Some j \<Rightarrow> j < length l' \<and> sid (l' ! j) = s \<and> l' = subscriptionList ?s \<and> eh1 = events st"
        using GetSubscriptionSID_ok [OF AB(1), of "next_clock e" s] by blast
      define st1 where st1: "st1 = put_service (st\<lparr>events := eh1\<rparr>) h i (with_subs ?s l' n')"
      have c1: "core st1 (map arg (gSendThreadPool st1)) S L U" "locked st1" "events st1 = eh1"
        using AB(2) g(2) c by (simp_all add: st1)
      have old1: "view eh1 a = Some (s', y, z) \<Longrightarrow> y < t" for a s' y z
        using dropped_view [OF g(3)] n(7) c(4) by blast
      have "users eh1 t = {}"
      proof (rule ccontr)
        assume "users eh1 t \<noteq> {}"
        then obtain a m where a: "structs eh1 a = Some m" "reference_count m = t" by (auto simp: users_def)
        have "hwf eh1" using g(2) by (simp add: svc_core_def)
        from view_struct(1) [OF this a(1)] old1 a(2) show False by blast
      qed
      then have fail1: "runs (init_failed ret st1 t None) S L U" for ret
        using c1 by (intro init_failed_none) simp_all
      show ?thesis
      proof (cases r)
        case None
        then show ?thesis using dev f(1) g(1) fail1 by (simp add: defs st1)
      next
        case (Some j)
        have j: "j < length l'" "sid (l' ! j) = s" "l' = subscriptionList ?s" "eh1 = events st" using g(5) Some by auto
        show ?thesis
        proof (cases "sub_active (l' ! j)")
          case True
          then show ?thesis using dev f(1) g(1) Some fail1 by (simp add: defs st1)
        next
          case inact: False
          let ?sub = "l' ! j" and ?s1 = "with_subs ?s l' n'" and ?c = "svc_context h ?s"
          let ?A = "A @ map (Pair ?c) (take j l')" and ?B = "map (Pair ?c) (drop (Suc j) l') @ B"
          have j1: "J (view eh1) (ev_brk eh1) ?P S L U (?A @ (?c, ?sub) # ?B)"
            using svc_core_split [OF g(2), of j] j(1) by simp
          have ok: "ok_sub (view eh1) ?P S L ?c ?sub" using J_D(7) [OF j1] by simp
          have o: "outgoing ?sub = []" using ok inact by (simp add: ok_sub_def queue_ok_def)
          have hu: "has_urls ?sub" using g(2) j(1) by (simp add: svc_core_def)
          let ?sub1 = "?sub\<lparr>sub_active := True\<rparr>"
          have j2: "J (view eh1) (ev_brk eh1) ?P S L U (?A @ (?c, ?sub1) # ?B)"
            by (rule J_fields [OF j1]) simp_all
          have wf1: "hwf eh1" using g(2) by (simp add: svc_core_def)
          have c2: "svc_core eh1 ?P S L U A h (with_subs ?s (l'[j := ?sub1]) n') B"
            using svc_core_join [OF g(2), of j eh1 ?sub1] j(1) wf1 hu j2 by (simp add: has_urls_def)
          define st2 where st2: "st2 = put_service st1 h i (with_subs ?s (l'[j := ?sub1]) n')"
          have h1: "tables_wf (st\<lparr>events := eh1\<rparr>)" "has_service (st\<lparr>events := eh1\<rparr>) h i"
            using wf f(2) table_only [of "st\<lparr>events := eh1\<rparr>" st] by simp_all
          have pp: "st2 = put_service (st\<lparr>events := eh1\<rparr>) h i (with_subs ?s (l'[j := ?sub1]) n')"
            unfolding st2 st1 by (rule put_service_at(3) [OF h1])
          have cs: "core st2 (map arg (gSendThreadPool st2)) S L U" "locked st2" "events st2 = eh1"
            "gSendThreadPool st2 = gSendThreadPool st0"
            using AB(2) c2 c by (simp_all add: pp)
          have fail2: "runs (init_failed ret st2 t None) S L U" for ret
            using cs \<open>users eh1 t = {}\<close> by (intro init_failed_none) simp_all
          have us: "upd_sub ?s1 j (\<lambda>x. x\<lparr>sub_active := True\<rparr>) = with_subs ?s (l'[j := ?sub1]) n'"
            by (simp add: upd_sub_with)
          show ?thesis
          proof (cases "headers_ok \<and> struct_ok e")
            case False
            then show ?thesis using dev f(1) g(1) Some inact fail2
              by (auto simp: defs st1 [symmetric] st2 [symmetric] us)
          next
            case ok': True
            have x: "texts eh1 t = Some ?x" using n(5) j(4) c(4) by simp
            define eh2 where eh2: "eh2 = eh1\<lparr>texts := (texts eh1)(t \<mapsto> ?x\<lparr>ref_count := ref_count ?x + 1\<rparr>)\<rparr>"
            have s43: "take 43 s = s" using ok j(2) by (simp add: ok_sub_def queue_ok_def SID_SIZE_def)
            obtain b eh3 where b: "new_struct eh2 \<lparr>nt_sid = s, nt_ctime = clock e, reference_count = t, nt_handle = h\<rparr> = (b, eh3)"
              by (cases "new_struct eh2 \<lparr>nt_sid = s, nt_ctime = clock e, reference_count = t, nt_handle = h\<rparr>")
            have b': "new_struct (eh1\<lparr>texts := (texts eh1)(t \<mapsto> ?x\<lparr>ref_count := 1\<rparr>)\<rparr>)
                \<lparr>nt_sid = s, nt_ctime = clock e, reference_count = t, nt_handle = h\<rparr> = (b, eh3)"
              using b by (simp add: eh2)
            note m = new_event_ok [OF wf1 x eh2 b]
            have cc: "?c = (h, servId, udn)" using f(3) by (simp add: svc_context_def svc_key_def)
            have v3: "view eh3 = (view eh1)(b \<mapsto> (sid ?sub1, t, ?c))" using m(3) cc j(2) by simp
            have brk: "t < ev_brk eh1" using n(6) j(4) c(4) by simp
            have j3: "J (view eh3) (ev_brk eh3) ?P S L U (?A @ (?c, ?sub1) # ?B)"
              unfolding v3 m(4)
            proof (rule J_new [OF j2 m(2)])
              show "\<forall>y\<in>set (?A @ (?c, ?sub1) # ?B). sid (snd y) = sid ?sub1 \<longrightarrow> fst y = ?c"
                using J_D(3) [OF j2] by (auto simp: image_iff dest: sym)
            qed (use J_D(4) [OF j2] brk in auto)
            have nb: "b \<notin> set (owned ?P S (?A @ (?c, ?sub1) # ?B))" using J_D(2) [OF j2] m(2) by auto
            define st3 where st3: "st3 = st2\<lparr>events := eh3\<rparr>"
            show ?thesis
            proof (cases "add_rc e = 0")
              case False
              have c3: "svc_core eh3 ?P S L U A h (with_subs ?s (l'[j := ?sub1]) n') B"
                using svc_core_join [OF g(2), of j eh3 ?sub1] j(1) m(1) hu j3 by (simp add: has_urls_def)
              have st3': "st3 = put_service (st\<lparr>events := eh3\<rparr>) h i (with_subs ?s (l'[j := ?sub1]) n')"
                unfolding st3 pp by (simp add: put_service_def slot_def set_slot_def split: option.splits)
              have tab: "HandleTable (st\<lparr>events := eh3\<rparr>) = HandleTable st" by simp
              have c3': "core st3 (map arg (gSendThreadPool st3)) S L U" "locked st3" "events st3 = eh3"
                "csubs st3 = A @ map (Pair ?c) (l'[j := ?sub1]) @ B"
                using AB(2) [rule_format, OF tab, of "with_subs ?s (l'[j := ?sub1]) n'"] c3 c by (simp_all add: st3')
              have nb3: "b \<notin> set (owned (map arg (gSendThreadPool st3)) S (csubs st3))"
                using nb c3'(4) j(1) cs(4) by (simp add: st3 upd_conv_take_nth_drop)
              have "users eh1 t = {}" by fact
              then have "users eh3 t \<subseteq> {b}"
                using b by (auto simp: users_def new_struct_def eh2 split: if_splits) blast
              then have "runs (init_failed (pool_error (add_rc e)) st3 t (Some b)) S L U"
                by (intro init_failed_struct c3' nb3) (simp add: c3'(3))
              then show ?thesis using dev f(1) g(1) Some inact ok' False x b' s43
                by (simp add: defs st1 [symmetric] st2 [symmetric] us c1(3) cs(3) st3 [symmetric])
            next
              case acc: True
              let ?j = "(notify_job b)\<lparr>jobId := STALE_JOBID\<rparr>"
              let ?sub2 = "?sub1\<lparr>outgoing := outgoing ?sub1 @ [?j]\<rparr>"
              have "\<forall>a y c'. a \<noteq> b \<longrightarrow> view eh3 a = Some (sid ?sub1, y, c') \<longrightarrow> y < t"
                using old1 unfolding v3 by (metis fun_upd_apply)
              then have "J (view eh3) (ev_brk eh3) (?P @ [b]) S L U (?A @ (?c, ?sub2) # ?B)"
                by (intro J_enqueue [OF j3 _ nb n(4), where job = ?j]) (use v3 o in simp_all)
              then have c4: "svc_core eh3 (?P @ [b]) S L U A h (with_subs ?s (l'[j := ?sub2]) n') B"
                using svc_core_join [OF g(2), of j eh3 ?sub2] j(1) m(1) hu by (simp add: has_urls_def)
              define st4 where st4: "st4 = pool_add (add_rc e) st3 (notify_job b)"
              have us2: "upd_sub (with_subs ?s (l'[j := ?sub1]) n') j (\<lambda>x. x\<lparr>outgoing := outgoing x @ [?j]\<rparr>) =
                  with_subs ?s (l'[j := ?sub2]) n'" using j(1) by (simp add: upd_sub_with)
              have st5: "put_service st4 h i (with_subs ?s (l'[j := ?sub2]) n') =
                  put_service (st\<lparr>events := eh3, gSendThreadPool := gSendThreadPool st0 @ [notify_job b]\<rparr>) h i (with_subs ?s (l'[j := ?sub2]) n')"
                (is "_ = put_service ?st5 h i _")
              proof -
                have "st4 = put_service ?st5 h i (with_subs ?s (l'[j := ?sub1]) n')"
                  unfolding st4 st3 pp using acc c(3)
                  by (simp add: pool_add_def put_service_def slot_def set_slot_def split: option.splits)
                moreover have "tables_wf ?st5" "has_service ?st5 h i" using wf f(2) table_only [of ?st5 st] by simp_all
                ultimately show ?thesis by (simp only: put_service_at(3))
              qed
              have "core (put_service st4 h i (with_subs ?s (l'[j := ?sub2]) n')) (?P @ [b]) S L U"
                unfolding st5 using AB(2) c4 by simp
              then have "runs (leave UPNP_E_SUCCESS (put_service st4 h i (with_subs ?s (l'[j := ?sub2]) n'))) S L U"
                by (intro runs_leave) (simp_all add: st4 acc pool_add_def st3 cs(2,4))
              then show ?thesis using dev f(1) g(1) Some inact ok' acc x b' s43 node
                by (simp add: defs st1 [symmetric] st2 [symmetric] us c1(3) cs(3) st3 [symmetric]
                    st4 [unfolded acc, symmetric] us2)
            qed
          qed
        qed
      qed
    qed
  qed
qed

section \<open>The thread job\<close>

lemma drop_notify_ok:
  assumes l: "locked st" and c: "core st P S L U" and a: "structs (events st) a \<noteq> None" "a \<notin> set (owned P S (csubs st))"
  shows "\<exists>st'. drop_notify r st a = Some (r, st') \<and> \<not> locked st' \<and> core st' P S L U \<and>
           gSendThreadPool st' = gSendThreadPool st \<and> HandleTable st' = HandleTable st"
proof -
  have wf: "hwf (events st)" and j: "J (view (events st)) (ev_brk (events st)) P S L U (csubs st)"
    using c by (simp_all add: core_def)
  obtain n where "structs (events st) a = Some n" using a(1) by blast
  then obtain eh where e: "free_notify_struct (events st) a = Some eh" "frees (events st) {a} eh"
    using free_notify_struct_ok [OF wf] by blast
  have "core (st\<lparr>events := eh\<rparr>) P S L U"
    using c e(2) J_release [OF j a(2)] table_only [of "st\<lparr>events := eh\<rparr>" st] by (simp add: core_def frees_def)
  then show ?thesis using e(1) l
    by (intro exI [of _ "st\<lparr>events := eh, locked := False\<rparr>"]) (simp add: drop_notify_def leave_ok)
qed

lemma job_not_tail:
  assumes "J v mx P S L U subs" "(c, z) \<in> set subs" "a \<in> set P \<union> set S"
  shows "a \<notin> set (tail_args z)"
proof
  assume "a \<in> set (tail_args z)"
  then have "a \<in> set (concat (map (tail_args \<circ> snd) subs))" using assms(2) by force
  then show False using J_D(1) [OF assms(1)] assms(3) by (auto simp: owned_def)
qed

text \<open>
  The context of an event that a job owns: the subscription, if it exists; otherwise no subscription has
  its SID.
\<close>

lemma find_context_ok:
  assumes c: "core st P S L U" and n: "structs (events st) a = Some n" and a: "a \<in> set P \<union> set S"
  shows "\<exists>ctx st' si u. find_context now st n = Some (ctx, st') \<and> core st' P S L U \<and> locked st' = locked st \<and>
           gSendThreadPool st' = gSendThreadPool st \<and> structs (events st') a \<noteq> None \<and>
           view (events st') a = Some (nt_sid n, reference_count n, nt_handle n, si, u) \<and>
           (case ctx of
              None \<Rightarrow> \<forall>y\<in>set (csubs st'). sid (snd y) \<noteq> nt_sid n
            | Some (i, j) \<Rightarrow> st' = st \<and> has_service st (nt_handle n) i \<and>
                svc_context (nt_handle n) (service_at st (nt_handle n) i) = (nt_handle n, si, u) \<and>
                j < length (subscriptionList (service_at st (nt_handle n) i)) \<and>
                sid (subscriptionList (service_at st (nt_handle n) i) ! j) = nt_sid n)"
proof -
  let ?h = "nt_handle n"
  have wf: "tables_wf st" and hw: "hwf (events st)" and j: "J (view (events st)) (ev_brk (events st)) P S L U (csubs st)"
    using c by (simp_all add: core_def)
  obtain x where x: "texts (events st) (reference_count n) = Some x"
    "view (events st) a = Some (nt_sid n, reference_count n, ?h, ev_servId x, ev_UDN x)"
    using view_struct(1) [OF hw n] by blast
  have ctx: "fst y = (?h, ev_servId x, ev_UDN x)"
    if cc: "core st' P S L U" and v: "view (events st') a = view (events st) a" and y: "y \<in> set (csubs st')" "sid (snd y) = nt_sid n"
    for st' y
  proof -
    have "ok_sub (view (events st')) P S L (fst y) (snd y)" using cc y(1) J_D(7) unfolding core_def by blast
    moreover have "loc (view (events st')) (sid (snd y)) a = Some (reference_count n, ?h, ev_servId x, ev_UDN x)"
      using x(2) v y(2) by (simp add: loc_text)
    ultimately show ?thesis by (simp add: ok_sub_def queue_ok_def)
  qed
  have none: "\<forall>y\<in>set (csubs st). sid (snd y) \<noteq> nt_sid n"
    if "GetHandleInfo st ?h \<noteq> HND_DEVICE \<or> find_service st ?h (ev_servId x) (ev_UDN x) = Some None"
    using that ctx [OF c refl] context_service(1,2) [OF wf] by blast
  show ?thesis
  proof (cases "GetHandleInfo st ?h = HND_DEVICE")
    case False
    then show ?thesis using c n x none by (intro exI [of _ "None :: (nat \<times> nat) option"] exI [of _ st] exI [of _ "ev_servId x"] exI [of _ "ev_UDN x"], simp add: find_context_def)
  next
    case dev: True
    from find_service_ok [OF wf dev, of "ev_servId x" "ev_UDN x"] show ?thesis
    proof (elim disjE exE conjE)
      assume "find_service st ?h (ev_servId x) (ev_UDN x) = Some None"
      then show ?thesis using dev c n x none by (intro exI [of _ "None :: (nat \<times> nat) option"] exI [of _ st] exI [of _ "ev_servId x"] exI [of _ "ev_UDN x"], simp add: find_context_def)
    next
      fix i assume f: "find_service st ?h (ev_servId x) (ev_UDN x) = Some (Some i)" "has_service st ?h i"
        "svc_key (service_at st ?h i) = (Some (ev_servId x), Some (ev_UDN x))"
      let ?s = "service_at st ?h i"
      obtain A B where AB: "csubs st = A @ svc_subs ?h ?s @ B" "svc_core (events st) P S L U A ?h ?s B"
        "\<forall>st' s. HandleTable st' = HandleTable st \<longrightarrow> same_svc ?s s \<longrightarrow>
            (\<forall>P' S' L' U'. svc_core (events st') P' S' L' U' A ?h s B \<longrightarrow> core (put_service st' ?h i s) P' S' L' U')"
        using core_svc [OF c f(2)] by metis
      have act: "svc_active ?s" using AB(2) by (simp add: svc_core_def service_wf_def)
      obtain r eh1 l' n' D where g: "GetSubscriptionSID (events st) now (nt_sid n) ?s = Some (r, eh1, with_subs ?s l' n')"
        "svc_core eh1 P S L U A ?h (with_subs ?s l' n') B" "dropped (events st) D eh1" "D \<subseteq> set (subscriptionList ?s)"
        "case r of None \<Rightarrow> nt_sid n \<notin> sid ` set l'
         | Some j \<Rightarrow> j < length l' \<and> sid (l' ! j) = nt_sid n \<and> l' = subscriptionList ?s \<and> eh1 = events st"
        using GetSubscriptionSID_ok [OF AB(2), of now "nt_sid n"] by blast
      let ?st = "put_service (st\<lparr>events := eh1\<rparr>) ?h i (with_subs ?s l' n')"
      have run: "find_context now st n = Some (map_option (Pair i) r, ?st)"
        using dev f(1) act g(1) x(1) by (simp add: find_context_def)
      have c1: "core ?st P S L U" using AB(3) g(2) by simp
      have "(svc_context ?h ?s, z) \<in> set (csubs st)" if "z \<in> D" for z
        using g(4) that by (auto simp: AB(1) svc_subs_def)
      then have aD: "a \<notin> (\<Union>z\<in>D. set (tail_args z))" using job_not_tail [OF j _ a] by blast
      have va: "view eh1 a = view (events st) a" using g(3) aD by (simp add: dropped_def frees_def)
      show ?thesis
      proof (cases r)
        case (Some k)
        have k: "k < length l'" "sid (l' ! k) = nt_sid n" "l' = subscriptionList ?s" "eh1 = events st" using g(5) Some by auto
        have "n' = TotalSubscriptions ?s" using g(2) k(3) AB(2) by (simp add: svc_core_def service_wf_def)
        then have w: "with_subs ?s l' n' = ?s" using k(3) by (simp add: with_subs_self)
        have "?st = st" unfolding w k(4) using put_service_at(4) [OF wf f(2) refl] by simp
        then show ?thesis using run Some c n x k f(2,3)
          by (intro exI [of _ "Some (i, k)"] exI [of _ st] exI [of _ "ev_servId x"] exI [of _ "ev_UDN x"], simp add: svc_context_def svc_key_def)
      next
        case None
        have h1: "tables_wf (st\<lparr>events := eh1\<rparr>)" "has_service (st\<lparr>events := eh1\<rparr>) ?h i"
          using wf f(2) table_only [of "st\<lparr>events := eh1\<rparr>" st] by simp_all
        have gone: "sid (snd y) \<noteq> nt_sid n" if y: "y \<in> set (csubs ?st)" for y
        proof
          assume s: "sid (snd y) = nt_sid n"
          have wf1: "tables_wf ?st" using c1 by (simp only: core_def)
          have fy: "fst y = (?h, ev_servId x, ev_UDN x)" using ctx [OF c1 _ y s] va by simp
          have "snd y \<in> set (subscriptionList (service_at ?st ?h i))"
            by (rule context_service(3) [OF wf1 y fy put_service_at(2) [OF h1]]) (simp add: put_service_at(1) [OF h1] f(3))
          then have "sid (snd y) \<in> sid ` set l'" by (simp add: put_service_at(1) [OF h1])
          then show False using s g(5) None by simp
        qed
        have "structs eh1 a \<noteq> None"
          using view_struct(2) [of eh1 a] va x(2) g(2) by (simp add: svc_core_def)
        then show ?thesis using run None c1 gone va x(2)
          by (intro exI [of _ "None :: (nat \<times> nat) option"] exI [of _ ?st] exI [of _ "ev_servId x"] exI [of _ "ev_UDN x"], simp)
      qed
    qed
  qed
qed

text \<open>
  The first section: a job that left the pool gives a copy of the subscription and a message in the log, or
  its structure is released. The copy has the SID and the event key of the subscription.
\<close>

lemma genaNotifyThread_begin_ok:
  assumes c: "core st (P1 @ a # P2) S L U" and l: "\<not> locked st"
  shows "\<exists>r st'. genaNotifyThread_begin malloc_ok now st a = Some (r, st') \<and> \<not> locked st' \<and>
           gSendThreadPool st' = gSendThreadPool st \<and>
           (case r of None \<Rightarrow> core st' (P1 @ P2) S L U
            | Some copy \<Rightarrow> \<exists>n. structs (events st) a = Some n \<and>
                core st' (P1 @ P2) (S @ [a]) (L @ [(sid copy, ToSendEventKey copy, reference_count n)]) U)"
proof -
  let ?st = "st\<lparr>locked := True\<rparr>" and ?P = "P1 @ a # P2"
  have c1: "core ?st ?P S L U" using c by simp
  have j0: "J (view (events st)) (ev_brk (events st)) ?P S L U (csubs st)" using c by (simp add: core_def)
  have "view (events st) a \<noteq> None" using J_D(2) [OF j0] by (simp add: owned_def)
  then obtain n where n: "structs (events st) a = Some n"
    using view_struct(2) [of "events st" a] c by (auto simp: core_def)
  obtain ctx st1 si u where f: "find_context now ?st n = Some (ctx, st1)" "core st1 ?P S L U" "locked st1"
    "gSendThreadPool st1 = gSendThreadPool st" "structs (events st1) a \<noteq> None"
    "view (events st1) a = Some (nt_sid n, reference_count n, nt_handle n, si, u)"
    "case ctx of None \<Rightarrow> \<forall>y\<in>set (csubs st1). sid (snd y) \<noteq> nt_sid n
     | Some (i, j) \<Rightarrow> st1 = ?st \<and> has_service ?st (nt_handle n) i \<and>
         svc_context (nt_handle n) (service_at ?st (nt_handle n) i) = (nt_handle n, si, u) \<and>
         j < length (subscriptionList (service_at ?st (nt_handle n) i)) \<and>
         sid (subscriptionList (service_at ?st (nt_handle n) i) ! j) = nt_sid n"
    using find_context_ok [OF c1, of a n now] n by auto
  have drop: "\<exists>st'. drop_notify r st1 a = Some (r, st') \<and> \<not> locked st' \<and> core st' (P1 @ P2) S L U \<and>
      gSendThreadPool st' = gSendThreadPool st" for r :: "subscription option"
  proof -
    have j: "J (view (events st1)) (ev_brk (events st1)) ?P S L U (csubs st1)" using f(2) by (simp add: core_def)
    have "core st1 (P1 @ P2) S L U" using f(2) J_forget_pool [OF j] by (simp add: core_def)
    moreover have "a \<notin> set (owned (P1 @ P2) S (csubs st1))" using J_D(1) [OF j] by (auto simp: owned_def)
    ultimately show ?thesis using drop_notify_ok [OF f(3) _ f(5)] f(4) by metis
  qed
  have lock: "HandleLock st = Some ?st" using l by (simp add: HandleLock_def)
  show ?thesis
  proof (cases ctx)
    case None
    then have "genaNotifyThread_begin malloc_ok now st a = drop_notify None st1 a"
      by (simp add: genaNotifyThread_begin_def lock n f(1))
    then show ?thesis using drop [of None] by auto
  next
    case (Some ij)
    obtain i j where ij: "ij = (i, j)" by (cases ij)
    let ?s = "service_at ?st (nt_handle n) i"
    have k: "st1 = ?st" "has_service ?st (nt_handle n) i" "svc_context (nt_handle n) ?s = (nt_handle n, si, u)"
      "j < length (subscriptionList ?s)" "sid (subscriptionList ?s ! j) = nt_sid n" using f(7) Some ij by auto
    let ?sub = "subscriptionList ?s ! j" and ?c = "(nt_handle n, si, u)"
    obtain A B where AB: "csubs ?st = A @ svc_subs (nt_handle n) ?s @ B" "svc_core (events ?st) ?P S L U A (nt_handle n) ?s B"
      using core_svc [OF c1 k(2)] by blast
    note sp = svc_core_split [OF AB(2) k(4)]
    have cs: "csubs ?st = (A @ map (Pair ?c) (take j (subscriptionList ?s))) @ (?c, ?sub) #
        (map (Pair ?c) (drop (Suc j) (subscriptionList ?s)) @ B)"
      using k(3,4) AB(1) id_take_nth_drop [OF k(4)] by (simp add: svc_subs_def) (metis map_append list.map(2))
    have hu: "has_urls ?sub" using AB(2) k(4) by (simp add: svc_core_def service_wf_def)
    obtain url where url: "URLs (DeliveryURLs ?sub) = Some url" using hu by (auto simp: has_urls_def)
    have run: "genaNotifyThread_begin malloc_ok now st a =
        (case copy_subscription malloc_ok ?sub of None \<Rightarrow> None
         | Some (rc, sub_copy) \<Rightarrow> if rc \<noteq> HTTP_SUCCESS then drop_notify None st1 a else leave (Some sub_copy) st1)"
      using Some ij k(1) by (simp add: genaNotifyThread_begin_def lock n f(1) Option.bind_eq_Some_conv split: option.splits)
    show ?thesis
    proof (cases malloc_ok)
      case False
      then have "genaNotifyThread_begin malloc_ok now st a = drop_notify None st1 a"
        unfolding run by (simp add: copy_subscription_def copy_URL_list_def url codes)
      then show ?thesis using drop [of None] by auto
    next
      case True
      obtain copy where cp: "copy_subscription True ?sub = Some (HTTP_SUCCESS, copy)" "sid copy = take SID_SIZE (sid ?sub)"
        "ToSendEventKey copy = ToSendEventKey ?sub"
        by (simp add: copy_subscription_def copy_URL_list_def url)
      have j1: "J (view (events ?st)) (ev_brk (events ?st)) ?P S L U (csubs ?st)" using c1 by (simp only: core_def)
      have "ok_sub (view (events ?st)) ?P S L ?c ?sub" using J_D(7) [OF j1] unfolding cs by simp
      then have sl: "sid copy = sid ?sub" by (simp add: cp(2) ok_sub_def queue_ok_def)
      have va: "view (events ?st) a = Some (sid ?sub, reference_count n, ?c)" using f(6) k(1,5) by simp
      have "J (view (events ?st)) (ev_brk (events ?st)) (P1 @ P2) (S @ [a])
          (L @ [(sid ?sub, ToSendEventKey ?sub, reference_count n)]) U (csubs ?st)"
        using J_begin [OF j1 [unfolded cs] va] unfolding cs .
      then have "core ?st (P1 @ P2) (S @ [a]) (L @ [(sid copy, ToSendEventKey copy, reference_count n)]) U"
        using c1 sl cp(3) unfolding core_def by simp
      moreover have "genaNotifyThread_begin malloc_ok now st a = Some (Some copy, ?st\<lparr>locked := False\<rparr>)"
        unfolding run using True cp(1) k(1) by (simp add: leave_ok)
      ultimately show ?thesis using n by (intro exI [of _ "Some copy"] exI [of _ "?st\<lparr>locked := False\<rparr>"]) simp
    qed
  qed
qed

text \<open>The second section: the job is done, the next event of the queue is handed to the pool.\<close>

lemma activate_head_ok:
  assumes "\<forall>job\<in>set q. jobId job \<noteq> STALE_JOBID"
  shows "\<exists>q' st'. activate_head rc st q = Some (q', st') \<and> HandleTable st' = HandleTable st \<and> events st' = events st \<and>
           locked st' = locked st \<and>
           (q = [] \<and> q' = [] \<and> gSendThreadPool st' = gSendThreadPool st \<or>
            (\<exists>job jobs. q = job # jobs \<and> q' = job\<lparr>jobId := STALE_JOBID\<rparr> # jobs \<and>
               (gSendThreadPool st' = gSendThreadPool st \<or> gSendThreadPool st' = gSendThreadPool st @ [job])))"
  using assms by (cases q) (auto simp: activate_head_def pool_add_def)

lemma upnp_events_self: "events st = eh \<Longrightarrow> st\<lparr>events := eh\<rparr> = (st :: upnp)"
  by (cases st) simp

lemma genaNotifyThread_end_ok:
  assumes c: "core st (map arg (gSendThreadPool st)) (S1 @ a # S2) L U" and l: "\<not> locked st"
  shows "runs (genaNotifyThread_end add_ret now return_code st a) (S1 @ S2) L U"
proof -
  let ?st = "st\<lparr>locked := True\<rparr>" and ?P = "map arg (gSendThreadPool st)" and ?S = "S1 @ a # S2"
  have c1: "core ?st ?P ?S L U" using c by simp
  have j0: "J (view (events st)) (ev_brk (events st)) ?P ?S L U (csubs st)" using c by (simp add: core_def)
  have "view (events st) a \<noteq> None" using J_D(2) [OF j0] by (simp add: owned_def)
  then obtain n where n: "structs (events st) a = Some n"
    using view_struct(2) [of "events st" a] c by (auto simp: core_def)
  obtain ctx st1 si u where f: "find_context now ?st n = Some (ctx, st1)" "core st1 ?P ?S L U" "locked st1"
    "gSendThreadPool st1 = gSendThreadPool st" "structs (events st1) a \<noteq> None"
    "view (events st1) a = Some (nt_sid n, reference_count n, nt_handle n, si, u)"
    "case ctx of None \<Rightarrow> \<forall>y\<in>set (csubs st1). sid (snd y) \<noteq> nt_sid n
     | Some (i, j) \<Rightarrow> st1 = ?st \<and> has_service ?st (nt_handle n) i \<and>
         svc_context (nt_handle n) (service_at ?st (nt_handle n) i) = (nt_handle n, si, u) \<and>
         j < length (subscriptionList (service_at ?st (nt_handle n) i)) \<and>
         sid (subscriptionList (service_at ?st (nt_handle n) i) ! j) = nt_sid n"
    using find_context_ok [OF c1, of a n now] n by auto
  have lock: "HandleLock st = Some ?st" using l by (simp add: HandleLock_def)
  show ?thesis
  proof (cases ctx)
    case None
    have j: "J (view (events st1)) (ev_brk (events st1)) ?P ?S L U (csubs st1)" using f(2) by (simp add: core_def)
    have "\<forall>x\<in>set (csubs st1). loc (view (events st1)) (sid (snd x)) a = None"
      using f(6,7) None by (auto simp: loc_def)
    then have "core st1 ?P (S1 @ S2) L U" using f(2) J_forget_sending [OF j] by (simp add: core_def)
    moreover have "a \<notin> set (owned ?P (S1 @ S2) (csubs st1))" using J_D(1) [OF j] by (auto simp: owned_def)
    ultimately obtain st' where "drop_notify () st1 a = Some ((), st')" "\<not> locked st'" "core st' ?P (S1 @ S2) L U"
      "gSendThreadPool st' = gSendThreadPool st1" using drop_notify_ok [OF f(3) _ f(5)] by metis
    then show ?thesis using None f(4) by (simp add: genaNotifyThread_end_def lock n f(1) runs_def inv_def)
  next
    case (Some ij)
    obtain i j where ij: "ij = (i, j)" by (cases ij)
    let ?h = "nt_handle n"
    let ?s = "service_at ?st ?h i"
    have k: "st1 = ?st" "has_service ?st ?h i" "svc_context ?h ?s = (?h, si, u)"
      "j < length (subscriptionList ?s)" "sid (subscriptionList ?s ! j) = nt_sid n" using f(7) Some ij by auto
    let ?sub = "subscriptionList ?s ! j" and ?c = "(?h, si, u)"
    obtain A B where AB: "svc_core (events ?st) ?P ?S L U A ?h ?s B"
      "\<forall>st' s. HandleTable st' = HandleTable ?st \<longrightarrow> same_svc ?s s \<longrightarrow>
            csubs (put_service st' ?h i s) = A @ svc_subs ?h s @ B \<and>
            (\<forall>P' S' L' U'. svc_core (events st') P' S' L' U' A ?h s B \<longrightarrow> core (put_service st' ?h i s) P' S' L' U')"
      using core_svc [OF c1 k(2)] by metis
    note sp = svc_core_split [OF AB(1) k(4), unfolded k(3)]
    have ok: "ok_sub (view (events ?st)) ?P ?S L ?c ?sub" using J_D(7) [OF sp] by simp
    have hu: "has_urls ?sub" using AB(1) k(4) by (simp add: svc_core_def service_wf_def)
    have va: "view (events ?st) a = Some (sid ?sub, reference_count n, ?c)" using f(6) k(1,5) by simp
    have "loc (view (events ?st)) (sid ?sub) a = Some (reference_count n, ?c)" using va by (simp only: loc_text)
    then have "a \<in> set (those (view (events ?st)) (sid ?sub) ?S)" by (simp add: those_set)
    then have ne: "outgoing ?sub \<noteq> []" using ok_sub_head [OF ok] by blast
    then have act: "sub_active ?sub" using ok by (simp add: ok_sub_def queue_ok_def)
    have stale: "\<forall>job\<in>set (tl (outgoing ?sub)). jobId job \<noteq> STALE_JOBID" using ok by (simp add: ok_sub_def queue_ok_def)
    obtain q st2 where q: "activate_head add_ret ?st (tl (outgoing ?sub)) = Some (q, st2)" "HandleTable st2 = HandleTable ?st"
      "events st2 = events ?st" "locked st2 = locked ?st"
      "tl (outgoing ?sub) = [] \<and> q = [] \<and> gSendThreadPool st2 = gSendThreadPool ?st \<or>
       (\<exists>job jobs. tl (outgoing ?sub) = job # jobs \<and> q = job\<lparr>jobId := STALE_JOBID\<rparr> # jobs \<and>
         (gSendThreadPool st2 = gSendThreadPool ?st \<or> gSendThreadPool st2 = gSendThreadPool ?st @ [job]))"
      using activate_head_ok [OF stale, of add_ret ?st] by blast
    let ?P2 = "map arg (gSendThreadPool st2)"
    let ?sub' = "?sub\<lparr>ToSendEventKey := next_key (ToSendEventKey ?sub), outgoing := q\<rparr>"
    have j2: "J (view (events ?st)) (ev_brk (events ?st)) ?P2 (S1 @ S2) L U
        ((A @ map (Pair ?c) (take j (subscriptionList ?s))) @ (?c, ?sub') # (map (Pair ?c) (drop (Suc j) (subscriptionList ?s)) @ B))"
      and na: "a \<notin> set (owned ?P2 (S1 @ S2)
        ((A @ map (Pair ?c) (take j (subscriptionList ?s))) @ (?c, ?sub') # (map (Pair ?c) (drop (Suc j) (subscriptionList ?s)) @ B)))"
      by (rule J_end [OF sp va, where i = STALE_JOBID]; use q(5) act in auto)+
    define s1 where s1: "s1 = upd_sub ?s j (\<lambda>s. s\<lparr>ToSendEventKey := next_key (ToSendEventKey s), outgoing := q\<rparr>)"
    have s1': "s1 = with_subs ?s ((subscriptionList ?s)[j := ?sub']) (TotalSubscriptions ?s)" by (simp add: s1 upd_sub_with)
    have "hwf (events ?st)" using c1 unfolding core_def by simp
    then have c2: "svc_core (events st2) ?P2 (S1 @ S2) L U A ?h s1 B"
      unfolding s1' q(3) by (intro svc_core_join [OF AB(1) k(4)]) (use hu j2 k(3) in \<open>simp_all add: has_urls_def\<close>)
    obtain eh l' n' D where r: "(if return_code = GENA_E_NOTIFY_UNACCEPTED_REMOVE_SUB
             then RemoveSubscriptionSID (events st2) (nt_sid n) s1 else Some (events st2, s1)) = Some (eh, with_subs s1 l' n')"
      "svc_core eh ?P2 (S1 @ S2) L U A ?h (with_subs s1 l' n') B" "dropped (events st2) D eh" "D \<subseteq> set (subscriptionList s1)"
      "set l' \<subseteq> set (subscriptionList s1)"
    proof (cases "return_code = GENA_E_NOTIFY_UNACCEPTED_REMOVE_SUB")
      case True
      then show ?thesis using RemoveSubscriptionSID_ok [OF c2, of "nt_sid n"] that by auto
    next
      case False
      have "dropped (events st2) {} (events st2)" using c2 by (simp add: svc_core_def)
      then show ?thesis using False c2 that [of "events st2" "subscriptionList s1" "TotalSubscriptions s1" "{}"]
        by (simp add: with_subs_self)
    qed
    define st3 where st3: "st3 = put_service (st2\<lparr>events := eh\<rparr>) ?h i (with_subs s1 l' n')"
    have ss: "same_svc ?s (with_subs s1 l' n')" by (simp add: s1')
    have tab: "HandleTable (st2\<lparr>events := eh\<rparr>) = HandleTable ?st" using q(2) by simp
    have c3: "core st3 ?P2 (S1 @ S2) L U" "csubs st3 = A @ svc_subs ?h (with_subs s1 l' n') @ B"
      using AB(2) [rule_format, OF tab ss] r(2) unfolding st3 by simp_all
    have na1: "a \<notin> set (owned ?P2 (S1 @ S2) (A @ svc_subs ?h s1 @ B))"
      using na k(3,4) by (simp add: s1' upd_conv_take_nth_drop)
    have na3: "a \<notin> set (owned ?P2 (S1 @ S2) (csubs st3))"
      using na1 r(5) by (auto simp: c3(2) owned_mem svc_subs_def)
    have "a \<notin> (\<Union>z\<in>D. set (tail_args z))" using na1 r(4) by (auto simp: owned_mem svc_subs_def)
    then have "view eh a = view (events ?st) a" using r(3) q(3) by (simp add: dropped_def frees_def)
    then have st: "structs (events st3) a \<noteq> None"
      using va view_struct(2) [of eh a] r(2) by (simp add: st3 svc_core_def)
    have l3: "locked st3" "gSendThreadPool st3 = gSendThreadPool st2" using q(4) by (simp_all add: st3)
    obtain st4 where st4: "drop_notify () st3 a = Some ((), st4)" "\<not> locked st4" "core st4 ?P2 (S1 @ S2) L U"
      "gSendThreadPool st4 = gSendThreadPool st3" using drop_notify_ok [OF l3(1) c3(1) st na3] by metis
    have "genaNotifyThread_end add_ret now return_code st a = drop_notify () st3 a"
    proof (cases "return_code = GENA_E_NOTIFY_UNACCEPTED_REMOVE_SUB")
      case True
      then show ?thesis using Some ij k(1) r(1)
        by (simp add: genaNotifyThread_end_def lock n f(1) q(1) s1 [symmetric] Let_def st3)
    next
      case False
      then have e: "events st2 = eh" "with_subs s1 l' n' = s1" using r(1) by simp_all
      have "put_service st2 ?h i s1 = st3" unfolding st3 e(2) by (simp only: upnp_events_self [OF e(1)])
      then show ?thesis using False Some ij k(1)
        by (simp add: genaNotifyThread_end_def lock n f(1) q(1) s1 [symmetric] Let_def)
    qed
    then show ?thesis using st4 l3(2) by (simp add: runs_def inv_def)
  qed
qed

section \<open>Requests\<close>

lemma first_handle_ok: "first_handle P h = Some k \<Longrightarrow> P k \<and> h \<le> k \<and> k < NUM_HANDLE"
proof (induction P h rule: first_handle.induct)
  case (1 P h)
  show ?case
  proof (cases "NUM_HANDLE \<le> h \<or> P h")
    case False
    then have "first_handle P (h + 1) = Some k" using "1.prems" by (simp add: first_handle.simps [of P h])
    then show ?thesis using "1.IH" False by auto
  qed (use "1.prems" in \<open>auto simp: first_handle.simps [of P h] split: if_splits\<close>)
qed

lemma find_path_ok: "find_path k env p u l = Some i \<Longrightarrow> k \<le> i \<and> i < k + length l"
  by (induction l arbitrary: k) (fastforce split: if_splits)+

lemma service_for_path_ok: "service_for_path env t p = Some i \<Longrightarrow> i < length (serviceList t)"
  by (auto simp: service_for_path_def FindServiceControlURLPath_def FindServiceEventURLPath_def
      split: option.splits prod.splits if_splits dest!: find_path_ok)

lemma path_service:
  assumes "GetDeviceHandleInfoForPath env st p af = (HND_DEVICE, h, Some i)"
  shows "has_service st h i"
proof -
  obtain k where k: "first_handle (device_with_path env st af p) 1 = Some k" "h = int k"
    "(case HandleTable st ! k of None \<Rightarrow> None | Some HndInfo \<Rightarrow> service_for_path env (ServiceTable HndInfo) p) = Some i"
    using assms by (auto simp: GetDeviceHandleInfoForPath_def split: if_splits option.splits)
  have "1 \<le> k" "k < NUM_HANDLE" and d: "device_with_path env st af p k" using first_handle_ok [OF k(1)] by auto
  then have "slot st h = HandleTable st ! k" by (simp add: slot_def k(2))
  then show ?thesis using d k by (auto simp: has_service_def device_with_path_def device_of_family_def GetHandleInfo_def
      split: option.splits if_splits dest: service_for_path_ok)
qed

lemma J_issue: "J v mx P S L U subs \<Longrightarrow> U \<subseteq> U' \<Longrightarrow> J v mx P S L U' subs"
  by (fastforce simp: J_def log_ok_def)

lemma inv_issue: "inv st S L U \<Longrightarrow> U \<subseteq> U' \<Longrightarrow> inv st S L U'"
  using J_issue by (auto simp: inv_def core_def)

lemma service_same: "tables_wf st \<Longrightarrow> has_service st h i \<Longrightarrow> put_service st h i (service_at st h i) = st"
  using put_service_at(4) by blast

text \<open>The subscription that a request names: removed if it expired, at the position given otherwise.\<close>

lemma find_subscription_ok:
  assumes c: "core st P S L U" and l: "locked st"
  shows "\<exists>r st'. find_subscription env e st rq s = Some (r, st') \<and> core st' P S L U \<and> locked st' \<and>
           gSendThreadPool st' = gSendThreadPool st \<and>
           (case r of None \<Rightarrow> True
            | Some (h, i, j) \<Rightarrow> has_service st' h i \<and> j < length (subscriptionList (service_at st' h i)))"
proof (cases "\<exists>h i. GetDeviceHandleInfoForPath env st (buffer_path (rq_pathquery rq)) (rq_family rq) = (HND_DEVICE, h, Some i)")
  case False
  then have "find_subscription env e st rq s = Some (None, st)"
    by (auto simp: find_subscription_def split: prod.splits Upnp_Handle_Type.splits option.splits)
  then show ?thesis using c l by (intro exI [of _ "None :: (int \<times> nat \<times> nat) option"] exI [of _ st]) simp
next
  case True
  then obtain h i where p: "GetDeviceHandleInfoForPath env st (buffer_path (rq_pathquery rq)) (rq_family rq) = (HND_DEVICE, h, Some i)"
    by blast
  note hs = path_service [OF p]
  let ?s = "service_at st h i"
  have wf: "tables_wf st" using c by (simp add: core_def)
  obtain A B where AB: "svc_core (events st) P S L U A h ?s B"
    "\<forall>st' s. HandleTable st' = HandleTable st \<longrightarrow> same_svc ?s s \<longrightarrow>
        (\<forall>P' S' L' U'. svc_core (events st') P' S' L' U' A h s B \<longrightarrow> core (put_service st' h i s) P' S' L' U')"
    using core_svc [OF c hs] by metis
  have act: "svc_active ?s" using AB(1) by (simp add: svc_core_def service_wf_def)
  obtain r eh l' n' D where g: "GetSubscriptionSID (events st) (req_time e) s ?s = Some (r, eh, with_subs ?s l' n')"
    "svc_core eh P S L U A h (with_subs ?s l' n') B"
    "case r of None \<Rightarrow> s \<notin> sid ` set l' | Some j \<Rightarrow> j < length l' \<and> sid (l' ! j) = s \<and> l' = subscriptionList ?s \<and> eh = events st"
    using GetSubscriptionSID_ok [OF AB(1), of "req_time e" s] by blast
  let ?st = "put_service (st\<lparr>events := eh\<rparr>) h i (with_subs ?s l' n')"
  have run: "find_subscription env e st rq s = Some (map_option (\<lambda>j. (h, i, j)) r, ?st)"
    using p act g(1) by (simp add: find_subscription_def)
  have h1: "tables_wf (st\<lparr>events := eh\<rparr>)" "has_service (st\<lparr>events := eh\<rparr>) h i"
    using wf hs table_only [of "st\<lparr>events := eh\<rparr>" st] by simp_all
  have "core ?st P S L U" using AB(2) g(2) by simp
  then show ?thesis using run l g(3) put_service_at(1,2) [OF h1]
    by (cases r) auto
qed

lemma remove_sub_ok:
  assumes c: "core st P S L U" and h: "has_service st h i"
  shows "\<exists>st'. remove_sub st h i s = Some st' \<and> core st' P S L U \<and> locked st' = locked st \<and>
           gSendThreadPool st' = gSendThreadPool st"
proof -
  let ?s = "service_at st h i"
  obtain A B where AB: "svc_core (events st) P S L U A h ?s B"
    "\<forall>st' s. HandleTable st' = HandleTable st \<longrightarrow> same_svc ?s s \<longrightarrow>
        (\<forall>P' S' L' U'. svc_core (events st') P' S' L' U' A h s B \<longrightarrow> core (put_service st' h i s) P' S' L' U')"
    using core_svc [OF c h] by metis
  obtain eh l' n' where r: "RemoveSubscriptionSID (events st) s ?s = Some (eh, with_subs ?s l' n')"
    "svc_core eh P S L U A h (with_subs ?s l' n') B" using RemoveSubscriptionSID_ok [OF AB(1), of s] by blast
  have "core (put_service (st\<lparr>events := eh\<rparr>) h i (with_subs ?s l' n')) P S L U" using AB(2) r(2) by simp
  then show ?thesis using r(1) by (simp add: remove_sub_def)
qed

text \<open>A change of the expiration time.\<close>

lemma expire_ok:
  assumes c: "core st P S L U" and h: "has_service st h i" and j: "j < length (subscriptionList (service_at st h i))"
  shows "core (put_service st h i (upd_sub (service_at st h i) j (\<lambda>x. x\<lparr>expireTime := t\<rparr>))) P S L U"
proof -
  let ?s = "service_at st h i"
  let ?sub = "subscriptionList ?s ! j"
  obtain A B where AB: "svc_core (events st) P S L U A h ?s B"
    "\<forall>st' s. HandleTable st' = HandleTable st \<longrightarrow> same_svc ?s s \<longrightarrow>
        (\<forall>P' S' L' U'. svc_core (events st') P' S' L' U' A h s B \<longrightarrow> core (put_service st' h i s) P' S' L' U')"
    using core_svc [OF c h] by metis
  note sp = svc_core_split [OF AB(1) j]
  have hu: "has_urls ?sub" using AB(1) j by (simp add: svc_core_def service_wf_def)
  have "ok_sub (view (events st)) P S L (svc_context h ?s) ?sub" using J_D(7) [OF sp] by simp
  then have "sub_active ?sub \<or> outgoing ?sub = []" by (simp add: ok_sub_def queue_ok_def)
  then have j1: "J (view (events st)) (ev_brk (events st)) P S L U
      ((A @ map (Pair (svc_context h ?s)) (take j (subscriptionList ?s))) @
        (svc_context h ?s, ?sub\<lparr>expireTime := t\<rparr>) # (map (Pair (svc_context h ?s)) (drop (Suc j) (subscriptionList ?s)) @ B))"
    by (intro J_fields [OF sp]) simp_all
  have "hwf (events st)" using c by (simp add: core_def)
  then have "svc_core (events st) P S L U A h (upd_sub ?s j (\<lambda>x. x\<lparr>expireTime := t\<rparr>)) B"
    unfolding upd_sub_with by (intro svc_core_join [OF AB(1) j _ _ j1]) (use hu in \<open>simp_all add: has_urls_def\<close>)
  then show ?thesis using AB(2) by (simp add: upd_sub_with)
qed

lemma reply_ok: "locked st \<Longrightarrow> core st (map arg (gSendThreadPool st)) S L U \<Longrightarrow> runs (reply code st) S L U"
  unfolding reply_def by (rule runs_leave)

lemma gena_process_unsubscribe_request_ok:
  assumes i: "inv st S L U"
  shows "runs (gena_process_unsubscribe_request env e st rq) S L U"
proof (cases "request_sid rq")
  case (Inl code)
  then show ?thesis using i by (simp add: gena_process_unsubscribe_request_def runs_return)
next
  case (Inr s)
  show ?thesis
  proof (cases "path_ok e")
    case False
    then show ?thesis using i Inr by (simp add: gena_process_unsubscribe_request_def runs_return)
  next
    case True
    let ?st = "st\<lparr>locked := True\<rparr>"
    have l: "HandleLock st = Some ?st" and c: "core ?st (map arg (gSendThreadPool st)) S L U"
      using i by (simp_all add: inv_def HandleLock_def)
    obtain r st1 where f: "find_subscription env e ?st rq s = Some (r, st1)" "core st1 (map arg (gSendThreadPool st)) S L U"
      "locked st1" "gSendThreadPool st1 = gSendThreadPool st"
      "case r of None \<Rightarrow> True | Some (h, i, j) \<Rightarrow> has_service st1 h i \<and> j < length (subscriptionList (service_at st1 h i))"
      using find_subscription_ok [OF c, of env e rq s] by auto
    show ?thesis
    proof (cases r)
      case None
      then show ?thesis using Inr True l f by (simp add: gena_process_unsubscribe_request_def reply_ok)
    next
      case (Some x)
      obtain h i j where x: "x = (h, i, j)" by (cases x)
      have "has_service st1 h i" using f(5) Some x by simp
      from remove_sub_ok [OF f(2) this, of s] obtain st2 where "remove_sub st1 h i s = Some st2"
        "core st2 (map arg (gSendThreadPool st)) S L U" "locked st2 = locked st1" "gSendThreadPool st2 = gSendThreadPool st1"
        by blast
      then show ?thesis using Inr True l f Some x by (simp add: gena_process_unsubscribe_request_def reply_ok)
    qed
  qed
qed

lemma gena_process_subscription_renewal_request_ok:
  assumes i: "inv st S L U"
  shows "runs (gena_process_subscription_renewal_request env e st rq) S L U"
proof (cases "request_sid rq")
  case (Inl code)
  then show ?thesis using i by (simp add: gena_process_subscription_renewal_request_def runs_return)
next
  case (Inr s)
  show ?thesis
  proof (cases "path_ok e")
    case False
    then show ?thesis using i Inr by (simp add: gena_process_subscription_renewal_request_def runs_return)
  next
    case True
    let ?st = "st\<lparr>locked := True\<rparr>" and ?P = "map arg (gSendThreadPool st)"
    have l: "HandleLock st = Some ?st" and c: "core ?st ?P S L U"
      using i by (simp_all add: inv_def HandleLock_def)
    obtain r st1 where f: "find_subscription env e ?st rq s = Some (r, st1)" "core st1 ?P S L U"
      "locked st1" "gSendThreadPool st1 = gSendThreadPool st"
      "case r of None \<Rightarrow> True | Some (h, i, j) \<Rightarrow> has_service st1 h i \<and> j < length (subscriptionList (service_at st1 h i))"
      using find_subscription_ok [OF c, of env e rq s] by auto
    have rem: "runs (do { st3 \<leftarrow> remove_sub st2 h i x; leave y st3 }) S L U"
      if "core st2 ?P S L U" "locked st2" "gSendThreadPool st2 = gSendThreadPool st" "has_service st2 h i"
      for st2 h i x and y :: "gena_reply list \<times> (DOMString \<times> DOMString \<times> string) option"
      using remove_sub_ok [OF that(1,4), of x] that by (auto intro!: runs_leave)
    show ?thesis
    proof (cases r)
      case None
      then show ?thesis using Inr True l f by (simp add: gena_process_subscription_renewal_request_def reply_ok)
    next
      case (Some x)
      obtain h i j where x: "x = (h, i, j)" by (cases x)
      have hs: "has_service st1 h i" and j: "j < length (subscriptionList (service_at st1 h i))" using f(5) Some x by simp_all
      have wf1: "tables_wf st1" using f(2) by (simp add: core_def)
      define st2 where "st2 t = put_service st1 h i (upd_sub (service_at st1 h i) j (\<lambda>x. x\<lparr>expireTime := t\<rparr>))" for t
      have c2: "core (st2 t) ?P S L U" "locked (st2 t)" "gSendThreadPool (st2 t) = gSendThreadPool st" "has_service (st2 t) h i" for t
        using expire_ok [OF f(2) hs j, of t] f(3,4) put_service_at(2) [OF wf1 hs] by (simp_all add: st2_def)
      have rem1: "runs (do { st3 \<leftarrow> remove_sub st1 h i x; reply code st3 }) S L U" for x code
        unfolding reply_def by (rule rem) (use f hs in simp_all)
      have keep: "runs (leave y (st2 t)) S L U" for t and y :: "gena_reply list \<times> (DOMString \<times> DOMString \<times> string) option"
        by (rule runs_leave) (use c2 in simp_all)
      show ?thesis using Inr True l f(1) Some x rem1 rem [OF c2] keep
        by (simp add: gena_process_subscription_renewal_request_def Let_def st2_def)
    qed
  qed
qed

text \<open>Accepting a subscription.\<close>

lemma all_urls_some: "\<forall>u\<in>set l. u \<noteq> None \<Longrightarrow> \<exists>b. all_urls Q l = Some b"
  by (induction l) auto

lemma create_url_list_ok:
  assumes "create_url_list env ok c c v = (rc, urls)" "rc \<noteq> 0" "rc \<noteq> UPNP_E_OUTOF_MEMORY"
  shows "URLs urls = Some v" "\<forall>u\<in>set (parsedURLs urls). u \<noteq> None"
  using assms by (auto simp: create_url_list_def Let_def split: if_splits)

lemma validate_ok:
  assumes "\<forall>u\<in>set (parsedURLs urls). u \<noteq> None"
  shows "\<exists>rc. gena_validate_delivery_urls env gif af urls = Some rc"
proof -
  have "\<exists>rc. map_option f (all_urls Q (parsedURLs urls)) = Some rc" for f :: "bool \<Rightarrow> int" and Q
    using all_urls_some [OF assms, of Q] by auto
  then show ?thesis by (auto simp: gena_validate_delivery_urls_def split: family.splits option.splits)
qed

lemma add_subscription_ok:
  assumes c: "core st P S L U" and h: "has_service st h i"
    and sub: "sid sub \<notin> U" "length (sid sub) = SID_SIZE" "ToSendEventKey sub = 0" "outgoing sub = []" "has_urls sub"
  shows "core (put_service st h i (with_subs (service_at st h i) (sub # subscriptionList (service_at st h i))
           (TotalSubscriptions (service_at st h i) + 1))) P S L (insert (sid sub) U)"
proof -
  let ?s = "service_at st h i"
  obtain A B where AB: "svc_core (events st) P S L U A h ?s B"
    "\<forall>st' s. HandleTable st' = HandleTable st \<longrightarrow> same_svc ?s s \<longrightarrow>
        (\<forall>P' S' L' U'. svc_core (events st') P' S' L' U' A h s B \<longrightarrow> core (put_service st' h i s) P' S' L' U')"
    using core_svc [OF c h] by metis
  have "J (view (events st)) (ev_brk (events st)) P S L U (A @ svc_subs h ?s @ B)" using AB(1) by (simp add: svc_core_def)
  from J_subscribe [OF this sub(1-4), of "svc_context h ?s"]
  have "svc_core (events st) P S L (insert (sid sub) U) A h (with_subs ?s (sub # subscriptionList ?s) (TotalSubscriptions ?s + 1)) B"
    using AB(1) sub(5) by (simp add: svc_core_def service_wf_def [of ?s]) (simp add: svc_subs_def)
  then show ?thesis using AB(2) by simp
qed

lemma gena_process_subscription_request_ok:
  assumes i: "inv st S L U" and new: "''uuid:'' @ new_uuid e \<notin> U" "length (new_uuid e) = 36"
    and stray: "fst (stray_bytes e) = snd (stray_bytes e)"
  shows "runs (gena_process_subscription_request env gif e st rq) S L (insert (''uuid:'' @ new_uuid e) U)"
proof -
  let ?U = "insert (''uuid:'' @ new_uuid e) U" and ?st = "st\<lparr>locked := True\<rparr>" and ?P = "map arg (gSendThreadPool st)"
  have iU: "inv st S L ?U" by (rule inv_issue [OF i]) auto
  have l: "HandleLock st = Some ?st" and c0: "core ?st ?P S L U" and c: "core ?st (map arg (gSendThreadPool ?st)) S L ?U"
    using i iU by (simp_all add: inv_def HandleLock_def)
  note d = gena_process_subscription_request_def
  have ret: "runs (Some (r, st)) S L ?U" for r :: "gena_reply list \<times> (DOMString \<times> DOMString \<times> string) option"
    using iU by (rule runs_return)
  have rep: "runs (reply code ?st) S L ?U" for code by (rule reply_ok) (use c in simp_all)
  have lv: "runs (leave r ?st) S L ?U" for r :: "gena_reply list \<times> (DOMString \<times> DOMString \<times> string) option"
    by (rule runs_leave) (use c in simp_all)
  show ?thesis
  proof (cases "\<exists>h k. GetDeviceHandleInfoForPath env ?st (Some (rq_pathquery rq)) (rq_family rq) = (HND_DEVICE, h, Some k)")
    case False
    then show ?thesis using ret rep l
      by (auto simp: d split: option.splits prod.splits Upnp_Handle_Type.splits)
  next
    case True
    then obtain h k where p: "GetDeviceHandleInfoForPath env ?st (Some (rq_pathquery rq)) (rq_family rq) = (HND_DEVICE, h, Some k)"
      by blast
    note hs = path_service [OF p]
    let ?s = "service_at ?st h k"
    have ok: "runs (leave y (put_service ?st h k (?s\<lparr>subscriptionList := new_subscription e urls t # subscriptionList ?s,
          TotalSubscriptions := TotalSubscriptions ?s + 1\<rparr>))) S L ?U"
      if "URLs urls \<noteq> None" for urls t and y :: "gena_reply list \<times> (DOMString \<times> DOMString \<times> string) option"
    proof -
      let ?sub = "new_subscription e urls t"
      have s: "sid ?sub = ''uuid:'' @ new_uuid e" using new(2) by (simp add: new_subscription_def)
      have "core (put_service ?st h k (with_subs ?s (?sub # subscriptionList ?s) (TotalSubscriptions ?s + 1))) ?P S L (insert (sid ?sub) U)"
        by (rule add_subscription_ok [OF c0 hs])
          (use new that s in \<open>simp_all add: SID_SIZE_def has_urls_def new_subscription_def\<close>)
      then show ?thesis by (intro runs_leave) (simp_all add: s with_subs_def)
    qed
    show ?thesis
    proof (cases "find_hdr rq HDR_CALLBACK")
      case None
      then show ?thesis using ret rep l p by (auto simp: d Let_def split: option.splits)
    next
      case (Some v)
      obtain rc0 urls where cb: "create_url_list env (urls_ok e) (fst (stray_bytes e)) (snd (stray_bytes e)) v = (rc0, urls)"
        by (cases "create_url_list env (urls_ok e) (fst (stray_bytes e)) (snd (stray_bytes e)) v")
      show ?thesis
      proof (cases "rc0 = 0 \<or> rc0 = UPNP_E_OUTOF_MEMORY")
        case True
        then show ?thesis using ret rep l p Some cb by (auto simp: d Let_def split: option.splits)
      next
        case False
        then have u: "URLs urls = Some v" "\<forall>u\<in>set (parsedURLs urls). u \<noteq> None"
          using cb create_url_list_ok unfolding stray by blast+
        obtain rc where v: "gena_validate_delivery_urls env gif (rq_family rq) urls = Some rc"
          using validate_ok [OF u(2)] by blast
        show ?thesis using ret rep lv ok [of urls] u(1) v False l p Some cb
          by (auto simp: d Let_def split: option.splits)
      qed
    qed
  qed
qed

section \<open>Unregistering a device\<close>

lemma freeSubscriptionList_ok:
  "hwf eh \<Longrightarrow> J (view eh) (ev_brk eh) P S L U (A @ map (Pair c) l @ B) \<Longrightarrow>
     \<exists>eh'. freeSubscriptionList eh l = Some eh' \<and> hwf eh' \<and> J (view eh') (ev_brk eh') P S L U (A @ B)"
proof (induction l arbitrary: eh)
  case (Cons sub l)
  have j: "J (view eh) (ev_brk eh) P S L U (A @ (c, sub) # (map (Pair c) l @ B))" using Cons.prems(2) by simp
  have "distinct (tail_args sub)" using J_D(1) [OF j] by (simp add: owned_split)
  moreover have "\<forall>a\<in>set (tail_args sub). view eh a \<noteq> None" using J_D(2) [OF j] by (simp add: owned_mem)
  ultimately obtain eh1 where e: "freeSubscriptionList eh [sub] = Some eh1" "frees eh (set (tail_args sub)) eh1"
    using freeSubscription_ok [OF Cons.prems(1)] by blast
  have "J (view eh1) (ev_brk eh1) P S L U (A @ map (Pair c) l @ B)" using J_remove [OF j] e(2) by (simp add: frees_def)
  moreover have "hwf eh1" using e(2) by (simp add: frees_def)
  ultimately obtain eh' where "freeSubscriptionList eh1 l = Some eh'" "hwf eh'" "J (view eh') (ev_brk eh') P S L U (A @ B)"
    using Cons.IH by blast
  then show ?case using e(1) by (auto simp: bind_eq_Some_conv)
qed simp

lemma freeServiceList_ok:
  "hwf eh \<Longrightarrow> J (view eh) (ev_brk eh) P S L U (A @ concat (map (svc_subs h) l) @ B) \<Longrightarrow>
     \<exists>eh'. freeServiceList eh l = Some eh' \<and> hwf eh' \<and> J (view eh') (ev_brk eh') P S L U (A @ B)"
proof (induction l arbitrary: eh)
  case (Cons s l)
  have "J (view eh) (ev_brk eh) P S L U (A @ map (Pair (svc_context h s)) (subscriptionList s) @ (concat (map (svc_subs h) l) @ B))"
    using Cons.prems(2) by (simp add: svc_subs_def [of h s])
  from freeSubscriptionList_ok [OF Cons.prems(1) this] obtain eh1 where
    e: "freeSubscriptionList eh (subscriptionList s) = Some eh1" "hwf eh1"
    "J (view eh1) (ev_brk eh1) P S L U (A @ concat (map (svc_subs h) l) @ B)" by blast
  obtain eh' where "freeServiceList eh1 l = Some eh'" "hwf eh'" "J (view eh') (ev_brk eh') P S L U (A @ B)"
    using Cons.IH [OF e(2,3)] by blast
  moreover have "(if subscriptionList s \<noteq> [] then freeSubscriptionList eh (subscriptionList s) else Some eh) = Some eh1"
    using e(1) by (cases "subscriptionList s") simp_all
  ultimately show ?case by simp
qed simp

lemma csubs_slot:
  assumes "slot st h = Some info"
  shows "\<exists>X Y. \<forall>st'. (\<forall>h'. h' \<noteq> h \<longrightarrow> slot st' h' = slot st h') \<longrightarrow> csubs st' = X @ slot_subs st' h @ Y"
proof -
  note r = slot_range [OF assms]
  have up: "[1..<NUM_HANDLE] = [1..<nat h] @ nat h # [Suc (nat h)..<NUM_HANDLE]"
  proof -
    have "nat h < NUM_HANDLE" "1 \<le> nat h" using r by auto
    then show ?thesis by (metis upt_conv_Cons upt_add_eq_append le_add_diff_inverse less_imp_le)
  qed
  let ?f = "\<lambda>st ks. concat (map (\<lambda>k. slot_subs st (int k)) ks)"
  have "csubs st' = ?f st [1..<nat h] @ slot_subs st' h @ ?f st [Suc (nat h)..<NUM_HANDLE]"
    if o: "\<forall>h'. h' \<noteq> h \<longrightarrow> slot st' h' = slot st h'" for st'
  proof -
    have "slot_subs st' (int k) = slot_subs st (int k)" if "k \<noteq> nat h" for k
      using o r that by (auto simp: slot_subs_def)
    then have "map (\<lambda>k. slot_subs st' (int k)) [1..<nat h] = map (\<lambda>k. slot_subs st (int k)) [1..<nat h]"
      "map (\<lambda>k. slot_subs st' (int k)) [Suc (nat h)..<NUM_HANDLE] = map (\<lambda>k. slot_subs st (int k)) [Suc (nat h)..<NUM_HANDLE]"
      by (auto intro!: map_cong)
    moreover have "slot_subs st' (int (nat h)) = slot_subs st' h" using r by simp
    ultimately show ?thesis unfolding csubs_def up by (simp only: map_append list.map concat_append concat.simps append_assoc)
  qed
  then show ?thesis by blast
qed

lemma genaUnregisterDevice_ok:
  assumes i: "inv st S L U" and once: "\<And>info. slot st h = Some info \<Longrightarrow> HType info = HND_DEVICE \<Longrightarrow>
      URLBase (ServiceTable info) = None \<or> \<not> URLBase_freed (ServiceTable info)"
  shows "runs (genaUnregisterDevice st h) S L U"
proof -
  let ?st = "st\<lparr>locked := True\<rparr>" and ?P = "map arg (gSendThreadPool st)"
  have l: "HandleLock st = Some ?st" and c: "core ?st ?P S L U" using i by (simp_all add: inv_def HandleLock_def)
  have sl: "slot ?st = slot st" by (rule table_only) simp
  have bad: "runs (leave r ?st) S L U" for r :: int by (rule runs_leave) (use c in simp_all)
  show ?thesis
  proof (cases "slot st h")
    case None
    then show ?thesis using l bad sl by (simp add: genaUnregisterDevice_def)
  next
    case (Some info)
    show ?thesis
    proof (cases "HType info = HND_DEVICE")
      case False
      then show ?thesis using l bad sl Some by (simp add: genaUnregisterDevice_def)
    next
      case dev: True
      let ?t = "ServiceTable info"
      obtain X Y where XY: "\<forall>st'. (\<forall>h'. h' \<noteq> h \<longrightarrow> slot st' h' = slot ?st h') \<longrightarrow> csubs st' = X @ slot_subs st' h @ Y"
        using csubs_slot [of ?st h info] Some sl by auto
      have "csubs st = X @ concat (map (svc_subs h) (serviceList ?t)) @ Y" using XY sl Some dev by (simp add: slot_subs_def)
      then obtain eh where e: "freeServiceList (events st) (serviceList ?t) = Some eh" "hwf eh"
        "J (view eh) (ev_brk eh) ?P S L U (X @ Y)"
        using freeServiceList_ok [of "events st" ?P S L U X h "serviceList ?t" Y] c by (auto simp: core_def)
      let ?t' = "?t\<lparr>URLBase_freed := True, serviceList := []\<rparr>"
      let ?st' = "set_slot (?st\<lparr>events := eh\<rparr>) h (Some (info\<lparr>ServiceTable := ?t'\<rparr>))"
      have len: "length (HandleTable (?st\<lparr>events := eh\<rparr>)) = NUM_HANDLE" using c by (simp add: core_def tables_wf_def)
      have s': "slot ?st' h' = (if h' = h then Some (info\<lparr>ServiceTable := ?t'\<rparr>) else slot st h')" for h'
        using slot_set_slot [OF len] slot_range [OF Some] table_only(1) [of "?st\<lparr>events := eh\<rparr>" st] by simp
      have "csubs ?st' = X @ Y" using XY s' sl by (simp add: slot_subs_def)
      moreover have "tables_wf ?st'"
        using c len sl unfolding core_def tables_wf_def by (auto simp: s' table_wf_def split: if_splits)
      ultimately have "core ?st' ?P S L U" using e by (simp add: core_def)
      then have "runs (leave UPNP_E_SUCCESS ?st') S L U" by (intro runs_leave) simp_all
      moreover have "genaUnregisterDevice st h = leave UPNP_E_SUCCESS ?st'"
        using l Some dev sl once [OF Some dev] e(1) by (auto simp: genaUnregisterDevice_def freeServiceTable_def)
      ultimately show ?thesis by simp
    qed
  qed
qed

section \<open>Everything else\<close>

text \<open>
  Steps that touch neither events nor the jobs and subscriptions: registering with an empty table, settings,
  look-ups, the release of a handle without subscriptions.
\<close>

definition unrelated :: "upnp \<Rightarrow> upnp \<Rightarrow> bool" where
  "unrelated st st' \<longleftrightarrow> locked st' = locked st \<and> events st' = events st \<and> gSendThreadPool st' = gSendThreadPool st \<and>
     csubs st' = csubs st \<and> tables_wf st'"

lemma unrelated_ok: "inv st S L U \<Longrightarrow> unrelated st st' \<Longrightarrow> inv st' S L U"
  by (simp add: inv_def core_def unrelated_def)

lemma queue_limits_unrelated: "tables_wf st \<Longrightarrow> unrelated st (snd (UpnpSetEventQueueLimits st n a))"
  using table_only [of "snd (UpnpSetEventQueueLimits st n a)" st]
  by (simp add: unrelated_def UpnpSetEventQueueLimits_def)

text \<open>A device registered with a well-formed table without subscriptions.\<close>

lemma register_unrelated:
  assumes "tables_wf st" "1 \<le> h" "h < int NUM_HANDLE" "slot st h = None"
    "table_wf (ServiceTable info)" "\<forall>s\<in>set (serviceList (ServiceTable info)). subscriptionList s = []"
  shows "unrelated st (set_slot st h (Some info))"
proof -
  have len: "length (HandleTable st) = NUM_HANDLE" using assms(1) by (simp add: tables_wf_def)
  note s = slot_set_slot [OF len assms(2,3)]
  have "slot_subs (set_slot st h (Some info)) k = slot_subs st k" for k
    using assms(4,6) by (auto simp: slot_subs_def s svc_subs_def)
  then have "csubs (set_slot st h (Some info)) = csubs st" by (simp add: csubs_def)
  moreover have "tables_wf (set_slot st h (Some info))"
    using assms(1,5) unfolding tables_wf_def by (simp add: s)
  ultimately show ?thesis by (simp add: unrelated_def)
qed

text \<open>A handle without subscriptions is released.\<close>

lemma free_handle_unrelated:
  assumes "tables_wf st" "slot_subs st h = []"
  shows "unrelated st (snd (FreeHandle st h))"
proof (cases "h < 1 \<or> int NUM_HANDLE \<le> h \<or> HandleTable st ! nat h = None")
  case True
  then show ?thesis using assms(1) by (auto simp: FreeHandle_def unrelated_def)
next
  case False
  have len: "length (HandleTable st) = NUM_HANDLE" using assms(1) by (simp add: tables_wf_def)
  have s: "slot (set_slot st h None) k = (if k = h then None else slot st k)" for k
    using slot_set_slot [OF len, of h None k] False by auto
  have "slot_subs (set_slot st h None) k = slot_subs st k" for k
    using assms(2) by (cases "k = h") (simp_all add: slot_subs_def s)
  then have "csubs (set_slot st h None) = csubs st" by (simp add: csubs_def)
  moreover have "tables_wf (set_slot st h None)"
    using assms(1) unfolding tables_wf_def by (simp add: s)
  ultimately show ?thesis using False by (auto simp: unrelated_def FreeHandle_def)
qed

end
