(* ===== verification/Uri_Props.thy ===== *)
theory Uri_Props
  imports Uri_Parser
begin

text \<open>
  The URI code against reference definitions: decoding of escapes against a recursive decoder, the
  in-place removal of dot segments against the algorithm of RFC 3986 on strings and against a
  resolution of path segments, the tokens of the parser against the string it was given.
\<close>

section \<open>Escapes\<close>

fun unescape :: "string \<Rightarrow> string" where
  "unescape (a # b # c # s) =
     (if a = CHR ''%'' \<and> isxdigit b \<and> isxdigit c then hex_char b c # unescape s
      else a # unescape (b # c # s))"
| "unescape s = s"

lemma at_NUL [simp]: "length s \<le> i \<Longrightarrow> at s i = NUL"
  by (simp add: at_def)

lemma at_nth [simp]: "i < length s \<Longrightarrow> at s i = s ! i"
  by (simp add: at_def)

lemma at_drop: "at (drop k s) i = at s (k + i)"
  by (auto simp: at_def)

lemma NUL_no_xdigit [simp]: "\<not> isxdigit NUL"
  by (simp add: isxdigit_def isdigit_def)

lemma replace_escaped_loop_ok:
  "j < mx \<Longrightarrow> mx \<le> length s \<Longrightarrow> i = j + 3 \<Longrightarrow>
   replace_escaped_loop s t i j mx =
     take j s @ t # drop (j + 3) (take mx s) @ replicate (min 2 (mx - j - 1)) NUL @ drop mx s"
proof (induction s t i j mx rule: replace_escaped_loop.induct)
  case (1 s t i j mx)
  have st: "replace_escaped_loop s t i j mx =
      replace_escaped_loop (s[j := t]) (if i < mx then at (s[j := t]) i else NUL) (i + 1) (j + 1) mx"
    using 1(2) by (subst replace_escaped_loop.simps) (simp add: Let_def)
  have tk: "take (j + 1) (s[j := t]) = take j s @ [t]"
    using 1(2,3) by (simp add: take_Suc_conv_app_nth)
  have dr: "drop (j + 1 + 3) (take mx (s[j := t])) = drop (j + 4) (take mx s)" "drop mx (s[j := t]) = drop mx s"
    using 1(2) by (simp_all add: take_update_swap drop_update_cancel add.commute)
  show ?case
  proof (cases "j + 1 < mx")
    case False
    then have "mx = j + 1" using 1(2) by simp
    moreover have "replace_escaped_loop (s[j := t]) x (i + 1) (j + 1) mx = s[j := t]" for x
      using False by (subst replace_escaped_loop.simps) simp
    ultimately show ?thesis using st 1(3) by (simp add: upd_conv_take_nth_drop)
  next
    case True
    have ih: "replace_escaped_loop (s[j := t]) (if i < mx then at (s[j := t]) i else NUL) (i + 1) (j + 1) mx =
        take (j + 1) (s[j := t]) @ (if i < mx then at (s[j := t]) i else NUL) # drop (j + 1 + 3) (take mx (s[j := t])) @
        replicate (min 2 (mx - (j + 1) - 1)) NUL @ drop mx (s[j := t])"
      using 1(1) [OF 1(2) refl] True 1(3,4) by simp
    show ?thesis
    proof (cases "i < mx")
      case im: True
      have "drop (j + 3) (take mx s) = s ! i # drop (j + 4) (take mx s)"
        using im 1(3,4) by (subst Cons_nth_drop_Suc [symmetric]) (auto simp: numeral_eq_Suc)
      moreover have "at (s[j := t]) i = s ! i" using im 1(3,4) by simp
      ultimately show ?thesis using st ih im tk dr 1(4) by simp
    next
      case im: False
      have "min 2 (mx - j - 1) = Suc (min 2 (mx - (j + 1) - 1))" using im True 1(4) by arith
      moreover have "drop (j + 3) (take mx s) = []" "drop (j + 4) (take mx s) = []" using im 1(4) by simp_all
      ultimately show ?thesis using st ih im tk dr by simp
    qed
  qed
qed

text \<open>One escape is replaced in place; the freed bytes at the end become NUL.\<close>

lemma replace_escaped_ok:
  assumes "i + 2 < sz" "sz \<le> length s" "sz < 2 ^ 64" "is_escaped s i"
  shows "replace_escaped s i sz =
    (1, take i s @ hex_char (at s (i + 1)) (at s (i + 2)) # drop (i + 3) (take sz s) @ [NUL, NUL] @ drop sz s, sz - 2)"
proof -
  have "min 2 (sz - i - 1) = 2" using assms by arith
  then show ?thesis
    using assms replace_escaped_loop_ok [of i sz s "i + 3" "hex_char (at s (i + 1)) (at s (i + 2))"]
    by (simp add: replace_escaped_def is_escaped_def numeral_2_eq_2 del: at_nth)
qed

lemma unescape_skip:
  "\<not> is_escaped (x # t) 0 \<Longrightarrow> unescape (x # t) = x # unescape t"
  by (cases t rule: remdups_adj.cases) (auto simp: is_escaped_def at_def)

lemma unescape_take:
  "is_escaped t 0 \<Longrightarrow> unescape t = hex_char (at t 1) (at t 2) # unescape (drop 3 t)"
proof -
  assume e: "is_escaped t 0"
  then have "\<not> length t \<le> 2" by (auto simp: is_escaped_def)
  then obtain a b c u where "t = a # b # c # u" by (cases t rule: unescape.cases) auto
  then show ?thesis using e by (simp add: is_escaped_def numeral_2_eq_2 numeral_3_eq_3)
qed

lemma remove_escaped_loop_ok:
  "sz \<le> length s \<Longrightarrow> sz < 2 ^ 64 \<Longrightarrow> i \<le> sz \<Longrightarrow> \<forall>k \<ge> sz. at s k = NUL \<Longrightarrow>
   \<exists>s' n. remove_escaped_loop s i sz = Some (s', n) \<and> length s' = length s \<and> n \<le> length s' \<and>
     take n s' = take i s @ unescape (drop i (take sz s)) \<and> (\<forall>k \<ge> n. at s' k = NUL)"
proof (induction "sz - i" arbitrary: s i sz rule: less_induct)
  case less
  let ?t = "drop i (take sz s)"
  show ?case
  proof (cases "i < sz")
    case False
    then show ?thesis using less.prems by (subst remove_escaped_loop.simps) auto
  next
    case True
    have esc: "is_escaped ?t 0 \<longleftrightarrow> is_escaped s i" if "i + 2 < sz"
      using that less.prems(1) by (auto simp: is_escaped_def at_def less_diff_conv)
    show ?thesis
    proof (cases "is_escaped s i")
      case e: True
      have i2: "i + 2 < sz" using e less.prems(4) by (metis NUL_no_xdigit is_escaped_def not_le)
      let ?c = "hex_char (at s (i + 1)) (at s (i + 2))"
      let ?s = "take i s @ ?c # drop (i + 3) (take sz s) @ [NUL, NUL] @ drop sz s"
      have r: "replace_escaped s i sz = (1, ?s, sz - 2)"
        using replace_escaped_ok [OF i2 less.prems(1,2) e] .
      have len: "length ?s = length s" using i2 less.prems(1) by simp
      have z: "\<forall>k \<ge> sz - 2. at ?s k = NUL"
      proof (intro allI impI)
        fix k assume "sz - 2 \<le> k"
        then show "at ?s k = NUL"
          using i2 less.prems(1,4) by (auto simp: at_def nth_append nth_Cons' split: if_splits)
      qed
      obtain s' n where ih: "remove_escaped_loop ?s (i + 1) (sz - 2) = Some (s', n)" "length s' = length ?s" "n \<le> length s'"
          "take n s' = take (i + 1) ?s @ unescape (drop (i + 1) (take (sz - 2) ?s))" "\<forall>k \<ge> n. at s' k = NUL"
        using less.hyps [of "sz - 2" "i + 1" ?s] i2 less.prems len z by fastforce
      have t1: "take (i + 1) ?s = take i s @ [?c]" using True less.prems(1) by (simp add: min_def)
      have "length (take i s @ ?c # drop 3 ?t) = sz - 2" using i2 less.prems(1) by simp
      then have "take (sz - 2) ((take i s @ ?c # drop 3 ?t) @ [NUL, NUL] @ drop sz s) = take i s @ ?c # drop 3 ?t"
        by (metis append_eq_conv_conj)
      then have t2: "drop (i + 1) (take (sz - 2) ?s) = drop 3 ?t"
        using True less.prems(1) by (simp add: min_def add.commute)
      have "at ?t 1 = at s (i + 1)" "at ?t 2 = at s (i + 2)"
        using i2 less.prems(1) by (auto simp: at_def less_diff_conv)
      then have t3: "unescape ?t = ?c # unescape (drop 3 ?t)"
        using unescape_take [of ?t] esc [OF i2] e by simp
      have "remove_escaped_loop s i sz = Some (s', n)"
        using ih(1) r True by (subst remove_escaped_loop.simps) simp
      moreover have "take n s' = take i s @ unescape ?t" unfolding ih(4) t1 t2 t3 by simp
      moreover have "length s' = length s" using ih(2) len by (rule trans)
      ultimately show ?thesis using ih(3,5) by blast
    next
      case ne: False
      have r: "replace_escaped s i sz = (0, s, sz)" using ne by (simp add: replace_escaped_def is_escaped_def)
      obtain s' n where ih: "remove_escaped_loop s (i + 1) sz = Some (s', n)" "length s' = length s" "n \<le> length s'"
          "take n s' = take (i + 1) s @ unescape (drop (i + 1) (take sz s))" "\<forall>k \<ge> n. at s' k = NUL"
        using less.hyps [of sz "i + 1" s] True less.prems by fastforce
      have t: "?t = s ! i # drop (i + 1) (take sz s)"
        using True less.prems(1) by (simp add: Cons_nth_drop_Suc [symmetric])
      have "\<not> is_escaped ?t 0"
      proof (cases "i + 2 < sz")
        case False
        then have "at ?t 2 = NUL" by simp
        then show ?thesis by (metis NUL_no_xdigit add_0 is_escaped_def)
      qed (use esc ne in simp)
      then have "unescape ?t = s ! i # unescape (drop (i + 1) (take sz s))" using t unescape_skip by metis
      moreover have "take (i + 1) s = take i s @ [s ! i]" using True less.prems(1) by (simp add: take_Suc_conv_app_nth)
      ultimately show ?thesis using ih r True by (subst remove_escaped_loop.simps) simp
    qed
  qed
qed

section \<open>Dot segments: the algorithm on strings\<close>

text \<open>The cases of RFC 3986, section 5.2.4, on the input and output buffers as strings.\<close>

definition pre :: "string \<Rightarrow> string \<Rightarrow> bool" where
  "pre s lit \<longleftrightarrow> take (length lit) s = lit"

definition trim_last :: "string \<Rightarrow> string" where
  "trim_last s = (case dropWhile (\<lambda>c. c \<noteq> CHR ''/'') (rev s) of [] \<Rightarrow> [] | c # r \<Rightarrow> rev r)"

definition seg_of :: "string \<Rightarrow> string" where
  "seg_of s = takeWhile (\<lambda>c. c \<noteq> CHR ''/'' \<and> \<not> is_end_path c) s"

definition rfc_step :: "string \<Rightarrow> string \<Rightarrow> string \<times> string" where
  "rfc_step P Q =
     (if pre P ''./'' then (drop 2 P, Q)
      else if pre P ''../'' then (drop 3 P, Q)
      else if pre P ''/./'' then (drop 2 P, Q)
      else if pre P ''/.'' \<and> is_end_path (at P 2) then (CHR ''/'' # drop 2 P, Q)
      else if pre P ''/../'' then (drop 3 P, trim_last Q)
      else if pre P ''/..'' \<and> is_end_path (at P 3) then (CHR ''/'' # drop 3 P, trim_last Q)
      else if pre P ''.'' \<and> is_end_path (at P 1) then (drop 1 P, Q)
      else if pre P ''..'' \<and> is_end_path (at P 2) then (drop 2 P, Q)
      else let k = (if at P 0 = CHR ''/'' then 1 else 0); g = seg_of (drop k P)
           in (drop (k + length g) P, Q @ take (k + length g) P))"

lemma strncmp_0: "NUL \<notin> set lit \<Longrightarrow> strncmp s lit (length lit) = 0 \<longleftrightarrow> pre s lit"
  unfolding pre_def strncmp_def
proof (induction lit arbitrary: s)
  case (Cons a lit)
  then show ?case by (cases s) auto
qed simp

lemma has_prefix_pre: "NUL \<notin> set lit \<Longrightarrow> has_prefix buf i lit \<longleftrightarrow> pre (drop i buf) lit"
  by (simp add: has_prefix_def strncmp_0)

lemma has_prefix_lits:
  "has_prefix buf i ''./'' \<longleftrightarrow> pre (drop i buf) ''./''" "has_prefix buf i ''../'' \<longleftrightarrow> pre (drop i buf) ''../''"
  "has_prefix buf i ''/./'' \<longleftrightarrow> pre (drop i buf) ''/./''" "has_prefix buf i ''/.'' \<longleftrightarrow> pre (drop i buf) ''/.''"
  "has_prefix buf i ''/../'' \<longleftrightarrow> pre (drop i buf) ''/../''" "has_prefix buf i ''/..'' \<longleftrightarrow> pre (drop i buf) ''/..''"
  "has_prefix buf i ''.'' \<longleftrightarrow> pre (drop i buf) ''.''" "has_prefix buf i ''..'' \<longleftrightarrow> pre (drop i buf) ''..''"
  by (rule has_prefix_pre, simp add: NUL_def)+

lemma pre_length: "pre s lit \<Longrightarrow> length lit \<le> length s"
  unfolding pre_def by (metis length_take min.cobounded1)

lemma trim_out_ok: "out \<le> length buf \<Longrightarrow> trim_out buf out \<le> out \<and> take (trim_out buf out) buf = trim_last (take out buf)"
proof (induction buf out rule: trim_out.induct)
  case (2 buf out)
  have "take (Suc out) buf = take out buf @ [at buf out]" using 2(2) by (simp add: take_Suc_conv_app_nth)
  then show ?case using 2 by (auto simp: trim_last_def)
qed (simp add: trim_last_def)

lemma update_above: "out \<le> k \<Longrightarrow> take out (buf[k := x]) = take out buf"
  by simp

lemma update_head: "k < length buf \<Longrightarrow> drop k (buf[k := x]) = x # drop (k + 1) buf"
  by (simp add: drop_update_swap Cons_nth_drop_Suc [symmetric])

lemma move_one:
  assumes "out \<le> inp" "inp < length buf"
  shows "drop (inp + 1) (buf[out := at buf inp]) = drop (inp + 1) buf"
    "take (out + 1) (buf[out := at buf inp]) = take out buf @ [buf ! inp]"
  using assms by (simp_all add: take_Suc_conv_app_nth)

lemma move_segment_ok:
  "out \<le> inp \<Longrightarrow> inp \<le> length buf \<Longrightarrow> move_segment buf inp out (length buf) = (buf', inp', out') \<Longrightarrow>
   length buf' = length buf \<and> out' \<le> inp' \<and> inp' = inp + length (seg_of (drop inp buf)) \<and>
   drop inp' buf' = drop inp' buf \<and> take out' buf' = take out buf @ seg_of (drop inp buf)"
proof (induction "length buf - inp" arbitrary: buf inp out rule: less_induct)
  case less
  show ?case
  proof (cases "inp < length buf \<and> at buf inp \<noteq> CHR ''/'' \<and> \<not> is_end_path (at buf inp)")
    case False
    then have "seg_of (drop inp buf) = []"
      by (cases "inp < length buf") (auto simp: seg_of_def Cons_nth_drop_Suc [symmetric])
    moreover have "(buf', inp', out') = (buf, inp, out)"
      using less.prems(3) False by (subst (asm) move_segment.simps) auto
    ultimately show ?thesis using less.prems by simp
  next
    case True
    let ?b = "buf[out := at buf inp]"
    have m: "move_segment ?b (inp + 1) (out + 1) (length ?b) = (buf', inp', out')"
      using less.prems(3) True by (subst (asm) move_segment.simps) (simp del: at_nth)
    have d: "drop inp buf = buf ! inp # drop (inp + 1) buf" using True by (simp add: Cons_nth_drop_Suc)
    have less_m: "length ?b - (inp + 1) < length buf - inp" using True by auto
    have ih: "length buf' = length ?b \<and> out' \<le> inp' \<and> inp' = inp + 1 + length (seg_of (drop (inp + 1) ?b)) \<and>
       drop inp' buf' = drop inp' ?b \<and> take out' buf' = take (out + 1) ?b @ seg_of (drop (inp + 1) ?b)"
      by (rule less.hyps [OF less_m _ _ m]) (use less.prems True in simp_all)
    have g: "seg_of (drop inp buf) = buf ! inp # seg_of (drop (inp + 1) buf)" using d True by (auto simp: seg_of_def)
    have "out < inp'" using ih less.prems by linarith
    then have d': "drop inp' ?b = drop inp' buf" by (rule drop_update_cancel)
    have "drop (inp + 1) ?b = drop (inp + 1) buf" "take (out + 1) ?b = take out buf @ [buf ! inp]"
      using move_one [of out inp buf] less.prems(1) True by auto
    then show ?thesis using ih unfolding g d' by auto
  qed
qed

lemma rfc_step_shrinks:
  "P \<noteq> [] \<Longrightarrow> \<not> is_end_path (hd P) \<Longrightarrow> rfc_step P Q = (P', Q') \<Longrightarrow> length P' < length P"
  by (cases P) (auto simp: rfc_step_def seg_of_def Let_def dest!: pre_length split: if_splits)

text \<open>One pass of the in-place loop is one step of the algorithm on strings.\<close>

lemma end_path_NUL [simp]: "is_end_path NUL"
  by (simp add: is_end_path_def)

lemma slash_no_end [simp]: "\<not> is_end_path CHR ''/''"
  by (simp add: is_end_path_def NUL_def)

lemma move_slash_ok:
  assumes "out \<le> inp" "inp < length buf" "move_slash buf inp out = (b, i, q)"
  shows "length b = length buf \<and> q \<le> i \<and> i \<le> length b \<and> i = inp + (if at (drop inp buf) 0 = CHR ''/'' then 1 else 0) \<and>
    drop i b = drop i buf \<and> take q b = take out buf @ take (i - inp) (drop inp buf)"
proof (cases "at buf inp = CHR ''/''")
  case True
  have "take 1 (drop inp buf) = [buf ! inp]" using assms(2) by (simp add: take_Suc_conv_app_nth)
  then show ?thesis using assms(3) True assms(1,2) move_one [OF assms(1,2)] by (auto simp: move_slash_def at_drop)
next
  case False
  then show ?thesis using assms by (auto simp: move_slash_def at_drop)
qed

lemma remove_dots_step_ok:
  assumes le: "out \<le> inp" "inp < length buf" and ne: "\<not> is_end_path (at buf inp)"
    and st: "remove_dots_step buf inp out (length buf) = (buf', inp', out')"
  shows "length buf' = length buf \<and> out' \<le> inp' \<and> inp < inp' \<and> inp' \<le> length buf' \<and>
    rfc_step (drop inp buf) (take out buf) = (drop inp' buf', take out' buf')"
proof -
  let ?P = "drop inp buf"
  have at: "at ?P k = at buf (inp + k)" for k by (simp add: at_drop)
  have tr: "trim_out b out \<le> out \<and> take (trim_out b out) b = trim_last (take out b)" if "length b = length buf" for b
    using trim_out_ok [of out b] that le by simp
  note simps = remove_dots_step_def rfc_step_def has_prefix_lits at
  let ?up = "pre ?P ''/../'' \<or> pre ?P ''/..'' \<and> is_end_path (at buf (inp + 3))"
  let ?dot = "pre ?P ''/.'' \<and> is_end_path (at buf (inp + 2))"
  let ?n = "\<not> pre ?P ''./'' \<and> \<not> pre ?P ''../'' \<and> \<not> pre ?P ''/./''"
  consider (d1) "pre ?P ''./''" | (d2) "\<not> pre ?P ''./''" "pre ?P ''../''"
    | (d3) "\<not> pre ?P ''./''" "\<not> pre ?P ''../''" "pre ?P ''/./''" | (dot) "?n" "?dot"
    | (up) "?n" "\<not> ?dot" "pre ?P ''/../''" | (upend) "?n" "\<not> ?dot" "\<not> pre ?P ''/../''" "?up"
    | (e1) "?n" "\<not> ?dot" "\<not> ?up" "pre ?P ''.'' \<and> is_end_path (at buf (inp + 1))"
    | (e2) "?n" "\<not> ?dot" "\<not> ?up" "\<not> (pre ?P ''.'' \<and> is_end_path (at buf (inp + 1)))" "pre ?P ''..'' \<and> is_end_path (at buf (inp + 2))"
    | (seg) "?n" "\<not> ?dot" "\<not> ?up" "\<not> (pre ?P ''.'' \<and> is_end_path (at buf (inp + 1)))" "\<not> (pre ?P ''..'' \<and> is_end_path (at buf (inp + 2)))"
    by blast
  then show ?thesis
  proof cases
    case d1
    then show ?thesis using st le pre_length [OF d1] by (auto simp: simps add.commute)
  next
    case d2
    then show ?thesis using st le pre_length [OF d2(2)] by (auto simp: simps add.commute)
  next
    case d3
    then show ?thesis using st le pre_length [OF d3(3)] by (auto simp: simps add.commute)
  next
    case dot
    have l: "inp + 1 < length buf" using pre_length [of ?P "''/.''"] dot by simp
    have "buf' = buf[inp + 1 := CHR ''/'']" "inp' = inp + 1" "out' = out"
      using st dot by (auto simp: simps)
    moreover have "rfc_step ?P (take out buf) = (CHR ''/'' # drop 2 ?P, take out buf)"
      using dot by (auto simp: simps)
    ultimately show ?thesis using l le update_head [OF l, of "CHR ''/''"] by (simp add: add.commute)
  next
    case up
    have l: "inp + 3 < length buf" using pre_length [OF up(3)] by simp
    have "at buf (inp + 3) = CHR ''/''" using up(3) l by (auto simp: pre_def at_def take_Suc_conv_app_nth numeral_eq_Suc dest!: arg_cong [of _ _ "\<lambda>x. x ! 3"])
    then have "buf' = buf" "inp' = inp + 3" "out' = trim_out buf out"
      using st up by (auto simp: simps)
    moreover have "rfc_step ?P (take out buf) = (drop 3 ?P, trim_last (take out buf))" using up by (auto simp: simps)
    ultimately show ?thesis using l le tr [of buf] by (auto simp: add.commute)
  next
    case upend
    have l: "inp + 2 < length buf" using pre_length [of ?P "''/..''"] upend by simp
    let ?b = "buf[inp + 2 := CHR ''/'']"
    have "is_end_path (at buf (inp + 3))" using upend by blast
    then have "buf' = ?b" "inp' = inp + 2" "out' = trim_out ?b out"
      using st upend by (auto simp: simps)
    moreover have "rfc_step ?P (take out buf) = (CHR ''/'' # drop 3 ?P, trim_last (take out buf))"
      using upend by (auto simp: simps)
    ultimately show ?thesis
      using l le tr [of ?b] update_head [OF l, of "CHR ''/''"] by (auto simp: numeral_3_eq_3)
  next
    case e1
    then show ?thesis using st le pre_length [of ?P "''.''"] by (auto simp: simps add.commute)
  next
    case e2
    then show ?thesis using st le pre_length [of ?P "''..''"] by (auto simp: simps add.commute)
  next
    case seg
    obtain b1 i1 o1 where ms: "move_slash buf inp out = (b1, i1, o1)" by (metis prod_cases3)
    have lb: "length b1 = length buf" and oi: "o1 \<le> i1" "i1 \<le> length b1"
      and k: "i1 = inp + (if at ?P 0 = CHR ''/'' then 1 else 0)"
      and d: "drop i1 b1 = drop i1 buf" "take o1 b1 = take out buf @ take (i1 - inp) ?P"
      using move_slash_ok [OF le ms] by auto
    have m: "move_segment b1 i1 o1 (length b1) = (buf', inp', out')"
      using st seg ms unfolding simps lb by (simp only: if_False simp_thms prod.case)
    note r = move_segment_ok [OF oi m]
    let ?k = "i1 - inp"
    have kk: "?k = (if at buf (inp + 0) = CHR ''/'' then 1 else 0)" using k at [of 0] by simp
    have ns: "\<not> pre ?P ''./''" "\<not> pre ?P ''../''" "\<not> pre ?P ''/./''" "\<not> pre ?P ''/../''"
      "\<not> (pre ?P ''/..'' \<and> is_end_path (at buf (inp + 3)))" using seg(1,3) by blast+
    have g: "drop ?k ?P = drop i1 b1" using d(1) k by simp
    have "rfc_step ?P (take out buf) = (drop (?k + length (seg_of (drop ?k ?P))) ?P, take out buf @ take (?k + length (seg_of (drop ?k ?P))) ?P)"
      unfolding kk rfc_step_def at Let_def by (simp only: if_False ns seg(2,4,5))
    moreover have "take (?k + length (seg_of (drop ?k ?P))) ?P = take ?k ?P @ seg_of (drop i1 b1)"
      unfolding take_add g by (simp add: seg_of_def takeWhile_eq_take [symmetric])
    moreover have "drop (?k + length (seg_of (drop ?k ?P))) ?P = drop inp' buf'"
    proof -
      have e: "inp' = i1 + length (seg_of (drop i1 b1))" "drop inp' buf' = drop inp' b1" and ii: "inp + ?k = i1"
        using r k by auto
      have "drop inp' b1 = drop inp' buf" using d(1) e(1) by (metis add.commute drop_drop)
      then show ?thesis using e ii g by (metis add.assoc add.commute drop_drop)
    qed
    moreover have "inp < inp'"
    proof (cases "at buf inp = CHR ''/''")
      case True
      then show ?thesis using r k by (simp add: at_drop)
    next
      case False
      then have "drop i1 b1 = buf ! inp # drop (inp + 1) buf" using k d(1) le by (simp add: at_drop Cons_nth_drop_Suc)
      then have "seg_of (drop i1 b1) \<noteq> []" using False ne le by (simp add: seg_of_def)
      then show ?thesis using r k by simp
    qed
    moreover have "take out' buf' = take out buf @ take ?k ?P @ seg_of (drop i1 b1)" using r d(2) by simp
    moreover have "inp' \<le> length buf'"
      using r lb oi length_takeWhile_le [of "\<lambda>c. c \<noteq> CHR ''/'' \<and> \<not> is_end_path c" "drop i1 b1"] by (auto simp: seg_of_def)
    ultimately show ?thesis using r lb by (simp only:) simp
  qed
qed

function rfc_remove :: "string \<Rightarrow> string \<Rightarrow> string" where
  "rfc_remove P Q =
     (if P = [] \<or> is_end_path (hd P) then Q @ P else case rfc_step P Q of (P', Q') \<Rightarrow> rfc_remove P' Q')"
  by pat_completeness auto
termination
  by (relation "measure (\<lambda>(P, Q). length P)") (auto split: prod.splits dest: rfc_step_shrinks)

declare rfc_remove.simps [simp del]

lemma copy_rest_ok:
  "out \<le> inp \<Longrightarrow> inp \<le> length buf \<Longrightarrow> copy_rest buf inp out (length buf) = (buf', out') \<Longrightarrow>
   take out' buf' = take out buf @ drop inp buf"
proof (induction "length buf - inp" arbitrary: buf inp out rule: less_induct)
  case less
  show ?case
  proof (cases "inp < length buf")
    case False
    then show ?thesis using less.prems by (subst (asm) copy_rest.simps) simp
  next
    case True
    let ?b = "buf[out := at buf inp]"
    have c: "copy_rest ?b (inp + 1) (out + 1) (length ?b) = (buf', out')"
      using less.prems(3) True by (subst (asm) copy_rest.simps) simp
    have l: "length ?b - (inp + 1) < length buf - inp" using True by auto
    have "take out' buf' = take (out + 1) ?b @ drop (inp + 1) ?b"
      by (rule less.hyps [OF l _ _ c]) (use less.prems True in simp_all)
    also have "\<dots> = take out buf @ buf ! inp # drop (inp + 1) buf"
      using move_one [OF less.prems(1) True] by simp
    finally show ?thesis using True by (simp add: Cons_nth_drop_Suc)
  qed
qed

lemma remove_dots_loop_ok:
  "out \<le> inp \<Longrightarrow> inp \<le> length buf \<Longrightarrow>
   \<exists>buf' inp' out'. remove_dots_loop buf inp out (length buf) = Some (buf', inp', out') \<and>
     length buf' = length buf \<and> out' \<le> inp' \<and> inp' \<le> length buf' \<and>
     rfc_remove (drop inp buf) (take out buf) = take out' buf' @ drop inp' buf'"
proof (induction "length buf - inp" arbitrary: buf inp out rule: less_induct)
  case less
  show ?case
  proof (cases "is_end_path (at buf inp)")
    case True
    then have "rfc_remove (drop inp buf) (take out buf) = take out buf @ drop inp buf"
      by (subst rfc_remove.simps) (auto simp: hd_drop_conv_nth)
    then show ?thesis using True less.prems by (subst remove_dots_loop.simps) auto
  next
    case False
    then have lt: "inp < length buf" by (metis at_NUL end_path_NUL not_le)
    obtain b i q where st: "remove_dots_step buf inp out (length buf) = (b, i, q)" by (metis prod_cases3)
    note r = remove_dots_step_ok [OF less.prems(1) lt False st]
    obtain buf' inp' out' where ih: "remove_dots_loop b i q (length b) = Some (buf', inp', out')"
        "length buf' = length b" "out' \<le> inp'" "inp' \<le> length buf'"
        "rfc_remove (drop i b) (take q b) = take out' buf' @ drop inp' buf'"
      using less.hyps [of b i q] r lt by fastforce
    have "rfc_remove (drop inp buf) (take out buf) = rfc_remove (drop i b) (take q b)"
      using r False lt by (subst rfc_remove.simps) (auto simp: hd_drop_conv_nth)
    moreover have "remove_dots_loop buf inp out (length buf) = Some (buf', inp', out')"
      using ih(1) r st False by (subst remove_dots_loop.simps) simp
    ultimately show ?thesis using ih r by auto
  qed
qed

lemma remove_dots_rfc: "remove_dots buf (length buf) = Some (UPNP_E_SUCCESS, rfc_remove buf [])"
proof -
  obtain b i q where l: "remove_dots_loop buf 0 0 (length buf) = Some (b, i, q)" "length b = length buf" "q \<le> i"
      "i \<le> length b" "rfc_remove buf [] = take q b @ drop i b"
    using remove_dots_loop_ok [of 0 0 buf] by auto
  obtain b' q' where c: "copy_rest b i q (length b) = (b', q')" by fastforce
  show ?thesis
    using l c copy_rest_ok [OF l(3,4) c] by (simp add: remove_dots_def)
qed

section \<open>Dot segments: the meaning on path segments\<close>

text \<open>
  An absolute path is a list of segments, each with a slash in front of it. A dot stands for nothing,
  two dots for taking the last segment back; either of them at the end leaves an empty segment, a
  slash, there.
\<close>

definition path_of :: "string list \<Rightarrow> string" where
  "path_of ss = concat (map (Cons CHR ''/'') ss)"

fun resolve_segments :: "string list \<Rightarrow> string list \<Rightarrow> string list" where
  "resolve_segments acc [] = acc"
| "resolve_segments acc [s] =
     (if s = ''.'' then acc @ [[]] else if s = ''..'' then butlast acc @ [[]] else acc @ [s])"
| "resolve_segments acc (s # t # ss) =
     resolve_segments (if s = ''.'' then acc else if s = ''..'' then butlast acc else acc @ [s]) (t # ss)"

definition segment :: "string \<Rightarrow> bool" where
  "segment s \<longleftrightarrow> (\<forall>c \<in> set s. c \<noteq> CHR ''/'' \<and> \<not> is_end_path c)"

lemma path_of_simps [simp]: "path_of [] = []" "path_of (s # ss) = CHR ''/'' # s @ path_of ss"
  by (simp_all add: path_of_def)

lemma path_of_append: "path_of (ss @ ts) = path_of ss @ path_of ts"
  by (simp add: path_of_def)

lemma segment_no_slash: "segment s \<Longrightarrow> dropWhile (\<lambda>c. c \<noteq> CHR ''/'') (rev s @ t) = dropWhile (\<lambda>c. c \<noteq> CHR ''/'') t"
  by (auto simp: segment_def dropWhile_append)

lemma trim_last_path: "\<forall>s \<in> set ss. segment s \<Longrightarrow> trim_last (path_of ss) = path_of (butlast ss)"
proof (induction ss rule: rev_induct)
  case (snoc s ss)
  then show ?case
    by (simp add: trim_last_def path_of_append segment_no_slash)
qed (simp add: trim_last_def)

lemma butlast_segments: "\<forall>s \<in> set ss. segment s \<Longrightarrow> \<forall>s \<in> set (butlast ss). segment s"
  by (meson in_set_butlastD)

text \<open>What can follow a segment: the next slash, or the end of the path.\<close>

definition stops :: "string \<Rightarrow> bool" where
  "stops r \<longleftrightarrow> r = [] \<or> is_end_path (hd r)"

lemma at_Cons [simp]: "at (c # s) 0 = c" "at (c # s) (Suc k) = at s k"
  by (auto simp: at_def)

lemma at_stops: "stops r \<Longrightarrow> is_end_path (at r 0)"
  by (cases r) (auto simp: stops_def)

lemma pre_Cons [simp]: "pre (c # s) (d # l) \<longleftrightarrow> c = d \<and> pre s l" "pre s []" "\<not> pre [] (d # l)"
  by (auto simp: pre_def)

lemma seg_of_append: "segment s \<Longrightarrow> stops r \<or> hd r = CHR ''/'' \<Longrightarrow> seg_of (s @ r) = s"
  unfolding seg_of_def segment_def stops_def
  by (cases r) (auto simp: takeWhile_append)

lemma step_segment:
  assumes s: "segment s" "s \<noteq> ''.''" "s \<noteq> ''..''" and r: "stops r \<or> hd r = CHR ''/''"
  shows "rfc_step (CHR ''/'' # s @ r) Q = (r, Q @ CHR ''/'' # s)"
proof -
  have "\<not> pre (s @ r) ''./''" "\<not> (pre (s @ r) ''.'' \<and> is_end_path (at (s @ r) 1))"
      "\<not> pre (s @ r) ''../''" "\<not> (pre (s @ r) ''..'' \<and> is_end_path (at (s @ r) 2))"
    using assms
    by (cases s; cases "tl s"; cases "tl (tl s)"; cases r; auto simp: segment_def stops_def numeral_2_eq_2 is_end_path_def NUL_def)+
  then show ?thesis
    using seg_of_append [OF s(1) r]
    by (auto simp: rfc_step_def Let_def numeral_2_eq_2 numeral_3_eq_3)
qed

lemma step_dot:
  "hd r = CHR ''/'' \<Longrightarrow> r \<noteq> [] \<Longrightarrow> rfc_step (CHR ''/'' # ''.'' @ r) Q = (r, Q)"
  "stops r \<Longrightarrow> rfc_step (CHR ''/'' # ''.'' @ r) Q = (CHR ''/'' # r, Q)"
  by (cases r; auto simp: rfc_step_def stops_def numeral_2_eq_2)+

lemma step_dots:
  "hd r = CHR ''/'' \<Longrightarrow> r \<noteq> [] \<Longrightarrow> rfc_step (CHR ''/'' # ''..'' @ r) Q = (r, trim_last Q)"
  "stops r \<Longrightarrow> rfc_step (CHR ''/'' # ''..'' @ r) Q = (CHR ''/'' # r, trim_last Q)"
  by (cases r; auto simp: rfc_step_def stops_def numeral_2_eq_2 numeral_3_eq_3 is_end_path_def NUL_def)+

lemma rfc_remove_step: "rfc_step (CHR ''/'' # P) Q = (P', Q') \<Longrightarrow> rfc_remove (CHR ''/'' # P) Q = rfc_remove P' Q'"
  by (subst rfc_remove.simps) simp

lemma rfc_remove_stop: "stops r \<Longrightarrow> rfc_remove r Q = Q @ r"
  by (subst rfc_remove.simps) (simp add: stops_def)

lemma rfc_remove_slash: "stops r \<Longrightarrow> rfc_remove (CHR ''/'' # r) Q = Q @ CHR ''/'' # r"
  using step_segment [of "[]" r Q] by (simp add: rfc_remove_step rfc_remove_stop segment_def)

lemma rfc_remove_segments:
  "\<forall>s \<in> set acc. segment s \<Longrightarrow> \<forall>s \<in> set ss. segment s \<Longrightarrow> stops r \<Longrightarrow>
   rfc_remove (path_of ss @ r) (path_of acc) = path_of (resolve_segments acc ss) @ r"
proof (induction acc ss rule: resolve_segments.induct)
  case (1 acc)
  then show ?case by (simp add: rfc_remove_stop)
next
  case (2 acc s)
  consider "s = ''.''" | "s = ''..''" | "s \<noteq> ''.''" "s \<noteq> ''..''" by blast
  then show ?case
  proof cases
    case 1
    then show ?thesis
      using 2 by (simp add: rfc_remove_step [OF step_dot(2), simplified] rfc_remove_slash path_of_append)
  next
    case 2
    then show ?thesis
      using "2.prems" by (simp add: rfc_remove_step [OF step_dots(2), simplified] rfc_remove_slash path_of_append trim_last_path)
  next
    case 3
    then show ?thesis
      using 2 by (simp add: rfc_remove_step [OF step_segment] rfc_remove_stop path_of_append)
  qed
next
  case (3 acc s t ss)
  let ?r = "path_of (t # ss) @ r"
  have h: "hd ?r = CHR ''/''" "?r \<noteq> []" by simp_all
  consider "s = ''.''" | "s = ''..''" | "s \<noteq> ''.''" "s \<noteq> ''..''" by blast
  then show ?case
  proof cases
    case 1
    then show ?thesis using 3 rfc_remove_step [OF step_dot(1) [OF h], of "path_of acc"] by simp
  next
    case 2
    then show ?thesis
      using 3 rfc_remove_step [OF step_dots(1) [OF h], of "path_of acc"] trim_last_path [of acc] butlast_segments [of acc] by simp
  next
    case seg: 3
    have "rfc_remove (CHR ''/'' # s @ ?r) (path_of acc) = rfc_remove ?r (path_of acc @ CHR ''/'' # s)"
      by (rule rfc_remove_step [OF step_segment]) (use seg 3 h in auto)
    then show ?thesis using 3 seg by (simp add: path_of_append)
  qed
qed

text \<open>The result has no dot segment left.\<close>

lemma resolve_segments_clean:
  "set acc \<inter> {''.'', ''..''} = {} \<Longrightarrow> set (resolve_segments acc ss) \<inter> {''.'', ''..''} = {}"
proof (induction acc ss rule: resolve_segments.induct)
  case (2 acc s)
  have "set (butlast acc) \<subseteq> set acc" by (auto dest: in_set_butlastD)
  then show ?case using 2 by (cases "s = ''.''"; cases "s = ''..''"; simp; blast)
next
  case (3 acc s t ss)
  have "set (butlast acc) \<subseteq> set acc" by (auto dest: in_set_butlastD)
  then have "set (if s = ''.'' then acc else if s = ''..'' then butlast acc else acc @ [s]) \<inter> {''.'', ''..''} = {}"
    using 3(2) by (cases "s = ''.''"; cases "s = ''..''"; simp; blast)
  from 3(1) [OF this] show ?case by simp
qed simp

section \<open>Tokens lie in the string\<close>

definition in_string :: "string \<Rightarrow> token \<Rightarrow> bool" where
  "in_string s t \<longleftrightarrow> (case buff t of None \<Rightarrow> tk_size t = 0 | Some off \<Rightarrow> off + tk_size t \<le> length s)"

lemma no_token_in [simp]: "in_string s no_token"
  by (simp add: in_string_def no_token_def)

lemma uric_loop_le: "i \<le> mx \<Longrightarrow> uric_loop s off mx i \<le> mx"
  by (induction s off mx i rule: uric_loop.induct) (subst uric_loop.simps, simp)

lemma scheme_loop_less: "scheme_loop s mx i = n \<Longrightarrow> n \<noteq> 0 \<Longrightarrow> n < mx"
proof (induction s mx i rule: scheme_loop.induct)
  case (1 s mx i)
  from 1(2) have "(if i < mx \<and> at s i \<noteq> CHR '':''
      then if isalnum (at s i) \<or> at s i = CHR ''+'' \<or> at s i = CHR ''-'' \<or> at s i = CHR ''.''
           then scheme_loop s mx (i + 1) else 0
      else if i < mx then i else 0) = n"
    by (subst (asm) scheme_loop.simps)
  then show ?case using 1(1,3) by (auto split: if_splits)
qed

lemma at_not_NUL: "at w c \<noteq> NUL \<Longrightarrow> c < length w"
  by (metis at_NUL not_le)

lemma split_host_le: "split_host w = Some (af, name, hp, c) \<Longrightarrow> c \<le> length w"
proof -
  assume a: "split_host w = Some (af, name, hp, c)"
  have colon: "at w k = CHR '':'' \<Longrightarrow> k < length w" for k by (rule at_not_NUL) (simp add: NUL_def)
  show ?thesis
    using a colon [of "length (takeWhile host_char w)"] length_takeWhile_le [of host_char w]
      colon [of "Suc (Suc (length (takeWhile (\<lambda>c. c \<noteq> CHR '']'') (tl w))))"]
      at_not_NUL [of w "Suc (length (takeWhile (\<lambda>c. c \<noteq> CHR '']'') (tl w)))"]
    by (auto simp: split_host_def Let_def split: if_splits)
qed

lemma parse_hostport_le:
  assumes "parse_hostport env s off dp = (rc, hp)" "off \<le> length s"
  shows "rc = UPNP_E_INVALID_URL \<and> hp = no_hostport \<or>
    0 \<le> rc \<and> off + nat rc \<le> length s \<and> hp_text hp = \<lparr>buff = Some off, tk_size = nat rc\<rparr>"
proof -
  let ?w = "take 255 (takeWhile (\<lambda>c. c \<noteq> NUL) (drop off s))"
  have w: "off + length ?w \<le> length s"
    using length_takeWhile_le [of "\<lambda>c. c \<noteq> NUL" "drop off s"] assms(2) by simp
  have "off + c + length (takeWhile isdigit (drop c ?w)) \<le> length s" if "split_host ?w = Some (af, name, p, c)" for af name p c
    using split_host_le [OF that] length_takeWhile_le [of isdigit "drop c ?w"] w by (simp del: length_take)
  moreover have "off + c \<le> length s" if "split_host ?w = Some (af, name, p, c)" for af name p c
    using split_host_le [OF that] w by (simp del: length_take)
  ultimately show ?thesis
    using assms(1) by (auto simp: parse_hostport_def Let_def codes nat_add_distrib
        split: option.splits prod.splits if_splits family.splits)
qed

lemma parse_scheme_le:
  "parse_scheme s mx = (n, t) \<Longrightarrow> n < mx \<and> t = \<lparr>buff = Some 0, tk_size = n\<rparr> \<or> n = 0 \<and> t = no_token"
  using scheme_loop_less [of s mx 1] by (auto simp: parse_scheme_def Let_def split: if_splits)

lemma to_int32_small: "0 \<le> x \<Longrightarrow> x < 2 ^ 31 \<Longrightarrow> to_int32 x = x"
  by (simp add: to_int32_def)

lemma path_index_small [simp]:
  assumes "b < 2 ^ 31"
  shows "path_index (to_int32 (int b)) = b"
proof -
  have "to_int32 (int b) = int b" using assms by (intro to_int32_small) simp_all
  then show ?thesis using assms by (simp add: path_index_def)
qed

lemma path_index_sum:
  assumes "0 \<le> k" "nat k + b < 2 ^ 31"
  shows "path_index (to_int32 (k + to_int32 (int b))) = nat k + b"
proof -
  have "to_int32 (int b) = int b" using assms by (intro to_int32_small) simp_all
  then have "k + to_int32 (int b) = int (nat k + b)" using assms(1) by simp
  then show ?thesis using path_index_small [OF assms(2)] by simp
qed

lemma parse_uri_path_tokens:
  assumes "b \<le> length s" "length s < 2 ^ 64" "in_string s schm" "in_string s (hp_text hp)"
  shows "case parse_uri_path s (length s) typ ptyp schm hp b of v \<Rightarrow> in_string s (scheme v) \<and>
    in_string s (hp_text (hostport v)) \<and> in_string s (pathquery v) \<and> in_string s (fragment v)"
proof -
  let ?n = "length s" and ?k = "uric_loop s b (length s - b) 0"
  have sz: "size_sub ?n b = ?n - b" using assms(1,2) by simp
  have k: "b + ?k \<le> ?n" using uric_loop_le [of 0 "?n - b" s b] assms(1) by simp
  then have sa: "size_add ?k b = ?k + b" using assms(2) by (intro size_add_small) simp
  have f: "?k + b < ?n \<Longrightarrow> ?k + b + 1 + uric_loop s (?k + b + 1) (?n - (?k + b + 1)) 0 \<le> ?n"
    using uric_loop_le [of 0 "?n - (?k + b + 1)" s "?k + b + 1"] by arith
  show ?thesis
    using assms(3,4) k f by (simp add: parse_uri_path_def sz sa parse_uric_def in_string_def no_token_def Let_def)
qed

lemma parse_uri_tokens:
  assumes len: "length s < 2 ^ 31" and p: "parse_uri env s (length s) = (rc, u)"
  shows "case u of None \<Rightarrow> rc = UPNP_E_INVALID_URL
    | Some v \<Rightarrow> rc = HTTP_SUCCESS \<and> in_string s (scheme v) \<and> in_string s (hp_text (hostport v)) \<and>
        in_string s (pathquery v) \<and> in_string s (fragment v)"
proof -
  obtain n sch where sc: "parse_scheme s (length s) = (n, sch)" by fastforce
  define b where "b = (if n \<noteq> 0 then n + 1 else n)"
  have b: "b \<le> length s" and isch: "in_string s sch"
    using parse_scheme_le [OF sc] by (auto simp: b_def in_string_def no_token_def)
  have b31: "b < 2 ^ 31" using b len by simp
  have sa: "size_add n 1 = n + 1" "size_add b 1 = b + 1" "size_add b 2 = b + 2"
    using b31 by (simp_all add: b_def split: if_splits)
  obtain hrc hp where h: "parse_hostport env s (b + 2) (if token_string_casecmp s sch ''https'' = 0 then 443 else 80) = (hrc, hp)"
    by fastforce
  have l64: "length s < 2 ^ 64" using len by simp
  note tok = parse_uri_path_tokens [OF _ l64 isch]
  note eq = p [unfolded parse_uri_def sc Let_def prod.case sa(1) b_def [symmetric] sa(2,3) h]
  show ?thesis
  proof (cases "b + 1 < length s \<and> at s b = CHR ''/'' \<and> at s (b + 1) = CHR ''/''")
    case True
    then have hc: "hrc = UPNP_E_INVALID_URL \<or> 0 \<le> hrc \<and> nat hrc + (b + 2) \<le> length s \<and> in_string s (hp_text hp)"
      using parse_hostport_le [OF h] by (auto simp: in_string_def)
    have "path_index (to_int32 (hrc + to_int32 (int (b + 2)))) = nat hrc + (b + 2)" if "0 \<le> hrc"
      using hc that len by (intro path_index_sum) (auto simp: codes)
    then show ?thesis using eq True tok [of "nat hrc + (b + 2)" hp] hc by (auto simp: codes)
  next
    case False
    have "in_string s (hp_text no_hostport)" by (simp add: no_hostport_def)
    note tk = tok [OF b this]
    have "(rc, u) = (HTTP_SUCCESS, Some (parse_uri_path s (length s) (if n \<noteq> 0 then ABSOLUTE else RELATIVE)
        (if n \<noteq> 0 then OPAQUE_PART else REL_PATH) sch no_hostport b))"
      using eq False by (simp only: if_False path_index_small [OF b31])
    then show ?thesis using tk by simp
  qed
qed

text \<open>
  The bound on the length is needed: a scheme of $2^{31}$ characters makes the start of the path negative, and
  the path is read outside the string.
\<close>

lemma scheme_loop_reads:
  "i \<le> n \<Longrightarrow> n < mx \<Longrightarrow> \<forall>k. i \<le> k \<and> k < n \<longrightarrow> at s k = CHR ''a'' \<Longrightarrow> at s n = CHR '':'' \<Longrightarrow> scheme_loop s mx i = n"
proof (induction s mx i rule: scheme_loop.induct)
  case (1 s mx i)
  show ?case
  proof (cases "i = n")
    case True
    then show ?thesis using 1(3,5) by (subst scheme_loop.simps) simp
  next
    case False
    then have "at s i = CHR ''a''" using 1(2,4) by simp
    moreover have "isalnum CHR ''a''" by (simp add: ctype_defs byte_of_def)
    ultimately show ?thesis using 1 False by (subst scheme_loop.simps) auto
  qed
qed

lemma long_scheme_out_of_bounds:
  "\<exists>s u. parse_uri env s (length s) = (HTTP_SUCCESS, Some u) \<and> \<not> in_string s (pathquery u)"
proof -
  obtain N :: nat where N: "N = 2 ^ 31" by blast
  let ?s = "replicate N CHR ''a'' @ '':x''"
  have at: "at ?s k = CHR ''a''" if "k < N" for k using that by (simp add: at_def nth_append)
  have N0: "0 < N" using N by simp
  have c: "at ?s N = CHR '':''" "at ?s (N + 1) = CHR ''x''" by (simp_all add: at_def nth_append)
  have "scheme_loop ?s (length ?s) 1 = N" using N0 at c(1) by (intro scheme_loop_reads) auto
  moreover have "isalpha CHR ''a''" by (simp add: ctype_defs byte_of_def)
  ultimately have sc: "parse_scheme ?s (length ?s) = (N, \<lparr>buff = Some 0, tk_size = N\<rparr>)"
    using N0 at [OF N0] by (simp add: parse_scheme_def)
  have sa: "size_add N 1 = N + 1" using N by simp
  have p: "path_index (to_int32 (int (N + 1))) = 2 ^ 64 - 2 ^ 31 + 1"
    by (simp add: N path_index_def to_int32_def)
  obtain u where u: "u = parse_uri_path ?s (length ?s) ABSOLUTE OPAQUE_PART \<lparr>buff = Some 0, tk_size = N\<rparr> no_hostport (2 ^ 64 - 2 ^ 31 + 1)"
    by blast
  have "parse_uri env ?s (length ?s) = (HTTP_SUCCESS, Some u)"
    unfolding parse_uri_def sc Let_def prod.case u using N0 c(2) sa p by simp
  moreover have "buff (pathquery u) = Some (2 ^ 64 - 2 ^ 31 + 1)"
    unfolding u by (simp add: parse_uri_path_def parse_uric_def Let_def)
  then have "\<not> in_string ?s (pathquery u)" using N by (simp add: in_string_def)
  ultimately show ?thesis by blast
qed

section \<open>Reading back a URL\<close>

lemma digits_value_append:
  "\<forall>c \<in> set p. digit_value c < b \<Longrightarrow> r = [] \<or> \<not> digit_value (hd r) < b \<Longrightarrow>
   digits_value b acc (p @ r) = digits_value b acc p \<and> snd (digits_value b acc p) = length p"
proof (induction p arbitrary: acc)
  case Nil
  then show ?case by (cases r) auto
next
  case (Cons c p)
  then show ?case by (auto split: prod.splits simp: prod_eq_iff)
qed

lemma digit_small: "isdigit c \<Longrightarrow> digit_value c < 10"
  by (auto simp: digit_value_def isdigit_def)

lemma digit_no_space: "isdigit c \<Longrightarrow> \<not> isspace c \<and> c \<noteq> CHR ''-'' \<and> c \<noteq> CHR ''+''"
  by (auto simp: isdigit_def isspace_def byte_of_def)

lemma strtol_digits:
  assumes "p \<noteq> []" "\<forall>c \<in> set p. isdigit c" "r = [] \<or> \<not> digit_value (hd r) < 10" "fst (digits_value 10 0 p) < 2 ^ 63"
  shows "strtol (p @ r) 10 = (int (fst (digits_value 10 0 p)), length p, False)"
proof -
  obtain c q where p: "p = c # q" using assms(1) by (cases p) auto
  have c: "\<not> isspace c" "c \<noteq> CHR ''-''" "c \<noteq> CHR ''+''" using assms(2) p digit_no_space by auto
  have "skip_space (p @ r) = 0" "sign_length (p @ r) = 0" "hex_prefix 10 (p @ r) = 0" "hd (p @ r) = c"
    using p c by (auto simp: skip_space_def sign_length_def hex_prefix_def split: list.splits)
  then have k: "number_prefix (p @ r) 10 = 0" "skip_space (p @ r) = 0" "hd (p @ r) \<noteq> CHR ''-''"
    using c by (simp_all add: number_prefix_def)
  obtain v where v: "digits_value 10 0 p = (v, length p)"
    using digits_value_append [of p 10 "[]" 0] assms(2) digit_small by (metis append_Nil2 prod.collapse)
  have "digits_value 10 0 (p @ r) = (v, length p)"
    using digits_value_append [of p 10 r 0] assms(2,3) digit_small v by auto
  then show ?thesis
    using k assms(1,4) v by (simp add: strtol_def Let_def)
qed

definition uric :: "char \<Rightarrow> bool" where
  "uric c \<longleftrightarrow> is_unreserved c \<or> is_reserved c"

lemma uric_loop_stops:
  "i \<le> n \<Longrightarrow> off + n \<le> length s \<Longrightarrow> \<forall>c \<in> set (take n (drop off s)). uric c \<Longrightarrow> n \<le> mx \<Longrightarrow>
   n = mx \<or> \<not> uric (at s (off + n)) \<and> \<not> is_escaped s (off + n) \<Longrightarrow> uric_loop s off mx i = n"
proof (induction s off mx i rule: uric_loop.induct)
  case (1 s off mx i)
  show ?case
  proof (cases "i < n")
    case True
    have "s ! (off + i) \<in> set (take n (drop off s))"
      using True 1(3) by (auto simp: in_set_conv_nth intro!: exI [of _ i])
    then have "uric (at s (off + i))" using 1(4) True "1"(3) by simp
    then show ?thesis using 1(1) True 1(3-6) by (subst uric_loop.simps) (auto simp: uric_def)
  qed (use 1 in \<open>subst uric_loop.simps, auto simp: uric_def\<close>)
qed

lemma http_scheme: "parse_scheme (''http:'' @ r) (5 + length r) = (4, \<lparr>buff = Some 0, tk_size = 4\<rparr>)"
proof -
  have "scheme_loop (''http:'' @ r) (5 + length r) 1 = 4"
    by (simp add: scheme_loop.simps at_def isalnum_def isalpha_def islower_def isupper_def isdigit_def byte_of_def)
  then show ?thesis by (simp add: parse_scheme_def isalpha_def islower_def isupper_def byte_of_def)
qed

lemma host_char_ne: "host_char c \<Longrightarrow> c \<noteq> NUL \<and> c \<noteq> CHR ''[''"
  by (auto simp: host_char_def ctype_defs NUL_def byte_of_def)

lemma colon_ne: "CHR '':'' \<noteq> NUL" "\<not> host_char CHR '':''"
  by (simp_all add: NUL_def host_char_def)

lemma slash_no_digit: "\<not> digit_value CHR ''/'' < 10" "\<not> isdigit CHR ''/''"
  by (simp_all add: digit_value_def isdigit_def islower_def isupper_def byte_of_def)

text \<open>
  The three kinds of hosts: a dotted name whose last part starts with a digit is read as an IPv4 address,
  another name is given to the resolver, and an IPv6 address stands in brackets.
\<close>

definition host_is :: "net_env \<Rightarrow> string \<Rightarrow> family \<Rightarrow> nat list \<Rightarrow> bool" where
  "host_is env h fam a =
     (if h \<noteq> [] \<and> hd h = CHR ''['' then
        fam = AF_INET6 \<and> last h = CHR '']'' \<and> 2 \<le> length h \<and> CHR '']'' \<notin> set (butlast h) \<and> NUL \<notin> set h \<and>
        inet_pton6 env (butlast (tl h)) = Some a
      else
        list_all host_char h \<and>
        (if (case after_last_dot h of None \<Rightarrow> False | Some d \<Rightarrow> isdigit d)
         then fam = AF_INET \<and> inet_pton4 env h = Some a
         else getaddrinfo env h = Some (fam, a)))"

lemma split_host_kind:
  assumes h: "host_is env h fam a"
  shows "\<exists>af name. split_host (h @ '':'' @ q) = Some (af, name, True, length h + 1) \<and>
     (case af of AF_INET \<Rightarrow> fam = AF_INET \<and> inet_pton4 env name = Some a
      | AF_INET6 \<Rightarrow> fam = AF_INET6 \<and> inet_pton6 env name = Some a | AF_UNSPEC \<Rightarrow> getaddrinfo env name = Some (fam, a)) \<and>
     NUL \<notin> set h"
proof (cases "h \<noteq> [] \<and> hd h = CHR ''[''")
  case True
  obtain b where f: "fam = AF_INET6" "h = CHR ''['' # b @ '']''" "CHR '']'' \<notin> set b" "NUL \<notin> set h" "inet_pton6 env b = Some a"
  proof -
    obtain t where t0: "h = CHR ''['' # t" using True by (cases h) auto
    have t1: "t \<noteq> []" using h unfolding t0 by (auto simp: host_is_def)
    note t = t0 t1
    then have "h = CHR ''['' # butlast (tl h) @ '']''" using h append_butlast_last_id [of t] by (simp add: host_is_def)
    with t h show ?thesis using that [of "butlast (tl h)"] by (simp add: host_is_def)
  qed
  have tw: "takeWhile (\<lambda>c. c \<noteq> CHR '']'') (tl (h @ '':'' @ q)) = b"
    using f(3) by (simp add: f(2) takeWhile_tail takeWhile_append)
  have a1: "at (h @ '':'' @ q) (1 + length b) = CHR '']''"
    by (simp add: f(2) at_def)
  have a2: "at (h @ '':'' @ q) (1 + length b + 1) = CHR '':''"
    by (simp add: f(2) at_def nth_append)
  have a0: "at (h @ '':'' @ q) 0 = CHR ''[''" by (simp add: f(2) at_def)
  have "split_host (h @ '':'' @ q) = Some (AF_INET6, b, True, length h + 1)"
    unfolding split_host_def Let_def tw a0 a1 a2 if_P [OF refl] by (simp add: NUL_def f(2))
  then show ?thesis using f(1,4,5) by (intro exI [of _ AF_INET6] exI [of _ b]) simp
next
  case False
  let ?af = "case after_last_dot h of Some d \<Rightarrow> if isdigit d then AF_INET else AF_UNSPEC | None \<Rightarrow> AF_UNSPEC"
  have hc: "\<forall>c\<in>set h. host_char c" using h False by (auto simp: host_is_def list_all_iff)
  have nul: "NUL \<notin> set h" using hc host_char_ne by blast
  have tw: "takeWhile host_char (h @ '':'' @ q) = h" using hc colon_ne by (simp add: takeWhile_append)
  have br: "at (h @ '':'' @ q) 0 \<noteq> CHR ''[''" using False by (cases h) (auto simp: at_def)
  have atc: "at (h @ '':'' @ q) (length h) = CHR '':''" by (simp add: at_def nth_append)
  have sp: "split_host (h @ '':'' @ q) = Some (?af, h, True, length h + 1)"
    unfolding split_host_def if_not_P [OF br] Let_def tw atc by simp
  show ?thesis using h False sp nul
    by (intro exI [of _ ?af] exI [of _ h]) (auto simp: host_is_def split: option.splits if_splits)
qed

lemma parse_hostport_reads:
  assumes h: "host_is env h fam a"
    and p: "p \<noteq> []" "\<forall>c \<in> set p. isdigit c" "fst (digits_value 10 0 p) = w" "w < 2 ^ 63" "v = w mod 65536" "0 < v"
    and r: "r = [] \<or> hd r = CHR ''/''" and len: "length h + length p < 254" and off: "drop off s = h @ '':'' @ p @ r"
  shows "parse_hostport env s off dp =
    (int (length h + 1 + length p),
     \<lparr>hp_text = \<lparr>buff = Some off, tk_size = length h + 1 + length p\<rparr>, ss_family = fam, ip_addr = a, ip_port = v\<rparr>)"
proof -
  let ?n = "254 - (length h + length p)"
  define r' where r': "r' = takeWhile (\<lambda>c. c \<noteq> NUL) r"
  let ?w = "h @ '':'' @ p @ take ?n r'"
  obtain af name where k: "split_host ?w = Some (af, name, True, length h + 1)"
    "case af of AF_INET \<Rightarrow> fam = AF_INET \<and> inet_pton4 env name = Some a
      | AF_INET6 \<Rightarrow> fam = AF_INET6 \<and> inet_pton6 env name = Some a | AF_UNSPEC \<Rightarrow> getaddrinfo env name = Some (fam, a)"
    "NUL \<notin> set h" using split_host_kind [OF h] by blast
  have pn: "\<forall>c \<in> set p. c \<noteq> NUL" using p(2) by (auto simp: isdigit_def)
  have hn: "\<forall>c \<in> set h. c \<noteq> NUL" using k(3) by auto
  have tw0: "takeWhile (\<lambda>c. c \<noteq> NUL) (drop off s) = h @ '':'' @ p @ r'"
    unfolding off r' using hn pn colon_ne(1) by (simp add: takeWhile_append)
  have w: "take 255 (takeWhile (\<lambda>c. c \<noteq> NUL) (drop off s)) = ?w"
    unfolding tw0 using len by (auto simp: take_Cons')
  have dr: "drop (length h + 1) ?w = p @ take ?n r'" by simp
  have "r' = [] \<or> hd r' = CHR ''/''" using r by (cases r) (auto simp: r')
  then have "take ?n r' = [] \<or> hd (take ?n r') = CHR ''/''" by (cases r'; cases ?n) auto
  then have tr: "take ?n r' = [] \<or> \<not> digit_value (hd (take ?n r')) < 10" "takeWhile isdigit (p @ take ?n r') = p"
    using p(2) slash_no_digit by (auto simp: takeWhile_append takeWhile_eq_Nil_iff)
  have "strtol (p @ take ?n r') 10 = (int w, length p, False)"
    using strtol_digits [OF p(1,2) tr(1)] p(3,4) by simp
  moreover have "int w mod 65536 = int v" using p(5) by (simp add: zmod_int)
  ultimately show ?thesis
    using w k(1,2) dr tr(2) p(6) by (cases af) (simp_all add: parse_hostport_def Let_def)
qed

lemma drop_length_append: "drop (length x) (x @ r) = r"
  by simp

lemma drop_url: "drop (8 + length h + length p) (''http://'' @ h @ '':'' @ p @ r) = r"
proof -
  let ?x = "''http://'' @ h @ '':'' @ p"
  have "''http://'' @ h @ '':'' @ p @ r = ?x @ r" "8 + length h + length p = length ?x" by simp_all
  moreover have "drop (length ?x) (?x @ r) = r" by (rule drop_length_append)
  ultimately show ?thesis by (simp only:)
qed

lemma parse_http_url:
  assumes h: "host_is env h fam a"
    and p: "p \<noteq> []" "\<forall>c \<in> set p. isdigit c" "fst (digits_value 10 0 p) = w" "w < 2 ^ 63" "v = w mod 65536" "0 < v"
    and r: "r = CHR ''/'' # q" "\<forall>c \<in> set r. uric c"
    and z: "z = [] \<or> \<not> uric (hd z) \<and> hd z \<noteq> CHR ''%'' \<and> hd z \<noteq> CHR ''#''"
    and len: "length h + length p < 254" "length r + length z < 2 ^ 63" and s: "s = ''http://'' @ h @ '':'' @ p @ r @ z"
  shows "parse_uri env s (length s) = (HTTP_SUCCESS, Some
    \<lparr>u_type = ABSOLUTE, scheme = \<lparr>buff = Some 0, tk_size = 4\<rparr>, path_type = ABS_PATH,
     pathquery = \<lparr>buff = Some (8 + length h + length p), tk_size = length r\<rparr>, fragment = no_token,
     hostport = \<lparr>hp_text = \<lparr>buff = Some 7, tk_size = length h + 1 + length p\<rparr>, ss_family = fam,
                  ip_addr = a, ip_port = v\<rparr>\<rparr>)"
proof -
  let ?b = "8 + length h + length p" and ?hp = "\<lparr>hp_text = \<lparr>buff = Some 7, tk_size = length h + 1 + length p\<rparr>,
    ss_family = fam, ip_addr = a, ip_port = v\<rparr>"
  have ls: "length s = ?b + length r + length z" using s by simp
  have sc: "parse_scheme s (length s) = (4, \<lparr>buff = Some 0, tk_size = 4\<rparr>)"
  proof -
    let ?x = "''//'' @ h @ '':'' @ p @ r @ z"
    have "s = ''http:'' @ ?x" "length s = 5 + length ?x" using s by simp_all
    then show ?thesis by (simp only: http_scheme)
  qed
  have sl: "5 + 1 < length s" "at s 5 = CHR ''/''" "at s (5 + 1) = CHR ''/''"
    using s by (auto simp: at_def nth_Cons')
  have hp: "parse_hostport env s 7 dp = (int (length h + 1 + length p), ?hp)" for dp
    by (rule parse_hostport_reads [OF h p _ len(1), where r = "r @ z"]) (use r(1) s in simp_all)
  have dr: "drop ?b s = r @ z" using drop_url [of h p "r @ z"] s by simp
  have at_b: "at s ?b = CHR ''/''" using at_drop [of ?b s 0] dr r(1) by simp
  have sz: "size_sub (length s) ?b = length r + length z" using ls len by simp
  have at_z: "at s (length r + ?b) = (if z = [] then NUL else hd z)"
  proof -
    have "at s (?b + length r) = at (r @ z) (length r)" unfolding dr [symmetric] at_def using ls by auto
    then show ?thesis by (cases z) (simp_all add: add.commute at_def nth_append)
  qed
  have ne: "NUL \<noteq> CHR ''#''" by (simp add: NUL_def)
  have "length r = length r + length z \<or> \<not> uric (at s (?b + length r)) \<and> \<not> is_escaped s (?b + length r)"
    using z at_z by (cases z) (auto simp: is_escaped_def add.commute)
  then have "uric_loop s ?b (length r + length z) 0 = length r"
    by (intro uric_loop_stops) (use dr r(2) ls in simp_all)
  moreover have "size_add (length r) ?b = length r + ?b" using ls len by (intro size_add_small) simp
  ultimately have "parse_uri_path s (length s) ABSOLUTE OPAQUE_PART \<lparr>buff = Some 0, tk_size = 4\<rparr> ?hp ?b =
    \<lparr>u_type = ABSOLUTE, scheme = \<lparr>buff = Some 0, tk_size = 4\<rparr>, path_type = ABS_PATH,
     pathquery = \<lparr>buff = Some ?b, tk_size = length r\<rparr>, fragment = no_token, hostport = ?hp\<rparr>"
    using sz at_b ls r(1) at_z z ne by (auto simp: parse_uri_path_def parse_uric_def Let_def)
  moreover have "path_index (to_int32 (int (length h + 1 + length p) + to_int32 (int 7))) = ?b"
    using len(1) by (subst path_index_sum) simp_all
  moreover have "size_add 4 1 = 5" "size_add 5 1 = 5 + 1" "size_add 5 2 = 7" by simp_all
  ultimately show ?thesis
    using sc sl hp by (simp add: parse_uri_def Let_def)
qed

text \<open>An absolute path alone.\<close>

lemma parse_path:
  assumes s: "s = CHR ''/'' # q" "\<forall>c \<in> set s. uric c" "q = [] \<or> hd q \<noteq> CHR ''/''" and len: "length s < 2 ^ 31"
  shows "parse_uri env s (length s) = (HTTP_SUCCESS, Some
    \<lparr>u_type = RELATIVE, scheme = no_token, path_type = ABS_PATH, pathquery = \<lparr>buff = Some 0, tk_size = length s\<rparr>,
     fragment = no_token, hostport = no_hostport\<rparr>)"
proof -
  have "\<not> isalpha CHR ''/''" by (simp add: ctype_defs byte_of_def)
  then have sc: "parse_scheme s (length s) = (0, no_token)" using s(1) by (simp add: parse_scheme_def at_def)
  have "at s 1 \<noteq> CHR ''/''" using s(1,3) by (cases q) (auto simp: at_def NUL_def)
  moreover have u: "uric_loop s 0 (length s) 0 = length s" by (rule uric_loop_stops) (use s(2) in simp_all)
  moreover have "path_index (to_int32 0) = 0" using path_index_small [of 0] by simp
  moreover have "size_add (length s) 0 = length s" "size_sub (length s) 0 = length s" using len by simp_all
  moreover have "at s 0 = CHR ''/''" "length s \<noteq> 0" using s(1) by (simp_all add: at_def)
  ultimately show ?thesis
    unfolding parse_uri_def sc Let_def prod.case by (simp add: parse_uri_path_def parse_uric_def Let_def)
qed

section \<open>Properties\<close>

text \<open>
  C32. \<open>remove_escaped_chars\<close> on a whole C string ends and leaves exactly the decoded string: every
  escape of the original is replaced once, what a replacement produces is not decoded again, and
  the bytes behind the result are NUL.
\<close>

theorem remove_escaped_decodes:
  assumes "length s < 2 ^ 64"
  shows "\<exists>s' n. remove_escaped_chars s (length s) = Some (UPNP_E_SUCCESS, s', n) \<and> length s' = length s \<and>
    take n s' = unescape s \<and> (\<forall>k \<ge> n. at s' k = NUL)"
  using remove_escaped_loop_ok [of "length s" s 0] assms by (auto simp: remove_escaped_chars_def)

theorem remove_escaped_decodes_witness:
  "\<exists>s' n. remove_escaped_chars ''a%2541%4'' (length ''a%2541%4'') = Some (UPNP_E_SUCCESS, s', n) \<and>
     take n s' = ''a%41%4''"
proof -
  have "unescape ''a%2541%4'' = ''a%41%4''" "length ''a%2541%4'' < 2 ^ 64" by code_simp simp
  then show ?thesis using remove_escaped_decodes [of "''a%2541%4''"] by auto
qed

text \<open>
  C12. \<open>remove_dots\<close>, which works in place on one buffer, ends and computes what the algorithm of RFC
  3986, section 5.2.4, computes with separate buffers, for every string.
\<close>

theorem remove_dots_is_rfc3986:
  "remove_dots buf (length buf) = Some (UPNP_E_SUCCESS, rfc_remove buf [])"
  by (rule remove_dots_rfc)

text \<open>
  C29. On an absolute path \<open>remove_dots\<close> resolves the segments, a dot standing for nothing and two
  dots for taking the last segment back, and never leaves the root; query and fragment are kept.
  The resulting path has no dot segment left, which the web server relies on to serve only files
  below its root.
\<close>

theorem remove_dots_resolves:
  assumes "\<forall>s \<in> set ss. segment s" "stops r"
  shows "remove_dots (path_of ss @ r) (length (path_of ss @ r)) =
      Some (UPNP_E_SUCCESS, path_of (resolve_segments [] ss) @ r) \<and>
    set (resolve_segments [] ss) \<inter> {''.'', ''..''} = {}"
  using rfc_remove_segments [of "[]" ss r] assms resolve_segments_clean [of "[]" ss]
    remove_dots_rfc [of "path_of ss @ r"] by simp

theorem remove_dots_resolves_witness:
  "remove_dots ''/a/../../b/.?x'' (length ''/a/../../b/.?x'') = Some (UPNP_E_SUCCESS, ''/b/?x'')"
  using remove_dots_resolves [of "[''a'', ''..'', ''..'', ''b'', ''.'']" "''?x''"]
  by (simp add: segment_def stops_def is_end_path_def NUL_def)

text \<open>
  C30. Parsing a C string shorter than $2^{31}$ characters as a URI never points outside it: each token of the
  result (scheme, host and port, path with query, fragment) lies in the string, whatever the resolver
  answers; the only error reported is an invalid URL. The bound is needed because the code keeps the start
  of the path in an \<open>int\<close>, see \<open>long_scheme_out_of_bounds\<close>.
\<close>

theorem parse_uri_in_bounds:
  assumes "length s < 2 ^ 31" "parse_uri env s (length s) = (rc, u)"
  shows "case u of None \<Rightarrow> rc = UPNP_E_INVALID_URL
    | Some v \<Rightarrow> rc = HTTP_SUCCESS \<and> in_string s (scheme v) \<and> in_string s (hp_text (hostport v)) \<and>
        in_string s (pathquery v) \<and> in_string s (fragment v)"
  using assms by (rule parse_uri_tokens)

definition demo_env :: net_env where
  "demo_env = \<lparr>getaddrinfo = (\<lambda>n. if n = ''a.bc'' then Some (AF_INET, [10, 0, 0, 2]) else None),
     inet_pton4 = (\<lambda>_. Some [10, 0, 0, 1]), inet_pton6 = (\<lambda>_. Some (replicate 15 0 @ [1]))\<rparr>"

theorem parse_uri_in_bounds_witness:
  "\<exists>rc u. parse_uri demo_env ''http://10.0.0.1:80/a#b'' (length ''http://10.0.0.1:80/a#b'') = (rc, u) \<and>
     (u = None \<longrightarrow> rc = UPNP_E_INVALID_URL) \<and>
     (\<forall>v. u = Some v \<longrightarrow> in_string ''http://10.0.0.1:80/a#b'' (pathquery v))"
proof -
  obtain rc u where p: "parse_uri demo_env ''http://10.0.0.1:80/a#b'' (length ''http://10.0.0.1:80/a#b'') = (rc, u)"
    by fastforce
  have l: "length ''http://10.0.0.1:80/a#b'' < 2 ^ 31" by simp
  show ?thesis using parse_uri_in_bounds [OF l p] p by (auto split: option.splits)
qed

text \<open>
  C31. Reading back a URL: in \<open>http://host:port/path\<close> the parser finds exactly these parts, the address of the
  host and the number of the port. The host is a dotted name that \<open>inet_pton\<close> reads as an IPv4 address, a
  name \<open>getaddrinfo\<close> resolves, or an IPv6 address in brackets; host and port have fewer than 254
  characters, the port is a number from 1 to 65535, and the path has no escapes.
\<close>

theorem parse_uri_roundtrip:
  assumes "host_is env h fam a"
    and "p \<noteq> []" "\<forall>c \<in> set p. isdigit c" "fst (digits_value 10 0 p) = v" "0 < v" "v < 65536"
    and "r = CHR ''/'' # q" "\<forall>c \<in> set r. uric c"
    and "length h + length p < 254" "length r < 2 ^ 63" "s = ''http://'' @ h @ '':'' @ p @ r"
  shows "\<exists>u. parse_uri env s (length s) = (HTTP_SUCCESS, Some u) \<and> u_type u = ABSOLUTE \<and> path_type u = ABS_PATH \<and>
    tok_str s (scheme u) = ''http'' \<and> tok_str s (hp_text (hostport u)) = h @ '':'' @ p \<and>
    tok_str s (pathquery u) = r \<and> tok_str s (fragment u) = [] \<and> ss_family (hostport u) = fam \<and> ip_addr (hostport u) = a \<and> ip_port (hostport u) = v"
proof -
  have "drop (8 + length h + length p) s = r" using drop_url [of h p r] assms(11) by simp
  moreover have "take (Suc (length h + length p)) (drop 7 s) = h @ '':'' @ p" "take 4 s = ''http''"
    using assms(11) by simp_all
  ultimately show ?thesis
    using parse_http_url [OF assms(1-4) _ _ _ assms(7,8), of v "[]" s] assms(5,6,9-11) by (simp add: tok_str_def no_token_def)
qed

lemma demo_hosts:
  "host_is demo_env ''10.0.0.1'' AF_INET [10, 0, 0, 1]" "host_is demo_env ''a.bc'' AF_INET [10, 0, 0, 2]"
  "host_is demo_env ''[::1]'' AF_INET6 (replicate 15 0 @ [1])"
  by (simp_all add: host_is_def demo_env_def host_char_def ctype_defs byte_of_def NUL_def)

lemma demo_path: "\<forall>c \<in> set ''/a''. uric c" "\<forall>c \<in> set ''8080''. isdigit c" "fst (digits_value 10 0 ''8080'') = 8080"
  by (simp_all add: uric_def is_unreserved_def is_reserved_def RESERVED_def ctype_defs byte_of_def NUL_def digit_value_def)

theorem parse_uri_roundtrip_witness:
  "\<exists>u1 u2 u3. parse_uri demo_env (''http://'' @ ''10.0.0.1'' @ '':'' @ ''8080'' @ ''/a'')
       (length (''http://'' @ ''10.0.0.1'' @ '':'' @ ''8080'' @ ''/a'')) = (HTTP_SUCCESS, Some u1) \<and>
     parse_uri demo_env (''http://'' @ ''a.bc'' @ '':'' @ ''8080'' @ ''/a'')
       (length (''http://'' @ ''a.bc'' @ '':'' @ ''8080'' @ ''/a'')) = (HTTP_SUCCESS, Some u2) \<and>
     parse_uri demo_env (''http://'' @ ''[::1]'' @ '':'' @ ''8080'' @ ''/a'')
       (length (''http://'' @ ''[::1]'' @ '':'' @ ''8080'' @ ''/a'')) = (HTTP_SUCCESS, Some u3) \<and>
     ip_port (hostport u1) = 8080 \<and> ip_addr (hostport u2) = [10, 0, 0, 2] \<and> ss_family (hostport u3) = AF_INET6"
proof -
  note rt = parse_uri_roundtrip [OF _ _ demo_path(2,3) _ _ _ demo_path(1)]
  obtain u1 where "parse_uri demo_env (''http://'' @ ''10.0.0.1'' @ '':'' @ ''8080'' @ ''/a'')
       (length (''http://'' @ ''10.0.0.1'' @ '':'' @ ''8080'' @ ''/a'')) = (HTTP_SUCCESS, Some u1)" "ip_port (hostport u1) = 8080"
    using rt [OF demo_hosts(1) _ _ _ _ _ _ refl] by auto
  moreover obtain u2 where "parse_uri demo_env (''http://'' @ ''a.bc'' @ '':'' @ ''8080'' @ ''/a'')
       (length (''http://'' @ ''a.bc'' @ '':'' @ ''8080'' @ ''/a'')) = (HTTP_SUCCESS, Some u2)" "ip_addr (hostport u2) = [10, 0, 0, 2]"
    using rt [OF demo_hosts(2) _ _ _ _ _ _ refl] by auto
  moreover obtain u3 where "parse_uri demo_env (''http://'' @ ''[::1]'' @ '':'' @ ''8080'' @ ''/a'')
       (length (''http://'' @ ''[::1]'' @ '':'' @ ''8080'' @ ''/a'')) = (HTTP_SUCCESS, Some u3)" "ss_family (hostport u3) = AF_INET6"
    using rt [OF demo_hosts(3) _ _ _ _ _ _ refl] by auto
  ultimately show ?thesis by blast
qed

text \<open>
  Port numbers are not checked: a port above 65535 is reduced modulo 65536, so that
  \<open>:65616\<close> is read as port 80.
\<close>

theorem port_wraps_around:
  "\<exists>u. parse_uri demo_env (''http://'' @ ''10.0.0.1'' @ '':'' @ ''65616'' @ ''/a'')
       (length (''http://'' @ ''10.0.0.1'' @ '':'' @ ''65616'' @ ''/a'')) = (HTTP_SUCCESS, Some u) \<and> ip_port (hostport u) = 80"
proof -
  have "\<forall>c \<in> set ''65616''. isdigit c" "fst (digits_value 10 0 ''65616'') = 65616"
    by (simp_all add: digit_value_def isdigit_def byte_of_def)
  then show ?thesis
    using parse_http_url [OF demo_hosts(1), of "''65616''" 65616 80 "''/a''" "''a''" "[]"] demo_path(1) by auto
qed

end
