(* ===== verification/Gena_Props.thy ===== *)
theory Gena_Props
  imports Gena_Sections Uri_Props
begin

text \<open>
  The system: calls of the device, requests of control points and thread jobs in any order, interleaved
  between their sections. Messages are logged when the first section of the thread job has made the copy
  they are sent with. What holds in every reachable state.
\<close>

section \<open>The system\<close>

text \<open>
  \<open>sending\<close> are the jobs between their sections with the copies they send to, \<open>sent\<close> is the log of messages (SID,
  event key, text), \<open>issued\<close> are the SIDs given out.
\<close>

record gena_system =
  sdk :: upnp
  sending :: "(addr \<times> subscription) list"
  sent :: log
  issued :: "string set"

text \<open>
  What can happen: an event for all subscribers, the first event of a subscription, the first and the second
  section of a job (the position in the pool or among those being sent), requests, unregistering, and steps of
  the rest of the library. The environment of each step is part of it; the first argument of \<open>Notify\<close> and of
  \<open>Accept_First\<close> says whether the allocations before the lock succeed.
\<close>

datatype gena_action =
    Notify bool "nat \<Rightarrow> notify_env" int string string string
  | Accept_First bool bool notify_env int string string string string
  | Job_Starts bool int nat
  | Job_Ends int int int nat
  | Subscribe net_env interface request_env gena_request
  | Renew net_env request_env gena_request
  | Unsubscribe net_env request_env gena_request
  | Unregister int
  | Other upnp

definition without :: "nat \<Rightarrow> 'a list \<Rightarrow> 'a list" where
  "without k xs = take k xs @ drop (Suc k) xs"

text \<open>The step; \<open>None\<close> is a fault.\<close>

fun run_action :: "gena_action \<Rightarrow> gena_system \<Rightarrow> gena_system option" where
  "run_action (Notify pre_ok e h udn servId ps) s =
     map_option (\<lambda>(r, st). s\<lparr>sdk := st\<rparr>) (genaNotifyAllCommon pre_ok e (sdk s) h udn servId ps)"
| "run_action (Accept_First pre_ok headers_ok e h udn servId ps x) s =
     map_option (\<lambda>(r, st). s\<lparr>sdk := st\<rparr>) (genaInitNotifyCommon pre_ok headers_ok e (sdk s) h udn servId (Some ps) x)"
| "run_action (Job_Starts malloc_ok now k) s =
     (let pool = gSendThreadPool (sdk s); a = arg (pool ! k); st = (sdk s)\<lparr>gSendThreadPool := without k pool\<rparr> in
      do {
        n \<leftarrow> structs (events st) a;
        (r, st1) \<leftarrow> genaNotifyThread_begin malloc_ok now st a;
        Some (case r of None \<Rightarrow> s\<lparr>sdk := st1\<rparr>
          | Some copy \<Rightarrow> s\<lparr>sdk := st1, sending := sending s @ [(a, copy)],
              sent := sent s @ [(sid copy, ToSendEventKey copy, reference_count n)]\<rparr>)
      })"
| "run_action (Job_Ends add_ret now return_code k) s =
     map_option (\<lambda>(r, st). s\<lparr>sdk := st, sending := without k (sending s)\<rparr>)
       (genaNotifyThread_end add_ret now return_code (sdk s) (fst (sending s ! k)))"
| "run_action (Subscribe env gif e rq) s =
     map_option (\<lambda>(r, st). s\<lparr>sdk := st, issued := insert (''uuid:'' @ new_uuid e) (issued s)\<rparr>)
       (gena_process_subscription_request env gif e (sdk s) rq)"
| "run_action (Renew env e rq) s =
     map_option (\<lambda>(r, st). s\<lparr>sdk := st\<rparr>) (gena_process_subscription_renewal_request env e (sdk s) rq)"
| "run_action (Unsubscribe env e rq) s =
     map_option (\<lambda>(r, st). s\<lparr>sdk := st\<rparr>) (gena_process_unsubscribe_request env e (sdk s) rq)"
| "run_action (Unregister h) s = map_option (\<lambda>(r, st). s\<lparr>sdk := st\<rparr>) (genaUnregisterDevice (sdk s) h)"
| "run_action (Other st) s = Some (s\<lparr>sdk := st\<rparr>)"

text \<open>
  What is assumed of the environment, for every step of a run:
  the list node of an event can be allocated (without it the code leaves a job that points to freed memory, or
  sends two events in parallel, see \<open>accept_without_node\<close>); the UUID of a new subscription was not given out
  before and has 36 characters; the bytes behind the CALLBACK header are the same in both passes; a job that
  starts is in the pool, and one that ends was started; other parts of the library leave the eventing alone.
  Failing allocations before the lock and a second unregistering of a device are not excluded.
\<close>

definition allowed :: "gena_action \<Rightarrow> gena_system \<Rightarrow> bool" where
  "allowed act s =
     (case act of
        Notify pre_ok e h udn servId ps \<Rightarrow> \<forall>k. node_ok (e k)
      | Accept_First pre_ok headers_ok e h udn servId ps x \<Rightarrow> node_ok e
      | Job_Starts malloc_ok now k \<Rightarrow> k < length (gSendThreadPool (sdk s))
      | Job_Ends add_ret now return_code k \<Rightarrow> k < length (sending s)
      | Subscribe env gif e rq \<Rightarrow>
          ''uuid:'' @ new_uuid e \<notin> issued s \<and> length (new_uuid e) = 36 \<and> fst (stray_bytes e) = snd (stray_bytes e)
      | Renew env e rq \<Rightarrow> True
      | Unsubscribe env e rq \<Rightarrow> True
      | Unregister h \<Rightarrow> True
      | Other st \<Rightarrow> unrelated (sdk s) st)"

text \<open>
  The two ways in which a step goes wrong nevertheless: an allocation before the lock fails, and the exit of the
  function releases a lock it does not hold; or a device is unregistered again, and the base URL of its
  service table is freed a second time.
\<close>

definition early_failure :: "gena_action \<Rightarrow> bool" where
  "early_failure act =
     (case act of Notify pre_ok e h udn servId ps \<Rightarrow> \<not> pre_ok
      | Accept_First pre_ok headers_ok e h udn servId ps x \<Rightarrow> \<not> pre_ok | _ \<Rightarrow> False)"

definition freed_twice :: "gena_action \<Rightarrow> gena_system \<Rightarrow> bool" where
  "freed_twice act s =
     (case act of
        Unregister h \<Rightarrow>
          (case slot (sdk s) h of None \<Rightarrow> False
           | Some info \<Rightarrow> HType info = HND_DEVICE \<and> URLBase (ServiceTable info) \<noteq> None \<and> URLBase_freed (ServiceTable info))
      | _ \<Rightarrow> False)"

text \<open>At the start nothing is queued and no message was sent; there may be subscriptions.\<close>

definition initial :: "gena_system \<Rightarrow> bool" where
  "initial s \<longleftrightarrow> \<not> locked (sdk s) \<and> tables_wf (sdk s) \<and> structs (events (sdk s)) = Map.empty \<and>
     texts (events (sdk s)) = Map.empty \<and> gSendThreadPool (sdk s) = [] \<and> sending s = [] \<and> sent s = [] \<and>
     distinct (map (sid \<circ> snd) (csubs (sdk s))) \<and>
     (\<forall>x\<in>set (csubs (sdk s)). sid (snd x) \<in> issued s \<and> length (sid (snd x)) = SID_SIZE \<and>
        ToSendEventKey (snd x) = 0 \<and> outgoing (snd x) = [])"

inductive gena_reachable :: "gena_system \<Rightarrow> bool" where
  start: "initial s \<Longrightarrow> gena_reachable s"
| step: "gena_reachable s \<Longrightarrow> allowed act s \<Longrightarrow> run_action act s = Some s' \<Longrightarrow> gena_reachable s'"

section \<open>The invariant\<close>

definition sys_inv :: "gena_system \<Rightarrow> bool" where
  "sys_inv s \<longleftrightarrow> inv (sdk s) (map fst (sending s)) (sent s) (issued s)"

lemma initial_inv:
  assumes "initial s"
  shows "sys_inv s"
proof -
  have v: "view (events (sdk s)) = Map.empty" using assms by (simp add: initial_def view_def fun_eq_iff)
  have hw: "hwf (events (sdk s))" using assms by (simp add: initial_def hwf_def)
  have "concat (map (tail_args \<circ> snd) (csubs (sdk s))) = []" using assms by (simp add: initial_def tail_args_def)
  then have "owned [] [] (csubs (sdk s)) = []" unfolding owned_def by simp
  then have "J (view (events (sdk s))) (ev_brk (events (sdk s))) [] [] [] (issued s) (csubs (sdk s))"
    using assms by (simp add: J_def log_ok_def v keys_of_def texts_of_def initial_def ok_sub_def queue_ok_def
        loc_def those_def key_seq_def)
  then show ?thesis using assms hw by (simp add: sys_inv_def inv_def core_def initial_def)
qed

lemma without_split: "k < length xs \<Longrightarrow> xs = take k xs @ xs ! k # drop (Suc k) xs"
  by (rule id_take_nth_drop)

lemma runs_step:
  assumes "runs res (map fst (sending s')) (sent s') (issued s')"
  shows "\<exists>s1. map_option (\<lambda>(r, st). s'\<lparr>sdk := st\<rparr>) res = Some s1 \<and> sys_inv s1"
  using assms by (auto simp: runs_def sys_inv_def)

lemma job_starts_ok:
  assumes i: "sys_inv s" and k: "k < length (gSendThreadPool (sdk s))"
  shows "\<exists>s'. run_action (Job_Starts malloc_ok now k) s = Some s' \<and> sys_inv s'"
proof -
  let ?pool = "gSendThreadPool (sdk s)"
  let ?a = "arg (?pool ! k)" and ?P1 = "map arg (take k ?pool)" and ?P2 = "map arg (drop (Suc k) ?pool)"
  let ?st = "(sdk s)\<lparr>gSendThreadPool := without k ?pool\<rparr>"
  have p: "map arg ?pool = ?P1 @ ?a # ?P2" by (subst without_split [OF k]) simp
  have c: "core (sdk s) (?P1 @ ?a # ?P2) (map fst (sending s)) (sent s) (issued s)" and l: "\<not> locked (sdk s)"
    using i unfolding sys_inv_def inv_def p by simp_all
  have c': "core ?st (?P1 @ ?a # ?P2) (map fst (sending s)) (sent s) (issued s)"
    using c core_cong [of ?st "sdk s"] by simp
  have l': "\<not> locked ?st" using l by simp
  obtain r st1 where b: "genaNotifyThread_begin malloc_ok now ?st ?a = Some (r, st1)" "\<not> locked st1"
    "gSendThreadPool st1 = gSendThreadPool ?st"
    "case r of None \<Rightarrow> core st1 (?P1 @ ?P2) (map fst (sending s)) (sent s) (issued s)
     | Some copy \<Rightarrow> \<exists>n. structs (events ?st) ?a = Some n \<and>
         core st1 (?P1 @ ?P2) (map fst (sending s) @ [?a])
           (sent s @ [(sid copy, ToSendEventKey copy, reference_count n)]) (issued s)"
    using genaNotifyThread_begin_ok [OF c' l', of malloc_ok now] by blast
  have j: "J (view (events (sdk s))) (ev_brk (events (sdk s))) (?P1 @ ?a # ?P2) (map fst (sending s)) (sent s) (issued s) (csubs (sdk s))"
    using c by (simp add: core_def)
  have "view (events (sdk s)) ?a \<noteq> None" using J_D(2) [OF j] by (simp add: owned_def)
  then obtain n where n: "structs (events (sdk s)) ?a = Some n"
    using view_struct(2) [of "events (sdk s)" ?a] c by (auto simp: core_def)
  show ?thesis
    using b n by (cases r) (auto simp: Let_def sys_inv_def inv_def without_def)
qed

lemma job_ends_ok:
  assumes i: "sys_inv s" and k: "k < length (sending s)"
  shows "\<exists>s'. run_action (Job_Ends add_ret now return_code k) s = Some s' \<and> sys_inv s'"
proof -
  let ?a = "fst (sending s ! k)" and ?S1 = "map fst (take k (sending s))" and ?S2 = "map fst (drop (Suc k) (sending s))"
  have p: "map fst (sending s) = ?S1 @ ?a # ?S2" by (subst without_split [OF k]) simp
  have "core (sdk s) (map arg (gSendThreadPool (sdk s))) (?S1 @ ?a # ?S2) (sent s) (issued s)" "\<not> locked (sdk s)"
    using i unfolding sys_inv_def inv_def p by simp_all
  from genaNotifyThread_end_ok [OF this, of add_ret now return_code] show ?thesis
    by (auto simp: runs_def sys_inv_def without_def)
qed

text \<open>An allowed step either goes wrong in one of the two ways, or it runs and keeps the invariant.\<close>

lemma faults:
  assumes i: "sys_inv s" and f: "early_failure act \<or> freed_twice act s"
  shows "run_action act s = None"
proof -
  have l: "\<not> locked (sdk s)" using i by (simp add: sys_inv_def inv_def)
  show ?thesis
  proof (cases act)
    case (Notify pre_ok e h udn servId ps)
    then show ?thesis using f l
      by (simp add: early_failure_def freed_twice_def genaNotifyAllCommon_def leave_def HandleUnlock_def)
  next
    case (Accept_First pre_ok headers_ok e h udn servId ps x)
    then show ?thesis using f l
      by (simp add: early_failure_def freed_twice_def genaInitNotifyCommon_def leave_def HandleUnlock_def)
  next
    case (Unregister h)
    then obtain info where "slot (sdk s) h = Some info" "HType info = HND_DEVICE"
      "URLBase (ServiceTable info) \<noteq> None \<and> URLBase_freed (ServiceTable info)"
      using f by (auto simp: early_failure_def freed_twice_def split: option.splits)
    moreover have "slot (sdk s\<lparr>locked := True\<rparr>) = slot (sdk s)" by (rule table_only) simp
    ultimately show ?thesis using Unregister l
      by (simp add: genaUnregisterDevice_def HandleLock_def freeServiceTable_def)
  qed (use f in \<open>simp_all add: early_failure_def freed_twice_def\<close>)
qed

lemma step_ok:
  assumes i: "sys_inv s" and a: "allowed act s" and f: "\<not> early_failure act" "\<not> freed_twice act s"
  shows "\<exists>s'. run_action act s = Some s' \<and> sys_inv s'"
proof -
  have i': "inv (sdk s) (map fst (sending s)) (sent s) (issued s)" using i by (simp add: sys_inv_def)
  show ?thesis
  proof (cases act)
    case (Notify pre_ok e h udn servId ps)
    then show ?thesis using runs_step [OF genaNotifyAllCommon_ok [OF i']] a f
      by (simp add: allowed_def early_failure_def)
  next
    case (Accept_First pre_ok headers_ok e h udn servId ps x)
    then show ?thesis using runs_step [OF genaInitNotifyCommon_ok [OF i']] a f
      by (simp add: allowed_def early_failure_def)
  next
    case (Job_Starts malloc_ok now k)
    then show ?thesis using job_starts_ok [OF i] a by (simp add: allowed_def)
  next
    case (Job_Ends add_ret now return_code k)
    then show ?thesis using job_ends_ok [OF i] a by (simp add: allowed_def)
  next
    case (Subscribe env gif e rq)
    then show ?thesis using gena_process_subscription_request_ok [OF i', of e env gif rq] a
      by (auto simp: allowed_def runs_def sys_inv_def)
  next
    case (Renew env e rq)
    then show ?thesis using runs_step [OF gena_process_subscription_renewal_request_ok [OF i']] by simp
  next
    case (Unsubscribe env e rq)
    then show ?thesis using runs_step [OF gena_process_unsubscribe_request_ok [OF i']] by simp
  next
    case (Unregister h)
    then have "URLBase (ServiceTable info) = None \<or> \<not> URLBase_freed (ServiceTable info)"
      if "slot (sdk s) h = Some info" "HType info = HND_DEVICE" for info
      using f(2) that by (simp add: freed_twice_def)
    from runs_step [OF genaUnregisterDevice_ok [OF i' this]] show ?thesis using Unregister by simp
  next
    case (Other st)
    then show ?thesis using unrelated_ok [OF i', of st] a by (simp add: allowed_def sys_inv_def)
  qed
qed

lemma gena_reachable_inv: "gena_reachable s \<Longrightarrow> sys_inv s"
proof (induction rule: gena_reachable.induct)
  case (step s act s')
  then show ?case using step_ok faults by fastforce
qed (rule initial_inv)

section \<open>A small system\<close>

text \<open>One device with one service and one subscriber.\<close>

definition demo_sub :: subscription where
  "demo_sub = \<lparr>sid = ''uuid:'' @ replicate 36 CHR ''0'', ToSendEventKey = 0, expireTime = 0, sub_active = True,
     DeliveryURLs = \<lparr>URLs = Some ''<http://10.0.0.7/x>'', parsedURLs = []\<rparr>, outgoing = []\<rparr>"

definition demo_svc :: service_info where
  "demo_svc = \<lparr>serviceType = Some ''t'', serviceId = Some ''s'', SCPDURL = None, controlURL = None, eventURL = Some ''/e'',
     UDN = Some ''u'', svc_active = True, TotalSubscriptions = 1, subscriptionList = [demo_sub]\<rparr>"

definition demo_device :: Handle_Info where
  "demo_device = zero_info\<lparr>HType := HND_DEVICE, DeviceAf := AF_INET, ServiceTable := zero_table\<lparr>serviceList := [demo_svc]\<rparr>\<rparr>"

definition demo_sdk :: upnp where
  "demo_sdk = \<lparr>locked = False, UpnpSdkInit = 1, HandleTable = None # Some demo_device # replicate 198 None,
     UpnpSdkClientRegistered = 0, UpnpSdkDeviceRegisteredV4 = 1, UpnpSdkDeviceregisteredV6 = 0, docs = undefined,
     events = \<lparr>structs = Map.empty, texts = Map.empty, ev_brk = 3\<rparr>, gSendThreadPool = [], g_UpnpSdkEQMaxLen = 10,
     g_UpnpSdkEQMaxAge = 30, g_maxContentLength = 0\<rparr>"

definition demo_system :: gena_system where
  "demo_system = \<lparr>sdk = demo_sdk, sending = [], sent = [], issued = {sid demo_sub}\<rparr>"

definition demo_event :: gena_action where
  "demo_event = Notify True (\<lambda>k. \<lparr>struct_ok = True, job_ok = True, node_ok = True, add_rc = 0, clock = 5, discard_clock = 5, next_clock = 6\<rparr>) 1 ''u'' ''s'' ''<p/>''"

lemma demo_slot: "slot demo_sdk h = (if h = 1 then Some demo_device else None)"
  by (auto simp: slot_def demo_sdk_def NUM_HANDLE_def nth_Cons' nat_eq_iff)

lemma demo_csubs: "csubs demo_sdk = [((1, ''s'', ''u''), demo_sub)]"
proof -
  have one: "slot_subs demo_sdk (int k) = (if k = 1 then [((1, ''s'', ''u''), demo_sub)] else [])" for k
    by (auto simp: slot_subs_def demo_slot demo_device_def zero_table_def demo_svc_def svc_subs_def svc_context_def zero_info_def)
  have "[1..<NUM_HANDLE] = 1 # [2..<NUM_HANDLE]" by (simp add: NUM_HANDLE_def upt_conv_Cons numeral_2_eq_2)
  moreover have "concat (map (\<lambda>k. slot_subs demo_sdk (int k)) [2..<NUM_HANDLE]) = []" by (auto simp: one)
  ultimately show ?thesis unfolding csubs_def by (simp add: one)
qed

lemma demo_initial: "initial demo_system"
proof -
  have "tables_wf demo_sdk"
    by (auto simp: tables_wf_def demo_slot table_wf_def service_wf_def has_urls_def demo_device_def zero_table_def demo_svc_def
        demo_sub_def zero_info_def) (simp add: demo_sdk_def NUM_HANDLE_def)
  moreover have "length (sid demo_sub) = SID_SIZE" by (simp add: demo_sub_def SID_SIZE_def)
  moreover have "ToSendEventKey demo_sub = 0" "outgoing demo_sub = []" by (simp_all add: demo_sub_def)
  moreover have "\<not> locked demo_sdk" "events demo_sdk = \<lparr>structs = Map.empty, texts = Map.empty, ev_brk = 3\<rparr>"
    "gSendThreadPool demo_sdk = []" by (simp_all add: demo_sdk_def)
  ultimately show ?thesis by (simp add: initial_def demo_system_def demo_csubs)
qed

lemma demo_reachable: "gena_reachable demo_system"
  using demo_initial by (rule gena_reachable.start)

lemma demo_allowed: "allowed demo_event s"
  by (simp add: allowed_def demo_event_def)

lemma demo_harmless: "\<not> early_failure demo_event" "\<not> freed_twice demo_event s"
  by (simp_all add: early_failure_def freed_twice_def demo_event_def)

lemma demo_runs: "\<exists>s. run_action demo_event demo_system = Some s \<and> gena_reachable s"
  using step_ok [OF initial_inv [OF demo_initial] demo_allowed demo_harmless] gena_reachable.step [OF demo_reachable demo_allowed] by blast

text \<open>
  Why \<open>allowed\<close> asks for the list node of a first event: without it \<open>genaInitNotifyCommon\<close> has already given the job
  to the pool, frees the structure the job points to, and the start of the job is an access to freed memory.
\<close>

lemma accept_without_node:
  assumes r: "genaInitNotifyCommon True headers_ok e st h udn servId (Some ps) x = Some (r, st')"
    and n: "\<not> node_ok e" and ne: "gSendThreadPool st' \<noteq> gSendThreadPool st"
  shows "\<exists>a. r = UPNP_E_OUTOF_MEMORY \<and> gSendThreadPool st' = gSendThreadPool st @ [notify_job a] \<and> structs (events st') a = None"
proof -
  have fail: "init_failed c st0 t s0 = Some (r, st') \<Longrightarrow> r = c \<and> gSendThreadPool st' = gSendThreadPool st0 \<and>
      (\<forall>a. s0 = Some a \<longrightarrow> structs (events st') a = None)" for c st0 t s0
    by (auto simp: init_failed_def leave_def HandleUnlock_def release_text_def Let_def split: if_splits option.splits)
  obtain t eh where nt: "new_text (events st) \<lparr>ref_count = 0, ev_headers = AllocGenaHeaders ps, ev_propertySet = ps,
      ev_servId = servId, ev_UDN = udn\<rparr> = (t, eh)" by fastforce
  define st1 where "st1 = st\<lparr>events := eh, locked := True\<rparr>"
  note d = genaInitNotifyCommon_def Let_def nt
  have l: "HandleLock (st\<lparr>events := eh\<rparr>) = Some st1" "gSendThreadPool st1 = gSendThreadPool st"
    using r by (auto simp: d HandleLock_def st1_def split: if_splits)
  have dev: "GetHandleInfo st1 h = HND_DEVICE"
    using r ne fail l by (cases "GetHandleInfo st1 h = HND_DEVICE") (auto simp: d)
  obtain i where f: "find_service st1 h servId udn = Some (Some i)"
    using r ne fail [of _ st1] l dev by (auto simp: d bind_eq_Some_conv split: option.splits)
  obtain sub eh1 service where g: "GetSubscriptionSID (events st1) (next_clock e) x (service_at st1 h i) = Some (sub, eh1, service)"
    using r l dev f by (auto simp: d bind_eq_Some_conv)
  obtain j where s: "sub = Some j"
    using r ne fail [of _ "put_service (st1\<lparr>events := eh1\<rparr>) h i service"] l dev f g by (cases sub) (auto simp: d)
  have act: "\<not> sub_active (subscriptionList service ! j)"
    using r ne fail [of _ "put_service (st1\<lparr>events := eh1\<rparr>) h i service"] l dev f g s by (auto simp: d)
  have ok: "headers_ok \<and> struct_ok e"
    using r ne fail [of _ "put_service (put_service (st1\<lparr>events := eh1\<rparr>) h i service) h i (upd_sub service j (\<lambda>x. x\<lparr>sub_active := True\<rparr>))"]
      l dev f g s act by (cases "headers_ok \<and> struct_ok e") (auto simp: d)
  obtain y where y: "texts eh1 t = Some y" using r l dev f g s act ok by (auto simp: d bind_eq_Some_conv)
  obtain b eh2 where b: "new_struct (eh1\<lparr>texts := (texts eh1)(t \<mapsto> y\<lparr>ref_count := 1\<rparr>)\<rparr>)
      \<lparr>nt_sid = take 43 x, nt_ctime = clock e, reference_count = t, nt_handle = h\<rparr> = (b, eh2)" by fastforce
  have "add_rc e = 0"
    using r ne fail [of "pool_error (add_rc e)"] l dev f g s act ok y b by (cases "add_rc e = 0") (auto simp: d)
  then show ?thesis
    using r n fail [of UPNP_E_OUTOF_MEMORY] l dev f g s act ok y b by (auto simp: d pool_add_def)
qed

lemma freed_job_faults:
  assumes "k < length (gSendThreadPool (sdk s))" "structs (events (sdk s)) (arg (gSendThreadPool (sdk s) ! k)) = None"
  shows "run_action (Job_Starts malloc_ok now k) s = None"
  using assms by (simp add: Let_def)

section \<open>What holds in every reachable state\<close>



text \<open>
  C2. Messages leave in order, in every run under the assumptions of \<open>allowed\<close>: for every SID the event keys are 0, 1, 2 and so on (wrapping to 1), and the events
  are sent in the order in which they were raised, each at most once.
\<close>

theorem events_sent_in_order:
  assumes "gena_reachable s"
  shows "keys_of (sent s) x = map key_seq [0..<length (keys_of (sent s) x)] \<and> sorted_wrt (<) (texts_of (sent s) x)"
proof -
  have "log_ok (ev_brk (events (sdk s))) (sent s) (issued s)"
    using gena_reachable_inv [OF assms] J_D(6) unfolding sys_inv_def inv_def core_def by blast
  then show ?thesis by (simp only: log_ok_def)
qed

theorem events_sent_in_order_witness:
  "\<exists>s. run_action demo_event demo_system = Some s \<and>
     keys_of (sent s) (sid demo_sub) = map key_seq [0..<length (keys_of (sent s) (sid demo_sub))]"
  using demo_runs events_sent_in_order by blast

definition job_for :: "upnp \<Rightarrow> subscription \<Rightarrow> addr \<Rightarrow> bool" where
  "job_for st sub a = (case structs (events st) a of None \<Rightarrow> False | Some n \<Rightarrow> nt_sid n = sid sub)"

lemma job_for_loc:
  assumes "hwf (events st)"
  shows "job_for st sub a \<longleftrightarrow> loc (view (events st)) (sid sub) a \<noteq> None"
proof (cases "structs (events st) a")
  case None
  then have "view (events st) a = None" using view_struct(2) [OF assms] by blast
  with None show ?thesis by (simp add: job_for_def loc_def)
next
  case (Some n)
  then show ?thesis using view_struct(1) [OF assms Some] by (auto simp: job_for_def loc_def split: if_splits)
qed

lemma single_case:
  "distinct xs \<Longrightarrow> \<forall>a\<in>set xs. Q \<and> b = a \<Longrightarrow> (case xs of [] \<Rightarrow> True | [a] \<Rightarrow> Q \<and> b = a | _ \<Rightarrow> False)"
  by (cases xs rule: remdups_adj.cases) auto

text \<open>
  C3. A subscriber gets one message at a time: in every run under the assumptions of \<open>allowed\<close>, of the jobs that
  wait in the pool or are between their sections at most one is for a given subscription, and it is the
  first of its queue. The assumption that the list nodes of events can be allocated is needed: without the
  node of a further event its job goes to the pool beside the one under way.
\<close>

theorem one_message_at_a_time:
  assumes "gena_reachable s" "(c, sub) \<in> set (csubs (sdk s))"
  shows "case filter (job_for (sdk s) sub) (map arg (gSendThreadPool (sdk s)) @ map fst (sending s)) of
           [] \<Rightarrow> True | [a] \<Rightarrow> outgoing sub \<noteq> [] \<and> arg (hd (outgoing sub)) = a | _ \<Rightarrow> False"
proof -
  let ?P = "map arg (gSendThreadPool (sdk s))" and ?S = "map fst (sending s)" and ?st = "sdk s"
  have hw: "hwf (events ?st)" and j: "J (view (events ?st)) (ev_brk (events ?st)) ?P ?S (sent s) (issued s) (csubs ?st)"
    using gena_reachable_inv [OF assms(1)] by (simp_all add: sys_inv_def inv_def core_def)
  let ?l = "filter (job_for ?st sub) (?P @ ?S)"
  have "distinct (?P @ ?S)" using J_D(1) [OF j] by (auto simp: owned_def)
  then have "distinct ?l" by (rule distinct_filter)
  moreover have "ok_sub (view (events ?st)) ?P ?S (sent s) c sub" using J_D(7) [OF j] assms(2) by force
  from ok_sub_head [OF this] have "outgoing sub \<noteq> [] \<and> arg (hd (outgoing sub)) = a" if "a \<in> set ?l" for a
    using that by (simp add: those_set job_for_loc [OF hw])
  ultimately show ?thesis by (intro single_case) blast+
qed

text \<open>
  C7. The reference counters are safe, in every run under the assumptions of \<open>allowed\<close>: every structure refers to a text in memory, and the counter of a text is at
  least the number of structures that refer to it, so that no text is released while an event needs it.
\<close>

theorem event_texts_counted:
  assumes "gena_reachable s"
  shows "(\<forall>n\<in>ran (structs (events (sdk s))). texts (events (sdk s)) (reference_count n) \<noteq> None) \<and>
         (\<forall>t. case texts (events (sdk s)) t of None \<Rightarrow> True
            | Some x \<Rightarrow> int (card {a. \<exists>n. structs (events (sdk s)) a = Some n \<and> reference_count n = t}) \<le> ref_count x)"
proof -
  have "hwf (events (sdk s))" using gena_reachable_inv [OF assms] by (simp add: sys_inv_def inv_def core_def)
  then show ?thesis by (auto simp: hwf_def users_def ran_def split: option.splits)
qed

theorem event_texts_counted_witness:
  "\<exists>s. run_action demo_event demo_system = Some s \<and>
     reference_count ` ran (structs (events (sdk s))) \<subseteq> dom (texts (events (sdk s)))"
proof -
  obtain s where s: "run_action demo_event demo_system = Some s" "gena_reachable s" using demo_runs by blast
  have "reference_count ` ran (structs (events (sdk s))) \<subseteq> dom (texts (events (sdk s)))"
    using event_texts_counted [OF s(2)] by fastforce
  with s(1) show ?thesis by blast
qed

text \<open>
  C14. The table of subscriptions is consistent, in every run under the assumptions of \<open>allowed\<close>: every service counts its subscriptions correctly, no SID is
  given to two subscriptions of the library, and every SID is one that was issued.
\<close>

theorem subscriptions_consistent:
  assumes "gena_reachable s"
  shows "distinct (map (sid \<circ> snd) (csubs (sdk s))) \<and> (\<forall>x\<in>set (csubs (sdk s)). sid (snd x) \<in> issued s) \<and>
         (\<forall>h i. has_service (sdk s) h i \<longrightarrow>
            TotalSubscriptions (service_at (sdk s) h i) = int (length (subscriptionList (service_at (sdk s) h i))))"
proof -
  have i: "core (sdk s) (map arg (gSendThreadPool (sdk s))) (map fst (sending s)) (sent s) (issued s)"
    using gena_reachable_inv [OF assms] by (simp add: sys_inv_def inv_def)
  then have j: "J (view (events (sdk s))) (ev_brk (events (sdk s))) (map arg (gSendThreadPool (sdk s))) (map fst (sending s))
      (sent s) (issued s) (csubs (sdk s))" by (simp add: core_def)
  have "TotalSubscriptions (service_at (sdk s) h k) = int (length (subscriptionList (service_at (sdk s) h k)))"
    if "has_service (sdk s) h k" for h k
    using core_svc [OF i that] by (auto simp: svc_core_def service_wf_def)
  then show ?thesis using J_D(3,4) [OF j] by blast
qed

theorem subscriptions_consistent_witness:
  "distinct (map (sid \<circ> snd) (csubs demo_sdk)) \<and> list_all (\<lambda>x. sid (snd x) \<in> issued demo_system) (csubs demo_sdk)"
  using subscriptions_consistent [OF demo_reachable] by (simp add: demo_system_def list_all_iff)

section \<open>Keys, queues and texts\<close>

text \<open>
  C39. The event keys: 0 for the first message, then 1 to 2147483647, and 1 again after that.
\<close>

theorem event_key_closed_form:
  "key_seq n = (if n = 0 then 0 else 1 + int ((n - 1) mod (2 ^ 31 - 1)))"
proof (induction n)
  case (Suc n)
  let ?m = "(n - 1) mod (2 ^ 31 - 1)"
  show ?case
  proof (cases n)
    case 0
    then show ?thesis by (simp add: key_seq_Suc) (simp add: key_seq_def next_key_def to_int32_def Let_def)
  next
    case (Suc k)
    have lt: "k mod (2 ^ 31 - 1) < (2 ^ 31 - 1 :: nat)" by simp
    have "key_seq (Suc n) = next_key (1 + int (k mod (2 ^ 31 - 1)))" using Suc.IH Suc by (simp add: key_seq_Suc)
    also have "\<dots> = 1 + int (n mod (2 ^ 31 - 1))"
      using lt Suc by (auto simp: next_key_def to_int32_def Let_def mod_Suc)
    finally show ?thesis by simp
  qed
qed (simp add: key_seq_def)

lemma discard_suffix:
  "discard_loop eh now mx age first l = Some (eh', q) \<Longrightarrow>
     \<exists>k. q = first # drop k l \<and> (drop k l = [] \<or> int (length q) \<le> mx)"
proof (induction l arbitrary: eh)
  case (Cons x l)
  then obtain n where n: "structs eh (arg x) = Some n" by (auto simp: bind_eq_Some_conv)
  show ?case
  proof (cases "mx < int (length (first # x # l)) \<or> age < now - nt_ctime n")
    case True
    then obtain eh1 where "discard_loop eh1 now mx age first l = Some (eh', q)"
      using Cons.prems n by (auto simp: bind_eq_Some_conv split: if_splits)
    from Cons.IH [OF this] obtain k where "q = first # drop k l \<and> (drop k l = [] \<or> int (length q) \<le> mx)" ..
    then show ?thesis by (intro exI [of _ "Suc k"]) auto
  next
    case False
    then show ?thesis using Cons.prems n by (intro exI [of _ 0]) auto
  qed
qed (auto intro!: exI [of _ 0])

text \<open>
  C22. Making room keeps the active event and the newest ones: what remains of a queue is its first event and
  a final part of the rest, and it is within the limit or consists of the first event alone.
\<close>

theorem discard_keeps_newest:
  assumes "maybeDiscardEvents eh now mx age (first # l) = Some (eh', q)"
  shows "\<exists>k. q = first # drop k l \<and> (drop k l = [] \<or> int (length q) \<le> mx)"
  by (rule discard_suffix) (use assms in \<open>simp add: maybeDiscardEvents_def\<close>)

definition demo_heap :: event_heap where
  "demo_heap = \<lparr>structs = [5 \<mapsto> \<lparr>nt_sid = ''a'', nt_ctime = 0, reference_count = 7, nt_handle = 1\<rparr>],
     texts = [7 \<mapsto> \<lparr>ref_count = 1, ev_headers = [], ev_propertySet = [], ev_servId = [], ev_UDN = []\<rparr>], ev_brk = 8\<rparr>"

theorem discard_keeps_newest_witness:
  "\<exists>eh' q. maybeDiscardEvents demo_heap 3 1 30 [notify_job 4, notify_job 5] = Some (eh', q) \<and>
     (\<exists>k. q = notify_job 4 # drop k [notify_job 5])"
proof -
  obtain eh' q where r: "maybeDiscardEvents demo_heap 3 1 30 [notify_job 4, notify_job 5] = Some (eh', q)"
    by (simp add: maybeDiscardEvents_def demo_heap_def free_notify_struct_def)
  from discard_keeps_newest [OF r] r show ?thesis by blast
qed

text \<open>
  C23. The length of a queue: after an event was queued it has at most one event more than the limit, where a
  limit below 1, which \<open>UpnpSetEventQueueLimits\<close> accepts, counts as 1 because the first event is never
  discarded. The comment in the source promises the limit itself; the queue below reaches one more.
\<close>

theorem queue_length_bounded:
  assumes "queue_event e h t st s f = Some (r, st', s')" "f < length (subscriptionList s)" "struct_ok e"
  shows "int (length (outgoing (subscriptionList s' ! f))) \<le> max 1 (g_UpnpSdkEQMaxLen st) + 1"
proof -
  let ?sub = "subscriptionList s ! f"
  obtain x where x: "texts (events st) t = Some x" using assms(1,3) by (auto simp: queue_event_def Let_def bind_eq_Some_conv)
  define eh1 where "eh1 = (events st)\<lparr>texts := (texts (events st))(t \<mapsto> x\<lparr>ref_count := ref_count x + 1\<rparr>)\<rparr>"
  obtain b eh2 where b: "new_struct eh1 \<lparr>nt_sid = take 43 (sid ?sub), nt_ctime = clock e, reference_count = t, nt_handle = h\<rparr> = (b, eh2)"
    by fastforce
  obtain eh3 q where q: "maybeDiscardEvents eh2 (discard_clock e) (g_UpnpSdkEQMaxLen st) (g_UpnpSdkEQMaxAge st) (outgoing ?sub) = Some (eh3, q)"
    using assms(1,3) by (auto simp: queue_event_def Let_def x eh1_def [symmetric] b bind_eq_Some_conv)
  have len: "int (length q) \<le> max 1 (g_UpnpSdkEQMaxLen st)"
  proof (cases "outgoing ?sub")
    case (Cons first l)
    then have "discard_loop eh2 (discard_clock e) (g_UpnpSdkEQMaxLen st) (g_UpnpSdkEQMaxAge st) first l = Some (eh3, q)"
      using q by (simp add: maybeDiscardEvents_def)
    from discard_suffix [OF this] show ?thesis by auto
  qed (use q in \<open>auto simp: maybeDiscardEvents_def\<close>)
  show ?thesis using assms len
    by (auto simp: queue_event_def Let_def x eh1_def [symmetric] b q upd_sub_def split: if_splits)
qed

theorem queue_length_bounded_witness:
  "\<exists>r st' s'. queue_event \<lparr>struct_ok = True, job_ok = True, node_ok = True, add_rc = 0, clock = 5, discard_clock = 5, next_clock = 6\<rparr> 1 7
       (demo_sdk\<lparr>events := demo_heap, g_UpnpSdkEQMaxLen := 1\<rparr>)
       (demo_svc\<lparr>subscriptionList := [demo_sub\<lparr>outgoing := [notify_job 5]\<rparr>]\<rparr>) 0 = Some (r, st', s') \<and>
     length (outgoing (subscriptionList s' ! 0)) = 2 \<and> int (length (outgoing (subscriptionList s' ! 0))) \<le> max 1 1 + 1"
proof -
  let ?e = "\<lparr>struct_ok = True, job_ok = True, node_ok = True, add_rc = 0, clock = 5, discard_clock = 5, next_clock = 6\<rparr>"
  let ?st = "demo_sdk\<lparr>events := demo_heap, g_UpnpSdkEQMaxLen := 1\<rparr>"
  let ?s = "demo_svc\<lparr>subscriptionList := [demo_sub\<lparr>outgoing := [notify_job 5]\<rparr>]\<rparr>"
  obtain r st' s' where q: "queue_event ?e 1 7 ?st ?s 0 = Some (r, st', s')" "length (outgoing (subscriptionList s' ! 0)) = 2"
    by (simp add: queue_event_def demo_sub_def demo_heap_def Let_def new_struct_def maybeDiscardEvents_def upd_sub_def)
  from queue_length_bounded [OF q(1)] q show ?thesis by simp
qed

definition property_set :: "(string \<times> string) list \<Rightarrow> string" where
  "property_set vars = XML_PROPERTYSET_HEADER @ concat (map (\<lambda>(n, v). property_text n v) vars) @ PROPERTYSET_END"

lemma size_add_mod: "size_add a b mod 2 ^ 64 = (a + b) mod 2 ^ 64" "size_add (a mod 2 ^ 64) b = size_add a b"
  by (simp_all only: size_add_def mod_mod_trivial mod_add_left_eq)

lemma property_sum:
  "foldl (\<lambda>size (n, v). size_add (size_add size (length (''<e:property>'' @ NL @ ''</e:property>'' @ NL)))
      (2 * length n + length v + length (''<></>'' @ NL))) (k mod 2 ^ 64) vars =
     (k + length (concat (map (\<lambda>(n, v). property_text n v) vars))) mod 2 ^ 64"
proof (induction vars arbitrary: k)
  case (Cons nv vars)
  obtain n v where nv: "nv = (n, v)" by fastforce
  have "size_add (size_add (k mod 2 ^ 64) (length (''<e:property>'' @ NL @ ''</e:property>'' @ NL)))
      (2 * length n + length v + length (''<></>'' @ NL)) = (k + length (property_text n v)) mod 2 ^ 64"
    by (simp only: size_add_def mod_add_left_eq) (simp add: property_text_def NL_def algebra_simps)
  then show ?case using Cons.IH [of "k + length (property_text n v)"] by (simp add: nv add.assoc)
qed simp

lemma property_set_size_mod: "property_set_size vars = length (property_set vars) mod 2 ^ 64"
proof -
  let ?k = "length XML_PROPERTYSET_HEADER + length PROPERTYSET_END"
  have "property_set_size vars = (?k + length (concat (map (\<lambda>(n, v). property_text n v) vars))) mod 2 ^ 64"
    unfolding property_set_size_def property_sum [symmetric]
    by (simp only: size_add_def mod_add_left_eq add_0)
  then show ?thesis by (simp add: property_set_def algebra_simps)
qed

lemma buffer_large_enough:
  "size_add (n mod 2 ^ 64) 1 < n + 1 \<longleftrightarrow> 2 ^ 64 - 1 \<le> n"
proof (cases "n < 2 ^ 64 - 1")
  case True
  then show ?thesis by (simp add: size_add_def)
next
  case False
  have "size_add (n mod 2 ^ 64) 1 < 2 ^ 64" by (simp add: size_add_def)
  moreover have "size_add (n mod 2 ^ 64) 1 = 0" if "n = 2 ^ 64 - 1" using that by (simp add: size_add_def)
  ultimately show ?thesis using False by (cases "n = 2 ^ 64 - 1") simp_all
qed

text \<open>
  C38. When the text of an event fits its buffer. The size is summed in a \<open>size_t\<close>; with the memory for the buffer,
  \<open>GeneratePropertySet\<close> stays within it and gives the property set of all variables exactly if the text and
  its terminator are shorter than $2^{64}$ bytes and no variable is too long for one \<open>sprintf\<close>. A longer text is
  written behind the end of the buffer.
\<close>

theorem GeneratePropertySet_fits:
  "GeneratePropertySet True clone_ok vars =
     (if length (property_set vars) < 2 ^ 64 - 1 \<and> list_all printable vars
      then Some (UPNP_E_SUCCESS, if clone_ok then Some (property_set vars) else None) else None)"
proof -
  have e: "list_ex (\<lambda>nv. \<not> printable nv) vars \<longleftrightarrow> \<not> list_all printable vars"
    by (simp add: list_ex_iff list_all_iff)
  have g: "GeneratePropertySet True clone_ok vars =
      (if 2 ^ 64 - 1 \<le> length (property_set vars) \<or> \<not> list_all printable vars then None
       else Some (UPNP_E_SUCCESS, if clone_ok then Some (property_set vars) else None))"
    unfolding GeneratePropertySet_def Let_def property_set_size_mod property_set_def [symmetric] buffer_large_enough e
    by (simp only: not_True_eq_False if_False)
  show ?thesis
  proof (cases "length (property_set vars) < 2 ^ 64 - 1 \<and> list_all printable vars")
    case True
    then have "\<not> (2 ^ 64 - 1 \<le> length (property_set vars) \<or> \<not> list_all printable vars)" by linarith
    then show ?thesis unfolding g if_P [OF True] by (rule if_not_P)
  next
    case False
    then have "2 ^ 64 - 1 \<le> length (property_set vars) \<or> \<not> list_all printable vars" by linarith
    then show ?thesis unfolding g if_not_P [OF False] by (rule if_P)
  qed
qed

section \<open>Accepting subscriptions\<close>

text \<open>
  The network segment of the device, over IPv4 and over IPv6. An IPv6 address is compared with the link-local
  address of the interface or with its other address, in the whole bytes of the prefix.
\<close>

definition in_segment :: "nat list \<Rightarrow> nat list \<Rightarrow> uri_type \<Rightarrow> bool" where
  "in_segment nm own x = (masked (sin_addr (hostport x)) nm = masked own nm)"

definition in_segment6 :: "nat list \<Rightarrow> nat \<Rightarrow> nat list \<Rightarrow> nat \<Rightarrow> uri_type \<Rightarrow> bool" where
  "in_segment6 lla n gua m x =
     (let a = sin6_addr (hostport x)
      in if in6_is_linklocal a then take (n div 8) a = take (n div 8) lla else take (m div 8) a = take (m div 8) gua)"

definition all_filled :: "(uri_type \<Rightarrow> bool) \<Rightarrow> (nat \<times> uri_type) option list \<Rightarrow> bool" where
  "all_filled Q = list_all (\<lambda>u. case u of None \<Rightarrow> False | Some (off, x) \<Rightarrow> Q x)"

definition checked_urls :: "net_env \<Rightarrow> interface \<Rightarrow> family \<Rightarrow> (nat \<times> uri_type) option list \<Rightarrow> bool" where
  "checked_urls env gif af l =
     (case af of
        AF_INET \<Rightarrow> \<exists>own nm. inet_pton4 env (gIF_IPV4 gif) = Some own \<and> inet_pton4 env (gIF_IPV4_NETMASK gif) = Some nm \<and>
          all_filled (in_segment nm own) l
      | AF_INET6 \<Rightarrow> \<exists>lla gua. inet_pton6 env (gIF_IPV6 gif) = Some lla \<and> inet_pton6 env (gIF_IPV6_ULA_GUA gif) = Some gua \<and>
          all_filled (in_segment6 lla (gIF_IPV6_PREFIX_LENGTH gif) gua (gIF_IPV6_ULA_GUA_PREFIX_LENGTH gif)) l
      | AF_UNSPEC \<Rightarrow> True)"

lemma all_urls_True: "all_urls Q l = Some True \<longleftrightarrow> all_filled Q l"
  unfolding all_filled_def by (induction l) (auto split: option.splits)

lemma validate_segment:
  assumes "gena_validate_delivery_urls env gif af urls = Some 0"
  shows "checked_urls env gif af (parsedURLs urls)"
proof (cases af)
  case AF_INET
  then obtain own nm where m: "inet_pton4 env (gIF_IPV4 gif) = Some own" "inet_pton4 env (gIF_IPV4_NETMASK gif) = Some nm"
    using assms by (auto simp: gena_validate_delivery_urls_def split: option.splits)
  have "all_urls (\<lambda>u. masked (sin_addr (hostport u)) nm = masked own nm) (parsedURLs urls) = Some True"
    using assms AF_INET m by (auto simp: gena_validate_delivery_urls_def split: if_splits)
  then have "all_filled (in_segment nm own) (parsedURLs urls)"
    unfolding all_urls_True by (simp add: in_segment_def [abs_def])
  then show ?thesis using m AF_INET by (simp add: checked_urls_def)
next
  case AF_INET6
  then obtain lla gua where m: "inet_pton6 env (gIF_IPV6 gif) = Some lla" "inet_pton6 env (gIF_IPV6_ULA_GUA gif) = Some gua"
    using assms by (auto simp: gena_validate_delivery_urls_def split: option.splits)
  let ?Q = "in_segment6 lla (gIF_IPV6_PREFIX_LENGTH gif) gua (gIF_IPV6_ULA_GUA_PREFIX_LENGTH gif)"
  have Q: "(\<lambda>u. let a = sin6_addr (hostport u);
              (g, if_prefix) = (if in6_is_linklocal a then (lla, gIF_IPV6_PREFIX_LENGTH gif)
                 else (gua, gIF_IPV6_ULA_GUA_PREFIX_LENGTH gif))
            in take (if_prefix div 8) a = take (if_prefix div 8) g) = ?Q"
    by (auto simp: in_segment6_def Let_def fun_eq_iff)
  have "map_option (\<lambda>ok. if ok then 0 else -1) (all_urls ?Q (parsedURLs urls)) = Some (0 :: int)"
    using assms AF_INET6 m unfolding Q [symmetric] by (simp add: gena_validate_delivery_urls_def)
  then have "all_urls ?Q (parsedURLs urls) = Some True" by (auto split: if_splits)
  then show ?thesis using m AF_INET6 unfolding all_urls_True by (simp add: checked_urls_def)
qed (simp add: checked_urls_def)

lemma leave_result:
  assumes "leave ([Accepted_Reply t s0], Some (a, b, s0)) x = Some ((replies, Some (sv, udn, s)), st')"
  shows "replies = [Accepted_Reply t s] \<and> s = s0 \<and> sv = a \<and> udn = b \<and> st' = x\<lparr>locked := False\<rparr>"
  using assms by (auto simp: leave_def HandleUnlock_def split: if_splits)

text \<open>
  C15. When a request is accepted, exactly one reply was sent. The request had NT \<open>upnp:event\<close>, no SID and delivery
  URLs; over IPv4 and IPv6 all of them are in the network segment of the interface (a connection of neither family
  is not checked). An inactive subscription with event key 0 was put in front of those of the active service the
  path names, whose number stays within the limit of the device. The granted time is at most the maximum
  of the device, if it has one; it is the time to the expiry unless it is negative, which never expires and
  happens only for an unlimited device or for a request of less than -1 seconds.
\<close>

theorem subscription_accepted:
  assumes "gena_process_subscription_request env gif e st rq = Some ((replies, Some (sv, udn, s)), st')"
  shows "\<exists>h i t urls nt v rc.
     GetDeviceHandleInfoForPath env (st\<lparr>locked := True\<rparr>) (Some (rq_pathquery rq)) (rq_family rq) = (HND_DEVICE, h, Some i) \<and>
     find_hdr rq HDR_NT = Some nt \<and> value_cmp_nocase nt ''upnp:event'' = 0 \<and> find_hdr rq HDR_SID = None \<and>
     find_hdr rq HDR_CALLBACK = Some v \<and> rc \<noteq> 0 \<and>
     create_url_list env (urls_ok e) (fst (stray_bytes e)) (snd (stray_bytes e)) v = (rc, urls) \<and>
     checked_urls env gif (rq_family rq) (parsedURLs urls) \<and>
     (let service = service_at (st\<lparr>locked := True\<rparr>) h i; info = the (slot (st\<lparr>locked := True\<rparr>) h);
          sub = new_subscription e urls t in
      svc_active service \<and> replies = [Accepted_Reply t s] \<and> s = sid sub \<and> sv = serviceId service \<and> udn = UDN service \<and>
      \<not> sub_active sub \<and> ToSendEventKey sub = 0 \<and>
      st' = (put_service (st\<lparr>locked := True\<rparr>) h i (service\<lparr>subscriptionList := sub # subscriptionList service,
               TotalSubscriptions := TotalSubscriptions service + 1\<rparr>))\<lparr>locked := False\<rparr> \<and>
      (MaxSubscriptions info = -1 \<or> TotalSubscriptions service + 1 \<le> MaxSubscriptions info) \<and>
      (MaxSubscriptionTimeOut info = -1 \<or> t \<le> MaxSubscriptionTimeOut info) \<and>
      expireTime sub = (if 0 \<le> t then req_time e + t else 0) \<and>
      (0 \<le> t \<or> MaxSubscriptionTimeOut info < 0 \<or> requested_timeout env rq < -1))"
proof -
  note r = assms
  let ?st = "st\<lparr>locked := True\<rparr>"
  have no: "leave (x, None) st2 \<noteq> Some ((replies, Some (sv, udn, s)), st')" "reply c st2 \<noteq> Some ((replies, Some (sv, udn, s)), st')"
    for x st2 c by (auto simp: leave_def reply_def)
  have l: "HandleLock st = Some ?st" using r by (auto simp: gena_process_subscription_request_def HandleLock_def split: option.splits if_splits)
  obtain h i where p: "GetDeviceHandleInfoForPath env ?st (Some (rq_pathquery rq)) (rq_family rq) = (HND_DEVICE, h, Some i)"
    using r by (auto simp: gena_process_subscription_request_def l no split: option.splits if_splits prod.splits Upnp_Handle_Type.splits)
  let ?s = "service_at ?st h i" and ?info = "the (slot ?st h)"
  obtain v nt where v: "find_hdr rq HDR_CALLBACK = Some v" "find_hdr rq HDR_NT = Some nt" "value_cmp_nocase nt ''upnp:event'' = 0"
      "find_hdr rq HDR_SID = None" "svc_active ?s"
    using r by (auto simp: gena_process_subscription_request_def l p Let_def no split: option.splits if_splits)
  obtain rc0 urls where cb: "create_url_list env (urls_ok e) (fst (stray_bytes e)) (snd (stray_bytes e)) v = (rc0, urls)" by fastforce
  let ?t = "granted_timeout ?info (requested_timeout env rq)"
  have val: "gena_validate_delivery_urls env gif (rq_family rq) urls = Some 0" and rc0: "rc0 \<noteq> 0"
    and max1: "\<not> (MaxSubscriptions ?info \<noteq> -1 \<and> MaxSubscriptions ?info \<le> TotalSubscriptions ?s)"
    and res: "leave ([Accepted_Reply ?t (sid (new_subscription e urls ?t))], Some (serviceId ?s, UDN ?s, sid (new_subscription e urls ?t)))
        (put_service ?st h i (?s\<lparr>subscriptionList := new_subscription e urls ?t # subscriptionList ?s,
           TotalSubscriptions := TotalSubscriptions ?s + 1\<rparr>)) = Some ((replies, Some (sv, udn, s)), st')"
    using r by (auto simp: gena_process_subscription_request_def l p Let_def no v cb bind_eq_Some_conv split: option.splits if_splits)
  have "MaxSubscriptionTimeOut ?info = -1 \<or> ?t \<le> MaxSubscriptionTimeOut ?info"
    "0 \<le> ?t \<or> MaxSubscriptionTimeOut ?info < 0 \<or> requested_timeout env rq < -1" by (auto simp: granted_timeout_def)
  moreover have "expireTime (new_subscription e urls ?t) = (if 0 \<le> ?t then req_time e + ?t else 0)"
    "\<not> sub_active (new_subscription e urls ?t)" "ToSendEventKey (new_subscription e urls ?t) = 0"
    by (simp_all add: new_subscription_def)
  moreover have "replies = [Accepted_Reply ?t s] \<and> s = sid (new_subscription e urls ?t) \<and> sv = serviceId ?s \<and> udn = UDN ?s \<and>
      st' = (put_service ?st h i (?s\<lparr>subscriptionList := new_subscription e urls ?t # subscriptionList ?s,
        TotalSubscriptions := TotalSubscriptions ?s + 1\<rparr>))\<lparr>locked := False\<rparr>"
    by (rule leave_result [OF res])
  moreover have "MaxSubscriptions ?info = -1 \<or> TotalSubscriptions ?s + 1 \<le> MaxSubscriptions ?info" using max1 by linarith
  ultimately show ?thesis using validate_segment [OF val] p v cb rc0 unfolding Let_def
    by (intro exI [of _ h] exI [of _ i] exI [of _ ?t] exI [of _ urls] exI [of _ nt] exI [of _ v] exI [of _ rc0]) blast
qed

text \<open>
  A witness: a device with one service takes at most five subscriptions of at most 100 seconds. The URL of the
  subscriber is in the segment 10.0.0.0/24 of the interface.
\<close>

definition lan_env :: net_env where
  "lan_env = \<lparr>getaddrinfo = (\<lambda>_. None),
     inet_pton4 = (\<lambda>n. if n = ''10.0.0.7'' then Some [10, 0, 0, 7] else if n = ''10.0.0.1'' then Some [10, 0, 0, 1]
       else if n = ''255.255.255.0'' then Some [255, 255, 255, 0] else None), inet_pton6 = (\<lambda>_. None)\<rparr>"

definition lan_interface :: interface where
  "lan_interface = \<lparr>gIF_IPV4 = ''10.0.0.1'', gIF_IPV4_NETMASK = ''255.255.255.0'', gIF_IPV6 = [], gIF_IPV6_PREFIX_LENGTH = 0,
     gIF_IPV6_ULA_GUA = [], gIF_IPV6_ULA_GUA_PREFIX_LENGTH = 0\<rparr>"

definition lan_device :: Handle_Info where
  "lan_device = demo_device\<lparr>MaxSubscriptions := 5, MaxSubscriptionTimeOut := 100\<rparr>"

definition lan_sdk :: upnp where
  "lan_sdk = demo_sdk\<lparr>HandleTable := None # Some lan_device # replicate 198 None\<rparr>"

definition lan_url :: string where
  "lan_url = ''http://'' @ ''10.0.0.7'' @ '':'' @ ''80'' @ ''/x''"

definition lan_request :: gena_request where
  "lan_request = \<lparr>rq_headers = [\<lparr>hdr_name = ''NT'', name_id = HDR_NT, hdr_value = ''upnp:event''\<rparr>,
       \<lparr>hdr_name = ''CALLBACK'', name_id = HDR_CALLBACK, hdr_value = ''<'' @ lan_url @ ''>''\<rparr>],
     rq_pathquery = ''/e'', rq_family = AF_INET\<rparr>"

definition lan_decision :: request_env where
  "lan_decision = \<lparr>path_ok = True, sub_ok = True, urls_ok = True, stray_bytes = (NUL, NUL), new_uuid = replicate 36 CHR ''1'',
     respond_rc = 0, req_time = 1000\<rparr>"

lemma callback_urls_one:
  assumes "CHR ''<'' \<notin> set w"
  shows "callback_urls env stray (CHR ''<'' # w) = (case callback_url env stray (CHR ''<'' # w) 0 of None \<Rightarrow> [] | Some u \<Rightarrow> [u])"
proof -
  let ?v = "CHR ''<'' # w"
  have "callback_url env stray ?v i = None" if i: "i \<in> set [Suc 0..<length ?v]" for i
  proof -
    have "Suc 0 \<le> i" "i < Suc (length w)" using i by (simp_all only: set_upt atLeastLessThan_iff list.size) simp_all
    then obtain k where k: "i = Suc k" "k < length w" by (cases i) auto
    then have "w ! k \<in> set w" by simp
    then have "?v ! i \<noteq> CHR ''<''" using assms k(1) by auto
    then show ?thesis by (simp add: callback_url_def)
  qed
  then have "List.map_filter (callback_url env stray ?v) [Suc 0..<length ?v] = []"
    unfolding List.map_filter_def by (simp add: filter_empty_conv)
  moreover have "[0..<length ?v] = 0 # [Suc 0..<length ?v]" by (rule upt_conv_Cons) simp
  ultimately show ?thesis unfolding callback_urls_def by (simp add: List.map_filter_def split: option.splits)
qed

lemma lan_uric: "\<forall>c \<in> set ''/x''. uric c" "\<forall>c \<in> set ''80''. isdigit c" "fst (digits_value 10 0 ''80'') = 80"
  "\<forall>c \<in> set ''/e''. uric c" "\<not> uric CHR ''>''" "host_is lan_env ''10.0.0.7'' AF_INET [10, 0, 0, 7]"
  by (simp_all add: uric_def is_unreserved_def is_reserved_def RESERVED_def is_mark_def MARK_def ctype_defs byte_of_def NUL_def
      digit_value_def host_is_def host_char_def lan_env_def)

lemma lan_callback:
  "\<exists>u. create_url_list lan_env True NUL NUL (''<'' @ lan_url @ ''>'') =
     (1, \<lparr>URLs = Some (''<'' @ lan_url @ ''>''), parsedURLs = [Some (1, u)]\<rparr>) \<and> sin_addr (hostport u) = [10, 0, 0, 7]"
proof -
  let ?w = "lan_url @ ''>''" and ?z = "''>'' @ [NUL, NUL]"
  let ?s = "''http://'' @ ''10.0.0.7'' @ '':'' @ ''80'' @ ''/x'' @ ?z"
  have len: "length lan_url = 20" by (simp add: lan_url_def)
  have no: "CHR ''<'' \<notin> set ?w" by (simp add: lan_url_def)
  have "parse_uri lan_env ?s (length ?s) = (HTTP_SUCCESS, Some
    \<lparr>u_type = ABSOLUTE, scheme = \<lparr>buff = Some 0, tk_size = 4\<rparr>, path_type = ABS_PATH,
     pathquery = \<lparr>buff = Some (8 + length ''10.0.0.7'' + length ''80''), tk_size = length ''/x''\<rparr>, fragment = no_token,
     hostport = \<lparr>hp_text = \<lparr>buff = Some 7, tk_size = length ''10.0.0.7'' + 1 + length ''80''\<rparr>, ss_family = AF_INET,
                  ip_addr = [10, 0, 0, 7], ip_port = 80\<rparr>\<rparr>)"
    by (rule parse_http_url [OF lan_uric(6) _ lan_uric(2,3), where r = "''/x''" and q = "''x''" and z = ?z])
      (use lan_uric(1,5) in simp_all)
  then obtain u where u: "parse_uri lan_env ?s (length ?s) = (HTTP_SUCCESS, Some u)" "tk_size (hp_text (hostport u)) \<noteq> 0"
    "sin_addr (hostport u) = [10, 0, 0, 7]"
    by (simp add: sin_addr_def)
  have s: "?s = ?w @ [NUL, NUL]" by (simp add: lan_url_def)
  have c: "callback_url lan_env NUL (CHR ''<'' # ?w) 0 = Some (1, u)"
    using u(1,2) unfolding s by (simp add: callback_url_def len)
  have "callback_urls lan_env NUL (CHR ''<'' # ?w) = [(1, u)]" unfolding callback_urls_one [OF no] c by simp
  then show ?thesis using u(3) by (simp add: create_url_list_def Let_def)
qed

lemma memcmp_self: "memcmp x x = 0"
  by (induction x) simp_all

lemma lan_lookup: "GetDeviceHandleInfoForPath lan_env (lan_sdk\<lparr>locked := True\<rparr>) (Some ''/e'') AF_INET = (HND_DEVICE, 1, Some 0)"
proof -
  let ?st = "lan_sdk\<lparr>locked := True\<rparr>"
  note pp = parse_path [OF refl lan_uric(4), of lan_env, simplified]
  have "service_for_path lan_env (ServiceTable lan_device) (Some ''/e'') = Some 0"
    by (simp add: service_for_path_def FindServiceControlURLPath_def FindServiceEventURLPath_def same_path_def pp token_cmp_def memcmp_self
        lan_device_def demo_device_def zero_table_def demo_svc_def)
  moreover have "HandleTable ?st ! 1 = Some lan_device" by (simp add: lan_sdk_def)
  moreover have "device_of_family ?st AF_INET 1"
    by (simp add: device_of_family_def GetHandleInfo_def NUM_HANDLE_def lan_sdk_def lan_device_def demo_device_def)
  ultimately have d: "device_with_path lan_env ?st AF_INET (Some ''/e'') 1" by (simp add: device_with_path_def)
  have "first_handle (device_with_path lan_env ?st AF_INET (Some ''/e'')) 1 = Some 1"
    using d by (subst first_handle.simps) (simp add: NUM_HANDLE_def)
  moreover have "\<not> no_device ?st AF_INET" by (simp add: no_device_def lan_sdk_def demo_sdk_def)
  ultimately show ?thesis
    using \<open>service_for_path _ _ _ = _\<close> \<open>HandleTable ?st ! 1 = _\<close> by (simp add: GetDeviceHandleInfoForPath_def)
qed

lemma lan_validate:
  assumes "sin_addr (hostport u) = [10, 0, 0, 7]"
  shows "gena_validate_delivery_urls lan_env lan_interface AF_INET \<lparr>URLs = x, parsedURLs = [Some (k, u)]\<rparr> = Some 0"
proof -
  have "masked [10, 0, 0, 7] [255, 255, 255, 0] = masked [10, 0, 0, 1] [255, 255, 255, 0]" by (simp add: masked_def)
  then show ?thesis using assms by (simp add: gena_validate_delivery_urls_def lan_env_def lan_interface_def)
qed

lemma lan_headers:
  "find_hdr lan_request HDR_NT = Some ''upnp:event''" "find_hdr lan_request HDR_SID = None" "find_hdr lan_request HDR_TIMEOUT = None"
  "find_hdr lan_request HDR_CALLBACK = Some (''<'' @ lan_url @ ''>'')"
  by (simp_all add: find_hdr_def lan_request_def httpmsg_find_hdr_def)

lemma strncmp_by_self: "strncmp_by f a a n = 0"
proof (induction n arbitrary: a)
  case (Suc n)
  then show ?case by (cases a) simp_all
qed simp

lemma lan_event: "value_cmp_nocase ''upnp:event'' ''upnp:event'' = 0"
proof -
  have "seen \<lparr>mp_buf = ''upnp:event'', mp_length = length ''upnp:event''\<rparr> = ''upnp:event''" by (simp add: seen_def NUL_def)
  then show ?thesis unfolding value_cmp_nocase_def memptr_cmp_nocase_def strncasecmp_def by (simp only: strncmp_by_self) simp
qed

lemma lan_accepted:
  "\<exists>st'. gena_process_subscription_request lan_env lan_interface lan_decision lan_sdk lan_request =
     Some (([Accepted_Reply 100 (''uuid:'' @ replicate 36 CHR ''1'')], Some (Some ''s'', Some ''u'', ''uuid:'' @ replicate 36 CHR ''1'')), st')"
proof -
  let ?st = "lan_sdk\<lparr>locked := True\<rparr>"
  obtain u where u: "create_url_list lan_env True NUL NUL (''<'' @ lan_url @ ''>'') =
     (1, \<lparr>URLs = Some (''<'' @ lan_url @ ''>''), parsedURLs = [Some (1, u)]\<rparr>)" "sin_addr (hostport u) = [10, 0, 0, 7]"
    using lan_callback by blast
  have "slot ?st 1 = Some lan_device" by (simp add: slot_def lan_sdk_def NUM_HANDLE_def)
  then have sv: "service_at ?st 1 0 = demo_svc" "the (slot ?st 1) = lan_device"
    by (simp_all add: service_at_def lan_device_def demo_device_def zero_table_def)
  have d: "svc_active demo_svc" "TotalSubscriptions demo_svc = 1" "MaxSubscriptions lan_device = 5" "MaxSubscriptionTimeOut lan_device = 100"
    "serviceId demo_svc = Some ''s''" "UDN demo_svc = Some ''u''" by (simp_all add: demo_svc_def lan_device_def)
  have e: "path_ok lan_decision" "sub_ok lan_decision" "urls_ok lan_decision" "stray_bytes lan_decision = (NUL, NUL)"
    "new_uuid lan_decision = replicate 36 CHR ''1''" "respond_rc lan_decision = UPNP_E_SUCCESS" by (simp_all add: lan_decision_def codes)
  have t: "granted_timeout lan_device (requested_timeout lan_env lan_request) = 100"
    by (simp add: requested_timeout_def lan_headers granted_timeout_def d)
  have rq: "rq_pathquery lan_request = ''/e''" "rq_family lan_request = AF_INET" by (simp_all add: lan_request_def)
  have l: "HandleLock lan_sdk = Some ?st" by (simp add: HandleLock_def lan_sdk_def demo_sdk_def)
  have neg: "UPNP_E_OUTOF_MEMORY \<noteq> 1" by (simp add: codes)
  have s: "sid (new_subscription lan_decision x 100) = ''uuid:'' @ replicate 36 CHR ''1''" for x
    by (simp add: new_subscription_def e)
  have lv: "\<exists>st'. leave r (put_service ?st 1 0 x) = Some (r, st')" for r :: "gena_reply list \<times> (DOMString \<times> DOMString \<times> string) option" and x
    by (simp add: leave_def HandleUnlock_def put_service_def set_slot_def split: option.splits)
  show ?thesis
    unfolding gena_process_subscription_request_def lan_headers option.case l Option.bind.simps rq lan_lookup prod.case
      Upnp_Handle_Type.case Let_def sv e u(1) fst_conv snd_conv lan_validate [OF u(2)]
    using lv by (simp add: lan_headers lan_event neg e t s d u(1) [simplified] lan_validate [OF u(2)])
qed

theorem subscription_accepted_witness:
  "\<exists>st' urls. gena_process_subscription_request lan_env lan_interface lan_decision lan_sdk lan_request =
     Some (([Accepted_Reply 100 (''uuid:'' @ replicate 36 CHR ''1'')], Some (Some ''s'', Some ''u'', ''uuid:'' @ replicate 36 CHR ''1'')), st') \<and>
     checked_urls lan_env lan_interface AF_INET (parsedURLs urls) \<and> expireTime (new_subscription lan_decision urls 100) = 1100"
proof -
  obtain st' where r: "gena_process_subscription_request lan_env lan_interface lan_decision lan_sdk lan_request =
     Some (([Accepted_Reply 100 (''uuid:'' @ replicate 36 CHR ''1'')], Some (Some ''s'', Some ''u'', ''uuid:'' @ replicate 36 CHR ''1'')), st')"
    using lan_accepted by blast
  from subscription_accepted [OF r] show ?thesis unfolding Let_def using r by (auto simp: lan_request_def lan_decision_def)
qed

section \<open>Handles\<close>

lemma free_handle_loop_ok: "i \<le> NUM_HANDLE \<Longrightarrow> free_handle_loop tab i = k \<Longrightarrow>
    i \<le> k \<and> k \<le> NUM_HANDLE \<and> (\<forall>j. i \<le> j \<and> j < k \<longrightarrow> tab ! j \<noteq> None) \<and> (k < NUM_HANDLE \<longrightarrow> tab ! k = None)"
proof (induction tab i rule: free_handle_loop.induct)
  case (1 tab i)
  show ?case
  proof (cases "i < NUM_HANDLE \<and> tab ! i \<noteq> None")
    case True
    then have "free_handle_loop tab (i + 1) = k" using "1.prems" by (simp add: free_handle_loop.simps [of tab i])
    then have ih: "i + 1 \<le> k" "k \<le> NUM_HANDLE" "\<forall>j. i + 1 \<le> j \<and> j < k \<longrightarrow> tab ! j \<noteq> None" "k < NUM_HANDLE \<longrightarrow> tab ! k = None"
      using "1.IH" True by simp_all
    have "tab ! j \<noteq> None" if "i \<le> j" "j < k" for j
      using ih(3) True that by (cases "j = i") auto
    then show ?thesis using ih by simp
  next
    case False
    then show ?thesis using "1.prems" by (auto simp: free_handle_loop.simps [of tab i])
  qed
qed

text \<open>
  C40. A new handle is the smallest free one, and the slot it names is empty; putting a device there and
  freeing the handle again gives the table back.
\<close>

theorem handle_roundtrip:
  assumes "GetFreeHandle st = h" "h \<noteq> UPNP_E_OUTOF_HANDLE" "length (HandleTable st) = NUM_HANDLE"
  shows "slot st h = None \<and> 1 \<le> h \<and> h < int NUM_HANDLE \<and>
         (\<forall>k. 1 \<le> k \<and> k < h \<longrightarrow> slot st k \<noteq> None) \<and>
         slot (set_slot st h (Some info)) h = Some info \<and>
         FreeHandle (set_slot st h (Some info)) h = (UPNP_E_SUCCESS, st)"
proof -
  obtain i where i: "free_handle_loop (HandleTable st) 1 = i" "i \<noteq> NUM_HANDLE" "h = int i"
    using assms(1,2) by (auto simp: GetFreeHandle_def Let_def split: if_splits)
  have f: "1 \<le> i" "i < NUM_HANDLE" "HandleTable st ! i = None" "\<forall>j. 1 \<le> j \<and> j < i \<longrightarrow> HandleTable st ! j \<noteq> None"
    using free_handle_loop_ok [OF _ i(1)] i(2) by (auto simp: NUM_HANDLE_def)
  have r: "1 \<le> h" "h < int NUM_HANDLE" using f i(3) by auto
  have n: "slot st h = None" using f i(3) r by (simp add: slot_def)
  have below: "slot st k \<noteq> None" if "1 \<le> k" "k < h" for k
  proof -
    have "1 \<le> nat k \<and> nat k < i" using that i(3) by linarith
    then show ?thesis using f(4) that r by (simp add: slot_def)
  qed
  have "(HandleTable st)[i := Some info, i := None] = HandleTable st" using f(3) by (metis list_update_id list_update_overwrite)
  then have "FreeHandle (set_slot st h (Some info)) h = (UPNP_E_SUCCESS, st)"
    using f r i(3) assms(3) by (simp add: FreeHandle_def set_slot_def)
  then show ?thesis using n r below slot_set_slot [OF assms(3) r] by simp
qed

theorem handle_roundtrip_witness:
  "GetFreeHandle demo_sdk = 2 \<and> slot demo_sdk 2 = None \<and>
   FreeHandle (set_slot demo_sdk 2 (Some demo_device)) 2 = (UPNP_E_SUCCESS, demo_sdk)"
proof -
  have "free_handle_loop (HandleTable demo_sdk) 1 = 2"
    by (simp add: free_handle_loop.simps demo_sdk_def NUM_HANDLE_def nth_Cons')
  then have h: "GetFreeHandle demo_sdk = 2" by (simp add: GetFreeHandle_def NUM_HANDLE_def)
  moreover have "length (HandleTable demo_sdk) = NUM_HANDLE" by (simp add: demo_sdk_def NUM_HANDLE_def)
  ultimately show ?thesis using handle_roundtrip [OF h] by (simp add: codes)
qed

section \<open>Progress\<close>

lemma find_sid_first:
  "distinct (map sid l) \<Longrightarrow> j < length l \<Longrightarrow> find_sid k (sid (l ! j)) l = Some (k + j)"
  by (induction l arbitrary: k j) (auto simp: nth_Cons' image_iff)

text \<open>The subscription of an event is found while it has not expired.\<close>

lemma find_context_found:
  assumes c: "core st P S L U" and n: "structs (events st) a = Some n" and sub: "(c, sub) \<in> set (csubs st)" "sid sub = nt_sid n"
    and alive: "\<not> expired now sub"
  shows "\<exists>i j. find_context now st n = Some (Some (i, j), st) \<and> has_service st (nt_handle n) i \<and>
           svc_context (nt_handle n) (service_at st (nt_handle n) i) = c \<and>
           j < length (subscriptionList (service_at st (nt_handle n) i)) \<and> subscriptionList (service_at st (nt_handle n) i) ! j = sub"
proof -
  let ?h = "nt_handle n"
  have wf: "tables_wf st" and hw: "hwf (events st)" and j: "J (view (events st)) (ev_brk (events st)) P S L U (csubs st)"
    using c by (simp_all add: core_def)
  obtain x where x: "texts (events st) (reference_count n) = Some x"
    "view (events st) a = Some (nt_sid n, reference_count n, ?h, ev_servId x, ev_UDN x)"
    using view_struct(1) [OF hw n] by blast
  have "ok_sub (view (events st)) P S L c sub" using J_D(7) [OF j] sub(1) by force
  moreover have "loc (view (events st)) (sid sub) a = Some (reference_count n, ?h, ev_servId x, ev_UDN x)"
    using x(2) sub(2) by (simp add: loc_text)
  ultimately have ctx: "c = (?h, ev_servId x, ev_UDN x)" by (simp add: ok_sub_def queue_ok_def)
  note cs = context_service [OF wf sub(1), unfolded fst_conv snd_conv, OF ctx]
  obtain i where f: "find_service st ?h (ev_servId x) (ev_UDN x) = Some (Some i)" "has_service st ?h i"
    "svc_key (service_at st ?h i) = (Some (ev_servId x), Some (ev_UDN x))"
    using find_service_ok [OF wf cs(1), of "ev_servId x" "ev_UDN x"] cs(2) by blast
  let ?s = "service_at st ?h i"
  obtain k where k: "k < length (subscriptionList ?s)" "subscriptionList ?s ! k = sub"
    using cs(3) [OF f(2,3)] by (auto simp: in_set_conv_nth)
  obtain A B where AB: "svc_core (events st) P S L U A ?h ?s B" using core_svc [OF c f(2)] by blast
  have act: "svc_active ?s" using AB by (simp add: svc_core_def service_wf_def)
  have "find_sid 0 (nt_sid n) (subscriptionList ?s) = Some k"
    using find_sid_first [OF svc_sids_distinct [OF AB] k(1), of 0] k(2) sub(2) by simp
  then have g: "GetSubscriptionSID (events st) now (nt_sid n) ?s = Some (Some k, events st, ?s)"
    using alive k(2) by (simp add: GetSubscriptionSID_def)
  have "find_context now st n = Some (Some (i, k), put_service (st\<lparr>events := events st\<rparr>) ?h i ?s)"
    using cs(1) f(1) act g x(1) by (simp add: find_context_def)
  then have "find_context now st n = Some (Some (i, k), st)" using service_same [OF wf f(2)] by simp
  then show ?thesis using f(2,3) k ctx
    by (intro exI [of _ i] exI [of _ k]) (simp add: svc_context_def svc_key_def)
qed

text \<open>The first section sends to that subscription and changes nothing else.\<close>

lemma begin_found:
  assumes c: "core st P S L U" and l: "\<not> locked st" and n: "structs (events st) a = Some n"
    and sub: "(c, sub) \<in> set (csubs st)" "sid sub = nt_sid n" and alive: "\<not> expired now sub"
  shows "\<exists>copy. genaNotifyThread_begin True now st a = Some (Some copy, st) \<and> sid copy = sid sub \<and>
           ToSendEventKey copy = ToSendEventKey sub"
proof -
  let ?st = "st\<lparr>locked := True\<rparr>"
  have c1: "core ?st P S L U" using c by simp
  have cs: "csubs ?st = csubs st" by (rule table_only) simp
  obtain i j where f: "find_context now ?st n = Some (Some (i, j), ?st)" "has_service ?st (nt_handle n) i"
    "svc_context (nt_handle n) (service_at ?st (nt_handle n) i) = c"
    "j < length (subscriptionList (service_at ?st (nt_handle n) i))" "subscriptionList (service_at ?st (nt_handle n) i) ! j = sub"
    using find_context_found [OF c1, of a n c sub now] n sub alive cs by auto
  obtain A B where "svc_core (events ?st) P S L U A (nt_handle n) (service_at ?st (nt_handle n) i) B"
    using core_svc [OF c1 f(2)] by blast
  then have "has_urls sub" using f(4,5) by (auto simp: svc_core_def service_wf_def)
  then obtain u where u: "URLs (DeliveryURLs sub) = Some u" by (auto simp: has_urls_def)
  have "J (view (events st)) (ev_brk (events st)) P S L U (csubs st)" using c by (simp add: core_def)
  then have "ok_sub (view (events st)) P S L c sub" using J_D(7) sub(1) by force
  then have "length (sid sub) = SID_SIZE" by (simp add: ok_sub_def queue_ok_def)
  moreover have "st\<lparr>locked := False\<rparr> = st" using l by (cases st) simp
  ultimately show ?thesis using l
    by (simp add: genaNotifyThread_begin_def HandleLock_def n f(1,5) copy_subscription_def copy_URL_list_def u leave_ok)
qed

text \<open>The second section, with a pool that accepts, hands the next event on.\<close>

lemma end_found:
  assumes c: "core st P (S1 @ a # S2) L U" and l: "\<not> locked st" and n: "structs (events st) a = Some n"
    and sub: "(c, sub) \<in> set (csubs st)" "sid sub = nt_sid n" and alive: "\<not> expired now sub"
    and rc: "rc \<noteq> GENA_E_NOTIFY_UNACCEPTED_REMOVE_SUB"
  shows "\<exists>st'. genaNotifyThread_end 0 now rc st a = Some ((), st') \<and> frees (events st) {a} (events st') \<and>
           gSendThreadPool st' = gSendThreadPool st @ take 1 (tl (outgoing sub)) \<and>
           (\<exists>sub'. (c, sub') \<in> set (csubs st') \<and> sid sub' = sid sub \<and> expireTime sub' = expireTime sub \<and>
              map arg (outgoing sub') = map arg (tl (outgoing sub)))"
proof -
  let ?st = "st\<lparr>locked := True\<rparr>" and ?S = "S1 @ a # S2"
  have c1: "core ?st P ?S L U" using c by simp
  have cs: "csubs ?st = csubs st" by (rule table_only) simp
  let ?h = "nt_handle n"
  obtain i j where f: "find_context now ?st n = Some (Some (i, j), ?st)" "has_service ?st ?h i"
    "svc_context ?h (service_at ?st ?h i) = c"
    "j < length (subscriptionList (service_at ?st ?h i))" "subscriptionList (service_at ?st ?h i) ! j = sub"
    using find_context_found [OF c1, of a n c sub now] n sub alive cs by auto
  let ?s = "service_at ?st ?h i"
  have jj: "J (view (events st)) (ev_brk (events st)) P ?S L U (csubs st)" using c by (simp add: core_def)
  then have "ok_sub (view (events st)) P ?S L c sub" using J_D(7) sub(1) by force
  then have stale: "\<forall>job\<in>set (tl (outgoing sub)). jobId job \<noteq> STALE_JOBID" by (simp add: ok_sub_def queue_ok_def)
  define q st2 where "q = (case tl (outgoing sub) of [] \<Rightarrow> [] | job # jobs \<Rightarrow> job\<lparr>jobId := STALE_JOBID\<rparr> # jobs)"
    and "st2 = ?st\<lparr>gSendThreadPool := gSendThreadPool st @ take 1 (tl (outgoing sub))\<rparr>"
  have act: "activate_head 0 ?st (tl (outgoing sub)) = Some (q, st2)"
    using stale by (cases "tl (outgoing sub)") (simp_all add: activate_head_def q_def st2_def pool_add_def)
  let ?s1 = "upd_sub ?s j (\<lambda>s. s\<lparr>ToSendEventKey := next_key (ToSendEventKey s), outgoing := q\<rparr>)"
  let ?sub = "sub\<lparr>ToSendEventKey := next_key (ToSendEventKey sub), outgoing := q\<rparr>"
  let ?st3 = "put_service st2 ?h i ?s1"
  obtain A B where AB: "\<forall>st' s. HandleTable st' = HandleTable ?st \<longrightarrow> same_svc ?s s \<longrightarrow> csubs (put_service st' ?h i s) = A @ svc_subs ?h s @ B"
    using core_svc [OF c1 f(2)] by metis
  have tab: "HandleTable st2 = HandleTable ?st" by (simp add: st2_def)
  have s1: "?s1 = with_subs ?s ((subscriptionList ?s)[j := ?sub]) (TotalSubscriptions ?s)" using f(5) by (simp add: upd_sub_with)
  have "csubs ?st3 = A @ svc_subs ?h ?s1 @ B" using AB tab unfolding s1 by simp
  moreover have "(c, ?sub) \<in> set (svc_subs ?h ?s1)"
    unfolding s1 using f(3,4) set_update_memI [OF f(4), of ?sub] by (simp add: svc_subs_def)
  ultimately have "(c, ?sub) \<in> set (csubs ?st3)" by simp
  have hw: "hwf (events st)" using c by (simp add: core_def)
  obtain eh where e: "free_notify_struct (events st) a = Some eh" "frees (events st) {a} eh"
    using free_notify_struct_ok [OF hw n] by blast
  let ?st4 = "?st3\<lparr>events := eh, locked := False\<rparr>"
  have run: "genaNotifyThread_end 0 now rc st a = Some ((), ?st4)"
    using l rc by (simp add: genaNotifyThread_end_def HandleLock_def n f(1,5) act Let_def drop_notify_def leave_ok)
      (simp add: e(1) st2_def leave_ok upnp_events_self)
  have "csubs ?st4 = csubs ?st3" by (rule table_only) simp
  moreover have "map arg q = map arg (tl (outgoing sub))" by (cases "tl (outgoing sub)") (simp_all add: q_def)
  ultimately show ?thesis using run e(2) \<open>(c, ?sub) \<in> set (csubs ?st3)\<close>
    by (intro exI [of _ ?st4]) (auto simp: st2_def intro!: exI [of _ ?sub])
qed

text \<open>One round trip: the waiting job of a subscriber is sent and the next event takes its place in the pool.\<close>

fun run_actions :: "gena_action list \<Rightarrow> gena_system \<Rightarrow> gena_system option" where
  "run_actions [] s = Some s"
| "run_actions (act # acts) s = (case run_action act s of None \<Rightarrow> None | Some s1 \<Rightarrow> run_actions acts s1)"

definition text_of :: "upnp \<Rightarrow> addr \<Rightarrow> addr" where
  "text_of st a = (case structs (events st) a of None \<Rightarrow> 0 | Some n \<Rightarrow> reference_count n)"

lemma text_of_view:
  assumes "hwf (events st)"
  shows "text_of st a = (case view (events st) a of None \<Rightarrow> 0 | Some (s, t, c) \<Rightarrow> t)"
proof (cases "structs (events st) a")
  case None
  then have "view (events st) a = None" using view_struct(2) [OF assms] by blast
  with None show ?thesis by (simp add: text_of_def)
next
  case (Some n)
  then show ?thesis using view_struct(1) [OF assms Some] by (auto simp: text_of_def)
qed

lemma deliver:
  assumes r: "gena_reachable s" and sub: "(c, sub) \<in> set (csubs (sdk s))" and alive: "\<not> expired now sub"
    and k: "k < length (gSendThreadPool (sdk s))" and job: "job_for (sdk s) sub (arg (gSendThreadPool (sdk s) ! k))"
  shows "\<exists>s2. gena_reachable s2 \<and> run_actions [Job_Starts True now k, Job_Ends 0 now 0 (length (sending s))] s = Some s2 \<and>
           sent s2 = sent s @ [(sid sub, ToSendEventKey sub, text_of (sdk s) (arg (gSendThreadPool (sdk s) ! k)))] \<and>
           frees (events (sdk s)) {arg (gSendThreadPool (sdk s) ! k)} (events (sdk s2)) \<and>
           gSendThreadPool (sdk s2) = without k (gSendThreadPool (sdk s)) @ take 1 (tl (outgoing sub)) \<and>
           (\<exists>sub'. (c, sub') \<in> set (csubs (sdk s2)) \<and> sid sub' = sid sub \<and> expireTime sub' = expireTime sub \<and>
              map arg (outgoing sub') = map arg (tl (outgoing sub)))"
proof -
  let ?pool = "gSendThreadPool (sdk s)"
  let ?a = "arg (?pool ! k)" and ?P1 = "map arg (take k ?pool)" and ?P2 = "map arg (drop (Suc k) ?pool)"
  let ?st = "(sdk s)\<lparr>gSendThreadPool := without k ?pool\<rparr>"
  have i: "sys_inv s" by (rule gena_reachable_inv [OF r])
  have p: "map arg ?pool = ?P1 @ ?a # ?P2" by (subst without_split [OF k]) simp
  have c0: "core (sdk s) (?P1 @ ?a # ?P2) (map fst (sending s)) (sent s) (issued s)" and l: "\<not> locked (sdk s)"
    using i unfolding sys_inv_def inv_def p by simp_all
  have c1: "core ?st (?P1 @ ?a # ?P2) (map fst (sending s)) (sent s) (issued s)" using c0 core_cong [of ?st "sdk s"] by simp
  obtain n where n: "structs (events (sdk s)) ?a = Some n" "nt_sid n = sid sub"
    using job by (auto simp: job_for_def split: option.splits)
  have cs: "csubs ?st = csubs (sdk s)" by (rule table_only) simp
  obtain copy where b: "genaNotifyThread_begin True now ?st ?a = Some (Some copy, ?st)" "sid copy = sid sub"
    "ToSendEventKey copy = ToSendEventKey sub"
    using begin_found [OF c1, where n = n and c = c and sub = sub and now = now] l n sub alive cs by auto
  let ?s1 = "s\<lparr>sdk := ?st, sending := sending s @ [(?a, copy)],
      sent := sent s @ [(sid sub, ToSendEventKey sub, reference_count n)]\<rparr>"
  have r1: "run_action (Job_Starts True now k) s = Some ?s1" using b n by (simp add: Let_def)
  have re1: "gena_reachable ?s1" by (rule gena_reachable.step [OF r _ r1]) (simp add: allowed_def k)
  have c2: "core ?st (map arg (gSendThreadPool ?st)) (map fst (sending s) @ ?a # []) (sent ?s1) (issued s)"
    using gena_reachable_inv [OF re1] by (simp add: sys_inv_def inv_def)
  obtain st' where e: "genaNotifyThread_end 0 now 0 ?st ?a = Some ((), st')" "frees (events ?st) {?a} (events st')"
    "gSendThreadPool st' = gSendThreadPool ?st @ take 1 (tl (outgoing sub))"
    "\<exists>sub'. (c, sub') \<in> set (csubs st') \<and> sid sub' = sid sub \<and> expireTime sub' = expireTime sub \<and>
        map arg (outgoing sub') = map arg (tl (outgoing sub))"
    using end_found [OF c2, where n = n and c = c and sub = sub and now = now and rc = 0] l n sub alive cs by (auto simp: codes)
  let ?s2 = "?s1\<lparr>sdk := st', sending := sending s\<rparr>"
  have r2: "run_action (Job_Ends 0 now 0 (length (sending s))) ?s1 = Some ?s2"
    using e(1) by (simp add: without_def)
  have "gena_reachable ?s2" by (rule gena_reachable.step [OF re1 _ r2]) (simp add: allowed_def)
  moreover have "text_of (sdk s) ?a = reference_count n" by (simp add: text_of_def n)
  moreover have "run_actions [Job_Starts True now k, Job_Ends 0 now 0 (length (sending s))] s = Some ?s2"
    unfolding run_actions.simps r1 option.case r2 ..
  ultimately show ?thesis using e by (intro exI [of _ ?s2]) (simp del: run_actions.simps)
qed

text \<open>The event sent is the first of the queue, the rest of the queue stays, and its first event waits.\<close>

lemma deliver_next:
  assumes r: "gena_reachable s" and sub: "(c, sub) \<in> set (csubs (sdk s))" and alive: "\<not> expired now sub"
    and w: "list_ex (job_for (sdk s) sub) (map arg (gSendThreadPool (sdk s)))"
  shows "\<exists>acts s2 sub2. gena_reachable s2 \<and> run_actions acts s = Some s2 \<and> (c, sub2) \<in> set (csubs (sdk s2)) \<and>
           sid sub2 = sid sub \<and> expireTime sub2 = expireTime sub \<and> length (outgoing sub) = Suc (length (outgoing sub2)) \<and>
           texts_of (sent s2) (sid sub) @ map (text_of (sdk s2)) (map arg (outgoing sub2)) =
             texts_of (sent s) (sid sub) @ map (text_of (sdk s)) (map arg (outgoing sub)) \<and>
           (outgoing sub2 = [] \<or> list_ex (job_for (sdk s2) sub2) (map arg (gSendThreadPool (sdk s2))))"
proof -
  let ?pool = "gSendThreadPool (sdk s)"
  obtain k where k: "k < length ?pool" "job_for (sdk s) sub (arg (?pool ! k))"
    using w by (auto simp: list_ex_iff in_set_conv_nth)
  let ?a = "arg (?pool ! k)"
  obtain s2 sub2 where d: "gena_reachable s2"
    "run_actions [Job_Starts True now k, Job_Ends 0 now 0 (length (sending s))] s = Some s2"
    "sent s2 = sent s @ [(sid sub, ToSendEventKey sub, text_of (sdk s) ?a)]"
    "frees (events (sdk s)) {?a} (events (sdk s2))"
    "gSendThreadPool (sdk s2) = without k ?pool @ take 1 (tl (outgoing sub))"
    "(c, sub2) \<in> set (csubs (sdk s2))" "sid sub2 = sid sub" "expireTime sub2 = expireTime sub"
    "map arg (outgoing sub2) = map arg (tl (outgoing sub))"
    using deliver [OF r sub alive k] by blast
  have hw: "hwf (events (sdk s))" "hwf (events (sdk s2))"
    using gena_reachable_inv [OF r] gena_reachable_inv [OF d(1)] by (simp_all add: sys_inv_def inv_def core_def)
  have j: "J (view (events (sdk s))) (ev_brk (events (sdk s))) (map arg ?pool) (map fst (sending s)) (sent s) (issued s) (csubs (sdk s))"
    using gena_reachable_inv [OF r] by (simp add: sys_inv_def inv_def core_def)
  have am: "?a \<in> set (map arg ?pool)" using k(1) by simp
  have ok: "ok_sub (view (events (sdk s))) (map arg ?pool) (map fst (sending s)) (sent s) c sub"
    using J_D(7) [OF j] sub by force
  have "?a \<in> set (those (view (events (sdk s))) (sid sub) (map arg ?pool))"
    using am k(2) job_for_loc [OF hw(1)] by (simp add: those_set)
  then have hd: "outgoing sub \<noteq> []" "arg (hd (outgoing sub)) = ?a" using ok_sub_head [OF ok] by blast+
  have nt: "?a \<notin> set (tail_args sub)" using job_not_tail [OF j sub] am by blast
  have v: "view (events (sdk s2)) b = view (events (sdk s)) b" if "b \<noteq> ?a" for b using d(4) that by (simp add: frees_def)
  have tx: "map (text_of (sdk s2)) (map arg (outgoing sub2)) = map (text_of (sdk s)) (map arg (tl (outgoing sub)))"
    unfolding d(9)
  proof (rule map_cong [OF refl])
    fix b assume "b \<in> set (map arg (tl (outgoing sub)))"
    then have "b \<noteq> ?a" using nt unfolding tail_args_def by blast
    from v [OF this] show "text_of (sdk s2) b = text_of (sdk s) b"
      unfolding text_of_view [OF hw(1)] text_of_view [OF hw(2)] by simp
  qed
  have out: "map (text_of (sdk s)) (map arg (outgoing sub)) = text_of (sdk s) ?a # map (text_of (sdk s)) (map arg (tl (outgoing sub)))"
    using hd by (cases "outgoing sub") auto
  have t2: "texts_of (sent s2) (sid sub) = texts_of (sent s) (sid sub) @ [text_of (sdk s) ?a]" by (simp add: d(3) log_of_snoc)
  have w2: "list_ex (job_for (sdk s2) sub2) (map arg (gSendThreadPool (sdk s2)))" if ne: "outgoing sub2 \<noteq> []"
  proof -
    obtain x xs where Cons: "tl (outgoing sub) = x # xs" using ne d(9) by (cases "tl (outgoing sub)") auto
    have "arg x \<in> set (tail_args sub)" using Cons by (simp add: tail_args_def)
    then have "loc (view (events (sdk s))) (sid sub) (arg x) \<noteq> None" "arg x \<noteq> ?a"
      using tail_loc [OF j sub] nt by auto
    then have "job_for (sdk s2) sub2 (arg x)" using v by (simp add: job_for_loc [OF hw(2)] loc_def d(7))
    then show ?thesis by (simp add: d(5) Cons list_ex_iff)
  qed
  have len: "length (outgoing sub) = Suc (length (outgoing sub2))"
    using hd(1) arg_cong [OF d(9), of length] by (cases "outgoing sub") auto
  have all: "texts_of (sent s2) (sid sub) @ map (text_of (sdk s2)) (map arg (outgoing sub2)) =
      texts_of (sent s) (sid sub) @ map (text_of (sdk s)) (map arg (outgoing sub))" unfolding tx t2 out by simp
  show ?thesis using d(1,2,6-8) len all w2 by blast
qed

lemma run_actions_append:
  "run_actions (xs @ ys) s = (case run_actions xs s of None \<Rightarrow> None | Some s1 \<Rightarrow> run_actions ys s1)"
  by (induction xs arbitrary: s) (auto split: option.splits simp del: run_action.simps)

text \<open>
  C6. Queues drain: from every reachable state where the first event of a subscriber waits in the pool, there are
  steps, with a pool that accepts jobs and memory for the copies, after which all events of its queue have been
  sent, in the order of the queue.
\<close>

theorem queue_drains:
  assumes "gena_reachable s" "(c, sub) \<in> set (csubs (sdk s))" "\<not> expired now sub"
    and "list_ex (job_for (sdk s) sub) (map arg (gSendThreadPool (sdk s)))"
  shows "\<exists>acts s'. run_actions acts s = Some s' \<and> gena_reachable s' \<and>
           texts_of (sent s') (sid sub) = texts_of (sent s) (sid sub) @ map (text_of (sdk s)) (map arg (outgoing sub)) \<and>
           (\<exists>sub'. (c, sub') \<in> set (csubs (sdk s')) \<and> sid sub' = sid sub \<and> outgoing sub' = [])"
  using assms
proof (induction "length (outgoing sub)" arbitrary: s sub)
  case 0
  let ?P = "map arg (gSendThreadPool (sdk s))"
  have hw: "hwf (events (sdk s))" and ok: "ok_sub (view (events (sdk s))) ?P (map fst (sending s)) (sent s) c sub"
    using gena_reachable_inv [OF 0(2)] 0(3) J_D(7) unfolding sys_inv_def inv_def core_def by fastforce+
  from idle_none(1) [OF ok] 0(1,5) show ?case by (auto simp: list_ex_iff those_Nil job_for_loc [OF hw])
next
  case (Suc m)
  obtain acts1 s2 sub2 where d: "gena_reachable s2" "run_actions acts1 s = Some s2" "(c, sub2) \<in> set (csubs (sdk s2))"
    "sid sub2 = sid sub" "expireTime sub2 = expireTime sub" "length (outgoing sub) = Suc (length (outgoing sub2))"
    "texts_of (sent s2) (sid sub) @ map (text_of (sdk s2)) (map arg (outgoing sub2)) =
       texts_of (sent s) (sid sub) @ map (text_of (sdk s)) (map arg (outgoing sub))"
    "outgoing sub2 = [] \<or> list_ex (job_for (sdk s2) sub2) (map arg (gSendThreadPool (sdk s2)))"
    using deliver_next [OF Suc.prems] by blast
  show ?case
  proof (cases "outgoing sub2 = []")
    case True
    then show ?thesis using d(1-4,7) by (intro exI [of _ acts1] exI [of _ s2]) auto
  next
    case False
    have m: "m = length (outgoing sub2)" and al: "\<not> expired now sub2"
      using Suc.hyps(2) Suc.prems(3) d(5,6) by (simp_all add: expired_def)
    obtain acts s' where h: "run_actions acts s2 = Some s'" "gena_reachable s'"
      "texts_of (sent s') (sid sub2) = texts_of (sent s2) (sid sub2) @ map (text_of (sdk s2)) (map arg (outgoing sub2))"
      "\<exists>sub'. (c, sub') \<in> set (csubs (sdk s')) \<and> sid sub' = sid sub2 \<and> outgoing sub' = []"
      using Suc.hyps(1) [OF m d(1,3) al] d(8) False by blast
    have "run_actions (acts1 @ acts) s = Some s'" by (simp add: run_actions_append d(2) h(1))
    then show ?thesis using h(2-4) d(7) unfolding d(4) by metis
  qed
qed

text \<open>
  A witness: an event is raised for the subscriber of the small system, its job is put in the pool, and the pool sends it.
\<close>

definition demo_ok :: notify_env where
  "demo_ok = \<lparr>struct_ok = True, job_ok = True, node_ok = True, add_rc = 0, clock = 5, discard_clock = 5, next_clock = 6\<rparr>"

lemma demo_queue:
  assumes "texts (events st) t = Some x"
  shows "\<exists>eh b. queue_event demo_ok 1 t st demo_svc 0 =
     Some (None, st\<lparr>events := eh, gSendThreadPool := gSendThreadPool st @ [notify_job b]\<rparr>,
           with_subs demo_svc [demo_sub\<lparr>outgoing := [(notify_job b)\<lparr>jobId := STALE_JOBID\<rparr>]\<rparr>] 1) \<and>
     structs eh b = Some \<lparr>nt_sid = sid demo_sub, nt_ctime = 5, reference_count = t, nt_handle = 1\<rparr> \<and>
     texts eh t = Some (x\<lparr>ref_count := ref_count x + 1\<rparr>)"
proof -
  have "take 43 (sid demo_sub) = sid demo_sub" by (simp add: demo_sub_def)
  moreover have "outgoing demo_sub = []" by (simp add: demo_sub_def)
  moreover have "subscriptionList demo_svc = [demo_sub]" "TotalSubscriptions demo_svc = 1" by (simp_all add: demo_svc_def)
  moreover have "demo_svc\<lparr>subscriptionList := l, TotalSubscriptions := 1\<rparr> = demo_svc\<lparr>subscriptionList := l\<rparr>" for l
    by (simp add: demo_svc_def)
  ultimately show ?thesis using assms
    by (intro exI [of _ "(events st)\<lparr>texts := (texts (events st))(t \<mapsto> x\<lparr>ref_count := ref_count x + 1\<rparr>),
        structs := (structs (events st))(ev_brk (events st) \<mapsto> \<lparr>nt_sid = sid demo_sub, nt_ctime = 5, reference_count = t, nt_handle = 1\<rparr>), ev_brk := ev_brk (events st) + 1\<rparr>"] exI [of _ "ev_brk (events st)"])
      (simp add: queue_event_def demo_ok_def maybeDiscardEvents_def new_struct_def upd_sub_def pool_add_def with_subs_def Let_def)
qed

lemma demo_notify:
  "\<exists>s. run_action demo_event demo_system = Some s \<and> (\<exists>sub. ((1, ''s'', ''u''), sub) \<in> set (csubs (sdk s)) \<and>
     sid sub = sid demo_sub \<and> expireTime sub = 0 \<and> length (outgoing sub) = 1 \<and>
     list_ex (job_for (sdk s) sub) (map arg (gSendThreadPool (sdk s))))"
proof -
  let ?x = "\<lparr>ref_count = 0, ev_headers = AllocGenaHeaders ''<p/>'', ev_propertySet = ''<p/>'', ev_servId = ''s'', ev_UDN = ''u''\<rparr>"
  obtain t eh where nt: "new_text (events demo_sdk) ?x = (t, eh)" by fastforce
  let ?st = "demo_sdk\<lparr>events := eh, locked := True\<rparr>"
  have tab: "slot ?st = slot demo_sdk" "tables_wf ?st = tables_wf demo_sdk" by (rule table_only, simp)+
  have wf: "tables_wf ?st" using demo_initial by (simp add: tab initial_def demo_system_def)
  have sl: "slot ?st 1 = Some demo_device" by (simp add: tab demo_slot)
  have dev: "HType demo_device = HND_DEVICE" "serviceList (ServiceTable demo_device) = [demo_svc]"
    by (simp_all add: demo_device_def zero_table_def)
  have g: "GetHandleInfo ?st 1 = HND_DEVICE" using slot_device [OF sl] dev by simp
  have sv: "service_at ?st 1 0 = demo_svc" "has_service ?st 1 0" using sl dev by (simp_all add: service_at_def has_service_def)
  have f: "find_service ?st 1 ''s'' ''u'' = Some (Some 0)"
    using sl dev by (simp add: find_service_def FindServiceId_def demo_svc_def and_then_def str_eq_def)
  have first: "GetFirstSubscription eh 6 demo_svc = Some (Some 0, eh, demo_svc)"
    by (simp add: GetFirstSubscription_def demo_svc_def demo_sub_def expired_def)
  have t: "texts (events ?st) t = Some ?x" using nt by (auto simp: new_text_def)
  obtain eh2 b where q: "queue_event demo_ok 1 t ?st demo_svc 0 =
     Some (None, ?st\<lparr>events := eh2, gSendThreadPool := gSendThreadPool ?st @ [notify_job b]\<rparr>,
           with_subs demo_svc [demo_sub\<lparr>outgoing := [(notify_job b)\<lparr>jobId := STALE_JOBID\<rparr>]\<rparr>] 1)"
    "structs eh2 b = Some \<lparr>nt_sid = sid demo_sub, nt_ctime = 5, reference_count = t, nt_handle = 1\<rparr>"
    "texts eh2 t = Some (?x\<lparr>ref_count := 1\<rparr>)" using demo_queue [OF t] by auto
  let ?svc = "with_subs demo_svc [demo_sub\<lparr>outgoing := [(notify_job b)\<lparr>jobId := STALE_JOBID\<rparr>]\<rparr>] 1"
  let ?st2 = "?st\<lparr>events := eh2, gSendThreadPool := [notify_job b]\<rparr>"
  have lp: "notify_loop (\<lambda>k. demo_ok) 1 1 t ?st demo_svc 0 = Some (UPNP_E_SUCCESS, ?st2, ?svc)"
    using q(1) by (subst notify_loop.simps) (simp add: GetNextSubscription_def demo_sdk_def with_subs_def demo_ok_def)
  let ?st3 = "(put_service ?st2 1 0 ?svc)\<lparr>locked := False\<rparr>"
  have ev: "demo_event = Notify True (\<lambda>k. demo_ok) 1 ''u'' ''s'' ''<p/>''" by (simp add: demo_event_def demo_ok_def)
  have "run_action demo_event demo_system = Some (demo_system\<lparr>sdk := ?st3\<rparr>)"
    using nt g f first lp q(3) sv(1)
    by (simp add: ev genaNotifyAllCommon_def HandleLock_def demo_system_def leave_ok) (simp add: demo_ok_def demo_sdk_def leave_ok)
  moreover have "((1, ''s'', ''u''), demo_sub\<lparr>outgoing := [(notify_job b)\<lparr>jobId := STALE_JOBID\<rparr>]\<rparr>) \<in> set (csubs ?st3)"
  proof -
    have tb: "HandleTable ?st2 = HandleTable ?st" by simp
    have wf2: "tables_wf ?st2" "has_service ?st2 1 0" using wf sv(2) table_only [OF tb] by simp_all
    have "csubs ?st3 = csubs (put_service ?st2 1 0 ?svc)" by (rule table_only) simp
    moreover obtain A B where "csubs (put_service ?st2 1 0 ?svc) = A @ svc_subs 1 ?svc @ B"
      using csubs_split [OF wf2] by blast
    ultimately show ?thesis by (simp add: svc_context_def demo_svc_def)
  qed
  moreover have "job_for ?st3 (demo_sub\<lparr>outgoing := [(notify_job b)\<lparr>jobId := STALE_JOBID\<rparr>]\<rparr>) b"
    using q(2) by (simp add: job_for_def)
  ultimately show ?thesis
    by (intro exI [of _ "demo_system\<lparr>sdk := ?st3\<rparr>"] conjI exI [of _ "demo_sub\<lparr>outgoing := [(notify_job b)\<lparr>jobId := STALE_JOBID\<rparr>]\<rparr>"])
      (simp_all add: demo_sub_def demo_system_def)
qed

theorem one_message_at_a_time_witness:
  "\<exists>s sub a. run_action demo_event demo_system = Some s \<and> ((1, ''s'', ''u''), sub) \<in> set (csubs (sdk s)) \<and>
     List.filter (job_for (sdk s) sub) (map arg (gSendThreadPool (sdk s)) @ map fst (sending s)) = [a] \<and>
     outgoing sub \<noteq> [] \<and> arg (hd (outgoing sub)) = a"
proof -
  obtain s sub where s: "run_action demo_event demo_system = Some s" "((1, ''s'', ''u''), sub) \<in> set (csubs (sdk s))"
    "list_ex (job_for (sdk s) sub) (map arg (gSendThreadPool (sdk s)))" using demo_notify by blast
  let ?l = "List.filter (job_for (sdk s) sub) (map arg (gSendThreadPool (sdk s)) @ map fst (sending s))"
  have "?l \<noteq> []" using s(3) by (auto simp: list_ex_iff filter_empty_conv)
  moreover have "case ?l of [] \<Rightarrow> True | [a] \<Rightarrow> outgoing sub \<noteq> [] \<and> arg (hd (outgoing sub)) = a | _ \<Rightarrow> False"
    by (rule one_message_at_a_time [OF gena_reachable.step [OF demo_reachable demo_allowed s(1)] s(2)])
  ultimately obtain a where "?l = [a]" "outgoing sub \<noteq> [] \<and> arg (hd (outgoing sub)) = a"
    by (auto split: list.splits)
  then show ?thesis using s(1,2) by blast
qed

theorem queue_drains_witness:
  "\<exists>s acts s'. run_action demo_event demo_system = Some s \<and> run_actions acts s = Some s' \<and>
     length (texts_of (sent s') (sid demo_sub)) = length (texts_of (sent s) (sid demo_sub)) + 1"
proof -
  obtain s sub where s: "run_action demo_event demo_system = Some s" "((1, ''s'', ''u''), sub) \<in> set (csubs (sdk s))"
    "sid sub = sid demo_sub" "expireTime sub = 0" "length (outgoing sub) = 1"
    "list_ex (job_for (sdk s) sub) (map arg (gSendThreadPool (sdk s)))" using demo_notify by blast
  have "\<not> expired 0 sub" using s(4) by (simp add: expired_def)
  from queue_drains [OF gena_reachable.step [OF demo_reachable demo_allowed s(1)] s(2) this s(6)] obtain acts s' where
    "run_actions acts s = Some s'"
    "texts_of (sent s') (sid sub) = texts_of (sent s) (sid sub) @ map (text_of (sdk s)) (map arg (outgoing sub))" by blast
  then show ?thesis using s by (intro exI [of _ s] exI [of _ acts] exI [of _ s']) simp
qed

end
