(* ===== verification/Thread_Pool_Props.thy ===== *)
theory Thread_Pool_Props
  imports Thread_Pool "HOL-Library.Sublist"
begin

text \<open>
  What the thread pool guarantees: the counters in every reachable state, the conservation of jobs
  over every run, the order in which workers take jobs, the removal of jobs and its refinement by
  the pointer-level list, and the runs in which the code does not do what its callers expect.
\<close>

section \<open>The initial state\<close>

lemma grow_not_persist: "grow_section crc i tp = (nx, tp') \<Longrightarrow> nx \<noteq> C_persist"
  by (auto simp: grow_section_def split: if_splits prod.splits sum.splits dest!: create_or_wait_frame)

lemma init_sys_start:
  assumes "init_sys s"
  obtains tp0 where "call_frame tp0 (pool s)" "queued (pool s) = {#}"
    "totalThreads tp0 = 0" "busyThreads tp0 = 0" "persistentThreads tp0 = 0"
    "idleThreads (stats tp0) = 0" "workerThreads (stats tp0) = 0" "\<not> pendingWorkerThreadStart tp0"
    "workers s = spawned ((pool s)\<lparr>pendingWorkerThreadStart := False\<rparr>) (pool s) []"
  using assms
proof (cases rule: init_sys.cases)
  case (1 crc raw attr nx tp)
  let ?a = "case attr of Some a \<Rightarrow> a | None \<Rightarrow> snd (TPAttrInit (tp_attr raw))"
  let ?tp = "raw\<lparr>tp_attr := ?a, stats := StatsInit (stats raw), highJobQ := [], medJobQ := [], lowJobQ := [],
               persistentJob := None, lastJobId := 0, shutdown := False, totalThreads := 0,
               busyThreads := 0, persistentThreads := 0, pendingWorkerThreadStart := False\<rparr>"
  have "grow_section crc 0 ?tp = (nx, tp)"
    using 1(2) by (simp add: ThreadPoolInit_def Let_def split: option.splits)
  from grow_ok [OF this] grow_not_persist [OF this]
  have "call_frame ?tp tp" "queued tp = queued ?tp" by (auto simp: section_ok_def)
  moreover have "queued ?tp = {#}" by (simp add: queued_def opt_list_def)
  ultimately show thesis
    using 1(1) by (intro that [of ?tp]) (auto simp: StatsInit_def)
qed

lemma init_sys_inv: "init_sys s \<Longrightarrow> sys_inv s"
  by (erule init_sys_start) (auto simp: sys_inv_def call_frame_def spawned_def cnt_def)

lemma run_inv: "run s es t \<Longrightarrow> sys_inv s \<Longrightarrow> sys_inv t"
  by (induction rule: run.induct) (auto intro: step_inv)

lemma reachable_inv: "reachable s \<Longrightarrow> sys_inv s"
  by (auto simp: reachable_def intro: run_inv init_sys_inv)

section \<open>Conservation of jobs\<close>

fun accepted :: "event \<Rightarrow> ThreadPoolJob list" where
  "accepted (Accepted j) = [j]" | "accepted _ = []"

fun left_pool :: "event \<Rightarrow> ThreadPoolJob list" where
  "left_pool (Accepted j) = []" | "left_pool (Started j) = [j]" | "left_pool (Removed j) = [j]"
| "left_pool (Lost j) = [j]" | "left_pool (Discarded j) = [j]"

definition jobs_in :: "event list \<Rightarrow> ThreadPoolJob multiset" where
  "jobs_in es = mset (concat (map accepted es))"

definition jobs_out :: "event list \<Rightarrow> ThreadPoolJob multiset" where
  "jobs_out es = mset (concat (map left_pool es))"

lemma jobs_append [simp]:
  "jobs_in (es @ fs) = jobs_in es + jobs_in fs" "jobs_out (es @ fs) = jobs_out es + jobs_out fs"
  by (simp_all add: jobs_in_def jobs_out_def)

lemma jobs_map [simp]:
  "jobs_in (map Accepted js) = mset js" "jobs_out (map Accepted js) = {#}"
  "jobs_in (map Lost js) = {#}" "jobs_out (map Lost js) = mset js"
  "jobs_in (map Removed js) = {#}" "jobs_out (map Removed js) = mset js"
  "jobs_in (map Discarded js) = {#}" "jobs_out (map Discarded js) = mset js"
  by (induction js) (auto simp: jobs_in_def jobs_out_def)

lemma jobs_Nil [simp]: "jobs_in [] = {#}" "jobs_out [] = {#}"
  by (simp_all add: jobs_in_def jobs_out_def)

lemma jobs_start [simp]:
  "jobs_in (start_events nx) = {#}" "jobs_out (start_events nx) = mset (next_jobs nx)"
  by (cases nx; simp add: jobs_in_def jobs_out_def)+

lemma section_jobs:
  "section_ok tp nx tp' \<Longrightarrow>
   queued tp' + jobs_out (persist_events nx tp tp') = queued tp + jobs_in (persist_events nx tp tp')"
  by (auto simp: section_ok_def persist_events_def split: if_splits)

lemma call_step_pool [simp]: "pool (call_step s c nx tp') = tp'"
  by (simp add: call_step_def)

lemma worker_step_pool [simp]: "pool (worker_step s i nx tp') = tp'"
  by (simp add: worker_step_def)

lemma WorkerThread_start_queued [simp]: "queued (WorkerThread_start tp) = queued tp"
  by (simp add: WorkerThread_start_def queued_def)

lemma step_jobs: "step s es s' \<Longrightarrow> queued (pool s') + jobs_out es = queued (pool s) + jobs_in es"
proof (induction rule: step.induct)
  case (w_loop i s hj p ok now lost nx tp')
  then show ?case using WorkerThread_check_queued [OF w_loop(3)] by (simp add: ac_simps)
next
  case (w_wake i s ok now to lost nx tp')
  then show ?case using WorkerThread_check_queued [OF w_wake(3)] by (simp add: ac_simps)
next
  case (c_shutdown s c freed tp')
  then show ?case
    using ThreadPoolShutdown_ok [OF c_shutdown(2)] by (simp add: queued_def del: map_append)
qed (auto simp: section_jobs AddPersistent_ok resume_before_ok resume_after_ok
      dest: ThreadPoolAdd_ok resume_persist_ok ThreadPoolRemove_ok)

lemma run_jobs: "run s es t \<Longrightarrow> queued (pool t) + jobs_out es = queued (pool s) + jobs_in es"
proof (induction rule: run.induct)
  case (run_step s es t es' u)
  then show ?case using step_jobs [OF run_step(2)]
    by (metis (no_types, lifting) jobs_append union_assoc union_commute)
qed simp

section \<open>The order of jobs\<close>

text \<open>All ordinary jobs, the urgent ones first.\<close>

definition job_order :: "ThreadPool \<Rightarrow> ThreadPoolJob list" where
  "job_order tp = highJobQ tp @ medJobQ tp @ lowJobQ tp"

abbreviation always :: "ThreadPriority \<Rightarrow> ThreadPoolJob \<Rightarrow> bool" where
  "always \<equiv> \<lambda>_ _. True"

lemma hd_append_tl: "q \<noteq> [] \<Longrightarrow> hd q # tl q @ r = q @ r"
  by (cases q) auto

lemma bump_order:
  "med_starved now tp \<Longrightarrow> bump_med always now tp = (l, tp') \<Longrightarrow> job_order tp' = job_order tp"
  "low_starved now tp \<Longrightarrow> bump_low always now tp = (l, tp') \<Longrightarrow> job_order tp' = job_order tp"
  by (auto simp: bump_med_def bump_low_def job_order_def stat_defs requeue_def med_starved_def
      low_starved_def hd_append_tl Let_def)

lemma BumpPriority_order:
  "BumpPriority always now tp = (lost, tp') \<Longrightarrow> job_order tp' = job_order tp"
  by (erule BumpPriority_rule [where P = "\<lambda>a l b. job_order b = job_order a"]) (auto dest: bump_order)

text \<open>When list nodes cannot be allocated, jobs get lost, but those that stay keep their order.\<close>

lemma subseq_move: "q \<noteq> [] \<Longrightarrow> subseq (p @ tl q @ r) (p @ q @ r)"
  by (cases q) (auto simp: subseq_append')

lemma bump_subseq:
  "med_starved now tp \<Longrightarrow> bump_med ok now tp = (l, tp') \<Longrightarrow> subseq (job_order tp') (job_order tp)"
  "low_starved now tp \<Longrightarrow> bump_low ok now tp = (l, tp') \<Longrightarrow> subseq (job_order tp') (job_order tp)"
  using subseq_move [of "medJobQ tp" "highJobQ tp" "lowJobQ tp"] subseq_move [of "lowJobQ tp" "highJobQ tp @ medJobQ tp" "[]"]
  by (auto simp: bump_med_def bump_low_def job_order_def stat_defs requeue_def med_starved_def
      low_starved_def hd_append_tl Let_def)

lemma BumpPriority_subseq:
  "BumpPriority ok now tp = (lost, tp') \<Longrightarrow> subseq (job_order tp') (job_order tp)"
  by (erule BumpPriority_rule [where P = "\<lambda>a l b. subseq (job_order b) (job_order a)"])
    (auto dest: bump_subseq subseq_order.order_trans)

lemma BumpPriority_lost:
  "BumpPriority ok now tp = (lost, tp') \<Longrightarrow> list_all (\<lambda>j. \<not> ok HIGH_PRIORITY j \<or> \<not> ok MED_PRIORITY j) lost"
  by (erule BumpPriority_rule [where P = "\<lambda>a l b. list_all (\<lambda>j. \<not> ok HIGH_PRIORITY j \<or> \<not> ok MED_PRIORITY j) l"])
    (auto simp: bump_med_def bump_low_def Let_def)

lemma BumpPriority_kept:
  assumes "BumpPriority ok now tp = (lost, tp')"
  shows "mset (job_order tp') + mset lost = mset (job_order tp)"
proof -
  have "persistentJob tp' = persistentJob tp" using BumpPriority_frame [OF assms] by (simp add: same_frame_def)
  then show ?thesis using BumpPriority_queued [OF assms] by (simp add: queued_def job_order_def add_ac)
qed

lemma job_order_add_idle [simp]: "job_order (add_idle d tp) = job_order tp"
  by (simp add: job_order_def add_idle_def)

lemma WorkerThread_pick_cases:
  assumes "WorkerThread_pick always now tp = (lost, nx, tp')" "\<not> shutdown tp"
  shows "lost = [] \<and>
    (case persistentJob tp of
       Some j \<Rightarrow> nx = W_run j 1 \<and> persistentJob tp' = None \<and> job_order tp' = job_order tp
     | None \<Rightarrow> (case job_order tp of
                  j # js \<Rightarrow> nx = W_run j 0 \<and> job_order tp' = js \<and> persistentJob tp' = None
                | [] \<Rightarrow> nx = W_exit))"
proof -
  obtain l tp1 where b: "BumpPriority always now (add_idle (-1) tp) = (l, tp1)" by fastforce
  note f = BumpPriority_frame [OF b] BumpPriority_order [OF b] BumpPriority_none_lost [OF b]
  have "persistentJob tp1 = persistentJob tp" "\<not> shutdown tp1" "job_order tp1 = job_order tp" "l = []"
    using f assms(2) by (auto simp: same_frame_def)
  moreover have "lost = l \<and>
    (case persistentJob tp1 of
       Some j \<Rightarrow> nx = W_run j 1 \<and> persistentJob tp' = None \<and> job_order tp' = job_order tp1
     | None \<Rightarrow> (case job_order tp1 of
                  j # js \<Rightarrow> nx = W_run j 0 \<and> job_order tp' = js \<and> persistentJob tp' = None
                | [] \<Rightarrow> nx = W_exit))"
    using assms(1) b \<open>\<not> shutdown tp1\<close>
    by (auto simp: WorkerThread_pick_def job_order_def stat_defs Let_def append_eq_Cons_conv
        split: option.splits list.splits)
  ultimately show ?thesis by (auto split: option.splits list.splits)
qed

section \<open>Removal on the pointer-level list\<close>

lemma take_job_split:
  "take_job i q = Some (j, r) \<Longrightarrow>
   \<exists>q1 q2. q = q1 @ j # q2 \<and> r = q1 @ q2 \<and> jobId j = i \<and> (\<forall>x \<in> set q1. jobId x \<noteq> i)"
proof (induction q arbitrary: r)
  case (Cons a q)
  show ?case
  proof (cases "jobId a = i")
    case True
    then show ?thesis using Cons.prems by (intro exI [of _ "[]"] exI [of _ q]) auto
  next
    case False
    then obtain r' where "take_job i q = Some (j, r')" "r = a # r'" using Cons.prems by auto
    then obtain q1 q2 where "q = q1 @ j # q2" "r' = q1 @ q2" "jobId j = i" "\<forall>x \<in> set q1. jobId x \<noteq> i"
      using Cons.IH by blast
    then show ?thesis
      using False \<open>r = a # r'\<close> by (intro exI [of _ "a # q1"] exI [of _ q2]) auto
  qed
qed simp

text \<open>The comparison function as the list calls it, on item pointers.\<close>

definition cmp_jobs :: "ThreadPoolJob option \<Rightarrow> ThreadPoolJob option \<Rightarrow> bool" where
  "cmp_jobs a b = (case (a, b) of (Some x, Some y) \<Rightarrow> CmpThreadPoolJob x y | _ \<Rightarrow> False)"

text \<open>The body of one of the three blocks of \<open>ThreadPoolRemove\<close>; of the local \<open>dummy\<close> only the id is set.\<close>

definition remove_from_list ::
  "ThreadPoolJob \<Rightarrow> ThreadPoolJob LinkedList \<Rightarrow> int \<Rightarrow>
   (ThreadPoolJob option \<times> ThreadPoolJob LinkedList) option" where
  "remove_from_list dummy L i =
     do {
       a \<leftarrow> ListFind L NULL (Some (dummy\<lparr>jobId := i\<rparr>));
       if a = NULL then Some (None, L) else list_delete L a
     }"

lemma find_job:
  "cmp_func L = Some cmp_jobs \<Longrightarrow> map snd ns = map Some q \<Longrightarrow>
   case take_job i q of
     None \<Rightarrow> find (\<lambda>(a, x). item_matches L (Some (t\<lparr>jobId := i\<rparr>)) x) ns = None
   | Some (j, r) \<Rightarrow> \<exists>a ns1 ns2. find (\<lambda>(a, x). item_matches L (Some (t\<lparr>jobId := i\<rparr>)) x) ns = Some (a, Some j) \<and>
       ns = ns1 @ (a, Some j) # ns2 \<and> map snd (ns1 @ ns2) = map Some r"
proof (induction ns arbitrary: q)
  case (Cons p ns)
  obtain a x q' where q: "q = x # q'" "p = (a, Some x)" "map snd ns = map Some q'"
    using Cons.prems(2) by (cases q; cases p) auto
  show ?case
  proof (cases "jobId x = i")
    case True
    then have "item_matches L (Some (t\<lparr>jobId := i\<rparr>)) (Some x)" "take_job i q = Some (x, q')"
      using q Cons.prems(1) by (auto simp: item_matches_def cmp_jobs_def CmpThreadPoolJob_def)
    then show ?thesis
      using q by (auto intro: exI [of _ "[]"])
  next
    case False
    then have f: "find (\<lambda>(a, x). item_matches L (Some (t\<lparr>jobId := i\<rparr>)) x) (p # ns) =
        find (\<lambda>(a, x). item_matches L (Some (t\<lparr>jobId := i\<rparr>)) x) ns"
      using q Cons.prems(1) by (auto simp: item_matches_def cmp_jobs_def CmpThreadPoolJob_def)
    note IH = Cons.IH [OF Cons.prems(1) q(3)]
    show ?thesis
    proof (cases "take_job i q'")
      case None
      then show ?thesis using IH f q False by simp
    next
      case (Some jr)
      obtain j r where jr: "jr = (j, r)" by fastforce
      obtain b ns1 ns2 where b: "find (\<lambda>(a, x). item_matches L (Some (t\<lparr>jobId := i\<rparr>)) x) ns = Some (b, Some j)"
        "ns = ns1 @ (b, Some j) # ns2" "map snd (ns1 @ ns2) = map Some r"
        using IH Some jr by auto
      have "p # ns = (p # ns1) @ (b, Some j) # ns2" "map snd ((p # ns1) @ ns2) = map Some (x # r)"
        using b q by simp_all
      moreover have "take_job i q = Some (j, x # r)" using False Some jr q by simp
      ultimately show ?thesis
        unfolding f b(1) by (simp only: option.case prod.case) blast
    qed
  qed
qed auto

section \<open>Executing the transition system\<close>

text \<open>
  One move of a worker or a caller, in an environment that has memory and threads to give: the
  executable part of \<open>step\<close>, for concrete runs.
\<close>

datatype action = A_start nat | A_loop nat | A_wake nat | A_done nat | A_add nat ThreadPoolJob
  | A_add_persistent nat ThreadPoolJob | A_continue nat

fun exec :: "timeval \<Rightarrow> sys \<Rightarrow> action \<Rightarrow> (event list \<times> sys) option" where
  "exec now s (A_start i) =
     (if i < length (workers s) \<and> workers s ! i = PC_starting
      then Some ([], s\<lparr>pool := WorkerThread_start (pool s), workers := (workers s)[i := PC_looping False (-1)]\<rparr>)
      else None)"
| "exec now s (A_loop i) =
     (if i < length (workers s) then
        (case workers s ! i of PC_looping hj p \<Rightarrow>
           (case WorkerThread_check always now False (WorkerThread_top hj p (pool s)) of
              (lost, nx, tp') \<Rightarrow> Some (map Lost lost @ start_events nx, worker_step s i nx tp'))
         | _ \<Rightarrow> None)
      else None)"
| "exec now s (A_wake i) =
     (if i < length (workers s) \<and> workers s ! i = PC_waiting
      then (case WorkerThread_check always now False (pool s) of
              (lost, nx, tp') \<Rightarrow> Some (map Lost lost @ start_events nx, worker_step s i nx tp'))
      else None)"
| "exec now s (A_done i) =
     (if i < length (workers s) then
        (case workers s ! i of
           PC_running j p \<Rightarrow> Some ([], s\<lparr>workers := (workers s)[i := PC_looping True p]\<rparr>)
         | _ \<Rightarrow> None)
      else None)"
| "exec now s (A_add c job) =
     (if callers s c = None
      then (case ThreadPoolAdd always 0 True now (pool s) job of
              (acc, nx, tp') \<Rightarrow> Some (map Accepted acc, call_step s c nx tp'))
      else None)"
| "exec now s (A_add_persistent c job) =
     (if callers s c = None
      then (case ThreadPoolAddPersistent 0 True now (pool s) job of
              (nx, tp') \<Rightarrow> Some (persist_events nx (pool s) tp', call_step s c nx tp'))
      else None)"
| "exec now s (A_continue c) =
     (case callers s c of
        Some (C_before cl) \<Rightarrow>
          (case resume_before 0 True now cl (pool s) of
             (nx, tp') \<Rightarrow> Some (persist_events nx (pool s) tp', call_step s c nx tp'))
      | Some (C_after cl) \<Rightarrow>
          (case resume_after 0 True now cl (pool s) of
             (nx, tp') \<Rightarrow> Some (persist_events nx (pool s) tp', call_step s c nx tp'))
      | Some C_persist \<Rightarrow>
          (case resume_persist (pool s) of (nx, tp') \<Rightarrow> Some ([], call_step s c nx tp'))
      | _ \<Rightarrow> None)"

lemma exec_step: "exec now s a = Some (es, t) \<Longrightarrow> step s es t"
  by (cases a)
    (auto split: if_splits worker_pc.splits prod.splits option.splits call_next.splits
      intro: step.intros)

fun exec_all :: "timeval \<Rightarrow> sys \<Rightarrow> action list \<Rightarrow> (event list \<times> sys) option" where
  "exec_all now s [] = Some ([], s)"
| "exec_all now s (a # as) =
     (case exec now s a of None \<Rightarrow> None
      | Some (es, t) \<Rightarrow> map_option (\<lambda>(es', u). (es @ es', u)) (exec_all now t as))"

lemma run_Cons: "run t es' u \<Longrightarrow> step s es t \<Longrightarrow> run s (es @ es') u"
proof (induction arbitrary: s es rule: run.induct)
  case (run_refl t)
  then show ?case using run_step [OF run.run_refl] by fastforce
next
  case (run_step t es1 v es2 u)
  then show ?case using run.run_step [of s "es @ es1" v es2 u] by simp
qed

lemma exec_all_run: "exec_all now s as = Some (es, t) \<Longrightarrow> run s es t"
  by (induction as arbitrary: s es)
    (auto intro: run_refl run_Cons exec_step split: option.splits)

text \<open>A pool initialised with the default attributes or with given ones.\<close>

definition raw_pool :: ThreadPool where
  "raw_pool = \<lparr>lastJobId = 0, shutdown = False, totalThreads = 0, pendingWorkerThreadStart = False,
     busyThreads = 0, persistentThreads = 0, lowJobQ = [], medJobQ = [], highJobQ = [],
     persistentJob = None,
     tp_attr = \<lparr>minThreads = 0, maxThreads = 0, stackSize = 0, maxIdleTime = 0, jobsPerThread = 0,
                maxJobsTotal = 0, starvationTime = 0, schedPolicy = 0\<rparr>,
     stats = \<lparr>totalTimeHQ = 0, totalJobsHQ = 0, totalTimeMQ = 0, totalJobsMQ = 0, totalTimeLQ = 0,
              totalJobsLQ = 0, workerThreads = 0, idleThreads = 0, maxThreadsSeen = 0\<rparr>\<rparr>"

definition boot :: "ThreadPoolAttr option \<Rightarrow> sys" where
  "boot attr =
     (case ThreadPoolInit 0 0 0 raw_pool attr of (nx, tp) \<Rightarrow>
        \<lparr>pool = tp, workers = spawned (tp\<lparr>pendingWorkerThreadStart := False\<rparr>) tp [],
         callers = (\<lambda>_. None)(0 := blocked nx)\<rparr>)"

lemma boot_init: "init_sys (boot attr)"
  by (auto simp: boot_def intro: init_sys.intros split: prod.splits)

lemma exec_reachable: "exec_all now (boot attr) as = Some (es, t) \<Longrightarrow> reachable t"
  unfolding reachable_def using boot_init exec_all_run by blast

definition a_job :: "addr \<Rightarrow> ThreadPriority \<Rightarrow> ThreadPoolJob" where
  "a_job a p = \<lparr>func = 1, arg = a, free_fn = NULL, requestTime = \<lparr>tv_sec = 0, tv_usec = 0\<rparr>,
     priority = p, jobId = 0\<rparr>"

definition t0 :: timeval where
  "t0 = \<lparr>tv_sec = 0, tv_usec = 0\<rparr>"

definition dup_run :: "action list" where
  "dup_run = [A_start 0, A_continue 0, A_loop 0, A_add 1 (a_job 10 MED_PRIORITY), A_wake 0,
     A_add 1 (a_job 11 MED_PRIORITY), A_add 2 (a_job 12 MED_PRIORITY)]"

lemma dup_run_state:
  "map_option (\<lambda>(es, t). (es, medJobQ (pool t), lastJobId (pool t), workers t, callers t 1, callers t 2))
     (exec_all t0 (boot None) dup_run) =
   Some ([Accepted ((a_job 10 MED_PRIORITY)\<lparr>jobId := 0\<rparr>), Started ((a_job 10 MED_PRIORITY)\<lparr>jobId := 0\<rparr>),
          Accepted ((a_job 11 MED_PRIORITY)\<lparr>jobId := 1\<rparr>), Accepted ((a_job 12 MED_PRIORITY)\<lparr>jobId := 1\<rparr>)],
         [(a_job 11 MED_PRIORITY)\<lparr>jobId := 1\<rparr>, (a_job 12 MED_PRIORITY)\<lparr>jobId := 1\<rparr>], 1,
         [PC_running ((a_job 10 MED_PRIORITY)\<lparr>jobId := 0\<rparr>) 0, PC_starting],
         Some (C_after (CallAdd ((a_job 11 MED_PRIORITY)\<lparr>jobId := 1\<rparr>) 0 1 1)),
         Some (C_before (CallAdd ((a_job 12 MED_PRIORITY)\<lparr>jobId := 1\<rparr>) 0 2 1)))"
  by code_simp

section \<open>Properties\<close>

text \<open>
  C16. In every state the pool can reach, under every interleaving of callers and workers and every
  answer of the environment, the counters tell the truth: \<open>totalThreads\<close> is the number of workers
  past their start and not finished, \<open>busyThreads\<close> those with a job, \<open>persistentThreads\<close> those with a
  persistent job, \<open>idleThreads\<close> those waiting, \<open>workerThreads\<close> those with an ordinary job, and a start
  is pending exactly if one created worker has not reported yet.
\<close>

theorem counters_reachable:
  assumes "reachable s"
  shows "totalThreads (pool s) = cnt is_alive (workers s) \<and>
    busyThreads (pool s) = cnt is_busy (workers s) \<and>
    persistentThreads (pool s) = cnt is_persistent (workers s) \<and>
    idleThreads (stats (pool s)) = cnt (\<lambda>w. w = PC_waiting) (workers s) \<and>
    workerThreads (stats (pool s)) = cnt is_ordinary (workers s) \<and>
    cnt (\<lambda>w. w = PC_starting) (workers s) = of_bool (pendingWorkerThreadStart (pool s))"
  using reachable_inv [OF assms] by (simp add: sys_inv_def)

definition dup_state :: sys where
  "dup_state = snd (the (exec_all t0 (boot None) dup_run))"

lemma dup_reachable: "reachable dup_state"
  using dup_run_state exec_reachable [of t0 None dup_run] by (auto simp: dup_state_def)

lemma dup_medJobQ:
  "medJobQ (pool dup_state) = [(a_job 11 MED_PRIORITY)\<lparr>jobId := 1\<rparr>, (a_job 12 MED_PRIORITY)\<lparr>jobId := 1\<rparr>]"
  using dup_run_state by (auto simp: dup_state_def)

theorem counters_reachable_witness:
  "totalThreads (pool dup_state) = 1 \<and> busyThreads (pool dup_state) = 1 \<and>
   pendingWorkerThreadStart (pool dup_state)"
  using counters_reachable [OF dup_reachable] dup_run_state
  by (auto simp: dup_state_def cnt_def split: if_splits)

text \<open>
  The number of workers, those still starting included, never exceeds the configured maximum
  (unless that is -1, for an unlimited pool).
\<close>

theorem threads_bounded:
  assumes "reachable s" "0 \<le> maxThreads (tp_attr (pool s))"
  shows "cnt is_alive (workers s) + cnt (\<lambda>w. w = PC_starting) (workers s) \<le> maxThreads (tp_attr (pool s))"
  using reachable_inv [OF assms(1)] assms(2) by (auto simp: sys_inv_def)

lemma dup_maxThreads: "maxThreads (tp_attr (pool dup_state)) = 10"
  unfolding dup_state_def by code_simp

theorem threads_bounded_witness:
  "cnt is_alive (workers dup_state) + cnt (\<lambda>w. w = PC_starting) (workers dup_state) \<le> 10"
  using threads_bounded [OF dup_reachable] by (simp add: dup_maxThreads)

text \<open>
  C5. Conservation of jobs over every run from the initialised pool: the jobs accepted so far are,
  counted with multiplicity, the jobs still queued and the jobs that were handed to a worker,
  removed by a caller, discarded by the shutdown or lost (to a failed allocation while ageing, or
  to an overwritten persistent job). No job is run twice or run without having been added.
\<close>

theorem jobs_conserved:
  assumes "init_sys s" "run s es t"
  shows "jobs_in es = queued (pool t) + jobs_out es"
proof -
  have "queued (pool s) = {#}" using assms(1) by (rule init_sys_start)
  then show ?thesis using run_jobs [OF assms(2)] by simp
qed

theorem jobs_conserved_witness:
  "\<exists>es t. run (boot None) es t \<and> size (queued (pool t)) = 2 \<and> size (jobs_in es) = 3 \<and> size (jobs_out es) = 1"
proof -
  obtain es where e: "exec_all t0 (boot None) dup_run = Some (es, dup_state)"
    "es = [Accepted ((a_job 10 MED_PRIORITY)\<lparr>jobId := 0\<rparr>), Started ((a_job 10 MED_PRIORITY)\<lparr>jobId := 0\<rparr>),
          Accepted ((a_job 11 MED_PRIORITY)\<lparr>jobId := 1\<rparr>), Accepted ((a_job 12 MED_PRIORITY)\<lparr>jobId := 1\<rparr>)]"
    using dup_run_state by (auto simp: dup_state_def)
  have r: "run (boot None) es dup_state" using e(1) by (rule exec_all_run)
  have io: "size (jobs_in es) = 3" "size (jobs_out es) = 1" by (simp_all add: e(2) jobs_in_def jobs_out_def)
  have "size (queued (pool dup_state)) + size (jobs_out es) = size (jobs_in es)"
    using jobs_conserved [OF boot_init r] by simp
  then have "size (queued (pool dup_state)) = 2" using io by simp
  then show ?thesis using r io by blast
qed

text \<open>
  A worker that finds work takes it, and takes the right job: a waiting persistent job first,
  otherwise the first of the high, medium and low queues read in this order, the order the queues
  had before the ageing; the other jobs keep their order, none is lost (while list nodes can be
  allocated), and the worker does not exit or wait.
\<close>

theorem worker_takes_first_job:
  assumes "\<not> no_work tp" "\<not> shutdown tp"
  shows "\<exists>j tp'. case persistentJob tp of
      Some pj \<Rightarrow> WorkerThread_check always now to tp = ([], W_run pj 1, tp') \<and> job_order tp' = job_order tp
    | None \<Rightarrow> WorkerThread_check always now to tp = ([], W_run j 0, tp') \<and> j # job_order tp' = job_order tp"
proof -
  obtain lost nx tp' where p: "WorkerThread_pick always now tp = (lost, nx, tp')" by (metis prod_cases3)
  have c: "WorkerThread_check always now to tp = (lost, nx, tp')"
    using assms p by (simp add: WorkerThread_check_def)
  have "persistentJob tp = None \<Longrightarrow> job_order tp \<noteq> []"
    using assms by (auto simp: no_work_def job_order_def)
  then show ?thesis
    using WorkerThread_pick_cases [OF p assms(2)] c by (auto split: option.splits list.splits)
qed

theorem worker_takes_first_job_witness:
  "\<exists>j tp'. WorkerThread_check always t0 False (raw_pool\<lparr>lowJobQ := [a_job 7 LOW_PRIORITY]\<rparr>) =
     ([], W_run j 0, tp') \<and> j # job_order tp' = [a_job 7 LOW_PRIORITY]"
  using worker_takes_first_job [of "raw_pool\<lparr>lowJobQ := [a_job 7 LOW_PRIORITY]\<rparr>" t0 False]
  by (simp add: no_work_def raw_pool_def job_order_def)

text \<open>
  C26. The ageing of jobs, which always terminates: afterwards neither the medium nor the low queue
  has a head that waited its time, the high queue only grows at its end, and the jobs that are left are in
  the same order over the three queues as before, so that a job only moves to a more urgent queue
  and never overtakes. A job is lost exactly when no list node can be allocated for it in its new queue; if no
  allocation fails, the sequence of the jobs is the same as before.
\<close>

theorem BumpPriority_ages:
  assumes "BumpPriority ok now tp = (lost, tp')"
  shows "\<not> med_starved now tp' \<and> \<not> low_starved now tp' \<and>
    (\<exists>q. highJobQ tp' = highJobQ tp @ q) \<and> length (lowJobQ tp') \<le> length (lowJobQ tp) \<and>
    subseq (job_order tp') (job_order tp) \<and> mset (job_order tp') + mset lost = mset (job_order tp) \<and>
    list_all (\<lambda>j. \<not> ok HIGH_PRIORITY j \<or> \<not> ok MED_PRIORITY j) lost \<and>
    (lost = [] \<longrightarrow> job_order tp' = job_order tp)"
proof -
  have "length (lowJobQ tp') \<le> length (lowJobQ tp)"
    using assms
    by (rule BumpPriority_rule [where P = "\<lambda>a l b. length (lowJobQ b) \<le> length (lowJobQ a)"])
      (auto simp: bump_med_def bump_low_def stat_defs Let_def)
  moreover have "job_order tp' = job_order tp" if "lost = []"
  proof -
    have "mset (job_order tp') = mset (job_order tp)" using BumpPriority_kept [OF assms] that by simp
    then have "length (job_order tp') = length (job_order tp)" by (metis size_mset)
    then show ?thesis using BumpPriority_subseq [OF assms] by (simp add: subseq_same_length)
  qed
  ultimately show ?thesis
    using BumpPriority_fresh [OF assms] BumpPriority_high_prefix [OF assms] BumpPriority_subseq [OF assms]
      BumpPriority_kept [OF assms] BumpPriority_lost [OF assms] by blast
qed

theorem BumpPriority_ages_witness:
  "\<exists>lost tp'. BumpPriority always t0 (raw_pool\<lparr>medJobQ := [a_job 7 MED_PRIORITY]\<rparr>) = (lost, tp') \<and>
     lost = [] \<and> job_order tp' = [a_job 7 MED_PRIORITY] \<and> \<not> med_starved t0 tp'"
proof -
  obtain lost tp' where b: "BumpPriority always t0 (raw_pool\<lparr>medJobQ := [a_job 7 MED_PRIORITY]\<rparr>) = (lost, tp')"
    by fastforce
  have "lost = []" using BumpPriority_ages [OF b] by (cases lost) auto
  then show ?thesis using BumpPriority_ages [OF b] b by (auto simp: job_order_def raw_pool_def)
qed

text \<open>
  C27. The queue search and deletion of \<open>ThreadPoolRemove\<close>, run on the pointer-level list, returns
  (no lookup fails, the loop ends) and removes exactly the first job with the id: the list
  represents afterwards what the removal from the sequence of jobs gives.
\<close>

theorem remove_refines:
  assumes "ll_rep L ns" "cmp_func L = Some cmp_jobs" "map snd ns = map Some q"
  shows "case take_job i q of
      None \<Rightarrow> remove_from_list dummy L i = Some (None, L)
    | Some (j, r) \<Rightarrow> \<exists>L' ns'. remove_from_list dummy L i = Some (Some j, L') \<and> ll_rep L' ns' \<and> map snd ns' = map Some r"
proof (cases "take_job i q")
  case None
  then show ?thesis
    using find_job [OF assms(2,3), of i dummy] ListFind_rep [OF assms(1)] by (simp add: remove_from_list_def)
next
  case (Some jr)
  obtain j r where jr: "jr = (j, r)" by fastforce
  obtain a ns1 ns2 where f: "find (\<lambda>(a, x). item_matches L (Some (dummy\<lparr>jobId := i\<rparr>)) x) ns = Some (a, Some j)"
      "ns = ns1 @ (a, Some j) # ns2" "map snd (ns1 @ ns2) = map Some r"
    using find_job [OF assms(2,3), of i dummy] Some jr by auto
  have "a \<noteq> NULL" using assms(1) f(2) by (auto simp: ll_rep_def)
  moreover obtain L' where "list_delete L a = Some (Some j, L')" "ll_rep L' (ns1 @ ns2)"
    using ll.delete_ok [of L ns1 a "Some j" ns2] assms(1) f(2) by auto
  moreover have "ListFind L NULL (Some (dummy\<lparr>jobId := i\<rparr>)) = Some a"
    using ListFind_rep [OF assms(1)] f(1) by simp
  ultimately show ?thesis
    using Some jr f(3) by (auto simp: remove_from_list_def)
qed

definition one_job_list :: "ThreadPoolJob LinkedList" where
  "one_job_list = \<lparr>heap = [HEAD \<mapsto> \<lparr>n_prev = NULL, n_next = 3, n_item = None\<rparr>,
       3 \<mapsto> \<lparr>n_prev = HEAD, n_next = TAIL, n_item = Some (a_job 7 LOW_PRIORITY)\<rparr>,
       TAIL \<mapsto> \<lparr>n_prev = 3, n_next = NULL, n_item = None\<rparr>],
     size_of = 1,
     freeNodeList = \<lparr>fl_head = [], element_size = 0, maxFreeListLength = 100, freeListLength = 0\<rparr>,
     free_func = False, cmp_func = Some cmp_jobs\<rparr>"

lemma one_job_list_rep: "ll_rep one_job_list [(3, Some (a_job 7 LOW_PRIORITY))]"
  by (auto simp: ll_rep_def one_job_list_def HEAD_def TAIL_def linked_def fl_inv_def fl_cells_def)

theorem remove_refines_witness:
  "\<exists>L'. remove_from_list (a_job 0 LOW_PRIORITY) one_job_list 0 = Some (Some (a_job 7 LOW_PRIORITY), L') \<and> ll_rep L' []"
  using remove_refines [OF one_job_list_rep, where q = "[a_job 7 LOW_PRIORITY]" and i = 0 and dummy = "a_job 0 LOW_PRIORITY"]
  by (auto simp: one_job_list_def a_job_def)

text \<open>
  Job ids are not unique: from the default attributes a state is reachable in which two
  different jobs wait with the same id. \<open>ThreadPoolAdd\<close> gives the job the value of \<open>lastJobId\<close>, but
  increments it only after \<open>AddWorker\<close>, whose wait for a new worker releases the mutex.
\<close>

theorem duplicate_job_ids:
  "\<exists>s j k. reachable s \<and> medJobQ (pool s) = [j, k] \<and> arg j \<noteq> arg k \<and> jobId j = jobId k"
  using dup_reachable dup_medJobQ by (auto simp: a_job_def intro!: exI [of _ dup_state])

text \<open>
  A persistent job can be lost: two callers may both be inside \<open>ThreadPoolAddPersistent\<close>, and the
  second stores its job over the first one, which no worker has picked up yet; the first job is
  in no queue and never runs, and both callers return success.
\<close>

theorem persistent_job_lost:
  "\<exists>s. reachable s \<and> (\<exists>es t j k. step s es t \<and> persistentJob (pool s) = Some j \<and>
     persistentJob (pool t) = Some k \<and> arg j \<noteq> arg k \<and> Lost j \<in> set es)"
proof -
  let ?as = "[A_start 0, A_continue 0, A_loop 0, A_add_persistent 1 (a_job 10 MED_PRIORITY), A_start 1, A_continue 1,
     A_add_persistent 2 (a_job 11 MED_PRIORITY), A_start 2]"
  have "map_option (\<lambda>(es, t). (map_option arg (persistentJob (pool t)),
      map_option (\<lambda>(es', u). (map_option arg (persistentJob (pool u)), es')) (exec t0 t (A_continue 2))))
     (exec_all t0 (boot None) ?as) =
   Some (Some 10, Some (Some 11, [Accepted (a_job 11 MED_PRIORITY), Lost (a_job 10 MED_PRIORITY)]))"
    by code_simp
  then obtain es t es' u where x: "exec_all t0 (boot None) ?as = Some (es, t)" "exec t0 t (A_continue 2) = Some (es', u)"
    "map_option arg (persistentJob (pool t)) = Some 10" "map_option arg (persistentJob (pool u)) = Some 11"
    "es' = [Accepted (a_job 11 MED_PRIORITY), Lost (a_job 10 MED_PRIORITY)]" by auto
  have "persistentJob (pool t) = Some (a_job 10 MED_PRIORITY)"
    using x(2,5) by (auto simp: persist_events_def opt_list_def split: option.splits call_next.splits prod.splits if_splits)
  moreover obtain k where "persistentJob (pool u) = Some k" "arg k = 11" using x(4) by auto
  ultimately show ?thesis
    using exec_reachable [OF x(1)] exec_step [OF x(2)] x(5)
    by (intro exI [of _ t] conjI exI [of _ es'] exI [of _ u] exI [of _ "a_job 10 MED_PRIORITY"] exI [of _ k])
      (simp_all add: a_job_def)
qed

text \<open>
  With \<open>maxThreads\<close> set to \<open>INFINITE_THREADS\<close> a pool with exactly one ordinary worker refuses every
  persistent job with \<open>EMAXTHREADS\<close>, and with more workers it never creates a thread for it, although
  such a pool has no limit: the guard compares with -1 as if it were a number of threads.
\<close>

theorem AddPersistent_infinite:
  assumes "maxThreads (tp_attr tp) = INFINITE_THREADS" "0 \<le> totalThreads tp"
  shows "ThreadPoolAddPersistent crc a now tp job =
    (if totalThreads tp - persistentThreads tp = 1 then (C_return EMAXTHREADS (Some INVALID_JOB_ID), tp)
     else AddPersistent_post a now job tp)"
  using assms by (auto simp: ThreadPoolAddPersistent_def codes)

theorem AddPersistent_infinite_witness:
  "ThreadPoolAddPersistent 0 True t0
     (raw_pool\<lparr>totalThreads := 1, tp_attr := (tp_attr raw_pool)\<lparr>maxThreads := -1\<rparr>\<rparr>) (a_job 7 MED_PRIORITY) =
   (C_return EMAXTHREADS (Some INVALID_JOB_ID),
    raw_pool\<lparr>totalThreads := 1, tp_attr := (tp_attr raw_pool)\<lparr>maxThreads := -1\<rparr>\<rparr>)"
  using AddPersistent_infinite
    [of "raw_pool\<lparr>totalThreads := 1, tp_attr := (tp_attr raw_pool)\<lparr>maxThreads := -1\<rparr>\<rparr>" 0 True t0 "a_job 7 MED_PRIORITY"]
  by (simp add: codes raw_pool_def)

end
