(* ===== verification/Timer_Thread.thy ===== *)
theory Timer_Thread
  imports Linked_List Thread_Pool
begin

text \<open>
  The timer of \<^verbatim>\<open>upnp/src/threadutil/TimerThread.c\<close>: a queue of events in the order of their times, a
  pointer-level linked list, and a worker that hands the job of an event to the thread pool when its time
  has come. The events are cells of a free list; an item of the queue is the event with the address of its
  cell. A call runs under the timer's mutex and is one step, and so is one round of the worker's loop: the
  worker keeps the mutex while it calls the pool, whose answer is the argument \<open>rc\<close>. \<open>None\<close>
  stands for an access through an invalid pointer and for a loop that does not end.
\<close>

section \<open>Data\<close>

datatype Duration = SHORT_TERM | PERSISTENT

datatype TimeoutType = ABS_SEC | REL_SEC

record TimerEvent =
  ev_cell :: addr
  ev_job :: ThreadPoolJob
  eventTime :: int
  persistent :: Duration
  ev_id :: int

record TimerThread =
  lastEventId :: int
  eventQ :: "TimerEvent LinkedList"
  timer_shutdown :: bool
  freeEvents :: FreeList

definition INVALID_EVENT_ID :: int where [codes]: "INVALID_EVENT_ID = (-10) AND push_bit 29 1"

section \<open>Operations\<close>

definition FreeTimerEvent :: "TimerThread \<Rightarrow> TimerEvent \<Rightarrow> TimerThread" where
  "FreeTimerEvent timer ev = (case FreeListFree (freeEvents timer) (ev_cell ev) of (rc, fl, freed) \<Rightarrow> timer\<lparr>freeEvents := fl\<rparr>)"

text \<open>A job that the pool refuses is released, when it has an argument and a function for that.\<close>

definition refused_args :: "int \<Rightarrow> ThreadPoolJob \<Rightarrow> addr list" where
  "refused_args rc job = (if rc \<noteq> 0 \<and> arg job \<noteq> NULL \<and> free_fn job \<noteq> NULL then [arg job] else [])"

text \<open>How a round of the worker ends: it stops, it has submitted an event, or it waits.\<close>

datatype timer_next = T_exit | T_return | T_submit TimerEvent "addr list" | T_timedwait int | T_wait

definition TimerThreadWorker :: "int \<Rightarrow> int \<Rightarrow> TimerThread \<Rightarrow> (timer_next \<times> TimerThread) option" where
  "TimerThreadWorker currentTime rc timer =
     (if timer_shutdown timer then Some (T_exit, timer\<lparr>timer_shutdown := False\<rparr>)
      else if 0 < size_of (eventQ timer) then do {
        hd \<leftarrow> ListHead (eventQ timer);
        if hd = NULL then Some (T_return, timer)
        else do {
          node \<leftarrow> heap (eventQ timer) hd;
          nextEvent \<leftarrow> n_item node;
          if eventTime nextEvent \<le> currentTime then do {
            (it, freed, q) \<leftarrow> ListDelNode (eventQ timer) hd False;
            Some (T_submit nextEvent (refused_args rc (ev_job nextEvent)), FreeTimerEvent (timer\<lparr>eventQ := q\<rparr>) nextEvent)
          }
          else Some (T_timedwait (eventTime nextEvent), timer)
        }
      }
      else Some (T_wait, timer))"

definition CalculateEventTime :: "int \<Rightarrow> int \<Rightarrow> TimeoutType \<Rightarrow> int" where
  "CalculateEventTime now timeout type = (case type of ABS_SEC \<Rightarrow> timeout | REL_SEC \<Rightarrow> timeout + now)"

definition CreateTimerEvent ::
  "addr \<Rightarrow> TimerThread \<Rightarrow> ThreadPoolJob \<Rightarrow> Duration \<Rightarrow> int \<Rightarrow> int \<Rightarrow> TimerEvent option \<times> TimerThread" where
  "CreateTimerEvent mal timer job dur time i =
     (case FreeListAlloc mal (freeEvents timer) of (temp, fl) \<Rightarrow>
        (if temp = NULL then None
         else Some \<lparr>ev_cell = temp, ev_job = job, eventTime = time, persistent = dur, ev_id = i\<rparr>,
         timer\<lparr>freeEvents := fl\<rparr>))"

text \<open>
  The timer before the mutex and the condition exist; \<open>sys_rc\<close> sums up what their creation returns,
  \<open>add_rc\<close> is the pool's answer to the worker's job, which is returned as well.
\<close>

definition TimerThreadInit ::
  "int \<Rightarrow> int \<Rightarrow> ThreadPoolJob \<Rightarrow> addr \<Rightarrow> addr \<Rightarrow> TimerThread \<Rightarrow> (int \<times> ThreadPoolJob \<times> TimerThread) option" where
  "TimerThreadInit sys_rc add_rc raw worker self timer =
     (let (rc1, fl) = FreeListInit (freeEvents timer) 64 100;
          (rc2, q) = ListInit (eventQ timer) None False;
          timer1 = timer\<lparr>freeEvents := fl, timer_shutdown := False, lastEventId := 0, eventQ := q\<rparr>;
          job = snd (TPJobSetPriority (snd (TPJobInit raw worker self)) HIGH_PRIORITY);
          rc = (if sys_rc + rc1 + rc2 \<noteq> 0 then EAGAIN else add_rc)
      in if rc \<noteq> 0 then do {
           (rc3, freed, q1) \<leftarrow> ListDestroy (eventQ timer1) False;
           Some (rc, job, timer1\<lparr>freeEvents := fst (snd (FreeListDestroy (freeEvents timer1))), eventQ := q1\<rparr>)
         }
         else Some (rc, job, timer1))"

text \<open>The search for the place of a new event.\<close>

partial_function (option) schedule_loop ::
  "addr \<Rightarrow> TimerEvent LinkedList \<Rightarrow> TimerEvent \<Rightarrow> addr \<Rightarrow> (addr \<times> TimerEvent LinkedList) option" where
  "schedule_loop mal q newEvent tempNode =
     (if tempNode = NULL then ListAddTail mal q (Some newEvent)
      else do {
        node \<leftarrow> heap q tempNode;
        temp \<leftarrow> n_item node;
        if eventTime newEvent \<le> eventTime temp then ListAddBefore mal q (Some newEvent) tempNode
        else do { nx \<leftarrow> ListNext q tempNode; schedule_loop mal q newEvent nx }
      })"

text \<open>\<open>lastEventId\<close> is an \<open>int\<close> that is incremented; C leaves its overflow undefined, here it wraps around.\<close>

definition TimerThreadSchedule ::
  "addr \<Rightarrow> addr \<Rightarrow> int \<Rightarrow> TimerThread \<Rightarrow> int \<Rightarrow> TimeoutType \<Rightarrow> ThreadPoolJob \<Rightarrow> Duration \<Rightarrow> (int \<times> int \<times> TimerThread) option" where
  "TimerThreadSchedule mal_event mal_node now timer timeout type job dur =
     (case CreateTimerEvent mal_event timer job dur (CalculateEventTime now timeout type) (lastEventId timer) of
        (None, timer1) \<Rightarrow> Some (EOUTOFMEM, INVALID_EVENT_ID, timer1)
      | (Some newEvent, timer1) \<Rightarrow> do {
          hd \<leftarrow> ListHead (eventQ timer1);
          (n, q) \<leftarrow> schedule_loop mal_node (eventQ timer1) newEvent hd;
          let timer2 = timer1\<lparr>eventQ := q\<rparr>;
          let timer3 = (if n \<noteq> NULL then timer2 else FreeTimerEvent timer2 newEvent);
          Some (if n \<noteq> NULL then 0 else EOUTOFMEM, lastEventId timer3, timer3\<lparr>lastEventId := to_int32 (lastEventId timer3 + 1)\<rparr>)
        })"

partial_function (option) remove_loop :: "TimerThread \<Rightarrow> int \<Rightarrow> addr \<Rightarrow> (int \<times> ThreadPoolJob option \<times> TimerThread) option" where
  "remove_loop timer i tempNode =
     (if tempNode = NULL then Some (INVALID_EVENT_ID, None, timer)
      else do {
        node \<leftarrow> heap (eventQ timer) tempNode;
        temp \<leftarrow> n_item node;
        if ev_id temp = i then do {
          (it, freed, q) \<leftarrow> ListDelNode (eventQ timer) tempNode False;
          Some (0, Some (ev_job temp), FreeTimerEvent (timer\<lparr>eventQ := q\<rparr>) temp)
        }
        else do { nx \<leftarrow> ListNext (eventQ timer) tempNode; remove_loop timer i nx }
      })"

definition TimerThreadRemove :: "TimerThread \<Rightarrow> int \<Rightarrow> (int \<times> ThreadPoolJob option \<times> TimerThread) option" where
  "TimerThreadRemove timer i = do { hd \<leftarrow> ListHead (eventQ timer); remove_loop timer i hd }"

text \<open>The part of \<open>TimerThreadShutdown\<close> up to its wait for the worker; the arguments passed to free functions.\<close>

partial_function (option) shutdown_loop :: "TimerThread \<Rightarrow> addr \<Rightarrow> (addr list \<times> TimerThread) option" where
  "shutdown_loop timer tempNode =
     (if tempNode = NULL then Some ([], timer)
      else do {
        node \<leftarrow> heap (eventQ timer) tempNode;
        temp \<leftarrow> n_item node;
        tempNode2 \<leftarrow> ListNext (eventQ timer) tempNode;
        (it, freed, q) \<leftarrow> ListDelNode (eventQ timer) tempNode False;
        (args, timer1) \<leftarrow> shutdown_loop (FreeTimerEvent (timer\<lparr>eventQ := q\<rparr>) temp) tempNode2;
        Some ((if free_fn (ev_job temp) \<noteq> NULL then [arg (ev_job temp)] else []) @ args, timer1)
      })"

definition TimerThreadShutdown :: "TimerThread \<Rightarrow> (addr list \<times> TimerThread) option" where
  "TimerThreadShutdown timer0 =
     do {
       let timer = timer0\<lparr>timer_shutdown := True\<rparr>;
       hd \<leftarrow> ListHead (eventQ timer);
       (args, timer1) \<leftarrow> shutdown_loop timer hd;
       (rc, freed, q) \<leftarrow> ListDestroy (eventQ timer1) False;
       Some (args, timer1\<lparr>eventQ := q, freeEvents := fst (snd (FreeListDestroy (freeEvents timer1)))\<rparr>)
     }"

declare schedule_loop.simps [code] remove_loop.simps [code] shutdown_loop.simps [code]

section \<open>The queue as a sequence\<close>

text \<open>
  The timer \<open>timer\<close> holds the events \<open>q\<close>: the linked list represents them, and their cells are different from
  each other and from the cells of the free list.
\<close>

definition cells_ok :: "FreeList \<Rightarrow> TimerEvent list \<Rightarrow> bool" where
  "cells_ok fl q \<longleftrightarrow>
     fl_inv fl \<and> distinct (map ev_cell q) \<and> NULL \<notin> ev_cell ` set q \<and> ev_cell ` set q \<inter> fl_cells fl = {}"

definition timer_rep :: "TimerThread \<Rightarrow> TimerEvent list \<Rightarrow> bool" where
  "timer_rep timer q \<longleftrightarrow>
     (\<exists>ns. ll_rep (eventQ timer) ns \<and> map snd ns = map Some q) \<and> cells_ok (freeEvents timer) q"

text \<open>What \<open>malloc\<close> may return for a new event.\<close>

definition live_cells :: "TimerThread \<Rightarrow> addr set" where
  "live_cells timer = {ev_cell e |a n e. heap (eventQ timer) a = Some n \<and> n_item n = Some e}"

definition event_mal_ok :: "TimerThread \<Rightarrow> addr \<Rightarrow> bool" where
  "event_mal_ok timer mal \<longleftrightarrow> mal = NULL \<or> mal \<notin> live_cells timer \<union> fl_cells (freeEvents timer)"

lemma timer_rep_live: "timer_rep timer q \<Longrightarrow> ev_cell ` set q \<subseteq> live_cells timer"
proof (rule image_subsetI)
  fix e
  assume "timer_rep timer q" "e \<in> set q"
  then obtain ns where ns: "ll_rep (eventQ timer) ns" "map snd ns = map Some q" by (auto simp: timer_rep_def)
  then have "Some e \<in> snd ` set ns" using \<open>e \<in> set q\<close> by (metis image_eqI list.set_map)
  then obtain a where "(a, Some e) \<in> set ns" by auto
  from ll_rep_item [OF ns(1) this] show "ev_cell e \<in> live_cells timer" by (auto simp: live_cells_def)
qed

text \<open>The events in front of which a new one is put are those that are not earlier.\<close>

definition insert_event :: "TimerEvent \<Rightarrow> TimerEvent list \<Rightarrow> TimerEvent list" where
  "insert_event e q = takeWhile (\<lambda>x. eventTime x < eventTime e) q @ e # dropWhile (\<lambda>x. eventTime x < eventTime e) q"

definition take_event :: "int \<Rightarrow> TimerEvent list \<Rightarrow> TimerEvent list" where
  "take_event i q = takeWhile (\<lambda>x. ev_id x \<noteq> i) q @ tl (dropWhile (\<lambda>x. ev_id x \<noteq> i) q)"

lemma insert_event_mset: "mset (insert_event e q) = add_mset e (mset q)"
proof -
  have "mset (insert_event e q) = add_mset e (mset (takeWhile (\<lambda>x. eventTime x < eventTime e) q @ dropWhile (\<lambda>x. eventTime x < eventTime e) q))"
    by (simp add: insert_event_def del: takeWhile_dropWhile_id)
  then show ?thesis by simp
qed

lemma insert_event_sorted: "sorted (map eventTime q) \<Longrightarrow> sorted (map eventTime (insert_event e q))"
proof (induction q)
  case (Cons x q)
  then show ?case
    by (auto simp: insert_event_def dest: set_takeWhileD set_dropWhileD)
qed (simp add: insert_event_def)

lemma node_at:
  assumes "ll_rep L (ns1 @ (a, Some e) # ns2)"
  obtains n where "heap L a = Some n" "n_item n = Some e" "a \<noteq> NULL"
proof -
  have "map_option n_item (heap L a) = Some (Some e)" using ll_rep_item [OF assms, of a "Some e"] by simp
  moreover have "a \<noteq> NULL" using assms by (auto simp: ll_rep_def)
  ultimately show thesis using that by auto
qed

lemma schedule_loop_rep:
  assumes "ll_rep L (ns1 @ ns2)" "mal_ok L mal" "map snd ns2 = map Some q"
  shows "\<exists>n L'. schedule_loop mal L e (case ns2 of [] \<Rightarrow> NULL | (a, v) # _ \<Rightarrow> a) = Some (n, L') \<and>
    (n = NULL \<and> L' = L \<or> n \<noteq> NULL \<and> (\<exists>ns'. ll_rep L' (ns1 @ ns') \<and> map snd ns' = map Some (insert_event e q)))"
  using assms
proof (induction q arbitrary: ns1 ns2)
  case Nil
  then show ?case
    using ListAddTail_rep [of L ns1 mal "Some e"]
    by (auto simp: schedule_loop.simps [of mal L e NULL] insert_event_def) (metis list.map(1) list.map(2) snd_conv)+
next
  case (Cons x q)
  then obtain a ns where ns: "ns2 = (a, Some x) # ns" "map snd ns = map Some q" by (cases ns2) auto
  obtain n where n: "heap L a = Some n" "n_item n = Some x" "a \<noteq> NULL"
    using node_at [of L ns1 a x ns] Cons.prems(1) ns(1) by blast
  show ?case
  proof (cases "eventTime e \<le> eventTime x")
    case True
    obtain m L' where m: "ListAddBefore mal L (Some e) a = Some (m, L')"
        "m = NULL \<and> mal = NULL \<and> L' = L \<or> m \<noteq> NULL \<and> ll_rep L' (ns1 @ (m, Some e) # ns2)"
      using ListAddBefore_rep [OF Cons.prems(1,2), of a "map fst ns @ [TAIL]" "Some e"] ns by auto
    have "insert_event e (x # q) = e # x # q" using True by (simp add: insert_event_def)
    moreover have "schedule_loop mal L e a = Some (m, L')"
      using n m True by (simp add: schedule_loop.simps [of mal L e a])
    ultimately show ?thesis using m(2) ns Cons.prems(3) by (auto intro!: exI [of _ "(m, Some e) # ns2"])
  next
    case False
    have nx: "ListNext L a = Some (case ns of [] \<Rightarrow> NULL | (b, w) # _ \<Rightarrow> b)"
      using ListNext_rep [of L ns1 a "Some x" ns] Cons.prems(1) ns by simp
    have "ll_rep L ((ns1 @ [(a, Some x)]) @ ns)" using Cons.prems(1) ns by simp
    from Cons.IH [OF this Cons.prems(2) ns(2)] obtain m L' where m:
      "schedule_loop mal L e (case ns of [] \<Rightarrow> NULL | (a, v) # _ \<Rightarrow> a) = Some (m, L')"
      "m = NULL \<and> L' = L \<or> m \<noteq> NULL \<and> (\<exists>ns'. ll_rep L' ((ns1 @ [(a, Some x)]) @ ns') \<and> map snd ns' = map Some (insert_event e q))"
      by blast
    have "insert_event e (x # q) = x # insert_event e q" using False by (simp add: insert_event_def)
    moreover have "schedule_loop mal L e a = Some (m, L')"
      using n nx m(1) False by (simp add: schedule_loop.simps [of mal L e a])
    ultimately show ?thesis using m(2) ns by (auto intro!: exI [of _ "(a, Some x) # _"])
  qed
qed

lemma remove_loop_rep:
  assumes "ll_rep (eventQ t) (ns1 @ ns2)" "map snd ns2 = map Some q"
  shows "case find (\<lambda>e. ev_id e = i) q of
      None \<Rightarrow> remove_loop t i (case ns2 of [] \<Rightarrow> NULL | (a, v) # _ \<Rightarrow> a) = Some (INVALID_EVENT_ID, None, t)
    | Some e \<Rightarrow> \<exists>L ns'. remove_loop t i (case ns2 of [] \<Rightarrow> NULL | (a, v) # _ \<Rightarrow> a) =
          Some (0, Some (ev_job e), FreeTimerEvent (t\<lparr>eventQ := L\<rparr>) e) \<and>
        ll_rep L (ns1 @ ns') \<and> map snd ns' = map Some (take_event i q)"
  using assms
proof (induction q arbitrary: ns1 ns2)
  case Nil
  then show ?case by (simp add: remove_loop.simps [of t i NULL])
next
  case (Cons x q)
  then obtain a ns where ns: "ns2 = (a, Some x) # ns" "map snd ns = map Some q" by (cases ns2) auto
  obtain n where n: "heap (eventQ t) a = Some n" "n_item n = Some x" "a \<noteq> NULL"
    using node_at [of "eventQ t" ns1 a x ns] Cons.prems(1) ns(1) by blast
  show ?case
  proof (cases "ev_id x = i")
    case True
    obtain L where L: "ListDelNode (eventQ t) a False = Some (Some x, [], L)" "ll_rep L (ns1 @ ns)"
      using ListDelNode_rep [of "eventQ t" ns1 a "Some x" ns False] Cons.prems(1) ns by auto
    have "take_event i (x # q) = q" using True by (simp add: take_event_def)
    then show ?thesis
      using True n L ns by (auto simp: remove_loop.simps [of t i a] intro!: exI [of _ L] exI [of _ ns])
  next
    case False
    have nx: "ListNext (eventQ t) a = Some (case ns of [] \<Rightarrow> NULL | (b, w) # _ \<Rightarrow> b)"
      using ListNext_rep [of "eventQ t" ns1 a "Some x" ns] Cons.prems(1) ns by simp
    have step: "remove_loop t i a = remove_loop t i (case ns of [] \<Rightarrow> NULL | (b, w) # _ \<Rightarrow> b)"
      using n nx False by (simp add: remove_loop.simps [of t i a])
    have tk: "take_event i (x # q) = x # take_event i q" using False by (simp add: take_event_def)
    have "ll_rep (eventQ t) ((ns1 @ [(a, Some x)]) @ ns)" using Cons.prems(1) ns by simp
    note IH = Cons.IH [OF this ns(2)]
    show ?thesis
    proof (cases "find (\<lambda>e. ev_id e = i) q")
      case None
      then show ?thesis using IH step False ns by simp
    next
      case (Some e)
      then obtain L ns' where L: "remove_loop t i (case ns of [] \<Rightarrow> NULL | (a, v) # _ \<Rightarrow> a) =
          Some (0, Some (ev_job e), FreeTimerEvent (t\<lparr>eventQ := L\<rparr>) e)"
        "ll_rep L (ns1 @ (a, Some x) # ns')" "map snd ns' = map Some (take_event i q)"
        using IH by auto
      then show ?thesis using Some step False ns tk by (auto intro!: exI [of _ L] exI [of _ "(a, Some x) # ns'"])
    qed
  qed
qed

section \<open>The cells of the events\<close>

lemma cells_alloc:
  assumes "cells_ok fl q" "mal = NULL \<or> mal \<notin> ev_cell ` set q \<union> fl_cells fl" "FreeListAlloc mal fl = (a, fl')"
  shows "cells_ok fl' q \<and> (a \<noteq> NULL \<longrightarrow> a \<notin> ev_cell ` set q \<and> a \<notin> fl_cells fl')"
  using fl.alloc_fresh [of fl mal "ev_cell ` set q" a fl'] assms by (auto simp: cells_ok_def)

lemma cells_release:
  assumes "cells_ok (freeEvents t) (q1 @ e # q2)"
  shows "cells_ok (freeEvents (FreeTimerEvent t e)) (q1 @ q2)"
proof -
  obtain rc fl freed where f: "FreeListFree (freeEvents t) (ev_cell e) = (rc, fl, freed)" by (metis prod_cases3)
  have "fl_inv fl \<and> (ev_cell ` set (q1 @ e # q2) - {ev_cell e}) \<inter> fl_cells fl = {}"
    using assms by (intro fl.release_disjoint [OF _ _ _ _ f]) (auto simp: cells_ok_def)
  moreover have "ev_cell ` set (q1 @ e # q2) - {ev_cell e} = ev_cell ` set (q1 @ q2)"
    using assms by (simp add: cells_ok_def image_Un Un_Diff)
  ultimately show ?thesis using assms by (auto simp: cells_ok_def FreeTimerEvent_def f)
qed

lemma FreeTimerEvent_simps [simp]:
  "eventQ (FreeTimerEvent t e) = eventQ t" "lastEventId (FreeTimerEvent t e) = lastEventId t"
  "timer_shutdown (FreeTimerEvent t e) = timer_shutdown t"
  by (simp_all add: FreeTimerEvent_def split: prod.splits)

lemma FreeTimerEvent_list [simp]: "freeEvents (FreeTimerEvent (t\<lparr>eventQ := L\<rparr>) e) = freeEvents (FreeTimerEvent t e)"
  by (simp add: FreeTimerEvent_def split: prod.splits)

text \<open>An event leaves the queue and its cell goes back.\<close>

lemma timer_rep_drop:
  assumes "timer_rep t (q1 @ e # q2)" "ll_rep L ns" "map snd ns = map Some (q1 @ q2)"
  shows "timer_rep (FreeTimerEvent (t\<lparr>eventQ := L\<rparr>) e) (q1 @ q2)"
  using assms cells_release [of t q1 e q2] unfolding timer_rep_def by auto

lemma shutdown_loop_rep:
  assumes "ll_rep (eventQ t) ns" "map snd ns = map Some q" "cells_ok (freeEvents t) q"
  shows "\<exists>t'. shutdown_loop t (case ns of [] \<Rightarrow> NULL | (a, v) # _ \<Rightarrow> a) =
      Some (concat (map (\<lambda>e. if free_fn (ev_job e) \<noteq> NULL then [arg (ev_job e)] else []) q), t') \<and>
    timer_rep t' [] \<and> timer_shutdown t' = timer_shutdown t \<and> lastEventId t' = lastEventId t"
  using assms
proof (induction q arbitrary: ns t)
  case Nil
  then show ?case by (simp add: shutdown_loop.simps [of t NULL] timer_rep_def)
next
  case (Cons x q)
  then obtain a ns' where ns: "ns = (a, Some x) # ns'" "map snd ns' = map Some q" by (cases ns) auto
  have rep: "ll_rep (eventQ t) ([] @ (a, Some x) # ns')" using Cons.prems(1) ns by simp
  obtain n where n: "heap (eventQ t) a = Some n" "n_item n = Some x" "a \<noteq> NULL" using node_at [OF rep] by blast
  obtain L where L: "ListDelNode (eventQ t) a False = Some (Some x, [], L)" "ll_rep L ns'"
    using ListDelNode_rep [OF rep, of False] by auto
  have nx: "ListNext (eventQ t) a = Some (case ns' of [] \<Rightarrow> NULL | (b, w) # _ \<Rightarrow> b)"
    using ListNext_rep [OF rep] by simp
  let ?t = "FreeTimerEvent (t\<lparr>eventQ := L\<rparr>) x"
  have "cells_ok (freeEvents ?t) q" using cells_release [of t "[]" x q] Cons.prems(3) by simp
  from Cons.IH [of ?t ns'] this L(2) ns(2) show ?case
    using n L(1) nx ns(1) by (auto simp: shutdown_loop.simps [of t a])
qed

section \<open>What each call does\<close>

lemma ListHead_q:
  assumes "ll_rep L ns"
  shows "ListHead L = Some (case ns of [] \<Rightarrow> NULL | (a, v) # _ \<Rightarrow> a)" "size_of L = int (length ns)"
  using ListHead_rep [OF assms] assms by (simp_all add: ll_rep_def)

lemma TimerThreadWorker_exit:
  "timer_shutdown t \<Longrightarrow> TimerThreadWorker now rc t = Some (T_exit, t\<lparr>timer_shutdown := False\<rparr>)"
  by (simp add: TimerThreadWorker_def)

lemma TimerThreadWorker_idle:
  "timer_rep t [] \<Longrightarrow> \<not> timer_shutdown t \<Longrightarrow> TimerThreadWorker now rc t = Some (T_wait, t)"
  by (auto simp: TimerThreadWorker_def timer_rep_def ListHead_q)

lemma TimerThreadWorker_event:
  assumes "timer_rep t (e # q)" "\<not> timer_shutdown t"
  shows "if eventTime e \<le> now
    then \<exists>t'. TimerThreadWorker now rc t = Some (T_submit e (refused_args rc (ev_job e)), t') \<and>
      timer_rep t' q \<and> \<not> timer_shutdown t' \<and> lastEventId t' = lastEventId t
    else TimerThreadWorker now rc t = Some (T_timedwait (eventTime e), t)"
proof -
  obtain ns where ns: "ll_rep (eventQ t) ns" "map snd ns = map Some (e # q)" using assms(1) by (auto simp: timer_rep_def)
  then obtain a ns' where a: "ns = (a, Some e) # ns'" "map snd ns' = map Some q" by (cases ns) auto
  have rep: "ll_rep (eventQ t) ([] @ (a, Some e) # ns')" using ns(1) a by simp
  obtain n where n: "heap (eventQ t) a = Some n" "n_item n = Some e" "a \<noteq> NULL" using node_at [OF rep] by blast
  obtain L where L: "ListDelNode (eventQ t) a False = Some (Some e, [], L)" "ll_rep L ns'"
    using ListDelNode_rep [OF rep, of False] by auto
  have "timer_rep (FreeTimerEvent (t\<lparr>eventQ := L\<rparr>) e) q"
    using timer_rep_drop [of t "[]" e q L ns'] assms(1) L(2) a(2) by simp
  then show ?thesis
    using assms(2) n L(1) a(1) ListHead_q [OF ns(1)] by (simp add: TimerThreadWorker_def)
qed

lemma TimerThreadSchedule_rep:
  assumes "timer_rep t q" "event_mal_ok t mal_e" "mal_ok (eventQ t) mal_n"
  shows "\<exists>rc i t'. TimerThreadSchedule mal_e mal_n now t timeout ty job dur = Some (rc, i, t') \<and>
    timer_shutdown t' = timer_shutdown t \<and>
    (rc = 0 \<and> i = lastEventId t \<and> lastEventId t' = to_int32 (lastEventId t + 1) \<and>
       (\<exists>c. timer_rep t' (insert_event \<lparr>ev_cell = c, ev_job = job, eventTime = CalculateEventTime now timeout ty,
              persistent = dur, ev_id = i\<rparr> q)) \<or>
     rc = EOUTOFMEM \<and> lastEventId t' \<in> {lastEventId t, to_int32 (lastEventId t + 1)} \<and> timer_rep t' q)"
proof -
  obtain ns where ns: "ll_rep (eventQ t) ns" "map snd ns = map Some q" using assms(1) by (auto simp: timer_rep_def)
  obtain c fl where c: "FreeListAlloc mal_e (freeEvents t) = (c, fl)" by fastforce
  have co: "cells_ok (freeEvents t) q" using assms(1) by (simp add: timer_rep_def)
  have m: "mal_e = NULL \<or> mal_e \<notin> ev_cell ` set q \<union> fl_cells (freeEvents t)"
    using assms(2) timer_rep_live [OF assms(1)] by (auto simp: event_mal_ok_def)
  note fresh = cells_alloc [OF co m c]
  let ?t1 = "t\<lparr>freeEvents := fl\<rparr>"
  show ?thesis
  proof (cases "c = NULL")
    case True
    then show ?thesis using c fresh ns by (auto simp: TimerThreadSchedule_def CreateTimerEvent_def timer_rep_def)
  next
    case False
    let ?e = "\<lparr>ev_cell = c, ev_job = job, eventTime = CalculateEventTime now timeout ty, persistent = dur, ev_id = lastEventId t\<rparr>"
    have "ll_rep (eventQ t) ([] @ ns)" using ns(1) by simp
    from schedule_loop_rep [OF this assms(3) ns(2), of ?e]
    obtain n L where n: "schedule_loop mal_n (eventQ t) ?e (case ns of [] \<Rightarrow> NULL | (a, v) # _ \<Rightarrow> a) = Some (n, L)"
        "n = NULL \<and> L = eventQ t \<or> n \<noteq> NULL \<and> (\<exists>ns'. ll_rep L ns' \<and> map snd ns' = map Some (insert_event ?e q))"
      by auto
    let ?t2 = "?t1\<lparr>eventQ := L\<rparr>"
    have run: "TimerThreadSchedule mal_e mal_n now t timeout ty job dur =
        Some (if n \<noteq> NULL then (0, lastEventId t, ?t2\<lparr>lastEventId := to_int32 (lastEventId t + 1)\<rparr>)
              else (EOUTOFMEM, lastEventId t, (FreeTimerEvent ?t2 ?e)\<lparr>lastEventId := to_int32 (lastEventId t + 1)\<rparr>))"
      using c False n(1) ListHead_q(1) [OF ns(1)] by (simp add: TimerThreadSchedule_def CreateTimerEvent_def Let_def)
    have cn: "cells_ok fl (?e # q)" using fresh False by (auto simp: cells_ok_def)
    show ?thesis
    proof (cases "n = NULL")
      case True
      have "cells_ok (freeEvents (FreeTimerEvent ?t1 ?e)) ([] @ q)" by (rule cells_release) (use cn in simp)
      then show ?thesis using run True n(2) ns by (auto simp: timer_rep_def)
    next
      case n0: False
      have "cells_ok fl (insert_event ?e q)"
        using cn insert_event_mset [of ?e q] unfolding cells_ok_def by (metis mset.simps(2) mset_eq_setD mset_eq_imp_distinct_iff mset_map)
      then show ?thesis using run n0 n(2) by (auto simp: timer_rep_def)
    qed
  qed
qed

lemma take_event_split:
  assumes "find (\<lambda>e. ev_id e = i) q = Some e"
  obtains q1 q2 where "q = q1 @ e # q2" "take_event i q = q1 @ q2" "ev_id e = i"
proof -
  have "q = takeWhile (\<lambda>x. ev_id x \<noteq> i) q @ dropWhile (\<lambda>x. ev_id x \<noteq> i) q" by simp
  moreover have "dropWhile (\<lambda>x. ev_id x \<noteq> i) q = e # tl (dropWhile (\<lambda>x. ev_id x \<noteq> i) q) \<and> ev_id e = i"
    using assms by (induction q) (auto split: if_splits)
  ultimately show thesis using that unfolding take_event_def by metis
qed

lemma TimerThreadRemove_rep:
  assumes "timer_rep t q"
  shows "case find (\<lambda>e. ev_id e = i) q of
      None \<Rightarrow> TimerThreadRemove t i = Some (INVALID_EVENT_ID, None, t)
    | Some e \<Rightarrow> \<exists>t'. TimerThreadRemove t i = Some (0, Some (ev_job e), t') \<and> timer_rep t' (take_event i q) \<and>
        timer_shutdown t' = timer_shutdown t \<and> lastEventId t' = lastEventId t"
proof -
  obtain ns where ns: "ll_rep (eventQ t) ns" "map snd ns = map Some q" using assms by (auto simp: timer_rep_def)
  then have l: "ll_rep (eventQ t) ([] @ ns)" by simp
  note r = remove_loop_rep [OF l ns(2), of i]
  show ?thesis
  proof (cases "find (\<lambda>e. ev_id e = i) q")
    case None
    then show ?thesis using r ListHead_q(1) [OF ns(1)] by (simp add: TimerThreadRemove_def)
  next
    case (Some e)
    then obtain L ns' where L: "remove_loop t i (case ns of [] \<Rightarrow> NULL | (a, v) # _ \<Rightarrow> a) =
        Some (0, Some (ev_job e), FreeTimerEvent (t\<lparr>eventQ := L\<rparr>) e)" "ll_rep L ns'" "map snd ns' = map Some (take_event i q)"
      using r by auto
    obtain q1 q2 where q: "q = q1 @ e # q2" "take_event i q = q1 @ q2" by (rule take_event_split [OF Some])
    have "timer_rep (FreeTimerEvent (t\<lparr>eventQ := L\<rparr>) e) (q1 @ q2)"
      using timer_rep_drop [of t q1 e q2 L ns'] assms L(2,3) q by simp
    then show ?thesis using Some L(1) q ListHead_q(1) [OF ns(1)] by (simp add: TimerThreadRemove_def)
  qed
qed

lemma TimerThreadShutdown_rep:
  assumes "timer_rep t q"
  shows "\<exists>t'. TimerThreadShutdown t = Some (concat (map (\<lambda>e. if free_fn (ev_job e) \<noteq> NULL then [arg (ev_job e)] else []) q), t') \<and>
    timer_rep t' [] \<and> timer_shutdown t' \<and> lastEventId t' = lastEventId t"
proof -
  let ?t = "t\<lparr>timer_shutdown := True\<rparr>"
  obtain ns where ns: "ll_rep (eventQ t) ns" "map snd ns = map Some q" using assms by (auto simp: timer_rep_def)
  obtain t' where t': "shutdown_loop ?t (case ns of [] \<Rightarrow> NULL | (a, v) # _ \<Rightarrow> a) =
      Some (concat (map (\<lambda>e. if free_fn (ev_job e) \<noteq> NULL then [arg (ev_job e)] else []) q), t')"
      "timer_rep t' []" "timer_shutdown t'" "lastEventId t' = lastEventId t"
    using shutdown_loop_rep [of ?t ns q] ns assms by (auto simp: timer_rep_def)
  obtain L where L: "ListDestroy (eventQ t') False = Some (0, [], L)" "ll_rep L []"
    using t'(2) ListDestroy_rep [of "eventQ t'" "[]" False] by (auto simp: timer_rep_def)
  obtain rc fl freed where fl: "FreeListDestroy (freeEvents t') = (rc, fl, freed)" by (metis prod_cases3)
  show ?thesis
    using t' L ListHead_q(1) [OF ns(1)] FreeListDestroy_all [OF fl]
    by (simp add: TimerThreadShutdown_def timer_rep_def cells_ok_def fl)
qed

section \<open>The transition system\<close>

text \<open>
  The calls and the rounds of the worker in any order. A label records what happens to an event, given by
  its id, its time and its job; \<open>Fired\<close> also has the time at which the worker found it due. \<open>Failed\<close> is a
  call to schedule an event for which there was no memory.
\<close>

type_synonym event_key = "int \<times> int \<times> ThreadPoolJob"

definition key_of :: "TimerEvent \<Rightarrow> event_key" where
  "key_of e = (ev_id e, eventTime e, ev_job e)"

datatype timer_label = Scheduled event_key | Failed | Fired int event_key | Cancelled event_key | Dropped event_key

inductive timer_step :: "TimerThread \<Rightarrow> timer_label list \<Rightarrow> TimerThread \<Rightarrow> bool" where
  ts_schedule: "event_mal_ok t mal_e \<Longrightarrow> mal_ok (eventQ t) mal_n \<Longrightarrow>
     TimerThreadSchedule mal_e mal_n now t timeout ty job dur = Some (rc, i, t') \<Longrightarrow>
     timer_step t (if rc = 0 then [Scheduled (i, CalculateEventTime now timeout ty, job)] else [Failed]) t'"
| ts_remove: "timer_rep t q \<Longrightarrow> TimerThreadRemove t i = Some (rc, out, t') \<Longrightarrow>
     timer_step t (case find (\<lambda>e. ev_id e = i) q of None \<Rightarrow> [] | Some e \<Rightarrow> [Cancelled (key_of e)]) t'"
| ts_worker: "TimerThreadWorker now rc t = Some (nx, t') \<Longrightarrow>
     timer_step t (case nx of T_submit e _ \<Rightarrow> [Fired now (key_of e)] | _ \<Rightarrow> []) t'"
| ts_shutdown: "timer_rep t q \<Longrightarrow> TimerThreadShutdown t = Some (args, t') \<Longrightarrow>
     timer_step t (map (\<lambda>e. Dropped (key_of e)) q) t'"

inductive timer_run :: "TimerThread \<Rightarrow> timer_label list \<Rightarrow> TimerThread \<Rightarrow> bool" where
  tr_init: "TimerThreadInit 0 0 raw worker self t = Some (0, job, t0) \<Longrightarrow> timer_run t0 [] t0"
| tr_step: "timer_run t0 ls t \<Longrightarrow> timer_step t ls' t' \<Longrightarrow> timer_run t0 (ls @ ls') t'"

fun scheduled :: "timer_label \<Rightarrow> event_key list" where
  "scheduled (Scheduled k) = [k]"
| "scheduled Failed = []"
| "scheduled (Fired now k) = []"
| "scheduled (Cancelled k) = []"
| "scheduled (Dropped k) = []"

fun settled :: "timer_label \<Rightarrow> event_key list" where
  "settled (Scheduled k) = []"
| "settled Failed = []"
| "settled (Fired now k) = [k]"
| "settled (Cancelled k) = [k]"
| "settled (Dropped k) = [k]"

fun in_time :: "timer_label \<Rightarrow> bool" where
  "in_time (Scheduled k) = True"
| "in_time Failed = True"
| "in_time (Fired now k) = (fst (snd k) \<le> now)"
| "in_time (Cancelled k) = True"
| "in_time (Dropped k) = True"

abbreviation all_scheduled :: "timer_label list \<Rightarrow> event_key list" where
  "all_scheduled ls \<equiv> concat (map scheduled ls)"

abbreviation all_settled :: "timer_label list \<Rightarrow> event_key list" where
  "all_settled ls \<equiv> concat (map settled ls)"

text \<open>The number of calls that schedule an event.\<close>

fun schedule_call :: "timer_label \<Rightarrow> bool" where
  "schedule_call (Scheduled k) = True"
| "schedule_call Failed = True"
| "schedule_call (Fired now k) = False"
| "schedule_call (Cancelled k) = False"
| "schedule_call (Dropped k) = False"

definition calls :: "timer_label list \<Rightarrow> nat" where
  "calls ls = length (List.filter schedule_call ls)"

lemma calls_append [simp]: "calls (xs @ ys) = calls xs + calls ys"
  by (simp add: calls_def)

definition timer_inv :: "TimerThread \<Rightarrow> TimerEvent list \<Rightarrow> bool" where
  "timer_inv t q \<longleftrightarrow> timer_rep t q \<and> sorted (map eventTime q)"

lemma timer_rep_fun: "timer_rep t q \<Longrightarrow> timer_rep t q' \<Longrightarrow> q = q'"
proof -
  assume "timer_rep t q" "timer_rep t q'"
  then obtain ns ns' where n: "ll_rep (eventQ t) ns" "map snd ns = map Some q" "ll_rep (eventQ t) ns'" "map snd ns' = map Some q'"
    by (auto simp: timer_rep_def)
  then have "length ns = length ns'" by (simp add: ll_rep_def)
  then have "map snd ns = map snd ns'" using ll.drain_ok [OF n(1)] ll.drain_ok [OF n(3)] by simp
  then show ?thesis using n by (metis inj_Some inj_map_eq_map)
qed

lemma timer_inv_init:
  assumes "TimerThreadInit 0 0 raw worker self t = Some (0, job, t0)"
  shows "timer_inv t0 []"
proof -
  obtain rc L where L: "ListInit (eventQ t) None False = (rc, L)" by fastforce
  from ListInit_rep [OF L] assms L show ?thesis
    by (auto simp: TimerThreadInit_def FreeListInit_def Let_def timer_inv_def timer_rep_def cells_ok_def fl_inv_def fl_cells_def)
qed

lemma timer_init_id:
  assumes "TimerThreadInit 0 0 raw worker self t = Some (0, job, t0)"
  shows "lastEventId t0 = 0"
proof -
  obtain rc L where L: "ListInit (eventQ t) None False = (rc, L)" by fastforce
  from ListInit_rep [OF L] assms L show ?thesis
    by (auto simp: TimerThreadInit_def FreeListInit_def Let_def)
qed

lemma insert_event_set: "set (insert_event e q) = insert e (set q)"
  using insert_event_mset [of e q] by (metis mset.simps(2) mset_eq_setD list.set(2))

lemma timer_inv_insert:
  assumes "timer_inv t q" "timer_rep t' (insert_event e q)"
  shows "timer_inv t' (insert_event e q)"
  using assms insert_event_sorted [of q e] by (simp add: timer_inv_def)

lemma timer_inv_drop:
  assumes "timer_inv t (q1 @ e # q2)" "timer_rep t' (q1 @ q2)"
  shows "timer_inv t' (q1 @ q2)"
  using assms by (auto simp: timer_inv_def sorted_append)

text \<open>One step keeps the invariant and accounts for every event.\<close>

definition accounts :: "TimerEvent list \<Rightarrow> timer_label list \<Rightarrow> TimerEvent list \<Rightarrow> bool" where
  "accounts q ls q' \<longleftrightarrow>
     mset (map key_of q) + mset (all_scheduled ls) = mset (map key_of q') + mset (all_settled ls) \<and> (\<forall>l \<in> set ls. in_time l)"

lemma mset_chain: "A + B = C + D \<Longrightarrow> C + B' = E + D' \<Longrightarrow> A + (B + B') = E + (D + D' :: 'a multiset)"
  by (metis add.assoc add.commute)

lemma accounts_trans:
  assumes "accounts q ls q'" "accounts q' ls' q''"
  shows "accounts q (ls @ ls') q''"
proof -
  have "mset (map key_of q) + (mset (all_scheduled ls) + mset (all_scheduled ls')) =
      mset (map key_of q'') + (mset (all_settled ls) + mset (all_settled ls'))"
    using assms unfolding accounts_def by (blast intro: mset_chain)
  moreover have "\<forall>l \<in> set (ls @ ls'). in_time l" using assms by (auto simp: accounts_def)
  ultimately show ?thesis unfolding accounts_def map_append concat_append mset_append by blast
qed

text \<open>The ids: a call takes the next one, and one that fails may take one as well.\<close>

definition ids_step :: "TimerThread \<Rightarrow> timer_label list \<Rightarrow> TimerThread \<Rightarrow> bool" where
  "ids_step t ls t' \<longleftrightarrow>
     (case all_scheduled ls of
        [] \<Rightarrow> lastEventId t' = lastEventId t \<or> lastEventId t' = to_int32 (lastEventId t + 1) \<and> calls ls = 1
      | k # ks \<Rightarrow> ks = [] \<and> fst k = lastEventId t \<and> lastEventId t' = to_int32 (lastEventId t + 1) \<and> calls ls = 1)"

definition ids_ok :: "timer_label list \<Rightarrow> TimerThread \<Rightarrow> bool" where
  "ids_ok ls t \<longleftrightarrow>
     (\<exists>ks n. sorted_wrt (<) ks \<and> (\<forall>k \<in> set ks. k < n) \<and> n \<le> calls ls \<and>
        map fst (all_scheduled ls) = map (\<lambda>k. to_int32 (int k)) ks \<and> lastEventId t = to_int32 (int n))"

lemma to_int32_Suc: "to_int32 (to_int32 (int n) + 1) = to_int32 (int (Suc n))"
  by (simp add: to_int32_def mod_simps algebra_simps)

lemma ids_ok_step:
  assumes "ids_ok ls t" "ids_step t ls' t'"
  shows "ids_ok (ls @ ls') t'"
proof -
  obtain ks n where k: "sorted_wrt (<) ks" "\<forall>k \<in> set ks. k < n" "n \<le> calls ls"
      "map fst (all_scheduled ls) = map (\<lambda>k. to_int32 (int k)) ks" "lastEventId t = to_int32 (int n)"
    using assms(1) unfolding ids_ok_def by blast
  have suc: "to_int32 (lastEventId t + 1) = to_int32 (int (Suc n))" unfolding k(5) by (rule to_int32_Suc)
  show ?thesis
  proof (cases "all_scheduled ls'")
    case Nil
    then consider "lastEventId t' = to_int32 (int n)" | "lastEventId t' = to_int32 (int (Suc n))" "calls ls' = 1"
      using assms(2) suc unfolding ids_step_def Nil list.case k(5) by metis
    then show ?thesis
    proof cases
      case 1
      then show ?thesis using k Nil unfolding ids_ok_def by (intro exI [of _ ks] exI [of _ n]) auto
    next
      case 2
      have "\<forall>x \<in> set ks. x < Suc n" using k(2) by auto
      then show ?thesis using 2 k Nil unfolding ids_ok_def by (intro exI [of _ ks] exI [of _ "Suc n"]) auto
    qed
  next
    case (Cons x xs)
    then have x: "xs = []" "fst x = to_int32 (int n)" "lastEventId t' = to_int32 (int (Suc n))" "calls ls' = 1"
      using assms(2) suc unfolding ids_step_def Cons list.case k(5) by simp_all
    have "sorted_wrt (<) (ks @ [n])" using k(1,2) by (simp add: sorted_wrt_append)
    moreover have "\<forall>x \<in> set (ks @ [n]). x < Suc n" using k(2) by auto
    moreover have "map fst (all_scheduled (ls @ ls')) = map (\<lambda>k. to_int32 (int k)) (ks @ [n])"
      using Cons x(1,2) k(4) by simp
    ultimately show ?thesis using x k(3) unfolding ids_ok_def by (intro exI [of _ "ks @ [n]"] exI [of _ "Suc n"]) simp
  qed
qed

lemma to_int32_inj: "i < 2 ^ 32 \<Longrightarrow> j < 2 ^ 32 \<Longrightarrow> to_int32 (int i) = to_int32 (int j) \<Longrightarrow> i = j"
proof -
  assume a: "i < 2 ^ 32" "j < 2 ^ 32" "to_int32 (int i) = to_int32 (int j)"
  then have "(int i + 2 ^ 31 - 2 ^ 31) mod 2 ^ 32 = (int j + 2 ^ 31 - 2 ^ 31) mod 2 ^ 32"
    by (intro mod_diff_cong) (simp_all add: to_int32_def)
  then show ?thesis using a(1,2) by simp
qed

lemma ids_ok_distinct:
  assumes "ids_ok ls t" "calls ls \<le> 2 ^ 32"
  shows "distinct (map fst (all_scheduled ls))"
proof -
  obtain ks n where k: "sorted_wrt (<) ks" "\<forall>k \<in> set ks. k < n" "n \<le> calls ls"
      "map fst (all_scheduled ls) = map (\<lambda>k. to_int32 (int k)) ks"
    using assms(1) unfolding ids_ok_def by blast
  have "inj_on (\<lambda>k. to_int32 (int k)) (set ks)"
    using k(2,3) assms(2) by (intro inj_onI to_int32_inj) fastforce+
  then show ?thesis using k(1) unfolding k(4) distinct_map by (simp add: strict_sorted_iff)
qed

lemma worker_step_inv:
  assumes "timer_inv t q" "TimerThreadWorker now rc t = Some (nx, t')"
  shows "\<exists>q'. timer_inv t' q' \<and> accounts q (case nx of T_submit e _ \<Rightarrow> [Fired now (key_of e)] | _ \<Rightarrow> []) q' \<and>
    lastEventId t' = lastEventId t"
proof (cases "timer_shutdown t")
  case True
  then show ?thesis
    using assms TimerThreadWorker_exit [of t now rc]
    by (auto simp: accounts_def timer_inv_def timer_rep_def intro!: exI [of _ q])
next
  case False
  have r: "timer_rep t q" using assms(1) by (simp add: timer_inv_def)
  show ?thesis
  proof (cases q)
    case Nil
    then show ?thesis using assms r False TimerThreadWorker_idle [of t now rc] by (auto simp: accounts_def)
  next
    case (Cons e q')
    note w = TimerThreadWorker_event [OF r [unfolded Cons] False, of now rc]
    show ?thesis
    proof (cases "eventTime e \<le> now")
      case True
      then have "nx = T_submit e (refused_args rc (ev_job e))" "timer_rep t' q'" "lastEventId t' = lastEventId t"
        using w assms(2) by auto
      moreover from this have "timer_inv t' q'" using timer_inv_drop [of t "[]" e q' t'] assms(1) Cons by simp
      ultimately show ?thesis using True Cons by (auto simp: accounts_def key_of_def)
    next
      case False
      then show ?thesis using w assms Cons by (auto simp: accounts_def)
    qed
  qed
qed

lemma timer_step_inv:
  assumes "timer_inv t q" "timer_step t ls t'"
  shows "\<exists>q'. timer_inv t' q' \<and> accounts q ls q' \<and> ids_step t ls t'"
  using assms(2)
proof cases
  case (ts_schedule mal_e mal_n now timeout ty job dur rc i)
  note 1 = this
  have r: "timer_rep t q" using assms(1) by (simp add: timer_inv_def)
  from TimerThreadSchedule_rep [OF r 1(2,3), of now timeout ty job dur] 1(4)
  consider (ok) c where "rc = 0" "i = lastEventId t" "lastEventId t' = to_int32 (lastEventId t + 1)"
      "timer_rep t' (insert_event \<lparr>ev_cell = c, ev_job = job, eventTime = CalculateEventTime now timeout ty, persistent = dur, ev_id = i\<rparr> q)"
    | (fail) "rc = EOUTOFMEM" "timer_rep t' q" "lastEventId t' \<in> {lastEventId t, to_int32 (lastEventId t + 1)}" by auto
  then show ?thesis
  proof cases
    case ok
    then show ?thesis
      using timer_inv_insert [OF assms(1) ok(4)] 1(1) ok
      by (intro exI conjI) (auto simp: accounts_def insert_event_mset key_of_def ids_step_def calls_def)
  next
    case fail
    have "EOUTOFMEM \<noteq> 0" by code_simp
    then show ?thesis using fail 1(1) assms(1) by (auto simp: accounts_def timer_inv_def ids_step_def calls_def intro!: exI [of _ q])
  qed
next
  case (ts_remove q0 i rc out)
  note 2 = this
  have "q0 = q" using 2(2) assms(1) timer_rep_fun by (auto simp: timer_inv_def)
  show ?thesis
  proof (cases "find (\<lambda>e. ev_id e = i) q")
    case None
    then show ?thesis
      using TimerThreadRemove_rep [OF 2(2), of i] \<open>q0 = q\<close> 2 assms(1) by (auto simp: accounts_def ids_step_def)
  next
    case (Some e)
    obtain q1 q2 where q: "q = q1 @ e # q2" "take_event i q = q1 @ q2" by (rule take_event_split [OF Some])
    have "timer_rep t' (q1 @ q2)" "lastEventId t' = lastEventId t"
      using TimerThreadRemove_rep [OF 2(2), of i] \<open>q0 = q\<close> 2(3) Some q by auto
    moreover from this have "timer_inv t' (q1 @ q2)" using timer_inv_drop assms(1) q(1) by blast
    ultimately show ?thesis using 2(1) \<open>q0 = q\<close> Some q(1) by (auto simp: accounts_def ids_step_def intro!: exI [of _ "q1 @ q2"])
  qed
next
  case (ts_worker now rc nx)
  then show ?thesis using worker_step_inv [OF assms(1), of now rc nx t'] by (auto simp: ids_step_def split: timer_next.splits)
next
  case (ts_shutdown q0 args)
  note 4 = this
  have "q0 = q" using 4(2) assms(1) timer_rep_fun by (auto simp: timer_inv_def)
  moreover have "timer_inv t' []" "lastEventId t' = lastEventId t"
    using TimerThreadShutdown_rep [OF 4(2)] 4(3) by (auto simp: timer_inv_def)
  moreover have "all_settled (map (\<lambda>e. Dropped (key_of e)) q) = map key_of q" "all_scheduled (map (\<lambda>e. Dropped (key_of e)) q) = []"
    by (induction q) auto
  ultimately show ?thesis unfolding 4(1) accounts_def ids_step_def by (intro exI [of _ "[]"]) (simp del: map_map concat_eq_Nil_conv)
qed

lemma timer_run_inv:
  "timer_run t0 ls t \<Longrightarrow> \<exists>q. timer_inv t q \<and> accounts [] ls q \<and> ids_ok ls t"
proof (induction rule: timer_run.induct)
  case (tr_init raw worker self t job t0)
  have "lastEventId t0 = to_int32 (int 0)"
    using timer_init_id [OF tr_init] by (simp add: to_int32_def)
  then have "ids_ok [] t0" unfolding ids_ok_def by (intro exI [of _ "[]"] exI [of _ 0]) simp
  then show ?case using timer_inv_init tr_init by (auto simp: accounts_def)
next
  case (tr_step t0 ls t ls' t')
  then show ?case using timer_step_inv accounts_trans ids_ok_step by blast
qed

section \<open>A small timer\<close>

definition demo_job :: ThreadPoolJob where
  "demo_job = \<lparr>func = 7, arg = 8, free_fn = NULL, requestTime = \<lparr>tv_sec = 0, tv_usec = 0\<rparr>, priority = MED_PRIORITY, jobId = 0\<rparr>"

definition demo_raw :: TimerThread where
  "demo_raw =
     \<lparr>lastEventId = 0,
      eventQ = \<lparr>heap = Map.empty, size_of = 0,
                freeNodeList = \<lparr>fl_head = [], element_size = 0, maxFreeListLength = 0, freeListLength = 0\<rparr>,
                free_func = False, cmp_func = None\<rparr>,
      timer_shutdown = False,
      freeEvents = \<lparr>fl_head = [], element_size = 0, maxFreeListLength = 0, freeListLength = 0\<rparr>\<rparr>"

definition demo_timer :: TimerThread where
  "demo_timer = snd (snd (the (TimerThreadInit 0 0 demo_job 5 6 demo_raw)))"

definition demo_timer1 :: TimerThread where
  "demo_timer1 = snd (snd (the (TimerThreadSchedule 50 60 100 demo_timer 7 REL_SEC demo_job SHORT_TERM)))"

definition demo_event :: TimerEvent where
  "demo_event = \<lparr>ev_cell = 50, ev_job = demo_job, eventTime = 107, persistent = SHORT_TERM, ev_id = 0\<rparr>"

lemma demo_timer_eq:
  "\<exists>job. TimerThreadInit 0 0 demo_job 5 6 demo_raw = Some (0, job, demo_timer)"
  by (simp add: TimerThreadInit_def demo_raw_def demo_timer_def FreeListInit_def ListInit_def Let_def)

lemma demo_timer_simps:
  "heap (eventQ demo_timer) = Map.empty(HEAD \<mapsto> \<lparr>n_prev = NULL, n_next = TAIL, n_item = None\<rparr>, TAIL \<mapsto> \<lparr>n_prev = HEAD, n_next = NULL, n_item = None\<rparr>)"
  "fl_head (freeEvents demo_timer) = []" "fl_head (freeNodeList (eventQ demo_timer)) = []" "lastEventId demo_timer = 0"
  "timer_shutdown demo_timer = False"
  by (simp_all add: TimerThreadInit_def demo_raw_def demo_timer_def FreeListInit_def ListInit_def Let_def)

lemma demo_run: "timer_run demo_timer [] demo_timer"
  using demo_timer_eq by (auto intro: tr_init)

lemma demo_fresh: "event_mal_ok demo_timer 50" "mal_ok (eventQ demo_timer) 60"
  by (auto simp: event_mal_ok_def live_cells_def mal_ok_def fl_cells_def demo_timer_simps HEAD_def TAIL_def split: if_splits)

lemma demo_scheduled:
  "TimerThreadSchedule 50 60 100 demo_timer 7 REL_SEC demo_job SHORT_TERM = Some (0, 0, demo_timer1)"
  "\<exists>c. timer_rep demo_timer1 [demo_event\<lparr>ev_cell := c\<rparr>]" "\<not> timer_shutdown demo_timer1"
proof -
  have d: "timer_rep demo_timer []" using timer_run_inv [OF demo_run] by (auto simp: timer_inv_def accounts_def)
  have ok: "map_option fst (TimerThreadSchedule 50 60 100 demo_timer 7 REL_SEC demo_job SHORT_TERM) = Some 0" by code_simp
  have "CalculateEventTime 100 7 REL_SEC = 107" "EOUTOFMEM \<noteq> 0" by code_simp+
  with TimerThreadSchedule_rep [OF d demo_fresh, of 100 7 REL_SEC demo_job SHORT_TERM] ok
  obtain t' c where t': "TimerThreadSchedule 50 60 100 demo_timer 7 REL_SEC demo_job SHORT_TERM = Some (0, 0, t')"
      "\<not> timer_shutdown t'" "timer_rep t' [\<lparr>ev_cell = c, ev_job = demo_job, eventTime = 107, persistent = SHORT_TERM, ev_id = 0\<rparr>]"
    by (auto simp: insert_event_def demo_timer_simps)
  then show "TimerThreadSchedule 50 60 100 demo_timer 7 REL_SEC demo_job SHORT_TERM = Some (0, 0, demo_timer1)"
    "\<exists>c. timer_rep demo_timer1 [demo_event\<lparr>ev_cell := c\<rparr>]" "\<not> timer_shutdown demo_timer1"
    by (auto simp: demo_timer1_def demo_event_def)
qed

lemma demo_run1: "timer_run demo_timer [Scheduled (0, 107, demo_job)] demo_timer1"
  using tr_step [OF demo_run ts_schedule [OF demo_fresh demo_scheduled(1)]] by (simp add: CalculateEventTime_def)

section \<open>Properties\<close>



text \<open>
  C9. Over every run of the timer each event that was scheduled is still waiting or has met exactly
  one fate: it was handed to the pool, cancelled, or dropped by the shutdown; nothing else is ever
  handed to the pool, no event before its time, and the queue is in the order of the times. Up to $2^{32}$
  calls no two events got the same id; from the call with number $2^{31}$ on the ids are those of a counter that
  wraps around, which C does not promise.
\<close>

theorem timer_events_accounted:
  assumes "timer_run t0 ls t"
  shows "\<exists>q. timer_rep t q \<and> sorted (map eventTime q) \<and>
    mset (all_scheduled ls) = mset (map key_of q) + mset (all_settled ls) \<and>
    (calls ls \<le> 2 ^ 32 \<longrightarrow> distinct (map fst (all_scheduled ls))) \<and> (\<forall>l \<in> set ls. in_time l)"
proof -
  obtain q where "timer_inv t q" "accounts [] ls q" "ids_ok ls t" using timer_run_inv [OF assms] by blast
  then show ?thesis using ids_ok_distinct [of ls t] by (intro exI [of _ q]) (simp add: timer_inv_def accounts_def)
qed

theorem timer_events_accounted_witness:
  "(\<exists>q. timer_rep demo_timer1 q \<and> sorted (map eventTime q) \<and> {#(0, 107, demo_job)#} = mset (map key_of q)) \<and>
   distinct (map fst (all_scheduled [Scheduled (0, 107, demo_job)]))"
proof -
  have "calls [Scheduled (0, 107, demo_job)] \<le> 2 ^ 32" by (simp add: calls_def)
  with timer_events_accounted [OF demo_run1] show ?thesis by auto
qed

text \<open>
  The ids do repeat after $2^{32}$ calls.
\<close>

lemma ids_repeat: "to_int32 (int (k + 2 ^ 32)) = to_int32 (int k)"
proof -
  have "int (k + 2 ^ 32) + 2 ^ 31 = int k + 2 ^ 31 + 2 ^ 32" by simp
  then show ?thesis unfolding to_int32_def by (simp only: mod_add_self2)
qed

text \<open>
  What a round of the worker decides. It waits without a limit only when no event is waiting; it
  waits up to a time only when that is the time of the earliest event and still to come; otherwise it
  submits an event that is due and the earliest of all.
\<close>

theorem worker_decides:
  assumes "timer_run t0 ls t" "\<not> timer_shutdown t" "timer_rep t q" "TimerThreadWorker now rc t = Some (nx, t')"
  shows "case nx of
      T_wait \<Rightarrow> q = []
    | T_timedwait w \<Rightarrow> now < w \<and> w \<in> eventTime ` set q \<and> (\<forall>e \<in> set q. w \<le> eventTime e)
    | T_submit e args \<Rightarrow> e \<in> set q \<and> eventTime e \<le> now \<and> (\<forall>x \<in> set q. eventTime e \<le> eventTime x)
    | _ \<Rightarrow> False"
proof -
  obtain q' where "timer_inv t q'" using timer_run_inv [OF assms(1)] by blast
  then have s: "sorted (map eventTime q)" using timer_rep_fun [OF assms(3)] by (auto simp: timer_inv_def)
  show ?thesis
  proof (cases q)
    case Nil
    then show ?thesis using assms TimerThreadWorker_idle [of t now rc] by auto
  next
    case (Cons e r)
    then show ?thesis
      using assms s TimerThreadWorker_event [of t e r now rc] by (cases "eventTime e \<le> now") auto
  qed
qed

theorem worker_decides_witness:
  "\<exists>c args t'. TimerThreadWorker 107 0 demo_timer1 = Some (T_submit (demo_event\<lparr>ev_cell := c\<rparr>) args, t') \<and>
    eventTime (demo_event\<lparr>ev_cell := c\<rparr>) \<le> 107"
proof -
  obtain c where c: "timer_rep demo_timer1 [demo_event\<lparr>ev_cell := c\<rparr>]" using demo_scheduled(2) by blast
  obtain t' where t': "TimerThreadWorker 107 0 demo_timer1 = Some (T_submit (demo_event\<lparr>ev_cell := c\<rparr>)
      (refused_args 0 (ev_job (demo_event\<lparr>ev_cell := c\<rparr>))), t')"
    using TimerThreadWorker_event [OF c demo_scheduled(3), of 107 0] by (auto simp: demo_event_def)
  from worker_decides [OF demo_run1 demo_scheduled(3) c t'] t' show ?thesis by auto
qed

end
