(* ===== verification/Http_Resume.thy ===== *)
theory Http_Resume
  imports Http_Parser
begin

text \<open>
  Messages arrive in pieces. This theory shows that the parser does not depend on how a message is
  cut: parsing a first piece, and then going on when the rest has arrived, gives the state that
  parsing everything at once gives. The proof follows the structure of the parser, step by step.
\<close>

section \<open>Appending to the message\<close>

definition ext :: "string \<Rightarrow> http_parser_t \<Rightarrow> http_parser_t" where
  "ext x p = p\<lparr>scanner := grow x (scanner p)\<rparr>"

lemma ext_is_append: "ext x p = set_msg (raw_msg p @ x) p"
  by (simp add: ext_def set_msg_def raw_msg_def grow_def)

definition lift :: "string \<Rightarrow> 'a \<times> http_parser_t \<Rightarrow> 'a \<times> http_parser_t" where
  "lift x r = (fst r, ext x (snd r))"

lemma lift_pair [simp]: "lift x (a, p) = (a, ext x p)"
  by (simp add: lift_def)

lemma ext_simps [simp]:
  "scanner (ext x p) = grow x (scanner p)"
  "http_method (ext x p) = http_method p" "request_method (ext x p) = request_method p"
  "status_code (ext x p) = status_code p" "is_request (ext x p) = is_request p"
  "major_version (ext x p) = major_version p" "minor_version (ext x p) = minor_version p"
  "headers (ext x p) = headers p" "position (ext x p) = position p" "ent_position (ext x p) = ent_position p"
  "amount_discarded (ext x p) = amount_discarded p" "entity_start_position (ext x p) = entity_start_position p"
  "entity_length (ext x p) = entity_length p"
  "content_length (ext x p) = content_length p" "chunk_size (ext x p) = chunk_size p" "mem (ext x p) = mem p"
  "valid_ssdp_notify_hack (ext x p) = valid_ssdp_notify_hack p"
  by (simp_all add: ext_def raw_msg_def)

lemma raw_msg_ext [simp]: "raw_msg (ext x p) = raw_msg p @ x"
  by (simp add: ext_def raw_msg_def)

lemma ext_updates [simp]:
  "(ext x p)\<lparr>scanner := sc\<rparr> = p\<lparr>scanner := sc\<rparr>"
  "(ext x p)\<lparr>http_method := m\<rparr> = ext x (p\<lparr>http_method := m\<rparr>)"
  "(ext x p)\<lparr>headers := hs\<rparr> = ext x (p\<lparr>headers := hs\<rparr>)"
  "(ext x p)\<lparr>http_error_code := c\<rparr> = ext x (p\<lparr>http_error_code := c\<rparr>)"
  "(ext x p)\<lparr>mem := a\<rparr> = ext x (p\<lparr>mem := a\<rparr>)"
  "(ext x p)\<lparr>position := q\<rparr> = ext x (p\<lparr>position := q\<rparr>)"
  "(ext x p)\<lparr>ent_position := e\<rparr> = ext x (p\<lparr>ent_position := e\<rparr>)"
  "(ext x p)\<lparr>content_length := n\<rparr> = ext x (p\<lparr>content_length := n\<rparr>)"
  "(ext x p)\<lparr>chunk_size := n\<rparr> = ext x (p\<lparr>chunk_size := n\<rparr>)"
  "(ext x p)\<lparr>entity_length := n\<rparr> = ext x (p\<lparr>entity_length := n\<rparr>)"
  "(ext x p)\<lparr>entity_buf := b\<rparr> = ext x (p\<lparr>entity_buf := b\<rparr>)"
  "(ext x p)\<lparr>entity_start_position := n\<rparr> = ext x (p\<lparr>entity_start_position := n\<rparr>)"
  "(ext x p)\<lparr>valid_ssdp_notify_hack := v\<rparr> = ext x (p\<lparr>valid_ssdp_notify_hack := v\<rparr>)"
  "(ext x p)\<lparr>status_code := i\<rparr> = ext x (p\<lparr>status_code := i\<rparr>)"
  "(ext x p)\<lparr>status_msg := s\<rparr> = ext x (p\<lparr>status_msg := s\<rparr>)"
  "(ext x p)\<lparr>major_version := i\<rparr> = ext x (p\<lparr>major_version := i\<rparr>)"
  "(ext x p)\<lparr>minor_version := i\<rparr> = ext x (p\<lparr>minor_version := i\<rparr>)"
  by (simp_all add: ext_def)

lemma ext_scanner: "p\<lparr>scanner := grow x sc\<rparr> = ext x (p\<lparr>scanner := sc\<rparr>)"
  by (simp add: ext_def)

lemma set_cursor_self [simp]: "set_cursor (sc_cursor (scanner p)) p = p"
  by (simp add: set_cursor_def)

lemma set_cursor_ext [simp]: "set_cursor k (ext x p) = ext x (set_cursor k p)"
  by (simp add: set_cursor_def ext_def)

section \<open>Texts inside the message\<close>

lemma ref_str_append: "fst r + snd r \<le> length m \<Longrightarrow> ref_str (m @ x) r = ref_str m r"
  by (simp add: ref_str_def)

lemma map_str_to_int_append:
  assumes "n \<le> length name"
  shows "map_str_to_int (name @ x) n T k b = map_str_to_int name n T k b"
proof -
  have "seen \<lparr>mp_buf = name @ x, mp_length = n\<rparr> = seen \<lparr>mp_buf = name, mp_length = n\<rparr>"
    using assms by (simp add: seen_def)
  then have "memptr_cmp \<lparr>mp_buf = name @ x, mp_length = n\<rparr> = memptr_cmp \<lparr>mp_buf = name, mp_length = n\<rparr>"
    "memptr_cmp_nocase \<lparr>mp_buf = name @ x, mp_length = n\<rparr> = memptr_cmp_nocase \<lparr>mp_buf = name, mp_length = n\<rparr>"
    by (auto simp: memptr_cmp_def memptr_cmp_nocase_def fun_eq_iff)
  then show ?thesis by (simp add: map_str_to_int_def Let_def)
qed

section \<open>Headers\<close>

lemma ask_ext: "ask (ext x p) = lift x (ask p)"
  by (simp add: ask_def split: list.split)

lemma asks_ext: "asks n (ext x p) = lift x (asks n p)"
  by (induction n arbitrary: p) (auto simp: ask_ext split: prod.splits)

lemma add_header_ext: "add_header (ext x p) n i v = lift x (add_header p n i v)"
  by (cases "asks 4 p") (simp add: add_header_def asks_ext)

lemma append_header_ext: "append_header (ext x p) i v = lift x (append_header p i v)"
proof -
  obtain o1 p1 where 1: "ask p = (o1, p1)" by fastforce
  obtain o2 p2 where 2: "ask p1 = (o2, p2)" by fastforce
  show ?thesis by (simp add: append_header_def ask_ext 1 2 Let_def)
qed

lemma header_index_ext: "fst t + snd t \<le> length (raw_msg p) \<Longrightarrow> header_index (ext x p) t = header_index p t"
  using map_str_to_int_append [of "snd t" "drop (fst t) (raw_msg p)" x] by (simp add: header_index_def)

lemma note_soap_ext: "note_soap i (ext x p) = ext x (note_soap i p)"
  by (simp add: note_soap_def)

lemma store_header_ext:
  assumes "fst t + snd t \<le> length (raw_msg p)" "fst v + snd v \<le> length (raw_msg p)"
  shows "store_header (ext x p) t v = lift x (store_header p t v)"
  using assms
  by (simp add: store_header_def Let_def header_index_ext note_soap_ext ref_str_append add_header_ext append_header_ext
      split: option.split)

text \<open>The three ways a round of the header loop can end.\<close>

lemma match_header_out:
  assumes "match_fmt env sc '' : %R%c'' = (PARSE_OK, outs, sc')"
  shows "\<exists>r. outs = [OutStr r]"
  using assms
  by (auto simp: match_fmt_def vfmatch_def match_option_def out_str_def no_out_def split: prod.splits if_splits)

lemma header_step_ext:
  assumes "partial (scanner p)"
  shows "case header_step env p of
      Inr p1 \<Rightarrow> header_step env (ext x p) = Inr (ext x p1) \<and> partial (scanner p1)
    | Inl (st, p1) \<Rightarrow> if st = PARSE_INCOMPLETE then p1 = p else header_step env (ext x p) = Inl (st, ext x p1)"
proof (cases "scanner p" rule: get_token_cases)
  case (error st)
  then show ?thesis
    using get_token_grow_Inl [OF assms error, of x] by (auto simp: header_step_def Let_def)
next
  case (token t ty sc1)
  note g = get_token_grow [OF assms token(1)]
  show ?thesis
  proof (cases "ty = TT_IDENTIFIER")
    case False
    then show ?thesis using token(1) g(1) [of x] by (auto simp: header_step_def Let_def ext_scanner)
  next
    case True
    obtain st outs sc2 where m: "match_fmt env sc1 '' : %R%c'' = (st, outs, sc2)" by (metis prod_cases3)
    note I = vfmatch_incremental [OF header_fmt_open, of env]
    have v: "vfmatch env sc1 '' : %R%c'' = (st, outs, sc2)" using m by (simp add: match_fmt_def)
    have c1: "sc_cursor sc1 \<le> length (sc_msg sc1)" using g(2) by (simp add: partial_def)
    have fr: "framed (scanner p) sc2" using framed_trans [OF token(2)] incremental.frame [OF I v c1] by blast
    have gm: "st \<noteq> PARSE_INCOMPLETE \<Longrightarrow> match_fmt env (grow x sc1) '' : %R%c'' = (st, outs, grow x sc2)"
      using incremental.stable [OF I g(2) v, of x] by (simp add: match_fmt_def)
    show ?thesis
    proof (cases "st = PARSE_OK")
      case False
      have "set_cursor (sc_cursor (scanner p)) (p\<lparr>scanner := sc2\<rparr>) = p" if "st = PARSE_INCOMPLETE"
        using fr by (simp add: set_cursor_def framed_def)
      then show ?thesis using False True token(1) g(1) [of x] m gm
        by (auto simp: header_step_def Let_def ext_scanner)
    next
      case ok: True
      obtain r where r: "outs = [OutStr r]" using match_header_out m ok by blast
      have t: "fst t + snd t \<le> length (sc_msg (scanner p))"
        using scanner_get_token_bounds [OF token(1)] by simp
      moreover have "fst r + snd r \<le> length (sc_msg (scanner p))"
        using incremental.inside [OF I v c1, of r] r token(2) by (simp add: framed_def)
      moreover have "raw_msg (p\<lparr>scanner := sc2\<rparr>) = sc_msg (scanner p)" using fr by (simp add: raw_msg_def framed_def)
      ultimately have s: "store_header (ext x (p\<lparr>scanner := sc2\<rparr>)) t r = lift x (store_header (p\<lparr>scanner := sc2\<rparr>) t r)"
        using store_header_ext by simp
      have "partial sc2" using fr assms by (simp add: partial_def framed_def)
      then show ?thesis
        using token(1) g(1) [of x] m gm ok True s r store_header_scanner [of "p\<lparr>scanner := sc2\<rparr>" t r]
        by (auto simp: header_step_def Let_def ext_scanner fst_str_def split: prod.splits if_splits)
    qed
  qed
qed

lemma parse_headers_ext:
  assumes "partial (scanner p)"
  shows "case parser_parse_headers env p of (st, p1) \<Rightarrow>
    if st = PARSE_INCOMPLETE
    then partial (scanner p1) \<and> position p1 = position p \<and> ent_position p1 = ent_position p \<and> parser_parse_headers env (ext x p) = parser_parse_headers env (ext x p1)
    else parser_parse_headers env (ext x p) = (st, ext x p1)"
  using assms
proof (induction env p rule: parser_parse_headers.induct)
  case (1 env p)
  note h = header_step_ext [OF 1(2), of env x]
  show ?case
  proof (cases "header_step env p")
    case (Inl r)
    then show ?thesis
      using h 1(2) by (cases r) (auto simp: parser_parse_headers.simps [of env p] parser_parse_headers.simps [of env "ext x p"])
  next
    case (Inr p1)
    then show ?thesis
      using h 1(1) [OF Inr] header_step_keeps [OF Inr, unfolded keeps_def]
      by (auto simp: parser_parse_headers.simps [of env p] parser_parse_headers.simps [of env "ext x p"] split: if_splits)
  qed
qed

section \<open>The entity\<close>

definition waiting :: "parse_status_t \<Rightarrow> bool" where
  "waiting st \<longleftrightarrow> st = PARSE_INCOMPLETE \<or> st = PARSE_INCOMPLETE_ENTITY"

text \<open>Removing what was read commutes with appending.\<close>

lemma msg_delete_ext: "i + n \<le> length (raw_msg p) \<Longrightarrow> msg_delete i n (ext x p) = ext x (msg_delete i n p)"
  by (simp add: msg_delete_def set_msg_def ext_def raw_msg_def grow_def)

lemma store_chunk_size_ext: "store_chunk_size outs (ext x p) = ext x (store_chunk_size outs p)"
  by (simp add: store_chunk_size_def split: list.split match_out.split)

lemma store_chunk_size_again: "store_chunk_size (OutInt v # os') (store_chunk_size (OutInt v # os) p) = store_chunk_size (OutInt v # os') p"
proof -
  have "(chunk_size p div 2 ^ 32 * 2 ^ 32 + nat (v mod 2 ^ 32)) div 2 ^ 32 = chunk_size p div 2 ^ 32"
    by (simp add: nat_less_iff)
  then show ?thesis by (simp add: store_chunk_size_def)
qed

lemma store_chunk_size_scanner: "store_chunk_size outs (p\<lparr>scanner := sc\<rparr>) = (store_chunk_size outs p)\<lparr>scanner := sc\<rparr>"
  by (simp add: store_chunk_size_def split: list.split match_out.split)

text \<open>What \<open>%x\<close> stored from the first piece it stores again.\<close>

lemma chunk_line_outs:
  assumes "partial sc" "match_fmt env sc ''%x%L%c'' = (st, outs, sc')" "st \<noteq> PARSE_OK" "outs \<noteq> []"
  shows "\<exists>v os os'. outs = OutInt v # os \<and> fst (snd (match_fmt env (grow x sc) ''%x%L%c'')) = OutInt v # os'"
proof -
  obtain s1 o1 sc1 where 1: "match_option env (CHR ''x'') True sc = (s1, o1, sc1)" by (metis prod_cases3)
  have o1: "outs = o1 \<or> (\<exists>o2. outs = o1 @ o2)" and s1: "s1 = PARSE_OK \<or> outs = o1"
    using assms(2) by (auto simp: match_fmt_def vfmatch_def 1 split: prod.splits if_splits)
  have i: "o1 = [] \<and> s1 \<noteq> PARSE_OK \<or> (\<exists>v. o1 = [OutInt v] \<and> s1 \<noteq> PARSE_INCOMPLETE)"
    using 1 by (cases sc rule: get_token_cases)
      (auto simp: match_option_simps out_int_def match_int_def Let_def split: prod.splits if_splits)
  then obtain v where v: "o1 = [OutInt v]" "s1 \<noteq> PARSE_INCOMPLETE" using o1 s1 assms(4) by auto
  have "match_option env (CHR ''x'') True (grow x sc) = (s1, o1, grow x sc1)"
    using incremental.stable [OF match_option_incremental assms(1) 1 v(2)] by (simp add: open_option_def)
  then have "\<exists>os'. fst (snd (match_fmt env (grow x sc) ''%x%L%c'')) = OutInt v # os'"
    by (auto simp: match_fmt_def vfmatch_def v(1) split: prod.splits)
  then show ?thesis using o1 v(1) by auto
qed

lemma chunky_entity_resume:
  assumes "partial (scanner p)" "parser_parse_chunky_entity env p = (PARSE_INCOMPLETE, p1)"
  shows "parser_parse_chunky_entity env (ext x p) = parser_parse_chunky_entity env (ext x p1)"
    "ent_position p1 = ent_position p" "position p1 = position p" "partial (scanner p1)"
proof -
  obtain st outs sc1 where m: "match_fmt env (scanner p) ''%x%L%c'' = (st, outs, sc1)" by (metis prod_cases3)
  have ne: "st \<noteq> PARSE_OK" and p1: "p1 = set_cursor (sc_cursor (scanner p)) (store_chunk_size outs (p\<lparr>scanner := sc1\<rparr>))"
    using assms(2) by (auto simp: parser_parse_chunky_entity_def Let_def m split: if_splits)
  have sc1: "sc1 = scanner p"
    using match_incremental [OF entity_fmts_open(1) _ _ m] assms(1) ne by (simp add: partial_def)
  then have p1': "p1 = store_chunk_size outs p"
    using p1 by (simp add: set_cursor_def)
  obtain st' outs' sc' where m': "match_fmt env (grow x (scanner p)) ''%x%L%c'' = (st', outs', sc')" by (metis prod_cases3)
  have "store_chunk_size outs' p1 = store_chunk_size outs' p"
  proof (cases "outs = []")
    case True
    then show ?thesis by (simp add: p1' store_chunk_size_def)
  next
    case False
    then show ?thesis
      using chunk_line_outs [OF assms(1) m ne, of x] m' store_chunk_size_again by (auto simp: p1')
  qed
  then have "store_chunk_size outs' (p1\<lparr>scanner := sc'\<rparr>) = store_chunk_size outs' (p\<lparr>scanner := sc'\<rparr>)"
    by (simp add: store_chunk_size_scanner)
  moreover have "scanner p1 = scanner p" by (simp add: p1')
  ultimately show "parser_parse_chunky_entity env (ext x p) = parser_parse_chunky_entity env (ext x p1)"
    by (simp add: parser_parse_chunky_entity_def m')
  show "ent_position p1 = ent_position p" "position p1 = position p" "partial (scanner p1)"
    using assms(1) by (simp_all add: p1' store_chunk_size_def split: list.split match_out.split)
qed

lemma chunky_body_resume:
  assumes "partial (scanner p)" "parser_parse_chunky_body env p = (PARSE_INCOMPLETE, p1)"
  shows "p1 = p"
proof (cases "chunk_size p \<le> length (raw_msg p) - sc_cursor (scanner p)")
  case True
  let ?sc = "scanner (set_cursor (sc_cursor (scanner p) + chunk_size p) p)"
  obtain st outs sc1 where m: "match_fmt env ?sc ''%c'' = (st, outs, sc1)" by (metis prod_cases3)
  have "sc_cursor ?sc \<le> length (sc_msg ?sc)" "\<not> entire_msg_loaded ?sc"
    using True assms(1) by (auto simp: partial_def raw_msg_def)
  moreover have ne: "st \<noteq> PARSE_OK"
    using assms(2) True by (auto simp: parser_parse_chunky_body_def Let_def m)
  ultimately have sc1: "sc1 = ?sc" using match_incremental [OF entity_fmts_open(2) _ _ m] by blast
  have "p1 = set_cursor (sc_cursor sc1 - chunk_size p) ((set_cursor (sc_cursor (scanner p) + chunk_size p) p)\<lparr>scanner := sc1\<rparr>)"
    using assms(2) True ne by (auto simp: parser_parse_chunky_body_def Let_def m)
  then show ?thesis by (simp add: sc1 set_cursor_def)
qed (use assms(2) in \<open>simp add: parser_parse_chunky_body_def Let_def\<close>)

lemma entity_step_resume:
  assumes "partial (scanner p)" "entity_step env p = (st, p1)" "waiting st" "ent_position p \<noteq> ENTREAD_CHUNKY_HEADERS"
  shows "entity_step env (ext x p) = entity_step env (ext x p1) \<and> position p1 = position p \<and>
    ent_position p1 = ent_position p"
proof (cases "ent_position p")
  case ENTREAD_DETERMINE_READ_METHOD
  then show ?thesis
    using assms(2,3)
    by (auto simp: entity_step_def parser_get_entity_read_method_def Let_def waiting_def
        split: if_splits option.splits prod.splits)
next
  case ENTREAD_USING_CLEN
  have "p1 = p\<lparr>entity_length := length (raw_msg p) + amount_discarded p - entity_start_position p\<rparr>"
    using assms(2,3) ENTREAD_USING_CLEN
    by (auto simp: entity_step_def parser_parse_entity_using_clen_def waiting_def Let_def split: if_splits)
  moreover have "parser_parse_entity_using_clen (ext x (p\<lparr>entity_length := n\<rparr>)) = parser_parse_entity_using_clen (ext x p)" for n
    by (simp add: parser_parse_entity_using_clen_def Let_def set_msg_def ext_def raw_msg_def grow_def)
  ultimately show ?thesis using ENTREAD_USING_CLEN by (simp add: entity_step_def)
next
  case ENTREAD_USING_CHUNKED
  have "st = PARSE_INCOMPLETE"
    using assms(2,3) ENTREAD_USING_CHUNKED
      incremental.status [OF vfmatch_incremental [OF entity_fmts_open(1)], of env "scanner p"]
    by (auto simp: entity_step_def parser_parse_chunky_entity_def waiting_def Let_def match_fmt_def
        split: prod.splits if_splits)
  then show ?thesis
    using assms(2) ENTREAD_USING_CHUNKED chunky_entity_resume(1) [OF assms(1), of env p1 x]
      chunky_entity_resume(2,3) [OF assms(1), of env p1] by (simp add: entity_step_def)
next
  case ENTREAD_UNTIL_CLOSE
  have p1: "p1 = set_cursor (length (raw_msg p)) (p\<lparr>entity_length := length (raw_msg p) + amount_discarded p - entity_start_position p,
      entity_buf := Some (entity_start_position p)\<rparr>)"
    using assms(2) ENTREAD_UNTIL_CLOSE by (auto simp: entity_step_def parser_parse_entity_until_close_def Let_def)
  have "parser_parse_entity_until_close (ext x p1) = parser_parse_entity_until_close (ext x p)"
    by (simp add: p1 parser_parse_entity_until_close_def Let_def set_cursor_def ext_def raw_msg_def grow_def)
  moreover have "ent_position p1 = ent_position p" "position p1 = position p" by (simp_all add: p1 set_cursor_def)
  ultimately show ?thesis using ENTREAD_UNTIL_CLOSE by (simp add: entity_step_def)
next
  case ENTREAD_CHUNKY_BODY
  have "st = PARSE_INCOMPLETE"
    using assms(2,3) ENTREAD_CHUNKY_BODY incremental.status [OF vfmatch_incremental [OF entity_fmts_open(2)], of env]
    by (auto simp: entity_step_def parser_parse_chunky_body_def waiting_def Let_def match_fmt_def
        split: prod.splits if_splits) (metis fst_conv match_status_simps(7))+
  then show ?thesis
    using assms(2) ENTREAD_CHUNKY_BODY chunky_body_resume [OF assms(1), of env p1] by (simp add: entity_step_def)
qed (use assms(4) in simp)

text \<open>A round that goes on does the same when more data is there.\<close>

lemma chunky_entity_continue:
  assumes "partial (scanner p)" "parser_parse_chunky_entity env p = (PARSE_CONTINUE_1, p1)"
  shows "parser_parse_chunky_entity env (ext x p) = (PARSE_CONTINUE_1, ext x p1) \<and> partial (scanner p1)"
proof -
  obtain st outs sc1 where m: "match_fmt env (scanner p) ''%x%L%c'' = (st, outs, sc1)" by (metis prod_cases3)
  note I = vfmatch_incremental [OF entity_fmts_open(1), of env]
  have v: "vfmatch env (scanner p) ''%x%L%c'' = (st, outs, sc1)" using m by (simp add: match_fmt_def)
  have ok: "st = PARSE_OK"
    using assms(2) incremental.status [OF I, of "scanner p"] v
    by (auto simp: parser_parse_chunky_entity_def Let_def m split: if_splits)
  have gm: "match_fmt env (grow x (scanner p)) ''%x%L%c'' = (PARSE_OK, outs, grow x sc1)"
    using incremental.stable [OF I assms(1) v, of x] ok by (simp add: match_fmt_def)
  have fr: "framed (scanner p) sc1" using match_chunk_progress [OF m [unfolded ok]] by simp
  let ?k = "sc_cursor (scanner p)"
  let ?q = "store_chunk_size outs (p\<lparr>scanner := sc1\<rparr>)"
  have "?k + (sc_cursor sc1 - ?k) \<le> length (raw_msg ?q)" using fr by (simp add: framed_def raw_msg_def)
  then have d: "msg_delete ?k (sc_cursor sc1 - ?k) (ext x ?q) = ext x (msg_delete ?k (sc_cursor sc1 - ?k) ?q)"
    by (rule msg_delete_ext)
  have e: "store_chunk_size outs (p\<lparr>scanner := grow x sc1\<rparr>) = ext x ?q"
    by (simp add: store_chunk_size_ext ext_scanner)
  have "parser_parse_chunky_entity env (ext x p) = (PARSE_CONTINUE_1, ext x p1)"
    using assms(2) ok by (auto simp: parser_parse_chunky_entity_def Let_def m gm e d split: if_splits)
  moreover have "partial (scanner p1)"
    using assms fr ok
    by (auto simp: parser_parse_chunky_entity_def Let_def m partial_def framed_def msg_delete_def raw_msg_def split: if_splits)
  ultimately show ?thesis by blast
qed

lemma chunky_body_continue:
  assumes "partial (scanner p)" "parser_parse_chunky_body env p = (PARSE_CONTINUE_1, p1)"
  shows "parser_parse_chunky_body env (ext x p) = (PARSE_CONTINUE_1, ext x p1) \<and> partial (scanner p1)"
proof -
  let ?c = "sc_cursor (scanner p)" and ?n = "chunk_size p"
  let ?q = "set_cursor (?c + ?n) p"
  obtain st outs sc1 where m: "match_fmt env (scanner ?q) ''%c'' = (st, outs, sc1)" by (metis prod_cases3)
  note I = vfmatch_incremental [OF entity_fmts_open(2), of env]
  have v: "vfmatch env (scanner ?q) ''%c'' = (st, outs, sc1)" using m by (simp add: match_fmt_def)
  have le: "?n \<le> length (raw_msg p) - ?c" using assms(2) by (auto simp: parser_parse_chunky_body_def Let_def split: if_splits)
  have ok: "st = PARSE_OK"
    using assms(2) incremental.status [OF I, of "scanner ?q"] v le
    by (auto simp: parser_parse_chunky_body_def Let_def m split: if_splits)
  have pq: "partial (scanner ?q)" using assms(1) le by (auto simp: partial_def raw_msg_def)
  have gm: "match_fmt env (grow x (scanner ?q)) ''%c'' = (PARSE_OK, outs, grow x sc1)"
    using incremental.stable [OF I pq v, of x] ok by (simp add: match_fmt_def)
  have fr: "framed (scanner ?q) sc1" using incremental.frame [OF I v] pq by (simp add: partial_def)
  let ?r = "?q\<lparr>scanner := sc1\<rparr>"
  have "?c + ?n + (sc_cursor sc1 - (?c + ?n)) \<le> length (raw_msg ?r)" using fr by (simp add: framed_def raw_msg_def)
  then have d: "msg_delete (?c + ?n) (sc_cursor sc1 - (?c + ?n)) (ext x ?r) = ext x (msg_delete (?c + ?n) (sc_cursor sc1 - (?c + ?n)) ?r)"
    by (rule msg_delete_ext)
  have e: "?q\<lparr>scanner := grow x sc1\<rparr> = ext x ?r" by (simp add: ext_scanner)
  have le': "?n \<le> length (raw_msg p @ x) - ?c" using le by simp
  have "parser_parse_chunky_body env (ext x p) = (PARSE_CONTINUE_1, ext x p1)"
    using assms(2) ok le le' by (auto simp: parser_parse_chunky_body_def Let_def m gm e d)
  moreover have "partial (scanner p1)"
    using assms fr ok le
    by (auto simp: parser_parse_chunky_body_def Let_def m partial_def framed_def msg_delete_def raw_msg_def)
  ultimately show ?thesis by blast
qed

lemma entity_step_continue:
  assumes "partial (scanner p)" "entity_step env p = (PARSE_CONTINUE_1, p1)"
  shows "entity_step env (ext x p) = (PARSE_CONTINUE_1, ext x p1) \<and> partial (scanner p1)"
proof (cases "ent_position p")
  case ENTREAD_DETERMINE_READ_METHOD
  have "partial (scanner p1)"
    using assms ENTREAD_DETERMINE_READ_METHOD
    by (auto simp: entity_step_def parser_get_entity_read_method_def Let_def split: if_splits option.splits prod.splits)
  moreover have "parser_get_entity_read_method (ext x p) = lift x (parser_get_entity_read_method p)"
    by (auto simp: parser_get_entity_read_method_def Let_def split: option.splits prod.splits)
  ultimately show ?thesis using assms(2) ENTREAD_DETERMINE_READ_METHOD by (simp add: entity_step_def)
next
  case ENTREAD_USING_CHUNKED
  then show ?thesis using assms chunky_entity_continue by (simp add: entity_step_def)
next
  case ENTREAD_CHUNKY_BODY
  then show ?thesis using assms chunky_body_continue by (simp add: entity_step_def)
next
  case ENTREAD_CHUNKY_HEADERS
  then show ?thesis
    using assms(2) parse_headers_status [of env p]
    by (auto simp: entity_step_def parser_parse_chunky_headers_def Let_def split: prod.splits if_splits)
qed (use assms(2) in \<open>auto simp: entity_step_def parser_parse_entity_using_clen_def parser_parse_entity_until_close_def
      Let_def split: if_splits\<close>)

lemma position_simps [simp]:
  "position (set_cursor k p) = position p" "position (set_msg m p) = position p"
  "position (msg_delete i n p) = position p" "position (store_chunk_size outs p) = position p"
  "ent_position (set_cursor k p) = ent_position p"
  by (simp_all add: set_cursor_def set_msg_def msg_delete_def store_chunk_size_def split: list.split match_out.split)

lemma entity_step_position: "entity_step env p = (PARSE_CONTINUE_1, p1) \<Longrightarrow> position p1 = position p"
proof (cases "ent_position p")
  case ENTREAD_CHUNKY_HEADERS
  then show "entity_step env p = (PARSE_CONTINUE_1, p1) \<Longrightarrow> position p1 = position p"
    using parse_headers_status [of env p]
    by (auto simp: entity_step_def parser_parse_chunky_headers_def Let_def split: prod.splits if_splits)
qed (auto simp: entity_step_def parser_parse_entity_using_clen_def parser_parse_entity_until_close_def
    parser_parse_chunky_entity_def parser_parse_chunky_body_def parser_get_entity_read_method_def Let_def
    split: prod.splits if_splits option.splits)

lemma store_header_ent: "store_header q t v = (ok, q') \<Longrightarrow> ent_position q' = ent_position q"
  using store_header_keeps [of q t v] by (simp add: keeps_def)

lemma parse_headers_ent_position: "ent_position (snd (parser_parse_headers env p)) = ent_position p"
proof (induction env p rule: parser_parse_headers.induct)
  case (1 env p)
  show ?case
  proof (cases "header_step env p")
    case (Inl r)
    have "ent_position (snd r) = ent_position p"
      using Inl by (auto simp: header_step_def Let_def split: sum.splits prod.splits if_splits dest: store_header_ent)
    then show ?thesis using Inl by (simp add: parser_parse_headers.simps [of env p])
  next
    case (Inr p1)
    then show ?thesis
      using 1 [OF Inr] header_step_keeps [OF Inr] by (simp add: parser_parse_headers.simps [of env p] keeps_def)
  qed
qed

lemma parse_entity_resume:
  assumes "partial (scanner p)" "parser_parse_entity env p = (st, p1)" "waiting st" "ent_position p1 \<noteq> ENTREAD_CHUNKY_HEADERS"
    "position p = POS_ENTITY"
  shows "parser_parse_entity env (ext x p) = parser_parse_entity env (ext x p1) \<and> position p1 = POS_ENTITY"
  using assms
proof (induction env p rule: parser_parse_entity.induct)
  case (1 env p)
  obtain s p2 where s: "entity_step env p = (s, p2)" by fastforce
  note unfold = parser_parse_entity.simps [of env p] parser_parse_entity.simps [of env "ext x p"]
    parser_parse_entity.simps [of env "ext x p1"]
  show ?case
  proof (cases "s = PARSE_CONTINUE_1")
    case True
    note c = entity_step_continue [OF 1(2) s [unfolded True]]
    have "position p2 = POS_ENTITY"
      using entity_step_position [OF s [unfolded True]] 1(6) by simp
    then show ?thesis using 1(1) [OF s [symmetric] True] 1(3-5) c s True
      by (simp add: parser_parse_entity.simps [of env p] parser_parse_entity.simps [of env "ext x p"])
  next
    case False
    then have eq: "s = st" "p2 = p1" using 1(3) s by (auto simp: parser_parse_entity.simps [of env p])
    have "ent_position p \<noteq> ENTREAD_CHUNKY_HEADERS"
      using 1(4,5) s eq parse_headers_ent_position [of env p]
      by (auto simp: entity_step_def parser_parse_chunky_headers_def waiting_def Let_def split: prod.splits if_splits)
    then show ?thesis
      using entity_step_resume [OF 1(2) s [unfolded eq] 1(4), of x] 1(6) by (simp add: unfold)
  qed
qed

section \<open>The response line\<close>

text \<open>Skipping blank lines again changes nothing, and it can go on where it stopped.\<close>

lemma skip_blank_lines_again:
  "partial sc \<Longrightarrow> skip_blank_lines sc = (PARSE_OK, sc') \<Longrightarrow> skip_blank_lines sc' = (PARSE_OK, sc')"
proof (induction sc rule: skip_blank_lines.induct)
  case (1 sc)
  show ?case
  proof (cases sc rule: get_token_cases)
    case (token t ty sc1)
    note b = scanner_get_token_bounds [OF token(1)]
    show ?thesis
    proof (cases "ty = TT_WHITESPACE \<or> ty = TT_CRLF")
      case True
      then show ?thesis
        using 1(1) [OF token(1) refl refl True get_token_grow(2) [OF 1(2) token(1)]] 1(3)
        by (simp add: skip_blank_lines.simps [of sc] token(1))
    next
      case False
      have "push_back sc1 t = sc" using b by (simp add: push_back_def)
      then have "sc' = sc" using 1(3) False by (simp add: skip_blank_lines.simps [of sc] token(1))
      then show ?thesis using 1(3) by simp
    qed
  qed (use 1(3) in \<open>auto simp: skip_blank_lines.simps [of sc]\<close>)
qed

lemma skip_blank_lines_resume:
  "partial sc \<Longrightarrow> skip_blank_lines sc = (PARSE_INCOMPLETE, sc') \<Longrightarrow>
   skip_blank_lines (grow x sc) = skip_blank_lines (grow x sc')"
proof (induction sc rule: skip_blank_lines.induct)
  case (1 sc)
  show ?case
  proof (cases sc rule: get_token_cases)
    case (token t ty sc1)
    note g = get_token_grow [OF 1(2) token(1)]
    show ?thesis
    proof (cases "ty = TT_WHITESPACE \<or> ty = TT_CRLF")
      case True
      then show ?thesis
        using 1(1) [OF token(1) refl refl True g(2)] 1(3) g(1) [of x]
        by (simp add: skip_blank_lines.simps [of sc] skip_blank_lines.simps [of "grow x sc"] token(1))
    next
      case False
      then show ?thesis using 1(3) by (simp add: skip_blank_lines.simps [of sc] token(1))
    qed
  qed (use 1(3) in \<open>auto simp: skip_blank_lines.simps [of sc]\<close>)
qed

text \<open>The part of the line behind the version and the code.\<close>

definition skip_int :: "string \<Rightarrow> string" where
  "skip_int s = dropWhile isdigit (dropWhile (\<lambda>c. \<not> isdigit c) s)"

fun has_ints :: "nat \<Rightarrow> string \<Rightarrow> bool" where
  "has_ints 0 s \<longleftrightarrow> True"
| "has_ints (Suc n) s \<longleftrightarrow> (\<exists>c \<in> set s. isdigit c) \<and> has_ints n (skip_int s)"

lemma skip_int_append:
  "\<exists>d \<in> set a. isdigit d \<Longrightarrow> \<not> isdigit c \<Longrightarrow> skip_int (a @ c # r) = skip_int a @ c # r"
  by (auto simp: skip_int_def dropWhile_append1 dropWhile_append3 dropWhile_append2) 

lemma skip_ints_append: "has_ints n a \<Longrightarrow> \<not> isdigit c \<Longrightarrow> skip_ints n (a @ c # r) = skip_ints n a @ c # r"
  by (induction n arbitrary: a) (auto simp: skip_int_append simp flip: skip_int_def)

lemma skip_int_nondigits: "\<forall>c \<in> set a. \<not> isdigit c \<Longrightarrow> skip_int (a @ s) = skip_int s"
  by (simp add: skip_int_def dropWhile_append2)

lemma has_ints_append: "has_ints n a \<Longrightarrow> \<not> isdigit c \<Longrightarrow> has_ints n (a @ c # r)"
  by (induction n arbitrary: a) (auto simp: skip_int_append)

lemma digit_value_10: "digit_value c < 10 \<longleftrightarrow> isdigit c"
  by (auto simp: digit_value_def ctype_defs)

lemma digits_value_10: "digits_value 10 acc s = (v, n) \<Longrightarrow> n = length (takeWhile isdigit s)"
  by (induction s arbitrary: acc v n) (auto simp: digit_value_10 split: if_splits prod.splits)

lemma drop_skip_int:
  assumes "\<forall>c \<in> set (take k s). \<not> isdigit c" "m = length (takeWhile isdigit (drop k s))" "m \<noteq> 0"
  shows "drop (k + m) s = skip_int s \<and> (\<exists>c \<in> set s. isdigit c)"
proof -
  obtain d ds where d: "drop k s = d # ds" "isdigit d"
    using assms(2,3) by (cases "drop k s") (auto split: if_splits)
  have "skip_int s = skip_int (drop k s)"
    using skip_int_nondigits [OF assms(1), of "drop k s"] by simp
  also have "\<dots> = drop m (drop k s)"
    using d assms(2) by (simp add: skip_int_def dropWhile_eq_drop)
  finally have "drop (k + m) s = skip_int s" by (simp add: add.commute)
  moreover have "d \<in> set s" using d(1) by (metis in_set_dropD list.set_intros(1))
  ultimately show ?thesis using d(2) by blast
qed

lemma strtol_skip_int:
  assumes "strtol s 10 = (v, n, e)" "n \<noteq> 0"
  shows "drop n s = skip_int s \<and> (\<exists>c \<in> set s. isdigit c)"
proof -
  let ?k = "skip_space s" and ?np = "number_prefix s 10"
  obtain w m where d: "digits_value 10 0 (drop ?np s) = (w, m)" by fastforce
  have n: "n = ?np + m" "m \<noteq> 0" using assms d by (auto simp: strtol_def Let_def split: if_splits)
  have np: "?np = ?k + sign_length (drop ?k s)"
    by (simp add: number_prefix_def hex_prefix_def Let_def split: list.split)
  have sp: "\<not> isdigit c" if "isspace c" for c using that by (auto simp: isspace_def isdigit_def)
  have sg: "\<not> isdigit c" if "c \<in> set (take (sign_length r) r)" for c r
    using that by (cases r) (auto simp: sign_length_def isdigit_def byte_of_def split: if_splits)
  have "take ?np s = take ?k s @ take (sign_length (drop ?k s)) (drop ?k s)" by (simp add: np take_add)
  moreover have "take ?k s = takeWhile isspace s" by (simp add: skip_space_def takeWhile_eq_take [symmetric])
  ultimately have "\<forall>c \<in> set (take ?np s). \<not> isdigit c" using sp sg by (auto dest: set_takeWhileD)
  from drop_skip_int [OF this digits_value_10 [OF d] n(2)] show ?thesis by (simp add: n(1))
qed

lemma sscanf_has_ints: "length (sscanf ''%d . %d %d'' s) = 3 \<Longrightarrow> has_ints 3 s"
proof -
  assume l: "length (sscanf ''%d . %d %d'' s) = 3"
  obtain v1 n1 e1 where 1: "strtol s 10 = (v1, n1, e1)" by (metis prod_cases3)
  have n1: "n1 \<noteq> 0" using l 1 by (auto simp: sscanf.simps split: if_splits)
  let ?s1 = "drop n1 s"
  note a1 = strtol_skip_int [OF 1 n1]
  obtain r where r: "dropWhile isspace ?s1 = CHR ''.'' # r"
    using l 1 n1 by (auto simp: sscanf.simps split: list.splits if_splits)
  let ?s2 = "dropWhile isspace r"
  obtain v2 n2 e2 where 2: "strtol ?s2 10 = (v2, n2, e2)" by (metis prod_cases3)
  have n2: "n2 \<noteq> 0" using l 1 n1 r 2 by (auto simp: sscanf.simps split: if_splits)
  note a2 = strtol_skip_int [OF 2 n2]
  let ?s3 = "dropWhile isspace (drop n2 ?s2)"
  obtain v3 n3 e3 where 3: "strtol ?s3 10 = (v3, n3, e3)" by (metis prod_cases3)
  have n3: "n3 \<noteq> 0" using l 1 n1 r 2 n2 3 by (auto simp: sscanf.simps split: if_splits)
  note a3 = strtol_skip_int [OF 3 n3]
  have sp: "\<not> isdigit c" if "isspace c" for c using that by (auto simp: isspace_def isdigit_def)
  have w: "\<forall>c \<in> set (takeWhile isspace y). \<not> isdigit c" for y using sp by (auto dest: set_takeWhileD)
  have dot: "\<not> isdigit (CHR ''.'')" by (simp add: isdigit_def byte_of_def)
  have e: "?s1 = (takeWhile isspace ?s1 @ CHR ''.'' # takeWhile isspace r) @ ?s2"
    using r by (metis append.assoc append_Cons takeWhile_dropWhile_id)
  have "skip_int ?s1 = skip_int ?s2"
    by (subst e, rule skip_int_nondigits) (use w dot in auto)
  moreover have "\<exists>c \<in> set ?s1. isdigit c" using a2 e by (metis Un_iff set_append)
  moreover have "\<exists>c \<in> set (drop n2 ?s2). isdigit c" using a3 by (auto dest: set_dropWhileD)
  ultimately show "has_ints 3 s" using a1 a2 by (simp add: numeral_3_eq_3)
qed

lemma dropWhile_stop: "\<not> P c \<Longrightarrow> dropWhile P (q @ c # T) = dropWhile P q @ c # T"
  by (induction q) auto

lemma skip_ints_length: "length (skip_ints n s) \<le> length s"
proof (induction n arbitrary: s)
  case (Suc n)
  have "length (skip_int s) \<le> length s"
    unfolding skip_int_def by (rule order_trans [OF length_dropWhile_le length_dropWhile_le])
  then show ?case using Suc [of "skip_int s"] by (simp add: skip_int_def)
qed simp

lemma set_versions_ext: "set_versions vs (ext x p) = ext x (set_versions vs p)"
  by (simp add: set_versions_def)

text \<open>What the response line leaves behind the third number, when a line end follows.\<close>

lemma status_text:
  assumes "has_ints 3 L" "c = CR \<or> c = LF" and q: "q = skip_ints 3 L"
  shows "skip_ints 3 (L @ c # T) = q @ c # T" "q @ c # T \<noteq> []"
    "is_ws (hd (q @ c # T)) \<longleftrightarrow> q \<noteq> [] \<and> is_ws (hd q)"
    "dropWhile (\<lambda>c. is_ws c) (q @ c # T) = dropWhile (\<lambda>c. is_ws c) q @ c # T"
    "length L - (length (L @ c # T) - length (dropWhile (\<lambda>c. is_ws c) q @ c # T)) = length (dropWhile (\<lambda>c. is_ws c) q)"
proof -
  show "skip_ints 3 (L @ c # T) = q @ c # T" using skip_ints_append [OF assms(1), of c T] assms(2) q by auto
  show "is_ws (hd (q @ c # T)) \<longleftrightarrow> q \<noteq> [] \<and> is_ws (hd q)" using assms(2) by (cases q) auto
  show "dropWhile (\<lambda>c. is_ws c) (q @ c # T) = dropWhile (\<lambda>c. is_ws c) q @ c # T"
    using assms(2) by (intro dropWhile_stop) auto
  have "length (dropWhile (\<lambda>c. is_ws c) q) \<le> length L"
    using order_trans [OF length_dropWhile_le skip_ints_length] q by blast
  then show "length L - (length (L @ c # T) - length (dropWhile (\<lambda>c. is_ws c) q @ c # T)) = length (dropWhile (\<lambda>c. is_ws c) q)"
    by simp
qed simp

lemma response_line_ok:
  assumes "drop (fst l) (raw_msg p) = L @ c # T" "length L = snd l" "c = CR \<or> c = LF"
  shows "response_line p l =
     (let vs = sscanf ''%d . %d %d'' (c_str L);
          p1 = set_versions vs p;
          p2 = p1\<lparr>status_code := (if 3 \<le> length vs then vs ! 2 else status_code p1)\<rparr> in
      if length vs \<noteq> 3 \<or> major_version p2 < 0 \<or> minor_version p2 < 0 \<or> status_code p2 < 0
      then (PARSE_FAILURE, p2)
      else let q = skip_ints 3 L in
        if q = [] \<or> \<not> is_ws (hd q) then (PARSE_FAILURE, p2)
        else let (ok, p3) = ask p2 in
          if \<not> ok then (PARSE_FAILURE, p3\<lparr>http_error_code := HTTP_INTERNAL_SERVER_ERROR\<rparr>)
          else (PARSE_OK, p3\<lparr>status_msg := dropWhile (\<lambda>c. is_ws c) q, position := POS_HEADERS\<rparr>))"
proof -
  have L: "ref_str (raw_msg p) l = L" using assms(1,2) by (simp add: ref_str_def)
  show ?thesis
  proof (cases "length (sscanf ''%d . %d %d'' (c_str L)) = 3")
    case False
    then show ?thesis by (simp add: response_line_def L Let_def)
  next
    case True
    have h: "has_ints 3 L"
    proof (cases "NUL \<in> set L")
      case in_L: True
      then have "L = c_str L @ NUL # tl (dropWhile (\<lambda>c. c \<noteq> NUL) L)"
        unfolding c_str_def
        by (metis (mono_tags, lifting) dropWhile_eq_Nil_conv hd_dropWhile list.collapse takeWhile_dropWhile_id)
      then show ?thesis using has_ints_append [OF sscanf_has_ints [OF True], of NUL] by (metis CRLF_chars(7))
    next
      case False
      then have "c_str L = L" unfolding c_str_def by (subst takeWhile_eq_all_conv) auto
      then show ?thesis using sscanf_has_ints [OF True] by simp
    qed
    have buf: "drop (fst l) (raw_msg p) @ [NUL] = L @ c # (T @ [NUL])" using assms(1) by simp
    note st = status_text [OF h assms(3) refl, of "T @ [NUL]"]
    have t: "take (length q) (q @ r) = q" for q r :: string by simp
    show ?thesis
      unfolding response_line_def L Let_def buf st assms(2) [symmetric] t
      using st(2) by (auto split: prod.splits)
  qed
qed

lemma response_line_ext:
  assumes "fst l + snd l < length (raw_msg p)" "raw_msg p ! (fst l + snd l) = CR \<or> raw_msg p ! (fst l + snd l) = LF"
  shows "response_line (ext x p) l = lift x (response_line p l)"
proof -
  let ?m = "raw_msg p" and ?k = "fst l + snd l"
  have "drop (fst l) ?m = take (snd l) (drop (fst l) ?m) @ drop ?k ?m" by (metis add.commute append_take_drop_id drop_drop)
  then have d: "drop (fst l) ?m = ref_str ?m l @ ?m ! ?k # drop (Suc ?k) ?m"
    using assms(1) by (simp add: ref_str_def Cons_nth_drop_Suc)
  have n: "length (ref_str ?m l) = snd l" using assms(1) by (simp add: ref_str_def)
  have d': "drop (fst l) (raw_msg (ext x p)) = ref_str ?m l @ ?m ! ?k # (drop (Suc ?k) ?m @ x)"
    using d assms(1) by simp
  define vs where "vs = sscanf ''%d . %d %d'' (c_str (ref_str ?m l))"
  define p2 where "p2 = (set_versions vs p)\<lparr>status_code := (if 3 \<le> length vs then vs ! 2 else status_code (set_versions vs p))\<rparr>"
  have e: "(set_versions vs (ext x p))\<lparr>status_code := (if 3 \<le> length vs then vs ! 2 else status_code (set_versions vs (ext x p)))\<rparr> = ext x p2"
    by (simp add: p2_def set_versions_ext)
  obtain ok p3 where a: "ask p2 = (ok, p3)" by fastforce
  show ?thesis
    unfolding response_line_ok [OF d n assms(2)] response_line_ok [OF d' n assms(2)] Let_def vs_def [symmetric] e p2_def [symmetric]
    by (simp add: ask_ext a)
qed

text \<open>A line that was read ends at a line break.\<close>

definition at_break :: "scanner_t \<Rightarrow> bool" where
  "at_break sc \<longleftrightarrow> sc_cursor sc < length (sc_msg sc) \<and>
     (sc_msg sc ! sc_cursor sc = CR \<or> sc_msg sc ! sc_cursor sc = LF)"

lemma crlf_token_break:
  assumes "scanner_get_token sc = Inr (t, TT_CRLF, sc1)"
  shows "at_break (push_back sc1 t)"
proof -
  note b = scanner_get_token_bounds [OF assms]
  obtain n where "scan_token (entire_msg_loaded sc) (scanner_get_str sc) = Inr (n, TT_CRLF)"
    using assms by (auto simp: scanner_get_token_def split: sum.splits)
  then have "scanner_get_str sc \<noteq> [] \<and> (hd (scanner_get_str sc) = CR \<or> hd (scanner_get_str sc) = LF)"
    by (auto simp: scan_token_def Let_def split: list.splits if_splits sum.splits)
  then show ?thesis using b by (auto simp: at_break_def scanner_get_str_def hd_drop_conv_nth)
qed

lemma read_loop_break: "read_until_crlf_loop sc = (PARSE_OK, sc') \<Longrightarrow> at_break sc'"
proof (induction sc rule: read_until_crlf_loop.induct)
  case (1 sc)
  show ?case
  proof (cases sc rule: get_token_cases)
    case (token t ty sc1)
    then show ?thesis
      using 1(1) [OF token(1) refl refl] 1(2) crlf_token_break [of sc t sc1]
      by (cases "ty = TT_CRLF") (auto simp: read_until_crlf_loop.simps [of sc])
  qed (use 1(2) in \<open>auto simp: read_until_crlf_loop.simps [of sc]\<close>)
qed

lemma match_line_break:
  assumes "match_fmt env sc ''%ihttp%w/%w%L%c'' = (PARSE_OK, outs, sc')" "sc_cursor sc \<le> length (sc_msg sc)"
  obtains r where "outs = [OutStr r]" "fst r + snd r < length (sc_msg sc)"
    "sc_msg sc ! (fst r + snd r) = CR \<or> sc_msg sc ! (fst r + snd r) = LF"
proof -
  have "vfmatch_loop env ''%ihttp%w/%w%L%c'' True sc = (PARSE_OK, outs, sc')"
    using assms(1) by (auto simp: match_fmt_def vfmatch_def simp del: vfmatch_loop.simps split: prod.splits if_splits)
  then have "then_match (vfmatch_loop env ''%ihttp%w/%w'' True) (vfmatch_loop env ''%L%c'' False) sc = (PARSE_OK, outs, sc')"
    using vfmatch_loop_append [of "''%ihttp%w/%w''" env "''%L%c''" True]
    by (simp add: next_case_def del: vfmatch_loop.simps)
  then obtain o1 o2 sc1 where 1: "vfmatch_loop env ''%ihttp%w/%w'' True sc = (PARSE_OK, o1, sc1)"
    and 2: "vfmatch_loop env ''%L%c'' False sc1 = (PARSE_OK, o2, sc')" and o12: "outs = o1 @ o2"
    by (auto simp: then_match_def simp del: vfmatch_loop.simps split: prod.splits if_splits)
  have o1: "o1 = []" using vfmatch_loop_silent [of "''%ihttp%w/%w''" env True sc] 1 by simp
  have c1: "framed sc sc1"
    by (rule incremental.frame [OF vfmatch_loop_incremental 1 assms(2)]) (simp add: open_option_def)
  obtain s2 sc2 where 3: "read_until_crlf_loop sc1 = (s2, sc2)" by fastforce
  have ok: "s2 = PARSE_OK" and o2: "o2 = [OutStr (sc_cursor sc1, sc_cursor sc2 - sc_cursor sc1)]"
    using 2 3 by (auto simp: match_option_simps out_str_def forget_def read_until_crlf_def split: prod.splits if_splits)
  have c2: "framed sc1 sc2" using read_loop_frame [of sc1] c1 3 by (simp add: framed_def)
  have "at_break sc2" using read_loop_break 3 ok by simp
  then show thesis
    using that [of "(sc_cursor sc1, sc_cursor sc2 - sc_cursor sc1)"] o12 o1 o2 c1 c2 by (simp add: at_break_def framed_def)
qed

text \<open>What has been decided about the response line stays, and an undecided one is read again.\<close>

lemma response_fmt_open: "open_fmt ''%ihttp%w/%w%L%c''"
  by (simp add: open_option_def)

lemma response_line_incomplete: "response_line p l = (st, p1) \<Longrightarrow> \<not> waiting st"
  by (auto simp: response_line_def waiting_def Let_def split: if_splits prod.splits)

lemma set_versions_scanner: "scanner (set_versions vs p) = scanner p"
  by (simp add: set_versions_def)

lemma response_line_scanner:
  assumes "response_line p l = (st, p1)"
  shows "scanner p1 = scanner p"
proof -
  define vs where "vs = sscanf ''%d . %d %d'' (c_str (ref_str (raw_msg p) l))"
  define p2 where "p2 = (set_versions vs p)\<lparr>status_code := (if 3 \<le> length vs then vs ! 2 else status_code (set_versions vs p))\<rparr>"
  obtain ok p3 where a: "ask p2 = (ok, p3)" by fastforce
  have "scanner p2 = scanner p" by (simp add: p2_def set_versions_scanner)
  moreover have "scanner p3 = scanner p2" using ask_keeps [of p2] a by (simp add: keeps_def)
  ultimately show ?thesis
    using assms unfolding response_line_def Let_def vs_def [symmetric] p2_def [symmetric] a
    by (auto split: if_splits)
qed

lemma responseline_ext:
  assumes "partial (scanner p)" "parser_parse_responseline env p = (st, p1)"
  shows "if waiting st
    then position p1 = position p \<and> partial (scanner p1) \<and>
      parser_parse_responseline env (ext x p) = parser_parse_responseline env (ext x p1)
    else parser_parse_responseline env (ext x p) = (st, ext x p1) \<and> partial (scanner p1)"
proof -
  obtain s sc1 where b: "skip_blank_lines (scanner p) = (s, sc1)" by fastforce
  have ps: "partial sc1"
    using skip_blank_lines_frame [of "scanner p"] assms(1) b by (simp add: partial_def framed_def)
  have ms: "match_status s" using skip_blank_lines_status [of "scanner p"] b by simp
  show ?thesis
  proof (cases "s = PARSE_OK")
    case False
    then have p1: "p1 = p\<lparr>scanner := sc1\<rparr>" "st = s" using assms(2) by (simp_all add: parser_parse_responseline_def b)
    show ?thesis
    proof (cases "s = PARSE_INCOMPLETE")
      case True
      have "skip_blank_lines (grow x (scanner p)) = skip_blank_lines (grow x sc1)"
        by (rule skip_blank_lines_resume [OF assms(1) b [unfolded True]])
      then show ?thesis
        using True ps by (simp add: p1 waiting_def parser_parse_responseline_def split: prod.splits)
    next
      case inc: False
      have "skip_blank_lines (grow x (scanner p)) = (s, grow x sc1)"
        using skip_blank_lines_grow [OF assms(1), of x] b inc by simp
      moreover have "\<not> waiting s" using ms inc by (auto simp: waiting_def)
      ultimately show ?thesis using False ps by (simp add: p1 parser_parse_responseline_def ext_scanner)
    qed
  next
    case True
    have bg: "skip_blank_lines (grow x (scanner p)) = (PARSE_OK, grow x sc1)"
      using skip_blank_lines_grow [OF assms(1), of x] b True by simp
    have "skip_blank_lines sc1 = (PARSE_OK, sc1)" by (rule skip_blank_lines_again [OF assms(1) b [unfolded True]])
    then have bg1: "skip_blank_lines (grow x sc1) = (PARSE_OK, grow x sc1)"
      using skip_blank_lines_grow [OF ps, of x] by simp
    obtain s2 outs sc2 where m: "match_fmt env sc1 ''%ihttp%w/%w%L%c'' = (s2, outs, sc2)" by (metis prod_cases3)
    have c1: "sc_cursor sc1 \<le> length (sc_msg sc1)" "\<not> entire_msg_loaded sc1" using ps by (simp_all add: partial_def)
    note mi = match_incremental [OF response_fmt_open c1(2,1) m, of x]
    have fr: "framed sc1 sc2" by (rule match_framed [OF response_fmt_open m c1(1)])
    have s2: "match_status s2"
      using incremental.status [OF vfmatch_incremental [OF response_fmt_open], of env sc1] m by (simp add: match_fmt_def)
    have gm: "s2 \<noteq> PARSE_INCOMPLETE \<Longrightarrow> match_fmt env (grow x sc1) ''%ihttp%w/%w%L%c'' = (s2, outs, grow x sc2)"
      using mi by (simp add: grow_def)
    show ?thesis
    proof (cases "s2 = PARSE_OK")
      case False
      then have sc2: "sc2 = sc1" and p1: "p1 = p\<lparr>scanner := sc1\<rparr>" "st = s2"
        using mi assms(2) by (simp_all add: parser_parse_responseline_def b True m)
      show ?thesis
      proof (cases "s2 = PARSE_INCOMPLETE")
        case inc: True
        show ?thesis using inc ps bg bg1 by (simp add: p1 waiting_def parser_parse_responseline_def split: prod.splits)
      next
        case inc: False
        have "\<not> waiting s2" using s2 inc by (auto simp: waiting_def)
        then show ?thesis
          using False ps bg gm [OF inc] by (simp add: p1 parser_parse_responseline_def sc2 ext_scanner)
      qed
    next
      case ok: True
      obtain r where r: "outs = [OutStr r]" "fst r + snd r < length (sc_msg sc1)"
          "sc_msg sc1 ! (fst r + snd r) = CR \<or> sc_msg sc1 ! (fst r + snd r) = LF"
        by (rule match_line_break [OF m [unfolded ok] c1(1)])
      have rl: "response_line (p\<lparr>scanner := sc2\<rparr>) r = (st, p1)"
        using assms(2) by (simp add: parser_parse_responseline_def b True m ok r(1) fst_str_def)
      have "response_line (ext x (p\<lparr>scanner := sc2\<rparr>)) r = (st, ext x p1)"
        using response_line_ext [of r "p\<lparr>scanner := sc2\<rparr>" x] r fr rl by (simp add: raw_msg_def framed_def)
      moreover have "partial (scanner p1)"
        using response_line_scanner [OF rl] fr ps by (simp add: partial_def framed_def)
      ultimately show ?thesis
        using response_line_incomplete [OF rl] bg gm ok r(1)
        by (simp add: parser_parse_responseline_def ext_scanner fst_str_def)
    qed
  qed
qed

section \<open>The parser\<close>

lemma parse_headers_decided:
  assumes "partial (scanner p)" "parser_parse_headers env p = (PARSE_OK, p1)"
  shows "parser_parse_headers env (ext x p) = (PARSE_OK, ext x p1)"
  using parse_headers_ext [OF assms(1), of env x] assms(2) by simp

lemma parse_headers_partial: "partial (scanner p) \<Longrightarrow> partial (scanner (snd (parser_parse_headers env p)))"
proof (induction env p rule: parser_parse_headers.induct)
  case (1 env p)
  show ?case
  proof (cases "header_step env p")
    case (Inr p1)
    have "partial (scanner p1)" using header_step_progress(1) [OF Inr] 1(2) by (simp add: partial_def framed_def)
    then show ?thesis using 1(1) [OF Inr] Inr by (simp add: parser_parse_headers.simps [of env p])
  next
    case (Inl r)
    have "partial (scanner (snd r))"
    proof (cases "scanner p" rule: get_token_cases)
      case (error st)
      then show ?thesis using Inl 1(2) by (auto simp: header_step_def Let_def)
    next
      case (token t ty sc1)
      obtain st outs sc2 where m: "match_fmt env sc1 '' : %R%c'' = (st, outs, sc2)" by (metis prod_cases3)
      have f1: "framed (scanner p) sc1" by (rule token(2))
      have f2: "framed (scanner p) sc2"
        using framed_trans [OF f1 match_framed [OF header_fmt_open m framed_bound [OF f1]]] .
      have "scanner (snd r) = sc1 \<or> scanner (snd r) = sc2 \<or> scanner (snd r) = sc2\<lparr>sc_cursor := sc_cursor (scanner p)\<rparr>"
        using Inl token(1) m store_header_scanner [of "p\<lparr>scanner := sc2\<rparr>" t "fst_str outs"]
        by (auto simp: header_step_def Let_def set_cursor_def split: if_splits prod.splits)
      then show ?thesis using f1 f2 1(2) by (auto simp: partial_def framed_def)
    qed
    then show ?thesis using Inl by (simp add: parser_parse_headers.simps [of env p])
  qed
qed

text \<open>Which part is being read, and that it is the same part when the parser goes on.\<close>

lemma parser_step_ext:
  assumes "partial (scanner p)" "position p \<noteq> POS_REQUEST_LINE" "parser_step env p = (st, p1)"
  shows "st = PARSE_OK \<Longrightarrow> parser_step env (ext x p) = (PARSE_OK, ext x p1) \<and> partial (scanner p1) \<and> position p1 \<noteq> POS_REQUEST_LINE"
    "waiting st \<Longrightarrow> ent_position p1 \<noteq> ENTREAD_CHUNKY_HEADERS \<Longrightarrow> parser_step env (ext x p) = parser_step env (ext x p1)"
proof -
  have notw: "\<not> waiting PARSE_OK" "\<not> waiting PARSE_FAILURE" by (simp_all add: waiting_def)
  have head: "fst (parser_parse_headers env p) \<noteq> PARSE_INCOMPLETE_ENTITY"
  proof -
    have "header_step env q = Inl r \<Longrightarrow> fst r \<noteq> PARSE_INCOMPLETE_ENTITY" for q r
      using get_token_status [of "scanner q"] incremental.status [OF vfmatch_incremental [OF header_fmt_open], of env]
      by (auto simp: header_step_def Let_def match_fmt_def split: sum.splits prod.splits if_splits)
        (metis fst_conv match_status_simps(7))+
    then show ?thesis
      by (induction env p rule: parser_parse_headers.induct) (subst parser_parse_headers.simps, auto split: sum.split)
  qed
  show "st = PARSE_OK \<Longrightarrow> parser_step env (ext x p) = (PARSE_OK, ext x p1) \<and> partial (scanner p1) \<and> position p1 \<noteq> POS_REQUEST_LINE"
    using assms parse_headers_decided [OF assms(1), of env p1 x] parse_headers_partial [OF assms(1), of env]
      parse_headers_position [of env p p1] responseline_ext [OF assms(1), of env st p1 x]
      responseline_position [of env p p1] parse_entity_not_ok [of env p] notw
    by (cases "position p") (auto simp: parser_step_def)
  show "waiting st \<Longrightarrow> ent_position p1 \<noteq> ENTREAD_CHUNKY_HEADERS \<Longrightarrow> parser_step env (ext x p) = parser_step env (ext x p1)"
    using assms parse_headers_ext [OF assms(1), of env x] responseline_ext [OF assms(1), of env st p1 x] head
      parse_entity_resume [OF assms(1), of env st p1 x]
    by (cases "position p") (auto simp: parser_step_def waiting_def split: if_splits)
qed

lemma parser_parse_resume:
  assumes "partial (scanner p)" "position p \<noteq> POS_REQUEST_LINE" "parser_parse env p = (st, p1)" "waiting st"
    "ent_position p1 \<noteq> ENTREAD_CHUNKY_HEADERS"
  shows "parser_parse env (ext x p) = parser_parse env (ext x p1)"
  using assms
proof (induction env p rule: parser_parse.induct)
  case (1 env p)
  obtain s p2 where s: "parser_step env p = (s, p2)" by fastforce
  show ?case
  proof (cases "s = PARSE_OK")
    case True
    note e = parser_step_ext(1) [OF 1(2,3) s True, of x]
    then show ?thesis
      using 1(1) [OF s [symmetric] True] 1(4-6) s True
      by (simp add: parser_parse.simps [of env p] parser_parse.simps [of env "ext x p"])
  next
    case False
    then have "s = st" "p2 = p1" using 1(4) s by (auto simp: parser_parse.simps [of env p])
    then show ?thesis
      using parser_step_ext(2) [OF 1(2,3) s, of x] 1(5,6)
      by (simp add: parser_parse.simps [of env "ext x p"] parser_parse.simps [of env "ext x p1"])
  qed
qed

section \<open>Property\<close>

text \<open>
  C4. The parser does not depend on how a message is cut into pieces: if parsing the data received so
  far says that more is needed, then parsing on from the state it left, when the rest has arrived,
  gives exactly the result of parsing everything from the start, for every pattern of memory failures. Two
  places are excluded: a parse that starts at the request line, and one that stops inside the trailers of a
  chunked entity, where the parser forgets which bytes it has to remove. On the request line the results do
  differ, see \<open>request_line_split\<close>.
\<close>

theorem resume_parse:
  assumes "\<not> entire_msg_loaded (scanner p)" "sc_cursor (scanner p) \<le> length (raw_msg p)"
    and "position p \<noteq> POS_REQUEST_LINE"
    and "parser_parse env p = (st, p1)" "st = PARSE_INCOMPLETE \<or> st = PARSE_INCOMPLETE_ENTITY"
    and "ent_position p1 \<noteq> ENTREAD_CHUNKY_HEADERS"
  shows "parser_parse env (set_msg (raw_msg p @ x) p) = parser_parse env (set_msg (raw_msg p1 @ x) p1)"
  using parser_parse_resume [of p env st p1 x] assms
  by (simp add: partial_def waiting_def ext_is_append raw_msg_def)

definition first_piece :: http_parser_t where
  "first_piece = set_msg (''HTTP/1.1 200 OK'' @ [CR, LF] @ ''Conte'') (parser_response_init [] HTTPMETHOD_GET)"

theorem resume_parse_witness:
  "parser_parse no_net (set_msg (raw_msg first_piece @ ''nt-Length: 0'' @ [CR, LF, CR, LF]) first_piece) =
   parser_parse no_net (set_msg (raw_msg (snd (parser_parse no_net first_piece)) @ ''nt-Length: 0'' @ [CR, LF, CR, LF])
     (snd (parser_parse no_net first_piece)))"
proof (rule resume_parse [where st = PARSE_INCOMPLETE])
  have e: "(case parser_parse no_net first_piece of (st, q) \<Rightarrow> st = PARSE_INCOMPLETE \<and> ent_position q \<noteq> ENTREAD_CHUNKY_HEADERS)"
    by code_simp
  then show "parser_parse no_net first_piece = (PARSE_INCOMPLETE, snd (parser_parse no_net first_piece))"
    by (simp add: prod_eq_iff case_prod_beta)
  show "ent_position (snd (parser_parse no_net first_piece)) \<noteq> ENTREAD_CHUNKY_HEADERS"
    using e by (simp add: case_prod_beta)
qed (simp_all add: first_piece_def set_msg_def raw_msg_def parser_response_init_def parser_init_def scanner_init_def
    http_message_t.defs http_parser_t.defs httpmsg_init_def)

text \<open>
  Request lines are the exception. The parser tries the line as one without a version first; where
  a piece ends between the carriage return and the line feed, that pattern asks for more, but the
  second pattern, with a version, already fails, and its verdict is the one reported: the parser says
  no match for the beginning of a line that matches the first pattern as soon as the line feed is there.
\<close>

theorem request_line_split:
  "fst (parser_parse_requestline no_net (set_msg (''GET /x '' @ [CR]) (parser_request_init []))) = PARSE_NO_MATCH \<and>
   match_fmt no_net (scanner_init (''GET /x '' @ [CR])) url_fmt =
     (PARSE_INCOMPLETE, [OutStr (0, 3), OutStr (4, 2)], scanner_init (''GET /x '' @ [CR])) \<and>
   match_fmt no_net (scanner_init (''GET /x '' @ [CR, LF])) url_fmt =
     (PARSE_OK, [OutStr (0, 3), OutStr (4, 2)], (scanner_init (''GET /x '' @ [CR, LF]))\<lparr>sc_cursor := 9\<rparr>)"
  by (intro conjI; code_simp)

end
