(* ===== verification/Http_Entity.thy ===== *)
theory Http_Entity
  imports Http_Parser
begin

text \<open>
  What the parser makes of an entity: a chunked entity is the concatenation of its chunks, an entity
  with a length is that many bytes, and what the header values and chunk sizes are taken for when
  they do not fit.
\<close>

section \<open>Numbers in the message\<close>

lemma CRLF_no_digit [simp]: "digit_value CR = 99" "digit_value LF = 99" "CR \<noteq> CHR ''x''" "CR \<noteq> CHR ''X''"
  by (simp_all add: digit_value_def ctype_defs CR_def LF_def byte_of_def)

lemma xdigit_identifier: "isxdigit c \<Longrightarrow> is_identifier_char c"
  using not_ident_digit(1) [of c] by (cases "is_identifier_char c") (auto simp: digit_value_def ctype_defs)

lemma xdigit_ne: "isxdigit c \<Longrightarrow> c \<noteq> CHR ''-'' \<and> c \<noteq> CHR ''+'' \<and> c \<noteq> CHR ''x'' \<and> c \<noteq> CHR ''X'' \<and> \<not> isspace c"
  by (auto simp: ctype_defs isspace_def byte_of_def)

lemma digits_value_acc: "digits_value b a (xs @ c # r) = digits_value b a xs" if "b \<le> digit_value c"
  using that by (induction xs arbitrary: a) auto

lemma strtol_number:
  assumes "ds \<noteq> []" "\<forall>c \<in> set ds. isxdigit c" "digits_value b 0 ds = (n, length ds)" "n < 2 ^ 63"
    and r: "r = [] \<or> r \<noteq> [] \<and> b \<le> digit_value (hd r) \<and> hd r \<noteq> CHR ''x'' \<and> hd r \<noteq> CHR ''X''"
  shows "strtol (ds @ r) b = (int n, length ds, False)"
proof -
  obtain d ds' where ds: "ds = d # ds'" using assms(1) by (cases ds) auto
  have d: "d \<noteq> CHR ''-''" "d \<noteq> CHR ''+''" "\<not> isspace d" using assms(2) ds xdigit_ne by auto
  have sp: "skip_space (ds @ r) = 0" using d by (simp add: skip_space_def ds)
  have "ds' = [] \<or> hd ds' \<noteq> CHR ''x'' \<and> hd ds' \<noteq> CHR ''X''" using assms(2) ds xdigit_ne by (cases ds') auto
  then have "hex_prefix b (ds @ r) = 0"
    using r by (cases ds'; cases r) (auto simp: ds hex_prefix_def split: list.splits)
  moreover have hd: "hd (ds @ r) = d" "ds @ r \<noteq> []" by (simp_all add: ds)
  ultimately have np: "number_prefix (ds @ r) b = 0"
    using d by (simp add: number_prefix_def sp Let_def sign_length_def)
  have "digits_value b 0 (ds @ r) = (n, length ds)" using assms(3) r by (cases r) (auto simp: digits_value_acc)
  moreover have "\<not> 2 ^ 63 - 1 < int n" "\<not> int n < - (2 ^ 63)" using assms(4) by auto
  ultimately show ?thesis using d hd assms(1) by (simp add: strtol_def np sp Let_def)
qed

lemma int32_bits: "nat (to_int32 (int n) mod 2 ^ 32) = n mod 2 ^ 32"
proof -
  have "to_int32 (int n) mod 2 ^ 32 = (int n + 2 ^ 31 - 2 ^ 31) mod 2 ^ 32"
    unfolding to_int32_def by (rule mod_diff_left_eq)
  then show ?thesis by (simp add: nat_mod_distrib)
qed

section \<open>Tokens at a known place\<close>

definition at_text :: "scanner_t \<Rightarrow> string \<Rightarrow> string \<Rightarrow> bool" where
  "at_text sc pre r \<longleftrightarrow> sc_msg sc = pre @ r \<and> sc_cursor sc = length pre \<and> \<not> entire_msg_loaded sc"

lemma crlf_token:
  assumes "at_text sc pre (CR # LF # r)"
  shows "scanner_get_token sc = Inr ((length pre, 2), TT_CRLF, sc\<lparr>sc_cursor := length pre + 2\<rparr>)"
  using assms by (simp add: at_text_def scanner_get_token_def scanner_get_str_def scan_token_def)

lemma ident_token:
  assumes "at_text sc pre (ds @ CR # r)" "ds \<noteq> []" "\<forall>c \<in> set ds. is_identifier_char c"
  shows "scanner_get_token sc = Inr ((length pre, length ds), TT_IDENTIFIER, sc\<lparr>sc_cursor := length pre + length ds\<rparr>)"
proof -
  have "takeWhile is_identifier_char (ds @ CR # r) = ds" using assms(3) by (simp add: takeWhile_append2)
  moreover obtain d ds' where "ds = d # ds'" using assms(2) by (cases ds) auto
  ultimately show ?thesis
    using assms by (simp add: at_text_def scanner_get_token_def scanner_get_str_def scan_token_def Let_def)
qed


lemma match_chunk_at:
  assumes at: "at_text sc pre (ds @ CR # LF # r)" and "ds \<noteq> []" "\<forall>c \<in> set ds. isxdigit c"
    and v: "digits_value 16 0 ds = (n, length ds)" "n < 2 ^ 63"
  shows "\<exists>t. match_fmt env sc ''%x%L%c'' = (PARSE_OK, [OutInt (to_int32 (int n)), OutStr t], sc\<lparr>sc_cursor := length pre + length ds + 2\<rparr>)"
proof -
  let ?k = "length pre + length ds"
  let ?sc1 = "sc\<lparr>sc_cursor := ?k\<rparr>"
  have tok: "scanner_get_token sc = Inr ((length pre, length ds), TT_IDENTIFIER, ?sc1)"
    using ident_token [OF at assms(2)] assms(3) xdigit_identifier by blast
  have "drop (length pre) (sc_msg sc) = ds @ CR # LF # r" using at by (simp add: at_text_def)
  then have st: "strtol (drop (length pre) (sc_msg sc)) 16 = (int n, length ds, False)"
    using strtol_number [OF assms(2,3) v, of "CR # LF # r"] by simp
  have x: "match_option env (CHR ''x'') True sc = (PARSE_OK, [OutInt (to_int32 (int n))], ?sc1)"
    by (simp add: match_option_simps out_int_def match_int_def tok st Let_def)
  have at1: "at_text ?sc1 (pre @ ds) (CR # LF # r)" using at by (simp add: at_text_def)
  note tok1 = crlf_token [OF at1]
  have L: "match_option env (CHR ''L'') True ?sc1 = (PARSE_OK, [OutStr (?k, 0)], ?sc1)"
    using tok1 by (simp add: match_option_simps out_str_def read_until_crlf_def read_until_crlf_loop.simps [of ?sc1] push_back_def)
  have c: "match_option env (CHR ''c'') True ?sc1 = (PARSE_OK, [], sc\<lparr>sc_cursor := ?k + 2\<rparr>)"
    using tok1 by (simp add: match_option_simps forget_def out_str_def expect_token_def)
  show ?thesis by (simp add: match_fmt_def vfmatch_def x L c next_case_def)
qed

section \<open>Chunks\<close>

type_synonym chunk = "string \<times> string"


definition print_chunk :: "chunk \<Rightarrow> string" where
  "print_chunk c = fst c @ [CR, LF] @ snd c @ [CR, LF]"

definition print_chunks :: "chunk list \<Rightarrow> string" where
  "print_chunks cs = concat (map print_chunk cs) @ ''0'' @ [CR, LF, CR, LF]"

text \<open>The parser in front of a chunk, in front of its data, and in front of the trailers.\<close>

definition chunk_state :: "ent_pos \<Rightarrow> nat \<Rightarrow> string \<Rightarrow> string \<Rightarrow> http_parser_t \<Rightarrow> bool" where
  "chunk_state e n pre r p \<longleftrightarrow> ent_position p = e \<and> at_text (scanner p) pre r \<and> chunk_size p = n \<and> n < 2 ^ 32 \<and>
     amount_discarded p = 0 \<and> \<not> (is_request p \<and> http_method p = HTTPMETHOD_POST)"

lemma chunk_size_stored: "n < 2 ^ 32 \<Longrightarrow> n div 2 ^ 32 * 2 ^ 32 + nat (to_int32 (int m) mod 2 ^ 32) = (m mod 2 ^ 32 :: nat)"
  unfolding int32_bits by simp

text \<open>One round, with what the format left in its outputs and where it left the scanner.\<close>

lemma chunk_size_round:
  assumes "ent_position p = ENTREAD_USING_CHUNKED" "match_fmt env (scanner p) ''%x%L%c'' = (PARSE_OK, outs, sc1)"
    and "q = set_cursor (sc_cursor (scanner p)) (msg_delete (sc_cursor (scanner p)) (sc_cursor sc1 - sc_cursor (scanner p))
           (store_chunk_size outs (p\<lparr>scanner := sc1\<rparr>)))"
  shows "entity_step env p = (PARSE_CONTINUE_1,
    if chunk_size q = 0
    then q\<lparr>entity_length := sc_cursor (scanner p) + amount_discarded q - entity_start_position q, ent_position := ENTREAD_CHUNKY_HEADERS\<rparr>
    else q\<lparr>ent_position := ENTREAD_CHUNKY_BODY\<rparr>)"
  unfolding entity_step_def parser_parse_chunky_entity_def assms(1,2) Let_def prod.case ent_pos.case assms(3) [symmetric]
  by simp

lemma size_step:
  assumes "chunk_state ENTREAD_USING_CHUNKED k pre (ds @ CR # LF # r) p"
    and "ds \<noteq> []" "\<forall>c \<in> set ds. isxdigit c" "digits_value 16 0 ds = (n, length ds)" "n < 2 ^ 63"
  shows "\<exists>p'. entity_step env p = (PARSE_CONTINUE_1, p') \<and>
    chunk_state (if n mod 2 ^ 32 = 0 then ENTREAD_CHUNKY_HEADERS else ENTREAD_CHUNKY_BODY) (n mod 2 ^ 32) pre r p' \<and>
    entity_start_position p' = entity_start_position p \<and>
    (n mod 2 ^ 32 = 0 \<longrightarrow> entity_length p' = length pre - entity_start_position p)"
proof -
  have at: "at_text (scanner p) pre (ds @ CR # LF # r)" using assms(1) by (simp add: chunk_state_def)
  obtain t where m: "match_fmt env (scanner p) ''%x%L%c'' =
      (PARSE_OK, [OutInt (to_int32 (int n)), OutStr t], (scanner p)\<lparr>sc_cursor := length pre + length ds + 2\<rparr>)"
    using match_chunk_at [OF at assms(2-5)] by blast
  define q where "q = set_cursor (length pre) (msg_delete (length pre) (length ds + 2)
    (store_chunk_size [OutInt (to_int32 (int n)), OutStr t] (p\<lparr>scanner := (scanner p)\<lparr>sc_cursor := length pre + length ds + 2\<rparr>\<rparr>)))"
  have "chunk_size p div 2 ^ 32 * 2 ^ 32 + nat (to_int32 (int n) mod 2 ^ 32) = n mod 2 ^ 32"
    using assms(1) by (intro chunk_size_stored) (simp_all add: chunk_state_def)
  then have cs: "chunk_size q = n mod 2 ^ 32" by (simp add: q_def store_chunk_size_def set_cursor_def msg_delete_def set_msg_def)
  have q: "at_text (scanner q) pre r" "amount_discarded q = amount_discarded p" "is_request q = is_request p"
    "http_method q = http_method p" "entity_start_position q = entity_start_position p"
    using at by (simp_all add: q_def store_chunk_size_def set_cursor_def msg_delete_def set_msg_def at_text_def raw_msg_def)
  have "sc_cursor (scanner p) = length pre" using at by (simp add: at_text_def)
  then have "q = set_cursor (sc_cursor (scanner p)) (msg_delete (sc_cursor (scanner p))
      (sc_cursor ((scanner p)\<lparr>sc_cursor := length pre + length ds + 2\<rparr>) - sc_cursor (scanner p))
      (store_chunk_size [OutInt (to_int32 (int n)), OutStr t] (p\<lparr>scanner := (scanner p)\<lparr>sc_cursor := length pre + length ds + 2\<rparr>\<rparr>)))"
    unfolding q_def by simp
  from chunk_size_round [OF _ m this] have "entity_step env p = (PARSE_CONTINUE_1,
      if n mod 2 ^ 32 = 0 then q\<lparr>entity_length := length pre - entity_start_position q, ent_position := ENTREAD_CHUNKY_HEADERS\<rparr>
      else q\<lparr>ent_position := ENTREAD_CHUNKY_BODY\<rparr>)"
    using assms(1) cs q(2) at by (simp add: chunk_state_def at_text_def)
  then show ?thesis
    using assms(1,5) q cs by (auto simp: chunk_state_def)
qed





section \<open>Lengths\<close>

lemma digit_xdigit: "isdigit c \<Longrightarrow> isxdigit c"
  by (auto simp: ctype_defs)

lemma raw_to_int_digits:
  assumes "ds \<noteq> []" "\<forall>c \<in> set ds. isdigit c" "digits_value 10 0 ds = (n, length ds)" "n < 2 ^ 63"
  shows "raw_to_int ds 10 = to_int32 (int n)"
  using strtol_number [OF assms(1) _ assms(3,4), of "[]"] assms(1,2) digit_xdigit by (simp add: raw_to_int_def)

lemma raw_to_int_garbage:
  assumes "ds \<noteq> []" "\<forall>c \<in> set ds. isdigit c" "digits_value 10 0 ds = (n, length ds)" "n < 2 ^ 63"
    and "10 \<le> digit_value c" "c \<noteq> CHR ''x''" "c \<noteq> CHR ''X''"
  shows "raw_to_int (ds @ c # r) 10 = -1"
  using strtol_number [OF assms(1) _ assms(3,4), of "c # r"] assms digit_xdigit by (simp add: raw_to_int_def)

text \<open>
  The parser in front of an entity for which it has a length and no transfer coding; the value of the
  length header is \<open>v\<close>.
\<close>

definition clen_state :: "string \<Rightarrow> string \<Rightarrow> string \<Rightarrow> http_parser_t \<Rightarrow> bool" where
  "clen_state v pre body p \<longleftrightarrow>
     ent_position p = ENTREAD_DETERMINE_READ_METHOD \<and> amount_discarded p = 0 \<and> at_text (scanner p) pre body \<and>
     \<not> (if is_request p then no_body_request (http_method p) else no_body_response (status_code p) (request_method p)) \<and>
     httpmsg_find_hdr (headers p) HDR_TRANSFER_ENCODING = None \<and>
     (case httpmsg_find_hdr (headers p) HDR_CONTENT_LENGTH of None \<Rightarrow> False | Some i \<Rightarrow> hdr_value (headers p ! i) = v)"

lemma clen_round:
  assumes "clen_state v pre body p" "N = nat (raw_to_int v 10 mod 2 ^ 32)"
  shows "\<exists>p'. parser_parse_entity env p = (if length body < N then PARSE_INCOMPLETE else PARSE_SUCCESS, p') \<and>
    take (length pre + N) (raw_msg p') = take (length pre + N) (pre @ body) \<and> entity_length p' = min N (length body) \<and>
    (if length body < N then ent_position p' = ENTREAD_USING_CLEN \<and> position p' = position p
     else position p' = POS_COMPLETE) \<and> entity_buf p' = Some (length pre)"
proof -
  define p1 where "p1 = p\<lparr>entity_buf := Some (length pre), entity_length := 0, entity_start_position := length pre,
    content_length := N, ent_position := ENTREAD_USING_CLEN\<rparr>"
  obtain i where i: "httpmsg_find_hdr (headers p) HDR_CONTENT_LENGTH = Some i" "hdr_value (headers p ! i) = v"
    using assms(1) unfolding clen_state_def by (cases "httpmsg_find_hdr (headers p) HDR_CONTENT_LENGTH") auto
  have f: "ent_position p = ENTREAD_DETERMINE_READ_METHOD" "sc_cursor (scanner p) = length pre"
      "httpmsg_find_hdr (headers p) HDR_TRANSFER_ENCODING = None"
      "(if is_request p then no_body_request (http_method p) else no_body_response (status_code p) (request_method p)) = False"
    using assms(1) unfolding clen_state_def at_text_def by blast+
  define p0 where "p0 = p\<lparr>entity_buf := Some (length pre), entity_length := 0, entity_start_position := length pre\<rparr>"
  have g: "is_request p0 = is_request p" "http_method p0 = http_method p" "status_code p0 = status_code p"
    "request_method p0 = request_method p" "headers p0 = headers p" by (simp_all add: p0_def)
  have "entity_step env p = (PARSE_CONTINUE_1,
      p0\<lparr>content_length := nat (raw_to_int v 10 mod 2 ^ 32), ent_position := ENTREAD_USING_CLEN\<rparr>)"
    unfolding entity_step_def f(1) ent_pos.case parser_get_entity_read_method_def Let_def f(2) p0_def [symmetric] g
    unfolding f(3,4) option.case prod.case if_False g i by (rule refl)
  then have 1: "entity_step env p = (PARSE_CONTINUE_1, p1)" unfolding p1_def p0_def assms(2) by simp
  have m: "raw_msg p1 = pre @ body" "amount_discarded p1 = 0" "position p1 = position p"
    using assms(1) by (simp_all add: p1_def raw_msg_def clen_state_def at_text_def)
  have 2: "parser_parse_entity env p = parser_parse_entity env p1"
    by (subst parser_parse_entity.simps) (simp add: 1)
  show ?thesis
    unfolding 2 parser_parse_entity.simps [of env p1]
    using m by (simp add: entity_step_def parser_parse_entity_using_clen_def p1_def Let_def list_update_append take_update_cancel raw_msg_def set_msg_def)
qed

section \<open>Properties\<close>


definition chunk_demo :: http_parser_t where
  "chunk_demo = set_msg (''ab'' @ print_chunks [(''1'', ''x''), (''02'', ''yz'')] @ ''w'')
     ((parser_response_init [] HTTPMETHOD_GET)\<lparr>position := POS_ENTITY, ent_position := ENTREAD_USING_CHUNKED,
        entity_start_position := 2, scanner := \<lparr>sc_msg = [], sc_cursor = 2, entire_msg_loaded = False\<rparr>\<rparr>)"

lemmas demo_defs = chunk_state_def at_text_def chunk_demo_def set_msg_def parser_response_init_def parser_init_def
  httpmsg_init_def http_message_t.extend_def http_parser_t.fields_def


text \<open>
  An entity with a length. Where the value of the CONTENT-LENGTH header is the decimal number
  \<open>n\<close>, the parser takes \<open>n\<close> modulo $2^{32}$ for the length: with fewer bytes it reports the entity so
  far as incomplete, otherwise it succeeds and the entity is exactly that many bytes, unchanged.
\<close>

theorem clen_entity:
  assumes "clen_state ds pre body p" "ds \<noteq> []" "\<forall>c \<in> set ds. isdigit c"
    and "digits_value 10 0 ds = (n, length ds)" "n < 2 ^ 63"
  shows "\<exists>p'. parser_parse_entity env p = (if length body < n mod 2 ^ 32 then PARSE_INCOMPLETE else PARSE_SUCCESS, p') \<and>
    take (n mod 2 ^ 32) (drop (length pre) (raw_msg p')) = take (n mod 2 ^ 32) body \<and>
    entity_length p' = min (n mod 2 ^ 32) (length body) \<and> entity_buf p' = Some (length pre) \<and>
    (n mod 2 ^ 32 \<le> length body \<longrightarrow> position p' = POS_COMPLETE)"
proof -
  define N :: nat where "N = n mod 2 ^ 32"
  have "N = nat (raw_to_int ds 10 mod 2 ^ 32)"
    unfolding raw_to_int_digits [OF assms(2-5)] int32_bits N_def ..
  from clen_round [OF assms(1) this, of env]
  obtain p' where p': "parser_parse_entity env p = (if length body < N then PARSE_INCOMPLETE else PARSE_SUCCESS, p')"
      "take (length pre + N) (raw_msg p') = take (length pre + N) (pre @ body)" "entity_length p' = min N (length body)"
      "N \<le> length body \<longrightarrow> position p' = POS_COMPLETE" "entity_buf p' = Some (length pre)"
    by (auto split: if_splits)
  have "take N (drop (length pre) (raw_msg p')) = drop (length pre) (take (length pre + N) (raw_msg p'))"
    by (simp add: drop_take)
  also have "\<dots> = take N body" by (simp add: p'(2))
  finally show ?thesis unfolding N_def [symmetric] using p'(1,3-5) by blast
qed

definition clen_demo :: http_parser_t where
  "clen_demo = set_msg ''abxyzw''
     ((parser_response_init [] HTTPMETHOD_GET)\<lparr>position := POS_ENTITY, status_code := 200,
        headers := [\<lparr>hdr_name = ''CONTENT-LENGTH'', name_id = HDR_CONTENT_LENGTH, hdr_value = ''3''\<rparr>],
        scanner := \<lparr>sc_msg = [], sc_cursor = 2, entire_msg_loaded = False\<rparr>\<rparr>)"

theorem clen_entity_witness:
  "\<exists>p'. parser_parse_entity no_net clen_demo = (PARSE_SUCCESS, p') \<and> take 3 (drop (length ''ab'') (raw_msg p')) = ''xyz'' \<and>
    entity_length p' = length ''xyz'' \<and> entity_buf p' = Some (length ''ab'') \<and> position p' = POS_COMPLETE"
proof -
  have "clen_state ''3'' ''ab'' ''xyzw'' clen_demo" by code_simp
  moreover have "digits_value 10 0 ''3'' = (3, length ''3'')" "\<forall>c \<in> set ''3''. isdigit c" by code_simp+
  ultimately show ?thesis using clen_entity [of "''3''" "''ab''" "''xyzw''" clen_demo 3 no_net] by simp
qed

text \<open>
  A CONTENT-LENGTH that is no number is not rejected: where digits are followed by anything else,
  the parser waits for 4294967295 bytes.
\<close>

theorem clen_not_a_number:
  assumes "clen_state (ds @ c # v) pre body p" "ds \<noteq> []" "\<forall>c \<in> set ds. isdigit c"
    and "digits_value 10 0 ds = (n, length ds)" "n < 2 ^ 63" "10 \<le> digit_value c" "c \<noteq> CHR ''x''" "c \<noteq> CHR ''X''"
    and "length body < 4294967295"
  shows "\<exists>p'. parser_parse_entity env p = (PARSE_INCOMPLETE, p') \<and> entity_length p' = length body"
proof -
  have "(4294967295 :: nat) = nat (raw_to_int (ds @ c # v) 10 mod 2 ^ 32)"
    unfolding raw_to_int_garbage [OF assms(2-8)] by simp
  from clen_round [OF assms(1) this, of env] show ?thesis using assms(9) by auto
qed

definition bad_clen_demo :: http_parser_t where
  "bad_clen_demo = clen_demo\<lparr>headers := [\<lparr>hdr_name = ''CONTENT-LENGTH'', name_id = HDR_CONTENT_LENGTH, hdr_value = ''3;''\<rparr>]\<rparr>"

theorem clen_not_a_number_witness:
  "\<exists>p'. parser_parse_entity no_net bad_clen_demo = (PARSE_INCOMPLETE, p') \<and> entity_length p' = length ''xyzw''"
proof -
  have "clen_state (''3'' @ CHR '';'' # []) ''ab'' ''xyzw'' bad_clen_demo" by code_simp
  moreover have "digits_value 10 0 ''3'' = (3, length ''3'')" "\<forall>c \<in> set ''3''. isdigit c" by code_simp+
  moreover have "10 \<le> digit_value (CHR '';'')" by code_simp
  ultimately show ?thesis
    using clen_not_a_number [of "''3''" "CHR '';''" "[]" "''ab''" "''xyzw''" bad_clen_demo 3 no_net] by simp
qed

text \<open>
  A chunk size is stored through a pointer to an \<open>int\<close>, so only its value modulo $2^{32}$ counts:
  a chunk whose size is a positive multiple of $2^{32}$ is taken for the end of the entity.
\<close>

theorem chunk_size_wraps:
  assumes "chunk_state ENTREAD_USING_CHUNKED k pre (ds @ CR # LF # r) p"
    and "ds \<noteq> []" "\<forall>c \<in> set ds. isxdigit c" "digits_value 16 0 ds = (n, length ds)" "n < 2 ^ 63"
  shows "\<exists>p'. entity_step env p = (PARSE_CONTINUE_1, p') \<and> chunk_size p' = n mod 2 ^ 32 \<and>
    (ent_position p' = ENTREAD_CHUNKY_HEADERS \<longleftrightarrow> 2 ^ 32 dvd n)"
proof -
  obtain p' where "entity_step env p = (PARSE_CONTINUE_1, p')"
      "chunk_state (if n mod 2 ^ 32 = 0 then ENTREAD_CHUNKY_HEADERS else ENTREAD_CHUNKY_BODY) (n mod 2 ^ 32) pre r p'"
    using size_step [OF assms, of env] by blast
  then show ?thesis by (auto simp: chunk_state_def dvd_eq_mod_eq_0)
qed

definition wrap_demo :: http_parser_t where
  "wrap_demo = set_msg (''ab'' @ ''100000000'' @ CR # LF # ''xyz'') chunk_demo"

theorem chunk_size_wraps_witness:
  "\<exists>p'. entity_step no_net wrap_demo = (PARSE_CONTINUE_1, p') \<and> chunk_size p' = 0 \<and> ent_position p' = ENTREAD_CHUNKY_HEADERS"
proof -
  have "chunk_state ENTREAD_USING_CHUNKED 0 ''ab'' (''100000000'' @ CR # LF # ''xyz'') wrap_demo" by (simp add: wrap_demo_def demo_defs)
  moreover have "digits_value 16 0 ''100000000'' = (4294967296, length ''100000000'')" "\<forall>c \<in> set ''100000000''. isxdigit c"
    by (simp_all add: ctype_defs byte_of_def digit_value_def)
  ultimately show ?thesis
    using chunk_size_wraps [of 0 "''ab''" "''100000000''" "''xyz''" wrap_demo 4294967296 no_net] by simp
qed

end
