(* ===== verification/Md5.thy ===== *)
theory Md5
  imports Upnp_Prelude "HOL-Library.Word"
begin

unbundle bit_operations_syntax

text \<open>
  The message digest of \<^verbatim>\<open>upnp/src/uuid/md5.c\<close>, on 32-bit and 64-bit words: the context, its update
  with a piece of the message, the final padding, and the compression function. The reference is the
  algorithm as RFC 1321 describes it: pad the whole message, cut it into blocks, run 64 numbered
  operations on each.
\<close>

type_synonym u8 = "8 word"
type_synonym u32 = "32 word"
type_synonym u64 = "64 word"

section \<open>The compression function\<close>

definition F1 :: "u32 \<Rightarrow> u32 \<Rightarrow> u32 \<Rightarrow> u32" where
  "F1 x y z = z XOR (x AND (y XOR z))"

definition F2 :: "u32 \<Rightarrow> u32 \<Rightarrow> u32 \<Rightarrow> u32" where
  "F2 x y z = F1 z x y"

definition F3 :: "u32 \<Rightarrow> u32 \<Rightarrow> u32 \<Rightarrow> u32" where
  "F3 x y z = x XOR y XOR z"

definition F4 :: "u32 \<Rightarrow> u32 \<Rightarrow> u32 \<Rightarrow> u32" where
  "F4 x y z = y XOR (x OR NOT z)"

definition MD5STEP :: "(u32 \<Rightarrow> u32 \<Rightarrow> u32 \<Rightarrow> u32) \<Rightarrow> u32 \<Rightarrow> u32 \<Rightarrow> u32 \<Rightarrow> u32 \<Rightarrow> u32 \<Rightarrow> nat \<Rightarrow> u32" where
  "MD5STEP f w x y z data s =
     (let w1 = w + (f x y z + data); w2 = push_bit s w1 OR drop_bit (32 - s) w1 in w2 + x)"

text \<open>The four local variables, and the statement that assigns to each of them.\<close>

record md5_regs =
  ra :: u32
  rb :: u32
  rc :: u32
  rd :: u32

definition step_a :: "(u32 \<Rightarrow> u32 \<Rightarrow> u32 \<Rightarrow> u32) \<Rightarrow> u32 \<Rightarrow> nat \<Rightarrow> md5_regs \<Rightarrow> md5_regs" where
  "step_a f data s r = r\<lparr>ra := MD5STEP f (ra r) (rb r) (rc r) (rd r) data s\<rparr>"

definition step_d :: "(u32 \<Rightarrow> u32 \<Rightarrow> u32 \<Rightarrow> u32) \<Rightarrow> u32 \<Rightarrow> nat \<Rightarrow> md5_regs \<Rightarrow> md5_regs" where
  "step_d f data s r = r\<lparr>rd := MD5STEP f (rd r) (ra r) (rb r) (rc r) data s\<rparr>"

definition step_c :: "(u32 \<Rightarrow> u32 \<Rightarrow> u32 \<Rightarrow> u32) \<Rightarrow> u32 \<Rightarrow> nat \<Rightarrow> md5_regs \<Rightarrow> md5_regs" where
  "step_c f data s r = r\<lparr>rc := MD5STEP f (rc r) (rd r) (ra r) (rb r) data s\<rparr>"

definition step_b :: "(u32 \<Rightarrow> u32 \<Rightarrow> u32 \<Rightarrow> u32) \<Rightarrow> u32 \<Rightarrow> nat \<Rightarrow> md5_regs \<Rightarrow> md5_regs" where
  "step_b f data s r = r\<lparr>rb := MD5STEP f (rb r) (rc r) (rd r) (ra r) data s\<rparr>"

text \<open>The statements of the body, in their order, in four groups; \<open>x\<close> is the array \<open>in\<close>.\<close>

definition round1 :: "u32 list \<Rightarrow> (md5_regs \<Rightarrow> md5_regs) list" where
  "round1 x =
     [step_a F1 (x ! 0 + 0xd76aa478) 7, step_d F1 (x ! 1 + 0xe8c7b756) 12,
      step_c F1 (x ! 2 + 0x242070db) 17, step_b F1 (x ! 3 + 0xc1bdceee) 22,
      step_a F1 (x ! 4 + 0xf57c0faf) 7, step_d F1 (x ! 5 + 0x4787c62a) 12,
      step_c F1 (x ! 6 + 0xa8304613) 17, step_b F1 (x ! 7 + 0xfd469501) 22,
      step_a F1 (x ! 8 + 0x698098d8) 7, step_d F1 (x ! 9 + 0x8b44f7af) 12,
      step_c F1 (x ! 10 + 0xffff5bb1) 17, step_b F1 (x ! 11 + 0x895cd7be) 22,
      step_a F1 (x ! 12 + 0x6b901122) 7, step_d F1 (x ! 13 + 0xfd987193) 12,
      step_c F1 (x ! 14 + 0xa679438e) 17, step_b F1 (x ! 15 + 0x49b40821) 22]"

definition round2 :: "u32 list \<Rightarrow> (md5_regs \<Rightarrow> md5_regs) list" where
  "round2 x =
     [step_a F2 (x ! 1 + 0xf61e2562) 5, step_d F2 (x ! 6 + 0xc040b340) 9,
      step_c F2 (x ! 11 + 0x265e5a51) 14, step_b F2 (x ! 0 + 0xe9b6c7aa) 20,
      step_a F2 (x ! 5 + 0xd62f105d) 5, step_d F2 (x ! 10 + 0x02441453) 9,
      step_c F2 (x ! 15 + 0xd8a1e681) 14, step_b F2 (x ! 4 + 0xe7d3fbc8) 20,
      step_a F2 (x ! 9 + 0x21e1cde6) 5, step_d F2 (x ! 14 + 0xc33707d6) 9,
      step_c F2 (x ! 3 + 0xf4d50d87) 14, step_b F2 (x ! 8 + 0x455a14ed) 20,
      step_a F2 (x ! 13 + 0xa9e3e905) 5, step_d F2 (x ! 2 + 0xfcefa3f8) 9,
      step_c F2 (x ! 7 + 0x676f02d9) 14, step_b F2 (x ! 12 + 0x8d2a4c8a) 20]"

definition round3 :: "u32 list \<Rightarrow> (md5_regs \<Rightarrow> md5_regs) list" where
  "round3 x =
     [step_a F3 (x ! 5 + 0xfffa3942) 4, step_d F3 (x ! 8 + 0x8771f681) 11,
      step_c F3 (x ! 11 + 0x6d9d6122) 16, step_b F3 (x ! 14 + 0xfde5380c) 23,
      step_a F3 (x ! 1 + 0xa4beea44) 4, step_d F3 (x ! 4 + 0x4bdecfa9) 11,
      step_c F3 (x ! 7 + 0xf6bb4b60) 16, step_b F3 (x ! 10 + 0xbebfbc70) 23,
      step_a F3 (x ! 13 + 0x289b7ec6) 4, step_d F3 (x ! 0 + 0xeaa127fa) 11,
      step_c F3 (x ! 3 + 0xd4ef3085) 16, step_b F3 (x ! 6 + 0x04881d05) 23,
      step_a F3 (x ! 9 + 0xd9d4d039) 4, step_d F3 (x ! 12 + 0xe6db99e5) 11,
      step_c F3 (x ! 15 + 0x1fa27cf8) 16, step_b F3 (x ! 2 + 0xc4ac5665) 23]"

definition round4 :: "u32 list \<Rightarrow> (md5_regs \<Rightarrow> md5_regs) list" where
  "round4 x =
     [step_a F4 (x ! 0 + 0xf4292244) 6, step_d F4 (x ! 7 + 0x432aff97) 10,
      step_c F4 (x ! 14 + 0xab9423a7) 15, step_b F4 (x ! 5 + 0xfc93a039) 21,
      step_a F4 (x ! 12 + 0x655b59c3) 6, step_d F4 (x ! 3 + 0x8f0ccc92) 10,
      step_c F4 (x ! 10 + 0xffeff47d) 15, step_b F4 (x ! 1 + 0x85845dd1) 21,
      step_a F4 (x ! 8 + 0x6fa87e4f) 6, step_d F4 (x ! 15 + 0xfe2ce6e0) 10,
      step_c F4 (x ! 6 + 0xa3014314) 15, step_b F4 (x ! 13 + 0x4e0811a1) 21,
      step_a F4 (x ! 4 + 0xf7537e82) 6, step_d F4 (x ! 11 + 0xbd3af235) 10,
      step_c F4 (x ! 2 + 0x2ad7d2bb) 15, step_b F4 (x ! 9 + 0xeb86d391) 21]"

definition le32 :: "u8 list \<Rightarrow> u32" where
  "le32 bs = ucast (bs ! 0) OR push_bit 8 (ucast (bs ! 1)) OR push_bit 16 (ucast (bs ! 2)) OR push_bit 24 (ucast (bs ! 3))"

definition block_words :: "u8 list \<Rightarrow> u32 list" where
  "block_words block = map (\<lambda>i. le32 (take 4 (drop (4 * i) block))) [0..<16]"

type_synonym md5_state = "u32 \<times> u32 \<times> u32 \<times> u32"

definition MD5Transform :: "md5_state \<Rightarrow> u8 list \<Rightarrow> md5_state" where
  "MD5Transform state block =
     (case state of (s0, s1, s2, s3) \<Rightarrow>
        let x = block_words block;
            r = foldl (\<lambda>r f. f r) \<lparr>ra = s0, rb = s1, rc = s2, rd = s3\<rparr> (round1 x @ round2 x @ round3 x @ round4 x)
        in (s0 + ra r, s1 + rb r, s2 + rc r, s3 + rd r))"

section \<open>The context\<close>

record MD5_CTX =
  md5_state :: md5_state
  count :: u64
  buffer :: "u8 list"

definition MD5_BLOCK_LENGTH :: nat where "MD5_BLOCK_LENGTH = 64"

definition MD5Init :: "MD5_CTX \<Rightarrow> MD5_CTX" where
  "MD5Init ctx = ctx\<lparr>count := 0, md5_state := (0x67452301, 0xefcdab89, 0x98badcfe, 0x10325476)\<rparr>"

definition memcpy_at :: "u8 list \<Rightarrow> nat \<Rightarrow> u8 list \<Rightarrow> u8 list" where
  "memcpy_at buf k xs = take k buf @ xs @ drop (k + length xs) buf"

fun md5_blocks :: "md5_state \<Rightarrow> u8 list \<Rightarrow> md5_state \<times> u8 list" where
  "md5_blocks st input =
     (if 64 \<le> length input then md5_blocks (MD5Transform st (take 64 input)) (drop 64 input) else (st, input))"

declare md5_blocks.simps [simp del]

definition MD5Update :: "MD5_CTX \<Rightarrow> u8 list \<Rightarrow> MD5_CTX" where
  "MD5Update ctx input =
     (let have = unat (drop_bit 3 (count ctx) AND 63); need = MD5_BLOCK_LENGTH - have;
          ctx1 = ctx\<lparr>count := count ctx + push_bit 3 (of_nat (length input))\<rparr>;
          (ctx2, input2, have2) =
            (if need \<le> length input then
               let (ctx3, input3, have3) =
                     (if have \<noteq> 0 then
                        let buf = memcpy_at (buffer ctx1) have (take need input)
                        in (ctx1\<lparr>buffer := buf, md5_state := MD5Transform (md5_state ctx1) buf\<rparr>, drop need input, 0)
                      else (ctx1, input, have));
                   (st, rest) = md5_blocks (md5_state ctx3) input3
               in (ctx3\<lparr>md5_state := st\<rparr>, rest, have3)
             else (ctx1, input, have))
      in if input2 \<noteq> [] then ctx2\<lparr>buffer := memcpy_at (buffer ctx2) have2 input2\<rparr> else ctx2)"

definition PUT_64BIT_LE :: "u64 \<Rightarrow> u8 list" where
  "PUT_64BIT_LE v = map (\<lambda>i. ucast (drop_bit (8 * i) v AND 0xFF)) [0..<8]"

definition PUT_32BIT_LE :: "u32 \<Rightarrow> u8 list" where
  "PUT_32BIT_LE v = map (\<lambda>i. ucast (drop_bit (8 * i) v AND 0xFF)) [0..<4]"

definition PADDING :: "u8 list" where
  "PADDING = 0x80 # replicate 63 0"

definition MD5Final :: "MD5_CTX \<Rightarrow> u8 list \<times> MD5_CTX" where
  "MD5Final ctx =
     (let cnt = PUT_64BIT_LE (count ctx);
          pad0 = MD5_BLOCK_LENGTH - unat (drop_bit 3 (count ctx) AND 63);
          padlen = (if pad0 < 1 + 8 then pad0 + MD5_BLOCK_LENGTH else pad0);
          ctx1 = MD5Update ctx (take (padlen - 8) PADDING);
          ctx2 = MD5Update ctx1 cnt
      in (case md5_state ctx2 of (s0, s1, s2, s3) \<Rightarrow>
            PUT_32BIT_LE s0 @ PUT_32BIT_LE s1 @ PUT_32BIT_LE s2 @ PUT_32BIT_LE s3,
          \<lparr>md5_state = (0, 0, 0, 0), count = 0, buffer = replicate 64 0\<rparr>))"

section \<open>The algorithm of RFC 1321\<close>

definition md5_K :: "u32 list" where
  "md5_K =
  [0xd76aa478, 0xe8c7b756, 0x242070db, 0xc1bdceee, 0xf57c0faf, 0x4787c62a, 0xa8304613, 0xfd469501,
   0x698098d8, 0x8b44f7af, 0xffff5bb1, 0x895cd7be, 0x6b901122, 0xfd987193, 0xa679438e, 0x49b40821,
   0xf61e2562, 0xc040b340, 0x265e5a51, 0xe9b6c7aa, 0xd62f105d, 0x02441453, 0xd8a1e681, 0xe7d3fbc8,
   0x21e1cde6, 0xc33707d6, 0xf4d50d87, 0x455a14ed, 0xa9e3e905, 0xfcefa3f8, 0x676f02d9, 0x8d2a4c8a,
   0xfffa3942, 0x8771f681, 0x6d9d6122, 0xfde5380c, 0xa4beea44, 0x4bdecfa9, 0xf6bb4b60, 0xbebfbc70,
   0x289b7ec6, 0xeaa127fa, 0xd4ef3085, 0x04881d05, 0xd9d4d039, 0xe6db99e5, 0x1fa27cf8, 0xc4ac5665,
   0xf4292244, 0x432aff97, 0xab9423a7, 0xfc93a039, 0x655b59c3, 0x8f0ccc92, 0xffeff47d, 0x85845dd1,
   0x6fa87e4f, 0xfe2ce6e0, 0xa3014314, 0x4e0811a1, 0xf7537e82, 0xbd3af235, 0x2ad7d2bb, 0xeb86d391]"

definition md5_shift :: "nat list" where
  "md5_shift =
  [7, 12, 17, 22, 7, 12, 17, 22, 7, 12, 17, 22, 7, 12, 17, 22,
   5, 9, 14, 20, 5, 9, 14, 20, 5, 9, 14, 20, 5, 9, 14, 20,
   4, 11, 16, 23, 4, 11, 16, 23, 4, 11, 16, 23, 4, 11, 16, 23,
   6, 10, 15, 21, 6, 10, 15, 21, 6, 10, 15, 21, 6, 10, 15, 21]"

text \<open>Operation \<open>i\<close> on the four words: its function, the message word it takes, and the rotation of the words.\<close>

definition md5_fun :: "nat \<Rightarrow> u32 \<Rightarrow> u32 \<Rightarrow> u32 \<Rightarrow> u32" where
  "md5_fun i x y z =
     (if i < 16 then (x AND y) OR (NOT x AND z)
      else if i < 32 then (x AND z) OR (y AND NOT z)
      else if i < 48 then x XOR y XOR z
      else y XOR (x OR NOT z))"

definition md5_index :: "nat \<Rightarrow> nat" where
  "md5_index i =
     (if i < 16 then i else if i < 32 then (5 * i + 1) mod 16 else if i < 48 then (3 * i + 5) mod 16 else 7 * i mod 16)"

definition md5_op :: "u32 list \<Rightarrow> md5_state \<Rightarrow> nat \<Rightarrow> md5_state" where
  "md5_op x st i =
     (case st of (a, b, c, d) \<Rightarrow>
        (d, b + word_rotl (md5_shift ! i) (a + md5_fun i b c d + x ! md5_index i + md5_K ! i), b, c))"

definition md5_compress :: "md5_state \<Rightarrow> u8 list \<Rightarrow> md5_state" where
  "md5_compress st block =
     (case st of (a, b, c, d) \<Rightarrow>
      case foldl (md5_op (block_words block)) st [0..<64] of (a', b', c', d') \<Rightarrow> (a + a', b + b', c + c', d + d'))"

subsection \<open>The compression function is the one of the RFC\<close>

lemma F_rfc:
  "F1 x y z = (x AND y) OR (NOT x AND z)"
  "F2 x y z = (x AND z) OR (y AND NOT z)"
  by (rule bit_word_eqI; auto simp: F1_def F2_def bit_simps)+

lemma md5_fun_cases:
  "i < 16 \<Longrightarrow> md5_fun i = F1" "16 \<le> i \<Longrightarrow> i < 32 \<Longrightarrow> md5_fun i = F2"
  "32 \<le> i \<Longrightarrow> i < 48 \<Longrightarrow> md5_fun i = F3" "48 \<le> i \<Longrightarrow> md5_fun i = F4"
  by (rule ext; rule ext; rule ext; simp add: md5_fun_def F_rfc F3_def F4_def)+

lemma rotl_shifts: "s < 32 \<Longrightarrow> push_bit s w OR drop_bit (32 - s) w = word_rotl s (w :: u32)"
proof (rule bit_word_eqI)
  fix n
  assume s: "s < 32" and n: "n < LENGTH(32)"
  show "bit (push_bit s w OR drop_bit (32 - s) w) n = bit (word_rotl s w) n"
  proof (cases "n < s")
    case True
    then have m: "(n + (32 - s)) mod 32 = 32 - s + n" using s by simp
    have "bit (word_rotl s w) n = bit w ((n + (32 - s)) mod 32)" using s n by (simp add: bit_word_rotl_iff)
    then show ?thesis using True unfolding m by (simp add: bit_or_iff bit_push_bit_iff bit_drop_bit_eq)
  next
    case False
    then have e: "n + (32 - s) = n - s + 32" using s by simp
    have "(n - s + 32) mod 32 = n - s" using n by simp
    then have "(n + (32 - s)) mod 32 = n - s" unfolding e .
    moreover have "\<not> bit w (32 - s + n)" using False bit_imp_le_length by fastforce
    ultimately show ?thesis using s n False by (simp add: bit_simps bit_word_rotl_iff)
  qed
qed

lemma MD5STEP_rotl: "s < 32 \<Longrightarrow> MD5STEP f w x y z (m + k) s = x + word_rotl s (w + f x y z + m + k)"
  by (simp add: MD5STEP_def Let_def rotl_shifts ac_simps)

text \<open>The words of the RFC rotate; the code assigns to the variables in turn instead.\<close>

lemma md5_op_regs:
  assumes "md5_shift ! i < 32"
  shows
    "md5_op x (ra r, rb r, rc r, rd r) i = (\<lambda>r'. (rd r', ra r', rb r', rc r')) (step_a (md5_fun i) (x ! md5_index i + md5_K ! i) (md5_shift ! i) r)"
    "md5_op x (rd r, ra r, rb r, rc r) i = (\<lambda>r'. (rc r', rd r', ra r', rb r')) (step_d (md5_fun i) (x ! md5_index i + md5_K ! i) (md5_shift ! i) r)"
    "md5_op x (rc r, rd r, ra r, rb r) i = (\<lambda>r'. (rb r', rc r', rd r', ra r')) (step_c (md5_fun i) (x ! md5_index i + md5_K ! i) (md5_shift ! i) r)"
    "md5_op x (rb r, rc r, rd r, ra r) i = (\<lambda>r'. (ra r', rb r', rc r', rd r')) (step_b (md5_fun i) (x ! md5_index i + md5_K ! i) (md5_shift ! i) r)"
  by (simp_all add: md5_op_def step_a_def step_b_def step_c_def step_d_def MD5STEP_rotl [OF assms])

lemma md5_shift_less: "i < 64 \<Longrightarrow> md5_shift ! i < 32"
proof -
  assume "i < 64"
  then have "md5_shift ! i \<in> set md5_shift" by (intro nth_mem) (simp add: md5_shift_def eval_nat_numeral)
  then show ?thesis by (auto simp: md5_shift_def)
qed

lemma md5_index_table:
  "md5_index (Suc 0) = 1"
  "md5_index 0 = 0" "md5_index 1 = 1" "md5_index 2 = 2" "md5_index 3 = 3"
  "md5_index 4 = 4" "md5_index 5 = 5" "md5_index 6 = 6" "md5_index 7 = 7"
  "md5_index 8 = 8" "md5_index 9 = 9" "md5_index 10 = 10" "md5_index 11 = 11"
  "md5_index 12 = 12" "md5_index 13 = 13" "md5_index 14 = 14" "md5_index 15 = 15"
  "md5_index 16 = 1" "md5_index 17 = 6" "md5_index 18 = 11" "md5_index 19 = 0"
  "md5_index 20 = 5" "md5_index 21 = 10" "md5_index 22 = 15" "md5_index 23 = 4"
  "md5_index 24 = 9" "md5_index 25 = 14" "md5_index 26 = 3" "md5_index 27 = 8"
  "md5_index 28 = 13" "md5_index 29 = 2" "md5_index 30 = 7" "md5_index 31 = 12"
  "md5_index 32 = 5" "md5_index 33 = 8" "md5_index 34 = 11" "md5_index 35 = 14"
  "md5_index 36 = 1" "md5_index 37 = 4" "md5_index 38 = 7" "md5_index 39 = 10"
  "md5_index 40 = 13" "md5_index 41 = 0" "md5_index 42 = 3" "md5_index 43 = 6"
  "md5_index 44 = 9" "md5_index 45 = 12" "md5_index 46 = 15" "md5_index 47 = 2"
  "md5_index 48 = 0" "md5_index 49 = 7" "md5_index 50 = 14" "md5_index 51 = 5"
  "md5_index 52 = 12" "md5_index 53 = 3" "md5_index 54 = 10" "md5_index 55 = 1"
  "md5_index 56 = 8" "md5_index 57 = 15" "md5_index 58 = 6" "md5_index 59 = 13"
  "md5_index 60 = 4" "md5_index 61 = 11" "md5_index 62 = 2" "md5_index 63 = 9"
  by (simp_all add: md5_index_def)

lemmas md5_tables = md5_index_table md5_K_def md5_shift_def

lemma four_ops:
  assumes "i < 64" "j < 64" "k < 64" "l < 64"
  shows "foldl (md5_op x) (ra r, rb r, rc r, rd r) [i, j, k, l] = (\<lambda>r'. (ra r', rb r', rc r', rd r'))
    (step_b (md5_fun l) (x ! md5_index l + md5_K ! l) (md5_shift ! l)
     (step_c (md5_fun k) (x ! md5_index k + md5_K ! k) (md5_shift ! k)
      (step_d (md5_fun j) (x ! md5_index j + md5_K ! j) (md5_shift ! j)
       (step_a (md5_fun i) (x ! md5_index i + md5_K ! i) (md5_shift ! i) r))))"
  unfolding foldl_Cons foldl_Nil md5_op_regs(1) [OF md5_shift_less [OF assms(1)]]
    md5_op_regs(2) [OF md5_shift_less [OF assms(2)]] md5_op_regs(3) [OF md5_shift_less [OF assms(3)]]
    md5_op_regs(4) [OF md5_shift_less [OF assms(4)]]
  by (rule refl)

lemma md5_round1:
  "foldl (md5_op x) (ra r, rb r, rc r, rd r) [0..<16] =
   (\<lambda>r'. (ra r', rb r', rc r', rd r')) (foldl (\<lambda>r f. f r) r (round1 x))"
proof -
  have u: "[0..<16] = [0, 1, 2, 3] @ [4, 5, 6, 7] @ [8, 9, 10, 11] @ [12, 13, 14, 15]"
    by (simp add: upt_rec)
  show ?thesis
    unfolding u foldl_append by (simp add: four_ops round1_def md5_fun_cases md5_tables del: foldl_Cons) (simp add: md5_tables)
qed

lemma md5_round2:
  "foldl (md5_op x) (ra r, rb r, rc r, rd r) [16..<32] =
   (\<lambda>r'. (ra r', rb r', rc r', rd r')) (foldl (\<lambda>r f. f r) r (round2 x))"
proof -
  have u: "[16..<32] = [16, 17, 18, 19] @ [20, 21, 22, 23] @ [24, 25, 26, 27] @ [28, 29, 30, 31]"
    by (simp add: upt_rec)
  show ?thesis
    unfolding u foldl_append by (simp add: four_ops round2_def md5_fun_cases md5_tables del: foldl_Cons) (simp add: md5_tables)
qed

lemma md5_round3:
  "foldl (md5_op x) (ra r, rb r, rc r, rd r) [32..<48] =
   (\<lambda>r'. (ra r', rb r', rc r', rd r')) (foldl (\<lambda>r f. f r) r (round3 x))"
proof -
  have u: "[32..<48] = [32, 33, 34, 35] @ [36, 37, 38, 39] @ [40, 41, 42, 43] @ [44, 45, 46, 47]"
    by (simp add: upt_rec)
  show ?thesis
    unfolding u foldl_append by (simp add: four_ops round3_def md5_fun_cases md5_tables del: foldl_Cons) (simp add: md5_tables)
qed

lemma md5_round4:
  "foldl (md5_op x) (ra r, rb r, rc r, rd r) [48..<64] =
   (\<lambda>r'. (ra r', rb r', rc r', rd r')) (foldl (\<lambda>r f. f r) r (round4 x))"
proof -
  have u: "[48..<64] = [48, 49, 50, 51] @ [52, 53, 54, 55] @ [56, 57, 58, 59] @ [60, 61, 62, 63]"
    by (simp add: upt_rec)
  show ?thesis
    unfolding u foldl_append by (simp add: four_ops round4_def md5_fun_cases md5_tables del: foldl_Cons) (simp add: md5_tables)
qed

lemma MD5Transform_rfc: "MD5Transform st block = md5_compress st block"
proof -
  obtain a b c d where st: "st = (a, b, c, d)" by (cases st) auto
  let ?x = "block_words block" and ?r = "\<lparr>ra = a, rb = b, rc = c, rd = d\<rparr>"
  have "[0..<64] = [0..<16] @ [16..<32] @ [32..<48] @ [48..<64]" by (simp add: upt_rec)
  then have "foldl (md5_op ?x) (ra ?r, rb ?r, rc ?r, rd ?r) [0..<64] = (\<lambda>r. (ra r, rb r, rc r, rd r))
      (foldl (\<lambda>r f. f r) ?r (round1 ?x @ round2 ?x @ round3 ?x @ round4 ?x))"
    by (simp only: foldl_append md5_round1 md5_round2 md5_round3 md5_round4)
  then show ?thesis by (simp add: MD5Transform_def md5_compress_def st Let_def)
qed

subsection \<open>The context stands for the bytes given so far\<close>

lemma md5_blocks_short: "length xs < 64 \<Longrightarrow> md5_blocks st xs = (st, xs)"
  by (simp add: md5_blocks.simps [of st xs])

lemma md5_blocks_rest: "md5_blocks st xs = (st', r) \<Longrightarrow> length r = length xs mod 64"
proof (induction st xs rule: md5_blocks.induct)
  case (1 st xs)
  then show ?case
    by (cases "64 \<le> length xs") (auto simp: md5_blocks.simps [of st xs] le_mod_geq split: if_splits)
qed

lemma md5_blocks_append: "md5_blocks st xs = (st', r) \<Longrightarrow> md5_blocks st (xs @ ys) = md5_blocks st' (r @ ys)"
proof (induction st xs rule: md5_blocks.induct)
  case (1 st xs)
  show ?case
  proof (cases "64 \<le> length xs")
    case True
    then show ?thesis using 1 by (simp add: md5_blocks.simps [of st xs] md5_blocks.simps [of st "xs @ ys"])
  next
    case False
    then show ?thesis using 1(2) by (simp add: md5_blocks_short)
  qed
qed

lemma have_bytes: "unat (drop_bit 3 w AND 63) = unat (w :: u64) div 8 mod 64"
proof -
  have "(63 :: u64) = mask 6" by (simp add: mask_eq_exp_minus_1)
  then have "drop_bit 3 w AND 63 = take_bit 6 (drop_bit 3 w)" by (simp only: take_bit_eq_mask)
  then have "unat (drop_bit 3 w AND 63) = take_bit 6 (drop_bit 3 (unat w))"
    by (simp only: unsigned_take_bit_eq unat_drop_bit_eq)
  then show ?thesis by (simp add: take_bit_eq_mod drop_bit_eq_div)
qed

lemma count_have: "unat (drop_bit 3 (of_nat (8 * n) :: u64) AND 63) = n mod 64"
proof -
  have "unat (drop_bit 3 (of_nat (8 * n) :: u64) AND 63) = unat (of_nat (8 * n) :: u64) div 8 mod 64"
    by (rule have_bytes)
  also have "unat (of_nat (8 * n) :: u64) = 8 * (n mod 2 ^ 61)"
    unfolding unat_of_nat using mult_mod_right [of 8 n "2 ^ 61 :: nat"] by simp
  also have "\<dots> div 8 mod 64 = n mod 64" by (simp add: mod_mod_cancel)
  finally show ?thesis .
qed

definition md5_init :: md5_state where
  "md5_init = (0x67452301, 0xefcdab89, 0x98badcfe, 0x10325476)"

definition ctx_rep :: "MD5_CTX \<Rightarrow> u8 list \<Rightarrow> bool" where
  "ctx_rep ctx m \<longleftrightarrow> count ctx = of_nat (8 * length m) \<and> length (buffer ctx) = 64 \<and>
     md5_blocks md5_init m = (md5_state ctx, take (length m mod 64) (buffer ctx))"

lemma MD5Init_rep: "length (buffer ctx) = 64 \<Longrightarrow> ctx_rep (MD5Init ctx) []"
  by (simp add: ctx_rep_def MD5Init_def md5_init_def md5_blocks_short)

lemma memcpy_at_simps:
  "k + length xs \<le> length buf \<Longrightarrow> length (memcpy_at buf k xs) = length buf"
  "k \<le> length buf \<Longrightarrow> take (k + length xs) (memcpy_at buf k xs) = take k buf @ xs"
  by (simp_all add: memcpy_at_def)

text \<open>The three ways an update goes: it fills the rest of the block or not, with a block begun or not.\<close>

lemma MD5Update_cases:
  assumes "ctx_rep ctx m" and h_def: "h = length m mod 64" and c_def: "c = count ctx + push_bit 3 (of_nat (length xs))"
  shows "MD5Update ctx xs =
    (if length xs < 64 - h then
       ctx\<lparr>count := c, buffer := if xs = [] then buffer ctx else memcpy_at (buffer ctx) h xs\<rparr>
     else
       let buf = (if h \<noteq> 0 then memcpy_at (buffer ctx) h (take (64 - h) xs) else buffer ctx);
           (st, rest) = md5_blocks (md5_state ctx) (take h (buffer ctx) @ xs)
       in ctx\<lparr>count := c, md5_state := st, buffer := if rest = [] then buf else memcpy_at buf 0 rest\<rparr>)"
proof -
  have h: "unat (drop_bit 3 (count ctx) AND 63) = h"
    using assms(1) count_have [of "length m"] by (simp add: ctx_rep_def h_def)
  have h64: "h < 64" by (simp add: h_def)
  have len: "length (buffer ctx) = 64" using assms(1) by (simp add: ctx_rep_def)
  show ?thesis
  proof (cases "length xs < 64 - h")
    case True
    then show ?thesis by (simp add: MD5Update_def h MD5_BLOCK_LENGTH_def Let_def c_def)
  next
    case ge: False
    show ?thesis
    proof (cases "h = 0")
      case True
      then show ?thesis
        using ge by (simp add: MD5Update_def h MD5_BLOCK_LENGTH_def Let_def c_def split: prod.splits)
    next
      case False
      let ?buf = "memcpy_at (buffer ctx) h (take (64 - h) xs)"
      have "?buf = take h (buffer ctx) @ take (64 - h) xs"
        using ge len h64 by (simp add: memcpy_at_def)
      moreover have "64 \<le> h + length xs" using ge by simp
      ultimately have "md5_blocks (md5_state ctx) (take h (buffer ctx) @ xs) = md5_blocks (MD5Transform (md5_state ctx) ?buf) (drop (64 - h) xs)"
        using ge len h64 by (subst md5_blocks.simps) simp
      then show ?thesis
        using ge False by (simp add: MD5Update_def h MD5_BLOCK_LENGTH_def Let_def c_def split: prod.splits)
    qed
  qed
qed

lemma MD5Update_rep:
  assumes "ctx_rep ctx m"
  shows "ctx_rep (MD5Update ctx xs) (m @ xs)"
proof -
  define h where "h = length m mod 64"
  have len: "length (buffer ctx) = 64" and b: "md5_blocks md5_init m = (md5_state ctx, take h (buffer ctx))"
    using assms by (simp_all add: ctx_rep_def h_def)
  have h64: "h < 64" by (simp add: h_def)
  have c: "count ctx + push_bit 3 (of_nat (length xs)) = of_nat (8 * length (m @ xs))"
    using assms by (simp add: ctx_rep_def push_bit_eq_mult algebra_simps)
  have all: "md5_blocks md5_init (m @ xs) = md5_blocks (md5_state ctx) (take h (buffer ctx) @ xs)"
    by (rule md5_blocks_append [OF b])
  note u = MD5Update_cases [OF assms h_def refl, of xs, unfolded c]
  show ?thesis
  proof (cases "length xs < 64 - h")
    case True
    have "length (m @ xs) mod 64 = h + length xs"
      using True by (simp add: h_def) (metis h_def h64 less_diff_conv add.commute mod_add_left_eq mod_less)
    moreover have "md5_blocks md5_init (m @ xs) = (md5_state ctx, take h (buffer ctx) @ xs)"
      unfolding all using True len h64 by (intro md5_blocks_short) simp
    moreover have "take (h + length xs) (if xs = [] then buffer ctx else memcpy_at (buffer ctx) h xs) = take h (buffer ctx) @ xs"
      using memcpy_at_simps(2) [of h "buffer ctx" xs] len h64 by simp
    ultimately show ?thesis
      unfolding u using True len memcpy_at_simps(1) [of h xs "buffer ctx"] by (simp add: ctx_rep_def)
  next
    case False
    obtain st rest where r: "md5_blocks (md5_state ctx) (take h (buffer ctx) @ xs) = (st, rest)" by fastforce
    define buf where "buf = (if h \<noteq> 0 then memcpy_at (buffer ctx) h (take (64 - h) xs) else buffer ctx)"
    have lb: "length buf = 64" using memcpy_at_simps(1) [of h "take (64 - h) xs" "buffer ctx"] False len h64 by (simp add: buf_def)
    have lr: "length rest = length (m @ xs) mod 64" using md5_blocks_rest [of md5_init "m @ xs" st rest] all r by simp
    have "length rest < 64" unfolding lr by simp
    then have "take (length rest) (if rest = [] then buf else memcpy_at buf 0 rest) = rest"
      "length (if rest = [] then buf else memcpy_at buf 0 rest) = 64"
      using memcpy_at_simps(2) [of 0 buf rest] memcpy_at_simps(1) [of 0 rest buf] lb by auto
    then show ?thesis
      unfolding u Let_def buf_def [symmetric] r prod.case using False all r lr by (simp add: ctx_rep_def)
  qed
qed

section \<open>The digest\<close>

text \<open>
  The digest of a whole message as the RFC defines it: one bit 1 and zeros up to 56 bytes modulo 64, the
  number of bits in eight bytes, and the compression of all blocks.
\<close>

definition md5_pad :: "u8 list \<Rightarrow> u8 list" where
  "md5_pad m = m @ [0x80] @ replicate ((119 - length m mod 64) mod 64) 0 @
     map (\<lambda>i. ucast (drop_bit (8 * i) (of_nat (8 * length m) :: u64))) [0..<8]"

fun compress_blocks :: "md5_state \<Rightarrow> u8 list \<Rightarrow> md5_state" where
  "compress_blocks st m = (if m = [] then st else compress_blocks (md5_compress st (take 64 m)) (drop 64 m))"

declare compress_blocks.simps [simp del]

definition le_bytes :: "u32 \<Rightarrow> u8 list" where
  "le_bytes v = map (\<lambda>i. ucast (drop_bit (8 * i) v)) [0..<4]"

definition md5 :: "u8 list \<Rightarrow> u8 list" where
  "md5 m = (case compress_blocks md5_init (md5_pad m) of (a, b, c, d) \<Rightarrow> le_bytes a @ le_bytes b @ le_bytes c @ le_bytes d)"

lemma ucast_and_FF: "(ucast (v AND 0xFF) :: u8) = ucast (v :: 'a :: len word)"
proof -
  have "(0xFF :: 'a word) = mask 8" by (simp add: mask_eq_exp_minus_1)
  then have "v AND 0xFF = take_bit 8 v" by (simp add: take_bit_eq_mask)
  then show ?thesis by (auto simp: bit_simps intro!: bit_word_eqI)
qed

lemma compress_blocks_eq: "length m mod 64 = 0 \<Longrightarrow> md5_blocks st m = (compress_blocks st m, [])"
proof (induction st m rule: compress_blocks.induct)
  case (1 st m)
  show ?case
  proof (cases "m = []")
    case True
    then show ?thesis by (simp add: md5_blocks_short compress_blocks.simps)
  next
    case False
    then have ge: "64 \<le> length m" using 1(2) by (metis length_0_conv linorder_not_less mod_less)
    then have "length (drop 64 m) mod 64 = 0" using 1(2) le_mod_geq by simp
    from 1(1) [OF False this] show ?thesis
      using False ge by (simp add: md5_blocks.simps [of st m] compress_blocks.simps [of st m] MD5Transform_rfc)
  qed
qed

lemma pad_length:
  fixes h :: nat
  assumes "h < 64"
  defines "padlen \<equiv> (if 64 - h < 1 + 8 then 64 - h + 64 else 64 - h)"
  shows "padlen - 8 = Suc ((119 - h) mod 64)" "(h + padlen) mod 64 = 0" "8 < padlen" "padlen - 8 \<le> 64"
proof -
  have "119 - h = (if 55 < h then 119 - h else 55 - h + 64)" using assms(1) by simp
  moreover have "55 < h \<Longrightarrow> 119 - h < 64" "\<not> 55 < h \<Longrightarrow> 55 - h < 64" by auto
  ultimately have "(119 - h) mod 64 = (if 55 < h then 119 - h else 55 - h)" by (metis mod_add_self2 mod_less)
  then show "padlen - 8 = Suc ((119 - h) mod 64)" using assms by auto
  show "(h + padlen) mod 64 = 0" using assms by auto
qed (use assms in auto)

lemma MD5Final_rep:
  assumes "ctx_rep ctx m"
  shows "fst (MD5Final ctx) = md5 m"
proof -
  define h where "h = length m mod 64"
  have h: "unat (drop_bit 3 (count ctx) AND 63) = h" and c: "count ctx = of_nat (8 * length m)"
    using assms count_have [of "length m"] by (simp_all add: ctx_rep_def h_def)
  define padlen where "padlen = (if 64 - h < 1 + 8 then 64 - h + 64 else 64 - h)"
  have h64: "h < 64" by (simp add: h_def)
  note pl = pad_length [OF h64, folded padlen_def]
  have pad: "take (padlen - 8) PADDING = 0x80 # replicate ((119 - h) mod 64) 0"
    unfolding pl(1) PADDING_def using pl(1,4) by simp
  let ?ctx = "MD5Update (MD5Update ctx (take (padlen - 8) PADDING)) (PUT_64BIT_LE (count ctx))"
  have "(m @ take (padlen - 8) PADDING) @ PUT_64BIT_LE (count ctx) = md5_pad m"
    by (simp add: md5_pad_def pad PUT_64BIT_LE_def ucast_and_FF c h_def)
  then have r: "ctx_rep ?ctx (md5_pad m)" using MD5Update_rep [OF MD5Update_rep [OF assms]] by metis
  have "length (md5_pad m) = length m + (8 + Suc ((119 - h) mod 64))" by (simp add: md5_pad_def h_def)
  also have "\<dots> = length m + padlen" using pl(1,3) by linarith
  finally have "length (md5_pad m) = length m + padlen" .
  then have "length (md5_pad m) mod 64 = 0" using pl(2) by (simp add: h_def mod_add_left_eq)
  from compress_blocks_eq [OF this] r have "md5_state ?ctx = compress_blocks md5_init (md5_pad m)"
    by (simp add: ctx_rep_def)
  moreover have "fst (MD5Final ctx) = (case md5_state ?ctx of (s0, s1, s2, s3) \<Rightarrow>
      PUT_32BIT_LE s0 @ PUT_32BIT_LE s1 @ PUT_32BIT_LE s2 @ PUT_32BIT_LE s3)"
    unfolding MD5Final_def Let_def h MD5_BLOCK_LENGTH_def padlen_def [symmetric] fst_conv by (rule refl)
  moreover have "PUT_32BIT_LE = le_bytes" by (rule ext) (simp add: PUT_32BIT_LE_def le_bytes_def ucast_and_FF)
  ultimately show ?thesis by (simp add: md5_def)
qed

section \<open>Property\<close>

text \<open>
  C13. The digest of a message fed in any number of pieces of any sizes is the one RFC 1321 defines for
  the whole message: padding and length at the end, and 64 numbered operations on each block, where the
  code has an unrolled sequence of assignments, functions with fewer operations and a partly filled block.
\<close>

theorem md5_correct:
  assumes "length (buffer ctx) = 64"
  shows "fst (MD5Final (foldl MD5Update (MD5Init ctx) pieces)) = md5 (concat pieces)"
proof -
  have "ctx_rep c m \<Longrightarrow> ctx_rep (foldl MD5Update c pieces) (m @ concat pieces)" for c m
  proof (induction pieces arbitrary: c m)
    case (Cons p pieces)
    then show ?case using MD5Update_rep [OF Cons.prems] by fastforce
  qed simp
  from this [OF MD5Init_rep [OF assms]] show ?thesis by (simp add: MD5Final_rep)
qed

definition abc_ctx :: MD5_CTX where
  "abc_ctx = \<lparr>md5_state = (0, 0, 0, 0), count = 0, buffer = replicate 64 0\<rparr>"

theorem md5_correct_witness:
  "fst (MD5Final (foldl MD5Update (MD5Init abc_ctx) [[0x61], [], [0x62, 0x63]])) =
   [0x90, 0x01, 0x50, 0x98, 0x3c, 0xd2, 0x4f, 0xb0, 0xd6, 0x96, 0x3f, 0x7d, 0x28, 0xe1, 0x7f, 0x72]"
proof -
  have "md5 [0x61, 0x62, 0x63] = [0x90, 0x01, 0x50, 0x98, 0x3c, 0xd2, 0x4f, 0xb0, 0xd6, 0x96, 0x3f, 0x7d, 0x28, 0xe1, 0x7f, 0x72]"
    by code_simp
  then show ?thesis using md5_correct [of abc_ctx "[[0x61], [], [0x62, 0x63]]"] by (simp add: abc_ctx_def)
qed

end
