(* ===== verification/Uuid.thy ===== *)
theory Uuid
  imports Md5 "HOL-Library.List_Lexorder"
begin

unbundle bit_operations_syntax

text \<open>
  UUIDs, \<^verbatim>\<open>upnp/src/uuid/uuid.c\<close> and \<^verbatim>\<open>sysdep.c\<close>. The static variables of the two files are one record. A
  call of \<open>uuid_create\<close> takes what the system provides: the clock readings \<open>gettimeofday\<close> would return one
  after the other, the bytes hashed for the node identifier, and the value of \<open>rand\<close>.
\<close>

type_synonym u16 = "16 word"

record uuid_upnp =
  time_low :: u32
  time_mid :: u16
  time_hi_and_version :: u16
  clock_seq_hi_and_reserved :: u8
  clock_seq_low :: u8
  node :: "u8 list"

record uuid_statics =
  stateInited :: bool
  st_cs :: u16
  st_ts :: u64
  st_node :: "u8 list"
  next_save :: u64
  time_last :: u64
  uuids_this_tick :: u16
  time_inited :: bool
  node_inited :: bool
  saved_node :: "u8 list"
  random_inited :: bool

definition uuid_initial :: uuid_statics where
  "uuid_initial =
     \<lparr>stateInited = False, st_cs = 0, st_ts = 0, st_node = replicate 6 0, next_save = 0, time_last = 0, uuids_this_tick = 0,
      time_inited = False, node_inited = False, saved_node = replicate 6 0, random_inited = False\<rparr>"

definition UUIDS_PER_TICK :: u16 where "UUIDS_PER_TICK = 1024"

section \<open>What the system provides\<close>

definition get_system_time :: "int \<times> int \<Rightarrow> u64" where
  "get_system_time tp = of_int (fst tp) * 10000000 + of_int (snd tp) * 10 + 0x01B21DD213814000"

definition get_random_info :: "MD5_CTX \<Rightarrow> u8 list \<Rightarrow> u8 list" where
  "get_random_info c r = fst (MD5Final (MD5Update (MD5Init c) r))"

definition get_ieee_node_identifier :: "MD5_CTX \<Rightarrow> u8 list \<Rightarrow> uuid_statics \<Rightarrow> u8 list \<times> uuid_statics" where
  "get_ieee_node_identifier c r s =
     (let s1 = (if \<not> node_inited s
                then let seed = get_random_info c r
                     in s\<lparr>saved_node := take 6 (seed[0 := seed ! 0 OR 0x80]), node_inited := True\<rparr>
                else s)
      in (saved_node s1, s1))"

section \<open>The generator\<close>

text \<open>The loop reads the clock until it may go on; \<open>None\<close> when the given readings do not suffice.\<close>

fun time_loop :: "(int \<times> int) list \<Rightarrow> uuid_statics \<Rightarrow> (u64 \<times> uuid_statics) option" where
  "time_loop [] s = None"
| "time_loop (tp # tps) s =
     (let time_now = get_system_time tp in
      if time_last s \<noteq> time_now then Some (time_now, s\<lparr>uuids_this_tick := 0\<rparr>)
      else if uuids_this_tick s < UUIDS_PER_TICK then Some (time_now, s\<lparr>uuids_this_tick := uuids_this_tick s + 1\<rparr>)
      else time_loop tps s)"

definition get_current_time :: "(int \<times> int) list \<Rightarrow> uuid_statics \<Rightarrow> (u64 \<times> uuid_statics) option" where
  "get_current_time tps s0 =
     (let s = (if \<not> time_inited s0 then s0\<lparr>uuids_this_tick := UUIDS_PER_TICK, time_inited := True\<rparr> else s0) in
      case time_loop tps s of None \<Rightarrow> None
      | Some (time_now, s1) \<Rightarrow>
          let timestamp = time_now + ucast (uuids_this_tick s1) in Some (timestamp, s1\<lparr>time_last := timestamp\<rparr>))"

definition true_random :: "int \<Rightarrow> uuid_statics \<Rightarrow> u16 \<times> uuid_statics" where
  "true_random rnd s = (of_int rnd, s\<lparr>random_inited := True\<rparr>)"

definition read_state :: "uuid_statics \<Rightarrow> (u16 \<times> u64 \<times> u8 list) option" where
  "read_state s = (if stateInited s then Some (st_cs s, st_ts s, st_node s) else None)"

definition write_state :: "u16 \<Rightarrow> u64 \<Rightarrow> u8 list \<Rightarrow> uuid_statics \<Rightarrow> uuid_statics" where
  "write_state clockseq timestamp nd s =
     (let s1 = (if \<not> stateInited s then s\<lparr>next_save := timestamp, stateInited := True\<rparr> else s);
          s2 = s1\<lparr>st_cs := clockseq, st_ts := timestamp, st_node := nd\<rparr>
      in if next_save s2 \<le> timestamp then s2\<lparr>next_save := timestamp + 10 * 10 * 1000 * 1000\<rparr> else s2)"

definition format_uuid_v1 :: "u16 \<Rightarrow> u64 \<Rightarrow> u8 list \<Rightarrow> uuid_upnp" where
  "format_uuid_v1 clock_seq timestamp nd =
     \<lparr>time_low = ucast (timestamp AND 0xFFFFFFFF),
      time_mid = ucast (drop_bit 32 timestamp AND 0xFFFF),
      time_hi_and_version = ucast (drop_bit 48 timestamp AND 0x0FFF) OR push_bit 12 1,
      clock_seq_hi_and_reserved = ucast (drop_bit 8 (clock_seq AND 0x3F00)) OR 0x80,
      clock_seq_low = ucast (clock_seq AND 0xFF),
      node = nd\<rparr>"

definition uuid_create :: "(int \<times> int) list \<Rightarrow> MD5_CTX \<Rightarrow> u8 list \<Rightarrow> int \<Rightarrow> uuid_statics \<Rightarrow> (uuid_upnp \<times> uuid_statics) option" where
  "uuid_create tps c r rnd s0 =
     (case get_current_time tps s0 of None \<Rightarrow> None
      | Some (timestamp, s1) \<Rightarrow>
          let (nd, s2) = get_ieee_node_identifier c r s1;
              (clockseq, s3) =
                (case read_state s2 of
                   None \<Rightarrow> true_random rnd s2
                 | Some (cs, last_time, last_node) \<Rightarrow>
                     if nd \<noteq> last_node then true_random rnd s2
                     else if timestamp < last_time then (cs + 1, s2) else (cs, s2))
          in Some (format_uuid_v1 clockseq timestamp nd, write_state clockseq timestamp nd s3))"

section \<open>Printing and comparison\<close>

definition hex_digit :: "nat \<Rightarrow> char" where
  "hex_digit n = (if n < 10 then char_of (48 + n) else char_of (87 + n))"

text \<open>The conversion \<open>%k.kx\<close> of an unsigned number of at most \<open>k\<close> hexadecimal digits.\<close>

fun hex_field :: "nat \<Rightarrow> nat \<Rightarrow> string" where
  "hex_field 0 v = []"
| "hex_field (Suc k) v = hex_field k (v div 16) @ [hex_digit (v mod 16)]"

definition upnp_uuid_unpack :: "uuid_upnp \<Rightarrow> string" where
  "upnp_uuid_unpack u =
     hex_field 8 (unat (time_low u)) @ ''-'' @ hex_field 4 (unat (time_mid u)) @ ''-'' @
     hex_field 4 (unat (time_hi_and_version u)) @ ''-'' @ hex_field 2 (unat (clock_seq_hi_and_reserved u)) @
     hex_field 2 (unat (clock_seq_low u)) @ ''-'' @ concat (map (\<lambda>b. hex_field 2 (unat b)) (take 6 (node u)))"

fun node_compare :: "u8 list \<Rightarrow> u8 list \<Rightarrow> int" where
  "node_compare (x # xs) (y # ys) = (if x < y then -1 else if y < x then 1 else node_compare xs ys)"
| "node_compare [] ys = 0"
| "node_compare (x # xs) [] = 0"

definition uuid_compare :: "uuid_upnp \<Rightarrow> uuid_upnp \<Rightarrow> int" where
  "uuid_compare u1 u2 =
     (if time_low u1 \<noteq> time_low u2 then if time_low u1 < time_low u2 then -1 else 1
      else if time_mid u1 \<noteq> time_mid u2 then if time_mid u1 < time_mid u2 then -1 else 1
      else if time_hi_and_version u1 \<noteq> time_hi_and_version u2
           then if time_hi_and_version u1 < time_hi_and_version u2 then -1 else 1
      else if clock_seq_hi_and_reserved u1 \<noteq> clock_seq_hi_and_reserved u2
           then if clock_seq_hi_and_reserved u1 < clock_seq_hi_and_reserved u2 then -1 else 1
      else if clock_seq_low u1 \<noteq> clock_seq_low u2 then if clock_seq_low u1 < clock_seq_low u2 then -1 else 1
      else node_compare (node u1) (node u2))"

section \<open>Names\<close>

text \<open>The structure as it lies in memory with its numbers in network order.\<close>

definition be16 :: "u16 \<Rightarrow> u8 list" where
  "be16 v = [ucast (drop_bit 8 v), ucast v]"

definition be32 :: "u32 \<Rightarrow> u8 list" where
  "be32 v = [ucast (drop_bit 24 v), ucast (drop_bit 16 v), ucast (drop_bit 8 v), ucast v]"

definition of_be16 :: "u8 list \<Rightarrow> u16" where
  "of_be16 bs = push_bit 8 (ucast (bs ! 0)) OR ucast (bs ! 1)"

definition of_be32 :: "u8 list \<Rightarrow> u32" where
  "of_be32 bs = push_bit 24 (ucast (bs ! 0)) OR push_bit 16 (ucast (bs ! 1)) OR push_bit 8 (ucast (bs ! 2)) OR ucast (bs ! 3)"

definition net_bytes :: "uuid_upnp \<Rightarrow> u8 list" where
  "net_bytes u = be32 (time_low u) @ be16 (time_mid u) @ be16 (time_hi_and_version u) @
     [clock_seq_hi_and_reserved u, clock_seq_low u] @ node u"

definition format_uuid_v3 :: "u8 list \<Rightarrow> uuid_upnp" where
  "format_uuid_v3 hash =
     \<lparr>time_low = of_be32 (take 4 hash), time_mid = of_be16 (take 2 (drop 4 hash)),
      time_hi_and_version = (of_be16 (take 2 (drop 6 hash)) AND 0x0FFF) OR push_bit 12 3,
      clock_seq_hi_and_reserved = (hash ! 8 AND 0x3F) OR 0x80, clock_seq_low = hash ! 9,
      node = take 6 (drop 10 hash)\<rparr>"

definition uuid_create_from_name :: "MD5_CTX \<Rightarrow> uuid_upnp \<Rightarrow> u8 list \<Rightarrow> uuid_upnp" where
  "uuid_create_from_name c nsid name =
     format_uuid_v3 (fst (MD5Final (MD5Update (MD5Update (MD5Init c) (net_bytes nsid)) name)))"

section \<open>The fields hold the time and the clock sequence\<close>

lemma and_takes:
  "(w :: u64) AND 0xFFFFFFFF = take_bit 32 w" "w AND 0xFFFF = take_bit 16 w" "w AND 0x0FFF = take_bit 12 w"
  "(c :: u16) AND 0xFF = take_bit 8 c"
  by (simp_all add: take_bit_eq_mask mask_eq_exp_minus_1)

lemma const_bits:
  "\<forall>n < 12. \<not> bit (push_bit 12 1 :: u16) n" "\<forall>n < 6. bit (0x3F :: u16) n" "\<forall>n < 6. \<not> bit (0x80 :: u8) n"
  by code_simp+

lemma format_fields:
  "n < 32 \<Longrightarrow> bit (time_low (format_uuid_v1 cs ts nd)) n = bit ts n"
  "n < 16 \<Longrightarrow> bit (time_mid (format_uuid_v1 cs ts nd)) n = bit ts (32 + n)"
  "n < 8 \<Longrightarrow> bit (clock_seq_low (format_uuid_v1 cs ts nd)) n = bit cs n"
  unfolding format_uuid_v1_def uuid_upnp.simps and_takes by (simp_all add: bit_simps)

lemma format_time_hi: "n < 12 \<Longrightarrow> bit (time_hi_and_version (format_uuid_v1 cs ts nd)) n = bit ts (48 + n)"
  using const_bits(1) unfolding format_uuid_v1_def uuid_upnp.simps and_takes bit_or_iff
  by (simp add: bit_simps del: push_bit_of_1)

lemma format_seq_hi: "n < 6 \<Longrightarrow> bit (clock_seq_hi_and_reserved (format_uuid_v1 cs ts nd)) n = bit cs (8 + n)"
  using const_bits(2,3) unfolding format_uuid_v1_def uuid_upnp.simps bit_or_iff
  by (simp add: bit_ucast_iff bit_drop_bit_eq bit_and_iff)

lemma format_time_bits:
  assumes "format_uuid_v1 cs ts nd = format_uuid_v1 cs' ts' nd'" "n < 60"
  shows "bit ts n = bit ts' n"
proof -
  consider "n < 32" | "32 \<le> n" "n < 48" | "48 \<le> n" using assms(2) by linarith
  then show ?thesis
  proof cases
    case 1
    then show ?thesis using format_fields(1) assms(1) by metis
  next
    case 2
    then have "32 + (n - 32) = n" "n - 32 < 16" by auto
    then show ?thesis using format_fields(2) [of "n - 32"] assms(1) by metis
  next
    case 3
    then have "48 + (n - 48) = n" "n - 48 < 12" using assms(2) by auto
    then show ?thesis using format_time_hi [of "n - 48"] assms(1) by metis
  qed
qed

lemma format_seq_bits:
  assumes "format_uuid_v1 cs ts nd = format_uuid_v1 cs' ts' nd'" "n < 14"
  shows "bit cs n = bit cs' n"
proof (cases "n < 8")
  case True
  then show ?thesis using format_fields(3) assms(1) by metis
next
  case False
  then have "8 + (n - 8) = n" "n - 8 < 6" using assms(2) by auto
  then show ?thesis using format_seq_hi [of "n - 8"] assms(1) by metis
qed

lemma format_inject:
  assumes "format_uuid_v1 cs ts nd = format_uuid_v1 cs' ts' nd'"
  shows "take_bit 60 ts = take_bit 60 ts'" "take_bit 14 cs = take_bit 14 cs'"
  using format_time_bits [OF assms] format_seq_bits [OF assms] by (auto intro!: bit_word_eqI simp: bit_take_bit_iff)

section \<open>Runs of the generator\<close>

text \<open>Every call has its own clock readings and its own value of \<open>rand\<close>.\<close>

fun uuid_run :: "MD5_CTX \<Rightarrow> u8 list \<Rightarrow> ((int \<times> int) list \<times> int) list \<Rightarrow> uuid_statics \<Rightarrow> (uuid_upnp list \<times> uuid_statics) option" where
  "uuid_run c r [] s = Some ([], s)"
| "uuid_run c r ((tps, rnd) # ins) s =
     (case uuid_create tps c r rnd s of None \<Rightarrow> None
      | Some (u, s1) \<Rightarrow> (case uuid_run c r ins s1 of None \<Rightarrow> None | Some (us, s2) \<Rightarrow> Some (u # us, s2)))"

text \<open>The clock has not reached the end of the 60 bits of the time, in the year 5236.\<close>

definition clock_ok :: "(int \<times> int) list \<Rightarrow> bool" where
  "clock_ok tps \<longleftrightarrow> (\<forall>tp \<in> set tps. unat (get_system_time tp) + 1024 < 2 ^ 60)"

definition uuid_inv :: "uuid_statics \<Rightarrow> bool" where
  "uuid_inv s \<longleftrightarrow> stateInited s \<and> node_inited s \<and> time_last s = st_ts s \<and> saved_node s = st_node s \<and> unat (st_ts s) < 2 ^ 60"

lemma time_loop_spec:
  assumes "time_loop tps s = Some (t, s')" "clock_ok tps"
  shows "t + ucast (uuids_this_tick s') \<noteq> time_last s \<and> unat (t + ucast (uuids_this_tick s')) < 2 ^ 60 \<and>
    s' = s\<lparr>uuids_this_tick := uuids_this_tick s'\<rparr>"
  using assms
proof (induction tps arbitrary: s)
  case (Cons tp tps)
  have b: "unat (get_system_time tp) + 1024 < 2 ^ 60" using Cons.prems(2) by (simp add: clock_ok_def)
  consider (new) "time_last s \<noteq> get_system_time tp" | (same) "time_last s = get_system_time tp" "uuids_this_tick s < UUIDS_PER_TICK"
    | (spin) "time_last s = get_system_time tp" "\<not> uuids_this_tick s < UUIDS_PER_TICK" by blast
  then show ?case
  proof cases
    case new
    then have "t = get_system_time tp" "s' = s\<lparr>uuids_this_tick := 0\<rparr>" using Cons.prems(1) by (auto simp: Let_def)
    then show ?thesis using new b by simp
  next
    case same
    let ?u = "uuids_this_tick s"
    have st: "t = get_system_time tp" "s' = s\<lparr>uuids_this_tick := ?u + 1\<rparr>" using same Cons.prems(1) by (auto simp: Let_def)
    have "unat ?u < 1024" using same(2) by (simp add: UUIDS_PER_TICK_def word_less_nat_alt)
    then have u: "unat (?u + 1) = Suc (unat ?u)" by (simp add: unat_word_ariths)
    then have v: "unat (ucast (?u + 1) :: u64) = Suc (unat ?u)" using \<open>unat ?u < 1024\<close> by (simp only: unsigned_ucast_eq) (simp add: take_bit_eq_mod)
    have "ucast (?u + 1) \<noteq> (0 :: u64)" using v by (metis nat.simps(3) unat_0)
    moreover have "unat (t + ucast (?u + 1)) < 2 ^ 60"
      using b v \<open>unat ?u < 1024\<close> st by (simp add: unat_word_ariths)
    ultimately show ?thesis using same st by simp
  next
    case spin
    then have "time_loop tps s = Some (t, s')" using Cons.prems(1) by (simp add: Let_def)
    moreover have "clock_ok tps" using Cons.prems(2) by (simp add: clock_ok_def)
    ultimately show ?thesis by (rule Cons.IH)
  qed
qed simp

lemma get_current_time_spec:
  assumes "get_current_time tps s = Some (ts, s')" "clock_ok tps"
  shows "ts \<noteq> time_last s \<and> unat ts < 2 ^ 60 \<and> time_last s' = ts \<and> stateInited s' = stateInited s \<and> st_cs s' = st_cs s \<and>
    st_ts s' = st_ts s \<and> st_node s' = st_node s \<and> node_inited s' = node_inited s \<and> saved_node s' = saved_node s"
proof -
  define s0 where "s0 = (if \<not> time_inited s then s\<lparr>uuids_this_tick := UUIDS_PER_TICK, time_inited := True\<rparr> else s)"
  obtain t s1 where t: "time_loop tps s0 = Some (t, s1)" "ts = t + ucast (uuids_this_tick s1)" "s' = s1\<lparr>time_last := ts\<rparr>"
    using assms(1) by (auto simp: get_current_time_def Let_def s0_def split: option.splits if_splits)
  have "s1 = s0\<lparr>uuids_this_tick := uuids_this_tick s1\<rparr>" using time_loop_spec [OF t(1) assms(2)] by blast
  then have "stateInited s1 = stateInited s0" "st_cs s1 = st_cs s0" "st_ts s1 = st_ts s0" "st_node s1 = st_node s0"
    "node_inited s1 = node_inited s0" "saved_node s1 = saved_node s0"
    by (metis uuid_statics.select_convs uuid_statics.surjective uuid_statics.update_convs(7))+
  then show ?thesis using time_loop_spec [OF t(1) assms(2)] t by (auto simp: s0_def)
qed

lemma uuid_create_step:
  assumes "uuid_inv s" "clock_ok tps" "uuid_create tps c r rnd s = Some (u, s')"
  shows "uuid_inv s' \<and> saved_node s' = saved_node s \<and> u = format_uuid_v1 (st_cs s') (st_ts s') (saved_node s) \<and>
    st_ts s' \<noteq> st_ts s \<and> st_cs s' = (if st_ts s' < st_ts s then st_cs s + 1 else st_cs s)"
proof -
  obtain ts s1 where g: "get_current_time tps s = Some (ts, s1)" using assms(3) by (auto simp: uuid_create_def split: option.splits)
  note t = get_current_time_spec [OF g assms(2)]
  define cs where "cs = (if ts < st_ts s then st_cs s + 1 else st_cs s)"
  have "get_ieee_node_identifier c r s1 = (saved_node s, s1)" "read_state s1 = Some (st_cs s, st_ts s, saved_node s)"
    using assms(1) t by (simp_all add: get_ieee_node_identifier_def uuid_inv_def read_state_def)
  then have "u = format_uuid_v1 cs ts (saved_node s)" "s' = write_state cs ts (saved_node s) s1"
    using assms(3) g by (auto simp: uuid_create_def Let_def cs_def split: if_splits)
  then show ?thesis using assms(1) t by (auto simp: uuid_inv_def write_state_def Let_def cs_def)
qed

lemma uuid_create_first:
  assumes "\<not> stateInited s" "clock_ok tps" "uuid_create tps c r rnd s = Some (u, s')"
  shows "uuid_inv s' \<and> u = format_uuid_v1 (st_cs s') (st_ts s') (saved_node s')"
proof -
  obtain ts s1 where g: "get_current_time tps s = Some (ts, s1)" using assms(3) by (auto simp: uuid_create_def split: option.splits)
  note t = get_current_time_spec [OF g assms(2)]
  obtain nd s2 where n: "get_ieee_node_identifier c r s1 = (nd, s2)" by fastforce
  have s2: "saved_node s2 = nd" "node_inited s2" "time_last s2 = ts" "\<not> stateInited s2"
    using n t assms(1) by (auto simp: get_ieee_node_identifier_def Let_def split: if_splits)
  then have "u = format_uuid_v1 (of_int rnd) ts nd" "s' = write_state (of_int rnd) ts nd (s2\<lparr>random_inited := True\<rparr>)"
    using assms(3) g n by (auto simp: uuid_create_def Let_def read_state_def true_random_def)
  then show ?thesis using s2 t by (auto simp: uuid_inv_def write_state_def Let_def)
qed

lemma take_60: "unat w < 2 ^ 60 \<Longrightarrow> take_bit 60 w = (w :: u64)"
proof -
  assume "unat w < 2 ^ 60"
  then have "take_bit 60 (unat w) = unat w" by (simp only: take_bit_nat_eq_self)
  then have "unat (take_bit 60 w) = unat w" by (simp only: unsigned_take_bit_eq)
  then show ?thesis by (simp only: word_unat_eq_iff)
qed

lemma seq_repeats:
  assumes "take_bit 14 (cs + of_nat B :: u16) = take_bit 14 cs" "B < 2 ^ 14"
  shows "B = 0"
proof -
  have "unat (take_bit 14 (cs + of_nat B)) = unat (take_bit 14 cs)" using assms(1) by simp
  then have "(unat cs + B) mod 2 ^ 16 mod 2 ^ 14 = unat cs mod 2 ^ 14"
    using assms(2) by (simp add: unsigned_take_bit_eq take_bit_eq_mod unat_word_ariths unat_of_nat)
  moreover have "(unat cs + B) mod 2 ^ 16 mod 2 ^ 14 = (unat cs + B) mod (2 ^ 14 :: nat)" by (rule mod_mod_cancel) simp
  ultimately have "2 ^ 14 dvd unat cs + B - unat cs" using mod_eq_dvd_iff_nat [of "unat cs" "unat cs + B" "2 ^ 14"] by simp
  then have "2 ^ 14 dvd B" by simp
  then show ?thesis using assms(2) nat_dvd_not_less by blast
qed

text \<open>
  After a UUID with time \<open>ts0\<close> and sequence \<open>cs0\<close>: as long as the clock has gone back fewer than $2^{14}$ times, a
  later UUID has another sequence or a later time.
\<close>

lemma later_uuids:
  assumes "uuid_run c r ins s = Some (us, s')" "uuid_inv s" "\<forall>i \<in> set ins. clock_ok (fst i)"
    and "st_cs s = cs0 + of_nat B" "B = 0 \<Longrightarrow> ts0 \<le> st_ts s" "B + length ins < 2 ^ 14" "unat ts0 < 2 ^ 60"
  shows "format_uuid_v1 cs0 ts0 nd \<notin> set us"
  using assms
proof (induction ins arbitrary: s us B)
  case (Cons i ins)
  obtain tps rnd where i: "i = (tps, rnd)" by fastforce
  obtain u s1 us1 where u: "uuid_create tps c r rnd s = Some (u, s1)" "uuid_run c r ins s1 = Some (us1, s')" "us = u # us1"
    using Cons.prems(1) i by (auto split: option.splits)
  have ck: "clock_ok tps" using Cons.prems(3) i by simp
  note st = uuid_create_step [OF Cons.prems(2) ck u(1)]
  define B' where "B' = (if st_ts s1 < st_ts s then Suc B else B)"
  have cs: "st_cs s1 = cs0 + of_nat B'" using st Cons.prems(4) by (simp add: B'_def)
  have lt: "ts0 < st_ts s1" if "B' = 0"
    using that Cons.prems(5) st by (auto simp: B'_def split: if_splits)
  have "u \<noteq> format_uuid_v1 cs0 ts0 nd"
  proof
    assume "u = format_uuid_v1 cs0 ts0 nd"
    then have e: "format_uuid_v1 (st_cs s1) (st_ts s1) (saved_node s) = format_uuid_v1 cs0 ts0 nd" using st by simp
    have "B' = 0" using seq_repeats [of cs0 B'] format_inject(2) [OF e] cs Cons.prems(6) by (simp add: B'_def split: if_splits)
    moreover have "st_ts s1 = ts0"
      using format_inject(1) [OF e] st Cons.prems(7) take_60 [of ts0] take_60 [of "st_ts s1"] unfolding uuid_inv_def by metis
    ultimately show False using lt by blast
  qed
  moreover have "format_uuid_v1 cs0 ts0 nd \<notin> set us1"
  proof (rule Cons.IH [OF u(2) _ _ cs])
    show "uuid_inv s1" using st by blast
    show "\<forall>i \<in> set ins. clock_ok (fst i)" "unat ts0 < 2 ^ 60" using Cons.prems(3,7) by simp_all
    show "B' = 0 \<Longrightarrow> ts0 \<le> st_ts s1" using lt by (rule less_imp_le)
    show "B' + length ins < 2 ^ 14" using Cons.prems(6) by (auto simp: B'_def)
  qed
  ultimately show ?case using u(3) by auto
qed simp

lemma uuid_run_distinct:
  assumes "uuid_run c r ins s = Some (us, s')" "uuid_inv s" "\<forall>i \<in> set ins. clock_ok (fst i)" "length ins \<le> 2 ^ 14"
  shows "distinct us"
  using assms
proof (induction ins arbitrary: s us)
  case (Cons i ins)
  obtain tps rnd where i: "i = (tps, rnd)" by fastforce
  obtain u s1 us1 where u: "uuid_create tps c r rnd s = Some (u, s1)" "uuid_run c r ins s1 = Some (us1, s')" "us = u # us1"
    using Cons.prems(1) i by (auto split: option.splits)
  have ck: "clock_ok tps" using Cons.prems(3) i by simp
  note st = uuid_create_step [OF Cons.prems(2) ck u(1)]
  have "u \<notin> set us1"
    using later_uuids [OF u(2), of "st_cs s1" 0 "st_ts s1" "saved_node s"] st Cons.prems by (auto simp: uuid_inv_def)
  then show ?case using Cons.IH [OF u(2)] st Cons.prems u(3) by auto
qed simp

lemma first_uuids_distinct:
  assumes "uuid_run c r ins uuid_initial = Some (us, s')" "\<forall>i \<in> set ins. clock_ok (fst i)" "length ins \<le> 2 ^ 14"
  shows "distinct us"
proof (cases ins)
  case (Cons i rest)
  obtain tps rnd where i: "i = (tps, rnd)" by fastforce
  obtain u s1 us1 where u: "uuid_create tps c r rnd uuid_initial = Some (u, s1)" "uuid_run c r rest s1 = Some (us1, s')" "us = u # us1"
    using assms(1) Cons i by (auto split: option.splits)
  have ck: "clock_ok tps" "\<forall>i \<in> set rest. clock_ok (fst i)" using assms(2) Cons i by auto
  have f: "uuid_inv s1" "u = format_uuid_v1 (st_cs s1) (st_ts s1) (saved_node s1)"
    using uuid_create_first [OF _ ck(1) u(1)] by (simp_all add: uuid_initial_def)
  have len: "length rest < 2 ^ 14" using assms(3) Cons by simp
  have "u \<notin> set us1"
    unfolding f(2) using f(1) ck(2) len by (intro later_uuids [OF u(2), where B = 0]) (auto simp: uuid_inv_def)
  moreover have "distinct us1" using uuid_run_distinct [OF u(2) f(1) ck(2)] len by simp
  ultimately show ?thesis using u(3) by simp
qed (use assms in simp)

lemma uuid_run_append:
  assumes "uuid_run c r (xs @ ys) s = Some (us, s')"
  shows "\<exists>us1 s1 us2. uuid_run c r xs s = Some (us1, s1) \<and> uuid_run c r ys s1 = Some (us2, s') \<and> us = us1 @ us2 \<and>
    length us1 = length xs"
  using assms
proof (induction xs arbitrary: s us)
  case (Cons i xs)
  obtain tps rnd where i: "i = (tps, rnd)" by fastforce
  obtain u s1 us1 where u: "uuid_create tps c r rnd s = Some (u, s1)" "uuid_run c r (xs @ ys) s1 = Some (us1, s')" "us = u # us1"
    using Cons.prems i by (auto split: option.splits)
  then show ?case using Cons.IH [OF u(2)] i by fastforce
qed simp

lemma uuid_run_keeps:
  assumes "uuid_run c r ins s = Some (us, s')" "uuid_inv s" "\<forall>i \<in> set ins. clock_ok (fst i)"
  shows "uuid_inv s'"
  using assms
proof (induction ins arbitrary: s us)
  case (Cons i ins)
  obtain tps rnd where i: "i = (tps, rnd)" by fastforce
  obtain u s1 us1 where u: "uuid_create tps c r rnd s = Some (u, s1)" "uuid_run c r ins s1 = Some (us1, s')" "us = u # us1"
    using Cons.prems(1) i by (auto split: option.splits)
  have ck: "clock_ok tps" using Cons.prems(3) i by simp
  have "uuid_inv s1" using uuid_create_step [OF Cons.prems(2) ck u(1)] by blast
  then show ?case using Cons.IH [OF u(2)] Cons.prems(3) by simp
qed simp

text \<open>Any stretch of 16384 calls, at the start or later.\<close>

lemma consecutive_uuids_distinct:
  assumes "uuid_run c r (before @ ins) uuid_initial = Some (us, s')" "\<forall>i \<in> set (before @ ins). clock_ok (fst i)" "length ins \<le> 2 ^ 14"
  shows "distinct (drop (length before) us)"
proof -
  obtain us1 s1 us2 where r: "uuid_run c r before uuid_initial = Some (us1, s1)" "uuid_run c r ins s1 = Some (us2, s')"
    "us = us1 @ us2" "length us1 = length before" using uuid_run_append [OF assms(1)] by blast
  have "distinct us2"
  proof (cases before)
    case Nil
    then show ?thesis using r(1,2) assms(2,3) by (intro first_uuids_distinct) auto
  next
    case (Cons i rest)
    obtain tps rnd where i: "i = (tps, rnd)" by fastforce
    obtain u s0 us0 where u: "uuid_create tps c r rnd uuid_initial = Some (u, s0)" "uuid_run c r rest s0 = Some (us0, s1)"
      using r(1) Cons i by (auto split: option.splits)
    have ck: "clock_ok tps" "\<forall>i \<in> set rest. clock_ok (fst i)" "\<forall>i \<in> set ins. clock_ok (fst i)" using assms(2) Cons i by auto
    have "uuid_inv s0" using uuid_create_first [OF _ ck(1) u(1)] by (simp add: uuid_initial_def)
    from uuid_run_distinct [OF r(2) uuid_run_keeps [OF u(2) this ck(2)] ck(3) assms(3)] show ?thesis .
  qed
  then show ?thesis using r(3,4) by simp
qed

section \<open>Printed UUIDs\<close>

lemma hex_field_length [simp]: "length (hex_field k v) = k"
  by (induction k v rule: hex_field.induct) auto

lemma hex_digit_inj: "a < 16 \<Longrightarrow> b < 16 \<Longrightarrow> hex_digit a = hex_digit b \<Longrightarrow> a = b"
  by (auto simp: hex_digit_def char_of_eq_iff take_bit_eq_mod split: if_splits)

lemma hex_field_inj: "v < 16 ^ k \<Longrightarrow> w < 16 ^ k \<Longrightarrow> hex_field k v = hex_field k w \<Longrightarrow> v = w"
proof (induction k arbitrary: v w)
  case (Suc k)
  have "v div 16 = w div 16" using Suc by (intro Suc.IH) (auto simp: less_mult_imp_div_less mult.commute)
  moreover have "v mod 16 = w mod 16" using Suc.prems(3) by (intro hex_digit_inj) auto
  ultimately show ?case by (metis div_mult_mod_eq)
qed simp

lemma hex_word_inj:
  fixes x y :: "'a :: len word"
  assumes "hex_field k (unat x) = hex_field k (unat y)" "LENGTH('a) \<le> 4 * k"
  shows "x = y"
proof -
  have "(2 :: nat) ^ LENGTH('a) \<le> 2 ^ (4 * k)" using assms(2) by (intro power_increasing) auto
  also have "\<dots> = 16 ^ k" by (simp add: power_mult)
  finally have "unat z < 16 ^ k" for z :: "'a word" using unsigned_less [of z] by (rule order_less_le_trans [rotated])
  then have "unat x = unat y" using hex_field_inj assms(1) by blast
  then show ?thesis by (simp only: word_unat_eq_iff)
qed

lemma hex_bytes_inj:
  "length xs = length ys \<Longrightarrow>
   concat (map (\<lambda>b. hex_field 2 (unat b)) xs) = concat (map (\<lambda>b. hex_field 2 (unat (b :: u8))) ys) \<Longrightarrow> xs = ys"
proof (induction xs ys rule: list_induct2)
  case (Cons x xs y ys)
  then have "hex_field 2 (unat x) = hex_field 2 (unat y)" by simp
  then have "x = y" by (rule hex_word_inj) simp
  then show ?case using Cons by simp
qed simp

lemma unpack_inject:
  assumes "upnp_uuid_unpack u = upnp_uuid_unpack v" "length (node u) = 6" "length (node v) = 6"
  shows "u = v"
proof -
  have e: "hex_field 8 (unat (time_low u)) = hex_field 8 (unat (time_low v))" "hex_field 4 (unat (time_mid u)) = hex_field 4 (unat (time_mid v))"
    "hex_field 4 (unat (time_hi_and_version u)) = hex_field 4 (unat (time_hi_and_version v))"
    "hex_field 2 (unat (clock_seq_hi_and_reserved u)) = hex_field 2 (unat (clock_seq_hi_and_reserved v))"
    "hex_field 2 (unat (clock_seq_low u)) = hex_field 2 (unat (clock_seq_low v))"
    "concat (map (\<lambda>b. hex_field 2 (unat b)) (node u)) = concat (map (\<lambda>b. hex_field 2 (unat b)) (node v))"
    using assms by (simp_all add: upnp_uuid_unpack_def)
  have "time_low u = time_low v" "time_mid u = time_mid v" "time_hi_and_version u = time_hi_and_version v"
    "clock_seq_hi_and_reserved u = clock_seq_hi_and_reserved v" "clock_seq_low u = clock_seq_low v"
    by (rule hex_word_inj [OF e(1)] hex_word_inj [OF e(2)] hex_word_inj [OF e(3)] hex_word_inj [OF e(4)] hex_word_inj [OF e(5)]; simp)+
  moreover have "node u = node v" using hex_bytes_inj [OF _ e(6)] assms(2,3) by simp
  ultimately show ?thesis by simp
qed

lemma unpack_length: "length (node u) = 6 \<Longrightarrow> length (upnp_uuid_unpack u) = 36"
proof -
  have "length (concat (map (\<lambda>b. hex_field 2 (unat b)) (bs :: u8 list))) = 2 * length bs" for bs by (induction bs) auto
  then show "length (node u) = 6 \<Longrightarrow> ?thesis" by (simp add: upnp_uuid_unpack_def)
qed

lemma random_info_length: "length (get_random_info c r) = 16"
  by (simp add: get_random_info_def MD5Final_def Let_def PUT_32BIT_LE_def split: prod.splits)

lemma uuid_run_nodes:
  assumes "uuid_run c r ins s = Some (us, s')" "uuid_inv s" "length (saved_node s) = 6" "\<forall>i \<in> set ins. clock_ok (fst i)"
  shows "\<forall>u \<in> set us. length (node u) = 6"
  using assms
proof (induction ins arbitrary: s us)
  case (Cons i ins)
  obtain tps rnd where i: "i = (tps, rnd)" by fastforce
  obtain u s1 us1 where u: "uuid_create tps c r rnd s = Some (u, s1)" "uuid_run c r ins s1 = Some (us1, s')" "us = u # us1"
    using Cons.prems(1) i by (auto split: option.splits)
  have ck: "clock_ok tps" using Cons.prems(4) i by simp
  note st = uuid_create_step [OF Cons.prems(2) ck u(1)]
  have "length (node u) = 6" using st Cons.prems(3) by (simp add: format_uuid_v1_def)
  then show ?case using Cons.IH [OF u(2)] st Cons.prems(3,4) u(3) by auto
qed simp

lemma first_node_length:
  assumes "uuid_create tps c r rnd uuid_initial = Some (u, s1)" "clock_ok tps"
  shows "length (saved_node s1) = 6"
proof -
  obtain ts s0 where g: "get_current_time tps uuid_initial = Some (ts, s0)" using assms(1) by (auto simp: uuid_create_def split: option.splits)
  have "\<not> node_inited s0" "\<not> stateInited s0" using get_current_time_spec [OF g assms(2)] by (simp_all add: uuid_initial_def)
  then show ?thesis
    using assms(1) g random_info_length [of c r]
    by (auto simp: uuid_create_def get_ieee_node_identifier_def Let_def read_state_def true_random_def write_state_def)
qed

section \<open>The order of UUIDs\<close>

definition uuid_key :: "uuid_upnp \<Rightarrow> nat list" where
  "uuid_key u = [unat (time_low u), unat (time_mid u), unat (time_hi_and_version u), unat (clock_seq_hi_and_reserved u), unat (clock_seq_low u)] @
     map unat (node u)"

lemma node_compare_key:
  "length xs = length ys \<Longrightarrow>
   node_compare xs ys = (if map unat xs < map unat ys then -1 else if map unat xs = map unat ys then 0 else 1)"
  by (induction xs ys rule: node_compare.induct) (auto simp: word_less_nat_alt word_unat_eq_iff)

section \<open>Properties\<close>

text \<open>
  C18. UUIDs are unique: of any 16384 consecutive calls of \<open>uuid_create\<close> since the start of the library no two return
  the same UUID, and the strings printed for them are all different and have 36 characters. The clock may
  stand still or go back between the calls; every reading must be one that \<open>clock_ok\<close> admits, which all
  readings of the next 3000 years are.
\<close>

theorem uuids_unique:
  assumes "uuid_run c r (before @ ins) uuid_initial = Some (us, s')" "\<forall>i \<in> set (before @ ins). clock_ok (fst i)"
    and "length ins \<le> 2 ^ 14"
  shows "distinct (map upnp_uuid_unpack (drop (length before) us)) \<and> (\<forall>u \<in> set us. length (upnp_uuid_unpack u) = 36)"
proof -
  have n: "\<forall>u \<in> set us. length (node u) = 6"
  proof (cases "before @ ins")
    case (Cons i rest)
    obtain tps rnd where i: "i = (tps, rnd)" by fastforce
    obtain u s1 us1 where u: "uuid_create tps c r rnd uuid_initial = Some (u, s1)" "uuid_run c r rest s1 = Some (us1, s')" "us = u # us1"
      using assms(1) Cons i by (auto split: option.splits)
    have ck: "clock_ok tps" "\<forall>i \<in> set rest. clock_ok (fst i)" using assms(2) Cons i by auto
    have f: "uuid_inv s1" "u = format_uuid_v1 (st_cs s1) (st_ts s1) (saved_node s1)"
      using uuid_create_first [OF _ ck(1) u(1)] by (simp_all add: uuid_initial_def)
    note l = first_node_length [OF u(1) ck(1)]
    show ?thesis using uuid_run_nodes [OF u(2) f(1) l ck(2)] l f(2) u(3) by (simp add: format_uuid_v1_def)
  qed (use assms in simp)
  have "distinct (drop (length before) us)" by (rule consecutive_uuids_distinct [OF assms])
  moreover have "inj_on upnp_uuid_unpack (set us)" using unpack_inject n by (intro inj_onI) blast
  then have "inj_on upnp_uuid_unpack (set (drop (length before) us))" by (rule inj_on_subset) (rule set_drop_subset)
  ultimately show ?thesis using n unpack_length by (simp add: distinct_map)
qed

text \<open>A call returns as soon as the clock has moved.\<close>

lemma uuid_create_returns:
  assumes "get_system_time a \<noteq> get_system_time b"
  shows "uuid_create [a, b] c r rnd s \<noteq> None"
proof -
  have "time_loop [a, b] s \<noteq> None" for s using assms by (simp add: Let_def)
  then obtain t s1 where "time_loop [a, b] (if \<not> time_inited s then s\<lparr>uuids_this_tick := UUIDS_PER_TICK, time_inited := True\<rparr> else s) = Some (t, s1)"
    by fast
  then have "get_current_time [a, b] s \<noteq> None" unfolding get_current_time_def Let_def by (simp only: option.case prod.case) simp
  then show ?thesis by (auto simp: uuid_create_def Let_def split: prod.splits)
qed

definition two_calls :: "((int \<times> int) list \<times> int) list" where
  "two_calls = [([(1700000000, 5), (1700000000, 6)], 77), ([(1700000000, 5), (1700000000, 6)], 78)]"

theorem uuids_unique_witness:
  "\<exists>u v s'. uuid_run abc_ctx [] two_calls uuid_initial = Some ([u, v], s') \<and> upnp_uuid_unpack u \<noteq> upnp_uuid_unpack v"
proof -
  let ?tps = "[(1700000000, 5), (1700000000, 6)] :: (int \<times> int) list"
  have "get_system_time (1700000000, 5) \<noteq> get_system_time (1700000000, 6)" by (simp add: get_system_time_def)
  note ret = uuid_create_returns [OF this]
  obtain u s1 where 1: "uuid_create ?tps abc_ctx [] 77 uuid_initial = Some (u, s1)" using ret by fastforce
  obtain v s2 where 2: "uuid_create ?tps abc_ctx [] 78 s1 = Some (v, s2)" using ret by fastforce
  have r: "uuid_run abc_ctx [] two_calls uuid_initial = Some ([u, v], s2)" by (simp add: two_calls_def 1 2)
  have "\<forall>i \<in> set two_calls. clock_ok (fst i)"
    by (simp add: two_calls_def clock_ok_def get_system_time_def)
  moreover have "length two_calls \<le> 2 ^ 14" by (simp add: two_calls_def)
  ultimately show ?thesis using uuids_unique [of abc_ctx "[]" "[]" two_calls] r by auto
qed

text \<open>
  \<open>uuid_compare\<close> is the lexical comparison of UUIDs, field by field and then byte by byte of the
  node: a linear order, with 0 for equal UUIDs only.
\<close>

theorem uuid_compare_lexical:
  assumes "length (node u) = length (node v)"
  shows "uuid_compare u v = (if uuid_key u < uuid_key v then -1 else if u = v then 0 else 1)"
proof -
  have "u = v \<longleftrightarrow> uuid_key u = uuid_key v"
    by (auto simp: uuid_key_def word_unat_eq_iff inj_map_eq_map [of unat] inj_def)
  then show ?thesis
    using node_compare_key [OF assms] by (auto simp: uuid_compare_def uuid_key_def word_less_nat_alt word_unat_eq_iff)
qed

theorem uuid_compare_lexical_witness:
  "uuid_compare (format_uuid_v1 5 7 [1, 2, 3, 4, 5, 6]) (format_uuid_v1 5 8 [1, 2, 3, 4, 5, 6]) = -1"
  using uuid_compare_lexical [of "format_uuid_v1 5 7 [1, 2, 3, 4, 5, 6]" "format_uuid_v1 5 8 [1, 2, 3, 4, 5, 6]"]
  by (simp add: format_uuid_v1_def uuid_key_def)

text \<open>
  A UUID made from a name is the MD5 digest, as RFC 1321 defines it, of the name space in network
  order and the name, with version 3 and the variant bits put in; it does not depend on what the
  context held before.
\<close>

theorem name_uuid:
  assumes "length (buffer c) = 64"
  shows "uuid_create_from_name c nsid name = format_uuid_v3 (md5 (net_bytes nsid @ name)) \<and>
    drop_bit 12 (time_hi_and_version (uuid_create_from_name c nsid name)) = 3 \<and>
    drop_bit 6 (clock_seq_hi_and_reserved (uuid_create_from_name c nsid name)) = 2"
proof -
  have "fst (MD5Final (foldl MD5Update (MD5Init c) [net_bytes nsid, name])) = md5 (net_bytes nsid @ name)"
    using MD5Final_rep [OF MD5Update_rep [OF MD5Update_rep [OF MD5Init_rep [OF assms]]]] by simp
  moreover have "drop_bit 12 (time_hi_and_version (format_uuid_v3 h)) = 3" "drop_bit 6 (clock_seq_hi_and_reserved (format_uuid_v3 h)) = 2" for h
    by (simp_all add: format_uuid_v3_def drop_bit_or drop_bit_and)
  ultimately show ?thesis by (simp add: uuid_create_from_name_def)
qed

definition dns_nsid :: uuid_upnp where
  "dns_nsid = \<lparr>time_low = 0x6ba7b810, time_mid = 0x9dad, time_hi_and_version = 0x11d1, clock_seq_hi_and_reserved = 0x80,
     clock_seq_low = 0xb4, node = [0x00, 0xc0, 0x4f, 0xd4, 0x30, 0xc8]\<rparr>"

theorem name_uuid_witness:
  "uuid_create_from_name abc_ctx dns_nsid [0x61] = format_uuid_v3 (md5 (net_bytes dns_nsid @ [0x61])) \<and>
   drop_bit 12 (time_hi_and_version (uuid_create_from_name abc_ctx dns_nsid [0x61])) = 3"
proof -
  have "length (buffer abc_ctx) = 64" by (simp add: abc_ctx_def)
  from name_uuid [OF this, of dns_nsid "[0x61]"] show ?thesis by blast
qed

text \<open>
  Only every second call within one clock reading gets a new time: the count is compared with the reading
  but the time of the last UUID, count included, is remembered, so the count starts again at 0 and the
  clock sequence has to tell the UUIDs apart.
\<close>

lemma same_tick_times:
  "case get_current_time [(1, 0)] uuid_initial of None \<Rightarrow> False | Some (t1, s1) \<Rightarrow>
   case get_current_time [(1, 0)] s1 of None \<Rightarrow> False | Some (t2, s2) \<Rightarrow>
   case get_current_time [(1, 0)] s2 of None \<Rightarrow> False | Some (t3, s3) \<Rightarrow> t2 = t1 + 1 \<and> t3 = t1"
  by code_simp

end
