(* ===== verification/Ixml_Open.thy ===== *)
theory Ixml_Open
  imports Ixml_Load
begin

text \<open>
  Theorems on the parser: its rounds get shorter, the stack of open elements is the path from the current
  node up to the document, and the checks of an end tag agree. The proofs follow what the operations leave
  alone in the heap (\<open>frame\<close>) and in the parser (\<open>keeps\<close>), through the rules of the locale \<open>kept\<close>.
\<close>

section \<open>Evaluation\<close>

text \<open>Equations with which the parser is evaluated on concrete input.\<close>

lemma tolower_code [code]:
  "tolower (Char b0 b1 b2 b3 b4 b5 b6 b7) =
     (if \<not> b7 \<and> b6 \<and> \<not> b5 \<and> (b0 \<or> b1 \<or> b2 \<or> b3 \<or> b4) \<and> \<not> (b4 \<and> b3 \<and> (b2 \<or> (b1 \<and> b0)))
      then Char b0 b1 b2 b3 b4 True b6 b7 else Char b0 b1 b2 b3 b4 b5 b6 b7)"
proof -
  have c: "char_of (byte_of (Char b0 b1 b2 b3 b4 False True False) + 32) = Char b0 b1 b2 b3 b4 True True False"
    by (cases b4; cases b3; cases b2; cases b1; cases b0; simp add: char_of_def byte_of_def bit_simps)
  have "isupper (Char b0 b1 b2 b3 b4 b5 b6 b7) \<longleftrightarrow> \<not> b7 \<and> b6 \<and> \<not> b5 \<and> (b0 \<or> b1 \<or> b2 \<or> b3 \<or> b4) \<and> \<not> (b4 \<and> b3 \<and> (b2 \<or> (b1 \<and> b0)))"
    unfolding isupper_def byte_of_def
    by (cases b7; cases b6; cases b5; cases b4; cases b3; cases b2; cases b1; cases b0; simp)
  then show ?thesis using c by (auto simp: tolower_def)
qed

lemma byte_of_int: "int (byte_of c) = of_char c"
  by (cases c) (simp add: byte_of_def)

lemma schar_code [code]: "schar c = (let b = of_char c :: int in if b < 128 then b else b - 256)"
  by (simp only: schar_def byte_of_int)

lemma at_byte_code [code]: "at_byte s i = (if i < length s then of_char (s ! i) else 0)"
  by (simp only: at_byte_def byte_of_int)

lemma at_key_code [code]:
  "at_key s key \<longleftrightarrow> (if NUL \<in> set key then strncmp s key (length key) = 0 else take (length key) s = key)"
  using at_key_take [of key s] by (simp add: at_key_def)

lemma byte_of_zero: "byte_of c = 0 \<longleftrightarrow> c = NUL"
  using byte_of_eq [of c NUL] by (simp add: byte_of_def NUL_def)

lemma tolower_NUL: "tolower c = NUL \<longleftrightarrow> c = NUL"
  using byte_of_zero [of "tolower c"] byte_of_zero [of c] by (auto simp: byte_of_tolower isupper_def split: if_splits)

lemma strncasecmp_code:
  "NUL \<notin> set key \<Longrightarrow> strncasecmp s key (length key) = 0 \<longleftrightarrow>
     list_all2 (\<lambda>a b. a = b \<or> tolower a = tolower b) (take (length key) s) key"
  unfolding strncasecmp_def
proof (induction key arbitrary: s)
  case (Cons y b)
  have "byte_of (tolower y) \<noteq> 0" using Cons.prems by (simp add: byte_of_zero tolower_NUL) metis
  then show ?case using Cons by (cases s) (auto simp: byte_of_eq)
qed simp

lemma at_key_nocase_code [code]:
  "at_key_nocase s key \<longleftrightarrow> (if NUL \<in> set key then strncasecmp s key (length key) = 0
     else list_all2 (\<lambda>a b. a = b \<or> tolower a = tolower b) (take (length key) s) key)"
  using strncasecmp_code [of key s] by (simp add: at_key_nocase_def)

section \<open>The open elements\<close>

text \<open>
  What the operations of the parser leave alone: the nodes of a heap outside \<open>X\<close> keep \<open>f\<close>. A heap is
  fresh when no node lies at or above the next address.
\<close>

definition fresh_heap :: "dom_heap \<Rightarrow> bool" where
  "fresh_heap d \<longleftrightarrow> brk d \<noteq> NULL \<and> (\<forall>a. brk d \<le> a \<longrightarrow> nodes d a = None)"

definition frame :: "(IXML_Node \<Rightarrow> 'b) \<Rightarrow> addr set \<Rightarrow> dom_heap \<Rightarrow> dom_heap \<Rightarrow> bool" where
  "frame f X d d' \<longleftrightarrow> (fresh_heap d \<longrightarrow> fresh_heap d' \<and> brk d \<le> brk d' \<and>
     (\<forall>a n. a \<notin> X \<longrightarrow> nodes d a = Some n \<longrightarrow> (\<exists>n'. nodes d' a = Some n' \<and> f n' = f n)))"

lemma frame_refl [simp, intro]: "frame f X d d" by (simp add: frame_def)

lemma frame_trans:
  assumes "frame f X d d1" "frame f X d1 d2"
  shows "frame f X d d2"
  unfolding frame_def
proof (intro impI conjI allI)
  assume "fresh_heap d"
  then have 1: "fresh_heap d1" "brk d \<le> brk d1" using assms(1) by (simp_all add: frame_def)
  then show "fresh_heap d2" "brk d \<le> brk d2" using assms(2) by (auto simp: frame_def)
  fix a n assume "a \<notin> X" "nodes d a = Some n"
  then obtain n1 where "nodes d1 a = Some n1" "f n1 = f n"
    using assms(1) \<open>fresh_heap d\<close> unfolding frame_def by blast
  then obtain n2 where "nodes d2 a = Some n2" "f n2 = f n1"
    using assms(2) 1(1) \<open>a \<notin> X\<close> unfolding frame_def by blast
  then show "\<exists>n'. nodes d2 a = Some n' \<and> f n' = f n" using \<open>f n1 = f n\<close> by simp
qed

lemma frame_sub: "frame f X d d' \<Longrightarrow> X \<subseteq> Y \<Longrightarrow> frame f Y d d'"
  unfolding frame_def by blast

lemma frame_upd:
  assumes "upd d p g = Some d'" "p \<in> X \<or> (\<forall>n. f (g n) = f n)"
  shows "frame f X d d'"
proof -
  obtain n where n: "nodes d p = Some n" "d' = d\<lparr>nodes := (nodes d)(p \<mapsto> g n)\<rparr>"
    using assms(1) by (auto simp: upd_def split: option.splits)
  have "fresh_heap d \<Longrightarrow> fresh_heap d'" using n unfolding fresh_heap_def by force
  then show ?thesis using n assms(2) unfolding frame_def by auto
qed

lemma frame_malloc: "malloc_node d n = (a, d') \<Longrightarrow> frame f X d d'"
  unfolding frame_def malloc_node_def fresh_heap_def by auto

lemma frame_at:
  assumes "frame f X d d'" "fresh_heap d" "nodes d a = Some n" "a \<notin> X"
  obtains n' where "nodes d' a = Some n'" "f n' = f n"
  using assms unfolding frame_def by blast

text \<open>The name, type and parent of a node.\<close>

abbreviation (input) place :: "IXML_Node \<Rightarrow> DOMString \<times> node_type \<times> addr" where
  "place n \<equiv> (nodeName n, nodeType n, parentNode n)"

abbreviation (input) kind :: "IXML_Node \<Rightarrow> DOMString \<times> node_type" where
  "kind n \<equiv> (nodeName n, nodeType n)"

text \<open>What an operation that may fault gives is related to the state it starts in, by a relation that composes.\<close>

definition gives :: "('s \<Rightarrow> 's \<Rightarrow> bool) \<Rightarrow> 's \<Rightarrow> ('a \<Rightarrow> 's) \<Rightarrow> 'a option \<Rightarrow> bool" where
  "gives R s pr m \<longleftrightarrow> (\<forall>x. m = Some x \<longrightarrow> R s (pr x))"

locale kept =
  fixes R :: "'s \<Rightarrow> 's \<Rightarrow> bool"
  assumes refl: "R s s"
    and trans: "R a b \<Longrightarrow> R b c \<Longrightarrow> R a c"
begin

lemma none: "gives R s pr None" by (simp add: gives_def)

lemma some: "R s (pr x) \<Longrightarrow> gives R s pr (Some x)" by (simp add: gives_def)

lemma cond: "(b \<Longrightarrow> gives R s pr x) \<Longrightarrow> (\<not> b \<Longrightarrow> gives R s pr y) \<Longrightarrow> gives R s pr (if b then x else y)"
  by simp

lemma pair: "(\<And>a b. x = (a, b) \<Longrightarrow> gives R s pr (k a b)) \<Longrightarrow> gives R s pr (case x of (a, b) \<Rightarrow> k a b)"
  by (cases x) simp

lemma opt: "(x = None \<Longrightarrow> gives R s pr m) \<Longrightarrow> (\<And>a. x = Some a \<Longrightarrow> gives R s pr (k a)) \<Longrightarrow>
   gives R s pr (case x of None \<Rightarrow> m | Some a \<Rightarrow> k a)"
  by (cases x) simp_all

lemma lst: "(x = [] \<Longrightarrow> gives R s pr m) \<Longrightarrow> (\<And>a l. x = a # l \<Longrightarrow> gives R s pr (k a l)) \<Longrightarrow>
   gives R s pr (case x of [] \<Rightarrow> m | a # l \<Rightarrow> k a l)"
  by (cases x) simp_all

lemma pick: "(\<And>x. m = Some x \<Longrightarrow> gives R s pr (k x)) \<Longrightarrow> gives R s pr (m \<bind> k)"
  by (cases m) (simp_all add: gives_def)

lemma step: "gives R s g m \<Longrightarrow> (\<And>x. m = Some x \<Longrightarrow> R s (g x) \<Longrightarrow> gives R (g x) pr (k x)) \<Longrightarrow> gives R s pr (m \<bind> k)"
  by (cases m) (auto simp: gives_def intro: trans)

lemma step_snd: "gives R s snd m \<Longrightarrow> (\<And>a t. m = Some (a, t) \<Longrightarrow> R s t \<Longrightarrow> gives R t pr (k a t)) \<Longrightarrow>
   gives R s pr (m \<bind> (\<lambda>(a, t). k a t))"
  by (cases m) (auto simp: gives_def intro: trans)

lemma step_mid: "gives R s (\<lambda>x. fst (snd x)) m \<Longrightarrow>
   (\<And>a t b. m = Some (a, t, b) \<Longrightarrow> R s t \<Longrightarrow> gives R t pr (k a t b)) \<Longrightarrow>
   gives R s pr (m \<bind> (\<lambda>(a, t, b). k a t b))"
  by (cases m) (auto simp: gives_def intro: trans)

lemma mapped: "gives R s (\<lambda>x. pr (h x)) m \<Longrightarrow> gives R s pr (map_option h m)"
  by (cases m) (simp_all add: gives_def)

lemma weak: "R a b \<Longrightarrow> gives R b pr m \<Longrightarrow> gives R a pr m"
  by (auto simp: gives_def intro: trans)

lemma result: "gives R s pr m \<Longrightarrow> m = Some x \<Longrightarrow> R s (pr x)"
  by (simp add: gives_def)

end

interpretation framed: kept "frame f X" for f :: "IXML_Node \<Rightarrow> 'b" and X
  by unfold_locales (auto intro: frame_trans)

lemma upd_frame: "p \<in> X \<or> (\<forall>n. f (g n) = f n) \<Longrightarrow> gives (frame f X) d (\<lambda>x. x) (upd d p g)"
  unfolding gives_def by (blast intro: frame_upd)

lemmas heap_rules = framed.none framed.cond framed.pair framed.opt framed.mapped
  framed.step [where g = "\<lambda>x. x"] framed.step [where g = snd] framed.pick
  framed.some upd_frame frame_refl

lemma removeChild_frame: "gives (frame place {c}) d snd (ixmlNode_removeChild d p c True)"
   "gives (frame kind {}) d snd (ixmlNode_removeChild d p c True)"
  unfolding ixmlNode_removeChild_def
   apply (intro heap_rules; simp) apply (intro heap_rules; simp)
  done

lemma appendChild_frame: "gives (frame place {c}) d snd (ixmlNode_appendChild d p c)"
  unfolding ixmlNode_appendChild_def
  by (intro heap_rules removeChild_frame; simp)

lemma append_tail_frame:
  "gives (frame place {}) d2 snd
     (do {
        fc \<leftarrow> fld d2 p firstChild;
        d3 \<leftarrow>
          (if fc = NULL then upd d2 p (firstChild_update (\<lambda>_. c))
           else do {
             nx \<leftarrow> fld d2 fc nextSibling;
             prev \<leftarrow> last_sibling d2 fc nx;
             d' \<leftarrow> upd d2 prev (nextSibling_update (\<lambda>_. c));
             upd d' c (prevSibling_update (\<lambda>_. prev))
           });
        Some (rc, d3)
      })"
  by (intro heap_rules; simp)

lemma appendChild_at:
  assumes "ixmlNode_appendChild d p c = Some (IXML_SUCCESS, d')" "fresh_heap d" "nodes d c = Some n"
  shows "\<exists>n'. nodes d' c = Some n' \<and> kind n' = kind n \<and> parentNode n' = p"
proof -
  obtain pod where nn: "p \<noteq> NULL" "c \<noteq> NULL" "fld d p ownerDocument = Some pod" "ixmlNode_isAncestor d c p = Some False"
    "ixmlNode_allowChildren d p c = Some True"
    using assms(1) by (auto simp: ixmlNode_appendChild_def bind_eq_Some_conv split: if_split_asm)
  obtain isp where isp: "ixmlNode_isParent d p c = Some isp"
    using assms(1) nn by (auto simp: ixmlNode_appendChild_def bind_eq_Some_conv split: if_split_asm)
  obtain nod where nod: "fld d c ownerDocument = Some nod" "\<not> (nod \<noteq> NULL \<and> pod \<noteq> nod)"
    using assms(1) nn by (auto simp: ixmlNode_appendChild_def bind_eq_Some_conv split: if_split_asm)
  note app = assms(1) [unfolded ixmlNode_appendChild_def]
  let ?m = "if isp then map_option snd (ixmlNode_removeChild d p c True) else Some d"
  obtain d1 where d1: "?m = Some d1"
    using app nn isp nod by (cases ?m) (simp_all del: not_gr_zero neq0_conv)
  obtain d2 where d2: "upd d1 c (\<lambda>n. n\<lparr>parentNode := p, ownerDocument := pod\<rparr>) = Some d2"
    using app nn isp nod d1
    by (cases "upd d1 c (\<lambda>n. n\<lparr>parentNode := p, ownerDocument := pod\<rparr>)") (simp_all del: not_gr_zero neq0_conv)
  have "gives (frame kind {}) d (\<lambda>x. x) ?m" by (intro heap_rules removeChild_frame; simp)
  then have f1: "frame kind {} d d1" using d1 by (simp add: gives_def)
  have f3: "frame place {} d2 d'"
    using framed.result [OF append_tail_frame, of d2 p c IXML_SUCCESS "(IXML_SUCCESS, d')"] app nn isp nod d1 d2
    by (simp del: not_gr_zero neq0_conv)
  obtain n1 where n1: "nodes d1 c = Some n1" "kind n1 = kind n" using frame_at [OF f1 assms(2,3)] by auto
  have "fresh_heap d1" using f1 assms(2) by (simp add: frame_def)
  then have fr2: "fresh_heap d2" using framed.result [OF upd_frame d2, of "{c}" kind] by (simp add: frame_def)
  have n2: "nodes d2 c = Some (n1\<lparr>parentNode := p, ownerDocument := pod\<rparr>)" using d2 n1(1) by (auto simp: upd_def)
  obtain n3 where "nodes d' c = Some n3" "place n3 = place (n1\<lparr>parentNode := p, ownerDocument := pod\<rparr>)"
    using frame_at [OF f3 fr2 n2] by auto
  then show ?thesis using n1(2) by auto
qed

lemma setNodeProperties_frame: "gives (frame (\<lambda>n. (nodeName n, parentNode n)) {}) d snd (ixmlNode_setNodeProperties d a src)"
  "gives (frame f {a}) d snd (ixmlNode_setNodeProperties d a src)"
  unfolding ixmlNode_setNodeProperties_def ixmlNode_setNodeValue_def ixmlNode_setLocalName_def ixmlNode_setPrefix_def
  by (intro heap_rules; simp)+

lemma setElementNamespace_frame: "gives (frame place {}) d snd (Parser_setElementNamespace d a u)"
  unfolding Parser_setElementNamespace_def by (intro heap_rules; simp)

text \<open>The parser keeps the open elements and the places of the nodes.\<close>

definition keeps :: "Parser \<Rightarrow> Parser \<Rightarrow> bool" where
  "keeps p q \<longleftrightarrow> frame place {} (docheap p) (docheap q) \<and> currentNodePtr q = currentNodePtr p \<and>
     map es_element (pCurElement q) = map es_element (pCurElement p)"

interpretation parser: kept keeps
  by unfold_locales (auto simp: keeps_def intro: frame_trans)

lemmas parser_rules = parser.none parser.cond parser.pair parser.opt parser.lst parser.mapped

lemma keeps_same [simp]: "docheap q = docheap p \<Longrightarrow> currentNodePtr q = currentNodePtr p \<Longrightarrow>
   pCurElement q = pCurElement p \<Longrightarrow> keeps p q"
  by (simp add: keeps_def)

lemma getNextToken_keeps: "keeps p0 p \<Longrightarrow> gives keeps p0 snd (Parser_getNextToken err p)"
  apply (rule parser.weak, assumption)
  unfolding Parser_getNextToken_def Let_def
  by (intro parser_rules parser.pick parser.some; simp)

lemma frame_set: "nodes d a = Some n \<Longrightarrow> f (g n) = f n \<Longrightarrow> frame f {} d (d\<lparr>nodes := (nodes d)(a \<mapsto> g n)\<rparr>)"
  by (auto simp: frame_def fresh_heap_def)

lemma addNamespace_keeps_open: "gives keeps p snd (Parser_addNamespace p)"
proof -
  have *: "keeps p (p\<lparr>docheap := d, pNeedPrefixNode := a\<rparr>)"
    if "(if b then upd (docheap p) x (namespaceURI_update (\<lambda>_. u)) else Some (docheap p)) = Some d" for b x u d a
    using that upd_frame [of x "{}" place "namespaceURI_update (\<lambda>_. u)" "docheap p"]
    by (auto simp: keeps_def gives_def split: if_splits)
  show ?thesis
    unfolding Parser_addNamespace_def
    by (intro parser_rules parser.pick parser.some; (simp; fail)?)
      (auto simp: keeps_def intro: * [unfolded keeps_def, simplified] frame_set)
qed

lemmas parse_rules = parser_rules parser.step_snd parser.step_mid parser.pick parser.some

lemma xmlNamespace_keeps_open: "keeps p0 p \<Longrightarrow> gives keeps p0 (\<lambda>x. fst (snd x)) (Parser_xmlNamespace p n)"
  apply (rule parser.weak, assumption)
  unfolding Parser_xmlNamespace_def
  by (intro parse_rules addNamespace_keeps_open; simp add: keeps_def)

lemma processSTag_keeps: "gives keeps p (\<lambda>x. fst (snd x)) (Parser_processSTag err p n)"
  unfolding Parser_processSTag_def Let_def
  by (intro parse_rules getNextToken_keeps; simp)

lemma processETag_keeps: "gives keeps p (\<lambda>x. fst (snd (snd x))) (Parser_processETag err p n)"
  unfolding Parser_processETag_def Let_def
  by (intro parse_rules getNextToken_keeps; simp)

lemma processContent_keeps: "gives keeps p (\<lambda>x. fst (snd x)) (Parser_processContent err p n)"
  unfolding Parser_processContent_def Let_def
  by (intro parser_rules parser.pick parser.some; simp)

lemma processAttribute_keeps: "gives keeps p (\<lambda>x. fst (snd x)) (Parser_processAttribute err p n)"
  unfolding Parser_processAttribute_def Let_def
  by (intro parse_rules getNextToken_keeps xmlNamespace_keeps_open; simp)

lemma getNextNode_keeps: "gives keeps p (\<lambda>x. fst (snd (snd x))) (Parser_getNextNode err p n)"
  unfolding Parser_getNextNode_def Let_def
  by (intro parse_rules getNextToken_keeps processETag_keeps processSTag_keeps processAttribute_keeps processContent_keeps; simp)

text \<open>
  The open elements, by their names from the innermost one, are the nodes from the current one up to the
  document.
\<close>

fun spine :: "dom_heap \<Rightarrow> addr \<Rightarrow> string list \<Rightarrow> addr \<Rightarrow> bool" where
  "spine d doc [] cur \<longleftrightarrow> cur = doc \<and> (\<exists>n. nodes d cur = Some n \<and> nodeType n = eDOCUMENT_NODE)"
| "spine d doc (s # ss) cur \<longleftrightarrow>
     (\<exists>n. nodes d cur = Some n \<and> nodeName n = Some s \<and> nodeType n = eELEMENT_NODE \<and> spine d doc ss (parentNode n))"

definition open_elements :: "addr \<Rightarrow> Parser \<Rightarrow> bool" where
  "open_elements doc p \<longleftrightarrow>
     doc \<noteq> NULL \<and> fresh_heap (docheap p) \<and> spine (docheap p) doc (map es_element (pCurElement p)) (currentNodePtr p)"

lemma spine_node: "spine d doc ss cur \<Longrightarrow> \<exists>n. nodes d cur = Some n"
  by (cases ss) auto

lemma spine_frame:
  "frame place X d d' \<Longrightarrow> fresh_heap d \<Longrightarrow> (\<And>a. a \<in> X \<Longrightarrow> brk d \<le> a) \<Longrightarrow> spine d doc ss cur \<Longrightarrow> spine d' doc ss cur"
proof (induction ss arbitrary: cur)
  case Nil
  then obtain n where n: "nodes d cur = Some n" "nodeType n = eDOCUMENT_NODE" "cur = doc" by auto
  then have "cur \<notin> X" using Nil(2,3) by (auto simp: fresh_heap_def)
  then obtain n' where "nodes d' cur = Some n'" "place n' = place n" using frame_at [OF Nil(1,2) n(1)] by auto
  then show ?case using n by auto
next
  case (Cons s ss)
  then obtain n where n: "nodes d cur = Some n" "nodeName n = Some s" "nodeType n = eELEMENT_NODE"
    "spine d doc ss (parentNode n)" by auto
  then have "cur \<notin> X" using Cons(3,4) by (auto simp: fresh_heap_def)
  then obtain n' where "nodes d' cur = Some n'" "place n' = place n" using frame_at [OF Cons(2,3) n(1)] by auto
  then show ?case using n Cons.IH [OF Cons(2,3,4) n(4)] by auto
qed

lemma keeps_open: "keeps p q \<Longrightarrow> open_elements doc p \<Longrightarrow> open_elements doc q"
  using spine_frame [of "{}" "docheap p" "docheap q"]
  by (auto simp: keeps_def open_elements_def frame_def)

abbreviation (input) links :: "IXML_Node \<Rightarrow> DOMString \<times> addr \<times> addr" where
  "links n \<equiv> (nodeName n, nextSibling n, firstAttr n)"

lemma find_attr_frame:
  assumes "find_attr d (\<lambda>n. str_eq (nodeName n) s) a = Some r"
    "frame links X d d'" "fresh_heap d" "\<And>a. a \<in> X \<Longrightarrow> brk d \<le> a"
  shows "find_attr d' (\<lambda>n. str_eq (nodeName n) s) a = Some r"
proof -
  let ?t = "\<lambda>n. str_eq (nodeName n) s"
  have "\<lbrakk>dd = d; tt = ?t\<rbrakk> \<Longrightarrow> find_attr d' ?t a = Some r" if f: "find_attr dd tt a = Some r" for dd tt a r
    using f
  proof (induction dd tt a r rule: find_attr.raw_induct [rotated 1, consumes 1])
    case (1 find_attr dd tt a r)
    show ?case
    proof (cases "a = NULL")
      case True
      then show ?thesis using 1(2) by (simp add: Ixml_Element.find_attr.simps [of d'])
    next
      case False
      then obtain n m where n: "nodes d a = Some n" "str_eq (nodeName n) s = Some m"
        "(if m then Some a else find_attr dd tt (nextSibling n)) = Some r"
        using 1(2,3,4) by (auto simp: bind_eq_Some_conv)
      then have "a \<notin> X" using assms(3,4) by (auto simp: fresh_heap_def)
      then obtain n' where n': "nodes d' a = Some n'" "nodeName n' = nodeName n" "nextSibling n' = nextSibling n"
        using frame_at [OF assms(2,3) n(1)] by auto
      have "\<not> m \<Longrightarrow> Ixml_Element.find_attr d' ?t (nextSibling n) = Some r"
        using 1(1) [of dd tt "nextSibling n" r] n(3) 1(3,4) by auto
      then show ?thesis using False n n' by (subst Ixml_Element.find_attr.simps) auto
    qed
  qed
  then show ?thesis using assms(1) by blast
qed

lemma createAttribute_cases:
  assumes "ixmlDocument_createAttributeEx d doc name = Some (rc, a, d1)"
  shows "a = brk d \<and> frame f X d d1 \<and> nodes d1 a = Some (ixmlNode_init\<lparr>nodeType := eATTRIBUTE_NODE, nodeName := name, ownerDocument := doc\<rparr>)"
proof -
  obtain n where n: "malloc_node d n = (a, d1)" "n = ixmlNode_init\<lparr>nodeType := eATTRIBUTE_NODE, nodeName := name, ownerDocument := doc\<rparr>"
    using assms by (auto simp: ixmlDocument_createAttributeEx_def split: if_splits prod.splits)
  then show ?thesis using frame_malloc [OF n(1)] by (auto simp: malloc_node_def)
qed

lemma setAttributeNode_append_frame:
  assumes "find_attr d test (firstAttr e) = Some NULL" "nodes d element = Some e"
  shows "gives (frame place {}) d (\<lambda>x. snd (snd x)) (setAttributeNode_with test True b d element a)"
  unfolding setAttributeNode_with_def
  using assms by (intro heap_rules; simp add: fld_def)

lemma processAttributeName_open:
  assumes "Parser_processAttributeName doc p n = Some (IXML_SUCCESS, q)" "open_elements doc p"
  shows "open_elements doc q"
proof -
  let ?d = "docheap p" and ?cur = "currentNodePtr p"
  obtain e where e: "nodes ?d ?cur = Some e" "find_attr ?d (\<lambda>a. str_eq (nodeName a) (nodeName n)) (firstAttr e) = Some NULL"
    using assms(1)
    by (auto simp: Parser_processAttributeName_def isDuplicateAttribute_def fld_def bind_eq_Some_conv split: if_splits)
  then have dup: "isDuplicateAttribute p n = Some False" by (simp add: isDuplicateAttribute_def fld_def)
  obtain rc a d1 where c: "ixmlDocument_createAttributeEx ?d doc (nodeName n) = Some (rc, a, d1)"
    using assms(1) dup by (auto simp: Parser_processAttributeName_def bind_eq_Some_conv)
  obtain rc2 d2 where s: "ixmlNode_setNodeProperties d1 a n = Some (rc2, d2)"
    using assms(1) dup c by (auto simp: Parser_processAttributeName_def bind_eq_Some_conv)
  obtain rc3 old d3 where t: "ixmlElement_setAttributeNode d2 ?cur a False = Some (rc3, old, d3)"
    using assms(1) dup c s by (auto simp: Parser_processAttributeName_def bind_eq_Some_conv)
  have q: "rc3 = IXML_SUCCESS" "q = p\<lparr>docheap := d3\<rparr>"
    using assms(1) dup c s t by (auto simp: Parser_processAttributeName_def bind_eq_Some_conv split: if_splits)
  have fresh: "fresh_heap ?d" using assms(2) by (simp add: open_elements_def)
  have a: "a = brk ?d" and f1: "frame f {a} ?d d1" for f :: "IXML_Node \<Rightarrow> 'b" using createAttribute_cases [OF c] by auto
  have n1: "nodes d1 a = Some (ixmlNode_init\<lparr>nodeType := eATTRIBUTE_NODE, nodeName := nodeName n, ownerDocument := doc\<rparr>)"
    using createAttribute_cases [OF c] by auto
  have f2: "frame f {a} d1 d2" for f :: "IXML_Node \<Rightarrow> 'b" using framed.result [OF setNodeProperties_frame(2) s] by simp
  have fresh1: "fresh_heap d1" using f1 [of id] fresh by (simp add: frame_def)
  obtain x where x: "nodes d2 a = Some x" "nodeName x = nodeName n"
    using frame_at [OF framed.result [OF setNodeProperties_frame(1) s, simplified] fresh1 n1] by auto
  obtain d2' where u: "upd d2 a (ownerElement_update (\<lambda>_. ?cur)) = Some d2'"
    "setAttributeNode_with (\<lambda>m. str_eq (nodeName m) (nodeName n)) True True d2' ?cur a = Some (rc3, old, d3)"
    using t q x unfolding ixmlElement_setAttributeNode_def
    by (auto simp: fld_def bind_eq_Some_conv split: if_splits)
  have f3: "frame f {a} ?d d2'" for f :: "IXML_Node \<Rightarrow> 'b"
    using frame_trans [OF frame_trans [OF f1 f2] frame_upd [OF u(1)]] by simp
  have "?cur \<noteq> a" using e(1) fresh a by (auto simp: fresh_heap_def)
  then obtain e' where e': "nodes d2' ?cur = Some e'" "links e' = links e" using frame_at [where f = links, OF f3 fresh e(1)] by auto
  have "find_attr d2' (\<lambda>m. str_eq (nodeName m) (nodeName n)) (firstAttr e') = Some NULL"
    using find_attr_frame [OF e(2) f3 fresh] e'(2) a by auto
  then have "frame place {} d2' d3"
    using framed.result [OF setAttributeNode_append_frame [OF _ e'(1)] u(2)] by simp
  then have "frame place {a} ?d d3" using frame_trans [OF f3 frame_sub] by blast
  then show ?thesis
    using spine_frame [of "{a}" ?d d3] fresh a assms(2) q(2) by (auto simp: open_elements_def frame_def)
qed

lemma createElement_cases:
  assumes "ixmlDocument_createElementEx d doc tag = (rc, a, d1)" "rc = IXML_SUCCESS"
  shows "a = brk d \<and> frame f X d d1 \<and> (\<exists>x. tag = Some x) \<and> nodes d1 a = Some (ixmlNode_init\<lparr>tagName := tag,
     nodeType := eELEMENT_NODE, nodeName := tag, ownerDocument := doc\<rparr>)"
proof -
  have t: "tag \<noteq> None" using assms by (auto simp: ixmlDocument_createElementEx_def split: if_splits)
  then obtain n where n: "malloc_node d n = (a, d1)" "n = ixmlNode_init\<lparr>tagName := tag,
     nodeType := eELEMENT_NODE, nodeName := tag, ownerDocument := doc\<rparr>"
    using assms by (auto simp: ixmlDocument_createElementEx_def split: if_splits prod.splits)
  then show ?thesis using t frame_malloc [OF n(1)] by (auto simp: malloc_node_def)
qed

lemma setNodeProperties_at:
  assumes "ixmlNode_setNodeProperties d a src = Some (rc, d')" "nodes d a = Some n" "a \<noteq> NULL"
  shows "\<exists>n'. nodes d' a = Some n' \<and> nodeName n' = nodeName n \<and> nodeType n' = nodeType src"
  using assms
  by (auto simp: ixmlNode_setNodeProperties_def ixmlNode_setNodeValue_def ixmlNode_setLocalName_def ixmlNode_setPrefix_def
      upd_def bind_eq_Some_conv split: if_splits option.splits)

lemma pushElement_open:
  assumes "Parser_pushElement p a = Some (rc, q)" "fresh_heap (docheap p)" "a \<noteq> NULL"
    "nodes (docheap p) a = Some n" "nodeName n = Some s" "nodeType n = eELEMENT_NODE"
    "spine (docheap p) doc (map es_element (pCurElement p)) (parentNode n)" "currentNodePtr p = a"
    "doc \<noteq> NULL"
  shows "open_elements doc q"
  using assms by (auto simp: Parser_pushElement_def open_elements_def safe_strdup_def)

lemma processElementName_open:
  assumes "Parser_processElementName doc p0 n = Some (IXML_SUCCESS, q)" "open_elements doc p0" "nodeType n = eELEMENT_NODE"
  shows "open_elements doc q"
proof -
  let ?d = "docheap p0" and ?cur = "currentNodePtr p0"
  let ?p = "p0\<lparr>bHasTopLevel := True, savePtr := curPtr p0\<rparr>"
  note def = assms(1) [unfolded Parser_processElementName_def]
  have top: "\<not> (bHasTopLevel p0 \<and> isTopLevelElement p0)" using def by (auto split: if_splits)
  obtain rc a d1 where c: "ixmlDocument_createElementEx ?d doc (nodeName n) = (rc, a, d1)" by (metis prod_cases3)
  have rc: "rc = IXML_SUCCESS" using def top c by (auto simp: Let_def split: if_splits)
  have a: "a = brk ?d" "frame place {a} ?d d1" and f1: "frame kind {} ?d d1" using createElement_cases [OF c rc] by auto
  obtain s n1 where s: "nodeName n = Some s" and n1: "nodes d1 a = Some n1" "nodeName n1 = Some s"
    using createElement_cases [OF c rc, of id "{}"] by auto
  obtain rc2 d2 where p2: "ixmlNode_setNodeProperties d1 a n = Some (rc2, d2)"
    using def top c rc by (cases "ixmlNode_setNodeProperties d1 a n") (auto simp: Let_def)
  let ?m = "case prefix n of
                 Some pre \<Rightarrow>
                   (case Parser_ElementPrefixDefined pre (pCurElement ?p) of
                      None \<Rightarrow> Some (a, d2)
                    | Some u \<Rightarrow> do { (r, d') \<leftarrow> Parser_setElementNamespace d2 a u; Some (pNeedPrefixNode ?p, d') })
               | None \<Rightarrow>
                   (case Parser_hasDefaultNamespace (pCurElement ?p) of
                      Some u \<Rightarrow> do { (r, d') \<leftarrow> Parser_setElementNamespace d2 a u; Some (pNeedPrefixNode ?p, d') }
                    | None \<Rightarrow> Some (if pstate ?p = eATTRIBUTE then a else pNeedPrefixNode ?p, d2))"
  obtain need d3 where m: "?m = Some (need, d3)"
    using def top c rc p2 by (cases ?m) (auto simp: Let_def)
  have "gives (frame place {}) d2 snd ?m"
    by (intro framed.opt framed.step_snd framed.some framed.pick setElementNamespace_frame; simp)
  then have f3: "frame place {} d2 d3" using m by (simp add: gives_def)
  obtain rc4 d4 where ap: "ixmlNode_appendChild d3 ?cur a = Some (rc4, d4)"
    using def top c rc p2 m by (cases "ixmlNode_appendChild d3 ?cur a") (auto simp: Let_def)
  have rc4: "rc4 = IXML_SUCCESS"
    using def top c rc p2 m ap by (auto simp: Let_def bind_eq_Some_conv split: if_splits)
  have q: "Parser_pushElement (?p\<lparr>docheap := d4, pNeedPrefixNode := need, currentNodePtr := a\<rparr>) a = Some (IXML_SUCCESS, q)"
    using def top c rc p2 m ap rc4 by (simp add: Let_def)
  have fresh: "fresh_heap ?d" using assms(2) by (simp add: open_elements_def)
  have fr1: "fresh_heap d1" using f1 fresh by (simp add: frame_def)
  have f2: "frame place {a} d1 d2" using framed.result [OF setNodeProperties_frame(2) p2] by simp
  have fr2: "fresh_heap d2" using f2 fr1 by (simp add: frame_def)
  have fr3: "fresh_heap d3" using f3 fr2 by (simp add: frame_def)
  have a0: "a \<noteq> NULL" using a(1) fresh by (simp add: fresh_heap_def)
  obtain n2 where n2: "nodes d2 a = Some n2" "nodeName n2 = Some s" "nodeType n2 = eELEMENT_NODE"
    using setNodeProperties_at [OF p2 n1(1) a0] n1(2) assms(3) by auto
  obtain n3 where n3: "nodes d3 a = Some n3" "place n3 = place n2" using frame_at [OF f3 fr2 n2(1)] by auto
  obtain n4 where n4: "nodes d4 a = Some n4" "kind n4 = kind n3" "parentNode n4 = ?cur"
    using appendChild_at [OF ap [unfolded rc4] fr3 n3(1)] by auto
  have f4: "frame place {a} d3 d4" using framed.result [OF appendChild_frame ap] by simp
  have f: "frame place {a} ?d d4"
    by (rule frame_trans [OF frame_trans [OF a(2) frame_trans [OF f2 frame_sub [OF f3]]] f4]) simp
  have sp: "spine d4 doc (map es_element (pCurElement p0)) ?cur"
    using spine_frame [OF f fresh] a(1) assms(2) by (auto simp: open_elements_def)
  have "fresh_heap d4" using f fresh by (simp add: frame_def)
  then show ?thesis
    by (intro pushElement_open [OF q, of n4 s]) (use a0 n2 n3 n4 sp assms(2) in \<open>auto simp: open_elements_def\<close>)
qed

text \<open>
  The two checks of an end tag agree: where the open elements are the nodes up to the document, an end
  tag closes the innermost element when it has its name (then its parent becomes the current node) and is
  a syntax error otherwise, so the comparison with the name of the current node never decides, and nothing
  faults.
\<close>

theorem end_tag_verified:
  assumes "open_elements doc p" "nodeType n = eELEMENT_NODE" "nodeName n = Some s"
  shows "Parser_eTagVerification p n =
    (case pCurElement p of
       [] \<Rightarrow> Some (IXML_SYNTAX_ERR, p)
     | e # rest \<Rightarrow>
         if es_element e = s
         then map_option (\<lambda>cur. (IXML_SUCCESS, p\<lparr>pCurElement := rest, currentNodePtr := parentNode cur\<rparr>))
                (nodes (docheap p) (currentNodePtr p))
         else Some (IXML_SYNTAX_ERR, p))"
  using assms
  by (auto simp: Parser_eTagVerification_def Parser_isValidEndElement_def Parser_popElement_def open_elements_def str_eq_def
      split: list.splits)

lemma eTagVerification_open:
  assumes "Parser_eTagVerification p n = Some (IXML_SUCCESS, q)" "open_elements doc p" "nodeType n = eELEMENT_NODE"
  shows "open_elements doc q"
  using assms
  by (auto simp: Parser_eTagVerification_def Parser_isValidEndElement_def Parser_popElement_def open_elements_def str_eq_def
      bind_eq_Some_conv split: list.splits option.splits if_splits)

lemma createNode_append_open:
  assumes "malloc_node (docheap p) n = (a, d1)" "ixmlNode_appendChild d1 (currentNodePtr p) a = Some (rc, d2)"
    "open_elements doc p"
  shows "open_elements doc (p\<lparr>docheap := d2\<rparr>)"
proof -
  have "frame place {a} (docheap p) d1" by (rule frame_malloc [OF assms(1)])
  moreover have "frame place {a} d1 d2" using framed.result [OF appendChild_frame assms(2)] by simp
  ultimately have f: "frame place {a} (docheap p) d2" by (rule frame_trans)
  moreover have "a = brk (docheap p)" using assms(1) by (simp add: malloc_node_def)
  ultimately show ?thesis
    using spine_frame [OF f] assms(3) by (auto simp: open_elements_def frame_def)
qed

lemma createTextNode_malloc:
  "ixmlDocument_createTextNodeEx d doc data = (IXML_SUCCESS, a, d1) \<Longrightarrow> \<exists>n. malloc_node d n = (a, d1)"
  by (auto simp: ixmlDocument_createTextNodeEx_def split: if_splits prod.splits)

lemma createCDATASection_malloc:
  "ixmlDocument_createCDATASectionEx d doc data = (IXML_SUCCESS, a, d1) \<Longrightarrow> \<exists>n. malloc_node d n = (a, d1)"
  by (auto simp: ixmlDocument_createCDATASectionEx_def split: if_splits prod.splits)

lemma handle_node_open:
  assumes "handle_node doc b p n = Some (IXML_SUCCESS, q)" "open_elements doc p" "b \<Longrightarrow> nodeType n = eELEMENT_NODE"
  shows "open_elements doc q"
proof (cases b)
  case True
  then obtain p1 where "Parser_eTagVerification p n = Some (IXML_SUCCESS, p1)" "q = p1\<lparr>pstate := eCONTENT\<rparr>"
    using assms(1) by (auto simp: handle_node_def bind_eq_Some_conv split: if_splits)
  then show ?thesis using eTagVerification_open [of p n p1 doc] assms True by (simp add: open_elements_def)
next
  case False
  note def = assms(1) [unfolded handle_node_def]
  show ?thesis
  proof (cases "nodeType n")
    case eELEMENT_NODE
    then show ?thesis using def False processElementName_open [of doc p n q] assms(2) by simp
  next
    case eATTRIBUTE_NODE
    then show ?thesis using def False processAttributeName_open [of doc p n q] assms(2) by simp
  next
    case eTEXT_NODE
    obtain rc a d1 where c: "ixmlDocument_createTextNodeEx (docheap p) doc (nodeValue n) = (rc, a, d1)" by (metis prod_cases3)
    then have "rc = IXML_SUCCESS" using def False eTEXT_NODE by (auto split: if_splits)
    then show ?thesis
      using def False eTEXT_NODE c createTextNode_malloc [of "docheap p" doc "nodeValue n" a d1]
        createNode_append_open [of p _ a d1 _ _ doc] assms(2)
      by (auto simp: bind_eq_Some_conv)
  next
    case eCDATA_SECTION_NODE
    obtain rc a d1 where c: "ixmlDocument_createCDATASectionEx (docheap p) doc (nodeValue n) = (rc, a, d1)" by (metis prod_cases3)
    then have "rc = IXML_SUCCESS" using def False eCDATA_SECTION_NODE by (auto split: if_splits)
    then show ?thesis
      using def False eCDATA_SECTION_NODE c createCDATASection_malloc [of "docheap p" doc "nodeValue n" a d1]
        createNode_append_open [of p _ a d1 _ _ doc] assms(2)
      by (auto simp: bind_eq_Some_conv)
  qed (use def False assms(2) in auto)
qed

lemma processETag_node: "Parser_processETag err p n = Some (IXML_SUCCESS, b, q, n1) \<Longrightarrow> nodeType n1 = eELEMENT_NODE"
  by (auto simp: Parser_processETag_def Let_def bind_eq_Some_conv split: if_splits)

lemma getNextNode_end_tag:
  "Parser_getNextNode err p n = Some (IXML_SUCCESS, True, q, n1) \<Longrightarrow> nodeType n1 = eELEMENT_NODE"
  by (auto simp: Parser_getNextNode_def Let_def bind_eq_Some_conv dest: processETag_node split: if_splits option.splits)

lemma parse_loop_open:
  "parse_loop err doc p = Some (IXML_SUCCESS, q) \<Longrightarrow> open_elements doc p \<Longrightarrow> open_elements doc q"
proof (induction err doc p rule: parse_loop.induct)
  case (1 err doc p)
  obtain rc b p1 n where g: "Parser_getNextNode err p ixmlNode_init = Some (rc, b, p1, n)"
    using "1.prems"(1) by (subst (asm) parse_loop.simps) (auto split: option.splits)
  have o1: "open_elements doc p1"
    using parser.result [OF getNextNode_keeps g] keeps_open "1.prems"(2) by simp
  show ?case
  proof (cases "rc = IXML_SUCCESS")
    case True
    obtain rc1 p2 where h: "handle_node doc b p1 n = Some (rc1, p2)"
      using "1.prems"(1) g True by (subst (asm) parse_loop.simps) (auto split: option.splits)
    have rc1: "rc1 = IXML_SUCCESS" and l: "parse_loop err doc p2 = Some (IXML_SUCCESS, q)"
      using "1.prems"(1) g True h by (subst (asm) parse_loop.simps, simp split: if_splits)+
    have "b \<Longrightarrow> nodeType n = eELEMENT_NODE" using getNextNode_end_tag g True by auto
    then have "open_elements doc p2" using handle_node_open [OF h [unfolded rc1] o1] by blast
    then show ?thesis using "1.IH" [OF g _ _ _ True h] l rc1 by auto
  next
    case False
    then show ?thesis using "1.prems"(1) g o1 by (subst (asm) parse_loop.simps) (auto split: if_splits)
  qed
qed

lemma spine_doc: "spine d doc ss cur \<Longrightarrow> \<exists>n. nodes d doc = Some n \<and> nodeType n = eDOCUMENT_NODE"
  by (induction ss arbitrary: cur) auto

text \<open>
  C37. The loop of the parser keeps the open elements: their names, from the innermost one, are the names of
  the nodes from the current one up to the document. So the test at its end, that the stack is empty, says
  that the current node is the document again, every element closed by its end tag.
\<close>

theorem parse_keeps_open:
  assumes "parse_loop err doc p = Some (IXML_SUCCESS, q)" "open_elements doc p"
  shows "open_elements doc q \<and> (pCurElement q = [] \<longleftrightarrow> currentNodePtr q = doc)"
proof -
  have o: "open_elements doc q" by (rule parse_loop_open [OF assms])
  then have "pCurElement q = [] \<longleftrightarrow> currentNodePtr q = doc"
    using spine_doc [of "docheap q" doc "map es_element (pCurElement q)" "currentNodePtr q"]
    by (cases "pCurElement q") (auto simp: open_elements_def)
  then show ?thesis using o by blast
qed

definition empty_heap :: dom_heap where "empty_heap = \<lparr>nodes = (\<lambda>_. None), brk = 1\<rparr>"

text \<open>A parser that has its document and the text \<open>s\<close> to read.\<close>

definition parser_at :: "string \<Rightarrow> Parser" where
  "parser_at s = (case ixmlDocument_createDocumentEx empty_heap of
     (rc, doc, d) \<Rightarrow> (Parser_init d)\<lparr>currentNodePtr := doc, curPtr := s\<rparr>)"

definition sample_parse :: "(ixml_code \<times> Parser) option" where
  "sample_parse = parse_loop NUL 1 (parser_at ''<a x='1'><b/></a>'')"

lemma sample_parse_ok: "map_option (\<lambda>(rc, q). (rc, currentNodePtr q, pCurElement q)) sample_parse = Some (IXML_SUCCESS, 1, [])"
  by code_simp

lemma parser_at_open: "open_elements 1 (parser_at s)"
  by (simp add: open_elements_def parser_at_def ixmlDocument_createDocumentEx_def malloc_node_def empty_heap_def Parser_init_def
      fresh_heap_def ixmlNode_init_def)

lemma parse_keeps_open_witness:
  "\<exists>q. sample_parse = Some (IXML_SUCCESS, q) \<and> open_elements 1 q \<and> currentNodePtr q = 1"
proof -
  obtain q where q: "sample_parse = Some (IXML_SUCCESS, q)" "pCurElement q = []"
    using sample_parse_ok by (auto split: prod.splits)
  have "open_elements 1 q \<and> (pCurElement q = [] \<longleftrightarrow> currentNodePtr q = 1)"
    by (rule parse_keeps_open [OF q(1) [unfolded sample_parse_def] parser_at_open])
  then show ?thesis using q by blast
qed

text \<open>The parser in the element \<open>a\<close>, with \<open>s\<close> left.\<close>

definition sample_open :: "string \<Rightarrow> Parser" where
  "sample_open s = (parser_at s)\<lparr>pCurElement := [\<lparr>es_element = ''a'', es_prefix = None, es_namespaceUri = None, pNsURI = []\<rparr>],
     docheap := (docheap (parser_at s))\<lparr>nodes := (nodes (docheap (parser_at s)))(2 \<mapsto>
       ixmlNode_init\<lparr>nodeName := Some ''a'', nodeType := eELEMENT_NODE, parentNode := 1\<rparr>), brk := 3\<rparr>,
     currentNodePtr := 2\<rparr>"

lemma end_tag_verified_witness:
  "map_option fst (Parser_eTagVerification (sample_open []) (ixmlNode_init\<lparr>nodeType := eELEMENT_NODE, nodeName := Some ''a''\<rparr>))
     = Some IXML_SUCCESS \<and>
   map_option fst (Parser_eTagVerification (sample_open []) (ixmlNode_init\<lparr>nodeType := eELEMENT_NODE, nodeName := Some ''b''\<rparr>))
     = Some IXML_SYNTAX_ERR"
proof -
  have o: "open_elements 1 (sample_open [])"
    by (simp add: sample_open_def open_elements_def parser_at_def ixmlDocument_createDocumentEx_def malloc_node_def
        empty_heap_def Parser_init_def fresh_heap_def ixmlNode_init_def)
  show ?thesis
    by (simp add: end_tag_verified [OF o, of _ "''a''"] end_tag_verified [OF o, of _ "''b''"])
      (simp add: sample_open_def)
qed





section \<open>Inputs the parser takes or drops\<close>

text \<open>\<open><!-->\<close> is taken for a whole comment, and \<open><?>\<close> for a whole processing instruction.\<close>

lemma short_comment_accepted: "Parser_skipComment ''<!--><a/>'' = (IXML_SUCCESS, ''<a/>'')"
  by code_simp

lemma short_instruction_accepted: "Parser_skipPI ''<?><a/>'' = (IXML_SUCCESS, ''<a/>'')"
  by code_simp

text \<open>A CDATA section ends at the first byte that is not ASCII, and the next three bytes are lost.\<close>

lemma cdata_cut:
  "map_option (\<lambda>(rc, t, n). (rc, t, nodeValue n))
     (Parser_processCDSect (''<![CDATA[ab'' @ [CHR 0xC3, CHR 0xA9] @ ''cd]]></a>'') ixmlNode_init) =
     Some (IXML_SUCCESS, ''d]]></a>'', Some ''ab'')"
  by code_simp

end
