(* ===== verification/Spec2Isabelle.thy ===== *)
theory Spec2Isabelle
  imports Gena_Props Thread_Pool_Props Timer_Thread Mem_Buffer Uri_Props Http_Resume Http_Entity Uuid Ixml_Open
begin

text \<open>
  A verification development for the Portable SDK for UPnP Devices (pupnp), the C library under
  \<^verbatim>\<open>src/upnp\<close> and \<^verbatim>\<open>src/ixml\<close>.

  \<^bold>\<open>The program.\<close> The library lets an application be a UPnP device or a control point. All work runs
  as jobs of thread pools (\<^verbatim>\<open>threadutil\<close>), whose queues are linked lists with nodes from free lists.
  Messages arrive as HTTP over TCP or UDP; their bytes are collected in growable buffers
  (\<^verbatim>\<open>genlib/util/membuffer.c\<close>) and read piece by piece by one incremental parser
  (\<^verbatim>\<open>genlib/net/http/httpparser.c\<close>), which looks methods and header names up in sorted name tables
  (\<^verbatim>\<open>genlib/util/strintmap.c\<close>) and parses URLs (\<^verbatim>\<open>genlib/net/uri/uri.c\<close>). Above this level stand
  discovery (SSDP), description, control (SOAP), eventing (GENA) and the web server. Descriptions are XML
  documents, read and built by \<^verbatim>\<open>ixml\<close>; the services of a registered device are taken from its
  description (\<^verbatim>\<open>service_table.c\<close>) into the table of handles (\<^verbatim>\<open>upnpapi.c\<close>), where subscriptions
  (\<^verbatim>\<open>gena_device.c\<close>) hang off them and events wait in queues for jobs of the thread pool.

  \<^bold>\<open>The theories.\<close> A C structure is a record, an enumeration a datatype, a function a HOL function
  that takes the structure and returns it changed. What code outside the repository decides (the answer of
  \<open>malloc\<close>, the clock, name resolution) is an argument or part of the state. Error returns are values.

  \<^item> \<open>Upnp_Prelude\<close>: C strings, \<^verbatim>\<open>ctype.h\<close>, \<open>strcmp\<close> and its relatives, \<open>strtol\<close>, conversions to 32 bits,
    sums of \<open>size_t\<close>, lemmas on lists.
  \<^item> \<open>Free_List\<close> (\<^verbatim>\<open>threadutil/FreeList.c\<close>): the chain of freed cells; a cell is never handed out twice.
    The locale \<open>cell_pool\<close> states what users rely on and is interpreted on the operations.
  \<^item> \<open>Linked_List\<close> (\<^verbatim>\<open>threadutil/LinkedList.c\<close>): every operation on a heap of nodes with checked reads and
    writes through pointers, refined to operations on sequences; the locale \<open>fifo\<close> is the contract of
    a queue.
  \<^item> \<open>Thread_Pool\<close> (\<^verbatim>\<open>threadutil/ThreadPool.c\<close>): the pool with its three queues, the sections a worker and
    the callers execute under the mutex, and a step relation that interleaves them in every way, spurious
    wake-ups and failing thread creation included.
    \<open>Thread_Pool_Props\<close>: the counters in every reachable state, the bound on workers, conservation of
    jobs, the order in which jobs are taken, ageing, removal on the pointer-level list.
  \<^item> \<open>Mem_Buffer\<close> (\<^verbatim>\<open>membuffer.c\<close>): the buffer with the block it owns; every access is checked against the
    block, sizes wrap at $2^{64}$; the locale \<open>text_buffer\<close> is the contract of the string builder.
  \<^item> \<open>Str_Int_Map\<close> (\<^verbatim>\<open>strintmap.c\<close>): binary search by name, linear search by number; the locale
    \<open>keyed_compare\<close> relates a three-way comparison to an order of keys and is interpreted for both
    comparisons.
  \<^item> \<open>Uri_Parser\<close>, \<open>Uri_Props\<close> (\<^verbatim>\<open>uri.c\<close>): character classes, escapes, the parser, removal of dot segments,
    relative references; equivalence of the in-place algorithms with reference definitions, bounds of
    tokens, a round trip.
  \<^item> \<open>Http_Tables\<close>, \<open>Http_Scanner\<close>, \<open>Http_Parser\<close> (\<^verbatim>\<open>httpparser.c\<close>): the tables, the tokenizer and the
    pattern matcher, the message parser. \<open>Http_Scan_Props\<close>: the locale \<open>incremental\<close> is what makes a piece of
    the matcher usable on data that is still arriving; it is interpreted on every piece and composed for
    patterns. \<open>Http_Resume\<close>: parsing resumed after more data equals parsing at once.
    \<open>Http_Entity\<close>: chunked entities and entities with a length.

  \<^item> \<open>Timer_Thread\<close> (\<^verbatim>\<open>threadutil/TimerThread.c\<close>): the queue of timed events on the pointer-level list, the
    calls and the rounds of the worker as steps; the fate of every event, termination of every call.
  \<^item> \<open>Md5\<close>, \<open>Uuid\<close> (\<^verbatim>\<open>uuid/md5.c\<close>, \<^verbatim>\<open>uuid.c\<close>, \<^verbatim>\<open>sysdep.c\<close>): the digest against RFC 1321 on machine words,
    the clock of UUIDs, uniqueness, printing.
  \<^item> \<open>Ixml_Chars\<close>, \<open>Ixml_Node\<close>, \<open>Ixml_Element\<close>, \<open>Ixml_Parser\<close>, \<open>Ixml_Load\<close> (\<^verbatim>\<open>ixml/src\<close>): characters and UTF-8, the
    nodes with their pointers and operations, elements, attributes, documents and the printer, the parser.
    \<open>Ixml_Tree\<close> reads ordered trees off the pointers and proves what each operation does to them;
    \<open>Ixml_Attrs\<close> does so for attributes; \<open>Ixml_Open\<close> proves the parser's progress and its stack of open
    elements.
  \<^item> \<open>Gena_Events\<close>, \<open>Service_Table\<close>, \<open>Handle_Table\<close>, \<open>Gena_Device\<close>: events and subscriptions on a heap of
    counted texts, the services of a device, the handles with registration, and every section of
    eventing on the device.
    \<open>Gena_Queues\<close> states the picture \<open>J\<close> of all queues, the pool, the jobs under way and the log of messages,
    and how each kind of change keeps it; \<open>Gena_State\<close> reads the picture off the state, \<open>Gena_Sections\<close> shows
    that every section runs without a fault and keeps it, and \<open>Gena_Props\<close> composes the sections to a system
    with its reachable states: exactly which steps fault, order and keys of messages, one message at a time,
    counters, progress. Its \<open>allowed\<close> lists what is assumed of the environment, each where the code fails
    without it: the list nodes of events can be allocated, UUIDs are new, the bytes behind a header do not
    change between two reads. Allocations that fail before the lock of a notification and a second
    unregistering of a device are not assumed away; they are the two faults of the safety theorem.

  \<^bold>\<open>Bounds and termination.\<close> Loops are functions with termination proofs; the loops of \<open>ListDestroy\<close>
  and of the in-place URI algorithms, which run through mutable memory, may be undefined in the model, and
  the theorems state that they return. No definition of the code is bounded by fuel; the loop of the XML parser is
  also given with a limit on its rounds, and 2 n + 2 rounds for n characters are proved to be enough. Machine
  integers are integers with the wrap-around written out where the code depends on it: the ids of
  timed events and the event keys (\<open>int\<close>), the start of the path of a URI (\<open>int\<close>), sizes of buffers and of
  property sets (\<open>size_t\<close>), the fields of UUIDs and the digest (machine words).

  \<^bold>\<open>Not modelled.\<close> Socket and file input and output, thread creation itself and the operating
  system's locks (a section under the mutex is one step), debug printing, the generated accessor objects,
  start-up and interface discovery, and of the parts above the message level those listed in the
  manifest: SSDP, SOAP, eventing of control points and the web server.
\<close>

end
